(* ===== verification/Prelude.thy ===== *)
theory Prelude
  imports Main "HOL-Library.Word"
begin

unbundle bit_operations_syntax

text \<open>
  The prelude of the development: the machine-integer types the sources use, the names for the
  C++ conversions between them, and the generic lemmas on words and lists that the component
  theories share.

  \<^item> \<open>u32\<close> and \<open>u64\<close> stand for \<open>uint32_t\<close> and \<open>uint64_t\<close>; arithmetic on them wraps, as in C++.
  \<^item> \<open>lo32 x\<close> is \<open>static_cast<uint32_t>(x)\<close> of a \<open>uint64_t\<close>, \<open>hi32 x\<close> is \<open>x >> 32\<close>, and
    \<open>w64 x\<close> is the widening \<open>static_cast<uint64_t>(x)\<close> of a \<open>uint32_t\<close>.
  \<^item> \<open>kBase\<close> is the limb base \<open>1ULL << 32\<close>, kept opaque so that arithmetic on limb values is
    plain algebra over one constant.
  \<^item> the collection \<open>word_nat\<close> holds the rewrite rules that carry an equation on words to
    natural numbers.
\<close>

type_synonym u8 = "8 word"
type_synonym u16 = "16 word"
type_synonym u32 = "32 word"
type_synonym u64 = "64 word"

named_theorems word_nat

abbreviation lo32 :: "u64 \<Rightarrow> u32" where
  "lo32 x \<equiv> ucast x"

abbreviation hi32 :: "u64 \<Rightarrow> u64" where
  "hi32 x \<equiv> drop_bit 32 x"

abbreviation w64 :: "u32 \<Rightarrow> u64" where
  "w64 x \<equiv> ucast x"

definition kBase :: nat where
  "kBase = 2 ^ 32"

subsection \<open>Words as natural numbers\<close>

lemma kBase_pos [simp]: "0 < kBase"
  by (simp add: kBase_def)

lemma kBase_neq_0 [simp]: "kBase \<noteq> 0"
  by (simp add: kBase_def)

lemma kBase_ge_1 [simp]: "Suc 0 \<le> kBase"
  by (simp add: kBase_def)

lemma kBase_ge_2: "2 \<le> kBase"
  by (simp add: kBase_def)

lemma kBase_sq: "kBase * kBase = 2 ^ 64"
  by (simp add: kBase_def)

lemma unat_lt2p_aux: "unat (x :: 'a::len word) < 2 ^ LENGTH('a)"
  by (rule unsigned_less)

lemma unat_lt_kBase [simp]: "unat (x :: u32) < kBase"
  using unat_lt2p_aux [of x] by (simp add: kBase_def)

lemma uint_lt_kBase: "uint (x :: u32) < int kBase"
  using unat_lt_kBase [of x] by (simp only: uint_nat of_nat_less_iff)

lemma unat_le_kBase: "unat (x :: u32) \<le> kBase - 1"
  using unat_lt_kBase [of x] by linarith

lemma unat_lt_kBase_sq [simp]: "unat (x :: u64) < kBase * kBase"
  using unat_lt2p_aux [of x] by (simp add: kBase_def)

lemma unat_lo32 [word_nat]: "unat (lo32 x) = unat x mod kBase"
  by (simp add: unsigned_ucast_eq take_bit_eq_mod kBase_def)

lemma unat_hi32 [word_nat]: "unat (hi32 x) = unat x div kBase"
  by (subst unat_drop_bit_eq) (simp add: drop_bit_eq_div kBase_def)

lemma unat_w64 [simp, word_nat]: "unat (w64 x) = unat x"
proof -
  have "unat x < 2 ^ 32"
    using unat_lt2p_aux [of x] by simp
  then have "unat x < 2 ^ 64"
    by simp
  then show ?thesis
    by (simp add: unsigned_ucast_eq take_bit_eq_mod)
qed

lemma unat_lo_hi: "unat (lo32 x) + kBase * unat (hi32 x) = unat x"
  by (simp add: word_nat)

lemma unat_add_u64: "unat a + unat b < kBase * kBase \<Longrightarrow> unat (a + b :: u64) = unat a + unat b"
  by (simp add: unat_word_ariths kBase_sq)

lemma unat_mult_u64: "unat a * unat b < kBase * kBase \<Longrightarrow> unat (a * b :: u64) = unat a * unat b"
  by (simp add: unat_word_ariths kBase_sq)

lemma unat_mult_limbs: "unat (w64 a * w64 b) = unat a * unat b"
proof -
  have "unat a * unat b < kBase * kBase"
    by (intro mult_strict_mono) simp_all
  then show ?thesis
    by (simp add: unat_mult_u64)
qed

lemma limb_product_bound: "unat (a :: u32) * unat (b :: u32) + 2 * (kBase - 1) < kBase * kBase"
proof -
  obtain k where k: "kBase = Suc k"
    using kBase_pos gr0_conv_Suc by blast
  have "unat a * unat b \<le> k * k"
    using unat_le_kBase [of a] unat_le_kBase [of b] k by (intro mult_le_mono) simp_all
  then show ?thesis
    by (simp add: k)
qed

text \<open>The one step every limb loop makes: \<open>x * y + c + d\<close> never wraps in 64 bits.\<close>

lemma unat_mul_add:
  assumes "unat c < kBase"
  shows "unat (w64 a * w64 b + c) = unat a * unat b + unat c"
proof -
  have "unat a * unat b + unat c < kBase * kBase"
    using limb_product_bound [of a b] assms by linarith
  then show ?thesis
    by (subst unat_add_u64) (simp_all add: unat_mult_limbs)
qed

lemma unat_mul_add_add:
  assumes "unat c < kBase"
  shows "unat (w64 d + w64 a * w64 b + c) = unat d + unat a * unat b + unat c"
proof -
  have less: "unat d + unat a * unat b + unat c < kBase * kBase"
    using limb_product_bound [of a b] assms unat_lt_kBase [of d] by linarith
  have "unat (w64 d + w64 a * w64 b) = unat d + unat a * unat b"
    using less by (subst unat_add_u64) (simp_all add: unat_mult_limbs)
  with less show ?thesis
    by (subst unat_add_u64) simp_all
qed

lemma kBase_sq_ge: "kBase * 2 \<le> kBase * kBase"
  using kBase_ge_2 by (rule mult_le_mono2)

lemma unat_add_limbs:
  assumes "unat c \<le> 1"
  shows "unat (w64 a + w64 b + c) = unat a + unat b + unat c"
proof -
  have "unat a + unat b + unat c < kBase * 2"
    using assms unat_lt_kBase [of a] unat_lt_kBase [of b] by linarith
  then have less: "unat a + unat b + unat c < kBase * kBase"
    using kBase_sq_ge by linarith
  have "unat (w64 a + w64 b) = unat a + unat b"
    using less by (subst unat_add_u64) simp_all
  with less show ?thesis
    by (subst unat_add_u64) simp_all
qed

lemma div_kBase_lt: "x < kBase * kBase \<Longrightarrow> x div kBase < kBase"
  by (simp add: less_mult_imp_div_less)

lemma unat_hi32_lt [simp]: "unat (hi32 x) < kBase"
  by (simp add: word_nat div_kBase_lt)

lemma word_zero_iff_unat: "(x :: 'a::len word) = 0 \<longleftrightarrow> unat x = 0"
  by (simp add: unat_eq_0)

text \<open>\<open>(x << 32) | y\<close> of two limb-sized values concatenates them.\<close>

lemma unat_shift_or:
  assumes "unat (x :: u64) < kBase"
  shows "unat (push_bit 32 x OR w64 y) = unat x * kBase + unat y"
proof -
  have shl: "unat (push_bit 32 x) = unat x * kBase"
    using assms by (simp add: push_bit_eq_mult unat_word_ariths kBase_def)
  have disjoint: "push_bit 32 x AND w64 y = 0"
  proof (rule bit_word_eqI)
    fix n
    assume "n < LENGTH(64)"
    then show "bit (push_bit 32 x AND w64 y) n = bit (0 :: u64) n"
      by (auto simp: bit_and_iff bit_push_bit_iff bit_ucast_iff dest: bit_imp_le_length)
  qed
  then have "push_bit 32 x OR w64 y = push_bit 32 x + w64 y"
    by (simp add: disjunctive_add_eq_or)
  moreover have "unat x * kBase + unat y < kBase * kBase"
  proof -
    have "(unat x + 1) * kBase \<le> kBase * kBase"
      using assms by (intro mult_le_mono1) simp
    then show ?thesis
      using unat_lt_kBase [of y] unfolding add_mult_distrib by linarith
  qed
  ultimately show ?thesis
    by (simp add: unat_add_u64 shl)
qed

subsection \<open>Lists\<close>

lemma append_take_drop_update:
  "i < length xs \<Longrightarrow> take i xs @ (v # drop (Suc i) xs) = xs[i := v]"
  by (simp add: upd_conv_take_nth_drop)

lemma length_le_Suc_0_cases: "length xs = Suc 0 \<Longrightarrow> \<exists>x. xs = [x]"
  by (cases xs) auto

end
