(* ===== verification/Limbs.thy ===== *)
theory Limbs
  imports Prelude
begin

text \<open>
  Magnitudes of \<open>src/src/runtime/bignum.cpp\<close>: little-endian vectors of 32-bit limbs and the
  loops over them (addition, subtraction, schoolbook multiplication, short division, shifts,
  comparison, bit length). A C++ vector is a list, a loop that walks it from the low limb up is
  a recursion on the list, a loop that walks it from the high limb down recurses first, and a
  loop that writes \<open>out[i..]\<close> works on the suffix \<open>drop i out\<close>. \<open>mag_val\<close> reads a magnitude as a
  natural number, and every lemma below is stated over it.
\<close>

type_synonym limbs = "u32 list"

section \<open>Definitions\<close>

primrec mag_val :: "limbs \<Rightarrow> nat" where
  "mag_val [] = 0"
| "mag_val (x # xs) = unat x + kBase * mag_val xs"

definition normalized :: "limbs \<Rightarrow> bool" where
  "normalized xs \<longleftrightarrow> xs = [] \<or> last xs \<noteq> 0"

text \<open>\<open>while (!v.empty() && v.back() == 0) v.pop_back();\<close>\<close>

function pop_zeros :: "limbs \<Rightarrow> limbs" where
  "pop_zeros xs = (if xs \<noteq> [] \<and> last xs = 0 then pop_zeros (butlast xs) else xs)"
  by pat_completeness auto
termination
  by (relation "measure length") auto

text \<open>The bit index of the highest set bit of a limb, plus one: the loop shifts until zero.\<close>

function limbBits_loop :: "u32 \<Rightarrow> nat \<Rightarrow> nat" where
  "limbBits_loop v n = (if v = 0 then n else limbBits_loop (drop_bit 1 v) (Suc n))"
  by pat_completeness auto
termination
proof (relation "measure (\<lambda>(v, n). unat v)")
  fix v :: u32 and n :: nat
  assume "v \<noteq> 0"
  then have "0 < unat v"
    by (simp add: unat_gt_0)
  then show "((drop_bit 1 v, Suc n), (v, n)) \<in> measure (\<lambda>(v, n). unat v)"
    by (simp only: in_measure prod.case unat_drop_bit_eq) (simp add: drop_bit_eq_div)
qed simp

definition limbBits :: "u32 \<Rightarrow> nat" where
  "limbBits v = limbBits_loop v 0"

text \<open>\<open>while (carry) { mag.push_back(carry); carry >>= 32; }\<close>\<close>

function push_carry :: "u64 \<Rightarrow> limbs" where
  "push_carry carry = (if carry = 0 then [] else lo32 carry # push_carry (hi32 carry))"
  by pat_completeness auto
termination
proof (relation "measure unat")
  fix carry :: u64
  assume "carry \<noteq> 0"
  then have "0 < unat carry"
    by (simp add: unat_gt_0)
  then show "(hi32 carry, carry) \<in> measure unat"
    by (simp only: in_measure unat_hi32) (simp add: kBase_def)
qed simp

fun mulAddSmall_loop :: "u32 \<Rightarrow> limbs \<Rightarrow> u64 \<Rightarrow> limbs" where
  "mulAddSmall_loop multiplier [] carry = push_carry carry"
| "mulAddSmall_loop multiplier (limb # mag) carry =
     (let product = w64 limb * w64 multiplier + carry
      in lo32 product # mulAddSmall_loop multiplier mag (hi32 product))"

definition mulAddSmall :: "limbs \<Rightarrow> u32 \<Rightarrow> u32 \<Rightarrow> limbs" where
  "mulAddSmall mag multiplier addend = mulAddSmall_loop multiplier mag (w64 addend)"

text \<open>Short division, most significant limb first: the limbs above are divided first.\<close>

fun divModSmall_loop :: "u32 \<Rightarrow> limbs \<Rightarrow> limbs \<times> u64" where
  "divModSmall_loop divisor [] = ([], 0)"
| "divModSmall_loop divisor (limb # mag) =
     (let (q, rem) = divModSmall_loop divisor mag;
          cur = push_bit 32 rem OR w64 limb
      in (lo32 (cur div w64 divisor) # q, cur mod w64 divisor))"

definition divModSmall :: "limbs \<Rightarrow> u32 \<Rightarrow> limbs \<times> u32" where
  "divModSmall mag divisor =
     (let (q, rem) = divModSmall_loop divisor mag in (pop_zeros q, lo32 rem))"

text \<open>Comparison from the top limb down; the sizes decide first.\<close>

fun compareMagnitude_loop :: "limbs \<Rightarrow> limbs \<Rightarrow> int" where
  "compareMagnitude_loop (x # xs) (y # ys) =
     (if x \<noteq> y then (if x < y then -1 else 1) else compareMagnitude_loop xs ys)"
| "compareMagnitude_loop _ _ = 0"

definition compareMagnitude :: "limbs \<Rightarrow> limbs \<Rightarrow> int" where
  "compareMagnitude a b =
     (if length a \<noteq> length b then (if length a < length b then -1 else 1)
      else compareMagnitude_loop (rev a) (rev b))"

text \<open>Bits in the magnitude; the top limb decides, so it reads a normalized magnitude.\<close>

definition bitLength_mag :: "limbs \<Rightarrow> nat" where
  "bitLength_mag mag =
     (if mag = [] then 0 else (length mag - 1) * 32 + limbBits (last mag))"

fun addMagnitude_loop :: "limbs \<Rightarrow> limbs \<Rightarrow> u64 \<Rightarrow> limbs" where
  "addMagnitude_loop [] [] carry = (if carry \<noteq> 0 then [lo32 carry] else [])"
| "addMagnitude_loop (x # a) [] carry =
     (let sum = w64 x + 0 + carry in lo32 sum # addMagnitude_loop a [] (hi32 sum))"
| "addMagnitude_loop [] (y # b) carry =
     (let sum = 0 + w64 y + carry in lo32 sum # addMagnitude_loop [] b (hi32 sum))"
| "addMagnitude_loop (x # a) (y # b) carry =
     (let sum = w64 x + w64 y + carry in lo32 sum # addMagnitude_loop a b (hi32 sum))"

definition addMagnitude :: "limbs \<Rightarrow> limbs \<Rightarrow> limbs" where
  "addMagnitude a b = addMagnitude_loop a b 0"

text \<open>
  The subtraction loop runs over the limbs of \<open>a\<close> only, reading a missing limb of \<open>b\<close> as zero.
  Its \<open>int64_t diff\<close> lies between \<open>-2^32\<close> and \<open>2^32\<close>, so it is an \<open>int\<close> here.
\<close>

fun subMagnitude_loop :: "limbs \<Rightarrow> limbs \<Rightarrow> int \<Rightarrow> limbs" where
  "subMagnitude_loop [] b borrow = []"
| "subMagnitude_loop (x # a) b borrow =
     (let y = (case b of [] \<Rightarrow> 0 | y # _ \<Rightarrow> y);
          diff = uint x - uint y - borrow
      in if diff < 0
         then word_of_int (diff + int kBase) # subMagnitude_loop a (tl b) 1
         else word_of_int diff # subMagnitude_loop a (tl b) 0)"

definition subMagnitude :: "limbs \<Rightarrow> limbs \<Rightarrow> limbs" where
  "subMagnitude a b = pop_zeros (subMagnitude_loop a b 0)"

text \<open>
  Schoolbook multiplication. \<open>mul_row\<close> is the inner loop together with the \<open>while (carry)\<close> ripple
  after it, over the suffix \<open>out[i..]\<close>; reading past the end of \<open>out\<close> is \<open>None\<close>. A zero limb
  of \<open>a\<close> skips its row.
\<close>

fun mul_ripple :: "limbs \<Rightarrow> u64 \<Rightarrow> limbs option" where
  "mul_ripple out carry =
     (if carry = 0 then Some out
      else case out of
        [] \<Rightarrow> None
      | x # xs \<Rightarrow>
          (let cur = w64 x + carry
           in map_option (Cons (lo32 cur)) (mul_ripple xs (hi32 cur))))"

fun mul_row :: "u32 \<Rightarrow> limbs \<Rightarrow> limbs \<Rightarrow> u64 \<Rightarrow> limbs option" where
  "mul_row ai [] out carry = mul_ripple out carry"
| "mul_row ai (y # b) [] carry = None"
| "mul_row ai (y # b) (x # out) carry =
     (let cur = w64 x + w64 ai * w64 y + carry
      in map_option (Cons (lo32 cur)) (mul_row ai b out (hi32 cur)))"

fun mul_rows :: "limbs \<Rightarrow> limbs \<Rightarrow> limbs \<Rightarrow> limbs option" where
  "mul_rows [] b out = Some out"
| "mul_rows (ai # a) b out =
     (case (if ai = 0 then Some out else mul_row ai b out 0) of
        Some (x # out') \<Rightarrow> map_option (Cons x) (mul_rows a b out')
      | _ \<Rightarrow> None)"

definition mulMagnitude :: "limbs \<Rightarrow> limbs \<Rightarrow> limbs" where
  "mulMagnitude a b =
     (if a = [] \<or> b = [] then []
      else case mul_rows a b (replicate (length a + length b) 0) of
        Some out \<Rightarrow> pop_zeros out
      | None \<Rightarrow> [])"

text \<open>
  Left shift: limb \<open>i\<close> puts its low half into \<open>out[i + limbShift]\<close> and its high half into the
  next one, where the following limb's low half is or-ed onto it.
\<close>

fun shiftLeft_loop :: "nat \<Rightarrow> u32 \<Rightarrow> limbs \<Rightarrow> limbs" where
  "shiftLeft_loop bitShift pending [] = [pending]"
| "shiftLeft_loop bitShift pending (x # xs) =
     (let shifted = push_bit bitShift (w64 x)
      in (pending OR lo32 shifted) # shiftLeft_loop bitShift (lo32 (hi32 shifted)) xs)"

definition shiftLeftBits :: "limbs \<Rightarrow> nat \<Rightarrow> limbs" where
  "shiftLeftBits a bits =
     (if a = [] then []
      else pop_zeros (replicate (bits div 32) 0 @ shiftLeft_loop (bits mod 32) 0 a))"

text \<open>Right shift, with the flag that says whether a set bit fell off the bottom.\<close>

definition shiftRightBits :: "limbs \<Rightarrow> nat \<Rightarrow> limbs \<times> bool" where
  "shiftRightBits a bits =
     (let limbShift = bits div 32; bitShift = bits mod 32 in
      if length a \<le> limbShift then ([], \<exists>limb \<in> set a. limb \<noteq> 0)
      else
        (let lost = ((\<exists>limb \<in> set (take limbShift a). limb \<noteq> 0) \<or>
                     (bitShift \<noteq> 0 \<and> push_bit (32 - bitShift) (a ! limbShift) \<noteq> 0));
             out = map (\<lambda>i.
               let value = w64 (drop_bit bitShift (a ! (i + limbShift)));
                   value' = (if bitShift \<noteq> 0 \<and> i + limbShift + 1 < length a
                             then value OR push_bit (32 - bitShift) (w64 (a ! (i + limbShift + 1)))
                             else value)
               in lo32 value') [0 ..< length a - limbShift]
         in (pop_zeros out, lost)))"

section \<open>The value of a magnitude\<close>

lemmas limb_loops [simp del] =
  pop_zeros.simps limbBits_loop.simps push_carry.simps mul_ripple.simps

lemma mag_val_append [simp]: "mag_val (xs @ ys) = mag_val xs + kBase ^ length xs * mag_val ys"
  by (induction xs) (simp_all add: algebra_simps)

lemma mag_val_replicate_0 [simp]: "mag_val (replicate n 0) = 0"
  by (induction n) simp_all

lemma mag_val_less: "mag_val xs < kBase ^ length xs"
proof (induction xs)
  case (Cons x xs)
  have "kBase * (mag_val xs + 1) \<le> kBase * kBase ^ length xs"
    using Cons.IH by (intro mult_le_mono2) simp
  then show ?case
    using unat_lt_kBase [of x] unfolding mag_val.simps length_Cons power_Suc add_mult_distrib2 by linarith
qed simp

lemma mag_val_eq_0_iff: "mag_val xs = 0 \<longleftrightarrow> (\<forall>x \<in> set xs. x = 0)"
  by (induction xs) (auto simp: word_zero_iff_unat)

lemma mag_val_snoc_0: "xs \<noteq> [] \<Longrightarrow> last xs = 0 \<Longrightarrow> mag_val (butlast xs) = mag_val xs"
  by (metis append_butlast_last_id mag_val.simps mag_val_append mult_0_right add_0_right unat_0)

lemma mag_val_pop_zeros [simp]: "mag_val (pop_zeros xs) = mag_val xs"
proof (induction xs rule: pop_zeros.induct)
  case (1 xs)
  then show ?case
    by (subst pop_zeros.simps) (auto simp: mag_val_snoc_0)
qed

lemma normalized_pop_zeros [simp]: "normalized (pop_zeros xs)"
proof (induction xs rule: pop_zeros.induct)
  case (1 xs)
  then show ?case
    by (subst pop_zeros.simps) (auto simp: normalized_def)
qed

lemma pop_zeros_id: "normalized xs \<Longrightarrow> pop_zeros xs = xs"
  by (subst pop_zeros.simps) (auto simp: normalized_def)

lemma normalized_Nil [simp]: "normalized []"
  by (simp add: normalized_def)

lemma normalized_ge:
  assumes "normalized xs" and "xs \<noteq> []"
  shows "kBase ^ (length xs - 1) \<le> mag_val xs"
proof -
  from assms(2) obtain ys y where xs: "xs = ys @ [y]"
    by (meson rev_exhaust)
  with assms have "0 < unat y"
    by (simp add: normalized_def unat_gt_0)
  then have "kBase ^ length ys * 1 \<le> kBase ^ length ys * unat y"
    by (intro mult_le_mono2) simp
  then have "kBase ^ length ys \<le> mag_val ys + kBase ^ length ys * unat y"
    by linarith
  then show ?thesis
    by (simp add: xs)
qed

lemma normalized_pos: "normalized xs \<Longrightarrow> xs \<noteq> [] \<Longrightarrow> 0 < mag_val xs"
  using normalized_ge [of xs] by (metis kBase_pos le_zero_eq not_gr_zero power_not_zero)

lemma normalized_zero_iff: "normalized xs \<Longrightarrow> mag_val xs = 0 \<longleftrightarrow> xs = []"
  using normalized_pos by fastforce

lemma mag_val_length_less:
  assumes "length a < length b" and "normalized b"
  shows "mag_val a < mag_val b"
proof -
  have "b \<noteq> []"
    using assms(1) by auto
  have "kBase ^ length a \<le> kBase ^ (length b - 1)"
    using assms(1) by (intro power_increasing) (simp_all add: Suc_le_eq)
  with normalized_ge [OF assms(2) \<open>b \<noteq> []\<close>] mag_val_less [of a] show ?thesis
    by linarith
qed

lemma mag_val_Cons_mod: "mag_val (x # xs) mod kBase = unat x"
  by simp

lemma mag_val_Cons_eq:
  assumes "mag_val (x # xs) = mag_val (y # ys)"
  shows "x = y \<and> mag_val xs = mag_val ys"
proof -
  have "unat x = unat y"
    using assms mag_val_Cons_mod by metis
  with assms show ?thesis
    by (simp add: word_unat_eq_iff)
qed

lemma mag_val_inj: "length a = length b \<Longrightarrow> mag_val a = mag_val b \<Longrightarrow> a = b"
proof (induction a b rule: list_induct2)
  case (Cons x xs y ys)
  then show ?case
    using mag_val_Cons_eq by blast
qed simp

lemma normalized_inj:
  assumes "normalized a" and "normalized b" and "mag_val a = mag_val b"
  shows "a = b"
proof -
  have "length a = length b"
    using assms mag_val_length_less [of a b] mag_val_length_less [of b a] by linarith
  then show ?thesis
    using assms(3) by (rule mag_val_inj)
qed

section \<open>Bit length\<close>

lemma unat_drop_bit_1: "unat (drop_bit 1 (v :: u32)) = unat v div 2"
  by (subst unat_drop_bit_eq) (simp add: drop_bit_eq_div)

lemma limbBits_loop_bounds:
  "unat v < 2 ^ (limbBits_loop v n - n) \<and> n \<le> limbBits_loop v n \<and>
   (v \<noteq> 0 \<longrightarrow> n < limbBits_loop v n \<and> 2 ^ (limbBits_loop v n - n - 1) \<le> unat v)"
proof (induction v n rule: limbBits_loop.induct)
  case (1 v n)
  show ?case
  proof (cases "v = 0")
    case True
    then show ?thesis by (subst (1 2 3 4) limbBits_loop.simps) (simp add: limbBits_loop.simps)
  next
    case False
    define v' where "v' = drop_bit 1 v"
    define r where "r = limbBits_loop v' (Suc n)"
    have r: "limbBits_loop v n = r"
      using False by (simp add: limbBits_loop.simps [of v n] r_def v'_def)
    have half: "unat v' = unat v div 2"
      unfolding v'_def by (rule unat_drop_bit_1)
    from "1.IH" [OF False] have IH: "unat v' < 2 ^ (r - Suc n)" "Suc n \<le> r"
      "v' \<noteq> 0 \<Longrightarrow> Suc n < r \<and> 2 ^ (r - Suc n - 1) \<le> unat v'"
      by (simp_all add: r_def v'_def)
    from IH(2) have dist: "r - n = Suc (r - Suc n)"
      by simp
    have upper: "unat v < 2 ^ (r - n)"
      using IH(1) half by (simp add: dist)
    have lower: "2 ^ (r - n - 1) \<le> unat v"
    proof (cases "v' = 0")
      case True
      with half False have "unat v = 1"
        by (simp add: word_zero_iff_unat)
      moreover have "r = Suc n"
        using True by (simp add: r_def limbBits_loop.simps)
      ultimately show ?thesis by simp
    next
      case False
      from IH(3) [OF False] have "Suc n < r" and le: "2 ^ (r - Suc n - 1) \<le> unat v'"
        by simp_all
      then have "r - n - 1 = Suc (r - Suc n - 1)"
        by simp
      then have "2 ^ (r - n - 1) = 2 * (2 ^ (r - Suc n - 1) :: nat)"
        by simp
      also have "\<dots> \<le> 2 * unat v'"
        using le by simp
      also have "\<dots> \<le> unat v"
        by (simp add: half)
      finally show ?thesis .
    qed
    show ?thesis
      using upper lower IH(2) by (simp add: r)
  qed
qed

lemma limbBits_upper: "unat v < 2 ^ limbBits v"
  using limbBits_loop_bounds [of v 0] by (simp add: limbBits_def)

lemma limbBits_lower: "v \<noteq> 0 \<Longrightarrow> 2 ^ (limbBits v - 1) \<le> unat v"
  using limbBits_loop_bounds [of v 0] by (simp add: limbBits_def)

lemma limbBits_pos: "v \<noteq> 0 \<Longrightarrow> 0 < limbBits v"
  using limbBits_loop_bounds [of v 0] by (simp add: limbBits_def)

lemma limbBits_le: "limbBits v \<le> 32"
proof (rule ccontr)
  assume "\<not> limbBits v \<le> 32"
  then have big: "32 \<le> limbBits v - 1" and "limbBits v \<noteq> 0"
    by simp_all
  from this(2) have "v \<noteq> 0"
    by (auto simp: limbBits_def limbBits_loop.simps [of 0])
  moreover from big have "(2::nat) ^ 32 \<le> 2 ^ (limbBits v - 1)"
    by (rule power_increasing) simp
  ultimately show False
    using limbBits_lower [of v] unat_lt_kBase [of v]
    unfolding kBase_def by linarith
qed

lemma kBase_power: "kBase ^ n = 2 ^ (32 * n)"
  by (simp add: kBase_def power_mult)

text \<open>The bit length brackets the value between two powers of two.\<close>

lemma bitLength_mag_upper: "mag_val a < 2 ^ bitLength_mag a"
proof (cases a rule: rev_exhaust)
  case (snoc ys y)
  have "kBase ^ length ys * (unat y + 1) \<le> kBase ^ length ys * 2 ^ limbBits y"
    using limbBits_upper [of y] by (intro mult_le_mono2) simp
  then have "mag_val a < kBase ^ length ys * 2 ^ limbBits y"
    using mag_val_less [of ys] snoc by (simp add: algebra_simps)
  then show ?thesis
    by (simp add: bitLength_mag_def snoc kBase_power power_add mult.commute)
qed (simp add: bitLength_mag_def)

lemma bitLength_mag_lower:
  assumes "normalized a" and "a \<noteq> []"
  shows "2 ^ (bitLength_mag a - 1) \<le> mag_val a"
proof (cases a rule: rev_exhaust)
  case (snoc ys y)
  with assms have "y \<noteq> 0"
    by (simp add: normalized_def)
  then have exp: "bitLength_mag a - 1 = 32 * length ys + (limbBits y - 1)"
    using limbBits_pos [of y] by (simp add: bitLength_mag_def snoc mult.commute)
  have "kBase ^ length ys * 2 ^ (limbBits y - 1) \<le> kBase ^ length ys * unat y"
    using limbBits_lower [OF \<open>y \<noteq> 0\<close>] by (rule mult_le_mono2)
  also have "\<dots> \<le> mag_val a"
    by (simp add: snoc)
  finally show ?thesis
    unfolding exp power_add kBase_power .
qed (use assms in simp)

lemma bitLength_mag_pos: "normalized a \<Longrightarrow> a \<noteq> [] \<Longrightarrow> 0 < bitLength_mag a"
  by (cases a rule: rev_exhaust) (auto simp: bitLength_mag_def normalized_def dest: limbBits_pos)

section \<open>Addition, subtraction, comparison\<close>

lemma carry_le_1: "unat (w64 a + w64 b + c) div kBase \<le> 1" if "unat c \<le> 1"
proof -
  have "unat a + unat b + unat c < kBase * 2"
    using that unat_lt_kBase [of a] unat_lt_kBase [of b] by linarith
  then have "(unat a + unat b + unat c) div kBase < 2"
    by (simp add: less_mult_imp_div_less mult.commute)
  then show ?thesis
    using that by (simp add: unat_add_limbs)
qed

lemma add_step:
  fixes x y :: u32 and c :: u64
  assumes "unat c \<le> 1"
  defines "s \<equiv> w64 x + w64 y + c"
  shows "unat (hi32 s) \<le> 1"
    and "unat (lo32 s) + kBase * unat (hi32 s) = unat x + unat y + unat c"
  using assms carry_le_1 [of c x y] by (simp_all add: word_nat unat_add_limbs)

lemma mag_val_addMagnitude_loop:
  "unat c \<le> 1 \<Longrightarrow> mag_val (addMagnitude_loop a b c) = mag_val a + mag_val b + unat c"
proof (induction a b c rule: addMagnitude_loop.induct)
  case (1 carry)
  then show ?case
    by (auto simp: word_nat word_zero_iff_unat kBase_def)
next
  case (2 x a carry)
  note step = add_step [OF "2.prems", of x 0]
  with "2.IH" show ?case
    by (simp add: Let_def algebra_simps)
next
  case (3 y b carry)
  note step = add_step [OF "3.prems", of 0 y]
  with "3.IH" show ?case
    by (simp add: Let_def algebra_simps)
next
  case (4 x a y b carry)
  note step = add_step [OF "4.prems", of x y]
  with "4.IH" show ?case
    by (simp add: Let_def algebra_simps)
qed

lemma mag_val_addMagnitude [simp]: "mag_val (addMagnitude a b) = mag_val a + mag_val b"
  by (simp add: addMagnitude_def mag_val_addMagnitude_loop)

lemma length_subMagnitude_loop [simp]: "length (subMagnitude_loop a b c) = length a"
  by (induction a b c rule: subMagnitude_loop.induct) (simp_all add: Let_def)

lemma uint_word_of_int_limb: "0 \<le> d \<Longrightarrow> d < int kBase \<Longrightarrow> uint (word_of_int d :: u32) = d"
  by (simp add: kBase_def uint_word_of_int)

text \<open>
  The borrow chain: what the loop computes differs from \<open>a - b - borrow\<close> by the borrow that
  leaves the top limb.
\<close>

lemma mag_val_subMagnitude_loop:
  assumes "length b \<le> length a" and "borrow \<in> {0, 1}"
  shows "\<exists>out \<in> {0, 1}. int (mag_val (subMagnitude_loop a b borrow)) =
           int (mag_val a) - int (mag_val b) - borrow + out * int (kBase ^ length a)"
  using assms
proof (induction a b borrow rule: subMagnitude_loop.induct)
  case (1 b borrow)
  then show ?case by auto
next
  case (2 x a b borrow)
  define y where "y = (case b of [] \<Rightarrow> 0 | y # _ \<Rightarrow> y)"
  define diff where "diff = uint x - uint y - borrow"
  define bor where "bor = (if diff < 0 then 1 else 0 :: int)"
  define limb where "limb = (word_of_int (diff + bor * int kBase) :: u32)"
  have b: "int (mag_val b) = uint y + int kBase * int (mag_val (tl b))"
    by (cases b) (simp_all add: y_def)
  have len: "length (tl b) \<le> length a"
    using "2.prems"(1) by (cases b) simp_all
  have bounds: "0 \<le> uint x" "uint x < int kBase" "0 \<le> uint y" "uint y < int kBase"
    by (simp_all add: uint_lt_kBase)
  have "0 \<le> borrow" "borrow \<le> 1"
    using "2.prems"(2) by auto
  with bounds have "- int kBase \<le> diff" "diff < int kBase"
    unfolding diff_def by linarith+
  then have limb: "uint limb = diff + bor * int kBase"
    unfolding limb_def by (intro uint_word_of_int_limb) (auto simp: bor_def)
  have loop: "subMagnitude_loop (x # a) b borrow = limb # subMagnitude_loop a (tl b) bor"
    by (simp add: Let_def limb_def bor_def diff_def flip: y_def)
  have "\<exists>out \<in> {0, 1}. int (mag_val (subMagnitude_loop a (tl b) bor)) =
      int (mag_val a) - int (mag_val (tl b)) - bor + out * int (kBase ^ length a)"
    using "2.IH" len by (simp add: bor_def diff_def flip: y_def)
  then obtain out where out: "out \<in> {0, 1}"
    "int (mag_val (subMagnitude_loop a (tl b) bor)) =
      int (mag_val a) - int (mag_val (tl b)) - bor + out * int (kBase ^ length a)"
    by blast
  have "int (mag_val (subMagnitude_loop (x # a) b borrow)) =
      uint x + int kBase * int (mag_val a) - int (mag_val b) - borrow
        + out * int (kBase ^ length (x # a))"
    unfolding loop by (simp add: limb out(2) b diff_def algebra_simps flip: uint_nat)
  then show ?case
    using out(1) by (auto simp flip: uint_nat simp del: subMagnitude_loop.simps)
qed

lemma mag_val_subMagnitude:
  assumes "length b \<le> length a" and "mag_val b \<le> mag_val a"
  shows "mag_val (subMagnitude a b) = mag_val a - mag_val b"
proof -
  obtain out :: int where out: "out \<in> {0, 1}"
    "int (mag_val (subMagnitude_loop a b 0)) =
       int (mag_val a) - int (mag_val b) + out * int (kBase ^ length a)"
    using mag_val_subMagnitude_loop [OF assms(1), of 0] by auto
  have "int (mag_val (subMagnitude_loop a b 0)) < int (kBase ^ length a)"
    using mag_val_less [of "subMagnitude_loop a b 0"] by (simp only: of_nat_less_iff) simp
  moreover have "int (mag_val b) \<le> int (mag_val a)"
    using assms(2) by simp
  ultimately have "out * int (kBase ^ length a) < 1 * int (kBase ^ length a)"
    using out(2) by linarith
  with out(1) have "out = 0"
    by auto
  with out(2) assms(2) have "mag_val (subMagnitude_loop a b 0) = mag_val a - mag_val b"
    by simp
  then show ?thesis
    by (simp add: subMagnitude_def)
qed

definition order_of :: "int \<Rightarrow> int \<Rightarrow> int" where
  "order_of x y = (if x < y then -1 else if x = y then 0 else 1)"

lemma compareMagnitude_loop_rev:
  "length a = length b \<Longrightarrow>
   compareMagnitude_loop (rev a) (rev b) = order_of (int (mag_val a)) (int (mag_val b))"
proof (induction a arbitrary: b rule: rev_induct)
  case Nil
  then show ?case by (simp add: order_of_def)
next
  case (snoc x xs)
  then obtain y ys where b: "b = ys @ [y]" "length xs = length ys"
    by (metis append_butlast_last_id length_append_singleton length_0_conv nat.inject nat.distinct(1))
  show ?case
  proof (cases "x = y")
    case True
    with snoc.IH [OF b(2)] b show ?thesis
      by (simp add: order_of_def)
  next
    case False
    have key: "kBase ^ length xs * unat p + m < kBase ^ length xs * unat q"
      if "unat p < unat q" "m < kBase ^ length xs" for p q :: u32 and m
    proof -
      have "kBase ^ length xs * (unat p + 1) \<le> kBase ^ length xs * unat q"
        using that(1) by (intro mult_le_mono2) simp
      with that(2) show ?thesis by (simp add: algebra_simps)
    qed
    have "x < y \<longleftrightarrow> unat x < unat y" and "unat x \<noteq> unat y"
      using False by (simp_all add: word_less_nat_alt word_unat_eq_iff)
    then show ?thesis
      using key [of x y "mag_val xs"] key [of y x "mag_val ys"] mag_val_less [of xs]
        mag_val_less [of ys] b(2) False
      by (auto simp: b order_of_def not_less algebra_simps simp flip: of_nat_mult of_nat_add)
  qed
qed

lemma compareMagnitude_eq:
  assumes "normalized a" and "normalized b"
  shows "compareMagnitude a b = order_of (int (mag_val a)) (int (mag_val b))"
proof (cases "length a = length b")
  case True
  then show ?thesis
    by (simp add: compareMagnitude_def compareMagnitude_loop_rev)
next
  case False
  then show ?thesis
    using mag_val_length_less [of a b] mag_val_length_less [of b a] assms
    by (auto simp: compareMagnitude_def order_of_def)
qed

end
