(* ===== verification/Limb_Arith.thy ===== *)
theory Limb_Arith
  imports Limbs
begin

text \<open>
  The value of the multiplying, dividing and shifting loops of \<open>Limbs\<close>: each one computes the
  arithmetic operation its name says on \<open>mag_val\<close>, and the schoolbook multiplication never
  reads or writes past the end of its output vector.
\<close>

section \<open>Multiplication by a limb\<close>

lemma mag_val_push_carry [simp]: "mag_val (push_carry c) = unat c"
proof (induction c rule: push_carry.induct)
  case (1 c)
  show ?case
  proof (cases "c = 0")
    case False
    with "1" have "mag_val (push_carry c) = unat (lo32 c) + kBase * unat (hi32 c)"
      by (simp add: push_carry.simps [of c])
    then show ?thesis
      by (simp add: unat_lo_hi)
  qed (simp add: push_carry.simps)
qed

lemma mag_val_mulAddSmall_loop:
  "unat carry < kBase \<Longrightarrow>
   mag_val (mulAddSmall_loop m mag carry) = mag_val mag * unat m + unat carry"
proof (induction m mag carry rule: mulAddSmall_loop.induct)
  case (2 m limb mag carry)
  have "unat (lo32 (w64 limb * w64 m + carry)) + kBase * unat (hi32 (w64 limb * w64 m + carry))
      = unat limb * unat m + unat carry"
    by (simp only: unat_lo_hi unat_mul_add [OF "2.prems"])
  with "2.IH" show ?case
    by (simp add: Let_def algebra_simps)
qed simp

lemma mag_val_mulAddSmall [simp]:
  "mag_val (mulAddSmall mag m addend) = mag_val mag * unat m + unat addend"
  by (simp add: mulAddSmall_def mag_val_mulAddSmall_loop)

section \<open>Division by a limb\<close>

lemma divModSmall_loop_correct:
  assumes "divisor \<noteq> 0" and "divModSmall_loop divisor mag = (q, rem)"
  shows "mag_val mag = mag_val q * unat divisor + unat rem \<and> unat rem < unat divisor \<and>
         length q = length mag"
  using assms(2)
proof (induction mag arbitrary: q rem)
  case Nil
  then show ?case
    using assms(1) by (auto simp: unat_gt_0)
next
  case (Cons limb mag)
  obtain q' rem' where rec: "divModSmall_loop divisor mag = (q', rem')"
    by fastforce
  from Cons.IH [OF rec] have IH: "mag_val mag = mag_val q' * unat divisor + unat rem'"
    "unat rem' < unat divisor" "length q' = length mag"
    by simp_all
  define cur where "cur = push_bit 32 rem' OR w64 limb"
  have out: "q = lo32 (cur div w64 divisor) # q'" "rem = cur mod w64 divisor"
    using Cons.prems by (simp_all add: rec cur_def Let_def)
  have d: "0 < unat divisor"
    using assms(1) by (simp add: unat_gt_0)
  have rem_lt: "unat rem' < kBase"
    using IH(2) unat_lt_kBase [of divisor] by linarith
  have cur: "unat cur = unat rem' * kBase + unat limb"
    unfolding cur_def by (rule unat_shift_or [OF rem_lt])
  have "unat cur < unat divisor * kBase"
  proof -
    have "(unat rem' + 1) * kBase \<le> unat divisor * kBase"
      using IH(2) by (intro mult_le_mono1) simp
    then show ?thesis
      using unat_lt_kBase [of limb] unfolding cur add_mult_distrib by linarith
  qed
  then have quot_lt: "unat cur div unat divisor < kBase"
    by (simp add: less_mult_imp_div_less mult.commute)
  have "unat (lo32 (cur div w64 divisor)) = unat cur div unat divisor"
    using quot_lt by (simp add: word_nat unat_div_distrib)
  moreover have "unat rem = unat cur mod unat divisor"
    by (simp add: out unat_mod_distrib)
  ultimately have "unat (lo32 (cur div w64 divisor)) * unat divisor + unat rem = unat cur"
    and "unat rem < unat divisor"
    using d by simp_all
  then show ?case
    using IH(1,3) by (simp add: out(1) cur algebra_simps)
qed

lemma divModSmall_correct:
  assumes "divisor \<noteq> 0" and "divModSmall mag divisor = (q, r)"
  shows "mag_val q = mag_val mag div unat divisor" and "unat r = mag_val mag mod unat divisor"
    and "normalized q"
proof -
  obtain q' rem where loop: "divModSmall_loop divisor mag = (q', rem)"
    by fastforce
  have eqs: "q = pop_zeros q'" "r = lo32 rem"
    using assms(2) by (simp_all add: divModSmall_def loop)
  from divModSmall_loop_correct [OF assms(1) loop]
  have val: "mag_val mag = mag_val q' * unat divisor + unat rem" and lt: "unat rem < unat divisor"
    by simp_all
  have "unat rem < kBase"
    using lt unat_lt_kBase [of divisor] by linarith
  with val lt show "mag_val q = mag_val mag div unat divisor"
    "unat r = mag_val mag mod unat divisor" "normalized q"
    by (simp_all add: eqs word_nat)
qed

section \<open>Schoolbook multiplication\<close>

lemma unat_limb_plus_carry:
  assumes "unat carry < kBase"
  shows "unat (w64 x + carry) = unat x + unat carry"
  using unat_mul_add_add [OF assms, of x 0 0] by simp

text \<open>
  The ripple and the row succeed, keep the length, and add their amount to the suffix, whenever
  the result still fits: that is the bounds argument for \<open>out[k]\<close>.
\<close>

lemma mul_ripple_correct:
  assumes "unat carry < kBase" and "mag_val out + unat carry < kBase ^ length out"
  shows "\<exists>out'. mul_ripple out carry = Some out' \<and> length out' = length out \<and>
           mag_val out' = mag_val out + unat carry"
  using assms
proof (induction out arbitrary: carry)
  case Nil
  then show ?case
    by (simp add: mul_ripple.simps word_zero_iff_unat)
next
  case (Cons x xs)
  show ?case
  proof (cases "carry = 0")
    case False
    define cur where "cur = w64 x + carry"
    have cur: "unat (lo32 cur) + kBase * unat (hi32 cur) = unat x + unat carry"
      unfolding cur_def unat_lo_hi by (rule unat_limb_plus_carry [OF Cons.prems(1)])
    have "kBase * (mag_val xs + unat (hi32 cur)) < kBase * kBase ^ length xs"
      using Cons.prems(2) cur by (simp add: algebra_simps)
    then obtain out' where "mul_ripple xs (hi32 cur) = Some out'" "length out' = length xs"
      "mag_val out' = mag_val xs + unat (hi32 cur)"
      using Cons.IH [of "hi32 cur"] by auto
    moreover from this have "mul_ripple (x # xs) carry = Some (lo32 cur # out')"
      using False by (simp add: mul_ripple.simps [of "x # xs"] cur_def Let_def)
    ultimately show ?thesis
      using cur by (simp add: algebra_simps)
  qed (simp add: mul_ripple.simps)
qed

lemma mul_row_correct:
  assumes "unat carry < kBase"
    and "mag_val out + unat ai * mag_val b + unat carry < kBase ^ length out"
    and "length b \<le> length out"
  shows "\<exists>out'. mul_row ai b out carry = Some out' \<and> length out' = length out \<and>
           mag_val out' = mag_val out + unat ai * mag_val b + unat carry"
  using assms
proof (induction ai b out carry rule: mul_row.induct)
  case (1 ai out carry)
  then show ?case
    using mul_ripple_correct [of carry out] by simp
next
  case (3 ai y b x out carry)
  define cur where "cur = w64 x + w64 ai * w64 y + carry"
  have cur: "unat (lo32 cur) + kBase * unat (hi32 cur) = unat x + unat ai * unat y + unat carry"
    unfolding cur_def unat_lo_hi by (rule unat_mul_add_add [OF "3.prems"(1)])
  have "kBase * (mag_val out + unat ai * mag_val b + unat (hi32 cur)) < kBase * kBase ^ length out"
    using "3.prems"(2) cur by (simp add: algebra_simps)
  then obtain out' where "mul_row ai b out (hi32 cur) = Some out'" "length out' = length out"
    "mag_val out' = mag_val out + unat ai * mag_val b + unat (hi32 cur)"
    using "3.IH" [of cur] "3.prems"(3) by (auto simp: cur_def)
  moreover from this have "mul_row ai (y # b) (x # out) carry = Some (lo32 cur # out')"
    by (simp add: cur_def Let_def)
  ultimately show ?case
    using cur by (simp add: algebra_simps del: mul_row.simps)
qed simp

lemma mul_rows_correct:
  assumes "mag_val out + mag_val a * mag_val b < kBase ^ length out"
    and "length a + length b \<le> length out"
  shows "\<exists>out'. mul_rows a b out = Some out' \<and> mag_val out' = mag_val out + mag_val a * mag_val b"
  using assms
proof (induction a b out rule: mul_rows.induct)
  case (2 ai a b out)
  have le: "mag_val out + unat ai * mag_val b + kBase * (mag_val a * mag_val b) < kBase ^ length out"
    using "2.prems"(1) by (simp add: algebra_simps)
  then have "mag_val out + unat ai * mag_val b + unat 0 < kBase ^ length out"
    by (simp add: add_lessD1)
  then obtain out1 where row: "(if ai = 0 then Some out else mul_row ai b out 0) = Some out1"
    and len: "length out1 = length out" and val: "mag_val out1 = mag_val out + unat ai * mag_val b"
    using mul_row_correct [of 0 out ai b] "2.prems"(2) by (cases "ai = 0") auto
  from len "2.prems"(2) obtain x out2 where out1: "out1 = x # out2"
    by (cases out1) auto
  have "kBase * (mag_val out2 + mag_val a * mag_val b) < kBase * kBase ^ length out2"
  proof -
    have "kBase * (mag_val out2 + mag_val a * mag_val b) \<le>
        mag_val out + unat ai * mag_val b + kBase * (mag_val a * mag_val b)"
      using val by (simp add: out1 add_mult_distrib2)
    also note le
    finally show ?thesis
      using len by (simp add: out1 flip: power_Suc)
  qed
  then obtain out' where "mul_rows a b out2 = Some out'"
    "mag_val out' = mag_val out2 + mag_val a * mag_val b"
    using "2.IH" [OF row [unfolded out1] refl] "2.prems"(2) len by (auto simp: out1)
  then show ?case
    using row val by (simp add: out1 algebra_simps)
qed simp

lemma mul_rows_fits: "mag_val a * mag_val b < kBase ^ (length a + length b)"
  unfolding power_add by (intro mult_strict_mono mag_val_less) simp_all

lemma mul_rows_in_bounds: "mul_rows a b (replicate (length a + length b) 0) \<noteq> None"
  using mul_rows_correct [of "replicate (length a + length b) 0" a b] mul_rows_fits [of a b] by auto

lemma mag_val_mulMagnitude [simp]: "mag_val (mulMagnitude a b) = mag_val a * mag_val b"
  using mul_rows_correct [of "replicate (length a + length b) 0" a b] mul_rows_fits [of a b]
  by (auto simp: mulMagnitude_def)

lemma normalized_mulMagnitude [simp]: "normalized (mulMagnitude a b)"
  by (simp add: mulMagnitude_def split: option.split)

section \<open>Shifts\<close>

lemma nat_or_disjoint:
  fixes p :: nat
  assumes "p < 2 ^ s"
  shows "p OR 2 ^ s * k = p + 2 ^ s * k"
proof -
  have "p AND push_bit s k = 0"
  proof (rule bit_eqI)
    fix n
    have "\<not> bit p n" if "s \<le> n"
    proof -
      have "p < 2 ^ n"
        using assms that by (meson less_le_trans one_le_numeral power_increasing)
      then show ?thesis
        by (simp add: bit_iff_odd)
    qed
    then show "bit (p AND push_bit s k) n = bit (0 :: nat) n"
      by (auto simp: bit_and_iff bit_push_bit_iff)
  qed
  then show ?thesis
    by (simp add: disjunctive_add_eq_or push_bit_eq_mult mult.commute)
qed

lemma unat_or_disjoint:
  fixes p y :: "'a::len word"
  assumes "unat p < 2 ^ s" and "unat y = 2 ^ s * k"
  shows "unat (p OR y) = unat p + unat y"
  using nat_or_disjoint [OF assms(1), of k] assms(2) by (simp add: unsigned_or_eq)

lemma two_power_mult_kBase: "s \<le> 32 \<Longrightarrow> 2 ^ s * 2 ^ (32 - s) = kBase"
  by (simp add: kBase_def flip: power_add)

lemma shl_mod_kBase: "s \<le> 32 \<Longrightarrow> (2 ^ s * m) mod kBase = 2 ^ s * (m mod 2 ^ (32 - s))"
  by (metis mult_mod_right two_power_mult_kBase)

lemma shiftLeft_step:
  fixes pending x :: u32
  assumes "s < 32" and "unat pending < 2 ^ s"
  defines "shifted \<equiv> push_bit s (w64 x)"
  shows "unat (pending OR lo32 shifted) + kBase * unat (lo32 (hi32 shifted)) =
           unat pending + 2 ^ s * unat x"
    and "unat (lo32 (hi32 shifted)) < 2 ^ s"
proof -
  have "unat x * 2 ^ s < kBase * 2 ^ s"
    by simp
  moreover have pow: "2 ^ s < kBase"
    unfolding kBase_def using assms(1) by (intro power_strict_increasing) simp_all
  ultimately have fits: "unat x * 2 ^ s < kBase * kBase"
    by (meson less_imp_le less_le_trans mult_le_mono2)
  have shifted: "unat shifted = unat x * 2 ^ s"
  proof -
    have "take_bit 64 (unat x * 2 ^ s) = unat x * 2 ^ s"
      using fits by (simp add: take_bit_nat_eq_self_iff kBase_sq)
    then show ?thesis
      unfolding shifted_def unsigned_push_bit_eq by (simp add: push_bit_eq_mult)
  qed
  have hi: "unat (hi32 shifted) < 2 ^ s"
    unfolding unat_hi32 shifted by (simp add: less_mult_imp_div_less mult.commute)
  then have lohi: "unat (lo32 (hi32 shifted)) = unat (hi32 shifted)"
    using pow by (simp add: unat_lo32)
  show "unat (lo32 (hi32 shifted)) < 2 ^ s"
    using hi lohi by simp
  have "unat (lo32 shifted) = 2 ^ s * (unat x mod 2 ^ (32 - s))"
    unfolding unat_lo32 shifted mult.commute [of "unat x"] using assms(1) by (intro shl_mod_kBase) simp
  then have "unat (pending OR lo32 shifted) = unat pending + unat (lo32 shifted)"
    by (rule unat_or_disjoint [OF assms(2)])
  then show "unat (pending OR lo32 shifted) + kBase * unat (lo32 (hi32 shifted)) =
      unat pending + 2 ^ s * unat x"
    using unat_lo_hi [of shifted] shifted lohi by (simp add: mult.commute)
qed

lemma mag_val_shiftLeft_loop:
  "s < 32 \<Longrightarrow> unat pending < 2 ^ s \<Longrightarrow>
   mag_val (shiftLeft_loop s pending xs) = unat pending + 2 ^ s * mag_val xs"
proof (induction s pending xs rule: shiftLeft_loop.induct)
  case (2 s pending x xs)
  note step = shiftLeft_step [OF "2.prems", of x]
  from "2.IH" [OF refl "2.prems"(1) step(2)] step(1) show ?case
    by (simp add: Let_def algebra_simps)
qed simp

lemma power_split_bits: "kBase ^ (n div 32) * 2 ^ (n mod 32) = 2 ^ n"
  by (simp add: kBase_power flip: power_add)

lemma mag_val_shiftLeftBits [simp]: "mag_val (shiftLeftBits a n) = mag_val a * 2 ^ n"
  using power_split_bits [of n]
  by (auto simp: shiftLeftBits_def mag_val_shiftLeft_loop algebra_simps)

lemma normalized_shiftLeftBits [simp]: "normalized (shiftLeftBits a n)"
  by (simp add: shiftLeftBits_def)

text \<open>The limbs of a right shift, as a recursion over the surviving limbs.\<close>

definition shr_limb :: "nat \<Rightarrow> u32 \<Rightarrow> u32 option \<Rightarrow> u32" where
  "shr_limb s x next =
     lo32 (case next of
             None \<Rightarrow> w64 (drop_bit s x)
           | Some y \<Rightarrow> (if s \<noteq> 0 then w64 (drop_bit s x) OR push_bit (32 - s) (w64 y)
                        else w64 (drop_bit s x)))"

fun shr_list :: "nat \<Rightarrow> limbs \<Rightarrow> limbs" where
  "shr_list s [] = []"
| "shr_list s [x] = [shr_limb s x None]"
| "shr_list s (x # y # xs) = shr_limb s x (Some y) # shr_list s (y # xs)"

lemma length_shr_list [simp]: "length (shr_list s xs) = length xs"
  by (induction s xs rule: shr_list.induct) simp_all

lemma nth_shr_list:
  "i < length xs \<Longrightarrow>
   shr_list s xs ! i = shr_limb s (xs ! i) (if Suc i < length xs then Some (xs ! Suc i) else None)"
  by (induction s xs arbitrary: i rule: shr_list.induct) (auto simp: less_Suc_eq_0_disj)

lemma unat_drop_bit_u32: "unat (drop_bit s (x :: u32)) = unat x div 2 ^ s"
  by (subst unat_drop_bit_eq) (simp add: drop_bit_eq_div)

lemma lo32_w64 [simp]: "lo32 (w64 x) = x"
  by (simp add: word_unat_eq_iff word_nat)

lemma unat_shr_limb_None: "unat (shr_limb s x None) = unat x div 2 ^ s"
  by (simp add: shr_limb_def unat_drop_bit_u32 del: unat_drop_bit_eq)

lemma lo32_or: "lo32 (a OR b) = lo32 a OR lo32 b"
  by (rule bit_word_eqI) (auto simp: bit_or_iff bit_ucast_iff)

lemma unat_shr_limb_Some:
  assumes "s < 32"
  shows "unat (shr_limb s x (Some y)) = unat x div 2 ^ s + 2 ^ (32 - s) * (unat y mod 2 ^ s)"
proof (cases "s = 0")
  case True
  then show ?thesis
    by (simp add: shr_limb_def)
next
  case False
  have top: "unat (lo32 (push_bit (32 - s) (w64 y))) = 2 ^ (32 - s) * (unat y mod 2 ^ s)"
  proof -
    have "unat y * 2 ^ (32 - s) < kBase * kBase"
    proof -
      have "unat y * 2 ^ (32 - s) < kBase * 2 ^ (32 - s)"
        by simp
      also have "\<dots> \<le> kBase * kBase"
        unfolding kBase_def by (intro mult_le_mono2 power_increasing) simp_all
      finally show ?thesis .
    qed
    then have "take_bit 64 (unat y * 2 ^ (32 - s)) = unat y * 2 ^ (32 - s)"
      by (simp add: take_bit_nat_eq_self_iff kBase_sq)
    then have "unat (push_bit (32 - s) (w64 y)) = 2 ^ (32 - s) * unat y"
      unfolding unsigned_push_bit_eq by (simp add: push_bit_eq_mult mult.commute)
    then show ?thesis
      unfolding unat_lo32 using assms by (simp add: shl_mod_kBase)
  qed
  have low: "unat (drop_bit s x) < 2 ^ (32 - s)"
  proof -
    have "unat x < 2 ^ (32 - s) * 2 ^ s"
      using two_power_mult_kBase [of s] assms unat_lt_kBase [of x] by (simp add: mult.commute)
    then show ?thesis
      unfolding unat_drop_bit_u32 by (rule less_mult_imp_div_less)
  qed
  have "unat (shr_limb s x (Some y)) = unat (drop_bit s x OR lo32 (push_bit (32 - s) (w64 y)))"
    using False by (simp add: shr_limb_def lo32_or)
  also have "\<dots> = unat (drop_bit s x) + unat (lo32 (push_bit (32 - s) (w64 y)))"
    by (rule unat_or_disjoint [OF low top])
  finally show ?thesis
    unfolding top unat_drop_bit_u32 .
qed

lemma mag_val_Cons_power:
  assumes "s \<le> 32"
  shows "mag_val (x # xs) = unat x + 2 ^ s * (2 ^ (32 - s) * mag_val xs)"
  using two_power_mult_kBase [OF assms] by (simp flip: mult.assoc)

lemma mag_val_mod_power: "s \<le> 32 \<Longrightarrow> mag_val (x # xs) mod 2 ^ s = unat x mod 2 ^ s"
  unfolding mag_val_Cons_power by simp

lemma mag_val_div_power:
  assumes "s \<le> 32"
  shows "mag_val (x # xs) div 2 ^ s = unat x div 2 ^ s + 2 ^ (32 - s) * mag_val xs"
  unfolding mag_val_Cons_power [OF assms] by simp

lemma mag_val_shr_list: "s < 32 \<Longrightarrow> mag_val (shr_list s xs) = mag_val xs div 2 ^ s"
proof (induction s xs rule: shr_list.induct)
  case (2 s x)
  then show ?case
    by (simp add: unat_shr_limb_None)
next
  case (3 s x y xs)
  define v where "v = mag_val (y # xs)"
  have "2 ^ (32 - s) * (unat y mod 2 ^ s) + kBase * (v div 2 ^ s) = 2 ^ (32 - s) * v"
  proof -
    have "unat y mod 2 ^ s = v mod 2 ^ s"
      unfolding v_def using "3.prems" by (subst mag_val_mod_power) simp_all
    moreover have "2 ^ (32 - s) * (v mod 2 ^ s) + 2 ^ (32 - s) * (2 ^ s * (v div 2 ^ s)) = 2 ^ (32 - s) * v"
      by (metis add_mult_distrib2 mod_mult_div_eq)
    moreover have "kBase * (v div 2 ^ s) = 2 ^ (32 - s) * (2 ^ s * (v div 2 ^ s))"
      using two_power_mult_kBase [of s] "3.prems" by (simp add: ac_simps flip: mult.assoc)
    ultimately show ?thesis
      by (simp only:)
  qed
  then have "mag_val (shr_list s (x # y # xs)) = unat x div 2 ^ s + 2 ^ (32 - s) * v"
    using "3.IH" "3.prems" by (simp add: unat_shr_limb_Some v_def)
  then show ?case
    unfolding v_def using "3.prems" by (subst mag_val_div_power) simp_all
qed simp

lemma shiftRightBits_limbs:
  "length a > n div 32 \<Longrightarrow>
   fst (shiftRightBits a n) = pop_zeros (shr_list (n mod 32) (drop (n div 32) a))"
proof -
  assume "length a > n div 32"
  then have "fst (shiftRightBits a n) = pop_zeros (map (\<lambda>i. shr_limb (n mod 32)
      (drop (n div 32) a ! i)
      (if Suc i < length (drop (n div 32) a) then Some (drop (n div 32) a ! Suc i) else None))
      [0 ..< length (drop (n div 32) a)])"
    unfolding shiftRightBits_def Let_def
    by (auto simp: shr_limb_def add.commute intro!: arg_cong [where f = pop_zeros])
  also have "map (\<lambda>i. shr_limb (n mod 32) (drop (n div 32) a ! i)
      (if Suc i < length (drop (n div 32) a) then Some (drop (n div 32) a ! Suc i) else None))
      [0 ..< length (drop (n div 32) a)] = shr_list (n mod 32) (drop (n div 32) a)"
    by (rule nth_equalityI) (simp_all only: length_map length_upt length_shr_list nth_map nth_upt
      nth_shr_list minus_nat.diff_0 add_0)
  finally show ?thesis .
qed

lemma mag_val_take_drop: "n \<le> length a \<Longrightarrow> mag_val a = mag_val (take n a) + kBase ^ n * mag_val (drop n a)"
  by (metis append_take_drop_id length_take mag_val_append min.absorb2)

lemma mag_val_div_limbs:
  assumes "n \<le> length a"
  shows "mag_val a div (kBase ^ n * m) = mag_val (drop n a) div m"
proof -
  have "mag_val (take n a) < kBase ^ n"
    using mag_val_less [of "take n a"] assms by simp
  then have "mag_val a div kBase ^ n = mag_val (drop n a)"
    by (subst mag_val_take_drop [OF assms]) simp
  then show ?thesis
    by (simp add: div_mult2_eq)
qed

lemma mag_val_shiftRightBits [simp]: "mag_val (fst (shiftRightBits a n)) = mag_val a div 2 ^ n"
proof (cases "length a \<le> n div 32")
  case True
  have "mag_val a < 2 ^ n"
  proof -
    have "kBase ^ length a \<le> 2 ^ n"
      unfolding kBase_power using True by (intro power_increasing) simp_all
    then show ?thesis
      using mag_val_less [of a] by linarith
  qed
  with True show ?thesis
    by (simp add: shiftRightBits_def)
next
  case False
  then have "mag_val (fst (shiftRightBits a n)) = mag_val (drop (n div 32) a) div 2 ^ (n mod 32)"
    by (simp add: shiftRightBits_limbs mag_val_shr_list)
  also have "\<dots> = mag_val a div (kBase ^ (n div 32) * 2 ^ (n mod 32))"
    using False by (subst mag_val_div_limbs) simp_all
  finally show ?thesis
    by (simp add: power_split_bits)
qed

lemma normalized_shiftRightBits [simp]: "normalized (fst (shiftRightBits a n))"
  by (simp add: shiftRightBits_def Let_def)

lemma push_bit_top_zero_iff:
  assumes "0 < s" and "s < 32"
  shows "push_bit (32 - s) (x :: u32) = 0 \<longleftrightarrow> unat x mod 2 ^ s = 0"
proof -
  have "unat (push_bit (32 - s) x) = (unat x * 2 ^ (32 - s)) mod kBase"
    unfolding unsigned_push_bit_eq by (simp add: push_bit_eq_mult take_bit_eq_mod kBase_def)
  also have "\<dots> = 2 ^ (32 - s) * (unat x mod 2 ^ s)"
    using assms by (simp only: mult.commute [of "unat x"] shl_mod_kBase) simp
  finally show ?thesis
    by (simp add: word_zero_iff_unat)
qed

lemma shiftRightBits_lost: "snd (shiftRightBits a n) \<longleftrightarrow> mag_val a mod 2 ^ n \<noteq> 0"
proof (cases "length a \<le> n div 32")
  case True
  have "kBase ^ length a \<le> 2 ^ n"
    unfolding kBase_power using True by (intro power_increasing) simp_all
  then have "mag_val a mod 2 ^ n = mag_val a"
    using mag_val_less [of a] by simp
  with True show ?thesis
    by (auto simp: shiftRightBits_def mag_val_eq_0_iff)
next
  case False
  define k where "k = n div 32"
  define s where "s = n mod 32"
  obtain x xs where drop: "drop k a = x # xs"
    using False by (cases "drop k a") (simp_all add: k_def)
  have "a ! k = x"
    using drop False by (metis hd_drop_conv_nth k_def list.sel(1) not_le)
  have s: "s < 32"
    by (simp add: s_def)
  have "mag_val a mod 2 ^ n = mag_val (take k a) + kBase ^ k * (mag_val (drop k a) mod 2 ^ s)"
  proof -
    have lt: "mag_val (take k a) < kBase ^ k"
      using mag_val_less [of "take k a"] False by (simp add: k_def)
    have "mag_val a = mag_val (take k a) + kBase ^ k * mag_val (drop k a)"
      using False by (intro mag_val_take_drop) (simp add: k_def)
    then have "mag_val a mod (kBase ^ k * 2 ^ s) =
        mag_val (take k a) + kBase ^ k * (mag_val (drop k a) mod 2 ^ s)"
      using lt by (simp add: mod_mult2_eq)
    then show ?thesis
      by (simp add: k_def s_def power_split_bits)
  qed
  moreover have "mag_val (drop k a) mod 2 ^ s = unat x mod 2 ^ s"
    unfolding drop using s by (intro mag_val_mod_power) simp
  moreover have "snd (shiftRightBits a n) \<longleftrightarrow>
      (\<exists>l \<in> set (take k a). l \<noteq> 0) \<or> s \<noteq> 0 \<and> push_bit (32 - s) x \<noteq> 0"
    using False \<open>a ! k = x\<close> by (simp add: shiftRightBits_def Let_def k_def s_def)
  ultimately show ?thesis
    using push_bit_top_zero_iff [of s x] s
    by (cases "s = 0") (auto simp: mag_val_eq_0_iff)
qed

end
