(* ===== verification/Knuth_Division.thy ===== *)
theory Knuth_Division
  imports Limb_Arith
begin

text \<open>
  \<open>BigNum::divmodMagnitude\<close> of \<open>src/src/runtime/bignum.cpp\<close>: Knuth's algorithm D over 32-bit limbs.
  One pass of the outer loop is \<open>knuth_step\<close>, which works on the window \<open>u[j..j+n]\<close>; the
  correction of the trial quotient, the multiply-and-subtract pass and the add-back pass are
  their own functions. The result is proved to be the quotient and the remainder of the two
  magnitudes, with every trial quotient off by at most one when it is used.
\<close>

section \<open>Definitions\<close>

text \<open>
  \<open>while (rhat <= 0xFFFFFFFF && qhat * vNext > ((rhat << 32) | u[j + n - 2])) ...\<close>; the loop
  leaves \<open>rhat\<close> dead, so only \<open>qhat\<close> is returned.
\<close>

function qhat_correct :: "u64 \<Rightarrow> u64 \<Rightarrow> u32 \<Rightarrow> u64 \<Rightarrow> u64 \<Rightarrow> u64" where
  "qhat_correct vHigh vNext u2 qhat rhat =
     (if rhat \<le> 0xFFFFFFFF \<and> qhat * vNext > (push_bit 32 rhat OR w64 u2)
      then qhat_correct vHigh vNext u2 (qhat - 1) (rhat + vHigh)
      else qhat)"
  by pat_completeness auto
termination
proof (relation "measure (\<lambda>(vHigh, vNext, u2, qhat, rhat). unat qhat)")
  fix vHigh vNext qhat rhat :: u64 and u2 :: u32
  assume "rhat \<le> 0xFFFFFFFF \<and> qhat * vNext > (push_bit 32 rhat OR w64 u2)"
  then have "qhat \<noteq> 0"
    by (metis mult_zero_left not_less_zero word_not_simps(1))
  then have "unat (qhat - 1) < unat qhat"
    by (simp add: measure_unat)
  then show "((vHigh, vNext, u2, qhat - 1, rhat + vHigh), vHigh, vNext, u2, qhat, rhat)
      \<in> measure (\<lambda>(vHigh, vNext, u2, qhat, rhat). unat qhat)"
    by simp
qed simp

text \<open>\<open>u[j..j+n] -= qhat * v\<close>, one pass with a running carry and borrow.\<close>

fun mulsub_loop :: "u64 \<Rightarrow> limbs \<Rightarrow> limbs \<Rightarrow> int \<Rightarrow> u64 \<Rightarrow> limbs \<times> int \<times> u64" where
  "mulsub_loop qhat (vi # v) (ui # u) borrow carry =
     (let product = qhat * w64 vi + carry;
          diff = uint ui - uint (product AND 0xFFFFFFFF) - borrow;
          (limb, borrow') =
            (if diff < 0 then (word_of_int (diff + int kBase), 1) else (word_of_int diff, 0));
          (rest, borrow'', carry'') = mulsub_loop qhat v u borrow' (hi32 product)
      in (limb # rest, borrow'', carry''))"
| "mulsub_loop qhat _ _ borrow carry = ([], borrow, carry)"

text \<open>\<open>u[j..j+n) += v\<close>, the repair of a trial quotient that was one too large.\<close>

fun addback_loop :: "limbs \<Rightarrow> limbs \<Rightarrow> u64 \<Rightarrow> limbs \<times> u64" where
  "addback_loop (vi # v) (ui # u) addCarry =
     (let s = w64 ui + w64 vi + addCarry;
          (rest, addCarry') = addback_loop v u (hi32 s)
      in (lo32 s # rest, addCarry'))"
| "addback_loop _ _ addCarry = ([], addCarry)"

text \<open>The trial quotient from the top two limbs, capped at one limb.\<close>

definition trial_quotient :: "u64 \<Rightarrow> u64 \<Rightarrow> u64 \<times> u64" where
  "trial_quotient numerator vHigh =
     (let qhat = numerator div vHigh;
          rhat = numerator mod vHigh
      in if qhat > 0xFFFFFFFF
         then (0xFFFFFFFF, numerator - 0xFFFFFFFF * vHigh)
         else (qhat, rhat))"

text \<open>The digit a pass tries: the trial quotient of the top two limbs, corrected by the third.\<close>

definition step_qhat :: "limbs \<Rightarrow> limbs \<Rightarrow> nat \<Rightarrow> u64" where
  "step_qhat v u j =
     (let n = length v;
          vHigh = w64 (v ! (n - 1));
          vNext = w64 (v ! (n - 2));
          numerator = push_bit 32 (w64 (u ! (j + n))) OR w64 (u ! (j + n - 1));
          (qhat, rhat) = trial_quotient numerator vHigh
      in qhat_correct vHigh vNext (u ! (j + n - 2)) qhat rhat)"

definition knuth_step :: "limbs \<Rightarrow> limbs \<Rightarrow> nat \<Rightarrow> limbs \<times> u32" where
  "knuth_step v u j =
     (let n = length v;
          qhat = step_qhat v u j;
          (window, borrow, carry) = mulsub_loop qhat v (take n (drop j u)) 0 0;
          topDiff = uint (u ! (j + n)) - uint carry - borrow
      in if topDiff < 0
         then (let (window', addCarry) = addback_loop v window 0;
                   topDiff' = topDiff + int kBase + uint addCarry
               in (take j u @ window' @ word_of_int topDiff' # drop (j + n + 1) u, lo32 (qhat - 1)))
         else (take j u @ window @ word_of_int topDiff # drop (j + n + 1) u, lo32 qhat))"

text \<open>\<open>for (size_t j = m + 1; j-- > 0;)\<close>\<close>

primrec knuth_loop :: "limbs \<Rightarrow> nat \<Rightarrow> limbs \<Rightarrow> limbs \<Rightarrow> limbs \<times> limbs" where
  "knuth_loop v 0 u quot = (u, quot)"
| "knuth_loop v (Suc j) u quot =
     (let (u', qhat) = knuth_step v u j in knuth_loop v j u' (quot[j := qhat]))"

definition divmodMagnitude :: "limbs \<Rightarrow> limbs \<Rightarrow> limbs \<times> limbs" where
  "divmodMagnitude a b =
     (if compareMagnitude a b < 0 then ([], a)
      else if length b = 1
      then (let (work, rem) = divModSmall a (b ! 0)
            in (work, if rem \<noteq> 0 then [rem] else []))
      else
        (let shift = 32 - limbBits (last b);
             u = shiftLeftBits a shift;
             v = shiftLeftBits b shift;
             n = length v;
             m = (if n \<le> length u then length u - n else 0);
             (u', quot) = knuth_loop v (m + 1) (u @ [0]) (replicate (m + 1) 0)
         in (pop_zeros quot, fst (shiftRightBits (take n u') shift))))"

section \<open>The trial quotient\<close>

lemmas qhat_correct_loop [simp del] = qhat_correct.simps

text \<open>The arithmetic of the trial quotient, over natural numbers.\<close>

lemma trial_quotient_upper:
  fixes q V U k B :: nat
  assumes "q * V \<le> U" and "k * (vh * B) \<le> V" and "U < k * (B * (numer + 1))" and "0 < k" and "0 < B"
  shows "q * vh \<le> numer"
proof -
  have "k * (B * (q * vh)) = q * (k * (vh * B))"
    by (simp add: ac_simps)
  also have "\<dots> \<le> q * V"
    using assms(2) by (rule mult_le_mono2)
  also have "\<dots> < k * (B * (numer + 1))"
    using assms(1,3) by (rule le_less_trans)
  finally have "q * vh < numer + 1"
    using assms(4,5) by (simp only: mult_less_cancel1)
  then show ?thesis
    by simp
qed

lemma qhat_too_large:
  fixes q V U k B :: nat
  assumes "q * V \<le> U" and "k * (vh * B + vn) \<le> V" and "U < k * (numer * B + u2 + 1)"
    and "numer = qhat * vh + rhat" and "rhat * B + u2 < qhat * vn"
  shows "q < qhat"
proof (rule ccontr)
  assume "\<not> q < qhat"
  have "numer * B + u2 + 1 \<le> qhat * (vh * B + vn)"
    using assms(4,5) by (simp add: algebra_simps)
  then have "k * (numer * B + u2 + 1) \<le> k * (qhat * (vh * B + vn))"
    by (rule mult_le_mono2)
  also have "\<dots> = qhat * (k * (vh * B + vn))"
    by (simp add: ac_simps)
  also have "\<dots> \<le> q * V"
    using \<open>\<not> q < qhat\<close> assms(2) by (intro mult_le_mono) simp_all
  also have "\<dots> \<le> U"
    by (rule assms(1))
  finally show False
    using assms(3) by simp
qed

lemma qhat_at_most_one_over:
  fixes V U k B :: nat
  assumes V: "V = vrest + k * (vh * B + vn)" and "vrest < k" and "0 < vh"
    and U: "k * (numer * B + u2) \<le> U"
    and "numer = qhat * vh + rhat" and "qhat < B" and "vn < B"
    and stop: "B \<le> rhat \<or> qhat * vn \<le> rhat * B + u2"
  shows "qhat * V < U + V"
proof -
  have "qhat * (vh * B + vn) \<le> numer * B + u2"
  proof (cases "B \<le> rhat")
    case True
    have "qhat * vn \<le> B * B"
      using assms(6,7) by (intro mult_le_mono) simp_all
    also have "\<dots> \<le> rhat * B"
      using True by (rule mult_le_mono1)
    finally show ?thesis
      by (simp add: assms(5) algebra_simps)
  next
    case False
    with stop show ?thesis
      by (simp add: assms(5) algebra_simps)
  qed
  then have "k * (qhat * (vh * B + vn)) \<le> U"
    using U by (meson le_trans mult_le_mono2)
  moreover have "qhat * vrest < V"
  proof -
    have "qhat * vrest \<le> B * vrest"
      using assms(6) by (intro mult_le_mono1) simp
    also have "\<dots> < B * k"
      using assms(2,6) by (intro mult_strict_left_mono) simp_all
    also have "\<dots> \<le> k * (vh * B + vn)"
      using assms(3) by (cases vh) (simp_all add: algebra_simps)
    finally show ?thesis
      using V by simp
  qed
  moreover have "qhat * V = qhat * vrest + k * (qhat * (vh * B + vn))"
    by (simp add: V algebra_simps)
  ultimately show ?thesis
    by linarith
qed

lemma limb_mask_le_iff: "(x :: u64) \<le> 0xFFFFFFFF \<longleftrightarrow> unat x < kBase"
proof -
  have "x \<le> 0xFFFFFFFF \<longleftrightarrow> unat x \<le> 4294967295"
    by (simp add: word_le_nat_alt)
  then show ?thesis
    unfolding kBase_def by auto
qed

lemma unat_limb_mask: "unat (x AND 0xFFFFFFFF :: u64) = unat x mod kBase"
proof -
  have "x AND 0xFFFFFFFF = take_bit 32 x"
    by (simp add: take_bit_eq_mask mask_numeral)
  then show ?thesis
    by (simp only: unsigned_take_bit_eq) (simp add: take_bit_eq_mod kBase_def)
qed

lemma qhat_correct_spec:
  assumes "unat vHigh < kBase" and "0 < unat vHigh" and "unat vNext < kBase"
    and qV: "q * V \<le> U"
    and V: "V = vrest + k * (unat vHigh * kBase + unat vNext)" and "vrest < k"
    and U: "k * (numer * kBase + unat u2) \<le> U" "U < k * (numer * kBase + unat u2 + 1)"
  shows "unat qhat < kBase \<Longrightarrow> numer = unat qhat * unat vHigh + unat rhat \<Longrightarrow> unat rhat < 2 * kBase \<Longrightarrow>
    q \<le> unat qhat \<Longrightarrow>
    q \<le> unat (qhat_correct vHigh vNext u2 qhat rhat) \<and>
    unat (qhat_correct vHigh vNext u2 qhat rhat) * V < U + V \<and>
    unat (qhat_correct vHigh vNext u2 qhat rhat) < kBase"
  using assms
proof (induction vHigh vNext u2 qhat rhat rule: qhat_correct.induct)
  case (1 vHigh vNext u2 qhat rhat)
  note IH = "1.IH" and hyps = "1.prems"
  have prod: "unat (qhat * vNext) = unat qhat * unat vNext"
    using hyps(1,7) by (intro unat_mult_u64 mult_strict_mono) simp_all
  define go where "go \<longleftrightarrow> rhat \<le> 0xFFFFFFFF \<and> qhat * vNext > (push_bit 32 rhat OR w64 u2)"
  have go: "go \<longleftrightarrow> unat rhat < kBase \<and> unat rhat * kBase + unat u2 < unat qhat * unat vNext"
    using unat_shift_or [of rhat u2]
    by (auto simp: go_def limb_mask_le_iff word_less_nat_alt prod)
  show ?case
  proof (cases go)
    case True
    with go have r: "unat rhat < kBase" "unat rhat * kBase + unat u2 < unat qhat * unat vNext"
      by simp_all
    then have pos: "0 < unat qhat"
      by (cases "unat qhat") simp_all
    have less: "q < unat qhat"
      using qhat_too_large [OF hyps(8) _ hyps(12) hyps(2) r(2)] hyps(9) by simp
    have dec: "unat (qhat - 1) = unat qhat - 1"
      using pos by (intro unat_minus_one) auto
    have inc: "unat (rhat + vHigh) = unat rhat + unat vHigh"
    proof (rule unat_add_u64)
      have "unat rhat + unat vHigh < kBase * 2"
        using r(1) hyps(5) by linarith
      then show "unat rhat + unat vHigh < kBase * kBase"
        using kBase_sq_ge by linarith
    qed
    have numer: "numer = unat (qhat - 1) * unat vHigh + unat (rhat + vHigh)"
      using hyps(2) pos unfolding dec inc by (cases "unat qhat") (simp_all add: algebra_simps)
    have "unat (qhat - 1) < kBase" "unat (rhat + vHigh) < 2 * kBase" "q \<le> unat (qhat - 1)"
      using hyps(1,5) r(1) less unfolding dec inc by simp_all
    from IH [OF True [unfolded go_def] this(1) numer this(2,3) hyps(5-12)] show ?thesis
      using True by (simp add: qhat_correct.simps [of vHigh vNext u2 qhat rhat] flip: go_def)
  next
    case False
    then have stop: "kBase \<le> unat rhat \<or> unat qhat * unat vNext \<le> unat rhat * kBase + unat u2"
      using go by linarith
    have "unat qhat * V < U + V"
      by (rule qhat_at_most_one_over [OF hyps(9,10,6,11,2,1,7) stop])
    then show ?thesis
      using False hyps(1,4) by (simp add: qhat_correct.simps [of vHigh vNext u2 qhat rhat] flip: go_def)
  qed
qed

section \<open>Multiply-and-subtract, add-back\<close>

lemma mulsub_loop_correct:
  assumes "length u = length v" and "unat qhat < kBase" and "borrow \<in> {0, 1}" and "unat carry < kBase"
    and "mulsub_loop qhat v u borrow carry = (w, borrow', carry')"
  shows "int (mag_val w) = int (mag_val u) - int (unat qhat * mag_val v) - int (unat carry) - borrow
           + int (kBase ^ length v) * (int (unat carry') + borrow') \<and>
         length w = length v \<and> borrow' \<in> {0, 1} \<and> unat carry' < kBase"
  using assms
proof (induction v arbitrary: u borrow carry w borrow' carry')
  case Nil
  then show ?case by auto
next
  case (Cons vi v)
  from Cons.prems(1) obtain ui u1 where u: "u = ui # u1" and len: "length u1 = length v"
    by (cases u) auto
  define product where "product = qhat * w64 vi + carry"
  have q: "w64 (lo32 qhat) = qhat"
    using Cons.prems(2) by (simp add: word_unat_eq_iff word_nat)
  have product: "unat product = unat qhat * unat vi + unat carry"
    using unat_mul_add [OF Cons.prems(4), of "lo32 qhat" vi] Cons.prems(2)
    by (simp add: q product_def unat_lo32)
  define diff where "diff = uint ui - uint (product AND 0xFFFFFFFF) - borrow"
  define bor where "bor = (if diff < 0 then 1 else 0 :: int)"
  define limb where "limb = (word_of_int (diff + bor * int kBase) :: u32)"
  obtain rest b2 c2 where rec: "mulsub_loop qhat v u1 bor (hi32 product) = (rest, b2, c2)"
    by (metis prod_cases3)
  have low: "uint (product AND 0xFFFFFFFF) = int (unat product mod kBase)"
    by (simp only: uint_nat unat_limb_mask)
  have "0 \<le> uint ui" "uint ui < int kBase" "0 \<le> int (unat product mod kBase)"
    "int (unat product mod kBase) < int kBase"
    by (simp_all add: uint_lt_kBase)
  moreover have "0 \<le> borrow" "borrow \<le> 1"
    using Cons.prems(3) by auto
  ultimately have "- int kBase \<le> diff" "diff < int kBase"
    unfolding diff_def low by linarith+
  then have limb: "uint limb = diff + bor * int kBase"
    unfolding limb_def by (intro uint_word_of_int_limb) (auto simp: bor_def)
  have out: "w = limb # rest" "borrow' = b2" "carry' = c2"
    using Cons.prems(5) rec
    by (auto simp: u Let_def limb_def bor_def diff_def product_def split: prod.splits if_splits)
  have "bor \<in> {0, 1}"
    by (simp add: bor_def)
  from Cons.IH [OF len Cons.prems(2) this _ rec]
  have IH: "int (mag_val rest) = int (mag_val u1) - int (unat qhat * mag_val v)
      - int (unat (hi32 product)) - bor + int (kBase ^ length v) * (int (unat c2) + b2)"
    "length rest = length v" "b2 \<in> {0, 1}" "unat c2 < kBase"
    by simp_all
  have split: "int (unat product mod kBase) + int kBase * int (unat (hi32 product)) =
      int (unat qhat) * int (unat vi) + int (unat carry)"
    using unat_lo_hi [of product]
    by (simp only: product unat_lo32 flip: of_nat_mult of_nat_add)
  have "int (mag_val w) = uint limb + int kBase * int (mag_val rest)"
    by (simp add: out)
  also have "\<dots> = uint ui + int kBase * int (mag_val u1)
      - (int (unat product mod kBase) + int kBase * int (unat (hi32 product)))
      - int kBase * int (unat qhat * mag_val v) - borrow
      + int kBase * int (kBase ^ length v) * (int (unat c2) + b2)"
    unfolding limb IH(1) diff_def low by (simp add: algebra_simps)
  finally show ?case
    unfolding split using IH(2-4) by (simp add: out u algebra_simps)
qed

lemma addback_loop_correct:
  assumes "length u = length v" and "unat carry \<le> 1" and "addback_loop v u carry = (w, carry')"
  shows "mag_val w + kBase ^ length v * unat carry' = mag_val u + mag_val v + unat carry \<and>
         length w = length v \<and> unat carry' \<le> 1"
  using assms
proof (induction v u carry arbitrary: w carry' rule: addback_loop.induct)
  case (1 vi v ui u carry)
  define s where "s = w64 ui + w64 vi + carry"
  obtain rest c where rec: "addback_loop v u (hi32 s) = (rest, c)"
    by fastforce
  note step = add_step [OF "1.prems"(2), of ui vi, folded s_def]
  have out: "w = lo32 s # rest" "carry' = c"
    using "1.prems"(3) rec by (simp_all add: s_def Let_def)
  have "mag_val rest + kBase ^ length v * unat c = mag_val u + mag_val v + unat (hi32 s) \<and>
      length rest = length v \<and> unat c \<le> 1"
    using "1.IH" [OF s_def _ step(1) rec] "1.prems"(1) by simp
  then have "kBase * (mag_val rest + kBase ^ length v * unat c) =
      kBase * (mag_val u + mag_val v + unat (hi32 s))" "length rest = length v" "unat c \<le> 1"
    by simp_all
  then show ?case
    using step(2) by (simp add: out algebra_simps)
qed auto

section \<open>One step of the outer loop\<close>

lemma trial_quotient_spec:
  assumes "0 < unat vHigh" and "unat vHigh < kBase"
    and "unat numerator < unat vHigh * kBase + kBase"
    and "trial_quotient numerator vHigh = (qhat, rhat)"
  shows "unat numerator = unat qhat * unat vHigh + unat rhat"
    and "unat qhat < kBase" and "unat rhat < 2 * kBase"
    and "unat qhat = min (kBase - 1) (unat numerator div unat vHigh)"
proof -
  have gt: "numerator div vHigh > 0xFFFFFFFF \<longleftrightarrow> kBase \<le> unat numerator div unat vHigh"
    using limb_mask_le_iff [of "numerator div vHigh"] unat_div_distrib [of numerator vHigh] not_le by metis
  have cap: "unat (0xFFFFFFFF :: u64) = kBase - 1"
    by (simp add: kBase_def)
  have "unat numerator = unat qhat * unat vHigh + unat rhat \<and> unat qhat < kBase \<and>
      unat rhat < 2 * kBase \<and> unat qhat = min (kBase - 1) (unat numerator div unat vHigh)"
  proof (cases "numerator div vHigh > 0xFFFFFFFF")
    case True
    then have out: "qhat = 0xFFFFFFFF" "rhat = numerator - 0xFFFFFFFF * vHigh"
      using assms(4) by (simp_all add: trial_quotient_def Let_def)
    have "kBase * unat vHigh \<le> unat numerator"
      using True gt assms(1) by (simp add: less_eq_div_iff_mult_less_eq)
    have mul: "unat (0xFFFFFFFF * vHigh) = (kBase - 1) * unat vHigh"
      unfolding cap [symmetric] using assms(2) cap
      by (intro unat_mult_u64 mult_strict_mono) (simp_all add: kBase_def)
    have le: "(kBase - 1) * unat vHigh \<le> unat numerator"
      using \<open>kBase * unat vHigh \<le> unat numerator\<close> by (simp add: diff_mult_distrib)
    then have rhat: "unat rhat = unat numerator - (kBase - 1) * unat vHigh"
      unfolding out mul [symmetric] by (intro unat_sub) (simp add: word_le_nat_alt mul)
    have "unat rhat < 2 * kBase"
    proof -
      have "(kBase - 1) * unat vHigh + unat vHigh = unat vHigh * kBase"
        using kBase_pos by (cases kBase) (simp_all add: algebra_simps)
      then show ?thesis
        using assms(2,3) unfolding rhat by linarith
    qed
    then show ?thesis
      using le rhat True gt unfolding out(1) cap by (simp add: min_def)
  next
    case False
    then have out: "qhat = numerator div vHigh" "rhat = numerator mod vHigh"
      using assms(4) by (simp_all add: trial_quotient_def Let_def)
    have "unat numerator mod unat vHigh < unat vHigh"
      using assms(1) by simp
    moreover have "min (kBase - 1) (unat numerator div unat vHigh) = unat numerator div unat vHigh"
      using False gt by (intro min_absorb2) linarith
    ultimately show ?thesis
      using assms(2) False gt by (simp add: out unat_div_distrib unat_mod_distrib)
  qed
  then show "unat numerator = unat qhat * unat vHigh + unat rhat" "unat qhat < kBase"
    "unat rhat < 2 * kBase" "unat qhat = min (kBase - 1) (unat numerator div unat vHigh)"
    by blast+
qed

text \<open>Splitting a vector at its two top limbs.\<close>

lemma split_top_two:
  assumes "2 \<le> length v"
  obtains v0 where "v = v0 @ [v ! (length v - 2), v ! (length v - 1)]" and "length v0 = length v - 2"
proof -
  from assms obtain v1 y where v1: "v = v1 @ [y]" "v1 \<noteq> []"
    by (cases v rule: rev_exhaust) fastforce+
  then obtain v0 x where v: "v = v0 @ [x, y]"
    by (cases v1 rule: rev_exhaust) auto
  then have "v = v0 @ [v ! (length v - 2), v ! (length v - 1)]" "length v0 = length v - 2"
    by (simp_all add: nth_append)
  then show thesis
    by (rule that)
qed

text \<open>The corrected trial quotient of a window is the true digit or one more.\<close>

lemma qhat_window:
  fixes w v :: limbs and t :: u32
  assumes "2 \<le> length v" and "last v \<noteq> 0" and "length w = length v"
    and "mag_val w + kBase ^ length v * unat t < kBase * mag_val v"
    and "mag_val (tl w) + kBase ^ (length v - 1) * unat t < mag_val v"
  defines "n \<equiv> length v"
  defines "vHigh \<equiv> w64 (v ! (n - 1))" and "vNext \<equiv> w64 (v ! (n - 2))"
  defines "numerator \<equiv> push_bit 32 (w64 t) OR w64 (w ! (n - 1))"
  assumes trial: "trial_quotient numerator vHigh = (qhat0, rhat0)"
  defines "qhat \<equiv> qhat_correct vHigh vNext (w ! (n - 2)) qhat0 rhat0"
  defines "q \<equiv> (mag_val w + kBase ^ length v * unat t) div mag_val v"
  shows "unat qhat = q \<or> unat qhat = q + 1" and "unat qhat < kBase"
proof -
  define k where "k = kBase ^ (n - 2)"
  define U where "U = mag_val w + kBase ^ length v * unat t"
  define V where "V = mag_val v"
  obtain v0 where v0: "v = v0 @ [v ! (n - 2), v ! (n - 1)]" "length v0 = n - 2"
    using split_top_two [OF assms(1)] by (metis n_def)
  obtain w0 where w0: "w = w0 @ [w ! (n - 2), w ! (n - 1)]" "length w0 = n - 2"
    using split_top_two [of w] assms(1,3) by (metis n_def)
  obtain m where m: "n = Suc (Suc m)"
    using assms(1) unfolding n_def by (metis Suc_le_D Suc_le_mono numeral_2_eq_2)
  have pow1: "kBase ^ (n - 1) = k * kBase" and pow: "kBase ^ n = k * kBase * kBase"
    by (simp_all add: k_def m)
  have V: "V = mag_val v0 + k * (unat vHigh * kBase + unat vNext)"
    unfolding V_def by (subst v0(1)) (simp add: v0(2) k_def vHigh_def vNext_def algebra_simps)
  have wval: "mag_val w = mag_val w0 + k * (unat (w ! (n - 1)) * kBase + unat (w ! (n - 2)))"
    by (subst w0(1)) (simp add: w0(2) k_def algebra_simps)
  have vHigh: "unat vHigh = unat (v ! (n - 1))"
    by (simp add: vHigh_def)
  have vh_pos: "0 < unat vHigh"
    using assms(1,2) by (simp add: vHigh n_def last_conv_nth unat_gt_0 flip: length_greater_0_conv)
  have num: "unat numerator = unat t * kBase + unat (w ! (n - 1))"
    unfolding numerator_def by (subst unat_shift_or) simp_all
  have U: "U = mag_val w0 + k * (unat numerator * kBase + unat (w ! (n - 2)))"
    unfolding U_def wval num using pow by (simp add: n_def algebra_simps)
  have lt0: "mag_val v0 < k" "mag_val w0 < k"
    using mag_val_less [of v0] mag_val_less [of w0] by (simp_all add: v0(2) w0(2) k_def)
  have k_pos: "0 < k"
    by (simp add: k_def)
  have top: "unat t \<le> unat vHigh"
  proof (rule ccontr)
    assume "\<not> unat t \<le> unat vHigh"
    then have "k * kBase * (unat vHigh + 1) \<le> k * kBase * unat t"
      by (intro mult_le_mono2) simp
    moreover have "k * kBase * unat t < V"
      using assms(5) pow1 by (simp add: V_def n_def)
    moreover have "V < k * kBase * (unat vHigh + 1)"
    proof -
      have "mag_val v0 + k * (unat vNext + 1) \<le> mag_val v0 + k * kBase"
        by (intro add_left_mono mult_le_mono2) (simp add: vNext_def Suc_le_eq)
      then show ?thesis
        unfolding V using lt0(1) by (simp add: algebra_simps)
    qed
    ultimately show False by linarith
  qed
  have numer_lt: "unat numerator < unat vHigh * kBase + kBase"
    using mult_le_mono1 [OF top, of kBase] unat_lt_kBase [of "w ! (n - 1)"] unfolding num by linarith
  have vHigh_lt: "unat vHigh < kBase"
    by (simp add: vHigh)
  note tq = trial_quotient_spec [OF vh_pos vHigh_lt numer_lt trial]
  have q: "q = U div V"
    by (simp add: q_def U_def V_def)
  have "0 < V"
    using vh_pos k_pos by (simp add: V)
  have qV: "q * V \<le> U"
    by (simp add: q)
  have "q \<le> kBase - 1"
  proof -
    have "U div V < kBase"
      using assms(4) by (intro less_mult_imp_div_less) (simp add: U_def V_def)
    then show ?thesis
      by (simp add: q)
  qed
  have U_lt: "U < k * (unat numerator * kBase + unat (w ! (n - 2)) + 1)"
    using lt0(2) by (simp add: U)
  have "U < k * (kBase * (unat numerator + 1))"
  proof -
    have "k * (unat numerator * kBase + unat (w ! (n - 2)) + 1) \<le> k * (kBase * (unat numerator + 1))"
      using unat_lt_kBase [of "w ! (n - 2)"] by (intro mult_le_mono2) (simp add: algebra_simps Suc_le_eq)
    with U_lt show ?thesis by linarith
  qed
  moreover have "k * (unat vHigh * kBase) \<le> V"
    unfolding V by (simp add: add_mult_distrib2)
  ultimately have "q * unat vHigh \<le> unat numerator"
    using trial_quotient_upper [OF qV _ _ k_pos kBase_pos] by blast
  then have "q \<le> unat qhat0"
    using \<open>q \<le> kBase - 1\<close> vh_pos by (simp add: tq(4) less_eq_div_iff_mult_less_eq)
  have vNext_lt: "unat vNext < kBase"
    by (simp add: vNext_def)
  have U_ge: "k * (unat numerator * kBase + unat (w ! (n - 2))) \<le> U"
    by (simp add: U)
  have "q \<le> unat qhat \<and> unat qhat * V < U + V \<and> unat qhat < kBase"
    unfolding qhat_def
    by (rule qhat_correct_spec [OF vHigh_lt vh_pos vNext_lt qV V lt0(1) U_ge U_lt tq(2,1,3)
          \<open>q \<le> unat qhat0\<close>])
  then have "q \<le> unat qhat" "unat qhat * V < (q + 2) * V" "unat qhat < kBase"
    using \<open>0 < V\<close> div_mult_mod_eq [of U V] mod_less_divisor [of V U]
    unfolding q add_mult_distrib by linarith+
  moreover from this(2) have "unat qhat < q + 2"
    by (simp only: mult_less_cancel2)
  ultimately show "unat qhat = q \<or> unat qhat = q + 1" "unat qhat < kBase"
    by linarith+
qed

text \<open>
  The two outcomes of the subtraction pass. \<open>W\<close> is what the pass left in the low limbs, \<open>d\<close> the
  signed top difference and \<open>P\<close> the weight of the top limb.
\<close>

lemma window_no_repair:
  fixes U V W P qhat :: nat and d :: int
  assumes key: "int U - int (qhat * V) = int W + int P * d" and "0 \<le> d"
    and "qhat = U div V \<or> qhat = U div V + 1" and "0 < V"
  shows "qhat = U div V" and "int (U mod V) = int W + int P * d"
proof -
  have "0 \<le> int W + int P * d"
    using assms(2) by simp
  with key have "qhat * V \<le> U"
    by linarith
  then have "qhat \<le> U div V"
    using assms(4) by (simp add: less_eq_div_iff_mult_less_eq)
  with assms(3) show q: "qhat = U div V"
    by linarith
  show "int (U mod V) = int W + int P * d"
    using key unfolding q by (simp add: minus_div_mult_eq_mod [symmetric] of_nat_diff)
qed

lemma window_repair:
  fixes U V W W' P c qhat :: nat and d :: int
  assumes key: "int U - int (qhat * V) = int W + int P * d" and "W < P" and "d < 0"
    and q: "qhat = U div V \<or> qhat = U div V + 1" and "0 < V" and "V < P"
    and addback: "W' + P * c = W + V" and "W' < P"
  shows "qhat = U div V + 1" and "U mod V = W'" and "d + int c = 0"
proof -
  have "int P * d \<le> int P * (-1)"
    using assms(3) by (intro mult_left_mono) simp_all
  with key assms(2) have "U < qhat * V"
    by linarith
  then have "qhat \<noteq> U div V"
    using div_times_less_eq_dividend [of U V] by (metis not_le)
  with q show qhat: "qhat = U div V + 1"
    by simp
  have "int (U mod V) = int U - int (qhat * V) + int V"
    unfolding qhat by (simp add: algebra_simps minus_div_mult_eq_mod [symmetric] of_nat_diff)
  also have "\<dots> = int W + int V + int P * d"
    using key by simp
  also have "int W + int V = int W' + int P * int c"
    using addback by (simp only: flip: of_nat_add of_nat_mult)
  finally have eq: "int (U mod V) = int W' + int P * (d + int c)"
    by (simp add: algebra_simps)
  have bounds: "0 \<le> int (U mod V)" "int (U mod V) < int P"
    using mod_less_divisor [OF assms(5), of U] assms(6) by linarith+
  have "d + int c < 1"
  proof (rule ccontr)
    assume "\<not> d + int c < 1"
    then have "int P * 1 \<le> int P * (d + int c)"
      by (intro mult_left_mono) simp_all
    with eq bounds show False by linarith
  qed
  moreover have "-1 < d + int c"
  proof (rule ccontr)
    assume "\<not> -1 < d + int c"
    then have "int P * (d + int c) \<le> int P * (-1)"
      by (intro mult_left_mono) simp_all
    with eq bounds assms(8) show False by linarith
  qed
  ultimately show "d + int c = 0"
    by linarith
  with eq show "U mod V = W'"
    by simp
qed

text \<open>What one pass leaves in a window: the remainder, and the digit is the quotient.\<close>

lemma knuth_step_window:
  assumes "2 \<le> length v" and "last v \<noteq> 0" and "j + length v < length u"
    and inv: "mag_val (drop (Suc j) u) < mag_val v"
    and step: "knuth_step v u j = (u', digit)"
  shows "take j u' = take j u" and "length u' = length u"
    and "mag_val (drop j u') = mag_val (drop j u) mod mag_val v"
    and "unat digit = mag_val (drop j u) div mag_val v"
proof -
  define n where "n = length v"
  define w where "w = take n (drop j u)"
  define t where "t = u ! (j + n)"
  define V where "V = mag_val v"
  define U where "U = mag_val (drop j u)"
  define rest where "rest = drop (j + n + 1) u"
  have lens: "length w = n" "2 \<le> n"
    using assms(1,3) by (simp_all add: w_def n_def)
  have "drop (j + n) u = t # rest"
    unfolding t_def rest_def using assms(3) by (simp add: n_def Cons_nth_drop_Suc)
  then have drop: "drop j u = w @ t # rest"
    unfolding w_def by (metis append_take_drop_id drop_drop add.commute)
  have tail: "drop (Suc j) u = tl w @ t # rest"
    using lens arg_cong [OF drop, of tl] by (simp add: drop_Suc tl_drop tl_append2 flip: length_greater_0_conv)
  have pow: "kBase ^ n = kBase ^ (n - 1) * kBase"
    using lens(2) by (cases n) simp_all
  have V_lt: "V < kBase ^ n"
    using mag_val_less [of v] by (simp add: V_def n_def)
  have V_pos: "0 < V"
    using inv by (simp add: V_def)
  have "mag_val rest = 0"
  proof (rule ccontr)
    assume "mag_val rest \<noteq> 0"
    then have "kBase ^ n * 1 \<le> kBase ^ (n - 1) * (kBase * mag_val rest)"
      unfolding pow mult.assoc by (intro mult_le_mono2) simp
    also have "\<dots> \<le> mag_val (drop (Suc j) u)"
      unfolding tail by (simp add: lens add_mult_distrib2)
    finally show False
      using inv V_lt by (simp add: V_def)
  qed
  then have U: "U = mag_val w + kBase ^ n * unat t" and
    tail_val: "mag_val (drop (Suc j) u) = mag_val (tl w) + kBase ^ (n - 1) * unat t"
    unfolding U_def drop tail by (simp_all add: lens)
  obtain x w1 where w: "w = x # w1"
    using lens by (cases w) simp_all
  have U_lt: "U < kBase * V"
  proof -
    have "U = unat x + kBase * mag_val (drop (Suc j) u)"
      unfolding U tail_val w using pow by (simp add: algebra_simps)
    moreover have "kBase * (mag_val (drop (Suc j) u) + 1) \<le> kBase * V"
      using inv by (intro mult_le_mono2) (simp add: V_def)
    ultimately show ?thesis
      using unat_lt_kBase [of x] unfolding add_mult_distrib2 by linarith
  qed
  define numerator where "numerator = push_bit 32 (w64 t) OR w64 (w ! (n - 1))"
  obtain qhat0 rhat0 where trial: "trial_quotient numerator (w64 (v ! (n - 1))) = (qhat0, rhat0)"
    by fastforce
  define qhat where
    "qhat = qhat_correct (w64 (v ! (n - 1))) (w64 (v ! (n - 2))) (w ! (n - 2)) qhat0 rhat0"
  have digit: "unat qhat = U div V \<or> unat qhat = U div V + 1" and qhat_lt: "unat qhat < kBase"
    unfolding qhat_def U V_def n_def
    by (rule qhat_window [OF assms(1,2)];
        use lens U U_lt inv tail_val trial in \<open>simp add: n_def V_def numerator_def\<close>)+
  obtain window borrow carry where ms: "mulsub_loop qhat v w 0 0 = (window, borrow, carry)"
    by (metis prod_cases3)
  from mulsub_loop_correct [OF _ qhat_lt _ _ ms]
  have ms_val: "int (mag_val window) = int (mag_val w) - int (unat qhat * V)
      + int (kBase ^ n) * (int (unat carry) + borrow)" and ms_len: "length window = n"
    and ms_small: "borrow \<in> {0, 1}" "unat carry < kBase"
    using lens(1) by (simp_all add: n_def V_def)
  define topDiff where "topDiff = uint t - uint carry - borrow"
  have key: "int U - int (unat qhat * V) = int (mag_val window) + int (kBase ^ n) * topDiff"
    unfolding ms_val U topDiff_def by (simp add: algebra_simps)
  have window_lt: "int (mag_val window) < int (kBase ^ n)"
    using mag_val_less [of window] by (simp only: ms_len of_nat_less_iff)
  have nths: "u ! (j + n - 1) = w ! (n - 1)" "u ! (j + n - 2) = w ! (n - 2)"
    using lens assms(3) by (simp_all add: w_def n_def)
  have "step_qhat v u j = qhat"
    unfolding step_qhat_def Let_def
    by (simp only: n_def [symmetric] nths t_def [symmetric] numerator_def [symmetric] trial prod.case qhat_def)
  then have step': "knuth_step v u j =
      (if topDiff < 0
       then (let (window', addCarry) = addback_loop v window 0
             in (take j u @ window' @ word_of_int (topDiff + int kBase + uint addCarry) # rest,
                 lo32 (qhat - 1)))
       else (take j u @ window @ word_of_int topDiff # rest, lo32 qhat))"
    unfolding knuth_step_def Let_def
    by (simp only: n_def [symmetric] w_def [symmetric] t_def [symmetric] ms prod.case
        topDiff_def [symmetric] rest_def)
  have "\<exists>new top. u' = take j u @ new @ top # rest \<and> length new = n \<and>
      mag_val new + kBase ^ n * unat top = U mod V \<and> unat digit = U div V"
  proof (cases "topDiff < 0")
    case False
    note fin = window_no_repair [OF key _ digit V_pos]
    have "0 \<le> borrow" "0 \<le> uint carry"
      using ms_small(1) by auto
    then have "topDiff < int kBase"
      using uint_lt_kBase [of t] unfolding topDiff_def by linarith
    then have "uint (word_of_int topDiff :: u32) = topDiff"
      using False by (intro uint_word_of_int_limb) simp_all
    then have "int (U mod V) = int (mag_val window + kBase ^ n * unat (word_of_int topDiff :: u32))"
      using fin(2) False by (simp flip: uint_nat)
    moreover have "unat (lo32 qhat) = U div V"
      using fin(1) False qhat_lt by (simp add: unat_lo32)
    ultimately show ?thesis
      using step step' False ms_len by (auto simp del: of_nat_add of_nat_mult of_nat_mod)
  next
    case True
    obtain window' addCarry where ab: "addback_loop v window 0 = (window', addCarry)"
      by fastforce
    from addback_loop_correct [OF _ _ ab]
    have ab_val: "mag_val window' + kBase ^ n * unat addCarry = mag_val window + V"
      and ab_len: "length window' = n"
      using ms_len by (simp_all add: n_def V_def)
    have lt: "mag_val window < kBase ^ n" "mag_val window' < kBase ^ n"
      using mag_val_less [of window] mag_val_less [of window'] by (simp_all add: ms_len ab_len)
    note fin = window_repair [OF key lt(1) True digit V_pos V_lt ab_val lt(2)]
    have "topDiff + int kBase + uint addCarry = int kBase"
      using fin(3) by (simp flip: uint_nat)
    then have "(word_of_int (topDiff + int kBase + uint addCarry) :: u32) = 0"
      by (simp only:) (simp add: kBase_def)
    moreover have "unat (lo32 (qhat - 1)) = U div V"
    proof -
      have "unat (qhat - 1) = U div V"
        using fin(1) by (subst unat_minus_one) auto
      then show ?thesis
        using fin(1) qhat_lt by (simp add: unat_lo32)
    qed
    ultimately show ?thesis
      using step step' True ab ab_len fin(2) by auto
  qed
  then obtain new top where u': "u' = take j u @ new @ top # rest" and new_len: "length new = n"
    and val: "mag_val new + kBase ^ n * unat top = U mod V" and d: "unat digit = U div V"
    by blast
  show "take j u' = take j u"
    using assms(3) by (simp add: u')
  show "length u' = length u"
    using assms(3) new_len by (simp add: u' rest_def n_def)
  show "mag_val (drop j u') = mag_val (drop j u) mod mag_val v"
    using assms(3) new_len val \<open>mag_val rest = 0\<close> by (simp add: u' U_def V_def)
  show "unat digit = mag_val (drop j u) div mag_val v"
    using d by (simp add: U_def V_def)
qed

section \<open>The whole division\<close>

lemma mag_val_split: "k \<le> length u \<Longrightarrow> mag_val u = mag_val (take k u) + kBase ^ k * mag_val (drop k u)"
  by (rule mag_val_take_drop)

lemma knuth_step_total:
  assumes "2 \<le> length v" and "last v \<noteq> 0" and "j + length v < length u"
    and "mag_val (drop (Suc j) u) < mag_val v" and "knuth_step v u j = (u', digit)"
  shows "mag_val u = mag_val u' + kBase ^ j * (unat digit * mag_val v)"
    and "mag_val (drop j u') < mag_val v" and "length u' = length u"
proof -
  note win = knuth_step_window [OF assms]
  have V: "0 < mag_val v"
    using assms(4) by simp
  show "length u' = length u"
    by (rule win(2))
  show "mag_val (drop j u') < mag_val v"
    using V by (simp add: win(3))
  have "mag_val (drop j u) = mag_val (drop j u') + unat digit * mag_val v"
    by (simp add: win(3,4))
  then show "mag_val u = mag_val u' + kBase ^ j * (unat digit * mag_val v)"
    using mag_val_split [of j u] mag_val_split [of j u'] assms(3) win(1,2)
    by (simp add: add_mult_distrib2)
qed

lemma knuth_loop_correct:
  assumes "2 \<le> length v" and "last v \<noteq> 0" and "k + length v \<le> length u"
    and "mag_val (drop k u) < mag_val v"
    and "knuth_loop v k u (replicate k 0 @ qs) = (u', quot)"
  shows "mag_val u' = mag_val u mod mag_val v \<and>
         mag_val quot = mag_val u div mag_val v + kBase ^ k * mag_val qs \<and> length u' = length u"
  using assms(3-5)
proof (induction k arbitrary: u qs)
  case 0
  then show ?case by simp
next
  case (Suc j)
  have "mag_val (drop (Suc j) u) < mag_val v" and j: "j + length v < length u"
    using Suc.prems(1,2) by simp_all
  obtain u1 digit where step: "knuth_step v u j = (u1, digit)"
    by fastforce
  note one = knuth_step_total [OF assms(1,2) j Suc.prems(2) step]
  have "replicate (Suc j) 0 @ qs = replicate j 0 @ (0 :: u32) # qs"
    by (simp add: replicate_append_same flip: append_Cons)
  then have "(replicate (Suc j) 0 @ qs)[j := digit] = replicate j 0 @ digit # qs"
    by (simp add: list_update_append)
  then have "knuth_loop v j u1 (replicate j 0 @ digit # qs) = (u', quot)"
    using Suc.prems(3) by (simp add: step)
  from Suc.IH [OF _ _ this] one j
  have IH: "mag_val u' = mag_val u1 mod mag_val v"
    "mag_val quot = mag_val u1 div mag_val v + kBase ^ j * mag_val (digit # qs)" "length u' = length u"
    by simp_all
  have u: "mag_val u = mag_val u1 + (kBase ^ j * unat digit) * mag_val v"
    using one(1) by (simp add: mult.assoc)
  have "0 < mag_val v"
    using Suc.prems(2) by simp
  then have "mag_val u mod mag_val v = mag_val u1 mod mag_val v"
    and "mag_val u div mag_val v = mag_val u1 div mag_val v + kBase ^ j * unat digit"
    by (simp_all add: u)
  with IH show ?case
    by (simp add: algebra_simps)
qed

text \<open>The normalization shift keeps the number of divisor limbs.\<close>

lemma normalize_divisor:
  assumes "normalized b" and "b \<noteq> []"
  shows "length (shiftLeftBits b (32 - limbBits (last b))) = length b"
proof -
  define s where "s = 32 - limbBits (last b)"
  define v where "v = shiftLeftBits b s"
  have val: "mag_val v = mag_val b * 2 ^ s"
    by (simp add: v_def)
  have "normalized v"
    by (simp add: v_def)
  have bits: "bitLength_mag b + s = 32 * length b"
    using assms(2) limbBits_le [of "last b"] by (cases "length b") (simp_all add: bitLength_mag_def s_def)
  have "mag_val v < 2 ^ (bitLength_mag b + s)"
    using bitLength_mag_upper [of b] unfolding val power_add by simp
  then have upper: "mag_val v < kBase ^ length b"
    by (simp only: bits kBase_power)
  have lower: "kBase ^ (length b - 1) \<le> mag_val v"
  proof -
    have "mag_val b * 1 \<le> mag_val b * 2 ^ s"
      by (intro mult_le_mono2) simp
    with normalized_ge [OF assms] show ?thesis
      unfolding val by linarith
  qed
  have "\<not> length v < length b"
  proof
    assume "length v < length b"
    then have "kBase ^ length v \<le> kBase ^ (length b - 1)"
      by (intro power_increasing) (simp_all add: Suc_le_eq)
    with lower mag_val_less [of v] show False by linarith
  qed
  moreover have "\<not> length b < length v"
  proof
    assume less: "length b < length v"
    then have "kBase ^ length b \<le> kBase ^ (length v - 1)"
      by (intro power_increasing) (simp_all add: Suc_le_eq)
    moreover from less have "v \<noteq> []" by auto
    ultimately show False
      using normalized_ge [OF \<open>normalized v\<close>] upper by fastforce
  qed
  ultimately show ?thesis
    by (simp add: v_def s_def)
qed

lemma divmodMagnitude_small:
  assumes "normalized a" and "length b = 1" and "normalized b" and "\<not> compareMagnitude a b < 0"
    and "divmodMagnitude a b = (q, r)"
  shows "mag_val q = mag_val a div mag_val b \<and> mag_val r = mag_val a mod mag_val b \<and>
         normalized q \<and> normalized r"
proof -
  obtain d where b: "b = [d]"
    using assms(2) length_le_Suc_0_cases by auto
  with assms(3) have "d \<noteq> 0"
    by (simp add: normalized_def)
  obtain work rem where small: "divModSmall a d = (work, rem)"
    by fastforce
  have "q = work" "r = (if rem \<noteq> 0 then [rem] else [])"
    using assms(4,5) by (simp_all add: divmodMagnitude_def b small)
  then show ?thesis
    using divModSmall_correct [OF \<open>d \<noteq> 0\<close> small] by (auto simp: b normalized_def word_zero_iff_unat)
qed

lemma mag_val_drop_zero: "n \<le> length u \<Longrightarrow> mag_val u < kBase ^ n \<Longrightarrow> mag_val (take n u) = mag_val u"
proof -
  assume n: "n \<le> length u" and lt: "mag_val u < kBase ^ n"
  have "mag_val (drop n u) = 0"
  proof (rule ccontr)
    assume "mag_val (drop n u) \<noteq> 0"
    then have "kBase ^ n * 1 \<le> kBase ^ n * mag_val (drop n u)"
      by (intro mult_le_mono2) simp
    with mag_val_take_drop [OF n] lt show False by linarith
  qed
  with mag_val_take_drop [OF n] show ?thesis by simp
qed

lemma mag_val_drop_top:
  assumes "length u \<le> Suc k + n"
  shows "mag_val (drop (Suc k) (u @ [0])) < kBase ^ n"
proof -
  have "mag_val (drop (Suc k) (u @ [0])) = mag_val (drop (Suc k) u)"
    by (cases "Suc k \<le> length u") (simp_all add: drop_Cons')
  also have "\<dots> < kBase ^ length (drop (Suc k) u)"
    by (rule mag_val_less)
  also have "\<dots> \<le> kBase ^ n"
    using assms by (intro power_increasing) simp_all
  finally show ?thesis .
qed

lemma divmodMagnitude_large:
  assumes "normalized a" and "normalized b" and "2 \<le> length b" and "\<not> compareMagnitude a b < 0"
    and "divmodMagnitude a b = (q, r)"
  shows "mag_val q = mag_val a div mag_val b \<and> mag_val r = mag_val a mod mag_val b \<and>
         normalized q \<and> normalized r"
proof -
  define s where "s = 32 - limbBits (last b)"
  define u where "u = shiftLeftBits a s"
  define v where "v = shiftLeftBits b s"
  define n where "n = length v"
  define m where "m = length u - n"
  have "b \<noteq> []"
    using assms(3) by auto
  then have n: "n = length b" "2 \<le> n" and v: "mag_val v = mag_val b * 2 ^ s" "normalized v"
    using normalize_divisor [OF assms(2)] assms(3) by (simp_all add: n_def v_def s_def)
  then have "v \<noteq> []" "last v \<noteq> 0"
    by (auto simp: normalized_def n_def)
  have u: "mag_val u = mag_val a * 2 ^ s"
    by (simp add: u_def)
  have "mag_val b \<le> mag_val a"
    using assms(4) compareMagnitude_eq [OF assms(1,2)] by (simp add: order_of_def split: if_splits)
  then have "mag_val v \<le> mag_val u"
    by (simp add: u v)
  then have len: "n \<le> length u"
    using mag_val_length_less [of u v] v(2) unfolding n_def by (meson not_le)
  obtain u' quot where loop: "knuth_loop v (m + 1) (u @ [0]) (replicate (m + 1) 0) = (u', quot)"
    by fastforce
  have "mag_val (drop (Suc m) (u @ [0])) < kBase ^ (n - 1)"
    using len n(2) by (intro mag_val_drop_top) (simp add: m_def)
  then have inv: "mag_val (drop (Suc m) (u @ [0])) < mag_val v"
    using normalized_ge [OF v(2) \<open>v \<noteq> []\<close>] by (simp add: n_def)
  have res: "mag_val u' = mag_val u mod mag_val v" "mag_val quot = mag_val u div mag_val v"
    "length u' = Suc (length u)"
    using knuth_loop_correct [OF _ \<open>last v \<noteq> 0\<close> _ inv, of "[]" u' quot] loop n(2) len
    by (simp_all add: m_def n_def)
  have "(if n \<le> length u then length u - n else 0) = m" "(length b = 1) = False"
    using len assms(3) by (simp_all add: m_def)
  then have "divmodMagnitude a b = (pop_zeros quot, fst (shiftRightBits (take n u') s))"
    unfolding divmodMagnitude_def Let_def using assms(4)
    by (simp only: s_def [symmetric] u_def [symmetric] v_def [symmetric] n_def [symmetric]
        loop prod.case if_False)
  then have out: "q = pop_zeros quot" "r = fst (shiftRightBits (take n u') s)"
    using assms(5) by simp_all
  have "mag_val u' < kBase ^ n"
    using res(1) mod_less_divisor [of "mag_val v" "mag_val u"] inv mag_val_less [of v]
    unfolding n_def by linarith
  then have "mag_val (take n u') = mag_val a * 2 ^ s mod (mag_val b * 2 ^ s)"
    using mag_val_drop_zero [of n u'] len by (simp add: res u v)
  then have "mag_val r = mag_val a mod mag_val b"
    by (simp add: out mult_mod_left [symmetric])
  moreover have "mag_val q = mag_val a div mag_val b"
    by (simp add: out res u v)
  ultimately show ?thesis
    by (simp add: out)
qed

text \<open>
  Algorithm D computes the quotient and the remainder of two normalized magnitudes, and its
  results are normalized.
\<close>

lemma divmodMagnitude_correct:
  assumes "normalized a" and "normalized b" and "b \<noteq> []" and "divmodMagnitude a b = (q, r)"
  shows "mag_val q = mag_val a div mag_val b \<and> mag_val r = mag_val a mod mag_val b \<and>
         normalized q \<and> normalized r"
proof -
  have "length b = 1 \<or> 2 \<le> length b"
    using assms(3) by (cases b) (auto simp: Suc_le_eq numeral_2_eq_2)
  then consider "compareMagnitude a b < 0" | "\<not> compareMagnitude a b < 0" "length b = 1"
    | "\<not> compareMagnitude a b < 0" "2 \<le> length b"
    by blast
  then show ?thesis
  proof cases
    case 1
    then have "mag_val a < mag_val b"
      using compareMagnitude_eq [OF assms(1,2)] by (simp add: order_of_def split: if_splits)
    with 1 assms(1,4) show ?thesis
      by (auto simp: divmodMagnitude_def)
  next
    case 2
    then show ?thesis
      using divmodMagnitude_small [OF assms(1) _ assms(2) _ assms(4)] by simp
  next
    case 3
    then show ?thesis
      using divmodMagnitude_large [OF assms(1,2) _ _ assms(4)] by simp
  qed
qed

end
