(* ===== verification/Integer_Interface.thy ===== *)
theory Integer_Interface
  imports Prelude
begin

text \<open>
  The contract the runtime's arbitrary-precision integers promise to their callers
  (\<open>src/src/runtime/bignum.h\<close>): a representation with a well-formedness invariant, a value, and
  operations that compute the mathematical operation on the value. Because well-formed
  representations are unique, the algebraic laws hold as equalities of representations; that is
  what lets the callers compare two results limb by limb. The lemmas here are proved once from
  the contract; \<open>BigNum\<close> interprets the locales on the model of the class.
\<close>

locale exact_integer =
  fixes wf :: "'r \<Rightarrow> bool"
    and val :: "'r \<Rightarrow> int"
    and zero :: 'r
    and add :: "'r \<Rightarrow> 'r \<Rightarrow> 'r"
    and negate :: "'r \<Rightarrow> 'r"
    and mul :: "'r \<Rightarrow> 'r \<Rightarrow> 'r"
  assumes unique: "wf a \<Longrightarrow> wf b \<Longrightarrow> val a = val b \<Longrightarrow> a = b"
    and wf_zero: "wf zero" and val_zero: "val zero = 0"
    and wf_add: "wf a \<Longrightarrow> wf b \<Longrightarrow> wf (add a b)"
    and val_add: "wf a \<Longrightarrow> wf b \<Longrightarrow> val (add a b) = val a + val b"
    and wf_negate: "wf a \<Longrightarrow> wf (negate a)"
    and val_negate: "wf a \<Longrightarrow> val (negate a) = - val a"
    and wf_mul: "wf a \<Longrightarrow> wf b \<Longrightarrow> wf (mul a b)"
    and val_mul: "wf a \<Longrightarrow> wf b \<Longrightarrow> val (mul a b) = val a * val b"
begin

lemmas wf_rules = wf_zero wf_add wf_negate wf_mul
lemmas val_rules = val_zero val_add val_negate val_mul

lemma add_assoc: "wf a \<Longrightarrow> wf b \<Longrightarrow> wf c \<Longrightarrow> add (add a b) c = add a (add b c)"
  by (rule unique) (simp_all add: wf_rules val_rules)

lemma add_commute: "wf a \<Longrightarrow> wf b \<Longrightarrow> add a b = add b a"
  by (rule unique) (simp_all add: wf_rules val_rules)

lemma add_negate: "wf a \<Longrightarrow> add a (negate a) = zero"
  by (rule unique) (simp_all add: wf_rules val_rules)

lemma mul_assoc: "wf a \<Longrightarrow> wf b \<Longrightarrow> wf c \<Longrightarrow> mul (mul a b) c = mul a (mul b c)"
  by (rule unique) (simp_all add: wf_rules val_rules)

lemma mul_commute: "wf a \<Longrightarrow> wf b \<Longrightarrow> mul a b = mul b a"
  by (rule unique) (simp_all add: wf_rules val_rules)

lemma mul_distrib: "wf a \<Longrightarrow> wf b \<Longrightarrow> wf c \<Longrightarrow> mul a (add b c) = add (mul a b) (mul a c)"
  by (rule unique) (simp_all add: wf_rules val_rules algebra_simps)

lemma val_eq_iff: "wf a \<Longrightarrow> wf b \<Longrightarrow> val a = val b \<longleftrightarrow> a = b"
  using unique by auto

end

text \<open>Truncating division on top of the ring: quotient toward zero, remainder with the dividend's sign.\<close>

locale exact_division = exact_integer wf val zero add negate mul
  for wf :: "'r \<Rightarrow> bool" and val zero add negate mul +
  fixes divmod :: "'r \<Rightarrow> 'r \<Rightarrow> ('r \<times> 'r) option"
  assumes divmod_zero: "divmod a zero = None"
    and divmod_some: "wf a \<Longrightarrow> wf b \<Longrightarrow> b \<noteq> zero \<Longrightarrow>
      \<exists>q r. divmod a b = Some (q, r) \<and> wf q \<and> wf r \<and>
            val q = sgn (val a) * sgn (val b) * (\<bar>val a\<bar> div \<bar>val b\<bar>) \<and>
            val r = sgn (val a) * (\<bar>val a\<bar> mod \<bar>val b\<bar>)"
begin

lemma divmod_identity:
  assumes "wf a" and "wf b" and "divmod a b = Some (q, r)"
  shows "add (mul q b) r = a"
proof -
  have "b \<noteq> zero"
    using assms(3) divmod_zero by auto
  then have wf: "wf q" "wf r"
    and q: "val q = sgn (val a) * sgn (val b) * (\<bar>val a\<bar> div \<bar>val b\<bar>)"
    and r: "val r = sgn (val a) * (\<bar>val a\<bar> mod \<bar>val b\<bar>)"
    using divmod_some [OF assms(1,2)] assms(3) by auto
  have "val q * val b + val r = sgn (val a) * (\<bar>val a\<bar> div \<bar>val b\<bar> * (sgn (val b) * val b) + \<bar>val a\<bar> mod \<bar>val b\<bar>)"
    by (simp add: q r algebra_simps)
  also have "\<dots> = sgn (val a) * \<bar>val a\<bar>"
    by (simp add: mult.commute [of "sgn (val b)"] flip: abs_sgn)
  finally have "val q * val b + val r = val a"
    by (simp add: sgn_mult_abs)
  then show ?thesis
    using assms(1,2) wf by (intro unique) (simp_all add: wf_rules val_rules)
qed

lemma divmod_remainder_bound:
  assumes "wf a" and "wf b" and "divmod a b = Some (q, r)"
  shows "\<bar>val r\<bar> < \<bar>val b\<bar> \<and> (val r = 0 \<or> sgn (val r) = sgn (val a))"
proof -
  have "b \<noteq> zero"
    using assms(3) divmod_zero by auto
  then have r: "val r = sgn (val a) * (\<bar>val a\<bar> mod \<bar>val b\<bar>)"
    using divmod_some [OF assms(1,2)] assms(3) by auto
  have "val b \<noteq> 0"
    using \<open>b \<noteq> zero\<close> unique [OF assms(2) wf_zero] val_zero by auto
  then have "0 \<le> \<bar>val a\<bar> mod \<bar>val b\<bar>" "\<bar>val a\<bar> mod \<bar>val b\<bar> < \<bar>val b\<bar>"
    by simp_all
  then show ?thesis
    by (auto simp: r abs_mult abs_sgn_eq sgn_mult)
qed

end

end
