(* ===== verification/BigNum.thy ===== *)
theory BigNum
  imports Knuth_Division Integer_Interface
begin

text \<open>
  The class \<open>BigNum\<close> of \<open>src/src/runtime/bignum.{h,cpp}\<close>: a sign and a magnitude, and the
  operations JavaScript's BigInt operators are written with. Every operation is proved to compute
  the mathematical operation on \<open>bn_val\<close> and to keep the class invariant \<open>bn_wf\<close> (no leading
  zero limb, one zero). \<open>BigNumError\<close> outcomes are the left summand of a sum type. Size
  arithmetic is done in \<open>u64\<close> where the source does it in \<open>uint64_t\<close>, so that it can wrap.
\<close>

section \<open>Definitions\<close>

record bignum =
  neg :: bool
  mag :: limbs

datatype BigNumError = DivideByZero | NegativeExponent | TooLarge | BadDigits

type_synonym bn_result = "BigNumError + bignum"

definition kMaxBits :: u64 where
  "kMaxBits = push_bit 24 1"

definition bn_zero :: bignum where
  "bn_zero = \<lparr>neg = False, mag = []\<rparr>"

definition bn_wf :: "bignum \<Rightarrow> bool" where
  "bn_wf a \<longleftrightarrow> normalized (mag a) \<and> (neg a \<longrightarrow> mag a \<noteq> [])"

definition bn_val :: "bignum \<Rightarrow> int" where
  "bn_val a = (if neg a then - int (mag_val (mag a)) else int (mag_val (mag a)))"

definition trim :: "bignum \<Rightarrow> bignum" where
  "trim a = (let m = pop_zeros (mag a) in \<lparr>neg = (if m = [] then False else neg a), mag = m\<rparr>)"

definition isZero :: "bignum \<Rightarrow> bool" where
  "isZero a \<longleftrightarrow> mag a = []"

definition sign :: "bignum \<Rightarrow> int" where
  "sign a = (if mag a = [] then 0 else if neg a then -1 else 1)"

definition fromUint64 :: "u64 \<Rightarrow> bignum" where
  "fromUint64 v =
     \<lparr>neg = False,
      mag = (if v \<noteq> 0 then lo32 v # (if hi32 v \<noteq> 0 then [lo32 (hi32 v)] else []) else [])\<rparr>"

definition fromInt64 :: "u64 \<Rightarrow> bignum" where
  "fromInt64 v =
     (let magnitude = (if sint v < 0 then NOT v + 1 else v);
          out = fromUint64 magnitude
      in out\<lparr>neg := (sint v < 0 \<and> mag out \<noteq> [])\<rparr>)"

definition fromLimbs :: "limbs \<Rightarrow> bool \<Rightarrow> bignum" where
  "fromLimbs data negative = trim \<lparr>neg = negative, mag = data\<rparr>"

definition bitLength :: "bignum \<Rightarrow> u64" where
  "bitLength a =
     (if mag a = [] then 0 else of_nat (length (mag a) - 1) * 32 + of_nat (limbBits (last (mag a))))"

definition compare :: "bignum \<Rightarrow> bignum \<Rightarrow> int" where
  "compare a b =
     (if neg a \<noteq> neg b then (if neg a then -1 else 1)
      else (let magnitudeOrder = compareMagnitude (mag a) (mag b)
            in if neg a then - magnitudeOrder else magnitudeOrder))"

definition bn_add :: "bignum \<Rightarrow> bignum \<Rightarrow> bignum" where
  "bn_add a b =
     (if neg a = neg b then trim \<lparr>neg = neg a, mag = addMagnitude (mag a) (mag b)\<rparr>
      else
        (let order = compareMagnitude (mag a) (mag b)
         in if order = 0 then bn_zero
            else if order > 0 then trim \<lparr>neg = neg a, mag = subMagnitude (mag a) (mag b)\<rparr>
            else trim \<lparr>neg = neg b, mag = subMagnitude (mag b) (mag a)\<rparr>))"

definition bn_negate :: "bignum \<Rightarrow> bignum" where
  "bn_negate a = trim (a\<lparr>neg := \<not> neg a\<rparr>)"

definition bn_sub :: "bignum \<Rightarrow> bignum \<Rightarrow> bignum" where
  "bn_sub a b = bn_add a (bn_negate b)"

definition bn_mul :: "bignum \<Rightarrow> bignum \<Rightarrow> bignum" where
  "bn_mul a b = trim \<lparr>neg = (neg a \<noteq> neg b), mag = mulMagnitude (mag a) (mag b)\<rparr>"

text \<open>\<open>None\<close> is the \<open>false\<close> that says the divisor is zero and nothing was written.\<close>

definition bn_divmod :: "bignum \<Rightarrow> bignum \<Rightarrow> (bignum \<times> bignum) option" where
  "bn_divmod a b =
     (if isZero b then None
      else
        (let (q, r) = divmodMagnitude (mag a) (mag b)
         in Some (trim \<lparr>neg = (neg a \<noteq> neg b), mag = q\<rparr>, trim \<lparr>neg = neg a, mag = r\<rparr>)))"

definition magnitudeToUint64 :: "bignum \<Rightarrow> u64 option" where
  "magnitudeToUint64 a =
     (case mag a of
        [] \<Rightarrow> Some 0
      | [x] \<Rightarrow> Some (0 OR w64 x)
      | [x, y] \<Rightarrow> Some (0 OR w64 x OR push_bit 32 (w64 y))
      | _ \<Rightarrow> None)"

text \<open>The squaring loop of \<open>pow\<close>.\<close>

function pow_loop :: "u64 \<Rightarrow> bignum \<Rightarrow> bignum \<Rightarrow> bignum" where
  "pow_loop e result square =
     (if e > 0
      then (let result' = (if e AND 1 \<noteq> 0 then bn_mul result square else result);
                e' = drop_bit 1 e
            in pow_loop e' result' (if e' > 0 then bn_mul square square else square))
      else result)"
  by pat_completeness auto
termination
proof (relation "measure (\<lambda>(e, result, square). unat e)")
  fix e e' :: u64 and result square r :: bignum
  assume "0 < e" and e': "e' = drop_bit 1 e"
  have "unat e' = unat e div 2"
    unfolding e' by (subst unat_drop_bit_eq) (simp add: drop_bit_eq_div)
  then show "((e', r, if 0 < e' then bn_mul square square else square), e, result, square)
      \<in> measure (\<lambda>(e, result, square). unat e)"
    using \<open>0 < e\<close> by (simp add: word_less_nat_alt)
qed simp

definition bn_pow :: "bignum \<Rightarrow> bignum \<Rightarrow> bn_result" where
  "bn_pow base exponent =
     (if neg exponent then Inl NegativeExponent
      else case magnitudeToUint64 exponent of
        None \<Rightarrow> Inl TooLarge
      | Some e \<Rightarrow>
          if e = 0 then Inr (fromUint64 1)
          else if isZero base then Inr bn_zero
          else
            (let bits = bitLength base
             in if bits > 1 \<and> bits * e > kMaxBits then Inl TooLarge
                else if bits = 1 \<and> e > kMaxBits
                then Inr (base\<lparr>neg := (neg base \<and> e mod 2 = 1)\<rparr>)
                else Inr (pow_loop e (fromUint64 1) base)))"

text \<open>A negative count hands over to the other shift with the count negated.\<close>

function bn_shiftLeft :: "bignum \<Rightarrow> bignum \<Rightarrow> bn_result"
  and bn_shiftRight :: "bignum \<Rightarrow> bignum \<Rightarrow> bn_result"
where
  "bn_shiftLeft a count =
     (if neg count then bn_shiftRight a (bn_negate count)
      else if isZero a then Inr bn_zero
      else case magnitudeToUint64 count of
        None \<Rightarrow> Inl TooLarge
      | Some bits \<Rightarrow>
          if bitLength a + bits > kMaxBits then Inl TooLarge
          else Inr (trim \<lparr>neg = neg a, mag = shiftLeftBits (mag a) (unat bits)\<rparr>))"
| "bn_shiftRight a count =
     (if neg count then bn_shiftLeft a (bn_negate count)
      else if isZero a then Inr bn_zero
      else case magnitudeToUint64 count of
        None \<Rightarrow> Inr (if neg a then fromInt64 (-1) else bn_zero)
      | Some bits \<Rightarrow>
          (let (out_mag, lost) = shiftRightBits (mag a) (unat bits);
               out = trim \<lparr>neg = neg a, mag = out_mag\<rparr>
           in Inr (if neg a \<and> lost then bn_sub out (fromUint64 1) else out)))"
  by pat_completeness auto
termination
proof (relation "measure (\<lambda>x. case x of Inl (a, count) \<Rightarrow> if neg count then 1 else 0
                            | Inr (a, count) \<Rightarrow> if neg count then 1 else (0::nat))")
qed (simp_all add: bn_negate_def trim_def Let_def)

lemmas bn_loops [simp del] = pow_loop.simps bn_shiftLeft.simps bn_shiftRight.simps

section \<open>The representation\<close>

named_theorems bn_rules

lemma bn_wf_zero [simp, bn_rules]: "bn_wf bn_zero"
  by (simp add: bn_wf_def bn_zero_def)

lemma bn_val_zero [simp, bn_rules]: "bn_val bn_zero = 0"
  by (simp add: bn_val_def bn_zero_def)

lemma bn_wf_trim [simp, bn_rules]: "bn_wf (trim a)"
  by (simp add: bn_wf_def trim_def Let_def)

lemma pop_zeros_Nil_iff: "pop_zeros xs = [] \<longleftrightarrow> mag_val xs = 0"
  using normalized_zero_iff [of "pop_zeros xs"] by simp

lemma bn_val_trim [simp, bn_rules]: "bn_val (trim a) = bn_val a"
  by (simp add: bn_val_def trim_def Let_def pop_zeros_Nil_iff)

lemma bn_wf_magD: "bn_wf a \<Longrightarrow> normalized (mag a)"
  by (simp add: bn_wf_def)

lemma bn_val_eq_0_iff: "bn_wf a \<Longrightarrow> bn_val a = 0 \<longleftrightarrow> mag a = []"
  by (auto simp: bn_wf_def bn_val_def normalized_zero_iff)

lemma isZero_iff: "bn_wf a \<Longrightarrow> isZero a \<longleftrightarrow> bn_val a = 0"
  by (simp add: isZero_def bn_val_eq_0_iff)

lemma bn_wf_zeroD: "bn_wf a \<Longrightarrow> mag a = [] \<Longrightarrow> a = bn_zero"
  by (cases a) (auto simp: bn_wf_def bn_zero_def)

lemma neg_iff: "bn_wf a \<Longrightarrow> neg a \<longleftrightarrow> bn_val a < 0"
  using normalized_pos [of "mag a"] by (auto simp: bn_wf_def bn_val_def)

lemma abs_bn_val: "\<bar>bn_val a\<bar> = int (mag_val (mag a))"
  by (simp add: bn_val_def)

lemma sign_eq: "bn_wf a \<Longrightarrow> sign a = sgn (bn_val a)"
  using normalized_pos [of "mag a"] by (auto simp: sign_def bn_val_def bn_wf_def)

lemma bn_unique:
  assumes "bn_wf a" and "bn_wf b" and "bn_val a = bn_val b"
  shows "a = b"
proof -
  have "int (mag_val (mag a)) = int (mag_val (mag b))"
    using assms(3) abs_bn_val [of a] abs_bn_val [of b] by simp
  then have "mag a = mag b"
    using assms(1,2) by (intro normalized_inj) (simp_all add: bn_wf_def)
  moreover have "neg a = neg b"
    using assms by (simp add: neg_iff)
  ultimately show ?thesis by simp
qed

text \<open>A fresh magnitude under a sign, as \<open>out.mag_ = ...; out.negative_ = ...; out.trim()\<close> builds it.\<close>

lemma bn_val_record [simp]: "bn_val \<lparr>neg = s, mag = m\<rparr> = (if s then - int (mag_val m) else int (mag_val m))"
  by (simp add: bn_val_def)

section \<open>Construction and comparison\<close>

lemma mag_val_fromUint64: "mag_val (mag (fromUint64 v)) = unat v"
proof -
  have "unat (lo32 (hi32 v)) = unat (hi32 v)"
    using unat_hi32_lt [of v] unfolding unat_lo32 by simp
  then show ?thesis
    using unat_lo_hi [of v] by (auto simp: fromUint64_def word_zero_iff_unat)
qed

lemma bn_val_fromUint64 [simp, bn_rules]: "bn_val (fromUint64 v) = int (unat v)"
  using mag_val_fromUint64 [of v] by (simp add: bn_val_def fromUint64_def)

lemma bn_wf_fromUint64 [simp, bn_rules]: "bn_wf (fromUint64 v)"
proof -
  have "lo32 (hi32 v) \<noteq> 0" if "hi32 v \<noteq> 0"
  proof -
    have "unat (lo32 (hi32 v)) = unat (hi32 v)"
      using unat_hi32_lt [of v] unfolding unat_lo32 by simp
    then show ?thesis
      using that by (simp add: word_zero_iff_unat)
  qed
  moreover have "lo32 v \<noteq> 0" if "v \<noteq> 0" "hi32 v = 0"
    using that unat_lo_hi [of v] by (auto simp: word_zero_iff_unat)
  ultimately show ?thesis
    by (simp add: bn_wf_def fromUint64_def normalized_def)
qed

lemma neg_fromUint64 [simp]: "\<not> neg (fromUint64 v)"
  by (simp add: fromUint64_def)

lemma uint_of_int_u64:
  assumes "0 \<le> i" and "i < 2 ^ 64"
  shows "uint (word_of_int i :: u64) = i"
  using assms by (simp add: take_bit_int_eq_self unsigned_of_int)

lemma uint_not_plus_1:
  assumes "sint (v :: u64) < 0"
  shows "int (unat (NOT v + 1)) = - sint v"
proof -
  have "NOT v + 1 = word_of_int (- sint v)"
    by (simp add: minus_eq_not_plus_1 [symmetric])
  moreover have "- sint v < 2 ^ 64"
    using sint_ge [of v] by simp
  then have "uint (word_of_int (- sint v) :: u64) = - sint v"
    using assms by (intro uint_of_int_u64) simp_all
  ultimately show ?thesis
    by (simp only: uint_nat [symmetric])
qed

lemma int_unat_nonneg: "0 \<le> sint (v :: u64) \<Longrightarrow> int (unat v) = sint v"
proof -
  assume "0 \<le> sint v"
  moreover have "sint v < 2 ^ 64"
    using sint_lt [of v] by simp
  ultimately have "uint (word_of_int (sint v) :: u64) = sint v"
    by (rule uint_of_int_u64)
  then show ?thesis
    by (simp only: uint_nat [symmetric] of_int_sint scast_id)
qed

lemma fromInt64_correct: "bn_val (fromInt64 v) = sint v" "bn_wf (fromInt64 v)"
proof -
  define m where "m = (if sint v < 0 then NOT v + 1 else v)"
  have m: "int (mag_val (mag (fromUint64 m))) = \<bar>sint v\<bar>"
    using uint_not_plus_1 [of v] int_unat_nonneg [of v] by (simp add: mag_val_fromUint64 m_def)
  have eq: "fromInt64 v = (fromUint64 m)\<lparr>neg := (sint v < 0 \<and> mag (fromUint64 m) \<noteq> [])\<rparr>"
    by (simp add: fromInt64_def m_def Let_def)
  show "bn_wf (fromInt64 v)"
    using bn_wf_fromUint64 [of m] by (simp add: eq bn_wf_def)
  have "mag (fromUint64 m) \<noteq> []" if "sint v < 0"
    using m that by auto
  then show "bn_val (fromInt64 v) = sint v"
    using m by (auto simp: bn_val_def eq)
qed

lemmas bn_val_fromInt64 [simp, bn_rules] = fromInt64_correct(1)
lemmas bn_wf_fromInt64 [simp, bn_rules] = fromInt64_correct(2)

lemma fromLimbs_correct:
  "bn_val (fromLimbs data negative) = (if negative then - int (mag_val data) else int (mag_val data))"
  "bn_wf (fromLimbs data negative)"
  by (simp_all add: fromLimbs_def)

lemma compare_correct:
  assumes "bn_wf a" and "bn_wf b"
  shows "compare a b = order_of (bn_val a) (bn_val b)"
proof (cases "neg a = neg b")
  case True
  then show ?thesis
    using compareMagnitude_eq [of "mag a" "mag b"] assms
    by (auto simp: compare_def order_of_def bn_val_def bn_wf_def Let_def)
next
  case False
  then show ?thesis
    using neg_iff [OF assms(1)] neg_iff [OF assms(2)] by (auto simp: compare_def order_of_def)
qed

section \<open>Addition, subtraction, multiplication, division\<close>

lemma subMagnitude_normalized:
  assumes "normalized a" and "mag_val b \<le> mag_val a" and "normalized b"
  shows "mag_val (subMagnitude a b) = mag_val a - mag_val b"
proof (rule mag_val_subMagnitude)
  show "length b \<le> length a"
    using mag_val_length_less [of a b] assms by (meson not_le)
qed (rule assms(2))

lemma bn_wf_add [simp, bn_rules]: "bn_wf (bn_add a b)"
  by (simp add: bn_add_def Let_def)

lemma bn_val_add [bn_rules]:
  assumes "bn_wf a" and "bn_wf b"
  shows "bn_val (bn_add a b) = bn_val a + bn_val b"
proof -
  note cmp = compareMagnitude_eq [OF bn_wf_magD [OF assms(1)] bn_wf_magD [OF assms(2)]]
  show ?thesis
  proof (cases "neg a = neg b")
    case True
    then show ?thesis
      by (simp add: bn_add_def bn_val_def [of a] bn_val_def [of b])
  next
    case False
    consider "mag_val (mag a) = mag_val (mag b)" | "mag_val (mag b) < mag_val (mag a)"
      | "mag_val (mag a) < mag_val (mag b)"
      by linarith
    then show ?thesis
      using False subMagnitude_normalized [of "mag a" "mag b"] subMagnitude_normalized [of "mag b" "mag a"]
        assms
      by cases (auto simp: bn_add_def cmp order_of_def Let_def bn_wf_magD bn_val_def [of a]
          bn_val_def [of b] of_nat_diff)
  qed
qed

lemma bn_wf_negate [simp, bn_rules]: "bn_wf (bn_negate a)"
  by (simp add: bn_negate_def)

lemma bn_val_negate [simp, bn_rules]: "bn_val (bn_negate a) = - bn_val a"
  by (simp add: bn_negate_def) (simp add: bn_val_def)

lemma bn_wf_sub [simp, bn_rules]: "bn_wf (bn_sub a b)"
  by (simp add: bn_sub_def)

lemma bn_val_sub [bn_rules]: "bn_wf a \<Longrightarrow> bn_wf b \<Longrightarrow> bn_val (bn_sub a b) = bn_val a - bn_val b"
  by (simp add: bn_sub_def bn_val_add)

lemma bn_wf_mul [simp, bn_rules]: "bn_wf (bn_mul a b)"
  by (simp add: bn_mul_def)

lemma bn_val_mul [simp, bn_rules]: "bn_val (bn_mul a b) = bn_val a * bn_val b"
  by (simp add: bn_mul_def bn_val_def [of a] bn_val_def [of b])

lemma sgn_bn_val: "sgn (bn_val a) * int (mag_val (mag a)) = bn_val a"
  unfolding abs_bn_val [symmetric] by (simp add: sgn_mult_abs)

lemma bn_divmod_correct:
  assumes "bn_wf a" and "bn_wf b" and "bn_val b \<noteq> 0"
  shows "\<exists>q r. bn_divmod a b = Some (q, r) \<and> bn_wf q \<and> bn_wf r \<and>
           bn_val q = sgn (bn_val a) * sgn (bn_val b) * (\<bar>bn_val a\<bar> div \<bar>bn_val b\<bar>) \<and>
           bn_val r = sgn (bn_val a) * (\<bar>bn_val a\<bar> mod \<bar>bn_val b\<bar>)"
proof -
  have "mag b \<noteq> []"
    using assms(2,3) bn_val_eq_0_iff by blast
  obtain q r where qr: "divmodMagnitude (mag a) (mag b) = (q, r)"
    by fastforce
  note div = divmodMagnitude_correct [OF bn_wf_magD [OF assms(1)] bn_wf_magD [OF assms(2)]
      \<open>mag b \<noteq> []\<close> qr]
  define bq where "bq = trim \<lparr>neg = (neg a \<noteq> neg b), mag = q\<rparr>"
  define br where "br = trim \<lparr>neg = neg a, mag = r\<rparr>"
  have "bn_divmod a b = Some (bq, br)"
    using \<open>mag b \<noteq> []\<close> by (simp add: bn_divmod_def isZero_def qr bq_def br_def)
  moreover have abs: "\<bar>bn_val a\<bar> div \<bar>bn_val b\<bar> = int (mag_val q)" "\<bar>bn_val a\<bar> mod \<bar>bn_val b\<bar> = int (mag_val r)"
    using div by (simp_all add: abs_bn_val zdiv_int zmod_int)
  moreover have "bn_val bq = sgn (bn_val a) * sgn (bn_val b) * int (mag_val q)"
  proof (cases "bn_val a = 0")
    case True
    then show ?thesis
      using abs by (simp add: bq_def)
  next
    case False
    then show ?thesis
      using assms neg_iff [OF assms(1)] neg_iff [OF assms(2)] by (auto simp: bq_def sgn_if)
  qed
  moreover have "bn_val br = sgn (bn_val a) * int (mag_val r)"
  proof (cases "bn_val a = 0")
    case True
    then show ?thesis
      using abs by (simp add: br_def)
  next
    case False
    then show ?thesis
      using neg_iff [OF assms(1)] by (auto simp: br_def sgn_if)
  qed
  ultimately show ?thesis
    by (auto simp: bq_def br_def)
qed

lemma bn_divmod_zero: "bn_divmod a bn_zero = None"
  by (simp add: bn_divmod_def isZero_def bn_zero_def)

text \<open>The class satisfies the integer contract.\<close>

interpretation bn: exact_integer bn_wf bn_val bn_zero bn_add bn_negate bn_mul
  by unfold_locales (simp_all add: bn_unique bn_rules)

interpretation bnd: exact_division bn_wf bn_val bn_zero bn_add bn_negate bn_mul bn_divmod
proof unfold_locales
  show "bn_divmod a bn_zero = None" for a
    by (rule bn_divmod_zero)
next
  fix a b
  assume "bn_wf a" and "bn_wf b" and "b \<noteq> bn_zero"
  then have "bn_val b \<noteq> 0"
    using bn_val_eq_0_iff bn_wf_zeroD by blast
  with \<open>bn_wf a\<close> \<open>bn_wf b\<close> show "\<exists>q r. bn_divmod a b = Some (q, r) \<and> bn_wf q \<and> bn_wf r \<and>
      bn_val q = sgn (bn_val a) * sgn (bn_val b) * (\<bar>bn_val a\<bar> div \<bar>bn_val b\<bar>) \<and>
      bn_val r = sgn (bn_val a) * (\<bar>bn_val a\<bar> mod \<bar>bn_val b\<bar>)"
    by (rule bn_divmod_correct)
qed

section \<open>Sizes\<close>

lemma normalized_length_3:
  assumes "normalized m" and "2 < length m"
  shows "kBase * kBase \<le> mag_val m"
proof -
  have "kBase ^ 2 \<le> kBase ^ (length m - 1)"
    using assms(2) by (intro power_increasing) simp_all
  then show ?thesis
    using normalized_ge [of m] assms by (fastforce simp: power2_eq_square)
qed

lemma bitLength_eq: "bitLength a = of_nat (bitLength_mag (mag a))"
  by (simp add: bitLength_def bitLength_mag_def)

lemma unat_bitLength:
  "bitLength_mag (mag a) < 2 ^ 64 \<Longrightarrow> unat (bitLength a) = bitLength_mag (mag a)"
  by (simp add: bitLength_eq unat_of_nat take_bit_eq_mod)

lemma magnitudeToUint64_Some:
  assumes "magnitudeToUint64 a = Some e"
  shows "unat e = mag_val (mag a)"
proof -
  consider "mag a = []" | x where "mag a = [x]" | x y where "mag a = [x, y]"
    using assms by (auto simp: magnitudeToUint64_def split: list.splits)
  then show ?thesis
  proof cases
    case (3 x y)
    have "unat (push_bit 32 (w64 y) OR w64 x) = unat y * kBase + unat x"
      using unat_shift_or [of "w64 y" x] by simp
    then show ?thesis
      using assms 3 by (simp add: magnitudeToUint64_def or.commute mult.commute)
  qed (use assms in \<open>auto simp: magnitudeToUint64_def\<close>)
qed

lemma magnitudeToUint64_None:
  assumes "normalized (mag a)"
  shows "magnitudeToUint64 a = None \<longleftrightarrow> kBase * kBase \<le> mag_val (mag a)"
proof
  assume "magnitudeToUint64 a = None"
  then have "2 < length (mag a)"
    by (auto simp: magnitudeToUint64_def split: list.splits)
  then show "kBase * kBase \<le> mag_val (mag a)"
    using assms normalized_length_3 by blast
next
  assume big: "kBase * kBase \<le> mag_val (mag a)"
  show "magnitudeToUint64 a = None"
  proof (cases "magnitudeToUint64 a")
    case (Some e)
    then show ?thesis
      using magnitudeToUint64_Some [OF Some] unat_lt_kBase_sq [of e] big by linarith
  qed
qed


section \<open>Powers\<close>

lemma pow_loop_correct:
  assumes "bn_wf result" and "bn_wf square"
  shows "bn_wf (pow_loop e result square) \<and>
         bn_val (pow_loop e result square) = bn_val result * bn_val square ^ unat e"
  using assms
proof (induction e result square rule: pow_loop.induct)
  case (1 e result square)
  show ?case
  proof (cases "e = 0")
    case True
    then show ?thesis
      using "1.prems" by (subst (1 2) pow_loop.simps) simp
  next
    case False
    define e' where "e' = drop_bit 1 e"
    define result' where "result' = (if e AND 1 \<noteq> 0 then bn_mul result square else result)"
    define square' where "square' = (if e' > 0 then bn_mul square square else square)"
    have half: "unat e' = unat e div 2"
      unfolding e'_def by (subst unat_drop_bit_eq) (simp add: drop_bit_eq_div)
    have odd: "e AND 1 \<noteq> 0 \<longleftrightarrow> odd (unat e)"
    proof -
      have "unat (e AND 1) = unat e mod 2"
        by (subst unsigned_and_eq) (simp add: and_one_eq)
      then show ?thesis
        by (simp add: word_zero_iff_unat odd_iff_mod_2_eq_one)
    qed
    have "pow_loop e result square = pow_loop e' result' square'"
      using False unfolding e'_def result'_def square'_def
      by (subst pow_loop.simps) (simp add: Let_def word_gt_0)
    moreover have "bn_wf result'" "bn_wf square'"
      using "1.prems" by (simp_all add: result'_def square'_def)
    then have "bn_wf (pow_loop e' result' square') \<and>
        bn_val (pow_loop e' result' square') = bn_val result' * bn_val square' ^ unat e'"
      using False "1.IH" [OF _ result'_def e'_def] unfolding square'_def by (simp add: word_gt_0)
    moreover have "bn_val result' * bn_val square' ^ unat e' = bn_val result * bn_val square ^ unat e"
    proof -
      have "bn_val square' ^ unat e' = bn_val square ^ (2 * unat e')"
        by (auto simp: square'_def power_mult power2_eq_square word_gt_0)
      moreover have "bn_val result' = bn_val result * bn_val square ^ (unat e mod 2)"
        by (simp add: result'_def odd even_iff_mod_2_eq_zero odd_iff_mod_2_eq_one)
      ultimately show ?thesis
        by (simp add: half mult.assoc flip: power_add)
    qed
    ultimately show ?thesis
      by simp
  qed
qed


lemma bits_1_iff:
  assumes "bn_wf a" and "mag a \<noteq> []" and "bitLength_mag (mag a) = 1"
  shows "\<bar>bn_val a\<bar> = 1"
  using bitLength_mag_upper [of "mag a"] bitLength_mag_lower [of "mag a"] assms
  by (simp add: abs_bn_val bn_wf_def)

lemma pow_sign:
  assumes "bn_wf base" and "\<bar>bn_val base\<bar> = 1"
  shows "bn_wf (base\<lparr>neg := (neg base \<and> e mod 2 = 1)\<rparr>) \<and>
         bn_val (base\<lparr>neg := (neg base \<and> e mod 2 = 1)\<rparr>) = bn_val base ^ unat (e :: u64)"
proof -
  have wf: "mag base \<noteq> []" "normalized (mag base)"
    using assms by (auto simp: bn_wf_def bn_val_def)
  have mag: "mag_val (mag base) = 1"
    using assms(2) by (simp add: abs_bn_val)
  have "e mod 2 = 1 \<longleftrightarrow> odd (unat e)"
    by (simp add: word_unat_eq_iff unat_mod odd_iff_mod_2_eq_one)
  then show ?thesis
    using wf mag by (cases "even (unat e)") (simp_all add: bn_wf_def bn_val_def)
qed

lemma bn_pow_Inr:
  assumes "bn_wf base" and "bn_wf ex" and "bitLength_mag (mag base) < 2 ^ 64"
    and "bn_pow base ex = Inr r"
  shows "bn_wf r \<and> 0 \<le> bn_val ex \<and> bn_val r = bn_val base ^ nat (bn_val ex)"
proof -
  from assms(4) have "\<not> neg ex"
    by (auto simp: bn_pow_def)
  then have val: "bn_val ex = int (mag_val (mag ex))"
    by (simp add: bn_val_def)
  from assms(4) \<open>\<not> neg ex\<close> obtain e where e: "magnitudeToUint64 ex = Some e"
    by (auto simp: bn_pow_def split: option.splits)
  then have exp: "nat (bn_val ex) = unat e"
    by (simp add: val magnitudeToUint64_Some)
  have zero: "bn_wf r \<and> bn_val r = bn_val base ^ unat e" if "isZero base" "e \<noteq> 0"
  proof -
    have "r = bn_zero"
      using that assms(4) \<open>\<not> neg ex\<close> e by (simp add: bn_pow_def)
    moreover have "bn_val base = 0"
      using that(1) isZero_iff [OF assms(1)] by simp
    moreover have "0 < unat e"
      using that(2) by (simp add: unat_gt_0)
    ultimately show ?thesis
      by simp
  qed
  have one: "bn_wf r \<and> bn_val r = bn_val base ^ unat e" if "\<not> isZero base" "bitLength base = 1" "e > kMaxBits"
  proof -
    have "bitLength_mag (mag base) = 1"
      using unat_bitLength [OF assms(3)] that(2) by simp
    then have "\<bar>bn_val base\<bar> = 1"
      using that(1) assms(1) by (intro bits_1_iff) (simp_all add: isZero_def)
    moreover have "e \<noteq> 0"
      using that(3) by auto
    then have "r = base\<lparr>neg := (neg base \<and> e mod 2 = 1)\<rparr>"
      using that assms(4) \<open>\<not> neg ex\<close> e by (simp add: bn_pow_def Let_def)
    ultimately show ?thesis
      using pow_sign [OF assms(1), of e] by simp
  qed
  have "e = 0 \<or> isZero base \<or> (bitLength base = 1 \<and> e > kMaxBits) \<or> r = pow_loop e (fromUint64 1) base"
    using assms(4) \<open>\<not> neg ex\<close> e by (auto simp: bn_pow_def Let_def split: if_splits)
  moreover have "bn_wf r \<and> bn_val r = bn_val base ^ unat e" if "e = 0"
    using that assms(4) \<open>\<not> neg ex\<close> e by (auto simp: bn_pow_def)
  moreover have "bn_wf r \<and> bn_val r = bn_val base ^ unat e" if "r = pow_loop e (fromUint64 1) base"
    using that pow_loop_correct [of "fromUint64 1" base e] assms(1) by simp
  ultimately have "bn_wf r \<and> bn_val r = bn_val base ^ unat e"
    using zero one by blast
  then show ?thesis
    unfolding exp by (simp add: val)
qed


lemma unat_kMaxBits: "unat kMaxBits = 2 ^ 24"
  by (simp add: kMaxBits_def)

lemma unat_mult_noflow: "unat a * unat b < 2 ^ 64 \<Longrightarrow> unat (a * b :: u64) = unat a * unat b"
  by (simp add: unat_word_ariths)

lemma bn_pow_guard:
  assumes "bn_wf base" and "bn_wf ex" and "bn_val base \<noteq> 0" and "0 < bn_val ex"
    and "bitLength_mag (mag base) * nat (bn_val ex) < 2 ^ 64"
  shows "bn_pow base ex = Inl TooLarge \<longleftrightarrow>
           1 < bitLength_mag (mag base) \<and> 2 ^ 24 < bitLength_mag (mag base) * nat (bn_val ex)"
proof -
  define b where "b = bitLength_mag (mag base)"
  define n where "n = nat (bn_val ex)"
  have "mag base \<noteq> []"
    using assms(1,3) bn_val_eq_0_iff by blast
  then have "0 < b"
    using assms(1) by (simp add: b_def bitLength_mag_pos bn_wf_magD)
  have "0 < n"
    using assms(4) by (simp add: n_def)
  have bn: "b * n < 2 ^ 64"
    using assms(5) by (simp only: b_def n_def)
  then have "b < 2 ^ 64" "n < 2 ^ 64"
    using \<open>0 < b\<close> \<open>0 < n\<close> by (metis le_less_trans mult.commute mult_le_mono2 nat_mult_1_right One_nat_def Suc_leI)+
  have "\<not> neg ex"
    using assms(2,4) by (simp add: neg_iff)
  then have n: "mag_val (mag ex) = n"
    by (simp add: n_def bn_val_def)
  obtain e where e: "magnitudeToUint64 ex = Some e" "unat e = n"
    using magnitudeToUint64_None [OF bn_wf_magD [OF assms(2)]] magnitudeToUint64_Some [of ex] n \<open>n < 2 ^ 64\<close>
    by (cases "magnitudeToUint64 ex") (simp_all add: kBase_sq)
  have bits: "unat (bitLength base) = b"
    using \<open>b < 2 ^ 64\<close> by (simp add: unat_bitLength b_def)
  have "e \<noteq> 0"
    using e(2) \<open>0 < n\<close> by auto
  have "bitLength base > 1 \<longleftrightarrow> 1 < b"
    by (simp add: word_less_nat_alt bits)
  moreover have "bitLength base * e > kMaxBits \<longleftrightarrow> 2 ^ 24 < b * n"
    using bn by (simp add: word_less_nat_alt unat_mult_noflow bits e(2) unat_kMaxBits)
  ultimately show ?thesis
    using \<open>\<not> neg ex\<close> \<open>e \<noteq> 0\<close> e(1) \<open>mag base \<noteq> []\<close> unfolding b_def [symmetric] n_def [symmetric]
    by (simp add: bn_pow_def isZero_def Let_def)
qed

section \<open>Shifts\<close>

lemma minus_div_floor:
  assumes "0 < k"
  shows "- int m div int k = - int (m div k) - (if m mod k = 0 then 0 else 1)"
  using assms by (simp add: zdiv_zminus1_eq_if zdiv_int flip: of_nat_mod)

lemma bn_shiftRight_count:
  assumes "bn_wf a" and "bn_wf count" and "0 \<le> bn_val count" and "bitLength_mag (mag a) < 2 ^ 64"
  shows "\<exists>r. bn_shiftRight a count = Inr r \<and> bn_wf r \<and> bn_val r = bn_val a div 2 ^ nat (bn_val count)"
proof -
  define n where "n = nat (bn_val count)"
  define m where "m = mag_val (mag a)"
  have "\<not> neg count"
    using assms(2,3) by (simp add: neg_iff)
  then have n: "mag_val (mag count) = n"
    by (simp add: n_def bn_val_def)
  have a: "bn_val a = (if neg a then - int m else int m)"
    by (simp add: bn_val_def m_def)
  consider "isZero a" | "\<not> isZero a" "magnitudeToUint64 count = None"
    | bits where "\<not> isZero a" "magnitudeToUint64 count = Some bits" "unat bits = n"
    using magnitudeToUint64_Some [of count] n by (cases "magnitudeToUint64 count") auto
  then show ?thesis
  proof cases
    case 1
    then show ?thesis
      using \<open>\<not> neg count\<close> assms(1) by (simp add: bn_shiftRight.simps isZero_iff)
  next
    case 2
    have "2 ^ 64 \<le> n"
      using 2 magnitudeToUint64_None [OF bn_wf_magD [OF assms(2)]] n by (simp add: kBase_sq)
    then have "(2::nat) ^ bitLength_mag (mag a) \<le> 2 ^ n"
      using assms(4) by (intro power_increasing) simp_all
    then have "m < 2 ^ n"
      unfolding m_def using bitLength_mag_upper [of "mag a"] by linarith
    moreover have "0 < m"
      using 2 assms(1) by (simp add: m_def isZero_def bn_wf_magD normalized_pos)
    ultimately have "m div 2 ^ n = 0" "m mod 2 ^ n \<noteq> 0"
      by simp_all
    moreover have "bn_shiftRight a count = Inr (if neg a then fromInt64 (-1) else bn_zero)"
      using 2 \<open>\<not> neg count\<close> by (simp add: bn_shiftRight.simps)
    ultimately show ?thesis
      using minus_div_floor [of "2 ^ n" m] zdiv_int [of m "2 ^ n"]
      by (simp add: a n_def [symmetric])
  next
    case 3
    define out where "out = trim \<lparr>neg = neg a, mag = fst (shiftRightBits (mag a) n)\<rparr>"
    have "bn_shiftRight a count =
        Inr (if neg a \<and> m mod 2 ^ n \<noteq> 0 then bn_sub out (fromUint64 1) else out)"
      using 3 \<open>\<not> neg count\<close> by (simp add: bn_shiftRight.simps out_def m_def shiftRightBits_lost case_prod_beta Let_def)
    moreover have "bn_wf out" "bn_val out = (if neg a then - int (m div 2 ^ n) else int (m div 2 ^ n))"
      by (simp_all add: out_def m_def)
    ultimately show ?thesis
      using minus_div_floor [of "2 ^ n" m]
      by (auto simp: a n_def [symmetric] bn_val_sub zdiv_int)
  qed
qed

text \<open>The size check of \<open>shiftLeft\<close> as it is computed: the sum is taken modulo \<open>2 ^ 64\<close>.\<close>

lemma bn_shiftLeft_count:
  assumes "bn_wf a" and "bn_wf count" and "0 \<le> bn_val count" and "bn_val a \<noteq> 0"
  shows "bn_shiftLeft a count =
     (if 2 ^ 64 \<le> bn_val count \<or>
         2 ^ 24 < (bitLength_mag (mag a) + nat (bn_val count)) mod 2 ^ 64
      then Inl TooLarge
      else Inr (trim \<lparr>neg = neg a, mag = shiftLeftBits (mag a) (nat (bn_val count))\<rparr>))"
proof -
  define n where "n = nat (bn_val count)"
  have "\<not> neg count"
    using assms(2,3) by (simp add: neg_iff)
  then have n: "mag_val (mag count) = n"
    by (simp add: n_def bn_val_def)
  have "\<not> isZero a"
    using assms(1,4) by (simp add: isZero_iff)
  show ?thesis
  proof (cases "magnitudeToUint64 count")
    case None
    then have "2 ^ 64 \<le> bn_val count"
      using magnitudeToUint64_None [OF bn_wf_magD [OF assms(2)]] n
      by (simp add: kBase_sq n_def le_nat_iff [OF assms(3)])
    with None show ?thesis
      using \<open>\<not> neg count\<close> \<open>\<not> isZero a\<close> by (simp add: bn_shiftLeft.simps)
  next
    case (Some bits)
    then have bits: "unat bits = n"
      using magnitudeToUint64_Some n by blast
    then have "n < 2 ^ 64"
      using unat_lt2p_aux [of bits] by simp
    then have "bn_val count < 2 ^ 64"
      using assms(3) by (simp add: n_def nat_less_iff)
    moreover have "unat (bitLength a + bits) = (bitLength_mag (mag a) + n) mod 2 ^ 64"
      by (simp add: bitLength_eq unat_word_ariths unat_of_nat bits mod_add_left_eq take_bit_eq_mod)
    then have "bitLength a + bits > kMaxBits \<longleftrightarrow> 2 ^ 24 < (bitLength_mag (mag a) + n) mod 2 ^ 64"
      by (simp add: word_less_nat_alt unat_kMaxBits)
    ultimately show ?thesis
      using Some \<open>\<not> neg count\<close> \<open>\<not> isZero a\<close> unfolding n_def [symmetric]
      by (simp add: bn_shiftLeft.simps bits)
  qed
qed

lemma bn_val_shiftLeft_record:
  "bn_val (trim \<lparr>neg = neg a, mag = shiftLeftBits (mag a) n\<rparr>) = bn_val a * 2 ^ n"
  by (simp add: bn_val_def [of a])

lemma bn_shift_negative:
  assumes "bn_wf count" and "bn_val count < 0"
  shows "bn_shiftLeft a count = bn_shiftRight a (bn_negate count)"
    and "bn_shiftRight a count = bn_shiftLeft a (bn_negate count)"
  using assms by (simp_all add: bn_shiftLeft.simps [of a count] bn_shiftRight.simps [of a count] neg_iff)

lemma neg_negate: "neg c \<Longrightarrow> \<not> neg (bn_negate c)"
  by (simp add: bn_negate_def trim_def Let_def)

lemma bn_shift_zero:
  assumes "bn_wf a" and "bn_val a = 0"
  shows "bn_shiftLeft a count = Inr bn_zero" "bn_shiftRight a count = Inr bn_zero"
  using assms neg_negate [of count]
  by (simp_all add: bn_shiftLeft.simps [of a count] bn_shiftRight.simps [of a count]
      bn_shiftLeft.simps [of a "bn_negate count"] bn_shiftRight.simps [of a "bn_negate count"] isZero_iff)

lemma bn_shiftLeft_exact:
  assumes "bn_wf a" and "bn_wf count" and "0 \<le> bn_val count"
    and "bitLength_mag (mag a) + nat (bn_val count) \<le> 2 ^ 24"
  shows "\<exists>r. bn_shiftLeft a count = Inr r \<and> bn_wf r \<and> bn_val r = bn_val a * 2 ^ nat (bn_val count)"
proof (cases "bn_val a = 0")
  case True
  then show ?thesis
    using bn_shift_zero(1) [OF assms(1)] by simp
next
  case False
  have "bn_val count < 2 ^ 64"
    using assms(3,4) by (simp add: nat_le_iff)
  moreover have "(bitLength_mag (mag a) + nat (bn_val count)) mod 2 ^ 64 \<le> 2 ^ 24"
    using assms(4) by simp
  ultimately have "bn_shiftLeft a count =
      Inr (trim \<lparr>neg = neg a, mag = shiftLeftBits (mag a) (nat (bn_val count))\<rparr>)"
    unfolding bn_shiftLeft_count [OF assms(1-3) False] by simp
  then show ?thesis
    using bn_val_shiftLeft_record bn_wf_trim by blast
qed

section \<open>Properties\<close>

text \<open>C8: \<open>BigNum::divmod\<close> is JavaScript's truncating division: it refuses exactly the zero
  divisor, and otherwise \<open>a = q * b + r\<close> with \<open>|r| < |b|\<close> and \<open>r\<close> zero or of the sign of the
  dividend; both results are in canonical form.\<close>

theorem divmod_truncates:
  assumes "bn_wf a" and "bn_wf b"
  shows "case bn_divmod a b of
           None \<Rightarrow> bn_val b = 0
         | Some (q, r) \<Rightarrow> bn_wf q \<and> bn_wf r \<and> bn_val a = bn_val q * bn_val b + bn_val r \<and>
             \<bar>bn_val r\<bar> < \<bar>bn_val b\<bar> \<and> (bn_val r = 0 \<or> sgn (bn_val r) = sgn (bn_val a))"
proof (cases "bn_val b = 0")
  case True
  then show ?thesis
    using assms(2) by (simp add: bn_divmod_def isZero_iff)
next
  case False
  then have nz: "b \<noteq> bn_zero"
    by auto
  obtain q r where qr: "bn_divmod a b = Some (q, r)" "bn_wf q" "bn_wf r"
    using bn_divmod_correct [OF assms False] by blast
  have "bn_val (bn_add (bn_mul q b) r) = bn_val a"
    using bnd.divmod_identity [OF assms qr(1)] by simp
  then show ?thesis
    using bnd.divmod_remainder_bound [OF assms qr(1)] qr assms by (simp add: bn_val_add)
qed

theorem divmod_truncates_witness:
  "bn_divmod (fromInt64 (-7)) (fromUint64 2) = Some (fromInt64 (-3), fromInt64 (-1)) \<and>
   bn_val (fromInt64 (-7)) = bn_val (fromInt64 (-3)) * bn_val (fromUint64 2) + bn_val (fromInt64 (-1))"
proof -
  have "bn_divmod (fromInt64 (-7)) (fromUint64 2) = Some (fromInt64 (-3), fromInt64 (-1))"
    by code_simp
  then show ?thesis
    using divmod_truncates [of "fromInt64 (-7)" "fromUint64 2", OF bn_wf_fromInt64 bn_wf_fromUint64]
    by simp
qed
text \<open>C20: Addition, subtraction, multiplication and negation are exact, and their results are
  canonical (no leading zero limb, no negative zero).\<close>

theorem arithmetic_exact:
  assumes "bn_wf a" and "bn_wf b"
  shows "bn_wf (bn_add a b) \<and> bn_val (bn_add a b) = bn_val a + bn_val b \<and>
         bn_wf (bn_sub a b) \<and> bn_val (bn_sub a b) = bn_val a - bn_val b \<and>
         bn_wf (bn_mul a b) \<and> bn_val (bn_mul a b) = bn_val a * bn_val b \<and>
         bn_wf (bn_negate a) \<and> bn_val (bn_negate a) = - bn_val a"
  using assms by (simp add: bn_rules)

theorem arithmetic_exact_witness:
  "bn_val (bn_mul (fromInt64 (-5)) (fromUint64 7)) = bn_val (fromInt64 (-5)) * bn_val (fromUint64 7)"
  using arithmetic_exact [OF bn_wf_fromInt64 bn_wf_fromUint64] by blast

text \<open>\<open>BigNum::compare\<close> is the order of the values, and because the representation is
  canonical it answers zero exactly on equal objects.\<close>

theorem compare_order:
  assumes "bn_wf a" and "bn_wf b"
  shows "compare a b = order_of (bn_val a) (bn_val b) \<and> (compare a b = 0 \<longleftrightarrow> a = b)"
  using compare_correct [OF assms] bn_unique [OF assms] by (auto simp: order_of_def)

theorem compare_order_witness:
  "compare (fromInt64 (-5)) (fromUint64 7) = order_of (bn_val (fromInt64 (-5))) (bn_val (fromUint64 7))"
  using compare_order [OF bn_wf_fromInt64 bn_wf_fromUint64] by blast







text \<open>The size check of \<open>shiftLeft\<close> wraps: a count within the operand's bit length of
  \<open>2 ^ 64\<close> passes it although the result has more than \<open>2 ^ 63\<close> bits, so the shift is carried
  out instead of being reported \<open>TooLarge\<close>.\<close>

theorem shiftLeft_guard_wraps:
  assumes "bn_wf a" and "bn_wf count" and "bn_val a \<noteq> 0" and "0 \<le> bn_val count" and "bn_val count < 2 ^ 64"
    and "bitLength_mag (mag a) \<le> 2 ^ 24" and "2 ^ 64 \<le> bitLength_mag (mag a) + nat (bn_val count)"
  shows "\<exists>r. bn_shiftLeft a count = Inr r \<and> bn_val r = bn_val a * 2 ^ nat (bn_val count)"
proof -
  define n where "n = nat (bn_val count)"
  have "n < 2 ^ 64"
    using assms(4,5) by (simp add: n_def nat_less_iff)
  have "(bitLength_mag (mag a) + n) mod 2 ^ 64 = (bitLength_mag (mag a) + n - 2 ^ 64) mod 2 ^ 64"
    using assms(7) unfolding n_def [symmetric] by (rule le_mod_geq)
  also have "\<dots> \<le> bitLength_mag (mag a) + n - 2 ^ 64"
    by (rule mod_less_eq_dividend)
  also have "\<dots> \<le> 2 ^ 24"
    using \<open>n < 2 ^ 64\<close> assms(6) by linarith
  finally have "\<not> 2 ^ 24 < (bitLength_mag (mag a) + n) mod 2 ^ 64"
    by simp
  then show ?thesis
    using assms(5) unfolding bn_shiftLeft_count [OF assms(1,2,4,3)] n_def [symmetric]
    by (simp add: bn_val_def [of a])
qed

theorem shiftLeft_guard_wraps_witness:
  "bn_shiftLeft (fromUint64 1) (fromUint64 18446744073709551615) \<noteq> Inl TooLarge"
proof -
  have "mag (fromUint64 1) = [1]"
    by code_simp
  moreover have "bitLength_mag [1] = 1"
    by code_simp
  moreover have "bn_val (fromUint64 18446744073709551615) = 2 ^ 64 - 1"
    by simp
  ultimately have "\<exists>r. bn_shiftLeft (fromUint64 1) (fromUint64 18446744073709551615) = Inr r \<and>
      bn_val r = bn_val (fromUint64 1) * 2 ^ nat (bn_val (fromUint64 18446744073709551615))"
    by (intro shiftLeft_guard_wraps) simp_all
  then show ?thesis
    by (metis sum.distinct(1))
qed

text \<open>The size check of \<open>pow\<close> wraps too: \<open>2n ** 2n ** 63n\<close>, whose size product is \<open>2 ^ 64\<close>,
  is not reported \<open>TooLarge\<close>, while \<open>1n ** 2n ** 64n\<close>, which is \<open>1n\<close>, is.\<close>

theorem pow_guard_wraps:
  "bn_pow (fromUint64 2) (fromUint64 (2 ^ 63)) =
     Inr (pow_loop (2 ^ 63) (fromUint64 1) (fromUint64 2)) \<and>
   bn_pow (fromUint64 1) \<lparr>neg = False, mag = [0, 0, 1]\<rparr> = Inl TooLarge"
proof -
  have "magnitudeToUint64 (fromUint64 (2 ^ 63)) = Some (2 ^ 63)"
    "neg (fromUint64 (2 ^ 63)) = False" "isZero (fromUint64 2) = False"
    "bitLength (fromUint64 2) = 2" "(2 :: u64) * 2 ^ 63 > kMaxBits \<longleftrightarrow> False" "(2 ^ 63 :: u64) = 0 \<longleftrightarrow> False"
    "(2 :: u64) = 1 \<longleftrightarrow> False"
    by code_simp+
  then have "bn_pow (fromUint64 2) (fromUint64 (2 ^ 63)) =
      Inr (pow_loop (2 ^ 63) (fromUint64 1) (fromUint64 2))"
    unfolding bn_pow_def by (simp only: Let_def option.case if_False simp_thms)
  then show ?thesis
    by (simp add: bn_pow_def magnitudeToUint64_def)
qed

end
