(* ===== verification/BigNum_Bits.thy ===== *)
theory BigNum_Bits
  imports BigNum
begin

text \<open>
  The two's-complement half of \<open>src/src/runtime/bignum.cpp\<close>: the bitwise operators over the
  infinite two's-complement representation, and \<open>BigInt.asUintN\<close> / \<open>BigInt.asIntN\<close>. The operators
  of the source share everything but one line; the locale \<open>bitwise_op\<close> states what that line has
  to satisfy and proves the shared argument once.
\<close>

unbundle bit_operations_syntax

section \<open>Definitions\<close>

fun invert_loop :: "limbs \<Rightarrow> u64 \<Rightarrow> limbs" where
  "invert_loop [] carry = []"
| "invert_loop (x # xs) carry =
     (let inverted = w64 (NOT x) + carry in lo32 inverted # invert_loop xs (hi32 inverted))"

definition twosComplement :: "bignum \<Rightarrow> nat \<Rightarrow> limbs" where
  "twosComplement a count =
     (let out = take count (mag a) @ replicate (count - length (mag a)) 0
      in if \<not> neg a then out else invert_loop out 1)"

definition fromTwosComplement :: "limbs \<Rightarrow> bool \<Rightarrow> bignum" where
  "fromTwosComplement limbs negative =
     trim \<lparr>neg = negative, mag = (if negative then invert_loop limbs 1 else limbs)\<rparr>"

definition bitAnd :: "bignum \<Rightarrow> bignum \<Rightarrow> bignum" where
  "bitAnd a b =
     (let count = max (length (mag a)) (length (mag b)) + 1
      in fromTwosComplement (map2 (AND) (twosComplement a count) (twosComplement b count))
           (neg a \<and> neg b))"

definition bitOr :: "bignum \<Rightarrow> bignum \<Rightarrow> bignum" where
  "bitOr a b =
     (let count = max (length (mag a)) (length (mag b)) + 1
      in fromTwosComplement (map2 (OR) (twosComplement a count) (twosComplement b count))
           (neg a \<or> neg b))"

definition bitXor :: "bignum \<Rightarrow> bignum \<Rightarrow> bignum" where
  "bitXor a b =
     (let count = max (length (mag a)) (length (mag b)) + 1
      in fromTwosComplement (map2 (XOR) (twosComplement a count) (twosComplement b count))
           (neg a \<noteq> neg b))"

definition bitNot :: "bignum \<Rightarrow> bignum" where
  "bitNot a = bn_sub (fromInt64 (-1)) a"

definition asUintN :: "u64 \<Rightarrow> bignum \<Rightarrow> bn_result" where
  "asUintN bits a =
     (if bits = 0 then Inr bn_zero
      else if bits > kMaxBits then Inl TooLarge
      else
        (let count = unat ((bits + 31) div 32);
             limbs = take count (twosComplement a (max count (length (mag a) + 1)));
             topBits = unat (bits mod 32);
             limbs' = (if topBits \<noteq> 0
                       then limbs[length limbs - 1 := last limbs AND (push_bit topBits 1 - 1)]
                       else limbs)
         in Inr (trim \<lparr>neg = False, mag = limbs'\<rparr>)))"

definition asIntN :: "u64 \<Rightarrow> bignum \<Rightarrow> bn_result" where
  "asIntN bits a =
     (case asUintN bits a of
        Inl err \<Rightarrow> Inl err
      | Inr wrapped \<Rightarrow>
          if bits = 0 then Inr wrapped
          else case bn_shiftLeft (fromUint64 1) (fromUint64 (bits - 1)) of
            Inl shiftErr \<Rightarrow> Inl shiftErr
          | Inr half \<Rightarrow>
              if compare wrapped half < 0 then Inr wrapped
              else case bn_shiftLeft (fromUint64 1) (fromUint64 bits) of
                Inl shiftErr \<Rightarrow> Inl shiftErr
              | Inr whole \<Rightarrow> Inr (bn_sub wrapped whole))"

section \<open>Two's complement\<close>

lemma length_invert_loop [simp]: "length (invert_loop xs c) = length xs"
  by (induction xs c rule: invert_loop.induct) (simp_all add: Let_def)

lemma unat_not_limb: "unat (NOT x) = kBase - 1 - unat (x :: u32)"
proof -
  have "NOT x = - 1 - x"
    by (simp add: not_eq_complement)
  moreover have "unat (- 1 - x) = unat (- 1 :: u32) - unat x"
    by (rule unat_sub) simp
  moreover have "unat (- 1 :: u32) = kBase - 1"
    by (simp add: unsigned_minus_1_eq_mask mask_eq_exp_minus_1 kBase_def)
  ultimately show ?thesis
    by simp
qed

lemma invert_step:
  assumes "unat c \<le> 1"
  shows "int (unat (lo32 (w64 (NOT x) + c))) + int kBase * int (unat (hi32 (w64 (NOT x) + c)))
           = int kBase - 1 - int (unat x) + int (unat c)"
    and "unat (hi32 (w64 (NOT x) + c)) \<le> 1"
proof -
  have sum: "unat (w64 (NOT x) + c) = kBase - 1 - unat x + unat c"
    using unat_add_limbs [OF assms, of "NOT x" 0] by (simp add: unat_not_limb)
  have "int (unat (w64 (NOT x) + c)) = int kBase - 1 - int (unat x) + int (unat c)"
    using unat_lt_kBase [of x] unfolding sum by linarith
  then show "int (unat (lo32 (w64 (NOT x) + c))) + int kBase * int (unat (hi32 (w64 (NOT x) + c)))
           = int kBase - 1 - int (unat x) + int (unat c)"
    using arg_cong [OF unat_lo_hi [of "w64 (NOT x) + c"], of int] by (simp only: of_nat_add of_nat_mult)
  have "kBase - 1 - unat x + unat c \<le> kBase"
    using assms kBase_ge_1 by linarith
  then show "unat (hi32 (w64 (NOT x) + c)) \<le> 1"
    unfolding unat_hi32 sum using div_le_mono [of "kBase - 1 - unat x + unat c" kBase kBase] by simp
qed

text \<open>\<open>~x + 1\<close> over a whole vector is negation modulo its capacity.\<close>

lemma invert_loop_exists:
  assumes "unat c \<le> 1"
  shows "\<exists>k. int (mag_val (invert_loop xs c)) =
           int (unat c) - 1 - int (mag_val xs) + int (kBase ^ length xs) * k"
  using assms
proof (induction xs c rule: invert_loop.induct)
  case (1 carry)
  show ?case
    by (rule exI [of _ "1 - int (unat carry)"]) simp
next
  case (2 x xs carry)
  define s where "s = w64 (NOT x) + carry"
  note step = invert_step [OF "2.prems", of x, folded s_def]
  obtain k where k: "int (mag_val (invert_loop xs (hi32 s))) =
      int (unat (hi32 s)) - 1 - int (mag_val xs) + int (kBase ^ length xs) * k"
    using "2.IH" [OF s_def step(2)] by blast
  have "int (mag_val (invert_loop (x # xs) carry)) =
      int (unat (lo32 s)) + int kBase * int (mag_val (invert_loop xs (hi32 s)))"
    by (simp add: s_def Let_def)
  also have "\<dots> = int (unat (lo32 s)) + int kBase * int (unat (hi32 s)) - int kBase -
      int kBase * int (mag_val xs) + int kBase * (int (kBase ^ length xs) * k)"
    unfolding k by (simp add: algebra_simps)
  also have "\<dots> = int (unat carry) - 1 - int (mag_val (x # xs)) + int (kBase ^ length (x # xs)) * k"
    unfolding step(1) by (simp add: algebra_simps)
  finally show ?case
    by blast
qed

lemma mag_val_invert_loop:
  "int (mag_val (invert_loop xs 1)) = (- int (mag_val xs)) mod int (kBase ^ length xs)"
proof -
  obtain k where k: "int (mag_val (invert_loop xs 1)) = - int (mag_val xs) + int (kBase ^ length xs) * k"
    using invert_loop_exists [of 1 xs] by auto
  have "int (mag_val (invert_loop xs 1)) < int (kBase ^ length xs)"
    using mag_val_less [of "invert_loop xs 1"] by (simp only: of_nat_less_iff length_invert_loop)
  then have "int (mag_val (invert_loop xs 1)) = int (mag_val (invert_loop xs 1)) mod int (kBase ^ length xs)"
    by simp
  also have "\<dots> = (- int (mag_val xs)) mod int (kBase ^ length xs)"
    unfolding k by (rule mod_mult_self2)
  finally show ?thesis .
qed

lemma length_twosComplement [simp]: "length (twosComplement a count) = count"
  by (auto simp: twosComplement_def Let_def)

lemma mag_val_take: "mag_val (take n xs) = mag_val xs mod kBase ^ n"
proof (cases "n \<le> length xs")
  case True
  then have "mag_val xs = mag_val (take n xs) + kBase ^ n * mag_val (drop n xs)"
    by (metis append_take_drop_id mag_val_append length_take min.absorb2)
  moreover have "mag_val (take n xs) < kBase ^ n"
    using mag_val_less [of "take n xs"] True by (simp add: min.absorb2)
  ultimately show ?thesis
    by simp
next
  case False
  then have "kBase ^ length xs \<le> kBase ^ n"
    by (intro power_increasing) simp_all
  then show ?thesis
    using False mag_val_less [of xs] by simp
qed

lemma mag_val_twosComplement:
  "int (mag_val (twosComplement a count)) = bn_val a mod int (kBase ^ count)"
proof -
  define out where "out = take count (mag a) @ replicate (count - length (mag a)) 0"
  have out: "mag_val out = mag_val (mag a) mod kBase ^ count"
    by (simp add: out_def mag_val_take)
  have "length out = count"
    by (simp add: out_def)
  then have "int (mag_val (invert_loop out 1)) = (- int (mag_val (mag a))) mod int (kBase ^ count)"
    by (simp add: mag_val_invert_loop out of_nat_mod mod_minus_eq)
  then show ?thesis
    by (simp add: twosComplement_def Let_def bn_val_def out of_nat_mod flip: out_def)
qed

lemma bn_wf_fromTwosComplement [simp, bn_rules]: "bn_wf (fromTwosComplement xs negative)"
  by (simp add: fromTwosComplement_def)

text \<open>Reading a window back under the right sign recovers every value one bit narrower.\<close>

lemma fromTwosComplement_val:
  assumes "int (mag_val xs) = take_bit (32 * length xs) r" and "xs \<noteq> []"
    and "signed_take_bit (32 * (length xs - 1)) r = r" and "negative \<longleftrightarrow> r < 0"
  shows "bn_val (fromTwosComplement xs negative) = r"
proof -
  define N where "N = 32 * length xs"
  define M where "M = 32 * (length xs - 1)"
  have "M < N"
    using assms(2) by (simp add: M_def N_def)
  then have "(2::int) ^ M < 2 ^ N"
    by simp
  moreover have "- (2 ^ M) \<le> r" "r < 2 ^ M"
    using assms(3) by (simp_all add: signed_take_bit_int_eq_self_iff M_def)
  ultimately have r: "- (2 ^ N) < r" "r < 2 ^ N"
    by linarith+
  have cap: "int (kBase ^ length xs) = 2 ^ N"
    by (simp add: kBase_power N_def)
  show ?thesis
  proof (cases "r < 0")
    case True
    have "int (mag_val (invert_loop xs 1)) = (- (r mod 2 ^ N)) mod 2 ^ N"
      unfolding mag_val_invert_loop cap using assms(1) by (simp add: take_bit_eq_mod N_def)
    also have "\<dots> = (- r) mod 2 ^ N"
      by (rule mod_minus_eq)
    also have "\<dots> = - r"
      using True r by (intro mod_pos_pos_trivial) simp_all
    finally show ?thesis
      using True assms(4) by (simp add: fromTwosComplement_def)
  next
    case False
    then show ?thesis
      using assms(1,4) r by (simp add: fromTwosComplement_def take_bit_eq_mod N_def [symmetric])
  qed
qed

section \<open>The bitwise operators\<close>

text \<open>Every limb is the low 32 bits of the value, the rest of the magnitude the bits above.\<close>

lemma low_high_bits:
  "take_bit 32 (int (mag_val (x # xs))) = uint x" "drop_bit 32 (int (mag_val (x # xs))) = int (mag_val xs)"
proof -
  have val: "int (mag_val (x # xs)) = uint x + 2 ^ 32 * int (mag_val xs)"
    unfolding mag_val.simps uint_nat by (simp only: of_nat_add of_nat_mult) (simp add: kBase_def)
  have "0 \<le> uint x" "uint x < 2 ^ 32"
    using uint_lt_kBase [of x] by (simp_all add: kBase_def)
  then show "take_bit 32 (int (mag_val (x # xs))) = uint x"
    "drop_bit 32 (int (mag_val (x # xs))) = int (mag_val xs)"
    unfolding val by (simp_all add: take_bit_eq_mod drop_bit_eq_div)
qed

lemma int_bits_eqI:
  fixes k l :: int
  assumes "take_bit n k = take_bit n l" and "drop_bit n k = drop_bit n l"
  shows "k = l"
  using assms by (metis bits_ident)

lemma signed_take_bit_bitwise:
  fixes k l :: int
  shows "signed_take_bit n (k AND l) = signed_take_bit n k AND signed_take_bit n l"
    and "signed_take_bit n (k OR l) = signed_take_bit n k OR signed_take_bit n l"
    and "signed_take_bit n (k XOR l) = signed_take_bit n k XOR signed_take_bit n l"
  by (rule bit_eqI; simp add: bit_simps)+

locale bitwise_op =
  fixes limb_op :: "u32 \<Rightarrow> u32 \<Rightarrow> u32"
    and int_op :: "int \<Rightarrow> int \<Rightarrow> int"
    and sign_op :: "bool \<Rightarrow> bool \<Rightarrow> bool"
  assumes on_limbs: "uint (limb_op x y) = int_op (uint x) (uint y)"
    and on_low_bits: "take_bit n (int_op k l) = int_op (take_bit n k) (take_bit n l)"
    and on_high_bits: "drop_bit n (int_op k l) = int_op (drop_bit n k) (drop_bit n l)"
    and on_signed: "signed_take_bit n (int_op k l) = int_op (signed_take_bit n k) (signed_take_bit n l)"
    and on_signs: "int_op k l < 0 \<longleftrightarrow> sign_op (k < 0) (l < 0)"
    and on_zero: "int_op 0 0 = 0"
begin

lemma mag_val_map2:
  "length xs = length ys \<Longrightarrow> int (mag_val (map2 limb_op xs ys)) = int_op (int (mag_val xs)) (int (mag_val ys))"
proof (induction xs ys rule: list_induct2)
  case Nil
  then show ?case
    by (simp add: on_zero)
next
  case (Cons x xs y ys)
  show ?case
  proof (rule int_bits_eqI [of 32])
    show "take_bit 32 (int (mag_val (map2 limb_op (x # xs) (y # ys)))) =
        take_bit 32 (int_op (int (mag_val (x # xs))) (int (mag_val (y # ys))))"
      unfolding on_low_bits low_high_bits zip_Cons_Cons list.map prod.case by (rule on_limbs)
    show "drop_bit 32 (int (mag_val (map2 limb_op (x # xs) (y # ys)))) =
        drop_bit 32 (int_op (int (mag_val (x # xs))) (int (mag_val (y # ys))))"
      unfolding on_high_bits low_high_bits zip_Cons_Cons list.map prod.case by (rule Cons.IH)
  qed
qed

lemma window_correct:
  assumes "bn_wf a" and "bn_wf b" and "length (mag a) < count" and "length (mag b) < count"
  shows "bn_val (fromTwosComplement (map2 limb_op (twosComplement a count) (twosComplement b count))
           (sign_op (neg a) (neg b))) = int_op (bn_val a) (bn_val b)"
proof (rule fromTwosComplement_val)
  have fits: "signed_take_bit (32 * (count - 1)) (bn_val c) = bn_val c" if "length (mag c) < count" for c
  proof -
    have "mag_val (mag c) < kBase ^ (count - 1)"
      using mag_val_less [of "mag c"] power_increasing [of "length (mag c)" "count - 1" kBase] that
      by fastforce
    then have "\<bar>bn_val c\<bar> < 2 ^ (32 * (count - 1))"
      unfolding abs_bn_val kBase_power by (metis of_nat_less_iff of_nat_numeral of_nat_power)
    then show ?thesis
      unfolding signed_take_bit_int_eq_self_iff by linarith
  qed
  show "signed_take_bit (32 * (length (map2 limb_op (twosComplement a count) (twosComplement b count)) - 1))
      (int_op (bn_val a) (bn_val b)) = int_op (bn_val a) (bn_val b)"
    using fits assms(3,4) by (simp add: on_signed)
  have "int (kBase ^ count) = 2 ^ (32 * count)"
    by (simp add: kBase_power)
  then show "int (mag_val (map2 limb_op (twosComplement a count) (twosComplement b count))) =
      take_bit (32 * length (map2 limb_op (twosComplement a count) (twosComplement b count)))
        (int_op (bn_val a) (bn_val b))"
    by (simp add: mag_val_map2 mag_val_twosComplement on_low_bits) (simp add: take_bit_eq_mod)
  show "map2 limb_op (twosComplement a count) (twosComplement b count) \<noteq> []"
    using assms(3) by (simp flip: length_greater_0_conv)
  show "sign_op (neg a) (neg b) \<longleftrightarrow> int_op (bn_val a) (bn_val b) < 0"
    using assms(1,2) by (simp add: on_signs neg_iff)
qed

end

interpretation bit_and: bitwise_op "(AND)" "(AND)" "(\<and>)"
  by unfold_locales (simp_all add: unsigned_and_eq take_bit_and drop_bit_and signed_take_bit_bitwise and_negative_int_iff)

interpretation bit_or: bitwise_op "(OR)" "(OR)" "(\<or>)"
  by unfold_locales (simp_all add: unsigned_or_eq take_bit_or drop_bit_or signed_take_bit_bitwise or_negative_int_iff)

interpretation bit_xor: bitwise_op "(XOR)" "(XOR)" "(\<noteq>)"
  by unfold_locales (simp_all add: unsigned_xor_eq take_bit_xor drop_bit_xor signed_take_bit_bitwise xor_negative_int_iff)

lemma bn_val_bitAnd [bn_rules]: "bn_wf a \<Longrightarrow> bn_wf b \<Longrightarrow> bn_val (bitAnd a b) = bn_val a AND bn_val b"
  unfolding bitAnd_def Let_def by (rule bit_and.window_correct) simp_all

lemma bn_val_bitOr [bn_rules]: "bn_wf a \<Longrightarrow> bn_wf b \<Longrightarrow> bn_val (bitOr a b) = bn_val a OR bn_val b"
  unfolding bitOr_def Let_def by (rule bit_or.window_correct) simp_all

lemma bn_val_bitXor [bn_rules]: "bn_wf a \<Longrightarrow> bn_wf b \<Longrightarrow> bn_val (bitXor a b) = bn_val a XOR bn_val b"
  unfolding bitXor_def Let_def by (rule bit_xor.window_correct) simp_all

lemma bn_val_bitNot [bn_rules]: "bn_wf a \<Longrightarrow> bn_val (bitNot a) = NOT (bn_val a)"
  by (simp add: bitNot_def bn_val_sub not_int_def)

lemma bn_wf_bitwise [simp, bn_rules]:
  "bn_wf (bitAnd a b)" "bn_wf (bitOr a b)" "bn_wf (bitXor a b)" "bn_wf (bitNot a)"
  by (simp_all add: bitAnd_def bitOr_def bitXor_def bitNot_def Let_def)

section \<open>Windows of a fixed width\<close>

lemma limb_mask_top: "unat (x AND (2 ^ t - 1) :: u32) = unat x mod 2 ^ t"
proof -
  have "x AND (2 ^ t - 1) = take_bit t x"
    by (simp only: take_bit_eq_mask mask_eq_exp_minus_1)
  then show ?thesis
    by (simp only: unsigned_take_bit_eq) (simp only: take_bit_eq_mod)
qed

lemma mag_val_mask_last:
  assumes "xs \<noteq> []" and "t < 32"
  shows "mag_val (xs[length xs - 1 := last xs AND (push_bit t 1 - 1)]) =
           mag_val xs mod 2 ^ (32 * (length xs - 1) + t)"
proof -
  obtain ys y where xs: "xs = ys @ [y]"
    using assms(1) by (metis rev_exhaust)
  define k where "k = kBase ^ length ys"
  have "mag_val xs mod (k * 2 ^ t) = k * (mag_val xs div k mod 2 ^ t) + mag_val xs mod k"
    by (rule mod_mult2_eq)
  moreover have "mag_val xs div k = unat y" "mag_val xs mod k = mag_val ys"
    using mag_val_less [of ys] by (simp_all add: xs k_def)
  ultimately have "mag_val xs mod (k * 2 ^ t) = mag_val ys + k * (unat y mod 2 ^ t)"
    by simp
  then show ?thesis
    using assms(2) by (simp add: xs limb_mask_top k_def kBase_power power_add)
qed

lemma unat_window_count:
  assumes "bits \<le> kMaxBits" and "bits \<noteq> 0"
  shows "unat ((bits + 31) div 32) = (unat bits + 31) div 32" and "unat (bits mod 32) = unat bits mod 32"
proof -
  have "unat bits \<le> 2 ^ 24"
    using assms(1) unat_kMaxBits by (simp add: word_le_nat_alt)
  then have "unat (bits + 31) = unat bits + 31"
    by (simp add: unat_word_ariths)
  then show "unat ((bits + 31) div 32) = (unat bits + 31) div 32"
    by (simp add: unat_div)
  show "unat (bits mod 32) = unat bits mod 32"
    by (simp add: unat_mod)
qed

lemma window_count: "(n + 31) div 32 = n div 32 + (if n mod 32 = 0 then 0 else (1::nat))"
proof -
  have "n + 31 = n mod 32 + 31 + n div 32 * 32"
    using div_mult_mod_eq [of n 32] by linarith
  then have "(n + 31) div 32 = n div 32 + (n mod 32 + 31) div 32"
    by (simp only:)
  moreover have "(n mod 32 + 31) div 32 = 1" if "n mod 32 \<noteq> 0"
    using that mod_less_divisor [of 32 n] by (intro div_nat_eqI) simp_all
  ultimately show ?thesis
    by auto
qed

lemma asUintN_correct:
  assumes "bits \<le> kMaxBits"
  shows "\<exists>r. asUintN bits a = Inr r \<and> bn_wf r \<and> bn_val r = bn_val a mod 2 ^ unat bits"
proof (cases "bits = 0")
  case True
  then show ?thesis
    by (simp add: asUintN_def)
next
  case False
  define n where "n = unat bits"
  define count where "count = (n + 31) div 32"
  define t where "t = n mod 32"
  define limbs where "limbs = take count (twosComplement a (max count (length (mag a) + 1)))"
  define limbs' where
    "limbs' = (if t \<noteq> 0 then limbs[length limbs - 1 := last limbs AND (push_bit t 1 - 1)] else limbs)"
  note sizes = unat_window_count [OF assms False, folded n_def count_def t_def]
  have "0 < n"
    using False by (simp add: n_def unat_gt_0)
  have len: "length limbs = count" "limbs \<noteq> []"
    using \<open>0 < n\<close> by (auto simp: limbs_def count_def simp flip: length_greater_0_conv)
  have "int (kBase ^ count) dvd int (kBase ^ max count (length (mag a) + 1))"
    unfolding of_nat_power by (intro le_imp_power_dvd) simp
  then have "int (mag_val limbs) = bn_val a mod int (kBase ^ count)"
    unfolding limbs_def mag_val_take of_nat_mod mag_val_twosComplement by (rule mod_mod_cancel)
  then have val: "int (mag_val limbs) = bn_val a mod 2 ^ (32 * count)"
    by (simp add: kBase_power)
  have "int (mag_val limbs') = bn_val a mod 2 ^ n"
  proof (cases "t = 0")
    case True
    then have "32 * count = n"
      using window_count [of n] div_mult_mod_eq [of n 32] by (simp add: count_def t_def)
    then show ?thesis
      using val True by (simp add: limbs'_def)
  next
    case False
    then have n: "n = 32 * (count - 1) + t" "n \<le> 32 * count"
      using window_count [of n] div_mult_mod_eq [of n 32] mod_less_divisor [of 32 n]
      unfolding count_def t_def by simp_all
    have "t < 32"
      by (simp add: t_def)
    then have "int (mag_val limbs') = int (mag_val limbs) mod 2 ^ n"
      using False mag_val_mask_last [OF len(2), of t] len(1) n(1) by (simp add: limbs'_def of_nat_mod)
    also have "\<dots> = bn_val a mod 2 ^ n"
      unfolding val using n(2) by (simp add: mod_mod_cancel le_imp_power_dvd)
    finally show ?thesis .
  qed
  moreover have "asUintN bits a = Inr (trim \<lparr>neg = False, mag = limbs'\<rparr>)"
    using False assms unfolding asUintN_def Let_def sizes limbs'_def limbs_def count_def t_def by (simp add: not_less)
  ultimately show ?thesis
    by (simp add: n_def)
qed

lemma asUintN_too_large: "kMaxBits < bits \<Longrightarrow> asUintN bits a = Inl TooLarge"
  by (auto simp: asUintN_def)

lemma shiftLeft_one:
  assumes "unat bits < 2 ^ 24"
  shows "\<exists>r. bn_shiftLeft (fromUint64 1) (fromUint64 bits) = Inr r \<and> bn_wf r \<and> bn_val r = 2 ^ unat bits"
proof -
  have "mag (fromUint64 1) = [1]" "bitLength_mag [1] = 1"
    by code_simp+
  then show ?thesis
    using assms bn_shiftLeft_exact [of "fromUint64 1" "fromUint64 bits"] by (simp flip: uint_nat)
qed

lemma signed_window:
  fixes k :: int
  assumes "0 < n"
  shows "signed_take_bit (n - 1) k = (if k mod 2 ^ n < 2 ^ (n - 1) then k mod 2 ^ n else k mod 2 ^ n - 2 ^ n)"
proof -
  obtain m where m: "n = Suc m"
    using assms by (cases n) simp_all
  have "take_bit (Suc m) k = 2 ^ m * of_bool (bit k m) + take_bit m k"
    by (rule take_bit_Suc_from_most)
  moreover have "0 \<le> take_bit m k" "take_bit m k < 2 ^ m"
    by simp_all
  ultimately have "bit k m \<longleftrightarrow> \<not> take_bit (Suc m) k < 2 ^ m"
    by (cases "bit k m") simp_all
  then show ?thesis
    unfolding m take_bit_eq_mod [symmetric] signed_take_bit_eq_take_bit_minus diff_Suc_1 by simp
qed

lemma asIntN_correct:
  assumes "bn_wf a" and "0 < bits" and "bits < kMaxBits"
  shows "\<exists>r. asIntN bits a = Inr r \<and> bn_wf r \<and> bn_val r = signed_take_bit (unat bits - 1) (bn_val a)"
proof -
  have "0 < unat bits" "unat bits < 2 ^ 24"
    using assms(2,3) unat_kMaxBits by (simp_all add: word_less_nat_alt)
  have pred: "unat (bits - 1) = unat bits - 1"
    using assms(2) by (intro unat_minus_one) auto
  obtain w where w: "asUintN bits a = Inr w" "bn_wf w" "bn_val w = bn_val a mod 2 ^ unat bits"
    using asUintN_correct [OF order.strict_implies_order [OF assms(3)], of a] by blast
  obtain half where half: "bn_shiftLeft (fromUint64 1) (fromUint64 (bits - 1)) = Inr half" "bn_wf half"
      "bn_val half = 2 ^ (unat bits - 1)"
    using shiftLeft_one [of "bits - 1"] less_imp_diff_less [OF \<open>unat bits < 2 ^ 24\<close>] unfolding pred by blast
  obtain whole where whole: "bn_shiftLeft (fromUint64 1) (fromUint64 bits) = Inr whole" "bn_wf whole"
      "bn_val whole = 2 ^ unat bits"
    using shiftLeft_one [OF \<open>unat bits < 2 ^ 24\<close>] by blast
  have "compare w half < 0 \<longleftrightarrow> bn_val w < bn_val half"
    using compare_correct [OF w(2) half(2)] by (auto simp: order_of_def)
  then have "asIntN bits a = Inr (if bn_val w < bn_val half then w else bn_sub w whole)"
    using assms(2) by (simp add: asIntN_def w(1) half(1) whole(1))
  then show ?thesis
    using w(2) whole(2) signed_window [OF \<open>0 < unat bits\<close>, of "bn_val a"]
    by (auto simp: bn_val_sub w(3) half(3) whole(3))
qed

section \<open>Properties\<close>

text \<open>C13: The bitwise operators are those of the infinite two's-complement representation: the
  integers' own AND, OR, XOR and NOT, for every pair of signs.\<close>

theorem bitwise_infinite:
  assumes "bn_wf a" and "bn_wf b"
  shows "bn_val (bitAnd a b) = bn_val a AND bn_val b \<and> bn_val (bitOr a b) = bn_val a OR bn_val b \<and>
         bn_val (bitXor a b) = bn_val a XOR bn_val b \<and> bn_val (bitNot a) = NOT (bn_val a) \<and>
         bn_wf (bitAnd a b) \<and> bn_wf (bitOr a b) \<and> bn_wf (bitXor a b) \<and> bn_wf (bitNot a)"
  using assms by (simp add: bn_rules)

theorem bitwise_infinite_witness:
  "bitAnd (fromInt64 (-1)) (fromUint64 255) = fromUint64 255 \<and>
   bn_val (fromUint64 255) = bn_val (fromInt64 (-1)) AND bn_val (fromUint64 255)"
proof -
  have "bitAnd (fromInt64 (-1)) (fromUint64 255) = fromUint64 255"
    by code_simp
  then show ?thesis
    using bitwise_infinite [of "fromInt64 (-1)" "fromUint64 255"] by simp
qed

text \<open>\<open>asUintN\<close> is the value modulo \<open>2 ^ bits\<close> and \<open>asIntN\<close> the same window read as a signed
  number, below the cap; above it both report \<open>TooLarge\<close>.\<close>

theorem fixed_width_windows:
  assumes "bn_wf a" and "0 < bits"
  shows "if bits < kMaxBits
         then \<exists>u s. asUintN bits a = Inr u \<and> bn_wf u \<and> bn_val u = take_bit (unat bits) (bn_val a) \<and>
                asIntN bits a = Inr s \<and> bn_wf s \<and> bn_val s = signed_take_bit (unat bits - 1) (bn_val a)
         else bits > kMaxBits \<longrightarrow> asUintN bits a = Inl TooLarge \<and> asIntN bits a = Inl TooLarge"
proof (cases "bits < kMaxBits")
  case True
  then show ?thesis
    using asUintN_correct [of bits a] asIntN_correct [OF assms] by (auto simp: take_bit_eq_mod)
next
  case False
  then show ?thesis
    using asUintN_too_large [of bits a] by (simp add: asIntN_def)
qed

theorem fixed_width_windows_witness:
  "asUintN 8 (fromInt64 (-1)) = Inr (fromUint64 255) \<and> asIntN 8 (fromUint64 255) = Inr (fromInt64 (-1))"
proof -
  have lt: "(8 :: u64) < kMaxBits"
    by (simp add: kMaxBits_def)
  obtain u where "asUintN 8 (fromInt64 (-1)) = Inr u" "bn_wf u" "bn_val u = 255"
    using fixed_width_windows [of "fromInt64 (-1)" 8] lt by (auto simp: mask_eq_exp_minus_1)
  moreover obtain s where "asIntN 8 (fromUint64 255) = Inr s" "bn_wf s" "bn_val s = -1"
    using fixed_width_windows [of "fromUint64 255" 8] lt by auto
  ultimately show ?thesis
    using bn_unique [of u "fromUint64 255"] bn_unique [of s "fromInt64 (-1)"] by simp
qed

end
