(* ===== verification/BigNum_Text.thy ===== *)
theory BigNum_Text
  imports BigNum "HOL-Library.Monad_Syntax"
begin

text \<open>
  The radix parser and printer of \<open>src/src/runtime/bignum.cpp\<close> (\<open>digitValue\<close>, \<open>radixChunk\<close>,
  \<open>BigNum::parse\<close>, \<open>BigNum::toString\<close>). The loops that end only for a sensible radix are
  \<open>partial_function (option)\<close>: \<open>None\<close> at that level means that the call does not return, and the
  lemmas show that it does for every radix the callers let through. \<open>parse\<close> answers
  \<open>Some None\<close> where the source returns \<open>false\<close>.
\<close>

unbundle bit_operations_syntax

section \<open>Definitions\<close>

definition digitValue :: "char \<Rightarrow> int" where
  "digitValue c =
     (let n = of_char c :: int
      in if 48 \<le> n \<and> n \<le> 57 then n - 48
         else if 97 \<le> n \<and> n \<le> 122 then n - 97 + 10
         else if 65 \<le> n \<and> n \<le> 90 then n - 65 + 10
         else -1)"

record RadixChunk =
  chunk_power :: u32
  chunk_digits :: nat

partial_function (option) radixChunk_loop :: "u32 \<Rightarrow> RadixChunk \<Rightarrow> RadixChunk option" where
  [code]: "radixChunk_loop radix chunk =
     (let next = w64 (chunk_power chunk) * w64 radix
      in if next > 0xFFFFFFFF then Some chunk
         else radixChunk_loop radix \<lparr>chunk_power = lo32 next, chunk_digits = chunk_digits chunk + 1\<rparr>)"

definition radixChunk :: "int \<Rightarrow> RadixChunk option" where
  "radixChunk radix =
     radixChunk_loop (word_of_int radix) \<lparr>chunk_power = word_of_int radix, chunk_digits = 1\<rparr>"

text \<open>The digit loop of \<open>parse\<close>; \<open>None\<close> is its \<open>return false\<close>.\<close>

fun parse_loop :: "RadixChunk \<Rightarrow> int \<Rightarrow> string \<Rightarrow> limbs \<Rightarrow> u32 \<Rightarrow> nat \<Rightarrow> u32 \<Rightarrow> limbs option" where
  "parse_loop chunk radix [] m pending pendingDigits pendingScale =
     Some (if pendingDigits \<noteq> 0 then mulAddSmall m pendingScale pending else m)"
| "parse_loop chunk radix (c # cs) m pending pendingDigits pendingScale =
     (let value = digitValue c
      in if value < 0 \<or> value \<ge> radix then None
         else
           (let pending' = pending * word_of_int radix + word_of_int value;
                pendingScale' = pendingScale * word_of_int radix;
                pendingDigits' = pendingDigits + 1
            in if pendingDigits' = chunk_digits chunk
               then parse_loop chunk radix cs (mulAddSmall m (chunk_power chunk) pending') 0 0 1
               else parse_loop chunk radix cs m pending' pendingDigits' pendingScale'))"

text \<open>The optional sign, and the digits after it.\<close>

fun parse_sign :: "bool \<Rightarrow> string \<Rightarrow> bool \<times> string" where
  "parse_sign allowSign [] = (False, [])"
| "parse_sign allowSign (c # cs) =
     (if allowSign \<and> (c = CHR ''+'' \<or> c = CHR ''-'') then (c = CHR ''-'', cs) else (False, c # cs))"

definition parse :: "string \<Rightarrow> int \<Rightarrow> bool \<Rightarrow> bignum option option" where
  "parse input radix allowSign =
     (if radix < 2 \<or> radix > 36 then Some None
      else
        (let (negative, rest) = parse_sign allowSign input
         in if rest = [] then Some None
            else do {
              chunk \<leftarrow> radixChunk radix;
              Some (do {
                m \<leftarrow> parse_loop chunk radix rest [] 0 0 1;
                Some (trim \<lparr>neg = negative, mag = m\<rparr>)
              })
            }))"

definition kDigits :: string where
  "kDigits = ''0123456789abcdefghijklmnopqrstuvwxyz''"

text \<open>The inner loop: \<open>chunk.digits\<close> digits, low to high, cut short in the final chunk.\<close>

primrec emit_digits :: "u32 \<Rightarrow> bool \<Rightarrow> nat \<Rightarrow> u32 \<Rightarrow> string" where
  "emit_digits radix final 0 remainder = []"
| "emit_digits radix final (Suc i) remainder =
     kDigits ! unat (remainder mod radix) #
       (if final \<and> remainder div radix = 0 then [] else emit_digits radix final i (remainder div radix))"

partial_function (option) toString_loop :: "RadixChunk \<Rightarrow> u32 \<Rightarrow> limbs \<Rightarrow> string \<Rightarrow> string option" where
  [code]: "toString_loop chunk radix work reversed =
     (if work = [] then Some reversed
      else
        (let (work', remainder) = divModSmall work (chunk_power chunk)
         in toString_loop chunk radix work'
              (reversed @ emit_digits radix (work' = []) (chunk_digits chunk) remainder)))"

definition toString :: "bignum \<Rightarrow> int \<Rightarrow> string option" where
  "toString a radix =
     (let radix' = (if radix < 2 \<or> radix > 36 then 10 else radix)
      in if mag a = [] then Some ''0''
         else do {
           chunk \<leftarrow> radixChunk radix';
           reversed \<leftarrow> toString_loop chunk (word_of_int radix') (mag a) [];
           Some ((if neg a then ''-'' else []) @ rev reversed)
         })"

section \<open>What a digit string denotes\<close>

definition is_digit :: "int \<Rightarrow> char \<Rightarrow> bool" where
  "is_digit radix c \<longleftrightarrow> 0 \<le> digitValue c \<and> digitValue c < radix"

primrec digits_val :: "int \<Rightarrow> nat \<Rightarrow> string \<Rightarrow> nat" where
  "digits_val radix acc [] = acc"
| "digits_val radix acc (c # cs) = digits_val radix (acc * nat radix + nat (digitValue c)) cs"

lemma digits_val_append: "digits_val radix acc (xs @ ys) = digits_val radix (digits_val radix acc xs) ys"
  by (induction xs arbitrary: acc) simp_all

text \<open>The same value read low digit first, as the printer produces it.\<close>

primrec digits_val_le :: "int \<Rightarrow> string \<Rightarrow> nat" where
  "digits_val_le radix [] = 0"
| "digits_val_le radix (c # cs) = nat (digitValue c) + nat radix * digits_val_le radix cs"

lemma digits_val_rev: "digits_val radix 0 (rev xs) = digits_val_le radix xs"
  by (induction xs) (simp_all add: digits_val_append mult.commute)

lemma digits_val_le_append:
  "digits_val_le radix (xs @ ys) = digits_val_le radix xs + nat radix ^ length xs * digits_val_le radix ys"
  by (induction xs) (simp_all add: algebra_simps)

section \<open>The chunk\<close>

lemma uint_radix: "2 \<le> radix \<Longrightarrow> radix \<le> 36 \<Longrightarrow> unat (word_of_int radix :: u32) = nat radix"
  by (simp add: unat_eq_nat_uint unsigned_of_int take_bit_int_eq_self)

lemma radixChunk_loop_spec:
  assumes "2 \<le> unat radix" and "unat (chunk_power chunk) = unat radix ^ chunk_digits chunk"
  shows "\<exists>c. radixChunk_loop radix chunk = Some c \<and> unat (chunk_power c) = unat radix ^ chunk_digits c \<and>
             chunk_digits chunk \<le> chunk_digits c \<and> kBase \<le> unat radix ^ (chunk_digits c + 1)"
  using assms(2)
proof (induction "kBase - unat (chunk_power chunk)" arbitrary: chunk rule: less_induct)
  case less
  define next' where "next' = w64 (chunk_power chunk) * w64 radix"
  have next': "unat next' = unat radix ^ (chunk_digits chunk + 1)"
    by (simp add: next'_def unat_mult_limbs less.prems mult.commute)
  have guard: "next' > 0xFFFFFFFF \<longleftrightarrow> kBase \<le> unat next'"
    by (simp add: word_less_nat_alt kBase_def less_eq_Suc_le)
  show ?case
  proof (cases "next' > 0xFFFFFFFF")
    case True
    then have "radixChunk_loop radix chunk = Some chunk"
      by (subst radixChunk_loop.simps) (simp add: next'_def Let_def)
    then show ?thesis
      using less.prems True guard next' by simp
  next
    case False
    define chunk' where "chunk' = \<lparr>chunk_power = lo32 next', chunk_digits = chunk_digits chunk + 1\<rparr>"
    have lt: "unat next' < kBase"
      using False guard by simp
    then have power': "unat (chunk_power chunk') = unat radix ^ chunk_digits chunk'"
      by (simp add: chunk'_def unat_lo32 next')
    have "0 < unat (chunk_power chunk)"
      using assms(1) less.prems by simp
    then have "unat (chunk_power chunk) < unat next'"
      using assms(1) less.prems next' by simp
    then have "kBase - unat (chunk_power chunk') < kBase - unat (chunk_power chunk)"
      using lt power' next' by (simp add: chunk'_def)
    from less.hyps [OF this power'] obtain c where "radixChunk_loop radix chunk' = Some c"
      "unat (chunk_power c) = unat radix ^ chunk_digits c" "chunk_digits chunk' \<le> chunk_digits c" "kBase \<le> unat radix ^ (chunk_digits c + 1)"
      by blast
    moreover have "radixChunk_loop radix chunk = radixChunk_loop radix chunk'"
      using False unfolding chunk'_def next'_def
      by (subst radixChunk_loop.simps) (simp add: Let_def)
    ultimately show ?thesis
      by (auto simp: chunk'_def)
  qed
qed

lemma radixChunk_spec:
  assumes "2 \<le> radix" and "radix \<le> 36"
  obtains chunk where "radixChunk radix = Some chunk" and "unat (chunk_power chunk) = nat radix ^ chunk_digits chunk"
    and "1 \<le> chunk_digits chunk" and "kBase \<le> nat radix ^ (chunk_digits chunk + 1)"
proof -
  have "2 \<le> nat radix"
    using assms(1) by simp
  then show ?thesis
    using radixChunk_loop_spec [of "word_of_int radix" "\<lparr>chunk_power = word_of_int radix, chunk_digits = 1\<rparr>"]
      uint_radix [OF assms] that by (auto simp: radixChunk_def)
qed

section \<open>Parsing\<close>

lemma unat_mul_add_u32:
  fixes a b c :: u32
  assumes "unat a * unat b + unat c < kBase"
  shows "unat (a * b + c) = unat a * unat b + unat c"
  using assms by (simp add: unat_word_ariths kBase_def)

lemma unat_digit: "is_digit radix c \<Longrightarrow> radix \<le> 36 \<Longrightarrow>
    unat (word_of_int (digitValue c) :: u32) = nat (digitValue c)"
  by (simp add: is_digit_def unat_eq_nat_uint unsigned_of_int take_bit_int_eq_self)

lemma pending_step:
  fixes p :: u32
  assumes radix: "2 \<le> radix" "radix \<le> 36" and c: "is_digit radix c"
    and p: "unat p < nat radix ^ k" and fits: "nat radix ^ (k + 1) < kBase"
  shows "unat (p * word_of_int radix + word_of_int (digitValue c)) = unat p * nat radix + nat (digitValue c)"
    and "unat p * nat radix + nat (digitValue c) < nat radix ^ (k + 1)"
proof -
  have "nat (digitValue c) < nat radix"
    using c by (simp add: is_digit_def)
  moreover have "(unat p + 1) * nat radix \<le> nat radix ^ k * nat radix"
    using p by (intro mult_le_mono1) simp
  ultimately show less: "unat p * nat radix + nat (digitValue c) < nat radix ^ (k + 1)"
    unfolding power_add power_one_right add_mult_distrib by linarith
  show "unat (p * word_of_int radix + word_of_int (digitValue c)) = unat p * nat radix + nat (digitValue c)"
    using less fits uint_radix [OF radix] unat_digit [OF c radix(2)]
    by (subst unat_mul_add_u32) simp_all
qed

lemma parse_loop_spec:
  assumes radix: "2 \<le> radix" "radix \<le> 36"
    and chunk: "unat (chunk_power chunk) = nat radix ^ chunk_digits chunk"
    and "k < chunk_digits chunk" and "unat p < nat radix ^ k" and "unat sc = nat radix ^ k"
  shows "map_option mag_val (parse_loop chunk radix cs m p k sc) =
         (if list_all (is_digit radix) cs
          then Some (digits_val radix (mag_val m * nat radix ^ k + unat p) cs) else None)"
  using assms(4-6)
proof (induction cs arbitrary: m p k sc)
  case Nil
  then show ?case
    by auto
next
  case (Cons c cs)
  show ?case
  proof (cases "is_digit radix c")
    case False
    then show ?thesis
      by (auto simp: is_digit_def not_less)
  next
    case True
    define p' where "p' = p * word_of_int radix + word_of_int (digitValue c)"
    define sc' :: u32 where "sc' = sc * word_of_int radix"
    have digit: "\<not> (digitValue c < 0 \<or> radix \<le> digitValue c)"
      using True by (simp add: is_digit_def)
    have "nat radix ^ (k + 1) \<le> nat radix ^ chunk_digits chunk"
      using Cons.prems(1) radix(1) by (intro power_increasing) simp_all
    then have fits: "nat radix ^ (k + 1) < kBase"
      using unat_lt_kBase [of "chunk_power chunk"] chunk by linarith
    note step = pending_step [OF radix True Cons.prems(2) fits, folded p'_def]
    have sc': "unat sc' = nat radix ^ (k + 1)"
      using fits Cons.prems(3) uint_radix [OF radix] unat_mul_add_u32 [of sc "word_of_int radix" 0]
      by (simp add: sc'_def mult.commute)
    have acc: "(mag_val m * nat radix ^ k + unat p) * nat radix + nat (digitValue c) =
        mag_val m * nat radix ^ (k + 1) + unat p'"
      by (simp add: step(1) algebra_simps)
    show ?thesis
    proof (cases "k + 1 = chunk_digits chunk")
      case full: True
      have "parse_loop chunk radix (c # cs) m p k sc =
          parse_loop chunk radix cs (mulAddSmall m (chunk_power chunk) p') 0 0 1"
        using digit full by (simp add: Let_def p'_def)
      moreover have "mag_val (mulAddSmall m (chunk_power chunk) p') * nat radix ^ 0 + unat (0 :: u32) =
          mag_val m * nat radix ^ (k + 1) + unat p'"
        by (simp add: chunk full [symmetric])
      ultimately show ?thesis
        using Cons.IH [of 0 0 1 "mulAddSmall m (chunk_power chunk) p'"] full True
        by (simp only: list.pred_inject digits_val.simps acc) simp
    next
      case more: False
      have "parse_loop chunk radix (c # cs) m p k sc = parse_loop chunk radix cs m p' (k + 1) sc'"
        using digit more by (simp add: Let_def p'_def sc'_def)
      moreover have "unat p' < nat radix ^ (k + 1)" "k + 1 < chunk_digits chunk"
        using step Cons.prems(1) more by simp_all
      ultimately show ?thesis
        using Cons.IH [of "k + 1" p' sc' m] sc' True
        by (simp only: list.pred_inject digits_val.simps acc) simp
    qed
  qed
qed

lemma parse_spec:
  assumes "2 \<le> radix" and "radix \<le> 36" and "parse_sign allowSign input = (negative, rest)"
  shows "if rest \<noteq> [] \<and> list_all (is_digit radix) rest
         then \<exists>a. parse input radix allowSign = Some (Some a) \<and> bn_wf a \<and>
                bn_val a = (if negative then - int (digits_val radix 0 rest) else int (digits_val radix 0 rest))
         else parse input radix allowSign = Some None"
proof -
  obtain chunk where chunk: "radixChunk radix = Some chunk" "unat (chunk_power chunk) = nat radix ^ chunk_digits chunk"
    "1 \<le> chunk_digits chunk"
    using radixChunk_spec [OF assms(1,2)] by blast
  then have loop: "map_option mag_val (parse_loop chunk radix rest [] 0 0 1) =
      (if list_all (is_digit radix) rest then Some (digits_val radix 0 rest) else None)"
    using parse_loop_spec [OF assms(1,2) chunk(2), of 0 0 1 rest "[]"] by simp
  have "\<not> (radix < 2 \<or> radix > 36)"
    using assms(1,2) by simp
  then have "parse input radix allowSign =
      (if rest = [] then Some None
       else Some (parse_loop chunk radix rest [] 0 0 1 \<bind> (\<lambda>m. Some (trim \<lparr>neg = negative, mag = m\<rparr>))))"
    by (simp add: parse_def assms(3) chunk(1))
  then show ?thesis
    using loop by (cases "parse_loop chunk radix rest [] 0 0 1") (auto split: if_splits)
qed

section \<open>Printing\<close>

lemma digitValue_kDigits: "i < 36 \<Longrightarrow> digitValue (kDigits ! i) = int i"
proof -
  have "list_all (\<lambda>i. digitValue (kDigits ! i) = int i) [0..<36]"
    by code_simp
  then show "i < 36 \<Longrightarrow> digitValue (kDigits ! i) = int i"
    by (simp add: list_all_iff)
qed

lemma emitted_digit:
  assumes radix: "2 \<le> radix" "radix \<le> 36" and w: "unat w = nat radix"
  shows "digitValue (kDigits ! unat (remainder mod w)) = int (unat remainder mod nat radix)"
    and "is_digit radix (kDigits ! unat (remainder mod w))"
    and "unat (remainder div w) = unat remainder div nat radix"
proof -
  have "unat remainder mod nat radix < nat radix"
    using radix(1) by simp
  then have "digitValue (kDigits ! (unat remainder mod nat radix)) = int (unat remainder mod nat radix)"
    using radix by (intro digitValue_kDigits) linarith
  then show "digitValue (kDigits ! unat (remainder mod w)) = int (unat remainder mod nat radix)"
    by (simp only: unat_mod w)
  with \<open>unat remainder mod nat radix < nat radix\<close> show "is_digit radix (kDigits ! unat (remainder mod w))"
    by (simp add: is_digit_def)
  show "unat (remainder div w) = unat remainder div nat radix"
    by (simp only: unat_div w)
qed

lemma emit_all:
  assumes radix: "2 \<le> radix" "radix \<le> 36" and w: "unat w = nat radix"
  shows "length (emit_digits w False n remainder) = n \<and> list_all (is_digit radix) (emit_digits w False n remainder) \<and>
   digits_val_le radix (emit_digits w False n remainder) = unat remainder mod nat radix ^ n"
proof (induction n arbitrary: remainder)
  case (Suc n)
  then show ?case
    by (simp add: emitted_digit [OF assms] mod_mult2_eq)
qed simp

lemma emit_final:
  assumes radix: "2 \<le> radix" "radix \<le> 36" and w: "unat w = nat radix"
    and "remainder \<noteq> 0" and "unat remainder < nat radix ^ n"
  shows "emit_digits w True n remainder \<noteq> [] \<and> list_all (is_digit radix) (emit_digits w True n remainder) \<and>
         digitValue (last (emit_digits w True n remainder)) \<noteq> 0 \<and>
         digits_val_le radix (emit_digits w True n remainder) = unat remainder"
  using assms(4,5)
proof (induction n arbitrary: remainder)
  case 0
  then show ?case
    by (simp add: word_zero_iff_unat)
next
  case (Suc n)
  show ?case
  proof (cases "remainder div w = 0")
    case True
    then have "unat remainder div nat radix = 0"
      by (simp add: word_zero_iff_unat emitted_digit(3) [OF radix w])
    then have "unat remainder mod nat radix = unat remainder"
      using radix(1) by (simp add: div_eq_0_iff)
    then show ?thesis
      using True Suc.prems(1) by (simp add: emitted_digit [OF radix w] uint_0_iff)
  next
    case False
    have "unat (remainder div w) < nat radix ^ n"
      using Suc.prems(2) unfolding emitted_digit(3) [OF radix w] by (intro less_mult_imp_div_less) (simp add: mult.commute)
    from Suc.IH [OF False this] False show ?thesis
      by (simp add: emitted_digit [OF radix w])
  qed
qed

lemma toString_loop_spec:
  assumes radix: "2 \<le> radix" "radix \<le> 36" and w: "unat w = nat radix"
    and chunk: "unat (chunk_power chunk) = nat radix ^ chunk_digits chunk" "1 \<le> chunk_digits chunk"
    and "normalized work" and "work \<noteq> []"
  shows "\<exists>out. toString_loop chunk w work acc = Some (acc @ out) \<and> out \<noteq> [] \<and>
           list_all (is_digit radix) out \<and> digitValue (last out) \<noteq> 0 \<and> digits_val_le radix out = mag_val work"
  using assms(6,7)
proof (induction "mag_val work" arbitrary: work acc rule: less_induct)
  case less
  define P where "P = nat radix ^ chunk_digits chunk"
  have "2 \<le> P"
    using radix(1) self_le_power [of "nat radix" "chunk_digits chunk"] chunk(2) unfolding P_def by linarith
  then have nz: "chunk_power chunk \<noteq> 0"
    using chunk(1) unfolding P_def [symmetric] by auto
  obtain work' rem where dm: "divModSmall work (chunk_power chunk) = (work', rem)"
    by fastforce
  note div = divModSmall_correct [OF nz dm, unfolded chunk(1), folded P_def]
  have pos: "0 < mag_val work"
    using less.prems by (rule normalized_pos)
  have unfold: "toString_loop chunk w work acc =
      toString_loop chunk w work' (acc @ emit_digits w (work' = []) (chunk_digits chunk) rem)"
    using less.prems(2) by (subst toString_loop.simps) (simp add: dm)
  show ?case
  proof (cases "work' = []")
    case True
    then have "mag_val work div P = 0"
      using div(1) by simp
    then have "unat rem = mag_val work" "unat rem < P"
      using div(2) \<open>2 \<le> P\<close> by (simp_all add: div_eq_0_iff)
    then show ?thesis
      using emit_final [OF radix w, of rem "chunk_digits chunk"] pos True
      unfolding unfold by (subst toString_loop.simps) (auto simp: P_def word_zero_iff_unat)
  next
    case False
    have "mag_val work' < mag_val work"
      unfolding div(1) using pos \<open>2 \<le> P\<close> by simp
    from less.hyps [OF this div(3) False]
    obtain out where out: "toString_loop chunk w work' (acc @ emit_digits w False (chunk_digits chunk) rem) =
        Some ((acc @ emit_digits w False (chunk_digits chunk) rem) @ out)" "out \<noteq> []"
      "list_all (is_digit radix) out" "digitValue (last out) \<noteq> 0" "digits_val_le radix out = mag_val work'"
      by blast
    have rem: "unat rem mod nat radix ^ chunk_digits chunk = unat rem"
      using div(2) by (simp add: P_def)
    let ?all = "emit_digits w False (chunk_digits chunk) rem @ out"
    have "digits_val_le radix ?all = unat rem + P * mag_val work'"
      using emit_all [OF radix w] by (simp add: digits_val_le_append rem out(5) P_def)
    then have "digits_val_le radix ?all = mag_val work"
      using div(1,2) by simp
    moreover have "toString_loop chunk w work acc = Some (acc @ ?all)"
      using unfold False out(1) by simp
    ultimately show ?thesis
      using out emit_all [OF radix w] by (intro exI [of _ ?all]) simp
  qed
qed

lemma toString_spec:
  assumes "bn_wf a" and "2 \<le> radix" and "radix \<le> 36" and "mag a \<noteq> []"
  shows "\<exists>ds. toString a radix = Some ((if neg a then ''-'' else []) @ ds) \<and> ds \<noteq> [] \<and>
           list_all (is_digit radix) ds \<and> digitValue (hd ds) \<noteq> 0 \<and> digits_val radix 0 ds = mag_val (mag a)"
proof -
  obtain chunk where chunk: "radixChunk radix = Some chunk" "unat (chunk_power chunk) = nat radix ^ chunk_digits chunk"
    "1 \<le> chunk_digits chunk"
    using radixChunk_spec [OF assms(2,3)] by blast
  obtain out where out: "toString_loop chunk (word_of_int radix) (mag a) [] = Some out" "out \<noteq> []"
    "list_all (is_digit radix) out" "digitValue (last out) \<noteq> 0" "digits_val_le radix out = mag_val (mag a)"
    using toString_loop_spec [OF assms(2,3) uint_radix [OF assms(2,3)] chunk(2,3) bn_wf_magD [OF assms(1)] assms(4), of "[]"]
    by auto
  have "toString a radix = Some ((if neg a then ''-'' else []) @ rev out)"
    using assms(2-4) chunk(1) out(1) by (simp add: toString_def)
  then show ?thesis
    using out by (intro exI [of _ "rev out"]) (simp add: digits_val_rev hd_rev)
qed

section \<open>Properties\<close>

text \<open>\<open>BigNum::parse\<close> returns for every input and radix: it accepts exactly an optional sign
  (when allowed) and a nonempty run of digits of the radix, and the result is canonical and denotes
  that number.\<close>

theorem parse_denotes:
  "case parse input radix allowSign of
     None \<Rightarrow> False
   | Some None \<Rightarrow> radix < 2 \<or> radix > 36 \<or> snd (parse_sign allowSign input) = [] \<or>
       \<not> list_all (is_digit radix) (snd (parse_sign allowSign input))
   | Some (Some a) \<Rightarrow> bn_wf a \<and> 2 \<le> radix \<and> radix \<le> 36 \<and> snd (parse_sign allowSign input) \<noteq> [] \<and>
       list_all (is_digit radix) (snd (parse_sign allowSign input)) \<and>
       \<bar>bn_val a\<bar> = int (digits_val radix 0 (snd (parse_sign allowSign input))) \<and>
       (bn_val a < 0 \<longrightarrow> fst (parse_sign allowSign input)) \<and> (0 < bn_val a \<longrightarrow> \<not> fst (parse_sign allowSign input))"
proof (cases "2 \<le> radix \<and> radix \<le> 36")
  case True
  obtain negative rest where sign: "parse_sign allowSign input = (negative, rest)"
    by fastforce
  show ?thesis
    using parse_spec [of radix allowSign input negative rest] True sign by (auto split: if_splits)
next
  case False
  then show ?thesis
    by (auto simp: parse_def)
qed

theorem parse_denotes_witness:
  "parse ''-ff'' 16 True = Some (Some (fromInt64 (-255))) \<and> int (digits_val 16 0 ''ff'') = 255"
proof -
  have "parse ''-ff'' 16 True = Some (Some (fromInt64 (-255)))" "snd (parse_sign True ''-ff'') = ''ff''"
    by code_simp+
  then show ?thesis
    using parse_denotes [where input = "''-ff''" and radix = 16 and allowSign = True] by simp
qed

text \<open>C11: Printing and reading back is the identity: \<open>toString\<close> returns, in every radix, a string
  that \<open>parse\<close> maps to the very same object; the digits have no leading zero.\<close>

theorem toString_parse:
  assumes "bn_wf a" and "2 \<le> radix" and "radix \<le> 36"
  shows "\<exists>s. toString a radix = Some s \<and> parse s radix True = Some (Some a) \<and>
             (a \<noteq> bn_zero \<longrightarrow> digitValue (hd (snd (parse_sign True s))) \<noteq> 0)"
proof (cases "mag a = []")
  case True
  then have a: "a = bn_zero"
    by (rule bn_wf_zeroD [OF assms(1)])
  have "is_digit radix CHR ''0''" "parse_sign True ''0'' = (False, ''0'')" "digitValue CHR ''0'' = 0"
    using assms(2) by (simp_all add: is_digit_def digitValue_def)
  then obtain b where "parse ''0'' radix True = Some (Some b)" "bn_wf b" "bn_val b = 0"
    using parse_spec [OF assms(2,3), of True "''0''" False "''0''"] by auto
  moreover from this have "b = bn_zero"
    by (intro bn_unique) simp_all
  ultimately show ?thesis
    using True by (simp add: toString_def a)
next
  case False
  obtain ds where ds: "toString a radix = Some ((if neg a then ''-'' else []) @ ds)" "ds \<noteq> []"
    "list_all (is_digit radix) ds" "digitValue (hd ds) \<noteq> 0" "digits_val radix 0 ds = mag_val (mag a)"
    using toString_spec [OF assms False] by blast
  have "hd ds \<noteq> CHR ''+''" "hd ds \<noteq> CHR ''-''"
    using ds(2,3) by (cases ds; auto simp: is_digit_def digitValue_def)+
  then have sign: "parse_sign True ((if neg a then ''-'' else []) @ ds) = (neg a, ds)"
    using ds(2) by (cases ds) simp_all
  obtain b where b: "parse ((if neg a then ''-'' else []) @ ds) radix True = Some (Some b)" "bn_wf b"
      "bn_val b = (if neg a then - int (mag_val (mag a)) else int (mag_val (mag a)))"
    using parse_spec [OF assms(2,3) sign] ds by auto
  then have "b = a"
    using assms(1) by (intro bn_unique) (simp_all add: bn_val_def)
  then show ?thesis
    using ds(1,4) b(1) sign by simp
qed

theorem toString_parse_witness:
  "toString (fromInt64 (-255)) 16 = Some ''-ff'' \<and> parse ''-ff'' 16 True = Some (Some (fromInt64 (-255)))"
proof -
  have "toString (fromInt64 (-255)) 16 = Some ''-ff''"
    by code_simp
  then show ?thesis
    using toString_parse [of "fromInt64 (-255)" 16] by simp
qed

end
