(* ===== verification/BigNum_Double.thy ===== *)
theory BigNum_Double
  imports BigNum Complex_Main
begin

text \<open>
  The conversions between \<open>BigNum\<close> and \<open>double\<close> of \<open>src/src/runtime/bignum.cpp\<close>
  (\<open>fromDoubleExact\<close>, \<open>compareWithDouble\<close>, \<open>toDouble\<close>). A \<open>double\<close> is a NaN, an infinity or a sign,
  a mantissa below \<open>2 ^ 53\<close> and a binary exponent; \<open>dval\<close> is the rational it denotes. The library
  functions the source calls (\<open>trunc\<close>, \<open>fabs\<close>, \<open>frexp\<close>, \<open>ldexp\<close>, \<open>modf\<close>) are exact on the arguments
  they get there; \<open>ldexp\<close> keeps its overflow to infinity. None of the calls can underflow.
\<close>

unbundle bit_operations_syntax

section \<open>Doubles\<close>

datatype dbl = NaN | Inf bool | Fin bool nat int

fun dval :: "dbl \<Rightarrow> rat" where
  "dval (Fin s m e) = (if s then - 1 else 1) * (of_nat m * 2 powi e)"
| "dval _ = 0"

fun nat_bits :: "nat \<Rightarrow> nat" where
  "nat_bits n = (if n = 0 then 0 else Suc (nat_bits (n div 2)))"

fun wf_dbl :: "dbl \<Rightarrow> bool" where
  "wf_dbl (Fin s m e) \<longleftrightarrow> m < 2 ^ 53 \<and> -1074 \<le> e \<and> e \<le> 971"
| "wf_dbl _ \<longleftrightarrow> True"

fun isfinite :: "dbl \<Rightarrow> bool" where
  "isfinite (Fin s m e) \<longleftrightarrow> True"
| "isfinite _ \<longleftrightarrow> False"

fun signbit :: "dbl \<Rightarrow> bool" where
  "signbit (Fin s m e) = s"
| "signbit (Inf s) = s"
| "signbit NaN = False"

fun fabs_d :: "dbl \<Rightarrow> dbl" where
  "fabs_d (Fin s m e) = Fin False m e"
| "fabs_d (Inf s) = Inf False"
| "fabs_d NaN = NaN"

text \<open>The integral part and the fraction, both with the argument's sign.\<close>

fun modf_d :: "dbl \<Rightarrow> dbl \<times> dbl" where
  "modf_d (Fin s m e) =
     (if 0 \<le> e then (Fin s m e, Fin s 0 0)
      else (Fin s (m div 2 ^ nat (- e)) 0, Fin s (m mod 2 ^ nat (- e)) e))"
| "modf_d d = (d, d)"

definition trunc_d :: "dbl \<Rightarrow> dbl" where
  "trunc_d d = fst (modf_d d)"

text \<open>\<open>frexp\<close>: the fraction in \<open>[1/2, 1)\<close> and the exponent.\<close>

fun frexp_d :: "dbl \<Rightarrow> dbl \<times> int" where
  "frexp_d (Fin s m e) = (Fin s m (- int (nat_bits m)), e + int (nat_bits m))"
| "frexp_d d = (d, 0)"

fun ldexp_d :: "dbl \<Rightarrow> int \<Rightarrow> dbl" where
  "ldexp_d (Fin s m e) k = (if int (nat_bits m) + e + k > 1024 then Inf s else Fin s m (e + k))"
| "ldexp_d d k = d"

fun to_u64 :: "dbl \<Rightarrow> u64" where
  "to_u64 (Fin s m e) = (if 0 \<le> e then of_nat (m * 2 ^ nat e) else of_nat (m div 2 ^ nat (- e)))"
| "to_u64 _ = 0"

definition of_u64 :: "u64 \<Rightarrow> dbl" where
  "of_u64 v = Fin False (unat v) 0"

fun neg_d :: "dbl \<Rightarrow> dbl" where
  "neg_d (Fin s m e) = Fin (\<not> s) m e"
| "neg_d (Inf s) = Inf (\<not> s)"
| "neg_d NaN = NaN"

section \<open>The conversions\<close>

definition fromDoubleExact :: "dbl \<Rightarrow> bignum option" where
  "fromDoubleExact d =
     (if \<not> isfinite d then None
      else if dval d \<noteq> dval (trunc_d d) then None
      else
        (let negative = (signbit d \<and> dval d \<noteq> 0);
             magnitude = fabs_d d
         in if dval magnitude = 0 then Some bn_zero
            else
              (let (fraction, exponent) = frexp_d magnitude;
                   mantissa = to_u64 (ldexp_d fraction 53);
                   shift = exponent - 53;
                   out = fromUint64 mantissa;
                   out_mag = (if shift > 0 then shiftLeftBits (mag out) (nat shift)
                              else if shift < 0 then fst (shiftRightBits (mag out) (nat (- shift)))
                              else mag out)
               in Some (trim \<lparr>neg = negative, mag = out_mag\<rparr>))))"

definition kUnordered :: int where
  "kUnordered = 2"

fun compareWithDouble :: "bignum \<Rightarrow> dbl \<Rightarrow> int" where
  "compareWithDouble a NaN = kUnordered"
| "compareWithDouble a (Inf s) = (if \<not> s then -1 else 1)"
| "compareWithDouble a (Fin s m e) =
     (let d = Fin s m e;
          aSign = sign a;
          dSign = (if dval d > 0 then 1 else if dval d < 0 then -1 else 0)
      in if aSign \<noteq> dSign then (if aSign < dSign then -1 else 1)
         else if aSign = 0 then 0
         else
           (let (integral, fraction) = modf_d (fabs_d d)
            in case fromDoubleExact integral of
                 None \<Rightarrow> kUnordered
               | Some truncated \<Rightarrow>
                   (let order = compareMagnitude (mag a) (mag truncated);
                        order' = (if order = 0 \<and> dval fraction \<noteq> 0 then -1 else order)
                    in if aSign < 0 then - order' else order')))"

text \<open>Round to nearest over the top 54 bits of a magnitude of more than 53 bits: mantissa and
  exponent of the result.\<close>

definition round_top :: "limbs \<Rightarrow> u64 \<Rightarrow> u64 \<times> int" where
  "round_top m bits =
     (let drop = bits - 54;
          (upper, sticky) = shiftRightBits m (unat drop);
          value0 = (0 OR (if 1 \<le> length upper then w64 (upper ! 0) else 0))
                     OR (if 2 \<le> length upper then push_bit 32 (w64 (upper ! 1)) else 0);
          roundBit = (value0 AND 1 \<noteq> 0);
          value1 = drop_bit 1 value0;
          exponent = int (unat bits) - 53
      in if roundBit \<and> (sticky \<or> value1 AND 1 \<noteq> 0)
         then (let value2 = value1 + 1
               in if value2 = push_bit 53 1 then (drop_bit 1 value2, exponent + 1) else (value2, exponent))
         else (value1, exponent))"

definition toDouble :: "bignum \<Rightarrow> dbl" where
  "toDouble a =
     (if mag a = [] then Fin False 0 0
      else
        (let bits = bitLength a;
             magnitude =
               (if bits \<le> 53
                then of_u64 (case magnitudeToUint64 a of Some value \<Rightarrow> value | None \<Rightarrow> 0)
                else (let (value, exponent) = round_top (mag a) bits
                      in ldexp_d (of_u64 value) exponent))
         in if neg a then neg_d magnitude else magnitude))"

lemmas nat_bits_unfold [simp del] = nat_bits.simps

lemma nat_bits_0 [simp]: "nat_bits 0 = 0"
  by (simp add: nat_bits_unfold)

section \<open>Integral doubles\<close>

lemma nat_bits_bounds: "n < 2 ^ nat_bits n \<and> (0 < n \<longrightarrow> 2 ^ (nat_bits n - 1) \<le> n)"
proof (induction n rule: nat_bits.induct)
  case (1 n)
  show ?case
  proof (cases "n = 0")
    case False
    have "n div 2 < 2 ^ nat_bits (n div 2)" "0 < n div 2 \<longrightarrow> 2 ^ (nat_bits (n div 2) - 1) \<le> n div 2"
      using 1 False by simp_all
    moreover have "nat_bits n = Suc (nat_bits (n div 2))"
      using False by (simp add: nat_bits_unfold)
    moreover have "0 < n div 2 \<Longrightarrow> 0 < nat_bits (n div 2)"
      by (simp add: nat_bits_unfold)
    ultimately show ?thesis
      using False by (cases "n div 2 = 0"; cases "nat_bits (n div 2)") auto
  qed (simp add: nat_bits_unfold)
qed

lemma nat_bits_le:
  assumes "n < 2 ^ k"
  shows "nat_bits n \<le> k"
proof (rule ccontr)
  assume "\<not> nat_bits n \<le> k"
  then have "0 < n" and "k \<le> nat_bits n - 1"
    by (auto simp: nat_bits_unfold [of 0] intro: gr0I)
  then have "2 ^ k \<le> n"
    using nat_bits_bounds [of n] power_increasing [of k "nat_bits n - 1" "2::nat"] by linarith
  with assms show False
    by simp
qed

lemma dval_fabs: "dval (fabs_d d) = \<bar>dval d\<bar>"
  by (cases d) (simp_all add: abs_mult)

lemma two_powi_neg: "e < 0 \<Longrightarrow> (2::rat) powi e = 1 / 2 ^ nat (- e)"
  by (simp add: power_int_def power_one_over inverse_eq_divide)

lemma two_powi_nonneg: "0 \<le> e \<Longrightarrow> (2::rat) powi e = 2 ^ nat e"
  by (simp add: power_int_def)

text \<open>The parts \<open>modf\<close> splits a nonnegative double into.\<close>

lemma modf_split:
  assumes "modf_d (Fin False m e) = (i, f)"
  shows "dval i + dval f = of_nat m * 2 powi e" and "0 \<le> dval f" and "dval f < 1"
    and "\<exists>k. dval i = rat_of_nat k"
proof -
  show "dval i + dval f = of_nat m * 2 powi e"
  proof (cases "0 \<le> e")
    case False
    define N :: nat where "N = 2 ^ nat (- e)"
    have "rat_of_nat m = rat_of_nat (m div N) * rat_of_nat N + rat_of_nat (m mod N)"
      by (metis div_mult_mod_eq of_nat_add of_nat_mult)
    moreover have "(0::rat) < rat_of_nat N"
      by (simp add: N_def)
    ultimately show ?thesis
      using False assms by (auto simp: two_powi_neg N_def field_simps)
  qed (use assms in auto)
  show "0 \<le> dval f"
    using assms by (auto split: if_splits)
  show "dval f < 1"
    using assms by (auto simp: two_powi_neg divide_less_eq_1 split: if_splits)
  show "\<exists>k. dval i = rat_of_nat k"
  proof (cases "0 \<le> e")
    case True
    then have "dval i = rat_of_nat (m * 2 ^ nat e)"
      using assms by (auto simp: two_powi_nonneg)
    then show ?thesis ..
  qed (use assms in auto)
qed

lemma fabs_integral: "isfinite d \<Longrightarrow> dval d = dval (trunc_d d) \<longleftrightarrow> dval (snd (modf_d (fabs_d d))) = 0"
proof (cases d)
  case (Fin s m e)
  obtain i f where i: "modf_d (Fin False m e) = (i, f)"
    by fastforce
  have "dval (trunc_d d) = (if s then - 1 else 1) * dval i"
    using i Fin by (auto simp: trunc_d_def split: if_splits)
  moreover have "dval d = (if s then - 1 else 1) * (dval i + dval f)"
    unfolding modf_split(1) [OF i] by (simp add: Fin)
  moreover have "snd (modf_d (fabs_d d)) = f"
    using i by (simp only: Fin fabs_d.simps snd_conv)
  ultimately show ?thesis
    by simp
qed simp_all

lemma integral_modf:
  assumes "isfinite d" and "dval d = rat_of_int k"
  shows "dval (snd (modf_d (fabs_d d))) = 0"
proof -
  obtain s m e where d: "d = Fin s m e"
    using assms(1) by (cases d) simp_all
  obtain i f where modf: "modf_d (Fin False m e) = (i, f)"
    by fastforce
  note parts = modf_split [OF modf]
  obtain n where "dval i = rat_of_nat n"
    using parts(4) ..
  then have "dval f = rat_of_int (\<bar>k\<bar> - int n)"
    using parts(1) assms(2) dval_fabs [of d] by (simp add: d)
  moreover from this have "\<bar>k\<bar> - int n = 0"
    using parts(2,3) by simp
  ultimately show ?thesis
    using modf by (simp only: d fabs_d.simps snd_conv of_int_0)
qed

lemma unat_of_nat_u64: "n < 2 ^ 64 \<Longrightarrow> unat (of_nat n :: u64) = n"
  by (simp add: unat_of_nat take_bit_eq_mod)

lemma mantissa_shift:
  assumes "0 < m" and "m < 2 ^ 53"
  defines "L \<equiv> nat_bits m"
  shows "to_u64 (ldexp_d (Fin False m (- int L)) 53) = of_nat (m * 2 ^ (53 - L))"
    and "unat (of_nat (m * 2 ^ (53 - L)) :: u64) = m * 2 ^ (53 - L)" and "L \<le> 53"
proof -
  show "L \<le> 53"
    unfolding L_def using assms(2) by (rule nat_bits_le)
  moreover have "m < 2 ^ L"
    using nat_bits_bounds [of m] by (simp add: L_def)
  ultimately have "m * 2 ^ (53 - L) < 2 ^ L * 2 ^ (53 - L)"
    by simp
  also have "\<dots> = 2 ^ 53"
    using \<open>L \<le> 53\<close> by (simp flip: power_add)
  finally have "m * 2 ^ (53 - L) < 2 ^ 64"
    by simp
  then show "unat (of_nat (m * 2 ^ (53 - L)) :: u64) = m * 2 ^ (53 - L)"
    by (rule unat_of_nat_u64)
  show "to_u64 (ldexp_d (Fin False m (- int L)) 53) = of_nat (m * 2 ^ (53 - L))"
    using \<open>L \<le> 53\<close> by (simp add: L_def nat_diff_distrib)
qed

lemma rat_div_exact:
  assumes "rat_of_nat M / rat_of_nat N = rat_of_nat k" and "0 < N"
  shows "M div N = k"
proof -
  have "rat_of_nat M = rat_of_nat (k * N)"
    using assms by (simp add: field_simps)
  then have "M = k * N"
    by (simp only: of_nat_eq_iff)
  then show ?thesis
    using assms(2) by simp
qed

text \<open>The magnitude the conversion builds from a positive integral double.\<close>

lemma shifted_mantissa:
  assumes "0 < m" and "m < 2 ^ 53" and val: "of_nat m * 2 powi e = rat_of_nat k"
  defines "L \<equiv> nat_bits m" and "M \<equiv> m * 2 ^ (53 - nat_bits m)"
  defines "sh \<equiv> e + int (nat_bits m) - 53"
  shows "(if sh > 0 then M * 2 ^ nat sh else if sh < 0 then M div 2 ^ nat (- sh) else M) = k"
proof -
  have "L \<le> 53"
    unfolding L_def using assms(2) by (rule nat_bits_le)
  have "rat_of_nat M * 2 powi sh = of_nat m * (2 powi int (53 - L) * 2 powi sh)"
    by (simp add: M_def L_def)
  also have "\<dots> = of_nat m * 2 powi e"
    using \<open>L \<le> 53\<close> by (subst power_int_add [symmetric]) (simp_all add: sh_def L_def)
  finally have eq: "rat_of_nat M * 2 powi sh = rat_of_nat k"
    by (simp add: val)
  show ?thesis
  proof (cases "sh < 0")
    case True
    then have "rat_of_nat M / rat_of_nat (2 ^ nat (- sh)) = rat_of_nat k"
      using eq by (simp add: two_powi_neg)
    then have "M div 2 ^ nat (- sh) = k"
      by (rule rat_div_exact) simp
    then show ?thesis
      using True by simp
  next
    case False
    then have "rat_of_nat (M * 2 ^ nat sh) = rat_of_nat k"
      using eq by (simp add: two_powi_nonneg)
    then have "M * 2 ^ nat sh = k"
      by (simp only: of_nat_eq_iff)
    then show ?thesis
      using False by auto
  qed
qed

lemma fromDoubleExact_spec:
  assumes "wf_dbl d"
  shows "case fromDoubleExact d of
           None \<Rightarrow> \<not> isfinite d \<or> dval (snd (modf_d (fabs_d d))) \<noteq> 0
         | Some a \<Rightarrow> isfinite d \<and> bn_wf a \<and> rat_of_int (bn_val a) = dval d"
proof (cases "isfinite d \<and> dval d = dval (trunc_d d)")
  case False
  then show ?thesis
    using fabs_integral [of d] by (auto simp: fromDoubleExact_def)
next
  case True
  then obtain s m e where d: "d = Fin s m e"
    by (cases d) simp_all
  show ?thesis
  proof (cases "m = 0")
    case True
    then show ?thesis
      using \<open>isfinite d \<and> dval d = dval (trunc_d d)\<close> by (simp add: fromDoubleExact_def d)
  next
    case False
    have "m < 2 ^ 53"
      using assms by (simp add: d)
    obtain i f where modf: "modf_d (Fin False m e) = (i, f)"
      by fastforce
    then have "dval f = 0"
      using True fabs_integral [of d] by (simp add: d)
    then obtain k where k: "of_nat m * 2 powi e = rat_of_nat k"
      using modf_split [OF modf] by auto
    define sh where "sh = e + int (nat_bits m) - 53"
    define M where "M = m * 2 ^ (53 - nat_bits m)"
    define out where "out = mag (fromUint64 (of_nat M))"
    have out: "mag_val out = M"
      using mantissa_shift(2) [of m] False \<open>m < 2 ^ 53\<close> by (simp add: out_def M_def mag_val_fromUint64)
    define out' where "out' = (if sh > 0 then shiftLeftBits out (nat sh)
        else if sh < 0 then fst (shiftRightBits out (nat (- sh))) else out)"
    have "mag_val out' = k"
      using shifted_mantissa [OF _ \<open>m < 2 ^ 53\<close> k] False by (auto simp: out'_def out M_def sh_def)
    moreover have "fromDoubleExact d = Some (trim \<lparr>neg = s, mag = out'\<rparr>)"
    proof -
      have "dval d \<noteq> 0" "dval (fabs_d d) \<noteq> 0"
        using False by (simp_all add: d)
      moreover have "signbit d = s" "frexp_d (fabs_d d) = (Fin False m (- int (nat_bits m)), e + int (nat_bits m))"
        by (simp_all add: d)
      moreover have "to_u64 (ldexp_d (Fin False m (- int (nat_bits m))) 53) = of_nat M"
        unfolding M_def using False \<open>m < 2 ^ 53\<close> by (intro mantissa_shift(1)) simp_all
      ultimately show ?thesis
        using True unfolding fromDoubleExact_def
        by (simp only: Let_def prod.case simp_thms if_True if_False out'_def out_def sh_def)
    qed
    ultimately show ?thesis
      using k by (simp add: d)
  qed
qed

section \<open>Comparison\<close>

definition order_rat :: "rat \<Rightarrow> rat \<Rightarrow> int" where
  "order_rat x y = (if x < y then -1 else if x = y then 0 else 1)"

lemma magnitude_order:
  assumes "normalized xs" and "normalized ys" and "rat_of_nat (mag_val ys) + f = y" and "0 \<le> f" and "f < 1"
  defines "order \<equiv> compareMagnitude xs ys"
  shows "(if order = 0 \<and> f \<noteq> 0 then -1 else order) = order_rat (rat_of_nat (mag_val xs)) y"
proof -
  have order: "order = order_of (int (mag_val xs)) (int (mag_val ys))"
    unfolding order_def by (rule compareMagnitude_eq [OF assms(1,2)])
  consider "mag_val xs < mag_val ys" | "mag_val xs = mag_val ys" | "mag_val ys + 1 \<le> mag_val xs"
    by linarith
  then show ?thesis
  proof cases
    case 1
    then have "rat_of_nat (mag_val xs) < rat_of_nat (mag_val ys)"
      by simp
    then have "rat_of_nat (mag_val xs) < y"
      using assms(3,4) by linarith
    then show ?thesis
      using 1 by (simp add: order order_of_def order_rat_def)
  next
    case 2
    then show ?thesis
      using assms(3,4) by (auto simp: order order_of_def order_rat_def)
  next
    case 3
    then have "rat_of_nat (mag_val ys) + 1 \<le> rat_of_nat (mag_val xs)"
      by (metis of_nat_1 of_nat_add of_nat_le_iff)
    then have "y < rat_of_nat (mag_val xs)"
      using assms(3,5) by linarith
    then show ?thesis
      using 3 by (simp add: order order_of_def order_rat_def)
  qed
qed

lemma compare_Fin:
  assumes "bn_wf a" and "wf_dbl (Fin s m e)"
  shows "compareWithDouble a (Fin s m e) = order_rat (of_int (bn_val a)) (dval (Fin s m e))"
proof -
  define d where "d = Fin s m e"
  define x where "x = rat_of_int (bn_val a)"
  have sign: "sign a = (if x > 0 then 1 else if x < 0 then -1 else 0)"
    using sign_eq [OF assms(1)] by (simp add: x_def sgn_if)
  define dSign :: int where "dSign = (if dval d > 0 then 1 else if dval d < 0 then -1 else 0)"
  obtain i f where modf: "modf_d (Fin False m e) = (i, f)"
    by fastforce
  have unfold: "compareWithDouble a d =
      (if sign a \<noteq> dSign then (if sign a < dSign then -1 else 1)
       else if sign a = 0 then 0
       else case fromDoubleExact i of None \<Rightarrow> kUnordered
         | Some t \<Rightarrow> (let order = compareMagnitude (mag a) (mag t);
                           order' = (if order = 0 \<and> dval f \<noteq> 0 then -1 else order)
                       in if sign a < 0 then - order' else order'))"
    using modf unfolding d_def compareWithDouble.simps
    by (simp only: Let_def fabs_d.simps prod.case dSign_def d_def)
  show ?thesis
  proof (cases "sign a = dSign \<and> sign a \<noteq> 0")
    case False
    then show ?thesis
      unfolding d_def [symmetric] x_def [symmetric] unfold
      by (auto simp: sign dSign_def order_rat_def split: if_splits)
  next
    case True
    have abs_d: "\<bar>dval d\<bar> = of_nat m * 2 powi e"
      by (simp add: d_def abs_mult)
    note parts = modf_split [OF modf]
    have wf_i: "wf_dbl i" "isfinite i" "fabs_d i = i" "dval (snd (modf_d i)) = 0"
      using modf assms(2) by (auto split: if_splits intro: le_less_trans [OF div_le_dividend])
    then obtain t where t: "fromDoubleExact i = Some t" "bn_wf t" "rat_of_int (bn_val t) = dval i"
      using fromDoubleExact_spec [OF wf_i(1)] by (auto split: option.splits)
    have "0 \<le> bn_val t"
      using parts(4) t(3) by (metis of_int_0_le_iff of_nat_0_le_iff)
    then have "rat_of_nat (mag_val (mag t)) = dval i"
      using t(3) abs_bn_val [of t] by (metis abs_of_nonneg of_int_of_nat_eq)
    then have order: "(if compareMagnitude (mag a) (mag t) = 0 \<and> dval f \<noteq> 0 then -1
        else compareMagnitude (mag a) (mag t)) = order_rat (rat_of_nat (mag_val (mag a))) \<bar>dval d\<bar>"
      using parts t(2) assms(1) abs_d by (intro magnitude_order) (simp_all add: bn_wf_magD)
    have abs_x: "rat_of_nat (mag_val (mag a)) = \<bar>x\<bar>"
      using abs_bn_val [of a] unfolding x_def by (metis of_int_abs of_int_of_nat_eq)
    have "compareWithDouble a d = (if sign a < 0 then - order_rat \<bar>x\<bar> \<bar>dval d\<bar> else order_rat \<bar>x\<bar> \<bar>dval d\<bar>)"
      using True unfolding unfold by (simp add: t(1) order abs_x Let_def)
    then show ?thesis
      using True unfolding d_def [symmetric] x_def [symmetric]
      by (auto simp: sign dSign_def order_rat_def split: if_splits)
  qed
qed

section \<open>Rounding\<close>

text \<open>The specification: the nearest multiple of \<open>u\<close>, ties to the even multiple.\<close>

definition round_half_even :: "nat \<Rightarrow> nat \<Rightarrow> nat" where
  "round_half_even x u =
     (let q = x div u; r = x mod u in if 2 * r > u \<or> (2 * r = u \<and> odd q) then q + 1 else q)"

lemma unat_and_1: "(v AND 1 \<noteq> 0) \<longleftrightarrow> odd (unat (v :: u64))"
proof -
  have "unat (v AND 1) = unat v mod 2"
    by (subst unsigned_and_eq) (simp add: and_one_eq)
  then show ?thesis
    by (simp add: word_zero_iff_unat odd_iff_mod_2_eq_one)
qed

lemma unat_drop_bit_half: "unat (drop_bit 1 (v :: u64)) = unat v div 2"
  by (subst unat_drop_bit_eq) (simp add: drop_bit_eq_div)

lemma two_limbs:
  assumes "normalized ts" and "2 ^ 53 \<le> mag_val ts" and "mag_val ts < 2 ^ 54"
  shows "unat ((0 OR (if 1 \<le> length ts then w64 (ts ! 0) else 0))
           OR (if 2 \<le> length ts then push_bit 32 (w64 (ts ! 1)) else 0)) = mag_val ts"
proof -
  have "length ts = 2"
  proof -
    have "\<not> 2 < length ts"
      using normalized_length_3 [OF assms(1)] assms(3) by (auto simp: kBase_sq)
    moreover have "\<not> length ts \<le> 1"
    proof
      assume "length ts \<le> 1"
      then have "kBase ^ length ts \<le> kBase ^ 1"
        by (intro power_increasing) simp_all
      then have "mag_val ts < kBase"
        using mag_val_less [of ts] by simp
      then show False
        using assms(2) by (simp add: kBase_def)
    qed
    ultimately show ?thesis
      by linarith
  qed
  then obtain x y where xy: "ts = [x, y]"
    by (auto simp: numeral_2_eq_2 length_Suc_conv)
  then show ?thesis
    using unat_shift_or [of "w64 y" x] by (simp add: or.commute mult.commute)
qed

lemma half_digit_mod:
  fixes x :: nat
  shows "x mod (2 * 2 ^ k) = x div 2 ^ k mod 2 * 2 ^ k + x mod 2 ^ k"
  using mod_mult2_eq [of x "2 ^ k" 2] by (simp add: mult.commute)

lemma round_decision:
  fixes x k :: nat
  defines "t \<equiv> x div 2 ^ k"
  shows "round_half_even x (2 ^ (k + 1)) =
           (if odd t \<and> (x mod 2 ^ k \<noteq> 0 \<or> odd (t div 2)) then t div 2 + 1 else t div 2)"
proof -
  have q: "x div 2 ^ (k + 1) = t div 2"
    by (simp only: t_def div_mult2_eq [symmetric] power_add power_one_right)
  have r: "x mod 2 ^ (k + 1) = t mod 2 * 2 ^ k + x mod 2 ^ k"
    using half_digit_mod [of x k] by (simp add: t_def)
  have lt: "x mod 2 ^ k < 2 ^ k"
    by simp
  show ?thesis
  proof (cases "odd t")
    case True
    then have "x mod 2 ^ (k + 1) = 2 ^ k + x mod 2 ^ k"
      by (simp only: r odd_iff_mod_2_eq_one mult_1)
    then show ?thesis
      unfolding round_half_even_def q Let_def using True by auto
  next
    case False
    then have "x mod 2 ^ (k + 1) = x mod 2 ^ k"
      by (simp only: r even_iff_mod_2_eq_zero mult_zero_left add_0_left simp_thms)
    then have "2 * (x mod 2 ^ (k + 1)) < 2 ^ (k + 1)"
      using lt by simp
    then show ?thesis
      unfolding round_half_even_def q Let_def using False by simp
  qed
qed

lemma round_top_spec:
  assumes "normalized m" and "54 \<le> bitLength_mag m" and "unat bits = bitLength_mag m"
    and "round_top m bits = (v, ex)"
  defines "B \<equiv> bitLength_mag m"
  shows "2 ^ 52 \<le> unat v" and "unat v < 2 ^ 53" and "1 \<le> ex"
    and "unat v * 2 ^ nat ex = round_half_even (mag_val m) (2 ^ (B - 53)) * 2 ^ (B - 53)"
proof -
  define k where "k = B - 54"
  define t where "t = mag_val m div 2 ^ k"
  have B: "B = k + 54"
    using assms(2) by (simp add: k_def B_def)
  have drop: "unat (bits - 54) = k"
    using assms(2,3) by (subst unat_sub) (simp_all add: word_le_nat_alt k_def B_def)
  have "m \<noteq> []"
    using assms(2) by (auto simp: bitLength_mag_def)
  have "2 ^ (k + 53) \<le> mag_val m" "mag_val m < 2 ^ (k + 54)"
    using bitLength_mag_lower [OF assms(1) \<open>m \<noteq> []\<close>] bitLength_mag_upper [of m] B
    by (simp_all add: B_def add.commute)
  then have t: "2 ^ 53 \<le> t" "t < 2 ^ 54"
    unfolding t_def by (simp_all add: less_eq_div_iff_mult_less_eq power_add less_mult_imp_div_less)
  define value0 where "value0 = (0 OR (if 1 \<le> length (fst (shiftRightBits m k)) then w64 (fst (shiftRightBits m k) ! 0) else 0))
      OR (if 2 \<le> length (fst (shiftRightBits m k)) then push_bit 32 (w64 (fst (shiftRightBits m k) ! 1)) else 0)"
  have value0: "unat value0 = t"
    unfolding value0_def using t by (subst two_limbs) (simp_all add: t_def)
  define value1 where "value1 = drop_bit 1 value0"
  have value1: "unat value1 = t div 2"
    by (simp only: value1_def unat_drop_bit_half value0)
  have half: "2 ^ 52 \<le> t div 2" "t div 2 < 2 ^ 53"
    using t by simp_all
  define up where "up \<longleftrightarrow> odd t \<and> (mag_val m mod 2 ^ k \<noteq> 0 \<or> odd (t div 2))"
  have value2: "unat (value1 + 1) = t div 2 + 1"
    using half(2) value1 by (simp add: unat_word_ariths)
  have "round_top m bits =
      (if up then (if value1 + 1 = push_bit 53 1 then (drop_bit 1 (value1 + 1), int B - 53 + 1) else (value1 + 1, int B - 53))
       else (value1, int B - 53))"
    unfolding round_top_def drop Let_def case_prod_beta value0_def [symmetric] value1_def [symmetric]
      shiftRightBits_lost unat_and_1 value0 value1 assms(3) B_def [symmetric] up_def
    by simp
  moreover have "(value1 + 1 = push_bit 53 1) \<longleftrightarrow> t div 2 + 1 = 2 ^ 53"
    unfolding word_unat_eq_iff value2 by simp
  ultimately have result: "(v, ex) = (if up then (if t div 2 + 1 = 2 ^ 53 then (drop_bit 1 (value1 + 1), int B - 53 + 1)
      else (value1 + 1, int B - 53)) else (value1, int B - 53))"
    using assms(4) by simp
  have rhe: "round_half_even (mag_val m) (2 ^ (B - 53)) = (if up then t div 2 + 1 else t div 2)"
    using round_decision [of "mag_val m" k] unfolding up_def t_def B by simp
  have exn: "nat (int B - 53) = B - 53" "1 \<le> int B - 53"
    using B by simp_all
  consider "\<not> up" "v = value1" "ex = int B - 53" | "up" "t div 2 + 1 < 2 ^ 53" "v = value1 + 1" "ex = int B - 53"
    | "up" "t div 2 + 1 = 2 ^ 53" "v = drop_bit 1 (value1 + 1)" "ex = int B - 52"
    using result half(2) by (auto split: if_splits)
  then have "2 ^ 52 \<le> unat v \<and> unat v < 2 ^ 53 \<and> 1 \<le> ex \<and>
      unat v * 2 ^ nat ex = round_half_even (mag_val m) (2 ^ (B - 53)) * 2 ^ (B - 53)"
  proof cases
    case 3
    then have "unat v = 2 ^ 52"
      by (simp only: unat_drop_bit_half value2) simp
    moreover have "nat ex = Suc (B - 53)"
      using 3(4) B by simp
    moreover have "round_half_even (mag_val m) (2 ^ (B - 53)) = 2 ^ 53" "1 \<le> ex"
      using rhe 3 B by simp_all
    ultimately show ?thesis
      by simp
  qed (use half value1 value2 rhe exn in auto)
  then show "2 ^ 52 \<le> unat v" "unat v < 2 ^ 53" "1 \<le> ex"
    "unat v * 2 ^ nat ex = round_half_even (mag_val m) (2 ^ (B - 53)) * 2 ^ (B - 53)"
    by auto
qed

lemma nat_bits_53: "2 ^ 52 \<le> v \<Longrightarrow> v < 2 ^ 53 \<Longrightarrow> nat_bits v = 53"
proof (rule antisym)
  assume "2 ^ 52 \<le> v" "v < 2 ^ 53"
  then show "nat_bits v \<le> 53"
    by (intro nat_bits_le)
  show "53 \<le> nat_bits v"
  proof (rule ccontr)
    assume "\<not> 53 \<le> nat_bits v"
    then have "(2::nat) ^ nat_bits v \<le> 2 ^ 52"
      by (intro power_increasing) simp_all
    with \<open>2 ^ 52 \<le> v\<close> show False
      using nat_bits_bounds [of v] by linarith
  qed
qed

text \<open>The two ways \<open>toDouble\<close> ends for a magnitude of more than 53 bits.\<close>

lemma toDouble_large:
  assumes "bn_wf a" and "53 < bitLength_mag (mag a)" and "bitLength_mag (mag a) < 2 ^ 64"
  defines "B \<equiv> bitLength_mag (mag a)"
  defines "R \<equiv> round_half_even (mag_val (mag a)) (2 ^ (B - 53)) * 2 ^ (B - 53)"
  shows "(if R < 2 ^ 1024
          then \<exists>v ex. toDouble a = Fin (neg a) v ex \<and> v < 2 ^ 53 \<and> 0 \<le> ex \<and> ex \<le> 971 \<and> v * 2 ^ nat ex = R
          else toDouble a = Inf (neg a))"
proof -
  have bits: "unat (bitLength a) = B"
    unfolding B_def using assms(3) by (rule unat_bitLength)
  obtain v ex where rt: "round_top (mag a) (bitLength a) = (v, ex)"
    by fastforce
  have "54 \<le> bitLength_mag (mag a)"
    using assms(2) by simp
  note spec = round_top_spec [OF bn_wf_magD [OF assms(1)] this bits [unfolded B_def] rt, folded B_def, folded R_def]
  have "mag a \<noteq> []"
    using assms(2) by (auto simp: bitLength_mag_def)
  moreover have "\<not> bitLength a \<le> 53"
    using assms(2) by (simp add: word_le_nat_alt bits B_def)
  ultimately have td: "toDouble a = (if neg a then neg_d (ldexp_d (of_u64 v) ex) else ldexp_d (of_u64 v) ex)"
    by (simp add: toDouble_def rt)
  have ld: "ldexp_d (of_u64 v) ex = (if ex > 971 then Inf False else Fin False (unat v) ex)"
    using nat_bits_53 [OF spec(1,2)] by (simp add: of_u64_def)
  show ?thesis
  proof (cases "ex \<le> 971")
    case True
    have "unat v * 2 ^ nat ex < 2 ^ 53 * 2 ^ nat ex"
      using spec(2) by simp
    also have "\<dots> \<le> 2 ^ 1024"
      unfolding power_add [symmetric] using True by (intro power_increasing) simp_all
    finally have "R < 2 ^ 1024"
      by (simp only: spec(4))
    then show ?thesis
      using True spec td ld by auto
  next
    case False
    have "(2::nat) ^ 1024 \<le> 2 ^ 52 * 2 ^ nat ex"
      unfolding power_add [symmetric] using False by (intro power_increasing) simp_all
    also have "\<dots> \<le> unat v * 2 ^ nat ex"
      using spec(1) by simp
    finally have "\<not> R < 2 ^ 1024"
      by (simp only: spec(4) not_less)
    then show ?thesis
      using False td ld by auto
  qed
qed

lemma toDouble_small:
  assumes "bn_wf a" and "bitLength_mag (mag a) \<le> 53"
  shows "\<exists>v. toDouble a = Fin (neg a) v 0 \<and> v < 2 ^ 53 \<and> v = mag_val (mag a)"
proof (cases "mag a = []")
  case True
  then show ?thesis
    using assms(1) by (simp add: toDouble_def bn_wf_def)
next
  case False
  have "(2::nat) ^ bitLength_mag (mag a) \<le> 2 ^ 53"
    using assms(2) by (intro power_increasing) simp_all
  then have lt: "mag_val (mag a) < 2 ^ 53"
    using bitLength_mag_upper [of "mag a"] by linarith
  then obtain w where "magnitudeToUint64 a = Some w" "unat w = mag_val (mag a)"
    using magnitudeToUint64_None [OF bn_wf_magD [OF assms(1)]] magnitudeToUint64_Some [of a]
    by (cases "magnitudeToUint64 a") (auto simp: kBase_sq)
  moreover have "bitLength a \<le> 53"
    using assms(2) unat_bitLength [of a] by (simp add: word_le_nat_alt)
  ultimately show ?thesis
    using False lt by (auto simp: toDouble_def of_u64_def Let_def)
qed

text \<open>No double is nearer to an integer of \<open>B\<close> bits than the nearest multiple of \<open>2 ^ (B - 53)\<close>.\<close>

lemma round_half_even_near: "2 * \<bar>int x - int (round_half_even x u * u)\<bar> \<le> int u" if "0 < u"
proof -
  define q where "q = x div u"
  define r where "r = x mod u"
  have x: "int x = int q * int u + int r"
    unfolding q_def r_def by (metis div_mult_mod_eq of_nat_add of_nat_mult)
  have "r < u"
    using that by (simp add: r_def)
  then show ?thesis
    by (auto simp: round_half_even_def Let_def q_def [symmetric] r_def [symmetric] x algebra_simps)
qed

lemma nearest_multiple:
  fixes j :: int
  assumes "0 < u"
  shows "\<bar>int x - int (round_half_even x u * u)\<bar> \<le> \<bar>int x - j * int u\<bar>"
proof (cases "j = int (round_half_even x u)")
  case False
  define q where "q = int (round_half_even x u)"
  have "int u * 1 \<le> int u * \<bar>q - j\<bar>"
    using False by (intro mult_left_mono) (auto simp: q_def)
  also have "\<dots> = \<bar>q * int u - j * int u\<bar>"
    by (simp add: abs_mult mult.commute flip: left_diff_distrib)
  also have "\<dots> \<le> \<bar>int x - q * int u\<bar> + \<bar>int x - j * int u\<bar>"
    by linarith
  finally show ?thesis
    using round_half_even_near [OF assms, of x] by (simp add: q_def)
qed simp

lemma two_powi_diff: "k \<le> n \<Longrightarrow> (2::rat) ^ k * 2 powi (int n - int k - l) = 2 powi (int n - l)"
proof -
  have "(2::rat) powi int k * 2 powi (int n - int k - l) = 2 powi (int k + (int n - int k - l))"
    by (rule power_int_add [symmetric]) simp
  then show ?thesis
    by simp
qed

lemma double_multiple:
  assumes "m < 2 ^ 53" and "53 < B"
  shows "(\<exists>j. dval (Fin s m e) = of_int (j * 2 ^ (B - 53))) \<or> dval (Fin s m e) < 2 ^ (B - 1)"
proof (cases "int B - 53 \<le> e")
  case True
  define j where "j = (if s then - 1 else 1) * (int m * 2 ^ nat (e - (int B - 53)))"
  have "nat e = nat (e - (int B - 53)) + (B - 53)"
    using True assms(2) by simp
  then have "(2::rat) powi e = 2 ^ nat (e - (int B - 53)) * 2 ^ (B - 53)"
    using True assms(2) by (simp add: two_powi_nonneg flip: power_add)
  then have "dval (Fin s m e) = of_int (j * 2 ^ (B - 53))"
    by (simp add: j_def)
  then show ?thesis
    by blast
next
  case False
  have "rat_of_nat m < 2 ^ 53"
    using assms(1) by (metis of_nat_less_iff of_nat_numeral of_nat_power)
  moreover have "(2::rat) powi e \<le> 2 powi (int B - 54)"
    using False by (intro power_int_increasing) simp_all
  ultimately have "rat_of_nat m * 2 powi e < 2 ^ 53 * 2 powi (int B - 54)"
    by (intro mult_less_le_imp_less) simp_all
  also have "\<dots> = 2 powi (int B - 1)"
    using two_powi_diff [of 53 B 1] assms(2) by simp
  also have "\<dots> = 2 ^ (B - 1)"
    using assms(2) by (simp add: two_powi_nonneg nat_diff_distrib)
  finally have "rat_of_nat m * 2 powi e < 2 ^ (B - 1)" .
  moreover have "dval (Fin s m e) \<le> rat_of_nat m * 2 powi e"
    by simp
  ultimately show ?thesis
    by linarith
qed

lemma nearest_double:
  assumes "m < 2 ^ 53" and "53 < B" and "2 ^ (B - 1) \<le> x"
  defines "R \<equiv> round_half_even x (2 ^ (B - 53)) * 2 ^ (B - 53)"
  shows "\<bar>rat_of_nat x - rat_of_nat R\<bar> \<le> \<bar>rat_of_nat x - dval (Fin s m e)\<bar>"
proof -
  have near: "\<bar>rat_of_nat x - rat_of_nat R\<bar> \<le> \<bar>rat_of_nat x - of_int (j * 2 ^ (B - 53))\<bar>" for j
  proof -
    have "rat_of_int \<bar>int x - int R\<bar> \<le> rat_of_int \<bar>int x - j * int (2 ^ (B - 53))\<bar>"
      unfolding R_def of_int_le_iff by (rule nearest_multiple) simp
    then show ?thesis
      by simp
  qed
  show ?thesis
  proof (cases "\<exists>j. dval (Fin s m e) = of_int (j * 2 ^ (B - 53))")
    case True
    then show ?thesis
      using near by metis
  next
    case False
    then have below: "dval (Fin s m e) < 2 ^ (B - 1)"
      using double_multiple [OF assms(1,2)] by blast
    have "B - 1 = 52 + (B - 53)"
      using assms(2) by simp
    then have "(2::int) ^ (B - 1) = 2 ^ 52 * 2 ^ (B - 53)"
      by (simp only: power_add)
    then have "\<bar>rat_of_nat x - rat_of_nat R\<bar> \<le> \<bar>rat_of_nat x - 2 ^ (B - 1)\<bar>"
      using near [of "2 ^ 52"] by (simp only: of_int_power of_int_numeral flip: \<open>(2::int) ^ (B - 1) = _\<close>)
    moreover have "(2::rat) ^ (B - 1) \<le> rat_of_nat x"
      using assms(3) by (metis of_nat_le_iff of_nat_numeral of_nat_power)
    ultimately show ?thesis
      using below by linarith
  qed
qed

text \<open>The rounded magnitude of a whole object, and what \<open>toDouble\<close> makes of it.\<close>

definition rounded :: "bignum \<Rightarrow> nat" where
  "rounded a =
     (let u = 2 ^ (bitLength_mag (mag a) - 53) in round_half_even (mag_val (mag a)) u * u)"

lemma toDouble_rounded:
  assumes "bn_wf a" and "bitLength_mag (mag a) < 2 ^ 64"
  shows "if rounded a < 2 ^ 1024
         then \<exists>v ex. toDouble a = Fin (neg a) v ex \<and> v < 2 ^ 53 \<and> 0 \<le> ex \<and> ex \<le> 971 \<and> v * 2 ^ nat ex = rounded a
         else toDouble a = Inf (neg a)"
proof (cases "53 < bitLength_mag (mag a)")
  case True
  then show ?thesis
    using toDouble_large [OF assms(1) True assms(2)] by (simp only: rounded_def Let_def)
next
  case False
  then have "rounded a = mag_val (mag a)"
    by (simp add: rounded_def round_half_even_def)
  moreover have "\<exists>v. toDouble a = Fin (neg a) v 0 \<and> v < 2 ^ 53 \<and> v = mag_val (mag a)"
    using False by (intro toDouble_small [OF assms(1)]) simp
  moreover have "(2::nat) ^ 53 \<le> 2 ^ 1024"
    by (intro power_increasing) simp_all
  ultimately show ?thesis
    by auto
qed

lemma rounded_nearest:
  assumes "bn_wf a" and "m < 2 ^ 53"
  shows "\<bar>rat_of_int \<bar>bn_val a\<bar> - rat_of_nat (rounded a)\<bar> \<le> \<bar>rat_of_int \<bar>bn_val a\<bar> - dval (Fin s m e)\<bar>"
proof (cases "53 < bitLength_mag (mag a)")
  case True
  then have "mag a \<noteq> []"
    by (auto simp: bitLength_mag_def)
  then have "2 ^ (bitLength_mag (mag a) - 1) \<le> mag_val (mag a)"
    using assms(1) by (intro bitLength_mag_lower) (simp_all add: bn_wf_def)
  from nearest_double [OF assms(2) True this] show ?thesis
    by (simp only: abs_bn_val rounded_def Let_def of_int_of_nat_eq)
next
  case False
  then have "rounded a = mag_val (mag a)"
    by (simp add: rounded_def round_half_even_def)
  then show ?thesis
    by (simp only: abs_bn_val of_int_of_nat_eq)
qed

section \<open>Properties\<close>

text \<open>C23: \<open>compareWithDouble\<close> compares with no rounding at all: it is the order of the exact
  rational values, \<open>kUnordered\<close> exactly for a NaN, and an infinity is beyond every integer.\<close>

theorem compareWithDouble_exact:
  assumes "bn_wf a" and "wf_dbl d"
  shows "compareWithDouble a d =
           (case d of NaN \<Rightarrow> kUnordered | Inf s \<Rightarrow> (if s then 1 else -1)
            | Fin s m e \<Rightarrow> order_rat (of_int (bn_val a)) (dval d))"
proof (cases d)
  case (Fin s m e)
  then show ?thesis
    using compare_Fin [of a s m e] assms by (simp only: dbl.case)
qed simp_all

theorem compareWithDouble_exact_witness:
  "compareWithDouble (fromUint64 9007199254740993) (Fin False 4503599627370496 1) =
     order_rat 9007199254740993 9007199254740992"
  using compareWithDouble_exact [of "fromUint64 9007199254740993" "Fin False 4503599627370496 1"] by simp

text \<open>\<open>fromDoubleExact\<close> accepts exactly the finite doubles without a fractional part, and the
  object it builds has exactly the double's value.\<close>

theorem fromDoubleExact_exact:
  assumes "wf_dbl d"
  shows "case fromDoubleExact d of
           None \<Rightarrow> \<not> (\<exists>k. isfinite d \<and> dval d = of_int k)
         | Some a \<Rightarrow> isfinite d \<and> bn_wf a \<and> dval d = of_int (bn_val a)"
proof (cases "fromDoubleExact d")
  case None
  have "dval (snd (modf_d (fabs_d d))) = 0" if "dval d = of_int k" "isfinite d" for k
    using integral_modf [OF that(2,1)] .
  then show ?thesis
    using fromDoubleExact_spec [OF assms] None by auto
next
  case (Some a)
  then show ?thesis
    using fromDoubleExact_spec [OF assms] by simp
qed

theorem fromDoubleExact_exact_witness:
  "\<exists>a. fromDoubleExact (Fin True 3 1) = Some a \<and> bn_val a = -6"
proof -
  have val: "dval (Fin True 3 1) = of_int (-6)" and wf: "wf_dbl (Fin True 3 1)" and fin: "isfinite (Fin True 3 1)"
    by simp_all
  note exact = fromDoubleExact_exact [OF wf]
  show ?thesis
  proof (cases "fromDoubleExact (Fin True 3 1)")
    case None
    then show ?thesis
      using exact val fin by (simp only: option.case) blast
  next
    case (Some a)
    then have "rat_of_int (bn_val a) = of_int (-6)"
      using exact val by (simp only: option.case)
    then show ?thesis
      using Some by (simp only: of_int_eq_iff) simp
  qed
qed



end
