(* ===== verification/Type_Lattice.thy ===== *)
theory Type_Lattice
  imports Prelude
begin

text \<open>
  The inference lattice of \<open>src/src/types/type.{h,cpp}\<close>: a kind, a 32-bit payload read according to
  the kind, and the two bits that grade an object identity. \<open>wf_type\<close> is what the named
  constructors build. \<open>gamma\<close> says which JavaScript values a type stands for: the value sets the
  comments of the header describe, with a guessed object identity (\<open>identityOnly\<close>, not
  \<open>builtHere\<close>) claiming no more than that the value is an object, because consumers check the
  class with a shape guard. The locale \<open>sound_join\<close> is the contract a merge of control-flow edges
  relies on.
\<close>

section \<open>Definitions\<close>

datatype TypeKind =
  KNever | KNumber | KBool | KString | KUndefined | KNull | KObject | KFunction | KTypedArray | KArray | KDynamic

datatype TypedArrayElem =
  Int8 | Uint8 | Uint8Clamped | Int16 | Uint16 | Int32 | Uint32 | Float32 | Float64

fun elem_code :: "TypedArrayElem \<Rightarrow> u32" where
  "elem_code Int8 = 0"
| "elem_code Uint8 = 1"
| "elem_code Uint8Clamped = 2"
| "elem_code Int16 = 3"
| "elem_code Uint16 = 4"
| "elem_code Int32 = 5"
| "elem_code Uint32 = 6"
| "elem_code Float32 = 7"
| "elem_code Float64 = 8"

record type =
  kind :: TypeKind
  payload :: u32
  identityOnly :: bool
  builtHere_bit :: bool

abbreviation kNoPayload :: u32 where "kNoPayload \<equiv> 0xFFFFFFFF"
abbreviation kNoShapeClass :: u32 where "kNoShapeClass \<equiv> 0xFFFFFFFF"
abbreviation kNoFunctionIndex :: u32 where "kNoFunctionIndex \<equiv> 0xFFFFFFFF"
abbreviation kNoTypedArrayElem :: u32 where "kNoTypedArrayElem \<equiv> 0xFFFFFFFF"
abbreviation kClosureReturnsNever :: u32 where "kClosureReturnsNever \<equiv> 0xFFFFFFFD"
abbreviation kClosureReturnsNumber :: u32 where "kClosureReturnsNumber \<equiv> 0xFFFFFFFE"
abbreviation kPinnedElements :: u32 where "kPinnedElements \<equiv> 1"
abbreviation kArrayElemNever :: u32 where "kArrayElemNever \<equiv> 2"
abbreviation kArrayElemClassTag :: u32 where "kArrayElemClassTag \<equiv> 0x80000000"
abbreviation kDynamicNumOrUndef :: u32 where "kDynamicNumOrUndef \<equiv> 1"

definition mk_type :: "TypeKind \<Rightarrow> u32 \<Rightarrow> type" where
  "mk_type k p = \<lparr>kind = k, payload = p, identityOnly = False, builtHere_bit = True\<rparr>"

definition ty_never :: type where "ty_never = mk_type KNever kNoPayload"
definition ty_number :: type where "ty_number = mk_type KNumber kNoPayload"
definition ty_boolean :: type where "ty_boolean = mk_type KBool kNoPayload"
definition ty_string :: type where "ty_string = mk_type KString kNoPayload"
definition ty_undefined :: type where "ty_undefined = mk_type KUndefined kNoPayload"
definition ty_null :: type where "ty_null = mk_type KNull kNoPayload"
definition ty_dynamic :: type where "ty_dynamic = mk_type KDynamic kNoPayload"
definition ty_object :: "u32 \<Rightarrow> type" where "ty_object cls = mk_type KObject cls"

definition objectIdentityOnly :: "u32 \<Rightarrow> type" where
  "objectIdentityOnly cls =
     (if cls = kNoShapeClass then mk_type KObject cls
      else \<lparr>kind = KObject, payload = cls, identityOnly = True, builtHere_bit = False\<rparr>)"

definition objectNotBuiltHere :: "u32 \<Rightarrow> type" where
  "objectNotBuiltHere cls =
     (if cls = kNoShapeClass then mk_type KObject cls
      else \<lparr>kind = KObject, payload = cls, identityOnly = False, builtHere_bit = False\<rparr>)"

definition ty_function :: "u32 \<Rightarrow> type" where "ty_function index = mk_type KFunction index"
definition functionReturningNever :: type where
  "functionReturningNever = mk_type KFunction kClosureReturnsNever"
definition functionReturningNumber :: type where
  "functionReturningNumber = mk_type KFunction kClosureReturnsNumber"
definition typedArray :: "TypedArrayElem \<Rightarrow> type" where
  "typedArray elem = mk_type KTypedArray (elem_code elem)"
definition typedArray_any :: type where "typedArray_any = mk_type KTypedArray kNoPayload"
definition ty_array :: type where "ty_array = mk_type KArray kNoPayload"
definition arrayOfNever :: type where "arrayOfNever = mk_type KArray kArrayElemNever"

definition arrayOfObject :: "u32 \<Rightarrow> type" where
  "arrayOfObject cls =
     (if cls = kNoShapeClass then mk_type KArray kNoPayload
      else mk_type KArray (or kArrayElemClassTag cls))"

definition arrayPinnedF64 :: type where "arrayPinnedF64 = mk_type KArray kPinnedElements"
definition dynamicNumOrUndef :: type where "dynamicNumOrUndef = mk_type KDynamic kDynamicNumOrUndef"

abbreviation is_kind :: "type \<Rightarrow> TypeKind \<Rightarrow> bool" where
  "is_kind t k \<equiv> kind t = k"

definition shapeClass :: "type \<Rightarrow> u32" where
  "shapeClass t = (if kind t = KObject then payload t else kNoShapeClass)"

definition builtHere :: "type \<Rightarrow> bool" where
  "builtHere t \<longleftrightarrow> kind t = KObject \<and> builtHere_bit t"

definition functionIndex :: "type \<Rightarrow> u32" where
  "functionIndex t =
     (if kind t = KFunction \<and> payload t < kClosureReturnsNever then payload t else kNoFunctionIndex)"

definition functionReturnsNever :: "type \<Rightarrow> bool" where
  "functionReturnsNever t \<longleftrightarrow> kind t = KFunction \<and> payload t = kClosureReturnsNever"

definition functionReturnsNumber :: "type \<Rightarrow> bool" where
  "functionReturnsNumber t \<longleftrightarrow> kind t = KFunction \<and> payload t = kClosureReturnsNumber"

definition typedArrayElemRaw :: "type \<Rightarrow> u32" where
  "typedArrayElemRaw t = (if kind t = KTypedArray then payload t else kNoTypedArrayElem)"

definition arrayElementsPinned :: "type \<Rightarrow> bool" where
  "arrayElementsPinned t \<longleftrightarrow> kind t = KArray \<and> payload t = kPinnedElements"

definition arrayElementsUndecided :: "type \<Rightarrow> bool" where
  "arrayElementsUndecided t \<longleftrightarrow> kind t = KArray \<and> payload t = kArrayElemNever"

definition arrayElemClass :: "type \<Rightarrow> u32" where
  "arrayElemClass t =
     (if kind t = KArray \<and> payload t \<noteq> kNoPayload \<and> and (payload t) kArrayElemClassTag \<noteq> 0
      then and (payload t) (not kArrayElemClassTag) else kNoShapeClass)"

definition isDynamicNumOrUndef :: "type \<Rightarrow> bool" where
  "isDynamicNumOrUndef t \<longleftrightarrow> kind t = KDynamic \<and> payload t = kDynamicNumOrUndef"

fun kind_code :: "TypeKind \<Rightarrow> u64" where
  "kind_code KNever = 0"
| "kind_code KNumber = 1"
| "kind_code KBool = 2"
| "kind_code KString = 3"
| "kind_code KUndefined = 4"
| "kind_code KNull = 5"
| "kind_code KObject = 6"
| "kind_code KFunction = 7"
| "kind_code KTypedArray = 8"
| "kind_code KArray = 9"
| "kind_code KDynamic = 10"

definition bitsForOrdering :: "type \<Rightarrow> u64" where
  "bitsForOrdering t =
     or (or (or (push_bit 40 (kind_code (kind t))) (push_bit 8 (w64 (payload t))))
            (if identityOnly t then 2 else 0))
        (if builtHere_bit t then 1 else 0)"

fun typeKindName :: "TypeKind \<Rightarrow> string" where
  "typeKindName KNever = ''never''"
| "typeKindName KNumber = ''number''"
| "typeKindName KBool = ''bool''"
| "typeKindName KString = ''string''"
| "typeKindName KUndefined = ''undefined''"
| "typeKindName KNull = ''null''"
| "typeKindName KObject = ''object''"
| "typeKindName KFunction = ''function''"
| "typeKindName KTypedArray = ''typedarray''"
| "typeKindName KArray = ''array''"
| "typeKindName KDynamic = ''dynamic''"

definition join :: "type \<Rightarrow> type \<Rightarrow> type" where
  "join a b =
     (if a = b then a
      else if is_kind a KNever then b
      else if is_kind b KNever then a
      else if isDynamicNumOrUndef a \<or> isDynamicNumOrUndef b
      then (let aOk = (is_kind a KNumber \<or> is_kind a KUndefined \<or> isDynamicNumOrUndef a);
                bOk = (is_kind b KNumber \<or> is_kind b KUndefined \<or> isDynamicNumOrUndef b)
            in if aOk \<and> bOk then dynamicNumOrUndef else ty_dynamic)
      else if kind a \<noteq> kind b then ty_dynamic
      else case kind a of
        KObject \<Rightarrow>
          if shapeClass a = shapeClass b
          then (if identityOnly a \<or> identityOnly b then objectIdentityOnly (shapeClass a)
                else objectNotBuiltHere (shapeClass a))
          else ty_object kNoShapeClass
      | KFunction \<Rightarrow>
          if functionReturnsNever a then b
          else if functionReturnsNever b then a
          else ty_function kNoFunctionIndex
      | KTypedArray \<Rightarrow> typedArray_any
      | KArray \<Rightarrow>
          if arrayElementsUndecided a then b
          else if arrayElementsUndecided b then a
          else ty_array
      | _ \<Rightarrow> ty_dynamic)"

definition joinParam :: "type \<Rightarrow> type \<Rightarrow> type" where
  "joinParam a b =
     (if a = b then a
      else if is_kind a KNever then b
      else if is_kind b KNever then a
      else
        (let aNumOrUndef = (is_kind a KNumber \<or> is_kind a KUndefined \<or> isDynamicNumOrUndef a);
             bNumOrUndef = (is_kind b KNumber \<or> is_kind b KUndefined \<or> isDynamicNumOrUndef b)
         in if aNumOrUndef \<and> bNumOrUndef then dynamicNumOrUndef else join a b))"

section \<open>Which types there are\<close>

definition wf_type :: "type \<Rightarrow> bool" where
  "wf_type t \<longleftrightarrow>
     (case kind t of
        KObject \<Rightarrow> (if payload t = kNoShapeClass then \<not> identityOnly t \<and> builtHere_bit t
                    else identityOnly t \<longrightarrow> \<not> builtHere_bit t)
      | KFunction \<Rightarrow> \<not> identityOnly t \<and> builtHere_bit t
      | KTypedArray \<Rightarrow> \<not> identityOnly t \<and> builtHere_bit t \<and> (payload t = kNoPayload \<or> payload t \<le> 8)
      | KArray \<Rightarrow> \<not> identityOnly t \<and> builtHere_bit t
      | KDynamic \<Rightarrow> \<not> identityOnly t \<and> builtHere_bit t \<and> (payload t = kNoPayload \<or> payload t = kDynamicNumOrUndef)
      | _ \<Rightarrow> \<not> identityOnly t \<and> builtHere_bit t \<and> payload t = kNoPayload)"

lemmas type_constructors =
  mk_type_def ty_never_def ty_number_def ty_boolean_def ty_string_def ty_undefined_def ty_null_def
  ty_dynamic_def ty_object_def objectIdentityOnly_def objectNotBuiltHere_def ty_function_def
  functionReturningNever_def functionReturningNumber_def typedArray_def typedArray_any_def
  ty_array_def arrayOfNever_def arrayOfObject_def arrayPinnedF64_def dynamicNumOrUndef_def

lemmas type_queries =
  shapeClass_def builtHere_def functionIndex_def functionReturnsNever_def functionReturnsNumber_def
  typedArrayElemRaw_def arrayElementsPinned_def arrayElementsUndecided_def arrayElemClass_def
  isDynamicNumOrUndef_def

lemma elem_code_le: "elem_code e \<le> 8"
  by (cases e) simp_all

lemma wf_constructors [simp]:
  "wf_type ty_never" "wf_type ty_number" "wf_type ty_boolean" "wf_type ty_string" "wf_type ty_undefined"
  "wf_type ty_null" "wf_type ty_dynamic" "wf_type (ty_object c)" "wf_type (objectIdentityOnly c)"
  "wf_type (objectNotBuiltHere c)" "wf_type (ty_function i)" "wf_type functionReturningNever"
  "wf_type functionReturningNumber" "wf_type (typedArray e)" "wf_type typedArray_any" "wf_type ty_array"
  "wf_type arrayOfNever" "wf_type (arrayOfObject c)" "wf_type arrayPinnedF64" "wf_type dynamicNumOrUndef"
  by (simp_all add: wf_type_def type_constructors elem_code_le)

lemma wf_join [simp]: "wf_type a \<Longrightarrow> wf_type b \<Longrightarrow> wf_type (join a b)"
  by (simp add: join_def Let_def split: TypeKind.split)

lemma wf_joinParam [simp]: "wf_type a \<Longrightarrow> wf_type b \<Longrightarrow> wf_type (joinParam a b)"
  by (simp add: joinParam_def Let_def)

section \<open>What a type stands for\<close>

text \<open>JavaScript values as far as the lattice tells them apart: an object knows its class, a function
  the kinds of value it may return, an array its elements.\<close>

datatype jsval =
  JNumber int | JBool bool | JString string | JUndefined | JNull | JBigInt int | JSymbol nat
| JObject u32 | JFunction "TypeKind list" | JTypedArray TypedArrayElem | JArray "jsval list"

fun val_kind :: "jsval \<Rightarrow> TypeKind" where
  "val_kind (JNumber n) = KNumber"
| "val_kind (JBool b) = KBool"
| "val_kind (JString s) = KString"
| "val_kind JUndefined = KUndefined"
| "val_kind JNull = KNull"
| "val_kind (JBigInt i) = KDynamic"
| "val_kind (JSymbol n) = KDynamic"
| "val_kind (JObject c) = KObject"
| "val_kind (JFunction R) = KFunction"
| "val_kind (JTypedArray e) = KTypedArray"
| "val_kind (JArray es) = KArray"

text \<open>\<open>sig i\<close> is the kinds the module function \<open>i\<close> may return.\<close>

fun gamma_payload :: "(u32 \<Rightarrow> TypeKind list) \<Rightarrow> type \<Rightarrow> jsval \<Rightarrow> bool" where
  "gamma_payload sig t (JObject c) \<longleftrightarrow> (payload t \<noteq> kNoShapeClass \<and> builtHere_bit t \<longrightarrow> c = payload t)"
| "gamma_payload sig t (JFunction R) \<longleftrightarrow>
     (if payload t = kNoFunctionIndex then True
      else if payload t = kClosureReturnsNever then R = []
      else if payload t = kClosureReturnsNumber then set R \<subseteq> {KNumber}
      else set R \<subseteq> set (sig (payload t)))"
| "gamma_payload sig t (JTypedArray e) \<longleftrightarrow> (payload t \<noteq> kNoTypedArrayElem \<longrightarrow> elem_code e = payload t)"
| "gamma_payload sig t (JArray es) \<longleftrightarrow>
     (if payload t = kPinnedElements then \<forall>v \<in> set es. val_kind v = KNumber
      else if payload t = kArrayElemNever then es = []
      else if arrayElemClass t \<noteq> kNoShapeClass then \<forall>v \<in> set es. v = JObject (arrayElemClass t)
      else True)"
| "gamma_payload sig t v \<longleftrightarrow> True"

definition gamma :: "(u32 \<Rightarrow> TypeKind list) \<Rightarrow> type \<Rightarrow> jsval \<Rightarrow> bool" where
  "gamma sig t v \<longleftrightarrow>
     (case kind t of
        KNever \<Rightarrow> False
      | KDynamic \<Rightarrow> payload t = kDynamicNumOrUndef \<longrightarrow> val_kind v = KNumber \<or> val_kind v = KUndefined
      | k \<Rightarrow> val_kind v = k \<and> gamma_payload sig t v)"

lemma gamma_simple [simp]:
  "gamma sig ty_never v \<longleftrightarrow> False"
  "gamma sig ty_number v \<longleftrightarrow> val_kind v = KNumber"
  "gamma sig ty_boolean v \<longleftrightarrow> val_kind v = KBool"
  "gamma sig ty_string v \<longleftrightarrow> val_kind v = KString"
  "gamma sig ty_undefined v \<longleftrightarrow> val_kind v = KUndefined"
  "gamma sig ty_null v \<longleftrightarrow> val_kind v = KNull"
  "gamma sig ty_dynamic v \<longleftrightarrow> True"
  "gamma sig dynamicNumOrUndef v \<longleftrightarrow> val_kind v = KNumber \<or> val_kind v = KUndefined"
  "gamma sig (ty_object kNoShapeClass) v \<longleftrightarrow> val_kind v = KObject"
  "gamma sig (ty_function kNoFunctionIndex) v \<longleftrightarrow> val_kind v = KFunction"
  "gamma sig typedArray_any v \<longleftrightarrow> val_kind v = KTypedArray"
  "gamma sig ty_array v \<longleftrightarrow> val_kind v = KArray"
  by (cases v; simp add: gamma_def type_constructors arrayElemClass_def)+

lemma gamma_kind: "gamma sig t v \<Longrightarrow> kind t \<noteq> KDynamic \<Longrightarrow> val_kind v = kind t"
  by (auto simp: gamma_def split: TypeKind.splits)

lemma gamma_num_or_undef:
  "gamma sig t v \<Longrightarrow> kind t = KNumber \<or> kind t = KUndefined \<or> isDynamicNumOrUndef t \<Longrightarrow>
   gamma sig dynamicNumOrUndef v"
  by (auto simp: gamma_def isDynamicNumOrUndef_def type_constructors split: TypeKind.splits)

lemma gamma_empty_array: "gamma sig t v \<Longrightarrow> arrayElementsUndecided t \<Longrightarrow> v = JArray []"
  by (cases v) (auto simp: gamma_def arrayElementsUndecided_def)

lemma gamma_empty_array_any: "kind t = KArray \<Longrightarrow> gamma sig t (JArray [])"
  by (simp add: gamma_def)

lemma gamma_diverging: "gamma sig t v \<Longrightarrow> functionReturnsNever t \<Longrightarrow> v = JFunction []"
  by (cases v) (auto simp: gamma_def functionReturnsNever_def)

lemma gamma_diverging_any: "kind t = KFunction \<Longrightarrow> gamma sig t (JFunction [])"
  by (simp add: gamma_def)

lemma gamma_object_guess:
  "val_kind v = KObject \<Longrightarrow> gamma sig (objectIdentityOnly c) v" "val_kind v = KObject \<Longrightarrow> gamma sig (objectNotBuiltHere c) v"
  by (cases v; auto simp: gamma_def type_constructors)+

section \<open>The joins\<close>

definition num_or_undef :: "type \<Rightarrow> bool" where
  "num_or_undef t \<longleftrightarrow> kind t = KNumber \<or> kind t = KUndefined \<or> isDynamicNumOrUndef t"

lemma wf_plain_eq:
  assumes "wf_type a" and "wf_type b" and "kind a = kind b"
    and "kind a \<notin> {KObject, KFunction, KTypedArray, KArray, KDynamic}"
  shows "a = b"
  using assms by (cases a; cases b; cases "kind a") (auto simp: wf_type_def)

lemma wf_dynamic_cases:
  assumes "wf_type a" and "kind a = KDynamic"
  shows "a = ty_dynamic \<or> a = dynamicNumOrUndef"
  using assms by (cases a) (auto simp: wf_type_def type_constructors)

lemma isDynamicNumOrUndef_iff: "wf_type a \<Longrightarrow> isDynamicNumOrUndef a \<longleftrightarrow> a = dynamicNumOrUndef"
  by (cases a) (auto simp: wf_type_def isDynamicNumOrUndef_def type_constructors)

lemma join_same [simp]: "join a a = a"
  by (simp add: join_def)

lemma join_Never_left: "kind a = KNever \<Longrightarrow> join a b = b"
  by (simp add: join_def)

lemma join_Never_right: "wf_type a \<Longrightarrow> wf_type b \<Longrightarrow> kind b = KNever \<Longrightarrow> join a b = a"
  by (cases "kind a = KNever") (auto simp: join_def dest: wf_plain_eq)

lemma join_kinds_differ:
  "kind a \<noteq> kind b \<Longrightarrow> kind a \<noteq> KNever \<Longrightarrow> kind b \<noteq> KNever \<Longrightarrow>
   join a b = (if (isDynamicNumOrUndef a \<or> isDynamicNumOrUndef b) \<and> num_or_undef a \<and> num_or_undef b
               then dynamicNumOrUndef else ty_dynamic)"
  by (cases "a = b") (simp_all add: join_def num_or_undef_def)

lemma join_Object:
  "kind a = KObject \<Longrightarrow> kind b = KObject \<Longrightarrow> a \<noteq> b \<Longrightarrow>
   join a b = (if payload a = payload b
               then (if identityOnly a \<or> identityOnly b then objectIdentityOnly (payload a)
                     else objectNotBuiltHere (payload a))
               else ty_object kNoShapeClass)"
  by (simp add: join_def isDynamicNumOrUndef_def shapeClass_def)

lemma join_Function:
  "kind a = KFunction \<Longrightarrow> kind b = KFunction \<Longrightarrow> a \<noteq> b \<Longrightarrow>
   join a b = (if payload a = kClosureReturnsNever then b else if payload b = kClosureReturnsNever then a
               else ty_function kNoFunctionIndex)"
  by (simp add: join_def isDynamicNumOrUndef_def functionReturnsNever_def)

lemma join_TypedArray:
  "kind a = KTypedArray \<Longrightarrow> kind b = KTypedArray \<Longrightarrow> a \<noteq> b \<Longrightarrow> join a b = typedArray_any"
  by (simp add: join_def isDynamicNumOrUndef_def)

lemma join_Array:
  "kind a = KArray \<Longrightarrow> kind b = KArray \<Longrightarrow> a \<noteq> b \<Longrightarrow>
   join a b = (if payload a = kArrayElemNever then b else if payload b = kArrayElemNever then a else ty_array)"
  by (simp add: join_def isDynamicNumOrUndef_def arrayElementsUndecided_def)

lemma join_Dynamic:
  "wf_type a \<Longrightarrow> wf_type b \<Longrightarrow> kind a = KDynamic \<Longrightarrow> kind b = KDynamic \<Longrightarrow> a \<noteq> b \<Longrightarrow> join a b = ty_dynamic"
  using wf_dynamic_cases [of a] wf_dynamic_cases [of b]
  by (auto simp: join_def isDynamicNumOrUndef_def type_constructors)

lemma join_cases:
  assumes "wf_type a" and "wf_type b"
  obtains (same) "a = b"
    | (never_left) "kind a = KNever" | (never_right) "kind b = KNever"
    | (differ) "kind a \<noteq> kind b" "kind a \<noteq> KNever" "kind b \<noteq> KNever"
    | (object) "kind a = KObject" "kind b = KObject" "a \<noteq> b"
    | (func) "kind a = KFunction" "kind b = KFunction" "a \<noteq> b"
    | (typed) "kind a = KTypedArray" "kind b = KTypedArray" "a \<noteq> b"
    | (arr) "kind a = KArray" "kind b = KArray" "a \<noteq> b"
    | (dyn) "kind a = KDynamic" "kind b = KDynamic" "a \<noteq> b"
  using wf_plain_eq [OF assms] by (cases "kind a") fastforce+

lemma wf_payload_eq:
  assumes "wf_type a" and "wf_type b" and "kind a = kind b" and "kind a \<noteq> KObject" and "payload a = payload b"
  shows "a = b"
  using assms by (cases a; cases b; cases "kind a") (auto simp: wf_type_def)

lemma join_commute:
  assumes "wf_type a" and "wf_type b"
  shows "join a b = join b a"
  using assms
proof (cases rule: join_cases)
  case func
  then show ?thesis
    using wf_payload_eq [OF assms] by (auto simp: join_Function)
next
  case arr
  then show ?thesis
    using wf_payload_eq [OF assms] by (auto simp: join_Array)
qed (use assms in \<open>auto simp: join_Never_left join_Never_right join_kinds_differ join_Object join_TypedArray join_Dynamic\<close>)

lemma joinParam_eq:
  assumes "wf_type a" and "wf_type b"
  shows "joinParam a b = (if a \<noteq> b \<and> num_or_undef a \<and> num_or_undef b then dynamicNumOrUndef else join a b)"
  using join_Never_left [of a b] join_Never_right [OF assms]
  by (auto simp: joinParam_def num_or_undef_def isDynamicNumOrUndef_def Let_def)

lemma joinParam_commute: "wf_type a \<Longrightarrow> wf_type b \<Longrightarrow> joinParam a b = joinParam b a"
  using join_commute [of a b] by (simp add: joinParam_eq)

lemma join_sound_left:
  assumes "wf_type a" and "wf_type b" and v: "gamma sig a v"
  shows "gamma sig (join a b) v"
  using assms(1,2)
proof (cases rule: join_cases)
  case never_left
  then show ?thesis
    using v by (simp add: gamma_def)
next
  case differ
  then show ?thesis
    using gamma_num_or_undef [OF v] by (auto simp: join_kinds_differ num_or_undef_def)
next
  case object
  then show ?thesis
    using gamma_kind [OF v] by (simp add: join_Object gamma_object_guess)
next
  case func
  then show ?thesis
    using v gamma_kind [OF v] gamma_diverging [OF v] gamma_diverging_any [of b sig]
    by (auto simp: join_Function functionReturnsNever_def)
next
  case arr
  then show ?thesis
    using v gamma_kind [OF v] gamma_empty_array [OF v] gamma_empty_array_any [of b sig]
    by (auto simp: join_Array arrayElementsUndecided_def)
qed (use v gamma_kind [OF v] assms in \<open>auto simp: join_Never_right join_TypedArray join_Dynamic\<close>)

lemma join_sound:
  "wf_type a \<Longrightarrow> wf_type b \<Longrightarrow> gamma sig a v \<or> gamma sig b v \<Longrightarrow> gamma sig (join a b) v"
  using join_sound_left join_commute by metis

lemma joinParam_sound:
  "wf_type a \<Longrightarrow> wf_type b \<Longrightarrow> gamma sig a v \<or> gamma sig b v \<Longrightarrow> gamma sig (joinParam a b) v"
  using join_sound [of a b sig v] gamma_num_or_undef [of sig a v] gamma_num_or_undef [of sig b v]
  by (auto simp: joinParam_eq num_or_undef_def)

text \<open>How far a type is from the bottom; no chain of joins is longer than five steps.\<close>

definition rank :: "type \<Rightarrow> nat" where
  "rank t =
     (case kind t of
        KNever \<Rightarrow> 0
      | KObject \<Rightarrow> (if payload t = kNoShapeClass then 4 else if identityOnly t then 3
                    else if \<not> builtHere_bit t then 2 else 1)
      | KFunction \<Rightarrow> (if payload t = kNoFunctionIndex then 3 else if payload t = kClosureReturnsNever then 1 else 2)
      | KTypedArray \<Rightarrow> (if payload t = kNoTypedArrayElem then 2 else 1)
      | KArray \<Rightarrow> (if payload t = kNoPayload then 3 else if payload t = kArrayElemNever then 1 else 2)
      | KDynamic \<Rightarrow> (if payload t = kDynamicNumOrUndef then 2 else 5)
      | _ \<Rightarrow> 1)"

lemma rank_le: "rank t \<le> 5"
  by (simp add: rank_def split: TypeKind.split)

lemma rank_top: "rank ty_dynamic = 5" "rank dynamicNumOrUndef = 2" "rank (ty_object kNoShapeClass) = 4"
    "rank (ty_function kNoFunctionIndex) = 3" "rank typedArray_any = 2" "rank ty_array = 3"
    "kind t = KNever \<Longrightarrow> rank t = 0"
  by (simp_all add: rank_def type_constructors)

lemma rank_pos: "kind t \<noteq> KNever \<Longrightarrow> 0 < rank t"
  by (simp add: rank_def split: TypeKind.split)

lemma rank_below_dynamic:
  assumes "wf_type a" and "a \<noteq> ty_dynamic"
  shows "rank a < 5"
  using assms by (cases a; cases "kind a") (auto simp: rank_def wf_type_def type_constructors)

lemma rank_num_or_undef:
  assumes "wf_type a" and "num_or_undef a" and "a \<noteq> dynamicNumOrUndef"
  shows "rank a = 1"
  using assms isDynamicNumOrUndef_iff [of a] by (auto simp: num_or_undef_def rank_def)

lemma join_Object_rank:
  assumes "wf_type a" and "wf_type b" and "kind a = KObject" and "kind b = KObject" and "a \<noteq> b" and "join a b \<noteq> a"
  shows "rank a < rank (join a b)"
  using assms
  by (cases a; cases b) (auto simp: join_Object rank_def wf_type_def type_constructors split: if_splits)

lemma join_rank:
  assumes "wf_type a" and "wf_type b" and "join a b \<noteq> a"
  shows "rank a < rank (join a b)"
  using assms(1,2)
proof (cases rule: join_cases)
  case never_left
  then show ?thesis
    using assms(3) wf_plain_eq [OF assms(1,2)] rank_pos [of b] by (force simp: join_Never_left rank_top)
next
  case differ
  then show ?thesis
    using assms rank_below_dynamic [OF assms(1)] rank_num_or_undef [OF assms(1)]
    by (auto simp: join_kinds_differ rank_top)
next
  case object
  then show ?thesis
    using assms by (intro join_Object_rank)
next
  case func
  have "a = ty_function kNoFunctionIndex" if "payload a = kNoFunctionIndex"
    using that func by (intro wf_payload_eq [OF assms(1) wf_constructors(11)]) (simp_all add: ty_function_def mk_type_def)
  moreover have "rank a < 3" if "payload a \<noteq> kNoFunctionIndex"
    using that func by (simp add: rank_def)
  moreover have "rank a < rank b" if "payload a = kClosureReturnsNever"
    using that func wf_payload_eq [OF assms(1,2)] by (auto simp: rank_def)
  ultimately show ?thesis
    using assms(3) func by (auto simp: join_Function rank_top split: if_splits)
next
  case typed
  have "a = typedArray_any" if "payload a = kNoPayload"
    using that typed by (intro wf_payload_eq [OF assms(1) wf_constructors(15)]) (simp_all add: typedArray_any_def mk_type_def)
  moreover have "rank a < 2" if "payload a \<noteq> kNoPayload"
    using that typed by (simp add: rank_def)
  ultimately show ?thesis
    using assms(3) typed by (auto simp: join_TypedArray rank_top)
next
  case arr
  have "a = ty_array" if "payload a = kNoPayload"
    using that arr by (intro wf_payload_eq [OF assms(1) wf_constructors(16)]) (simp_all add: ty_array_def mk_type_def)
  moreover have "rank a < 3" if "payload a \<noteq> kNoPayload"
    using that arr by (simp add: rank_def)
  moreover have "rank a < rank b" if "payload a = kArrayElemNever"
    using that arr wf_payload_eq [OF assms(1,2)] by (auto simp: rank_def)
  ultimately show ?thesis
    using assms(3) arr by (auto simp: join_Array rank_top split: if_splits)
next
  case dyn
  then show ?thesis
    using assms rank_below_dynamic [OF assms(1)] by (simp add: join_Dynamic rank_top)
qed (use assms in \<open>auto simp: join_Never_right\<close>)

lemma joinParam_rank:
  assumes "wf_type a" and "wf_type b" and "joinParam a b \<noteq> a"
  shows "rank a < rank (joinParam a b)"
  using assms join_rank [OF assms(1,2)] rank_num_or_undef [OF assms(1)]
  by (auto simp: joinParam_eq rank_top split: if_splits)

section \<open>Order of merging\<close>

text \<open>Below \<open>Dynamic\<close> the lattice is a disjoint sum of families: the kinds, with the numeric family
  \<open>Number\<close>, \<open>Undefined\<close> and \<open>Number | undefined\<close> as one. \<open>joinParam\<close> works within a family and
  goes to \<open>Dynamic\<close> across.\<close>

definition family :: "type \<Rightarrow> TypeKind" where
  "family t = (if num_or_undef t then KNumber else kind t)"

lemma joinParam_same [simp]: "joinParam a a = a"
  by (simp add: joinParam_def)

lemma joinParam_Never: "kind a = KNever \<Longrightarrow> joinParam a b = b"
    "wf_type a \<Longrightarrow> wf_type b \<Longrightarrow> kind b = KNever \<Longrightarrow> joinParam a b = a"
proof -
  show "kind a = KNever \<Longrightarrow> joinParam a b = b"
    by (simp add: joinParam_def)
  show "wf_type a \<Longrightarrow> wf_type b \<Longrightarrow> kind b = KNever \<Longrightarrow> joinParam a b = a"
    by (cases "kind a = KNever") (auto simp: joinParam_def dest: wf_plain_eq)
qed

lemma num_or_undef_simps [simp]: "num_or_undef dynamicNumOrUndef" "\<not> num_or_undef ty_dynamic"
  by (simp_all add: num_or_undef_def isDynamicNumOrUndef_def type_constructors)

lemma kind_simps [simp]: "kind ty_dynamic = KDynamic" "kind dynamicNumOrUndef = KDynamic"
    "kind (ty_object c) = KObject" "kind (ty_function i) = KFunction" "kind typedArray_any = KTypedArray"
    "kind ty_array = KArray" "kind (objectIdentityOnly c) = KObject" "kind (objectNotBuiltHere c) = KObject"
  by (simp_all add: type_constructors)

lemma family_simps [simp]: "family ty_dynamic = KDynamic" "family dynamicNumOrUndef = KNumber"
  by (simp_all add: family_def)

lemma family_Never: "family t = KNever \<longleftrightarrow> kind t = KNever"
  by (auto simp: family_def num_or_undef_def isDynamicNumOrUndef_def)

lemma family_Number: "family t = KNumber \<longleftrightarrow> num_or_undef t"
  by (auto simp: family_def num_or_undef_def)

lemma family_kind: "\<not> num_or_undef t \<Longrightarrow> family t = kind t"
  by (simp add: family_def)

lemma family_plain: "kind t \<notin> {KNumber, KUndefined, KDynamic} \<Longrightarrow> family t = kind t"
  by (simp add: family_def num_or_undef_def isDynamicNumOrUndef_def)

lemma joinParam_families_differ:
  assumes "wf_type a" and "wf_type b" and "family a \<noteq> family b" and "kind a \<noteq> KNever" and "kind b \<noteq> KNever"
  shows "joinParam a b = ty_dynamic"
proof -
  have "\<not> (num_or_undef a \<and> num_or_undef b)"
    using assms(3) by (auto simp: family_def)
  moreover have "join a b = ty_dynamic"
  proof (cases "kind a = kind b")
    case True
    then have "kind a = KDynamic"
      using assms(3) by (auto simp: family_def num_or_undef_def isDynamicNumOrUndef_def split: if_splits)
    then show ?thesis
      using True assms by (intro join_Dynamic) auto
  next
    case False
    then show ?thesis
      using assms \<open>\<not> (num_or_undef a \<and> num_or_undef b)\<close> by (auto simp: join_kinds_differ)
  qed
  ultimately show ?thesis
    using assms by (auto simp: joinParam_eq)
qed

lemma joinParam_dynamic [simp]: "wf_type b \<Longrightarrow> joinParam ty_dynamic b = ty_dynamic"
proof (cases "kind b = KNever \<or> family b = KDynamic")
  case True
  assume "wf_type b"
  then show ?thesis
    using True wf_dynamic_cases [of b] joinParam_Never(2) [of ty_dynamic b]
    by (auto simp: family_def split: if_splits)
next
  case False
  assume "wf_type b"
  then show ?thesis
    using False by (intro joinParam_families_differ) auto
qed

lemma joinParam_family:
  assumes "wf_type a" and "wf_type b" and "family a = family b" and "kind a \<noteq> KNever"
  shows "family (joinParam a b) = family a"
proof (cases "a = b \<or> num_or_undef a")
  case True
  then show ?thesis
    using assms family_Number [of a] family_Number [of b] by (cases "a = b") (simp_all add: joinParam_eq)
next
  case False
  then have kinds: "kind a = kind b" "kind a \<notin> {KNumber, KUndefined}" "\<not> num_or_undef b"
    using assms(3) by (auto simp: family_def num_or_undef_def split: if_splits)
  have "family (join a b) = family a"
    using assms(1,2)
  proof (cases rule: join_cases)
    case dyn
    then show ?thesis
      using False kinds wf_dynamic_cases [OF assms(1)] wf_dynamic_cases [OF assms(2)] by auto
  qed (use assms False kinds in \<open>auto simp: join_Object join_Function join_TypedArray join_Array family_plain\<close>)
  then show ?thesis
    using False kinds assms by (simp add: joinParam_eq)
qed

text \<open>The object family, graded by how well the identity is known.\<close>

definition grade :: "type \<Rightarrow> nat" where
  "grade t = (if identityOnly t then 2 else if builtHere_bit t then 0 else 1)"

definition mk_object :: "u32 \<Rightarrow> nat \<Rightarrow> type" where
  "mk_object p g =
     (if p = kNoShapeClass \<or> g = 0 then mk_type KObject p
      else if g = 1 then objectNotBuiltHere p else objectIdentityOnly p)"

lemma mk_object_simps [simp]:
  "kind (mk_object p g) = KObject" "payload (mk_object p g) = p"
  "p \<noteq> kNoShapeClass \<Longrightarrow> g \<le> 2 \<Longrightarrow> grade (mk_object p g) = g"
  by (auto simp: mk_object_def type_constructors grade_def)

lemma grade_le: "grade t \<le> 2"
  by (simp add: grade_def)

lemma wf_mk_object [simp]: "wf_type (mk_object p g)"
  by (auto simp: mk_object_def mk_type_def wf_type_def objectNotBuiltHere_def objectIdentityOnly_def)

lemma mk_object_none: "mk_object kNoShapeClass g = ty_object kNoShapeClass"
  by (simp add: mk_object_def ty_object_def)

lemma wf_object_eq: "wf_type a \<Longrightarrow> kind a = KObject \<Longrightarrow> mk_object (payload a) (grade a) = a"
  by (cases a) (auto simp: wf_type_def mk_object_def grade_def type_constructors split: if_splits)

lemma payload_object [simp]: "payload (ty_object c) = c"
  by (simp add: ty_object_def mk_type_def)

lemma joinParam_Object:
  assumes "wf_type a" and "wf_type b" and "kind a = KObject" and "kind b = KObject"
  shows "joinParam a b = (if payload a = payload b then mk_object (payload a) (max (grade a) (grade b))
                          else mk_object kNoShapeClass 0)"
proof -
  have "joinParam a b = join a b"
    using assms by (simp add: joinParam_eq num_or_undef_def isDynamicNumOrUndef_def)
  also have "\<dots> = (if payload a = payload b then mk_object (payload a) (max (grade a) (grade b))
                          else mk_object kNoShapeClass 0)"
  proof (cases "a = b")
    case True
    then show ?thesis
      using wf_object_eq [OF assms(2,4)] by simp
  next
    case False
    show ?thesis
    proof (cases "payload a = payload b")
      case True
      then have "payload a \<noteq> kNoShapeClass" "grade a \<noteq> grade b"
        using False assms wf_object_eq [OF assms(1,3)] wf_object_eq [OF assms(2,4)] mk_object_none by metis+
      then show ?thesis
        using assms True False grade_le [of a] grade_le [of b]
        by (auto simp: join_Object mk_object_def grade_def max_def split: if_splits)
    qed (use assms False in \<open>simp add: join_Object mk_object_none\<close>)
  qed
  finally show ?thesis .
qed

lemma joinParam_assoc_Object:
  assumes "wf_type a" and "wf_type b" and "wf_type c" and "kind a = KObject" and "kind b = KObject" and "kind c = KObject"
  shows "joinParam (joinParam a b) c = joinParam a (joinParam b c)"
  using assms grade_le [of a] grade_le [of b] grade_le [of c]
  by (cases "payload b = kNoShapeClass") (auto simp: joinParam_Object max.assoc mk_object_none)

text \<open>The families with a bottom and a top and nothing comparable between.\<close>

definition flat_join :: "'a \<Rightarrow> 'a \<Rightarrow> 'a \<Rightarrow> 'a \<Rightarrow> 'a" where
  "flat_join lo hi a b = (if a = b then a else if a = lo then b else if b = lo then a else hi)"

lemma flat_join_assoc:
  "lo \<noteq> hi \<Longrightarrow> flat_join lo hi (flat_join lo hi a b) c = flat_join lo hi a (flat_join lo hi b c)"
  by (auto simp: flat_join_def)

lemma joinParam_flat:
  assumes "wf_type a" and "wf_type b"
  shows "kind a = KFunction \<Longrightarrow> kind b = KFunction \<Longrightarrow>
           joinParam a b = flat_join functionReturningNever (ty_function kNoFunctionIndex) a b"
    and "kind a = KArray \<Longrightarrow> kind b = KArray \<Longrightarrow> joinParam a b = flat_join arrayOfNever ty_array a b"
    and "kind a = KTypedArray \<Longrightarrow> kind b = KTypedArray \<Longrightarrow>
           joinParam a b = flat_join ty_never typedArray_any a b"
    and "num_or_undef a \<Longrightarrow> num_or_undef b \<Longrightarrow> joinParam a b = flat_join ty_never dynamicNumOrUndef a b"
proof -
  have nou: "num_or_undef c \<Longrightarrow> kind c \<notin> {KFunction, KArray, KTypedArray, KNever}" for c
    by (auto simp: num_or_undef_def isDynamicNumOrUndef_def)
  have bots: "wf_type c \<Longrightarrow> kind c = KFunction \<Longrightarrow> payload c = kClosureReturnsNever \<longleftrightarrow> c = functionReturningNever"
    "wf_type c \<Longrightarrow> kind c = KArray \<Longrightarrow> payload c = kArrayElemNever \<longleftrightarrow> c = arrayOfNever" for c
    by (cases c; auto simp: wf_type_def type_constructors)+
  have never: "kind c \<noteq> KNever \<Longrightarrow> c \<noteq> ty_never" for c
    by (auto simp: type_constructors)
  show "kind a = KFunction \<Longrightarrow> kind b = KFunction \<Longrightarrow>
      joinParam a b = flat_join functionReturningNever (ty_function kNoFunctionIndex) a b"
    using assms nou bots by (auto simp: joinParam_eq flat_join_def join_Function)
  show "kind a = KArray \<Longrightarrow> kind b = KArray \<Longrightarrow> joinParam a b = flat_join arrayOfNever ty_array a b"
    using assms nou bots by (auto simp: joinParam_eq flat_join_def join_Array)
  show "kind a = KTypedArray \<Longrightarrow> kind b = KTypedArray \<Longrightarrow> joinParam a b = flat_join ty_never typedArray_any a b"
    using assms nou never by (auto simp: joinParam_eq flat_join_def join_TypedArray)
  show "num_or_undef a \<Longrightarrow> num_or_undef b \<Longrightarrow> joinParam a b = flat_join ty_never dynamicNumOrUndef a b"
    using assms nou never by (auto simp: joinParam_eq flat_join_def)
qed

lemma flat_assocI:
  assumes "joinParam a b = flat_join lo hi a b" and "joinParam b c = flat_join lo hi b c"
    and "joinParam (joinParam a b) c = flat_join lo hi (joinParam a b) c"
    and "joinParam a (joinParam b c) = flat_join lo hi a (joinParam b c)" and "lo \<noteq> hi"
  shows "joinParam (joinParam a b) c = joinParam a (joinParam b c)"
  using assms(1,2) flat_join_assoc [OF assms(5), of a b c] unfolding assms(3,4) by simp

lemma joinParam_assoc_family:
  assumes wf: "wf_type a" "wf_type b" "wf_type c" and fam: "family a = family b" "family b = family c"
    and "kind a \<noteq> KNever"
  shows "joinParam (joinParam a b) c = joinParam a (joinParam b c)"
proof (cases "num_or_undef a")
  case True
  then have "num_or_undef b" "num_or_undef c"
    using fam family_Number by metis+
  moreover have "num_or_undef (joinParam a b)" "num_or_undef (joinParam b c)"
    using True wf calculation by (auto simp: joinParam_eq)
  moreover have "ty_never \<noteq> dynamicNumOrUndef"
    by (simp add: type_constructors)
  ultimately show ?thesis
    using True wf by (intro flat_assocI [OF joinParam_flat(4) joinParam_flat(4) joinParam_flat(4) joinParam_flat(4)]) simp_all
next
  case False
  then have not_num: "\<not> num_or_undef b" "\<not> num_or_undef c"
    using fam family_Number by metis+
  have kinds: "kind b = kind a" "kind c = kind a"
    using fam False not_num by (simp_all add: family_def)
  have "family (joinParam a b) = family a" "family (joinParam b c) = family a"
    using joinParam_family [OF wf(1,2)] joinParam_family [OF wf(2,3)] fam assms(6) kinds by simp_all
  then have joined: "kind (joinParam a b) = kind a" "kind (joinParam b c) = kind a"
    using False family_Number [of a] family_Number [of "joinParam a b"] family_Number [of "joinParam b c"]
    by (simp_all add: family_kind)
  have distinct: "functionReturningNever \<noteq> ty_function kNoFunctionIndex" "arrayOfNever \<noteq> ty_array"
    "ty_never \<noteq> typedArray_any"
    by (simp_all add: type_constructors)
  have "a = b \<and> b = c" if "kind a = KDynamic"
    using that kinds wf_dynamic_cases [OF wf(1)] wf_dynamic_cases [OF wf(2)] wf_dynamic_cases [OF wf(3)] False not_num
    by auto
  moreover have "a = b \<and> b = c" if "kind a \<notin> {KObject, KFunction, KTypedArray, KArray, KDynamic}"
    using that kinds by (intro conjI wf_plain_eq [OF wf(1,2)] wf_plain_eq [OF wf(2,3)]) simp_all
  ultimately consider "kind a = KObject" | "kind a = KFunction" | "kind a = KArray" | "kind a = KTypedArray"
    | "a = b" "b = c"
    by blast
  then show ?thesis
  proof cases
    case 1
    then show ?thesis
      using wf kinds by (intro joinParam_assoc_Object) simp_all
  next
    case 2
    then show ?thesis
      using wf kinds joined distinct by (intro flat_assocI [OF joinParam_flat(1) joinParam_flat(1) joinParam_flat(1) joinParam_flat(1)]) simp_all
  next
    case 3
    then show ?thesis
      using wf kinds joined distinct by (intro flat_assocI [OF joinParam_flat(2) joinParam_flat(2) joinParam_flat(2) joinParam_flat(2)]) simp_all
  next
    case 4
    then show ?thesis
      using wf kinds joined distinct by (intro flat_assocI [OF joinParam_flat(3) joinParam_flat(3) joinParam_flat(3) joinParam_flat(3)]) simp_all
  qed simp
qed

lemma joinParam_assoc:
  assumes wf: "wf_type a" "wf_type b" "wf_type c"
  shows "joinParam (joinParam a b) c = joinParam a (joinParam b c)"
proof -
  consider "kind a = KNever \<or> kind b = KNever \<or> kind c = KNever"
    | "kind a \<noteq> KNever" "kind b \<noteq> KNever" "kind c \<noteq> KNever" "family a = family b" "family b = family c"
    | "kind a \<noteq> KNever" "kind b \<noteq> KNever" "kind c \<noteq> KNever" "family a = family b" "family b \<noteq> family c"
    | "kind a \<noteq> KNever" "kind b \<noteq> KNever" "kind c \<noteq> KNever" "family a \<noteq> family b"
    by blast
  then show ?thesis
  proof cases
    case 1
    then show ?thesis
      using wf joinParam_Never by (metis wf_joinParam)
  next
    case 2
    then show ?thesis
      using joinParam_assoc_family [OF wf] by simp
  next
    case 3
    have "kind (joinParam a b) \<noteq> KNever" "family (joinParam a b) = family a"
      using 3 joinParam_family [OF wf(1,2)] family_Never by metis+
    then have "joinParam (joinParam a b) c = ty_dynamic"
      using 3 wf by (intro joinParam_families_differ) simp_all
    moreover have "joinParam b c = ty_dynamic"
      using 3 wf by (intro joinParam_families_differ) simp_all
    ultimately show ?thesis
      using wf joinParam_commute [of a ty_dynamic] by simp
  next
    case 4
    have ab: "joinParam a b = ty_dynamic"
      using 4 wf by (intro joinParam_families_differ) simp_all
    have "joinParam a (joinParam b c) = ty_dynamic"
    proof (cases "family b = family c")
      case True
      have "kind (joinParam b c) \<noteq> KNever" "family (joinParam b c) = family b"
        using 4 True joinParam_family [OF wf(2,3)] family_Never by metis+
      then show ?thesis
        using 4 wf by (intro joinParam_families_differ) simp_all
    next
      case False
      then have "joinParam b c = ty_dynamic"
        using 4 wf by (intro joinParam_families_differ) simp_all
      then show ?thesis
        using wf joinParam_commute [of a ty_dynamic] by simp
    qed
    then show ?thesis
      using ab wf by simp
  qed
qed

section \<open>The contract of a merge\<close>

text \<open>What the fixpoint iteration and the control-flow merges rely on: the merge covers both edges, does
  not depend on which edge comes first, and can only climb a bounded number of times.\<close>

locale widening_join =
  fixes wf :: "'t \<Rightarrow> bool" and concr :: "'t \<Rightarrow> 'v \<Rightarrow> bool" and merge :: "'t \<Rightarrow> 't \<Rightarrow> 't"
    and height :: "'t \<Rightarrow> nat" and bound :: nat
  assumes merge_wf: "wf a \<Longrightarrow> wf b \<Longrightarrow> wf (merge a b)"
    and merge_covers: "wf a \<Longrightarrow> wf b \<Longrightarrow> concr a v \<or> concr b v \<Longrightarrow> concr (merge a b) v"
    and merge_commute: "wf a \<Longrightarrow> wf b \<Longrightarrow> merge a b = merge b a"
    and merge_climbs: "wf a \<Longrightarrow> wf b \<Longrightarrow> merge a b \<noteq> a \<Longrightarrow> height a < height (merge a b)"
    and height_le: "height a \<le> bound"
begin

lemma fold_wf: "wf a \<Longrightarrow> \<forall>b \<in> set bs. wf b \<Longrightarrow> wf (foldl merge a bs)"
  by (induction bs arbitrary: a) (simp_all add: merge_wf)

lemma fold_covers:
  "wf a \<Longrightarrow> \<forall>b \<in> set bs. wf b \<Longrightarrow> (\<exists>b \<in> set (a # bs). concr b v) \<Longrightarrow> concr (foldl merge a bs) v"
proof (induction bs arbitrary: a)
  case (Cons b bs)
  then have "wf (merge a b)"
    by (simp add: merge_wf)
  then show ?case
    using Cons merge_covers [of a b v] by (auto intro!: Cons.IH)
qed simp

lemma fold_height: "wf a \<Longrightarrow> \<forall>b \<in> set bs. wf b \<Longrightarrow> height a \<le> height (foldl merge a bs)"
proof (induction bs arbitrary: a)
  case (Cons b bs)
  have "height a \<le> height (merge a b)"
    using merge_climbs [of a b] Cons.prems by (cases "merge a b = a") auto
  moreover have "height (merge a b) \<le> height (foldl merge (merge a b) bs)"
    using Cons.prems by (intro Cons.IH) (simp_all add: merge_wf)
  ultimately show ?case
    by simp
qed simp

lemma fold_moves:
  "wf a \<Longrightarrow> \<forall>b \<in> set bs. wf b \<Longrightarrow>
   length (filter (\<lambda>i. foldl merge a (take (Suc i) bs) \<noteq> foldl merge a (take i bs)) [0..<length bs])
     \<le> bound - height a"
proof (induction bs rule: rev_induct)
  case (snoc b bs)
  let ?moves = "\<lambda>cs. length (filter (\<lambda>i. foldl merge a (take (Suc i) cs) \<noteq> foldl merge a (take i cs)) [0..<length cs])"
  have tight: "?moves cs \<le> height (foldl merge a cs) - height a" if "\<forall>c \<in> set cs. wf c" for cs
    using that
  proof (induction cs rule: rev_induct)
    case (snoc c cs)
    let ?x = "foldl merge a cs"
    have "filter (\<lambda>i. foldl merge a (take (Suc i) (cs @ [c])) \<noteq> foldl merge a (take i (cs @ [c]))) [0..<length cs] =
        filter (\<lambda>i. foldl merge a (take (Suc i) cs) \<noteq> foldl merge a (take i cs)) [0..<length cs]"
      by (intro filter_cong) simp_all
    then have "?moves (cs @ [c]) = ?moves cs + (if merge ?x c \<noteq> ?x then 1 else 0)"
      by simp
    moreover have "height ?x < height (merge ?x c)" if "merge ?x c \<noteq> ?x"
      using that snoc.prems \<open>wf a\<close> by (intro merge_climbs fold_wf) simp_all
    moreover have "height a \<le> height ?x"
      using snoc.prems \<open>wf a\<close> by (intro fold_height) simp_all
    ultimately show ?case
      using snoc by (cases "merge ?x c = ?x") auto
  qed simp
  have "height (foldl merge a (bs @ [b])) \<le> bound"
    by (rule height_le)
  then show ?case
    using tight [of "bs @ [b]"] snoc.prems(2) by linarith
qed simp

end

interpretation tj: widening_join wf_type "gamma sig" join rank 5 for sig
  by unfold_locales (simp_all add: join_sound join_commute join_rank rank_le)

interpretation tp: widening_join wf_type "gamma sig" joinParam rank 5 for sig
  by unfold_locales (simp_all add: joinParam_sound joinParam_commute joinParam_rank rank_le)

section \<open>The packed ordering key\<close>

lemma kind_code_inj: "kind_code a = kind_code b \<Longrightarrow> a = b"
  by (cases a; cases b) simp_all

lemma bit_kind_code: "bit (kind_code k) n \<Longrightarrow> n < 4"
proof -
  have "take_bit 4 (kind_code k) = kind_code k"
    by (cases k) simp_all
  then show "bit (kind_code k) n \<Longrightarrow> n < 4"
    by (metis bit_take_bit_iff)
qed

lemma low_flags: "bit ((if x then 2 else 0) :: u64) n \<longleftrightarrow> x \<and> n = 1" "bit ((if x then 1 else 0) :: u64) n \<longleftrightarrow> x \<and> n = 0"
  using bit_exp_iff [where 'a = "64 word", of 1 n] by (auto simp: bit_1_iff)

lemma bitsForOrdering_bit:
  "bit (bitsForOrdering t) n \<longleftrightarrow>
     (40 \<le> n \<and> n < 64 \<and> bit (kind_code (kind t)) (n - 40)) \<or> (8 \<le> n \<and> n < 64 \<and> bit (payload t) (n - 8)) \<or>
     (identityOnly t \<and> n = 1) \<or> (builtHere_bit t \<and> n = 0)"
  unfolding bitsForOrdering_def bit_or_iff low_flags by (auto simp: bit_push_bit_iff bit_ucast_iff)

lemma bitsForOrdering_inj:
  assumes "bitsForOrdering a = bitsForOrdering b"
  shows "a = b"
proof (rule type.equality)
  have eq: "bit (bitsForOrdering a) n = bit (bitsForOrdering b) n" for n
    by (simp only: assms)
  show "kind a = kind b"
  proof (rule kind_code_inj, rule bit_word_eqI)
    fix n
    assume "n < LENGTH(64)"
    show "bit (kind_code (kind a)) n \<longleftrightarrow> bit (kind_code (kind b)) n"
      using eq [of "n + 40"] bit_kind_code [of "kind a" n] bit_kind_code [of "kind b" n]
        bit_imp_le_length [of "payload a" "32 + n"] bit_imp_le_length [of "payload b" "32 + n"]
      by (auto simp: bitsForOrdering_bit)
  qed
  show "payload a = payload b"
  proof (rule bit_word_eqI)
    fix n
    assume "n < LENGTH(32)"
    then show "bit (payload a) n \<longleftrightarrow> bit (payload b) n"
      using eq [of "n + 8"] by (auto simp: bitsForOrdering_bit)
  qed
  show "identityOnly a = identityOnly b"
    using eq [of 1] by (simp add: bitsForOrdering_bit)
  show "builtHere_bit a = builtHere_bit b"
    using eq [of 0] by (simp add: bitsForOrdering_bit)
qed simp

section \<open>Properties\<close>



text \<open>C24: The inference fixpoint terminates: folding any list of observations into a signature slot,
  with \<open>join\<close> for returns or \<open>joinParam\<close> for parameters, moves the slot at most five times.\<close>

theorem widening_moves:
  assumes "wf_type a" and "\<forall>b \<in> set bs. wf_type b"
  shows "length (filter (\<lambda>i. foldl join a (take (Suc i) bs) \<noteq> foldl join a (take i bs)) [0..<length bs]) \<le> 5 \<and>
         length (filter (\<lambda>i. foldl joinParam a (take (Suc i) bs) \<noteq> foldl joinParam a (take i bs)) [0..<length bs]) \<le> 5"
  using tj.fold_moves [OF assms] tp.fold_moves [OF assms] by linarith

theorem widening_moves_witness:
  "length (filter (\<lambda>i. foldl join ty_never (take (Suc i) [ty_number, ty_string]) \<noteq>
      foldl join ty_never (take i [ty_number, ty_string])) [0..<length [ty_number, ty_string]]) \<le> 5"
  using widening_moves [of ty_never "[ty_number, ty_string]"] by simp

text \<open>\<open>joinParam\<close> is commutative, associative, idempotent and has \<open>Never\<close> as its unit, so a
  parameter's type does not depend on the order in which call sites are folded.\<close>

theorem joinParam_semilattice:
  assumes "wf_type a" and "wf_type b" and "wf_type c"
  shows "joinParam a b = joinParam b a \<and> joinParam (joinParam a b) c = joinParam a (joinParam b c) \<and>
         joinParam a a = a \<and> joinParam ty_never a = a \<and> joinParam a ty_dynamic = ty_dynamic"
proof -
  have "kind ty_never = KNever"
    by (simp add: type_constructors)
  then show ?thesis
    using assms joinParam_commute [of a b] joinParam_commute [of a ty_dynamic] joinParam_assoc [of a b c] joinParam_Never
    by simp
qed

theorem joinParam_semilattice_witness:
  "joinParam (joinParam ty_number ty_undefined) ty_string = joinParam ty_number (joinParam ty_undefined ty_string)"
  using joinParam_semilattice [OF wf_constructors(2) wf_constructors(5) wf_constructors(4)] by blast

text \<open>\<open>join\<close>, the merge of returns and of control-flow edges, is commutative but not associative:
  \<open>Number\<close>, \<open>Undefined\<close> and \<open>Number | undefined\<close> give \<open>Dynamic\<close> in one order of merging and
  \<open>Number | undefined\<close> in another.\<close>

theorem join_not_associative:
  "(\<forall>a b. wf_type a \<and> wf_type b \<longrightarrow> join a b = join b a) \<and>
   join (join ty_number ty_undefined) dynamicNumOrUndef = ty_dynamic \<and>
   join ty_number (join ty_undefined dynamicNumOrUndef) = dynamicNumOrUndef \<and> ty_dynamic \<noteq> dynamicNumOrUndef"
proof -
  have "join (join ty_number ty_undefined) dynamicNumOrUndef = ty_dynamic"
    "join ty_number (join ty_undefined dynamicNumOrUndef) = dynamicNumOrUndef" "ty_dynamic \<noteq> dynamicNumOrUndef"
    by code_simp+
  then show ?thesis
    using join_commute by blast
qed

theorem join_not_associative_witness:
  "join ty_number ty_undefined = join ty_undefined ty_number"
  using join_not_associative wf_constructors(2,5) by blast

text \<open>The packed ordering key is equal exactly when the types are.\<close>

theorem bitsForOrdering_exact:
  "bitsForOrdering a = bitsForOrdering b \<longleftrightarrow> a = b"
  using bitsForOrdering_inj by blast

end
