(* ===== verification/Operator_Types.thy ===== *)
theory Operator_Types
  imports Type_Lattice
begin

text \<open>
  The result type of every JavaScript operator as a function of its operands' types
  (\<open>src/src/types/operator_types.{h,cpp}\<close>, the two short-circuit rules of
  \<open>src/src/types/relational_prover.cpp\<close>, and the operator tables of \<open>src/src/ast/ast.{h,cpp}\<close>). The
  language's own rules for the operators, at the level of value kinds, are the relations
  \<open>binary_value\<close>, \<open>unary_value\<close> and \<open>short_circuit\<close>; the theorems state that every value an operator
  can produce belongs to the type these functions answer.
\<close>

section \<open>Definitions\<close>

datatype UnaryOp =
  Not | Negate | Posate | PreInc | PreDec | PostInc | PostDec | BitNot | TypeOf | Void | Delete

datatype BinaryOp =
  Add | Sub | Mul | Div | Mod | Less | Greater | LessEqual | GreaterEqual
| Eq | StrictEq | Ne | StrictNe | Assign | PlusAssign | MinusAssign
| StarAssign | SlashAssign | PercentAssign | LogicalAnd | LogicalOr | NullishCoalescing
| BitAnd | BitOr | BitXor | Shl | Shr | UShr | Exp | In | InstanceOf | Comma
| AmpAssign | PipeAssign | CaretAssign | ShlAssign | ShrAssign | UShrAssign | ExpAssign
| LogicalAndAssign | LogicalOrAssign | NullishAssign

fun compoundAssignBase :: "BinaryOp \<Rightarrow> BinaryOp" where
  "compoundAssignBase PlusAssign = Add"
| "compoundAssignBase MinusAssign = Sub"
| "compoundAssignBase StarAssign = Mul"
| "compoundAssignBase SlashAssign = Div"
| "compoundAssignBase PercentAssign = Mod"
| "compoundAssignBase AmpAssign = BitAnd"
| "compoundAssignBase PipeAssign = BitOr"
| "compoundAssignBase CaretAssign = BitXor"
| "compoundAssignBase ShlAssign = Shl"
| "compoundAssignBase ShrAssign = Shr"
| "compoundAssignBase UShrAssign = UShr"
| "compoundAssignBase ExpAssign = Exp"
| "compoundAssignBase LogicalAndAssign = LogicalAnd"
| "compoundAssignBase LogicalOrAssign = LogicalOr"
| "compoundAssignBase NullishAssign = NullishCoalescing"
| "compoundAssignBase op = op"

definition isCompoundAssignOp :: "BinaryOp \<Rightarrow> bool" where
  "isCompoundAssignOp op \<longleftrightarrow> compoundAssignBase op \<noteq> op"

definition isAssignOp :: "BinaryOp \<Rightarrow> bool" where
  "isAssignOp op \<longleftrightarrow> op = Assign \<or> isCompoundAssignOp op"

definition withBottom :: "type \<Rightarrow> type \<Rightarrow> type" where
  "withBottom operand result = (if is_kind operand KNever then ty_never else result)"

definition withBottom2 :: "type \<Rightarrow> type \<Rightarrow> type \<Rightarrow> type" where
  "withBottom2 a b result = (if is_kind a KNever \<or> is_kind b KNever then ty_never else result)"

definition isNumericPrimitive :: "type \<Rightarrow> bool" where
  "isNumericPrimitive t =
     (case kind t of KNumber \<Rightarrow> True | KBool \<Rightarrow> True | KNull \<Rightarrow> True | KUndefined \<Rightarrow> True | _ \<Rightarrow> False)"

definition isNeverBigInt :: "type \<Rightarrow> bool" where
  "isNeverBigInt t =
     (case kind t of KNumber \<Rightarrow> True | KBool \<Rightarrow> True | KNull \<Rightarrow> True | KUndefined \<Rightarrow> True | KString \<Rightarrow> True
      | _ \<Rightarrow> False)"

definition numericOrDynamic :: "type \<Rightarrow> type \<Rightarrow> type" where
  "numericOrDynamic l r =
     (if is_kind l KNever \<or> is_kind r KNever then ty_never
      else if isNeverBigInt l \<or> isNeverBigInt r then ty_number else ty_dynamic)"

definition arithResult :: "BinaryOp \<Rightarrow> type \<Rightarrow> type \<Rightarrow> type" where
  "arithResult op l r =
     (if is_kind l KNever \<or> is_kind r KNever then ty_never
      else if op \<noteq> Add then numericOrDynamic l r
      else if is_kind l KString \<or> is_kind r KString then ty_string
      else if isNumericPrimitive l \<and> isNumericPrimitive r then ty_number
      else ty_dynamic)"

fun isAlwaysNumericOp :: "BinaryOp \<Rightarrow> bool" where
  "isAlwaysNumericOp BitAnd = True"
| "isAlwaysNumericOp BitOr = True"
| "isAlwaysNumericOp BitXor = True"
| "isAlwaysNumericOp Shl = True"
| "isAlwaysNumericOp Shr = True"
| "isAlwaysNumericOp UShr = True"
| "isAlwaysNumericOp Exp = True"
| "isAlwaysNumericOp _ = False"

fun unaryResult :: "UnaryOp \<Rightarrow> type \<Rightarrow> type" where
  "unaryResult Not operand = withBottom operand ty_boolean"
| "unaryResult Posate operand = withBottom operand ty_number"
| "unaryResult Negate operand = numericOrDynamic operand operand"
| "unaryResult BitNot operand = numericOrDynamic operand operand"
| "unaryResult TypeOf operand = withBottom operand ty_string"
| "unaryResult Void operand = withBottom operand ty_undefined"
| "unaryResult Delete operand = ty_boolean"
| "unaryResult PreInc operand = (if isNeverBigInt operand then ty_number else ty_dynamic)"
| "unaryResult PreDec operand = (if isNeverBigInt operand then ty_number else ty_dynamic)"
| "unaryResult PostInc operand = (if isNeverBigInt operand then ty_number else ty_dynamic)"
| "unaryResult PostDec operand = (if isNeverBigInt operand then ty_number else ty_dynamic)"

definition binaryResult :: "BinaryOp \<Rightarrow> type \<Rightarrow> type \<Rightarrow> type" where
  "binaryResult op l r =
     (if isAlwaysNumericOp op then numericOrDynamic l r
      else if op \<in> {Add, Sub, Mul, Div, Mod} then arithResult op l r
      else if op \<in> {Less, Greater, LessEqual, GreaterEqual, Eq, StrictEq, Ne, StrictNe, In, InstanceOf}
      then withBottom2 l r ty_boolean
      else if op = Comma then r
      else ty_dynamic)"

definition nullishCoalescingResult :: "type \<Rightarrow> type \<Rightarrow> type" where
  "nullishCoalescingResult lhs rhs =
     (if is_kind lhs KNever \<or> is_kind rhs KNever then ty_never
      else if is_kind lhs KUndefined \<or> is_kind lhs KNull then rhs
      else if kind lhs \<in> {KNumber, KString, KBool, KObject, KArray, KTypedArray, KFunction} then lhs
      else if isDynamicNumOrUndef lhs \<and> is_kind rhs KNumber then ty_number
      else join lhs rhs)"

definition logicalOrResult :: "type \<Rightarrow> type \<Rightarrow> type" where
  "logicalOrResult lhs rhs =
     (if is_kind lhs KNever \<or> is_kind rhs KNever then ty_never
      else if is_kind lhs KUndefined \<or> is_kind lhs KNull then rhs
      else if (is_kind lhs KNumber \<or> isDynamicNumOrUndef lhs) \<and> is_kind rhs KNumber then ty_number
      else join lhs rhs)"

definition compoundResult :: "BinaryOp \<Rightarrow> type \<Rightarrow> type \<Rightarrow> type" where
  "compoundResult plainOp current rhs =
     (if plainOp = LogicalOr then logicalOrResult current rhs
      else if plainOp = NullishCoalescing then nullishCoalescingResult current rhs
      else if plainOp = LogicalAnd then join current rhs
      else if isAlwaysNumericOp plainOp then numericOrDynamic current rhs
      else arithResult plainOp current rhs)"

section \<open>The language's rules\<close>

fun is_objectlike :: "jsval \<Rightarrow> bool" where
  "is_objectlike (JObject c) = True"
| "is_objectlike (JFunction R) = True"
| "is_objectlike (JTypedArray e) = True"
| "is_objectlike (JArray es) = True"
| "is_objectlike _ = False"

text \<open>ToPrimitive: a primitive is itself, an object may answer any primitive.\<close>

inductive to_primitive :: "jsval \<Rightarrow> jsval \<Rightarrow> bool" where
  prim_self: "\<not> is_objectlike v \<Longrightarrow> to_primitive v v"
| prim_obj: "is_objectlike v \<Longrightarrow> \<not> is_objectlike p \<Longrightarrow> to_primitive v p"

fun is_string :: "jsval \<Rightarrow> bool" where
  "is_string (JString s) = True"
| "is_string _ = False"

text \<open>ToNumeric: a BigInt stays one, a Symbol throws, everything else becomes a Number.\<close>

inductive to_numeric :: "jsval \<Rightarrow> jsval \<Rightarrow> bool" where
  numeric_bigint: "to_primitive v (JBigInt i) \<Longrightarrow> to_numeric v (JBigInt i)"
| numeric_number: "to_primitive v p \<Longrightarrow> val_kind p \<in> {KNumber, KBool, KString, KUndefined, KNull} \<Longrightarrow>
    to_numeric v (JNumber n)"

fun truthy :: "jsval \<Rightarrow> bool" where
  "truthy (JNumber n) \<longleftrightarrow> n \<noteq> 0"
| "truthy (JBool b) \<longleftrightarrow> b"
| "truthy (JString s) \<longleftrightarrow> s \<noteq> []"
| "truthy (JBigInt i) \<longleftrightarrow> i \<noteq> 0"
| "truthy JUndefined \<longleftrightarrow> False"
| "truthy JNull \<longleftrightarrow> False"
| "truthy _ \<longleftrightarrow> True"

inductive binary_value :: "BinaryOp \<Rightarrow> jsval \<Rightarrow> jsval \<Rightarrow> jsval \<Rightarrow> bool" where
  arith_number: "op \<in> {Sub, Mul, Div, Mod} \<or> isAlwaysNumericOp op \<Longrightarrow> to_numeric l (JNumber x) \<Longrightarrow>
    to_numeric r (JNumber y) \<Longrightarrow> binary_value op l r (JNumber z)"
| arith_bigint: "op \<in> {Sub, Mul, Div, Mod} \<or> isAlwaysNumericOp op \<and> op \<noteq> UShr \<Longrightarrow> to_numeric l (JBigInt x) \<Longrightarrow>
    to_numeric r (JBigInt y) \<Longrightarrow> binary_value op l r (JBigInt z)"
| add_string: "to_primitive l p \<Longrightarrow> to_primitive r q \<Longrightarrow> is_string p \<or> is_string q \<Longrightarrow>
    binary_value Add l r (JString s)"
| add_number: "to_primitive l p \<Longrightarrow> to_primitive r q \<Longrightarrow> \<not> is_string p \<Longrightarrow> \<not> is_string q \<Longrightarrow>
    to_numeric p (JNumber x) \<Longrightarrow> to_numeric q (JNumber y) \<Longrightarrow> binary_value Add l r (JNumber z)"
| add_bigint: "to_primitive l p \<Longrightarrow> to_primitive r q \<Longrightarrow> to_numeric p (JBigInt x) \<Longrightarrow>
    to_numeric q (JBigInt y) \<Longrightarrow> binary_value Add l r (JBigInt z)"
| predicate: "op \<in> {Less, Greater, LessEqual, GreaterEqual, Eq, StrictEq, Ne, StrictNe, In, InstanceOf} \<Longrightarrow>
    binary_value op l r (JBool b)"
| comma: "binary_value Comma l r r"

inductive unary_value :: "UnaryOp \<Rightarrow> jsval \<Rightarrow> jsval \<Rightarrow> bool" where
  u_not: "unary_value Not v (JBool b)"
| u_posate: "to_numeric v (JNumber n) \<Longrightarrow> unary_value Posate v (JNumber n)"
| u_numeric: "op \<in> {Negate, BitNot, PreInc, PreDec, PostInc, PostDec} \<Longrightarrow> to_numeric v (JNumber n) \<Longrightarrow>
    unary_value op v (JNumber m)"
| u_bigint: "op \<in> {Negate, BitNot, PreInc, PreDec, PostInc, PostDec} \<Longrightarrow> to_numeric v (JBigInt n) \<Longrightarrow>
    unary_value op v (JBigInt m)"
| u_typeof: "unary_value TypeOf v (JString s)"
| u_void: "unary_value Void v JUndefined"
| u_delete: "unary_value Delete v (JBool b)"

text \<open>The short-circuit operators; the right operand is \<open>None\<close> when evaluating it yields no value.\<close>

inductive short_circuit :: "BinaryOp \<Rightarrow> jsval \<Rightarrow> jsval option \<Rightarrow> jsval \<Rightarrow> bool" where
  or_left: "truthy l \<Longrightarrow> short_circuit LogicalOr l r l"
| or_right: "\<not> truthy l \<Longrightarrow> short_circuit LogicalOr l (Some r) r"
| and_left: "\<not> truthy l \<Longrightarrow> short_circuit LogicalAnd l r l"
| and_right: "truthy l \<Longrightarrow> short_circuit LogicalAnd l (Some r) r"
| nullish_left: "l \<notin> {JUndefined, JNull} \<Longrightarrow> short_circuit NullishCoalescing l r l"
| nullish_right: "l \<in> {JUndefined, JNull} \<Longrightarrow> short_circuit NullishCoalescing l (Some r) r"

inductive_cases to_numeric_cases: "to_numeric v (JBigInt i)" "to_numeric v (JNumber n)"
inductive_cases to_primitive_cases: "to_primitive v p"

section \<open>Soundness\<close>

lemma never_bigint:
  assumes "isNeverBigInt t" and "gamma sig t v"
  shows "\<not> to_numeric v (JBigInt i)"
proof
  assume num: "to_numeric v (JBigInt i)"
  have "val_kind v \<in> {KNumber, KBool, KNull, KUndefined, KString}"
    using assms gamma_kind [OF assms(2)] by (auto simp: isNeverBigInt_def split: TypeKind.splits)
  then show False
    using num by (cases v) (auto elim!: to_numeric_cases to_primitive_cases)
qed

lemma numericOrDynamic_sound:
  assumes "gamma sig ta l" and "gamma sig tb r"
    and "(\<exists>n. v = JNumber n) \<or> (to_numeric l (JBigInt x) \<and> to_numeric r (JBigInt y))"
  shows "gamma sig (numericOrDynamic ta tb) v"
proof -
  have "kind ta \<noteq> KNever" "kind tb \<noteq> KNever"
    using assms(1,2) by (auto simp: gamma_def)
  then show ?thesis
    using assms never_bigint [of ta sig l x] never_bigint [of tb sig r y] by (auto simp: numericOrDynamic_def)
qed

lemma numeric_primitive_add:
  assumes "isNumericPrimitive t" and "gamma sig t v" and "to_primitive v p"
  shows "\<not> is_string p" and "\<not> to_numeric p (JBigInt i)"
proof -
  have "val_kind v \<in> {KNumber, KBool, KNull, KUndefined}"
    using assms gamma_kind [OF assms(2)] by (auto simp: isNumericPrimitive_def split: TypeKind.splits)
  then show "\<not> is_string p" "\<not> to_numeric p (JBigInt i)"
    using assms(3) by (cases v; auto elim!: to_numeric_cases to_primitive_cases)+
qed

lemma string_add:
  assumes "kind t = KString" and "gamma sig t v" and "to_primitive v p"
  shows "is_string p"
  using assms gamma_kind [OF assms(2)] by (cases v) (auto elim!: to_primitive_cases)

lemma bigint_not_string: "to_numeric p (JBigInt i) \<Longrightarrow> \<not> is_string p"
  by (cases p) (auto elim!: to_numeric_cases to_primitive_cases)

lemma arith_Add_sound:
  assumes "gamma sig ta l" and "gamma sig tb r" and "binary_value Add l r v"
  shows "gamma sig (arithResult Add ta tb) v"
proof -
  have "kind ta \<noteq> KNever" "kind tb \<noteq> KNever"
    using assms(1,2) by (auto simp: gamma_def)
  from assms(3) show ?thesis
  proof cases
    case (add_string p q s)
    then show ?thesis
      using assms(1,2) numeric_primitive_add \<open>kind ta \<noteq> KNever\<close> \<open>kind tb \<noteq> KNever\<close>
      by (auto simp: arithResult_def)
  next
    case (add_number p q x y z)
    then show ?thesis
      using assms(1,2) string_add \<open>kind ta \<noteq> KNever\<close> \<open>kind tb \<noteq> KNever\<close> by (auto simp: arithResult_def)
  next
    case (add_bigint p q x y z)
    then have "\<not> is_string p" "\<not> is_string q"
      using bigint_not_string by blast+
    then show ?thesis
      using add_bigint assms(1,2) string_add numeric_primitive_add \<open>kind ta \<noteq> KNever\<close> \<open>kind tb \<noteq> KNever\<close>
      by (auto simp: arithResult_def)
  qed (simp_all)
qed

section \<open>Properties\<close>

text \<open>C18: Every value a binary operator can produce belongs to the type \<open>binaryResult\<close> answers for
  the operands' types: the Number answer is never given where a BigInt or a string can come out.\<close>

theorem binaryResult_sound:
  assumes "gamma sig ta l" and "gamma sig tb r" and "binary_value op l r v"
  shows "gamma sig (binaryResult op ta tb) v"
proof -
  have never: "kind ta \<noteq> KNever" "kind tb \<noteq> KNever"
    using assms(1,2) by (auto simp: gamma_def)
  have numeric: "binaryResult op ta tb = numericOrDynamic ta tb" if "op \<in> {Sub, Mul, Div, Mod} \<or> isAlwaysNumericOp op"
    using that never by (auto simp: binaryResult_def arithResult_def)
  show ?thesis
  proof (cases "op = Add")
    case True
    then show ?thesis
      using arith_Add_sound assms by (simp add: binaryResult_def)
  next
    case False
    from assms(3) show ?thesis
    proof cases
      case (arith_number x y z)
      then show ?thesis
        using numeric numericOrDynamic_sound [OF assms(1,2)] by auto
    next
      case (arith_bigint x y z)
      then show ?thesis
        using numeric numericOrDynamic_sound [OF assms(1,2), of v x y] by auto
    next
      case (predicate b)
      then show ?thesis
        using never by (auto simp: binaryResult_def withBottom2_def)
    next
      case comma
      then show ?thesis
        using assms(2) by (simp add: binaryResult_def)
    qed (use False in simp_all)
  qed
qed

theorem binaryResult_sound_witness:
  "gamma (\<lambda>_. []) (binaryResult Sub ty_string ty_number) (JNumber 4)"
proof (rule binaryResult_sound)
  show "gamma (\<lambda>_. []) ty_string (JString ''5'')" "gamma (\<lambda>_. []) ty_number (JNumber 1)"
    by simp_all
  have "to_numeric (JString ''5'') (JNumber 5)" "to_numeric (JNumber 1) (JNumber 1)"
    by (rule numeric_number [OF prim_self]; simp)+
  then show "binary_value Sub (JString ''5'') (JNumber 1) (JNumber 4)"
    by (intro arith_number) simp_all
qed

text \<open>Every value a unary operator can produce belongs to the type \<open>unaryResult\<close> answers.\<close>

theorem unaryResult_sound:
  assumes "gamma sig t v" and "unary_value op v w"
  shows "gamma sig (unaryResult op t) w"
proof -
  have "kind t \<noteq> KNever"
    using assms(1) by (auto simp: gamma_def)
  from assms(2) show ?thesis
  proof cases
    case (u_numeric n m)
    then show ?thesis
      using numericOrDynamic_sound [OF assms(1,1), of w] by auto
  next
    case (u_bigint n m)
    then show ?thesis
      using numericOrDynamic_sound [OF assms(1,1), of w n n] never_bigint [OF _ assms(1), of n] by auto
  qed (use \<open>kind t \<noteq> KNever\<close> in \<open>simp_all add: withBottom_def\<close>)
qed

theorem unaryResult_sound_witness:
  "gamma (\<lambda>_. []) (unaryResult Negate ty_dynamic) (JBigInt (-1))"
proof (rule unaryResult_sound)
  show "gamma (\<lambda>_. []) ty_dynamic (JBigInt 1)"
    by simp
  show "unary_value Negate (JBigInt 1) (JBigInt (-1))"
    by (rule u_bigint [OF _ numeric_bigint [OF prim_self]]) simp_all
qed

text \<open>The result types of \<open>||\<close>, \<open>??\<close> and \<open>&&\<close>, plain or as a compound assignment, cover the
  value of either operand that can come out, as long as the right operand has a type at all.\<close>

theorem shortCircuit_sound:
  assumes "wf_type ta" and "wf_type tb" and "gamma sig ta l" and "\<forall>x. r = Some x \<longrightarrow> gamma sig tb x"
    and "kind tb \<noteq> KNever" and "short_circuit op l r v"
  shows "gamma sig (compoundResult op ta tb) v"
proof -
  have never: "kind ta \<noteq> KNever"
    using assms(3) by (auto simp: gamma_def)
  have nullish: "l \<in> {JUndefined, JNull}" if "kind ta \<in> {KUndefined, KNull}"
    using that gamma_kind [OF assms(3)] by (cases l) auto
  have covered: "gamma sig (join ta tb) v" if "v = l \<or> r = Some v"
    using that join_sound [OF assms(1,2)] assms(3,4) by blast
  have from_op: "v = l \<or> r = Some v"
    using assms(6) by cases simp_all
  have numeric: "val_kind v = KNumber" if "isDynamicNumOrUndef ta \<or> kind ta = KNumber" "kind tb = KNumber" "v \<noteq> JUndefined \<or> r = Some v"
    using that from_op gamma_num_or_undef [OF assms(3)] gamma_kind [OF assms(3)] assms(4) gamma_kind [of sig tb v]
    by (cases v) auto
  show ?thesis
  proof (cases "op = LogicalOr \<and> kind ta \<in> {KUndefined, KNull} \<or> op = NullishCoalescing \<and> kind ta \<in> {KUndefined, KNull}")
    case True
    then have "r = Some v"
      using nullish True by (cases rule: short_circuit.cases [OF assms(6)]) auto
    then show ?thesis
      using True assms(4,5) never by (auto simp: compoundResult_def logicalOrResult_def nullishCoalescingResult_def)
  next
    case False
    show ?thesis
      using assms(6)
    proof cases
      case or_left
      then have "v \<noteq> JUndefined"
        by auto
      then show ?thesis
        using or_left False covered from_op numeric never assms(5) by (auto simp: compoundResult_def logicalOrResult_def)
    next
      case (or_right)
      then show ?thesis
        using False covered from_op numeric never assms(5) by (auto simp: compoundResult_def logicalOrResult_def)
    next
      case nullish_left
      then have "v \<noteq> JUndefined"
        by auto
      then show ?thesis
        using nullish_left False covered from_op numeric never assms(3,5) by (auto simp: compoundResult_def nullishCoalescingResult_def)
    next
      case nullish_right
      then have "kind ta \<notin> {KNumber, KString, KBool, KObject, KArray, KTypedArray, KFunction}"
        using gamma_kind [OF assms(3)] by auto
      then show ?thesis
        using nullish_right False covered from_op numeric never assms(5)
        by (auto simp: compoundResult_def nullishCoalescingResult_def)
    qed (use covered from_op in \<open>simp_all add: compoundResult_def\<close>)
  qed
qed

theorem shortCircuit_sound_witness:
  "gamma (\<lambda>_. []) (compoundResult NullishCoalescing dynamicNumOrUndef ty_number) (JNumber 0)"
proof (rule shortCircuit_sound)
  show "short_circuit NullishCoalescing JUndefined (Some (JNumber 0)) (JNumber 0)"
    by (rule nullish_right) simp
  show "kind ty_number \<noteq> KNever"
    by (simp add: ty_number_def mk_type_def)
qed simp_all

text \<open>The exception: when evaluating the right operand yields no value, \<open>??\<close> and \<open>||\<close> answer
  \<open>Never\<close> although the left operand's value comes out.\<close>

theorem shortCircuit_never:
  "nullishCoalescingResult ty_number ty_never = ty_never \<and> logicalOrResult ty_number ty_never = ty_never \<and>
   gamma sig ty_number (JNumber 5) \<and> short_circuit NullishCoalescing (JNumber 5) None (JNumber 5) \<and>
   short_circuit LogicalOr (JNumber 5) None (JNumber 5) \<and> \<not> gamma sig ty_never (JNumber 5)"
proof -
  have "short_circuit NullishCoalescing (JNumber 5) None (JNumber 5)"
    by (rule nullish_left) simp
  moreover have "short_circuit LogicalOr (JNumber 5) None (JNumber 5)"
    by (rule or_left) simp
  ultimately show ?thesis
    by (simp add: nullishCoalescingResult_def logicalOrResult_def) (simp add: type_constructors)
qed

end
