(* ===== verification/Type_Env.thy ===== *)
theory Type_Env
  imports Type_Lattice "HOL-Library.List_Lexorder" "HOL-Library.Char_ord"
begin

text \<open>
  The flow analysis's environment (\<open>src/src/types/env.h\<close>): bindings kept in a vector sorted by name,
  and the merge walk \<open>joinEnv\<close> of \<open>src/src/types/flow.cpp\<close>. \<open>std::lower_bound\<close> is the length of the
  prefix below the key; names are compared bytewise, as \<open>std::string_view\<close> does. The locale
  \<open>bindings\<close> is the map contract the class comment promises (\<open>as std::map\<close>), which the clients of an
  environment use; \<open>joinEnv\<close> is shown sound against it.
\<close>

section \<open>Definitions\<close>

type_synonym env = "(string \<times> type) list"

definition lowerBound :: "env \<Rightarrow> string \<Rightarrow> nat" where
  "lowerBound es name = length (takeWhile (\<lambda>e. fst e < name) es)"

definition env_at :: "env \<Rightarrow> string \<Rightarrow> nat option" where
  "env_at es name =
     (let it = lowerBound es name in if it < length es \<and> fst (es ! it) = name then Some it else None)"

definition env_find :: "env \<Rightarrow> string \<Rightarrow> type option" where
  "env_find es name = map_option (\<lambda>it. snd (es ! it)) (env_at es name)"

definition env_count :: "env \<Rightarrow> string \<Rightarrow> nat" where
  "env_count es name = (if env_find es name \<noteq> None then 1 else 0)"

definition insert_at :: "nat \<Rightarrow> 'a \<Rightarrow> 'a list \<Rightarrow> 'a list" where
  "insert_at i x xs = take i xs @ x # drop i xs"

text \<open>\<open>operator[]\<close>: the environment with the name bound, and where it is bound.\<close>

definition env_subscript :: "env \<Rightarrow> string \<Rightarrow> env \<times> nat" where
  "env_subscript es name =
     (let it = lowerBound es name
      in if it = length es \<or> fst (es ! it) \<noteq> name then (insert_at it (name, ty_never) es, it) else (es, it))"

text \<open>The assignment \<open>env[name] = t\<close>.\<close>

definition env_set :: "env \<Rightarrow> string \<Rightarrow> type \<Rightarrow> env" where
  "env_set es name t = (let (es', it) = env_subscript es name in es'[it := (name, t)])"

definition env_emplace :: "env \<Rightarrow> string \<Rightarrow> type \<Rightarrow> env \<times> bool" where
  "env_emplace es name t =
     (let it = lowerBound es name
      in if it < length es \<and> fst (es ! it) = name then (es, False) else (insert_at it (name, t) es, True))"

definition env_erase :: "env \<Rightarrow> string \<Rightarrow> env \<times> nat" where
  "env_erase es name =
     (case env_at es name of None \<Rightarrow> (es, 0) | Some it \<Rightarrow> (take it es @ drop (Suc it) es, 1))"

definition appendSorted :: "env \<Rightarrow> string \<Rightarrow> type \<Rightarrow> env" where
  "appendSorted es name t = es @ [(name, t)]"

fun joinEnv_walk :: "env \<Rightarrow> env \<Rightarrow> env \<Rightarrow> env" where
  "joinEnv_walk ((x, s) # a) ((y, t) # b) out =
     (if x < y then joinEnv_walk a ((y, t) # b) out
      else if x > y then joinEnv_walk ((x, s) # a) b out
      else joinEnv_walk a b (appendSorted out x (join s t)))"
| "joinEnv_walk _ _ out = out"

definition joinEnv :: "env \<Rightarrow> env \<Rightarrow> env" where
  "joinEnv a b = joinEnv_walk a b []"

definition env_wf :: "env \<Rightarrow> bool" where
  "env_wf es \<longleftrightarrow> sorted_wrt (<) (map fst es) \<and> (\<forall>e \<in> set es. wf_type (snd e))"

section \<open>The map contract\<close>

locale bindings =
  fixes wf :: "'e \<Rightarrow> bool" and lookup :: "'e \<Rightarrow> 'k \<Rightarrow> 'v option" and update :: "'e \<Rightarrow> 'k \<Rightarrow> 'v \<Rightarrow> 'e"
    and good :: "'v \<Rightarrow> bool"
  assumes update_wf: "wf e \<Longrightarrow> good v \<Longrightarrow> wf (update e k v)"
    and lookup_update: "wf e \<Longrightarrow> good v \<Longrightarrow> lookup (update e k v) k' = (if k' = k then Some v else lookup e k')"
    and lookup_good: "wf e \<Longrightarrow> lookup e k = Some v \<Longrightarrow> good v"
begin

lemma update_twice: "wf e \<Longrightarrow> good v \<Longrightarrow> good v' \<Longrightarrow> lookup (update (update e k v) k v') k' = lookup (update e k v') k'"
  by (simp add: lookup_update update_wf)

lemma fold_update_wf: "wf e \<Longrightarrow> \<forall>p \<in> set ps. good (snd p) \<Longrightarrow> wf (foldl (\<lambda>e (k, v). update e k v) e ps)"
  by (induction ps arbitrary: e) (auto simp: update_wf)

lemma fold_update_lookup:
  "wf e \<Longrightarrow> \<forall>p \<in> set ps. good (snd p) \<Longrightarrow>
   lookup (foldl (\<lambda>e (k, v). update e k v) e ps) k =
     (case map_of (rev ps) k of Some v \<Rightarrow> Some v | None \<Rightarrow> lookup e k)"
proof (induction ps arbitrary: e)
  case (Cons p ps)
  obtain k' v' where p: "p = (k', v')"
    by fastforce
  then have wf': "wf (update e k' v')"
    using Cons.prems by (simp add: update_wf)
  have "lookup (foldl (\<lambda>e (k, v). update e k v) (update e k' v') ps) k =
      (case map_of (rev ps) k of Some v \<Rightarrow> Some v | None \<Rightarrow> lookup (update e k' v') k)"
    using Cons.prems by (intro Cons.IH wf') simp
  then show ?case
    using lookup_update [OF Cons.prems(1), of v' k'] Cons.prems(2) by (simp add: p map_add_def split: option.split)
qed simp

end

section \<open>Sorted vectors\<close>

lemma env_split:
  assumes "sorted_wrt (<) (map fst es)"
  shows "es = take (lowerBound es name) es @ drop (lowerBound es name) es"
    and "\<forall>e \<in> set (take (lowerBound es name) es). fst e < name"
    and "\<forall>e \<in> set (drop (lowerBound es name) es). name \<le> fst e"
proof -
  have take: "take (lowerBound es name) es = takeWhile (\<lambda>e. fst e < name) es"
    and drop: "drop (lowerBound es name) es = dropWhile (\<lambda>e. fst e < name) es"
    by (simp_all only: lowerBound_def takeWhile_eq_take [symmetric] dropWhile_eq_drop [symmetric])
  show "es = take (lowerBound es name) es @ drop (lowerBound es name) es"
    by simp
  show "\<forall>e \<in> set (take (lowerBound es name) es). fst e < name"
    unfolding take by (auto dest: set_takeWhileD)
  show "\<forall>e \<in> set (drop (lowerBound es name) es). name \<le> fst e"
  proof (cases "dropWhile (\<lambda>e. fst e < name) es")
    case (Cons e rest)
    then have "name \<le> fst e"
      using hd_dropWhile [of "\<lambda>e. fst e < name" es] by (auto simp: not_less)
    moreover have "sorted_wrt (<) (map fst (e # rest))"
      using sorted_wrt_drop [OF assms, of "lowerBound es name"] by (simp add: drop_map drop Cons)
    ultimately show ?thesis
      unfolding drop Cons by (auto intro: order.strict_implies_order order.strict_trans1)
  next
    case Nil
    show ?thesis
      unfolding drop Nil by simp
  qed
qed

lemma sorted_distinct: "sorted_wrt (<) (map fst es) \<Longrightarrow> distinct (map fst (es :: (string \<times> 'b) list))"
  by (simp add: strict_sorted_iff)

text \<open>The search agrees with a linear search.\<close>

lemma env_find_map_of:
  assumes "sorted_wrt (<) (map fst es)"
  shows "env_find es name = map_of es name"
proof -
  define i where "i = lowerBound es name"
  note split = env_split [OF assms, of name, folded i_def]
  have prefix: "map_of (take i es) name = None"
    using split(2) by (auto simp: map_of_eq_None_iff)
  have "map_of es name = map_of (drop i es) name"
    using prefix split(1) by (metis map_add_None map_of_append map_add_def option.simps(4))
  moreover have "env_find es name = map_of (drop i es) name"
  proof (cases "drop i es")
    case Nil
    then show ?thesis
      by (simp add: env_find_def env_at_def i_def)
  next
    case (Cons e rest)
    then have i: "i < length es" "es ! i = e"
      by (metis drop_all list.distinct(1) not_le, metis Cons nth_via_drop)
    have "sorted_wrt (<) (map fst (e # rest))"
      using sorted_wrt_drop [OF assms, of i] by (simp add: drop_map Cons)
    then have "map_of rest name = None" if "fst e \<noteq> name"
      using that split(3) Cons by (fastforce simp: map_of_eq_None_iff)
    then show ?thesis
      using i by (cases e) (auto simp: env_find_def env_at_def Let_def Cons simp flip: i_def)
  qed
  ultimately show ?thesis
    by simp
qed

lemma env_at_spec:
  assumes "sorted_wrt (<) (map fst es)" and "i = lowerBound es name"
  shows "(i < length es \<and> fst (es ! i) = name) \<longleftrightarrow> name \<in> fst ` set es"
proof -
  have "env_at es name = (if i < length es \<and> fst (es ! i) = name then Some i else None)"
    by (simp add: env_at_def assms(2) Let_def)
  moreover have "env_find es name = None \<longleftrightarrow> name \<notin> fst ` set es"
    by (simp add: env_find_map_of [OF assms(1)] map_of_eq_None_iff)
  ultimately show ?thesis
    by (simp add: env_find_def split: if_splits)
qed

lemma insert_at_sorted:
  assumes "sorted_wrt (<) (map fst es)" and "name \<notin> fst ` set es"
  shows "sorted_wrt (<) (map fst (insert_at (lowerBound es name) (name, t) es))"
    and "map_of (insert_at (lowerBound es name) (name, t) es) k = (if k = name then Some t else map_of es k)"
proof -
  define i where "i = lowerBound es name"
  note split = env_split [OF assms(1), of name, folded i_def]
  have strict: "\<forall>e \<in> set (drop i es). name < fst e"
    using split(3) assms(2) in_set_dropD [of _ i es] by (fastforce simp: order.order_iff_strict)
  have "sorted_wrt (<) (map fst (take i es) @ map fst (drop i es))"
    using assms(1) unfolding map_append [symmetric] append_take_drop_id .
  then have "sorted_wrt (<) (map fst (take i es))" "sorted_wrt (<) (map fst (drop i es))"
    "\<forall>x \<in> set (map fst (take i es)). \<forall>y \<in> set (map fst (drop i es)). x < y"
    unfolding sorted_wrt_append by blast+
  then show "sorted_wrt (<) (map fst (insert_at (lowerBound es name) (name, t) es))"
    using split(2) strict by (simp add: insert_at_def sorted_wrt_append flip: i_def)
  have "map_of es k = (map_of (drop i es) ++ map_of (take i es)) k"
    by (metis append_take_drop_id map_of_append)
  moreover have "map_of (take i es) name = None"
    using split(2) by (auto simp: map_of_eq_None_iff)
  ultimately show "map_of (insert_at (lowerBound es name) (name, t) es) k = (if k = name then Some t else map_of es k)"
    by (simp add: insert_at_def i_def [symmetric] map_add_def split: option.split)
qed

lemma list_update_sorted:
  fixes es :: env
  assumes "sorted_wrt (<) (map fst es)" and "i < length es" and "fst (es ! i) = name"
  shows "map fst (es[i := (name, t)]) = map fst es"
    and "map_of (es[i := (name, t)]) k = (if k = name then Some t else map_of es k)"
proof -
  show keys: "map fst (es[i := (name, t)]) = map fst es"
    using assms(2,3) by (metis fst_conv list_update_id map_update nth_map)
  have dist: "distinct (map fst es)" "distinct (map fst (es[i := (name, t)]))"
    using sorted_distinct [OF assms(1)] keys by simp_all
  show "map_of (es[i := (name, t)]) k = (if k = name then Some t else map_of es k)"
  proof (cases "k = name")
    case True
    have "(name, t) \<in> set (es[i := (name, t)])"
      using assms(2) by (simp add: set_update_memI)
    then show ?thesis
      using dist(2) True by simp
  next
    case False
    have "(k, v) \<in> set (es[i := (name, t)]) \<longleftrightarrow> (k, v) \<in> set es" for v
      using False assms(2,3) by (auto simp: in_set_conv_nth nth_list_update; metis fst_conv)
    then show ?thesis
      using dist False by (metis map_of_eq_None_iff map_of_eq_Some_iff option.exhaust keys list.set_map)
  qed
qed

lemma env_set_spec:
  assumes "env_wf es" and "wf_type t"
  shows "env_wf (env_set es name t)" and "env_find (env_set es name t) k = (if k = name then Some t else env_find es k)"
proof -
  have sorted: "sorted_wrt (<) (map fst es)"
    using assms(1) by (simp add: env_wf_def)
  define i where "i = lowerBound es name"
  have "i \<le> length es"
    by (simp add: i_def lowerBound_def length_takeWhile_le)
  have eq: "env_set es name t = (if name \<in> fst ` set es then es[i := (name, t)] else insert_at i (name, t) es)"
  proof (cases "name \<in> fst ` set es")
    case True
    then show ?thesis
      using env_at_spec [OF sorted i_def] by (auto simp: env_set_def env_subscript_def Let_def simp flip: i_def)
  next
    case False
    have "env_subscript es name = (insert_at i (name, ty_never) es, i)"
      using False env_at_spec [OF sorted i_def] \<open>i \<le> length es\<close> by (auto simp: env_subscript_def Let_def simp flip: i_def)
    moreover have "(insert_at i (name, ty_never) es)[i := (name, t)] = insert_at i (name, t) es"
      using \<open>i \<le> length es\<close> by (simp add: insert_at_def list_update_append)
    ultimately show ?thesis
      using False by (simp add: env_set_def)
  qed
  have both: "sorted_wrt (<) (map fst (env_set es name t)) \<and>
      map_of (env_set es name t) k = (if k = name then Some t else map_of es k)" for k
    using env_at_spec [OF sorted i_def] insert_at_sorted [OF sorted, of name t] list_update_sorted [OF sorted, of i name t] sorted
    by (auto simp: eq simp flip: i_def)
  have "\<forall>e \<in> set (env_set es name t). wf_type (snd e)"
    using assms unfolding eq env_wf_def insert_at_def
    by (auto dest: set_update_subset_insert [THEN subsetD] in_set_takeD in_set_dropD)
  then show "env_wf (env_set es name t)"
    using both by (simp add: env_wf_def)
  show "env_find (env_set es name t) k = (if k = name then Some t else env_find es k)"
    using both [of k] sorted by (simp add: env_find_map_of)
qed

lemma env_find_wf: "env_wf es \<Longrightarrow> env_find es k = Some t \<Longrightarrow> wf_type t"
  by (auto simp: env_wf_def env_find_map_of dest!: map_of_SomeD)

interpretation ev: bindings env_wf env_find env_set wf_type
  by unfold_locales (simp_all add: env_set_spec env_find_wf)

lemma env_emplace_spec:
  assumes "env_wf es" and "wf_type t"
  shows "env_emplace es name t = (if env_find es name = None then (env_set es name t, True) else (es, False))"
proof -
  have sorted: "sorted_wrt (<) (map fst es)"
    using assms(1) by (simp add: env_wf_def)
  define i where "i = lowerBound es name"
  have "i \<le> length es"
    by (simp add: i_def lowerBound_def length_takeWhile_le)
  then have "(insert_at i (name, ty_never) es)[i := (name, t)] = insert_at i (name, t) es"
    by (simp add: insert_at_def list_update_append)
  moreover have "env_find es name = None \<longleftrightarrow> \<not> (i < length es \<and> fst (es ! i) = name)"
    using env_at_spec [OF sorted i_def] by (simp add: env_find_map_of [OF sorted] map_of_eq_None_iff)
  ultimately show ?thesis
    using \<open>i \<le> length es\<close>
    by (auto simp: env_emplace_def env_set_def env_subscript_def Let_def simp flip: i_def)
qed

lemma env_erase_spec:
  assumes "env_wf es"
  shows "env_wf (fst (env_erase es name))"
    and "env_find (fst (env_erase es name)) k = (if k = name then None else env_find es k)"
    and "snd (env_erase es name) = env_count es name"
proof -
  have sorted: "sorted_wrt (<) (map fst es)"
    using assms by (simp add: env_wf_def)
  define i where "i = lowerBound es name"
  have at: "env_at es name = (if name \<in> fst ` set es then Some i else None)"
    using env_at_spec [OF sorted i_def] by (auto simp: env_at_def Let_def simp flip: i_def)
  have find: "env_find es name = None \<longleftrightarrow> name \<notin> fst ` set es"
    by (simp add: env_find_map_of [OF sorted] map_of_eq_None_iff)
  show "snd (env_erase es name) = env_count es name"
    using find by (simp add: env_erase_def env_count_def at)
  have "env_wf (fst (env_erase es name)) \<and>
      map_of (fst (env_erase es name)) k = (if k = name then None else map_of es k)"
  proof (cases "name \<in> fst ` set es")
    case False
    then show ?thesis
      using assms by (auto simp: env_erase_def at map_of_eq_None_iff)
  next
    case True
    then have i: "i < length es" "fst (es ! i) = name"
      using env_at_spec [OF sorted i_def] by simp_all
    define pre post where "pre = take i es" and "post = drop (Suc i) es"
    obtain t where es: "es = pre @ (name, t) # post"
      using i by (metis id_take_nth_drop pre_def post_def prod.collapse)
    have "sorted_wrt (<) (map fst (pre @ post))"
      using sorted unfolding es by (auto simp: sorted_wrt_append)
    moreover have "map_of pre name = None" "map_of post name = None"
      using sorted_distinct [OF sorted] unfolding es by (simp_all add: map_of_eq_None_iff)
    then have "map_of (pre @ post) k = (if k = name then None else map_of es k)"
      unfolding es by (simp add: map_add_def split: option.split)
    moreover have "fst (env_erase es name) = pre @ post"
      using True by (simp add: env_erase_def at pre_def post_def)
    moreover have "\<forall>e \<in> set (pre @ post). wf_type (snd e)"
      using assms unfolding env_wf_def by (subst (asm) (2) es) auto
    ultimately show ?thesis
      by (simp add: env_wf_def)
  qed
  then show "env_wf (fst (env_erase es name))"
    "env_find (fst (env_erase es name)) k = (if k = name then None else env_find es k)"
    using sorted by (simp_all add: env_find_map_of env_wf_def)
qed

section \<open>The merge of two environments\<close>

lemma joinEnv_walk_spec:
  assumes "sorted_wrt (<) (map fst a)" and "sorted_wrt (<) (map fst b)" and "sorted_wrt (<) (map fst out)"
    and "\<forall>x \<in> fst ` set out. \<forall>y \<in> fst ` set a \<inter> fst ` set b. x < y"
  shows "sorted_wrt (<) (map fst (joinEnv_walk a b out)) \<and>
         map_of (joinEnv_walk a b out) k =
           (case map_of out k of Some t \<Rightarrow> Some t
            | None \<Rightarrow> (case (map_of a k, map_of b k) of (Some s, Some t) \<Rightarrow> Some (join s t) | _ \<Rightarrow> None))"
  using assms
proof (induction a b out rule: joinEnv_walk.induct)
  case (1 x s a y t b out)
  consider "x < y" | "x > y" | "x = y"
    by (rule linorder_cases)
  then show ?case
  proof cases
    case 1
    have "x \<notin> fst ` set ((y, t) # b)"
      using 1 "1.prems"(2) by auto
    then have "map_of ((y, t) # b) x = None"
      by (simp only: map_of_eq_None_iff) simp
    moreover have "sorted_wrt (<) (map fst (joinEnv_walk a ((y, t) # b) out)) \<and>
        map_of (joinEnv_walk a ((y, t) # b) out) k =
          (case map_of out k of Some t \<Rightarrow> Some t
           | None \<Rightarrow> (case (map_of a k, map_of ((y, t) # b) k) of (Some s, Some t) \<Rightarrow> Some (join s t) | _ \<Rightarrow> None))"
      using 1 "1.prems" by (intro "1.IH"(1)) auto
    ultimately show ?thesis
      using 1 by (auto split: option.splits)
  next
    case 2
    have "y \<notin> fst ` set ((x, s) # a)"
      using 2 "1.prems"(1) by auto
    then have "map_of ((x, s) # a) y = None"
      by (simp only: map_of_eq_None_iff) simp
    moreover have "sorted_wrt (<) (map fst (joinEnv_walk ((x, s) # a) b out)) \<and>
        map_of (joinEnv_walk ((x, s) # a) b out) k =
          (case map_of out k of Some t \<Rightarrow> Some t
           | None \<Rightarrow> (case (map_of ((x, s) # a) k, map_of b k) of (Some s, Some t) \<Rightarrow> Some (join s t) | _ \<Rightarrow> None))"
      using 2 "1.prems" by (intro "1.IH"(2)) (auto dest: order.strict_trans)
    ultimately show ?thesis
      using 2 by (auto split: option.splits)
  next
    case 3
    define out' where "out' = appendSorted out x (join s t)"
    have tails: "\<forall>z \<in> fst ` set a. x < z" "\<forall>z \<in> fst ` set b. x < z" "\<forall>z \<in> fst ` set out. z < x"
      using 3 "1.prems" by auto
    have "sorted_wrt (<) (map fst out')"
      using "1.prems"(3) tails(3) by (simp add: out'_def appendSorted_def sorted_wrt_append)
    moreover have "\<forall>u \<in> fst ` set out'. \<forall>z \<in> fst ` set a \<inter> fst ` set b. u < z"
      using tails "1.prems"(4) by (auto simp: out'_def appendSorted_def)
    ultimately have "sorted_wrt (<) (map fst (joinEnv_walk a b out')) \<and>
        map_of (joinEnv_walk a b out') k =
          (case map_of out' k of Some t \<Rightarrow> Some t
           | None \<Rightarrow> (case (map_of a k, map_of b k) of (Some s, Some t) \<Rightarrow> Some (join s t) | _ \<Rightarrow> None))"
      using 3 "1.prems" unfolding out'_def by (intro "1.IH"(3)) auto
    moreover have "map_of out x = None"
      using tails(3) by (auto simp: map_of_eq_None_iff)
    ultimately show ?thesis
      using 3 by (auto simp: out'_def appendSorted_def map_add_def split: option.splits if_splits)
  qed
qed (auto split: option.splits)

lemma joinEnv_find:
  assumes "env_wf a" and "env_wf b"
  shows "env_find (joinEnv a b) k =
           (case (env_find a k, env_find b k) of (Some s, Some t) \<Rightarrow> Some (join s t) | _ \<Rightarrow> None)"
    and "env_wf (joinEnv a b)"
proof -
  have sorted: "sorted_wrt (<) (map fst a)" "sorted_wrt (<) (map fst b)"
    using assms by (simp_all add: env_wf_def)
  have walk: "sorted_wrt (<) (map fst (joinEnv a b)) \<and>
      map_of (joinEnv a b) k = (case (map_of a k, map_of b k) of (Some s, Some t) \<Rightarrow> Some (join s t) | _ \<Rightarrow> None)" for k
    using joinEnv_walk_spec [OF sorted, of "[]" k] by (simp add: joinEnv_def)
  then show find: "env_find (joinEnv a b) k =
      (case (env_find a k, env_find b k) of (Some s, Some t) \<Rightarrow> Some (join s t) | _ \<Rightarrow> None)" for k
    using sorted by (simp add: env_find_map_of)
  have "wf_type t" if "(k, t) \<in> set (joinEnv a b)" for k t
  proof -
    have srt: "sorted_wrt (<) (map fst (joinEnv a b))"
      using walk by blast
    have "env_find (joinEnv a b) k = Some t"
      using that sorted_distinct [OF srt] unfolding env_find_map_of [OF srt] by simp
    then show ?thesis
      using find [of k] env_find_wf [OF assms(1)] env_find_wf [OF assms(2)] by (auto split: option.splits)
  qed
  then show "env_wf (joinEnv a b)"
    using walk by (auto simp: env_wf_def)
qed

section \<open>Properties\<close>

text \<open>C25: The environment is a map kept as a sorted vector: writing, inserting and erasing a binding
  do to lookups what they do for a map, and keep the order the binary search relies on.\<close>

theorem env_refines_map:
  assumes "env_wf es" and "wf_type t"
  shows "env_wf (env_set es name t) \<and> env_find (env_set es name t) = (env_find es)(name \<mapsto> t) \<and>
         env_emplace es name t = (if env_find es name = None then (env_set es name t, True) else (es, False)) \<and>
         env_wf (fst (env_erase es name)) \<and> env_find (fst (env_erase es name)) = (env_find es)(name := None)"
  using env_set_spec [OF assms] env_emplace_spec [OF assms] env_erase_spec(1,2) [OF assms(1)]
  by (auto simp: fun_eq_iff)

theorem env_refines_map_witness:
  "env_find (env_set [(''a'', ty_number), (''c'', ty_string)] ''b'' ty_null) ''b'' = Some ty_null"
proof -
  have "env_wf [(''a'', ty_number), (''c'', ty_string)]"
    by (simp add: env_wf_def)
  then show ?thesis
    using env_refines_map [of "[(''a'', ty_number), (''c'', ty_string)]" ty_null "''b''"] by simp
qed



end
