(* ===== verification/Relational_Prover.thy ===== *)
theory Relational_Prover
  imports Operator_Types Type_Env "HOL-Library.AList"
begin

text \<open>
  Path-sensitive refinement (\<open>src/src/types/relational_prover.{h,cpp}\<close>): which variable types a branch
  condition proves on its truthy and on its falsy edge, and how they are applied to the environment.
  The expression nodes the prover looks at are constructors of \<open>expr\<close>; every other node is
  \<open>OtherExpr\<close> with the names it assigns. A refinement map is an association list, updated as an
  \<open>unordered_map\<close> is. The language's evaluation of conditions is the relation \<open>eval\<close>.
\<close>

section \<open>Definitions\<close>

datatype expr =
  UndefinedLit | NullLit | NumberLit int | StringLit string | BoolLit bool
| Ident string
| Unary UnaryOp expr
| Binary BinaryOp expr expr
| Call expr "expr list" bool
| MemberAccess expr string bool bool
| OtherExpr "string list"

type_synonym refinements = "(string \<times> type) list"
type_synonym type_lookup = "(string \<Rightarrow> type) option"
type_synonym user_binding = "(string \<Rightarrow> bool) option"

record ConditionRefinements =
  whenTrue :: refinements
  whenFalse :: refinements

definition no_refinements :: ConditionRefinements where
  "no_refinements = \<lparr>whenTrue = [], whenFalse = []\<rparr>"

fun is_user_bound :: "user_binding \<Rightarrow> string \<Rightarrow> bool" where
  "is_user_bound None name = False"
| "is_user_bound (Some f) name = f name"

fun isUndefinedExpr :: "expr \<Rightarrow> user_binding \<Rightarrow> bool" where
  "isUndefinedExpr UndefinedLit isUserBound = True"
| "isUndefinedExpr (Ident name) isUserBound =
     (name = ''undefined'' \<and> \<not> is_user_bound isUserBound ''undefined'')"
| "isUndefinedExpr (Unary op e) isUserBound = (op = Void)"
| "isUndefinedExpr _ isUserBound = False"

fun isNullLitExpr :: "expr \<Rightarrow> bool" where
  "isNullLitExpr NullLit = True"
| "isNullLitExpr _ = False"

definition typeofTagToType :: "string \<Rightarrow> type option" where
  "typeofTagToType tag =
     (if tag = ''number'' then Some ty_number
      else if tag = ''string'' then Some ty_string
      else if tag = ''boolean'' then Some ty_boolean
      else if tag = ''undefined'' then Some ty_undefined
      else if tag = ''function'' then Some (ty_function kNoFunctionIndex)
      else None)"

fun extractTypeofIdent :: "expr \<Rightarrow> string option" where
  "extractTypeofIdent (Unary TypeOf (Ident name)) = Some name"
| "extractTypeofIdent _ = None"

definition mergeConsistentRefinement :: "refinements \<Rightarrow> string \<times> type \<Rightarrow> refinements" where
  "mergeConsistentRefinement dst p =
     (let (name, t) = p
      in case map_of dst name of
           None \<Rightarrow> dst @ [(name, t)]
         | Some old \<Rightarrow>
             if old \<noteq> t \<and> is_kind old KDynamic \<and> \<not> is_kind t KDynamic then AList.update name t dst else dst)"

definition set_pos :: "bool \<Rightarrow> string \<Rightarrow> type \<Rightarrow> ConditionRefinements \<Rightarrow> ConditionRefinements" where
  "set_pos isNegated name t out =
     (if isNegated then out\<lparr>whenFalse := AList.update name t (whenFalse out)\<rparr>
      else out\<lparr>whenTrue := AList.update name t (whenTrue out)\<rparr>)"

definition set_neg :: "bool \<Rightarrow> string \<Rightarrow> type \<Rightarrow> ConditionRefinements \<Rightarrow> ConditionRefinements" where
  "set_neg isNegated name t out = set_pos (\<not> isNegated) name t out"

text \<open>Both lambdas answer \<open>None\<close> where the source's return \<open>false\<close>.\<close>

definition checkTypeofSide ::
    "bool \<Rightarrow> type_lookup \<Rightarrow> expr \<Rightarrow> expr \<Rightarrow> ConditionRefinements \<Rightarrow> ConditionRefinements option" where
  "checkTypeofSide isNegated lookupType typeofSide litSide out =
     (case (extractTypeofIdent typeofSide, litSide) of
        (Some name, StringLit tag) \<Rightarrow>
          (case typeofTagToType tag of
             None \<Rightarrow> None
           | Some mapped \<Rightarrow>
               (let out1 = set_pos isNegated name mapped out
                in Some
                     (case lookupType of
                        None \<Rightarrow> out1
                      | Some look \<Rightarrow>
                          if tag = ''undefined''
                          then (if isDynamicNumOrUndef (look name) then set_neg isNegated name ty_number out1 else out1)
                          else if tag = ''number''
                          then (if isDynamicNumOrUndef (look name) then set_neg isNegated name ty_undefined out1 else out1)
                          else out1)))
      | _ \<Rightarrow> None)"

definition checkIdentVsExpr ::
    "bool \<Rightarrow> bool \<Rightarrow> type_lookup \<Rightarrow> user_binding \<Rightarrow> expr \<Rightarrow> expr \<Rightarrow> ConditionRefinements \<Rightarrow>
     ConditionRefinements option" where
  "checkIdentVsExpr isNegated isLoose lookupType isUserBound side other out =
     (case side of
        Ident name \<Rightarrow>
          (let cur = (case lookupType of None \<Rightarrow> ty_dynamic | Some look \<Rightarrow> look name)
           in if isUndefinedExpr other isUserBound
              then (let out1 = (if \<not> isLoose then set_pos isNegated name ty_undefined out else out)
                    in Some (if isDynamicNumOrUndef cur then set_neg isNegated name ty_number out1 else out1))
              else if isNullLitExpr other
              then Some (if \<not> isLoose then set_pos isNegated name ty_null out
                         else if isDynamicNumOrUndef cur then set_neg isNegated name ty_number out else out)
              else if \<not> isLoose
              then (case other of
                      NumberLit n \<Rightarrow> Some (set_pos isNegated name ty_number out)
                    | StringLit s \<Rightarrow> Some (set_pos isNegated name ty_string out)
                    | BoolLit b \<Rightarrow> Some (set_pos isNegated name ty_boolean out)
                    | _ \<Rightarrow> None)
              else None)
      | _ \<Rightarrow> None)"

definition extractEqualityRefinement ::
    "BinaryOp \<Rightarrow> expr \<Rightarrow> expr \<Rightarrow> type_lookup \<Rightarrow> user_binding \<Rightarrow> ConditionRefinements \<Rightarrow> ConditionRefinements" where
  "extractEqualityRefinement op lhs rhs lookupType isUserBound out =
     (let isNegated = (op = StrictNe \<or> op = Ne);
          isLoose = (op = Eq \<or> op = Ne)
      in case checkTypeofSide isNegated lookupType lhs rhs out of
           Some out' \<Rightarrow> out'
         | None \<Rightarrow>
             (case checkTypeofSide isNegated lookupType rhs lhs out of
                Some out' \<Rightarrow> out'
              | None \<Rightarrow>
                  (case checkIdentVsExpr isNegated isLoose lookupType isUserBound lhs rhs out of
                     Some out' \<Rightarrow> out'
                   | None \<Rightarrow>
                       (case checkIdentVsExpr isNegated isLoose lookupType isUserBound rhs lhs out of
                          Some out' \<Rightarrow> out'
                        | None \<Rightarrow> out))))"

fun extractCallRefinement :: "expr \<Rightarrow> expr list \<Rightarrow> bool \<Rightarrow> user_binding \<Rightarrow> ConditionRefinements \<Rightarrow> ConditionRefinements" where
  "extractCallRefinement callee [Ident arg] False isUserBound out =
     (case callee of
        MemberAccess (Ident base) prop opt priv \<Rightarrow>
          if opt \<or> priv \<or> is_user_bound isUserBound base then out
          else if base = ''Number''
          then (if prop \<in> {''isFinite'', ''isInteger'', ''isSafeInteger'', ''isNaN''}
                then out\<lparr>whenTrue := AList.update arg ty_number (whenTrue out)\<rparr> else out)
          else if base = ''Array''
          then (if prop = ''isArray'' then out\<lparr>whenTrue := AList.update arg ty_array (whenTrue out)\<rparr> else out)
          else out
      | _ \<Rightarrow> out)"
| "extractCallRefinement callee args opt isUserBound out = out"

text \<open>The names both maps refine, with the join of the two types unless that is \<open>Dynamic\<close>.\<close>

definition join_refinements :: "refinements \<Rightarrow> refinements \<Rightarrow> refinements" where
  "join_refinements lhs rhs =
     foldl (\<lambda>out (name, t).
        case map_of rhs name of
          None \<Rightarrow> out
        | Some u \<Rightarrow> (let joined = join t u in if is_kind joined KDynamic then out else AList.update name joined out)) [] lhs"

fun extractConditionRefinements :: "expr \<Rightarrow> type_lookup \<Rightarrow> user_binding \<Rightarrow> ConditionRefinements" where
  "extractConditionRefinements (Unary op e) lookupType isUserBound =
     (if op = Not
      then (let inner = extractConditionRefinements e lookupType isUserBound
            in \<lparr>whenTrue = whenFalse inner, whenFalse = whenTrue inner\<rparr>)
      else no_refinements)"
| "extractConditionRefinements (Binary op l r) lookupType isUserBound =
     (if op = StrictEq \<or> op = StrictNe \<or> op = Eq \<or> op = Ne
      then extractEqualityRefinement op l r lookupType isUserBound no_refinements
      else if op = LogicalAnd
      then (let lhs = extractConditionRefinements l lookupType isUserBound;
                rhs = extractConditionRefinements r lookupType isUserBound
            in \<lparr>whenTrue = foldl mergeConsistentRefinement (whenTrue lhs) (whenTrue rhs),
                whenFalse = join_refinements (whenFalse lhs) (whenFalse rhs)\<rparr>)
      else if op = LogicalOr
      then (let lhs = extractConditionRefinements l lookupType isUserBound;
                rhs = extractConditionRefinements r lookupType isUserBound
            in \<lparr>whenTrue = join_refinements (whenTrue lhs) (whenTrue rhs),
                whenFalse = foldl mergeConsistentRefinement (whenFalse lhs) (whenFalse rhs)\<rparr>)
      else no_refinements)"
| "extractConditionRefinements (Call callee args opt) lookupType isUserBound =
     extractCallRefinement callee args opt isUserBound no_refinements"
| "extractConditionRefinements _ lookupType isUserBound = no_refinements"

text \<open>Applying a refinement map to an environment; the second component is what the source returns for
  restoring.\<close>

definition refine_step :: "(string \<Rightarrow> bool) option \<Rightarrow> env \<times> refinements \<Rightarrow> string \<times> type \<Rightarrow> env \<times> refinements" where
  "refine_step isCell acc p =
     (let (env, saved) = acc; (name, refinedType) = p
      in if is_user_bound isCell name then (env, saved)
         else case env_find env name of
                None \<Rightarrow> (env, saved)
              | Some cur \<Rightarrow>
                  if is_kind cur KDynamic \<or> isDynamicNumOrUndef cur
                  then (env_set env name refinedType, saved @ [(name, cur)]) else (env, saved))"

definition applyConditionRefinements :: "env \<Rightarrow> refinements \<Rightarrow> (string \<Rightarrow> bool) option \<Rightarrow> env \<times> refinements" where
  "applyConditionRefinements env refinements isCell = foldl (refine_step isCell) (env, []) refinements"

text \<open>Statements, for the early-exit test.\<close>

datatype stmt =
  ReturnStmt | ThrowStmt | BreakStmt | ContinueStmt
| BlockStmt "stmt list"
| IfStmt "stmt list" "stmt list"
| OtherStmt

fun stmtDefinitelyTerminates :: "stmt \<Rightarrow> bool"
  and stmtListDefinitelyTerminates :: "stmt list \<Rightarrow> bool"
where
  "stmtDefinitelyTerminates ReturnStmt = True"
| "stmtDefinitelyTerminates ThrowStmt = True"
| "stmtDefinitelyTerminates BreakStmt = True"
| "stmtDefinitelyTerminates ContinueStmt = True"
| "stmtDefinitelyTerminates (BlockStmt ss) = stmtListDefinitelyTerminates ss"
| "stmtDefinitelyTerminates (IfStmt thenBody elseBody) =
     (thenBody \<noteq> [] \<and> elseBody \<noteq> [] \<and> stmtListDefinitelyTerminates thenBody \<and> stmtListDefinitelyTerminates elseBody)"
| "stmtDefinitelyTerminates OtherStmt = False"
| "stmtListDefinitelyTerminates [] = False"
| "stmtListDefinitelyTerminates (s # ss) = (stmtDefinitelyTerminates s \<or> stmtListDefinitelyTerminates ss)"

section \<open>Evaluating a condition\<close>

type_synonym store = "string \<Rightarrow> jsval"

fun typeof_tag :: "jsval \<Rightarrow> string" where
  "typeof_tag (JNumber n) = ''number''"
| "typeof_tag (JBool b) = ''boolean''"
| "typeof_tag (JString s) = ''string''"
| "typeof_tag JUndefined = ''undefined''"
| "typeof_tag JNull = ''object''"
| "typeof_tag (JBigInt i) = ''bigint''"
| "typeof_tag (JSymbol n) = ''symbol''"
| "typeof_tag (JFunction R) = ''function''"
| "typeof_tag _ = ''object''"

text \<open>Equality of values as far as it is determined by kinds and primitive contents; a Number may be
  unequal to itself, objects compare by an identity the values do not carry.\<close>

definition strict_eq :: "jsval \<Rightarrow> jsval \<Rightarrow> bool \<Rightarrow> bool" where
  "strict_eq x y b \<longleftrightarrow>
     (b \<longrightarrow> val_kind x = val_kind y \<and> (\<not> is_objectlike x \<longrightarrow> x = y)) \<and>
     (x = y \<and> \<not> is_objectlike x \<and> val_kind x \<noteq> KNumber \<longrightarrow> b)"

definition loose_eq :: "jsval \<Rightarrow> jsval \<Rightarrow> bool \<Rightarrow> bool" where
  "loose_eq x y b \<longleftrightarrow>
     (y \<in> {JUndefined, JNull} \<longrightarrow> (b \<longleftrightarrow> x \<in> {JUndefined, JNull})) \<and>
     (x \<in> {JUndefined, JNull} \<longrightarrow> (b \<longleftrightarrow> y \<in> {JUndefined, JNull})) \<and>
     (is_string x \<and> is_string y \<longrightarrow> (b \<longleftrightarrow> x = y))"

definition assigns_var :: "UnaryOp \<Rightarrow> bool" where
  "assigns_var op \<longleftrightarrow> op \<in> {PreInc, PreDec, PostInc, PostDec}"

fun assigned :: "expr \<Rightarrow> string set" where
  "assigned (Unary op (Ident x)) = (if assigns_var op then {x} else {})"
| "assigned (Unary op e) = assigned e"
| "assigned (Binary op (Ident x) r) = (if isAssignOp op then {x} else {}) \<union> assigned r"
| "assigned (Binary op l r) = assigned l \<union> assigned r"
| "assigned (Call f args opt) = assigned f \<union> (\<Union>a \<in> set args. assigned a)"
| "assigned (MemberAccess e p opt priv) = assigned e"
| "assigned (OtherExpr xs) = set xs"
| "assigned _ = {}"

inductive eval :: "user_binding \<Rightarrow> store \<Rightarrow> expr \<Rightarrow> jsval \<Rightarrow> store \<Rightarrow> bool" for ub where
  ev_undefined: "eval ub \<sigma> UndefinedLit JUndefined \<sigma>"
| ev_null: "eval ub \<sigma> NullLit JNull \<sigma>"
| ev_number: "eval ub \<sigma> (NumberLit n) (JNumber n) \<sigma>"
| ev_string: "eval ub \<sigma> (StringLit s) (JString s) \<sigma>"
| ev_bool: "eval ub \<sigma> (BoolLit b) (JBool b) \<sigma>"
| ev_global_undefined: "\<not> is_user_bound ub ''undefined'' \<Longrightarrow> eval ub \<sigma> (Ident ''undefined'') JUndefined \<sigma>"
| ev_ident: "x \<noteq> ''undefined'' \<or> is_user_bound ub x \<Longrightarrow> eval ub \<sigma> (Ident x) (\<sigma> x) \<sigma>"
| ev_not: "eval ub \<sigma> e v \<sigma>' \<Longrightarrow> eval ub \<sigma> (Unary Not e) (JBool (\<not> truthy v)) \<sigma>'"
| ev_typeof: "eval ub \<sigma> e v \<sigma>' \<Longrightarrow> eval ub \<sigma> (Unary TypeOf e) (JString (typeof_tag v)) \<sigma>'"
| ev_void: "eval ub \<sigma> e v \<sigma>' \<Longrightarrow> eval ub \<sigma> (Unary Void e) JUndefined \<sigma>'"
| ev_unary: "op \<notin> {Not, TypeOf, Void} \<Longrightarrow> (\<forall>x. x \<notin> assigned (Unary op e) \<longrightarrow> \<sigma>' x = \<sigma> x) \<Longrightarrow>
    eval ub \<sigma> (Unary op e) v \<sigma>'"
| ev_strict: "eval ub \<sigma> l x \<sigma>1 \<Longrightarrow> eval ub \<sigma>1 r y \<sigma>2 \<Longrightarrow> strict_eq x y b \<Longrightarrow>
    eval ub \<sigma> (Binary StrictEq l r) (JBool b) \<sigma>2"
| ev_strict_ne: "eval ub \<sigma> l x \<sigma>1 \<Longrightarrow> eval ub \<sigma>1 r y \<sigma>2 \<Longrightarrow> strict_eq x y b \<Longrightarrow>
    eval ub \<sigma> (Binary StrictNe l r) (JBool (\<not> b)) \<sigma>2"
| ev_loose: "eval ub \<sigma> l x \<sigma>1 \<Longrightarrow> eval ub \<sigma>1 r y \<sigma>2 \<Longrightarrow> loose_eq x y b \<Longrightarrow>
    eval ub \<sigma> (Binary Eq l r) (JBool b) \<sigma>2"
| ev_loose_ne: "eval ub \<sigma> l x \<sigma>1 \<Longrightarrow> eval ub \<sigma>1 r y \<sigma>2 \<Longrightarrow> loose_eq x y b \<Longrightarrow>
    eval ub \<sigma> (Binary Ne l r) (JBool (\<not> b)) \<sigma>2"
| ev_and_false: "eval ub \<sigma> l v \<sigma>1 \<Longrightarrow> \<not> truthy v \<Longrightarrow> eval ub \<sigma> (Binary LogicalAnd l r) v \<sigma>1"
| ev_and_true: "eval ub \<sigma> l u \<sigma>1 \<Longrightarrow> truthy u \<Longrightarrow> eval ub \<sigma>1 r v \<sigma>2 \<Longrightarrow>
    eval ub \<sigma> (Binary LogicalAnd l r) v \<sigma>2"
| ev_or_true: "eval ub \<sigma> l v \<sigma>1 \<Longrightarrow> truthy v \<Longrightarrow> eval ub \<sigma> (Binary LogicalOr l r) v \<sigma>1"
| ev_or_false: "eval ub \<sigma> l u \<sigma>1 \<Longrightarrow> \<not> truthy u \<Longrightarrow> eval ub \<sigma>1 r v \<sigma>2 \<Longrightarrow>
    eval ub \<sigma> (Binary LogicalOr l r) v \<sigma>2"
| ev_assign: "eval ub \<sigma> r v \<sigma>1 \<Longrightarrow> eval ub \<sigma> (Binary Assign (Ident x) r) v (\<sigma>1(x := v))"
| ev_binary: "op \<notin> {StrictEq, StrictNe, Eq, Ne, LogicalAnd, LogicalOr} \<Longrightarrow>
    (\<forall>x. x \<notin> assigned (Binary op l r) \<longrightarrow> \<sigma>' x = \<sigma> x) \<Longrightarrow> eval ub \<sigma> (Binary op l r) v \<sigma>'"
| ev_number_test: "\<not> is_user_bound ub ''Number'' \<Longrightarrow> prop \<in> {''isFinite'', ''isInteger'', ''isSafeInteger'', ''isNaN''} \<Longrightarrow>
    eval ub \<sigma> e w \<sigma>' \<Longrightarrow> (b \<longrightarrow> val_kind w = KNumber) \<Longrightarrow>
    eval ub \<sigma> (Call (MemberAccess (Ident ''Number'') prop False False) [e] False) (JBool b) \<sigma>'"
| ev_array_test: "\<not> is_user_bound ub ''Array'' \<Longrightarrow> eval ub \<sigma> e w \<sigma>' \<Longrightarrow>
    eval ub \<sigma> (Call (MemberAccess (Ident ''Array'') ''isArray'' False False) [e] False) (JBool (val_kind w = KArray)) \<sigma>'"
| ev_call: "\<not> (opt = False \<and> (\<exists>base prop e. f = MemberAccess (Ident base) prop False False \<and> args = [e] \<and>
      \<not> is_user_bound ub base \<and> (base = ''Number'' \<and> prop \<in> {''isFinite'', ''isInteger'', ''isSafeInteger'', ''isNaN''} \<or>
        base = ''Array'' \<and> prop = ''isArray''))) \<Longrightarrow>
    (\<forall>x. x \<notin> assigned (Call f args opt) \<longrightarrow> \<sigma>' x = \<sigma> x) \<Longrightarrow> eval ub \<sigma> (Call f args opt) v \<sigma>'"
| ev_member: "(\<forall>x. x \<notin> assigned (MemberAccess e p opt priv) \<longrightarrow> \<sigma>' x = \<sigma> x) \<Longrightarrow>
    eval ub \<sigma> (MemberAccess e p opt priv) v \<sigma>'"
| ev_other: "(\<forall>x. x \<notin> set xs \<longrightarrow> \<sigma>' x = \<sigma> x) \<Longrightarrow> eval ub \<sigma> (OtherExpr xs) v \<sigma>'"

inductive_cases eval_lit_cases:
  "eval ub \<sigma> UndefinedLit v \<sigma>'" "eval ub \<sigma> NullLit v \<sigma>'" "eval ub \<sigma> (NumberLit n) v \<sigma>'"
  "eval ub \<sigma> (StringLit s) v \<sigma>'" "eval ub \<sigma> (BoolLit b) v \<sigma>'"
inductive_cases eval_ident_cases: "eval ub \<sigma> (Ident x) v \<sigma>'"
inductive_cases eval_unary_cases: "eval ub \<sigma> (Unary op e) v \<sigma>'"
inductive_cases eval_binary_cases: "eval ub \<sigma> (Binary op l r) v \<sigma>'"
inductive_cases eval_call_cases: "eval ub \<sigma> (Call f args opt) v \<sigma>'"

section \<open>Evaluation leaves unassigned variables alone\<close>

lemma assigned_Unary: "assigned e \<subseteq> assigned (Unary op e)"
  by (cases e) auto

lemma assigned_Binary: "assigned l \<union> assigned r \<subseteq> assigned (Binary op l r)"
  by (cases l) auto

lemma eval_frame: "eval ub \<sigma> e v \<sigma>' \<Longrightarrow> x \<notin> assigned e \<Longrightarrow> \<sigma>' x = \<sigma> x"
proof (induction rule: eval.induct)
  case (ev_assign \<sigma> r v \<sigma>1 y)
  then show ?case
    by (auto simp: isAssignOp_def)
qed (use assigned_Unary assigned_Binary in \<open>fastforce+\<close>)

section \<open>One comparison\<close>

text \<open>A name evaluates to its variable unless it is the global \<open>undefined\<close>.\<close>

definition is_var :: "user_binding \<Rightarrow> string \<Rightarrow> bool" where
  "is_var ub x \<longleftrightarrow> x \<noteq> ''undefined'' \<or> is_user_bound ub x"

lemma eval_Ident: "eval ub \<sigma> (Ident x) v \<sigma>' \<Longrightarrow> is_var ub x \<Longrightarrow> v = \<sigma> x \<and> \<sigma>' = \<sigma>"
  by (auto simp: is_var_def elim: eval_ident_cases)

lemma eval_undefined: "isUndefinedExpr e ub \<Longrightarrow> eval ub \<sigma> e v \<sigma>' \<Longrightarrow> v = JUndefined"
  by (cases e) (auto elim: eval_lit_cases eval_ident_cases eval_unary_cases)

text \<open>The refinements in force on the edge taken, given whether the equality holds.\<close>

definition edge :: "bool \<Rightarrow> bool \<Rightarrow> ConditionRefinements \<Rightarrow> refinements" where
  "edge isNegated b out = (if b \<noteq> isNegated then whenTrue out else whenFalse out)"

lemma set_AList_update: "set (AList.update k v al) \<subseteq> insert (k, v) (set al)"
  by (induction al) auto

lemma edge_set_pos:
  "p \<in> set (edge isNegated b (set_pos isNegated name t out)) \<Longrightarrow>
   (b \<and> p = (name, t)) \<or> p \<in> set (edge isNegated b out)"
  using set_AList_update by (fastforce simp: edge_def set_pos_def split: if_splits)

lemma edge_set_neg:
  "p \<in> set (edge isNegated b (set_neg isNegated name t out)) \<Longrightarrow>
   (\<not> b \<and> p = (name, t)) \<or> p \<in> set (edge isNegated b out)"
  using set_AList_update by (fastforce simp: edge_def set_neg_def set_pos_def split: if_splits)

lemma edge_empty [simp]: "edge isNegated b no_refinements = []"
  by (simp add: edge_def no_refinements_def)

lemma typeof_tag_sound: "typeofTagToType (typeof_tag w) = Some t \<Longrightarrow> gamma sig t w"
  by (cases w) (auto simp: typeofTagToType_def split: if_splits)

lemma typeof_tag_num_or_undef:
  assumes "gamma sig dynamicNumOrUndef w"
  shows "typeof_tag w \<noteq> ''undefined'' \<Longrightarrow> val_kind w = KNumber" "typeof_tag w \<noteq> ''number'' \<Longrightarrow> val_kind w = KUndefined"
  using assms by (cases w; simp)+

lemma checkTypeofSide_sound:
  assumes "checkTypeofSide isNegated (Some look) ts ls no_refinements = Some out"
    and "p \<in> set (edge isNegated b out)"
    and "\<And>tag. extractTypeofIdent ts = Some (fst p) \<Longrightarrow> ls = StringLit tag \<Longrightarrow> (b \<longleftrightarrow> typeof_tag (val (fst p)) = tag)"
    and "gamma sig (look (fst p)) (val (fst p))"
  shows "gamma sig (snd p) (val (fst p))"
proof -
  obtain name tag mapped where ts: "extractTypeofIdent ts = Some name" "ls = StringLit tag"
    and mapped: "typeofTagToType tag = Some mapped"
    using assms(1) by (auto simp: checkTypeofSide_def split: option.splits expr.splits)
  have b: "b \<longleftrightarrow> typeof_tag (val name) = tag" if "fst p = name"
    using assms(3) ts that by blast
  have nou: "gamma sig dynamicNumOrUndef (val name)" if "isDynamicNumOrUndef (look name)" "fst p = name"
    using that assms(4) gamma_num_or_undef by (metis)
  define out1 where "out1 = set_pos isNegated name mapped no_refinements"
  have out1: "b \<and> q = (name, mapped)" if "q \<in> set (edge isNegated b out1)" for q
    using edge_set_pos [OF that [unfolded out1_def]] by simp
  have "out = out1 \<or> out = set_neg isNegated name ty_number out1 \<and> tag = ''undefined'' \<and> isDynamicNumOrUndef (look name) \<or>
      out = set_neg isNegated name ty_undefined out1 \<and> tag = ''number'' \<and> isDynamicNumOrUndef (look name)"
    using assms(1) ts mapped by (auto simp: checkTypeofSide_def out1_def Let_def split: if_splits)
  then consider "b" "p = (name, mapped)" | "\<not> b" "p = (name, ty_number)" "tag = ''undefined''" "isDynamicNumOrUndef (look name)"
    | "\<not> b" "p = (name, ty_undefined)" "tag = ''number''" "isDynamicNumOrUndef (look name)"
    using assms(2) out1 edge_set_neg by metis
  then show ?thesis
  proof cases
    case 1
    then show ?thesis
      using typeof_tag_sound [of "val name" mapped sig] b mapped by simp
  next
    case 2
    then show ?thesis
      using typeof_tag_num_or_undef(1) [OF nou] b by simp
  next
    case 3
    then show ?thesis
      using typeof_tag_num_or_undef(2) [OF nou] b by simp
  qed
qed

text \<open>What the prover may assume of the value of the operand a name is compared with.\<close>

definition operand_value :: "user_binding \<Rightarrow> expr \<Rightarrow> jsval \<Rightarrow> bool" where
  "operand_value ub e y \<longleftrightarrow>
     (isUndefinedExpr e ub \<longrightarrow> y = JUndefined) \<and> (isNullLitExpr e \<longrightarrow> y = JNull) \<and>
     (\<forall>n. e = NumberLit n \<longrightarrow> y = JNumber n) \<and> (\<forall>s. e = StringLit s \<longrightarrow> y = JString s) \<and>
     (\<forall>c. e = BoolLit c \<longrightarrow> y = JBool c)"

lemma eval_operand: "eval ub \<sigma> e y \<sigma>' \<Longrightarrow> operand_value ub e y"
  unfolding operand_value_def
  by (cases e) (auto elim: eval_lit_cases eval_ident_cases eval_unary_cases)

definition equality :: "bool \<Rightarrow> jsval \<Rightarrow> jsval \<Rightarrow> bool \<Rightarrow> bool" where
  "equality isLoose x y b \<longleftrightarrow> (if isLoose then loose_eq x y b else strict_eq x y b)"

lemma objectlike_kind: "val_kind x = val_kind y \<Longrightarrow> is_objectlike x = is_objectlike y"
  by (cases x; cases y) simp_all

lemma equality_sym: "equality isLoose x y b \<Longrightarrow> equality isLoose y x b"
proof -
  have "loose_eq y x b" if "loose_eq x y b"
    using that unfolding loose_eq_def by blast
  moreover have "strict_eq y x b" if "strict_eq x y b"
    using that objectlike_kind [of x y] unfolding strict_eq_def by metis
  ultimately show "equality isLoose x y b \<Longrightarrow> equality isLoose y x b"
    by (simp add: equality_def split: if_splits)
qed

lemma equality_nullish:
  assumes "equality isLoose x y False" and "y = JUndefined \<or> y = JNull"
  shows "x \<noteq> y" and "isLoose \<Longrightarrow> x \<noteq> JUndefined \<and> x \<noteq> JNull"
proof -
  show loose: "x \<noteq> JUndefined \<and> x \<noteq> JNull" if isLoose
    using assms(1) assms(2) that unfolding equality_def loose_eq_def by simp
  have "\<not> strict_eq y y False"
    using assms(2) by (elim disjE) (simp_all add: strict_eq_def)
  then show "x \<noteq> y"
    using assms(1) assms(2) loose by (cases isLoose) (auto simp only: equality_def if_True if_False)
qed

lemma strict_kind: "equality False x y True \<Longrightarrow> val_kind x = val_kind y"
  by (simp add: equality_def strict_eq_def)

lemma edge_updates:
  "q \<in> set (edge isNegated b (set_pos isNegated name u no_refinements)) \<Longrightarrow> b \<and> q = (name, u)"
  "q \<in> set (edge isNegated b (set_neg isNegated name t no_refinements)) \<Longrightarrow> \<not> b \<and> q = (name, t)"
  "q \<in> set (edge isNegated b (set_neg isNegated name t (set_pos isNegated name u no_refinements))) \<Longrightarrow>
     b \<and> q = (name, u) \<or> \<not> b \<and> q = (name, t)"
  by (auto dest!: edge_set_neg edge_set_pos)

lemma num_or_undef_value:
  assumes "gamma sig t v" and "isDynamicNumOrUndef t" and "v \<noteq> JUndefined"
  shows "val_kind v = KNumber"
proof -
  have "gamma sig dynamicNumOrUndef v"
    using gamma_num_or_undef assms(1,2) by blast
  then show ?thesis
    using assms(3) by (cases v) simp_all
qed

text \<open>What one comparison can put on an edge: on the equal edge the kind of the other operand, on the
  unequal edge Number, for a name known to be Number or undefined that was compared with a nullish
  operand.\<close>

lemma checkIdentVsExpr_edge:
  assumes "checkIdentVsExpr isNegated isLoose (Some look) ub (Ident name) e no_refinements = Some out"
    and "p \<in> set (edge isNegated b out)" and "operand_value ub e y"
  shows "b \<and> \<not> isLoose \<and> fst p = name \<and> (\<forall>sig w. val_kind w = val_kind y \<longrightarrow> gamma sig (snd p) w) \<or>
    \<not> b \<and> p = (name, ty_number) \<and> isDynamicNumOrUndef (look name) \<and> (y = JUndefined \<or> isLoose \<and> y = JNull)"
proof -
  consider "isUndefinedExpr e ub" "y = JUndefined" | "\<not> isUndefinedExpr e ub" "isNullLitExpr e" "y = JNull"
    | "\<not> isUndefinedExpr e ub" "\<not> isNullLitExpr e"
    using assms(3) by (auto simp: operand_value_def)
  then show ?thesis
  proof cases
    case 1
    then show ?thesis
      using assms(1,2) by (auto simp: checkIdentVsExpr_def Let_def split: if_splits dest!: edge_updates)
  next
    case 2
    then show ?thesis
      using assms(1,2) by (auto simp: checkIdentVsExpr_def Let_def split: if_splits dest!: edge_updates)
  next
    case 3
    then show ?thesis
      using assms by (auto simp: checkIdentVsExpr_def operand_value_def Let_def split: if_splits expr.splits dest!: edge_updates)
  qed
qed

lemma checkIdentVsExpr_sound:
  assumes "checkIdentVsExpr isNegated isLoose (Some look) ub (Ident name) e no_refinements = Some out"
    and "p \<in> set (edge isNegated b out)"
    and "equality isLoose (val name) y b" and "operand_value ub e y"
    and "gamma sig (look (fst p)) (val (fst p))"
  shows "gamma sig (snd p) (val (fst p))"
  using checkIdentVsExpr_edge [OF assms(1,2,4)]
proof (elim disjE conjE)
  assume b: "b" "\<not> isLoose" and p: "fst p = name" and kinds: "\<forall>sig w. val_kind w = val_kind y \<longrightarrow> gamma sig (snd p) w"
  have "equality False (val name) y True"
    using assms(3) b by simp
  then show ?thesis
    using kinds strict_kind p by simp
next
  assume b: "\<not> b" and p: "p = (name, ty_number)" "isDynamicNumOrUndef (look name)" and y: "y = JUndefined"
  have "equality isLoose (val name) y False"
    using assms(3) b by simp
  then have "val name \<noteq> JUndefined"
    using equality_nullish(1) y by blast
  then show ?thesis
    using num_or_undef_value assms(5) p by simp
next
  assume b: "\<not> b" and p: "p = (name, ty_number)" "isDynamicNumOrUndef (look name)" and y: "isLoose" "y = JNull"
  have "equality isLoose (val name) y False"
    using assms(3) b by simp
  then have "val name \<noteq> JUndefined"
    using equality_nullish(2) y by blast
  then show ?thesis
    using num_or_undef_value assms(5) p by simp
qed

section \<open>A whole condition\<close>

text \<open>One comparison read from either side: \<open>s\<close> is the operand the names come from, \<open>c\<close> the other.\<close>

lemma equality_strings: "equality isLoose (JString a) (JString c) b \<Longrightarrow> b \<longleftrightarrow> a = c"
  by (cases isLoose) (auto simp: equality_def loose_eq_def strict_eq_def)

lemma eval_typeof:
  assumes "extractTypeofIdent e = Some x" and "eval ub \<tau> e v \<tau>'" and "is_var ub x"
  shows "v = JString (typeof_tag (\<tau> x))"
proof -
  have "e = Unary TypeOf (Ident x)"
    using assms(1) by (elim extractTypeofIdent.elims) simp_all
  then show ?thesis
    using assms(2,3) by (auto elim!: eval_unary_cases dest!: eval_Ident)
qed

lemma one_side_sound:
  assumes "checkTypeofSide isNegated (Some look) s c no_refinements = Some out \<or>
      checkIdentVsExpr isNegated isLoose (Some look) ub s c no_refinements = Some out"
    and "eval ub \<tau> s vs \<tau>'" and "operand_value ub c vc" and "equality isLoose vs vc b"
    and "(x, t) \<in> set (edge isNegated b out)" and "is_var ub x" and "gamma sig (look x) (\<tau> x)"
  shows "gamma sig t (\<tau> x)"
  using assms(1)
proof
  assume side: "checkTypeofSide isNegated (Some look) s c no_refinements = Some out"
  have "b \<longleftrightarrow> typeof_tag (\<tau> x) = tag" if "extractTypeofIdent s = Some x" "c = StringLit tag" for tag
    using eval_typeof [OF that(1) assms(2,6)] assms(3,4) that(2) equality_strings by (simp add: operand_value_def)
  then show ?thesis
    using checkTypeofSide_sound [OF side assms(5), of \<tau> sig] assms(7) by simp
next
  assume side: "checkIdentVsExpr isNegated isLoose (Some look) ub s c no_refinements = Some out"
  then obtain name where s: "s = Ident name"
    by (auto simp: checkIdentVsExpr_def split: expr.splits)
  have "x = name"
    using checkIdentVsExpr_edge [OF side [unfolded s] assms(5,3)] by auto
  then have "vs = \<tau> x"
    using assms(2,6) s eval_Ident by blast
  then show ?thesis
    using checkIdentVsExpr_sound [OF side [unfolded s] assms(5) _ assms(3), of \<tau> sig] assms(4,7) \<open>x = name\<close> by simp
qed

lemma eval_comparison:
  assumes "eval ub \<sigma> (Binary op l r) v \<sigma>'" and "op = StrictEq \<or> op = StrictNe \<or> op = Eq \<or> op = Ne"
  shows "\<exists>u w \<sigma>1 b. eval ub \<sigma> l u \<sigma>1 \<and> eval ub \<sigma>1 r w \<sigma>' \<and> equality (op = Eq \<or> op = Ne) u w b \<and>
    v = JBool (b \<noteq> (op = StrictNe \<or> op = Ne))"
  by (rule eval_binary_cases [OF assms(1)]) (use assms(2) in \<open>fastforce simp: equality_def\<close>)+

lemma extractEqualityRefinement_sides:
  assumes "extractEqualityRefinement op l r look ub no_refinements = out" and "out \<noteq> no_refinements"
    and "isNegated = (op = StrictNe \<or> op = Ne)" and "isLoose = (op = Eq \<or> op = Ne)"
  shows "(checkTypeofSide isNegated look l r no_refinements = Some out \<or>
      checkIdentVsExpr isNegated isLoose look ub l r no_refinements = Some out) \<or>
    (checkTypeofSide isNegated look r l no_refinements = Some out \<or>
      checkIdentVsExpr isNegated isLoose look ub r l no_refinements = Some out)"
  using assms(1,2)
  by (auto simp: extractEqualityRefinement_def simp flip: assms(3,4) split: option.splits)

lemma extractEqualityRefinement_sound:
  assumes "eval ub \<sigma> (Binary op l r) v \<sigma>'" and op: "op = StrictEq \<or> op = StrictNe \<or> op = Eq \<or> op = Ne"
    and "(x, t) \<in> set (edge False (truthy v) (extractEqualityRefinement op l r (Some look) ub no_refinements))"
    and x: "x \<notin> assigned (Binary op l r)" "is_var ub x" and "gamma sig (look x) (\<sigma> x)"
  shows "gamma sig t (\<sigma>' x)"
proof -
  define isNegated isLoose where "isNegated = (op = StrictNe \<or> op = Ne)" and "isLoose = (op = Eq \<or> op = Ne)"
  obtain u w \<sigma>1 b where l: "eval ub \<sigma> l u \<sigma>1" and r: "eval ub \<sigma>1 r w \<sigma>'" and eq: "equality isLoose u w b"
    and v: "v = JBool (b \<noteq> isNegated)"
    using eval_comparison [OF assms(1) op] unfolding isNegated_def isLoose_def by metis
  have frame: "\<sigma>1 x = \<sigma> x" "\<sigma>' x = \<sigma> x"
    using eval_frame [OF l, of x] eval_frame [OF r, of x] x(1) assigned_Binary [of l r op] by (metis UnI1 UnI2 subsetD)+
  define out where "out = extractEqualityRefinement op l r (Some look) ub no_refinements"
  have edge: "(x, t) \<in> set (edge isNegated b out)"
    using assms(3) by (simp add: v edge_def out_def)
  then have "out \<noteq> no_refinements"
    by auto
  then consider "checkTypeofSide isNegated (Some look) l r no_refinements = Some out \<or>
        checkIdentVsExpr isNegated isLoose (Some look) ub l r no_refinements = Some out"
    | "checkTypeofSide isNegated (Some look) r l no_refinements = Some out \<or>
        checkIdentVsExpr isNegated isLoose (Some look) ub r l no_refinements = Some out"
    using extractEqualityRefinement_sides [OF out_def [symmetric] _ isNegated_def isLoose_def] by blast
  then show ?thesis
  proof cases
    case 1
    then show ?thesis
      using one_side_sound [OF 1 l eval_operand [OF r] eq edge x(2)] assms(6) frame by simp
  next
    case 2
    then show ?thesis
      using one_side_sound [OF 2 r eval_operand [OF l] equality_sym [OF eq] edge x(2)] assms(6) frame by simp
  qed
qed

lemma extractCallRefinement_form:
  assumes "extractCallRefinement f args opt ub no_refinements \<noteq> no_refinements"
  shows "\<exists>base member arg t. f = MemberAccess (Ident base) member False False \<and> args = [Ident arg] \<and> \<not> opt \<and>
    \<not> is_user_bound ub base \<and>
    extractCallRefinement f args opt ub no_refinements = \<lparr>whenTrue = [(arg, t)], whenFalse = []\<rparr> \<and>
    (base = ''Number'' \<and> member \<in> {''isFinite'', ''isInteger'', ''isSafeInteger'', ''isNaN''} \<and> t = ty_number \<or>
     base = ''Array'' \<and> member = ''isArray'' \<and> t = ty_array)"
proof -
  obtain arg where args: "args = [Ident arg]" "\<not> opt"
    using assms by (cases "(f, args, opt, ub, no_refinements)" rule: extractCallRefinement.cases) auto
  then obtain base member a b where f: "f = MemberAccess (Ident base) member a b"
    using assms by (auto split: expr.splits)
  show ?thesis
    using assms by (simp add: args f no_refinements_def split: if_splits)
qed

lemma eval_number_test:
  assumes "eval ub \<sigma> (Call (MemberAccess (Ident ''Number'') member False False) [Ident x] False) v \<sigma>'"
    and "member \<in> {''isFinite'', ''isInteger'', ''isSafeInteger'', ''isNaN''}"
    and "\<not> is_user_bound ub ''Number''" and "is_var ub x" and "truthy v"
  shows "val_kind (\<sigma>' x) = KNumber"
proof (rule eval_call_cases [OF assms(1)], goal_cases)
  case (1 m e w b)
  then have "b" "w = \<sigma>' x"
    using assms(4,5) eval_Ident [of ub \<sigma> x w \<sigma>'] by auto
  with 1 show ?case
    by blast
next
  case (2 e w)
  then show ?case
    by simp
next
  case 3
  then show ?case
    using assms(2,3) by simp
qed

lemma eval_array_test:
  assumes "eval ub \<sigma> (Call (MemberAccess (Ident ''Array'') ''isArray'' False False) [Ident x] False) v \<sigma>'"
    and "\<not> is_user_bound ub ''Array''" and "is_var ub x" and "truthy v"
  shows "val_kind (\<sigma>' x) = KArray"
proof (rule eval_call_cases [OF assms(1)], goal_cases)
  case (1 m e w b)
  then show ?case
    by simp
next
  case (2 e w)
  then show ?case
    using assms(3,4) eval_Ident [of ub \<sigma> x w \<sigma>'] by simp
next
  case 3
  then show ?case
    using assms(2) by simp
qed

lemma extractCallRefinement_sound:
  assumes "eval ub \<sigma> (Call f args opt) v \<sigma>'" and "is_var ub x"
    and "(x, t) \<in> set (edge False (truthy v) (extractCallRefinement f args opt ub no_refinements))"
  shows "gamma sig t (\<sigma>' x)"
proof -
  have "extractCallRefinement f args opt ub no_refinements \<noteq> no_refinements"
    using assms(3) by auto
  from extractCallRefinement_form [OF this] obtain base member arg u where f: "f = MemberAccess (Ident base) member False False" "args = [Ident arg]" "\<not> opt"
      "\<not> is_user_bound ub base"
    and out: "extractCallRefinement f args opt ub no_refinements = \<lparr>whenTrue = [(arg, u)], whenFalse = []\<rparr>"
    and u: "base = ''Number'' \<and> member \<in> {''isFinite'', ''isInteger'', ''isSafeInteger'', ''isNaN''} \<and> u = ty_number \<or>
      base = ''Array'' \<and> member = ''isArray'' \<and> u = ty_array"
    by (elim exE conjE) (rule that; assumption)
  have x: "arg = x" "u = t" "truthy v"
    using assms(3) by (auto simp: out edge_def split: if_splits)
  show ?thesis
    using u
  proof (elim disjE conjE)
    assume "base = ''Number''" "member \<in> {''isFinite'', ''isInteger'', ''isSafeInteger'', ''isNaN''}" "u = ty_number"
    then show ?thesis
      using eval_number_test [of ub \<sigma> member x v \<sigma>'] assms(1,2) f x by simp
  next
    assume "base = ''Array''" "member = ''isArray''" "u = ty_array"
    then show ?thesis
      using eval_array_test [of ub \<sigma> x v \<sigma>'] assms(1,2) f x by simp
  qed
qed

text \<open>The merges keep entries of their arguments.\<close>

lemma set_merge: "set (mergeConsistentRefinement dst p) \<subseteq> insert p (set dst)"
  by (auto simp: mergeConsistentRefinement_def split: option.splits if_splits prod.splits
      dest!: set_AList_update [THEN subsetD])

lemma set_foldl_merge: "set (foldl mergeConsistentRefinement dst ps) \<subseteq> set dst \<union> set ps"
proof (induction ps arbitrary: dst)
  case (Cons p ps)
  then show ?case
    using set_merge [of dst p] by fastforce
qed simp

lemma set_join_refinements:
  "(x, t) \<in> set (join_refinements lhs rhs) \<Longrightarrow> \<exists>s u. (x, s) \<in> set lhs \<and> (x, u) \<in> set rhs \<and> t = join s u"
proof -
  define step where "step = (\<lambda>out (name, t).
        case map_of rhs name of
          None \<Rightarrow> out
        | Some u \<Rightarrow> (let joined = join t u in if is_kind joined KDynamic then out else AList.update name joined out))"
  have one: "q \<in> set (step out p) \<Longrightarrow> q \<in> set out \<or>
      (\<exists>u. (fst p, u) \<in> set rhs \<and> q = (fst p, join (snd p) u))" for out p q
    using set_AList_update [of "fst p"] map_of_SomeD [of rhs "fst p"]
    by (fastforce simp: step_def Let_def split: option.splits if_splits prod.splits)
  have "q \<in> set (foldl step out lhs) \<Longrightarrow> q \<in> set out \<or>
      (\<exists>p u. p \<in> set lhs \<and> (fst p, u) \<in> set rhs \<and> q = (fst p, join (snd p) u))" for out q
  proof (induction lhs arbitrary: out)
    case (Cons p lhs)
    then show ?case
      using one [of q out p] by fastforce
  qed simp
  then show "(x, t) \<in> set (join_refinements lhs rhs) \<Longrightarrow> \<exists>s u. (x, s) \<in> set lhs \<and> (x, u) \<in> set rhs \<and> t = join s u"
    unfolding join_refinements_def step_def by fastforce
qed

text \<open>Every refinement is a well-formed type.\<close>

definition refinements_wf :: "ConditionRefinements \<Rightarrow> bool" where
  "refinements_wf out \<longleftrightarrow> (\<forall>p \<in> set (whenTrue out) \<union> set (whenFalse out). wf_type (snd p))"

lemma refinements_wf_set:
  "refinements_wf out \<Longrightarrow> wf_type t \<Longrightarrow> refinements_wf (set_pos isNegated name t out)"
  "refinements_wf out \<Longrightarrow> wf_type t \<Longrightarrow> refinements_wf (set_neg isNegated name t out)"
  by (auto simp: refinements_wf_def set_pos_def set_neg_def dest!: set_AList_update [THEN subsetD])

lemma refinements_wf_none [simp]: "refinements_wf no_refinements"
  by (simp add: refinements_wf_def no_refinements_def)

lemma refinements_wf_typeof:
  assumes "checkTypeofSide isNegated look ts ls no_refinements = Some out"
  shows "refinements_wf out"
proof -
  have "wf_type t" if "typeofTagToType tag = Some t" for tag t
    using that by (auto simp: typeofTagToType_def split: if_splits)
  then show ?thesis
    using assms by (auto simp: checkTypeofSide_def Let_def refinements_wf_set split: option.splits expr.splits if_splits)
qed

lemma refinements_wf_ident:
  "checkIdentVsExpr isNegated isLoose look ub s c no_refinements = Some out \<Longrightarrow> refinements_wf out"
  by (auto simp: checkIdentVsExpr_def Let_def refinements_wf_set split: option.splits expr.splits if_splits)

lemma refinements_wf_call: "refinements_wf (extractCallRefinement f args opt ub no_refinements)"
  by (rule extractCallRefinement.cases [of "(f, args, opt, ub, no_refinements)"])
     (auto simp: refinements_wf_def no_refinements_def split: expr.splits)

lemma refinements_wf_equality: "refinements_wf (extractEqualityRefinement op l r look ub no_refinements)"
proof (cases "extractEqualityRefinement op l r look ub no_refinements = no_refinements")
  case False
  show ?thesis
    using extractEqualityRefinement_sides [OF refl False refl refl]
    by (elim disjE) (erule refinements_wf_typeof refinements_wf_ident)+
qed simp

lemma refinements_wf_merge:
  assumes "\<forall>p \<in> set a. wf_type (snd p)" and "\<forall>p \<in> set b. wf_type (snd p)"
  shows "\<forall>p \<in> set (foldl mergeConsistentRefinement a b). wf_type (snd p)"
    and "\<forall>p \<in> set (join_refinements a b). wf_type (snd p)"
proof -
  show "\<forall>p \<in> set (foldl mergeConsistentRefinement a b). wf_type (snd p)"
    using assms set_foldl_merge [of a b] by blast
  show "\<forall>p \<in> set (join_refinements a b). wf_type (snd p)"
  proof
    fix p
    assume "p \<in> set (join_refinements a b)"
    then obtain s u where "(fst p, s) \<in> set a" "(fst p, u) \<in> set b" "snd p = join s u"
      using set_join_refinements [of "fst p" "snd p" a b] by auto
    then show "wf_type (snd p)"
      using assms by fastforce
  qed
qed

lemma refinements_wf_connective:
  assumes "refinements_wf a" and "refinements_wf b"
  shows "refinements_wf \<lparr>whenTrue = foldl mergeConsistentRefinement (whenTrue a) (whenTrue b),
      whenFalse = join_refinements (whenFalse a) (whenFalse b)\<rparr>"
    and "refinements_wf \<lparr>whenTrue = join_refinements (whenTrue a) (whenTrue b),
      whenFalse = foldl mergeConsistentRefinement (whenFalse a) (whenFalse b)\<rparr>"
proof -
  have "\<forall>p \<in> set (whenTrue c). wf_type (snd p)" "\<forall>p \<in> set (whenFalse c). wf_type (snd p)" if "refinements_wf c" for c
    using that by (simp_all add: refinements_wf_def)
  note merged = refinements_wf_merge [OF this(1) [OF assms(1)] this(1) [OF assms(2)]]
    refinements_wf_merge [OF this(2) [OF assms(1)] this(2) [OF assms(2)]]
  show "refinements_wf \<lparr>whenTrue = foldl mergeConsistentRefinement (whenTrue a) (whenTrue b),
      whenFalse = join_refinements (whenFalse a) (whenFalse b)\<rparr>"
    "refinements_wf \<lparr>whenTrue = join_refinements (whenTrue a) (whenTrue b),
      whenFalse = foldl mergeConsistentRefinement (whenFalse a) (whenFalse b)\<rparr>"
    unfolding refinements_wf_def ball_Un ConditionRefinements.select_convs using merged by blast+
qed

lemma extract_wf: "refinements_wf (extractConditionRefinements cond look ub)"
proof (induction cond)
  case (Binary op l r)
  consider "op = StrictEq \<or> op = StrictNe \<or> op = Eq \<or> op = Ne" | "op = LogicalAnd" | "op = LogicalOr"
    | "op \<notin> {StrictEq, StrictNe, Eq, Ne, LogicalAnd, LogicalOr}"
    by blast
  then show ?case
  proof cases
    case 1
    then have "extractConditionRefinements (Binary op l r) look ub = extractEqualityRefinement op l r look ub no_refinements"
      by simp
    then show ?thesis
      using refinements_wf_equality by simp
  next
    assume op: "op = LogicalAnd"
    then show ?thesis
      using refinements_wf_connective [OF Binary] by (simp add: Let_def)
  next
    assume op: "op = LogicalOr"
    then show ?thesis
      using refinements_wf_connective [OF Binary] by (simp add: Let_def)
  qed simp
next
  case (Unary op e)
  then show ?case
    by (simp add: Let_def) (simp add: refinements_wf_def ball_Un)
next
  case (Call f args opt)
  show ?case
    by (simp add: refinements_wf_call)
qed simp_all

text \<open>Without a lookup the prover knows as much as with every name dynamic.\<close>

lemma check_no_lookup:
  "checkTypeofSide isNegated None ts ls out = checkTypeofSide isNegated (Some (\<lambda>_. ty_dynamic)) ts ls out"
  "checkIdentVsExpr isNegated isLoose None ub s c out = checkIdentVsExpr isNegated isLoose (Some (\<lambda>_. ty_dynamic)) ub s c out"
proof -
  have "\<not> isDynamicNumOrUndef ty_dynamic"
    by (simp add: isDynamicNumOrUndef_def type_constructors)
  then show "checkTypeofSide isNegated None ts ls out = checkTypeofSide isNegated (Some (\<lambda>_. ty_dynamic)) ts ls out"
    by (simp add: checkTypeofSide_def Let_def split: option.splits expr.splits)
  show "checkIdentVsExpr isNegated isLoose None ub s c out = checkIdentVsExpr isNegated isLoose (Some (\<lambda>_. ty_dynamic)) ub s c out"
    by (cases s) (simp_all add: checkIdentVsExpr_def)
qed

lemma equality_no_lookup:
  "extractEqualityRefinement op l r None ub out = extractEqualityRefinement op l r (Some (\<lambda>_. ty_dynamic)) ub out"
  unfolding extractEqualityRefinement_def check_no_lookup by (rule refl)

lemma extract_no_lookup: "extractConditionRefinements cond None ub = extractConditionRefinements cond (Some (\<lambda>_. ty_dynamic)) ub"
  by (induction cond) (simp_all add: equality_no_lookup)

lemma edge_swap: "edge False b \<lparr>whenTrue = whenFalse out, whenFalse = whenTrue out\<rparr> = edge False (\<not> b) out"
  by (simp add: edge_def)

definition holds :: "(u32 \<Rightarrow> TypeKind list) \<Rightarrow> refinements \<Rightarrow> string \<Rightarrow> jsval \<Rightarrow> bool" where
  "holds sig rs x w \<longleftrightarrow> (\<forall>t. (x, t) \<in> set rs \<longrightarrow> gamma sig t w)"

lemma holds_merge: "holds sig a x w \<Longrightarrow> holds sig b x w \<Longrightarrow> holds sig (foldl mergeConsistentRefinement a b) x w"
  using set_foldl_merge [of a b] unfolding holds_def by blast

lemma holds_join:
  assumes "holds sig a x w \<or> holds sig b x w" and "\<forall>p \<in> set a \<union> set b. wf_type (snd p)"
  shows "holds sig (join_refinements a b) x w"
  unfolding holds_def
proof (intro allI impI)
  fix t
  assume "(x, t) \<in> set (join_refinements a b)"
  then obtain s u where "(x, s) \<in> set a" "(x, u) \<in> set b" "t = join s u"
    using set_join_refinements by blast
  moreover have "gamma sig s w \<or> gamma sig u w"
    using assms(1) calculation unfolding holds_def by blast
  moreover have "wf_type s" "wf_type u"
    using assms(2) calculation by force+
  ultimately show "gamma sig t w"
    using join_sound by blast
qed

lemma holds_none [simp]: "holds sig [] x w"
  by (simp add: holds_def)

lemma comparison_holds:
  assumes "eval ub \<sigma> (Binary op l r) v \<sigma>'" and "op = StrictEq \<or> op = StrictNe \<or> op = Eq \<or> op = Ne"
    and "x \<notin> assigned (Binary op l r)" and "is_var ub x" and "gamma sig (look x) (\<sigma> x)"
  shows "holds sig (edge False (truthy v) (extractConditionRefinements (Binary op l r) (Some look) ub)) x (\<sigma>' x)"
proof -
  have "extractConditionRefinements (Binary op l r) (Some look) ub = extractEqualityRefinement op l r (Some look) ub no_refinements"
    using assms(2) by auto
  then show ?thesis
    unfolding holds_def using extractEqualityRefinement_sound [OF assms(1,2)] assms(3-5) by metis
qed

lemma call_holds:
  assumes "eval ub \<sigma> (Call f args opt) v \<sigma>'" and "is_var ub x"
  shows "holds sig (edge False (truthy v) (extractConditionRefinements (Call f args opt) look ub)) x (\<sigma>' x)"
  using extractCallRefinement_sound [OF assms] by (auto simp: holds_def)

lemma and_holds:
  assumes "b \<Longrightarrow> holds sig (whenTrue (extractConditionRefinements l look ub)) x w \<and>
      holds sig (whenTrue (extractConditionRefinements r look ub)) x w"
    and "\<not> b \<Longrightarrow> holds sig (whenFalse (extractConditionRefinements l look ub)) x w \<or>
      holds sig (whenFalse (extractConditionRefinements r look ub)) x w"
  shows "holds sig (edge False b (extractConditionRefinements (Binary LogicalAnd l r) look ub)) x w"
proof (cases b)
  case True
  then show ?thesis
    using assms(1) holds_merge by (simp add: Let_def edge_def)
next
  case False
  then have "holds sig (join_refinements (whenFalse (extractConditionRefinements l look ub))
      (whenFalse (extractConditionRefinements r look ub))) x w"
    using assms(2) extract_wf by (intro holds_join) (auto simp: refinements_wf_def)
  then show ?thesis
    using False by (simp add: Let_def edge_def)
qed

lemma or_holds:
  assumes "b \<Longrightarrow> holds sig (whenTrue (extractConditionRefinements l look ub)) x w \<or>
      holds sig (whenTrue (extractConditionRefinements r look ub)) x w"
    and "\<not> b \<Longrightarrow> holds sig (whenFalse (extractConditionRefinements l look ub)) x w \<and>
      holds sig (whenFalse (extractConditionRefinements r look ub)) x w"
  shows "holds sig (edge False b (extractConditionRefinements (Binary LogicalOr l r) look ub)) x w"
proof (cases b)
  case False
  then show ?thesis
    using assms(2) holds_merge by (simp add: Let_def edge_def)
next
  case True
  then have "holds sig (join_refinements (whenTrue (extractConditionRefinements l look ub))
      (whenTrue (extractConditionRefinements r look ub))) x w"
    using assms(1) extract_wf by (intro holds_join) (auto simp: refinements_wf_def)
  then show ?thesis
    using True by (simp add: Let_def edge_def)
qed

text \<open>Both operands of a connective evaluated: neither moves a variable it does not assign.\<close>

lemma eval_both:
  assumes "eval ub \<sigma> l u \<sigma>1" and "eval ub \<sigma>1 r v \<sigma>2" and "x \<notin> assigned (Binary op l r)"
  shows "\<sigma>1 x = \<sigma> x" and "\<sigma>2 x = \<sigma> x" and "x \<notin> assigned l" and "x \<notin> assigned r"
proof -
  show "x \<notin> assigned l" "x \<notin> assigned r"
    using assms(3) assigned_Binary [of l r op] by blast+
  then show "\<sigma>1 x = \<sigma> x" "\<sigma>2 x = \<sigma> x"
    using eval_frame assms(1,2) by metis+
qed

lemma extract_sound:
  assumes "eval ub \<sigma> cond v \<sigma>'" and "x \<notin> assigned cond" and "is_var ub x" and "gamma sig (look x) (\<sigma> x)"
  shows "holds sig (edge False (truthy v) (extractConditionRefinements cond (Some look) ub)) x (\<sigma>' x)"
  using assms
proof (induction rule: eval.induct)
  case (ev_not \<sigma> e v \<sigma>')
  have "x \<notin> assigned e"
    using ev_not.prems(1) assigned_Unary [of e Not] by blast
  then show ?case
    using ev_not.IH ev_not.prems by (simp add: Let_def edge_swap)
next
  case (ev_and_false \<sigma> l v \<sigma>1 r)
  have "x \<notin> assigned l"
    using ev_and_false.prems(1) assigned_Binary [of l r LogicalAnd] by blast
  then have "holds sig (whenFalse (extractConditionRefinements l (Some look) ub)) x (\<sigma>1 x)"
    using ev_and_false.IH ev_and_false.prems ev_and_false.hyps by (simp add: edge_def)
  then show ?case
    using ev_and_false.hyps by (intro and_holds) blast+
next
  case (ev_and_true \<sigma> l u \<sigma>1 r v \<sigma>2)
  note both = eval_both [OF ev_and_true.hyps(1,3) ev_and_true.prems(1)]
  have "holds sig (whenTrue (extractConditionRefinements l (Some look) ub)) x (\<sigma>2 x)"
    using ev_and_true.IH(1) ev_and_true.prems ev_and_true.hyps(2) both by (simp add: edge_def)
  moreover have "holds sig (edge False (truthy v) (extractConditionRefinements r (Some look) ub)) x (\<sigma>2 x)"
    using ev_and_true.IH(2) ev_and_true.prems both by simp
  ultimately show ?case
    by (intro and_holds) (simp_all add: edge_def)
next
  case (ev_or_true \<sigma> l v \<sigma>1 r)
  have "x \<notin> assigned l"
    using ev_or_true.prems(1) assigned_Binary [of l r LogicalOr] by blast
  then have "holds sig (whenTrue (extractConditionRefinements l (Some look) ub)) x (\<sigma>1 x)"
    using ev_or_true.IH ev_or_true.prems ev_or_true.hyps by (simp add: edge_def)
  then show ?case
    using ev_or_true.hyps by (intro or_holds) blast+
next
  case (ev_or_false \<sigma> l u \<sigma>1 r v \<sigma>2)
  note both = eval_both [OF ev_or_false.hyps(1,3) ev_or_false.prems(1)]
  have "holds sig (whenFalse (extractConditionRefinements l (Some look) ub)) x (\<sigma>2 x)"
    using ev_or_false.IH(1) ev_or_false.prems ev_or_false.hyps(2) both by (simp add: edge_def)
  moreover have "holds sig (edge False (truthy v) (extractConditionRefinements r (Some look) ub)) x (\<sigma>2 x)"
    using ev_or_false.IH(2) ev_or_false.prems both by simp
  ultimately show ?case
    by (intro or_holds) (simp_all add: edge_def)
next
  case ev_strict
  then show ?case
    by (intro comparison_holds eval.ev_strict) simp_all
next
  case ev_strict_ne
  then show ?case
    by (intro comparison_holds eval.ev_strict_ne) simp_all
next
  case ev_loose
  then show ?case
    by (intro comparison_holds eval.ev_loose) simp_all
next
  case ev_loose_ne
  then show ?case
    by (intro comparison_holds eval.ev_loose_ne) simp_all
next
  case ev_number_test
  then show ?case
    by (intro call_holds eval.ev_number_test) simp_all
next
  case ev_array_test
  then show ?case
    by (intro call_holds eval.ev_array_test) simp_all
next
  case ev_call
  then show ?case
    using call_holds [OF eval.ev_call [OF ev_call.hyps]] by blast
qed simp_all

section \<open>Applying and undoing refinements\<close>

text \<open>After the refinements \<open>rs\<close> were applied to \<open>env\<close>: the bindings outside \<open>saved\<close> are untouched, the
  saved ones are the old bindings, and every new binding is an entry of \<open>rs\<close>.\<close>

definition refined_by :: "env \<Rightarrow> refinements \<Rightarrow> env \<times> refinements \<Rightarrow> bool" where
  "refined_by env rs out \<longleftrightarrow>
     env_wf (fst out) \<and> fst ` set (snd out) \<subseteq> fst ` set rs \<and>
     (\<forall>(k, c) \<in> set (snd out). env_find env k = Some c \<and> kind c = KDynamic) \<and>
     (\<forall>x. x \<notin> fst ` set (snd out) \<longrightarrow> env_find (fst out) x = env_find env x) \<and>
     (\<forall>x. x \<in> fst ` set (snd out) \<longrightarrow> (\<exists>t. (x, t) \<in> set rs \<and> env_find (fst out) x = Some t))"

lemma refined_by_apply:
  assumes "env_wf env" and "\<forall>p \<in> set rs. wf_type (snd p)" and "distinct (map fst rs)"
  shows "refined_by env rs (applyConditionRefinements env rs isCell)"
  using assms(2,3)
proof (induction rs rule: rev_induct)
  case Nil
  then show ?case
    using assms(1) by (simp add: refined_by_def applyConditionRefinements_def)
next
  case (snoc p rs)
  obtain name t where p: "p = (name, t)"
    by fastforce
  obtain e1 saved where out: "applyConditionRefinements env rs isCell = (e1, saved)"
    by fastforce
  have IH: "refined_by env rs (e1, saved)"
    using snoc out by simp
  have parts: "env_wf e1" "fst ` set saved \<subseteq> fst ` set rs" "\<forall>(k, c) \<in> set saved. env_find env k = Some c \<and> kind c = KDynamic"
    "\<forall>x. x \<notin> fst ` set saved \<longrightarrow> env_find e1 x = env_find env x"
    "\<forall>x. x \<in> fst ` set saved \<longrightarrow> (\<exists>t. (x, t) \<in> set rs \<and> env_find e1 x = Some t)"
    using IH unfolding refined_by_def fst_conv snd_conv by blast+
  have fresh: "name \<notin> fst ` set rs" "name \<notin> fst ` set saved"
    using snoc.prems(2) IH by (auto simp: p refined_by_def)
  have wf: "env_wf e1" "wf_type t"
    using IH snoc.prems(1) by (simp_all add: refined_by_def p)
  have step: "applyConditionRefinements env (rs @ [p]) isCell = refine_step isCell (e1, saved) p"
    using out by (simp add: applyConditionRefinements_def)
  have same: "env_find e1 name = env_find env name"
    using IH fresh(2) by (simp add: refined_by_def)
  show ?case
  proof (cases "\<exists>cur. env_find env name = Some cur \<and> kind cur = KDynamic \<and> \<not> is_user_bound isCell name")
    case True
    then obtain cur where cur: "env_find env name = Some cur" "kind cur = KDynamic" "\<not> is_user_bound isCell name"
      by blast
    then have "refine_step isCell (e1, saved) p = (env_set e1 name t, saved @ [(name, cur)])"
      by (simp add: refine_step_def p same)
    moreover have "refined_by env (rs @ [p]) (env_set e1 name t, saved @ [(name, cur)])"
      unfolding refined_by_def fst_conv snd_conv
    proof (intro conjI)
      show "env_wf (env_set e1 name t)"
        by (rule env_set_spec(1) [OF wf])
      show "fst ` set (saved @ [(name, cur)]) \<subseteq> fst ` set (rs @ [p])"
        using parts(2) by (auto simp: p)
      show "\<forall>(k, c) \<in> set (saved @ [(name, cur)]). env_find env k = Some c \<and> kind c = KDynamic"
        using parts(3) cur by auto
      show "\<forall>x. x \<notin> fst ` set (saved @ [(name, cur)]) \<longrightarrow> env_find (env_set e1 name t) x = env_find env x"
        using parts(4) env_set_spec(2) [OF wf, of name] by simp
      show "\<forall>x. x \<in> fst ` set (saved @ [(name, cur)]) \<longrightarrow>
          (\<exists>u. (x, u) \<in> set (rs @ [p]) \<and> env_find (env_set e1 name t) x = Some u)"
        using parts(5) env_set_spec(2) [OF wf, of name] by (simp add: p)
    qed
    ultimately show ?thesis
      unfolding step by simp
  next
    case False
    then have "refine_step isCell (e1, saved) p = (e1, saved)"
      by (auto simp: refine_step_def p same isDynamicNumOrUndef_def split: option.split)
    moreover have "refined_by env (rs @ [p]) (e1, saved)"
      unfolding refined_by_def fst_conv snd_conv
    proof (intro conjI)
      show "fst ` set saved \<subseteq> fst ` set (rs @ [p])"
        using parts(2) by auto
      show "\<forall>x. x \<in> fst ` set saved \<longrightarrow> (\<exists>u. (x, u) \<in> set (rs @ [p]) \<and> env_find e1 x = Some u)"
        using parts(5) by (metis UnCI set_append)
    qed (use parts in blast)+
    ultimately show ?thesis
      unfolding step by simp
  qed
qed

section \<open>Properties\<close>



text \<open>The condition \<open>typeof x === "number" && (x = "s")\<close>.\<close>

definition stale_condition :: expr where
  "stale_condition = Binary LogicalAnd (Binary StrictEq (Unary TypeOf (Ident ''x'')) (StringLit ''number''))
      (Binary Assign (Ident ''x'') (StringLit ''s''))"

text \<open>The prover does keep a refinement of a variable the condition assigns afterwards: in
  \<open>typeof x === "number" && (x = e)\<close> the truthy edge gives \<open>x\<close> the type Number, and the condition can come
  out truthy with a string in \<open>x\<close>.\<close>

theorem extract_keeps_stale_refinement:
  "whenTrue (extractConditionRefinements stale_condition None None) = [(''x'', ty_number)] \<and>
    (\<exists>\<sigma> \<sigma>'. eval None \<sigma> stale_condition (JString ''s'') \<sigma>' \<and> truthy (JString ''s'') \<and> \<sigma>' ''x'' = JString ''s'' \<and>
      \<not> gamma sig ty_number (\<sigma>' ''x''))"
proof -
  let ?\<sigma> = "\<lambda>_. JNumber 3"
  have "eval None ?\<sigma> (Unary TypeOf (Ident ''x'')) (JString (typeof_tag (?\<sigma> ''x''))) ?\<sigma>"
    by (intro ev_typeof ev_ident) simp
  then have "eval None ?\<sigma> (Binary StrictEq (Unary TypeOf (Ident ''x'')) (StringLit ''number'')) (JBool True) ?\<sigma>"
    using ev_string by (rule ev_strict) (simp add: strict_eq_def)
  then have "eval None ?\<sigma> stale_condition (JString ''s'') (?\<sigma>(''x'' := JString ''s''))"
    unfolding stale_condition_def by (rule ev_and_true [OF _ _ ev_assign [OF ev_string]]) simp
  moreover have "whenTrue (extractConditionRefinements stale_condition None None) = [(''x'', ty_number)]"
    by (simp add: stale_condition_def extractEqualityRefinement_def checkTypeofSide_def typeofTagToType_def set_pos_def
        no_refinements_def Let_def)
  ultimately show ?thesis
    by (intro conjI exI [of _ ?\<sigma>] exI [of _ "?\<sigma>(''x'' := JString ''s'')"]) simp_all
qed

text \<open>Applying refinements to an environment keeps it a description of the store when the refinements
  hold there, changes dynamic bindings only, and the saved bindings put back the environment's answers.\<close>

theorem applyConditionRefinements_sound:
  assumes "env_wf env" and "\<forall>p \<in> set rs. wf_type (snd p)" and "distinct (map fst rs)"
    and "applyConditionRefinements env rs isCell = (env', saved)"
  shows "env_wf env' \<and>
    ((\<forall>x t. env_find env x = Some t \<longrightarrow> gamma sig t (\<sigma> x)) \<longrightarrow> (\<forall>(x, t) \<in> set rs. gamma sig t (\<sigma> x)) \<longrightarrow>
       (\<forall>x t. env_find env' x = Some t \<longrightarrow> gamma sig t (\<sigma> x))) \<and>
    (\<forall>x t. env_find env x = Some t \<and> kind t \<noteq> KDynamic \<longrightarrow> env_find env' x = Some t) \<and>
    env_find (foldl (\<lambda>e (k, v). env_set e k v) env' saved) = env_find env"
proof -
  have rb: "refined_by env rs (env', saved)"
    using refined_by_apply [OF assms(1-3), of isCell] assms(4) by simp
  note parts = rb [unfolded refined_by_def fst_conv snd_conv]
  have restored: "env_find (foldl (\<lambda>e (k, v). env_set e k v) env' saved) x = env_find env x" for x
  proof -
    have "\<forall>p \<in> set saved. wf_type (snd p)"
      using parts env_find_wf [OF assms(1)] by fastforce
    then have eq: "env_find (foldl (\<lambda>e (k, v). env_set e k v) env' saved) x =
        (case map_of (rev saved) x of Some v \<Rightarrow> Some v | None \<Rightarrow> env_find env' x)"
      using parts by (intro ev.fold_update_lookup) blast+
    show ?thesis
    proof (cases "map_of (rev saved) x")
      case None
      then have "x \<notin> fst ` set saved"
        by (simp add: map_of_eq_None_iff)
      then show ?thesis
        using eq None parts by simp
    next
      case (Some c)
      then have "(x, c) \<in> set saved"
        using map_of_SomeD [OF Some] by simp
      then show ?thesis
        using eq Some parts by auto
    qed
  qed
  have kept: "env_find env' x = Some t" if "env_find env x = Some t" "kind t \<noteq> KDynamic" for x t
  proof -
    have "x \<notin> fst ` set saved"
      using parts that by fastforce
    then show ?thesis
      using parts that by simp
  qed
  have covered: "gamma sig t (\<sigma> x)" if old: "\<forall>x t. env_find env x = Some t \<longrightarrow> gamma sig t (\<sigma> x)"
    and new: "\<forall>(x, t) \<in> set rs. gamma sig t (\<sigma> x)" and find: "env_find env' x = Some t" for x t
  proof (cases "x \<in> fst ` set saved")
    case True
    then obtain u where "(x, u) \<in> set rs" "env_find env' x = Some u"
      using parts by blast
    then show ?thesis
      using new find by auto
  next
    case False
    then show ?thesis
      using parts old find by simp
  qed
  show ?thesis
  proof (intro conjI impI allI)
    show "env_wf env'"
      using parts by blast
    show "env_find (foldl (\<lambda>e (k, v). env_set e k v) env' saved) = env_find env"
      using restored by (rule ext)
  qed (use kept covered in metis)+
qed

theorem applyConditionRefinements_sound_witness:
  "applyConditionRefinements [(''x'', ty_dynamic), (''y'', ty_string)] [(''x'', ty_number), (''y'', ty_null)] None =
     ([(''x'', ty_number), (''y'', ty_string)], [(''x'', ty_dynamic)]) \<and> env_wf [(''x'', ty_number), (''y'', ty_string)]"
proof -
  have run: "applyConditionRefinements [(''x'', ty_dynamic), (''y'', ty_string)] [(''x'', ty_number), (''y'', ty_null)] None =
     ([(''x'', ty_number), (''y'', ty_string)], [(''x'', ty_dynamic)])"
    by code_simp
  have "env_wf [(''x'', ty_dynamic), (''y'', ty_string)]"
    by (simp add: env_wf_def)
  then have "env_wf [(''x'', ty_number), (''y'', ty_string)]"
    using applyConditionRefinements_sound [OF _ _ _ run] by simp
  with run show ?thesis
    by blast
qed

end
