(* ===== verification/Json.thy ===== *)
theory Json
  imports Prelude
begin

text \<open>
  The JSON parser (\<open>src/src/json/json.{h,cpp}\<close>): recursive descent over UTF-16 code units. The
  parser object's \<open>text_\<close> is an argument, its \<open>pos_\<close>, \<open>depth_\<close> and \<open>error_\<close> are the record \<open>jparser\<close>,
  a null \<open>ValuePtr\<close> is \<open>None\<close>, and the depth guard's constructor and destructor are written out. Every
  indexed read of the text is under the source's own bounds test. \<open>std::strtod\<close> is the argument
  \<open>strtod\<close>. RFC 8259's grammar is given beside it as inductive relations, and the parser is shown to
  accept exactly the derivable texts of nesting depth at most 512, with the value derived.
\<close>

section \<open>Definitions\<close>

type_synonym units = "u16 list"

datatype 'd json_value =
  VNull | VBool bool | VNumber 'd | VString units | VArray "'d json_value list"
| VObject "(units \<times> 'd json_value) list"

record jparser =
  pos :: nat
  depth :: nat
  err :: string

definition kMaxDepth :: nat where
  "kMaxDepth = 512"

definition atEnd :: "units \<Rightarrow> jparser \<Rightarrow> bool" where
  "atEnd t st \<longleftrightarrow> pos st \<ge> length t"

definition peek :: "units \<Rightarrow> jparser \<Rightarrow> u16" where
  "peek t st = (if pos st < length t then t ! pos st else 0)"

definition advance :: "nat \<Rightarrow> jparser \<Rightarrow> jparser" where
  "advance n st = st\<lparr>pos := pos st + n\<rparr>"

text \<open>\<open>std::to_string\<close> of a size.\<close>

fun to_string :: "nat \<Rightarrow> string" where
  "to_string n = (if n < 10 then [char_of (48 + n)] else to_string (n div 10) @ [char_of (48 + n mod 10)])"

declare to_string.simps [simp del]

definition fail :: "string \<Rightarrow> jparser \<Rightarrow> jparser" where
  "fail what st =
     (if err st \<noteq> [] then st
      else st\<lparr>err := ''Unexpected token in JSON at position '' @ to_string (pos st) @ '': '' @ what\<rparr>)"

definition is_ws :: "u16 \<Rightarrow> bool" where
  "is_ws c \<longleftrightarrow> c = 0x20 \<or> c = 0x09 \<or> c = 0x0A \<or> c = 0x0D"

definition is_dig :: "u16 \<Rightarrow> bool" where
  "is_dig c \<longleftrightarrow> c \<ge> 0x30 \<and> c \<le> 0x39"

function skipWhitespace :: "units \<Rightarrow> jparser \<Rightarrow> jparser" where
  "skipWhitespace t st = (if \<not> atEnd t st \<and> is_ws (t ! pos st) then skipWhitespace t (advance 1 st) else st)"
  by auto
termination
  by (relation "measure (\<lambda>(t, st). length t - pos st)") (auto simp: atEnd_def advance_def)

text \<open>\<open>while (!atEnd() && peek() >= u'0' && peek() <= u'9') ++pos_;\<close>\<close>

function skipDigits :: "units \<Rightarrow> jparser \<Rightarrow> jparser" where
  "skipDigits t st = (if \<not> atEnd t st \<and> is_dig (peek t st) then skipDigits t (advance 1 st) else st)"
  by auto
termination
  by (relation "measure (\<lambda>(t, st). length t - pos st)") (auto simp: atEnd_def advance_def)

declare skipWhitespace.simps [simp del] skipDigits.simps [simp del]

definition matchWord :: "units \<Rightarrow> units \<Rightarrow> jparser \<Rightarrow> bool \<times> jparser" where
  "matchWord t word st =
     (if length t - pos st < length word then (False, st)
      else if \<exists>i < length word. t ! (pos st + i) \<noteq> word ! i then (False, st)
      else (True, advance (length word) st))"

definition unexpected :: "units \<Rightarrow> jparser \<Rightarrow> jparser" where
  "unexpected t st =
     (let c = peek t st
      in fail (if c = 0x27 then ''a string must be double-quoted''
               else if c = 0x2B \<or> c = 0x2E then ''a JSON number has no leading '' @ [CHR 0x27, CHR ''+'', CHR 0x27] @ '' or '' @ [CHR 0x27, CHR ''.'', CHR 0x27]
               else if c = 0x2F then ''JSON has no comments''
               else if c = 0x5D \<or> c = 0x7D then ''a trailing comma is not a JSON value''
               else ''a JSON value was expected'') st)"

definition hexDigit :: "u16 \<Rightarrow> u32 option" where
  "hexDigit c =
     (if c \<ge> 0x30 \<and> c \<le> 0x39 then Some (ucast (c - 0x30))
      else if c \<ge> 0x61 \<and> c \<le> 0x66 then Some (ucast (c - 0x61) + 10)
      else if c \<ge> 0x41 \<and> c \<le> 0x46 then Some (ucast (c - 0x41) + 10)
      else None)"

text \<open>The four digits after \<open>\u\<close>; \<open>None\<close> when one is not hexadecimal.\<close>

fun hex_loop :: "units \<Rightarrow> nat \<Rightarrow> nat \<Rightarrow> u32 \<Rightarrow> u32 option" where
  "hex_loop t at 0 acc = Some acc"
| "hex_loop t at (Suc n) acc =
     (case hexDigit (t ! at) of None \<Rightarrow> None | Some digit \<Rightarrow> hex_loop t (Suc at) n (acc * 16 + digit))"

fun simple_escape :: "u16 \<Rightarrow> u16 option" where
  "simple_escape e =
     (if e = 0x22 then Some 0x22 else if e = 0x5C then Some 0x5C else if e = 0x2F then Some 0x2F
      else if e = 0x62 then Some 0x08 else if e = 0x66 then Some 0x0C else if e = 0x6E then Some 0x0A
      else if e = 0x72 then Some 0x0D else if e = 0x74 then Some 0x09 else None)"

text \<open>The loop of \<open>parseString\<close>, after the opening quote.\<close>

function parseString_loop :: "units \<Rightarrow> units \<Rightarrow> jparser \<Rightarrow> units option \<times> jparser" where
  "parseString_loop t out st =
     (if atEnd t st then (None, fail ''the string was not closed before the end of the input'' st)
      else let c = t ! pos st
        in if c = 0x22 then (Some out, advance 1 st)
           else if c < 0x20 then (None, fail ''a control character must be escaped inside a JSON string'' st)
           else if c \<noteq> 0x5C then parseString_loop t (out @ [c]) (advance 1 st)
           else let st1 = advance 1 st
             in if atEnd t st1 then (None, fail ''the string ended inside an escape'' st1)
                else let e = t ! pos st1; st2 = advance 1 st1
                  in case simple_escape e of
                       Some u \<Rightarrow> parseString_loop t (out @ [u]) st2
                     | None \<Rightarrow>
                         if e = 0x75
                         then (if length t - pos st2 < 4
                               then (None, fail (CHR 0x5C # ''u needs four hexadecimal digits'') st2)
                               else case hex_loop t (pos st2) 4 0 of
                                      None \<Rightarrow> (None, fail (CHR 0x5C # ''u needs four hexadecimal digits'') st2)
                                    | Some v \<Rightarrow> parseString_loop t (out @ [ucast v]) (advance 4 st2))
                         else (None, fail ''that escape is not one JSON defines'' st2))"
  by pat_completeness auto
termination
  by (relation "measure (\<lambda>(t, out, st). length t - pos st)") (auto simp: atEnd_def advance_def)

declare parseString_loop.simps [simp del]

definition parseString :: "units \<Rightarrow> jparser \<Rightarrow> units option \<times> jparser" where
  "parseString t st = parseString_loop t [] (advance 1 st)"

text \<open>\<open>parseNumber\<close>, by its four parts; each answers \<open>False\<close> after a failure.\<close>

definition number_int :: "units \<Rightarrow> jparser \<Rightarrow> bool \<times> jparser" where
  "number_int t st =
     (if atEnd t st \<or> \<not> is_dig (peek t st) then (False, fail ''a digit was expected in a JSON number'' st)
      else if peek t st = 0x30
      then (let st1 = advance 1 st
            in if \<not> atEnd t st1 \<and> is_dig (peek t st1) then (False, fail ''a JSON number has no leading zero'' st1)
               else (True, st1))
      else (let st1 = skipDigits t st in (True, st1)))"

definition number_frac :: "units \<Rightarrow> jparser \<Rightarrow> bool \<times> jparser" where
  "number_frac t st =
     (if peek t st = 0x2E
      then (let st1 = advance 1 st
            in if atEnd t st1 \<or> \<not> is_dig (peek t st1) then (False, fail ''a digit was expected after the decimal point'' st1)
               else (let st2 = skipDigits t st1 in (True, st2)))
      else (True, st))"

definition number_exp :: "units \<Rightarrow> jparser \<Rightarrow> bool \<times> jparser" where
  "number_exp t st =
     (if peek t st = 0x65 \<or> peek t st = 0x45
      then (let st1 = advance 1 st;
                st2 = (if peek t st1 = 0x2B \<or> peek t st1 = 0x2D then advance 1 st1 else st1)
            in if atEnd t st2 \<or> \<not> is_dig (peek t st2) then (False, fail ''a digit was expected in the exponent'' st2)
               else (let st3 = skipDigits t st2 in (True, st3)))
      else (True, st))"

definition ascii :: "units \<Rightarrow> string" where
  "ascii w = map (\<lambda>u. char_of (unat u)) w"

definition parseNumber :: "(string \<Rightarrow> 'd) \<Rightarrow> units \<Rightarrow> jparser \<Rightarrow> 'd json_value option \<times> jparser" where
  "parseNumber strtod t st =
     (let start = pos st;
          st0 = (if peek t st = 0x2D then advance 1 st else st)
      in case number_int t st0 of
           (False, st1) \<Rightarrow> (None, st1)
         | (True, st1) \<Rightarrow>
             (case number_frac t st1 of
                (False, st2) \<Rightarrow> (None, st2)
              | (True, st2) \<Rightarrow>
                  (case number_exp t st2 of
                     (False, st3) \<Rightarrow> (None, st3)
                   | (True, st3) \<Rightarrow>
                       (Some (VNumber (strtod (ascii (take (pos st3 - start) (drop start t))))), st3))))"

text \<open>The depth guard's destructor, and the part of \<open>parseObject\<close> and \<open>parseArray\<close> before their loops.\<close>

definition leave :: "jparser \<Rightarrow> jparser" where
  "leave st = st\<lparr>depth := depth st - 1\<rparr>"

datatype opened = Refused jparser | Closed jparser | Entered jparser

definition open_bracket :: "units \<Rightarrow> u16 \<Rightarrow> jparser \<Rightarrow> opened" where
  "open_bracket t close st =
     (let st1 = st\<lparr>depth := depth st + 1\<rparr>
      in if depth st1 > kMaxDepth then Refused (leave (fail ''the JSON value nests too deeply'' st1))
         else let st2 = skipWhitespace t (advance 1 st1)
           in if peek t st2 = close then Closed (leave (advance 1 st2)) else Entered st2)"

definition parseStringValue :: "units \<Rightarrow> jparser \<Rightarrow> 'd json_value option \<times> jparser" where
  "parseStringValue t st = (let (r, s) = parseString t st in (map_option VString r, s))"

definition parseWord :: "units \<Rightarrow> units \<Rightarrow> 'd json_value \<Rightarrow> jparser \<Rightarrow> 'd json_value option \<times> jparser" where
  "parseWord t word v st = (let (ok, s) = matchWord t word st in if ok then (Some v, s) else (None, unexpected t s))"

abbreviation word_true :: units where "word_true \<equiv> [0x74, 0x72, 0x75, 0x65]"
abbreviation word_false :: units where "word_false \<equiv> [0x66, 0x61, 0x6C, 0x73, 0x65]"
abbreviation word_null :: units where "word_null \<equiv> [0x6E, 0x75, 0x6C, 0x6C]"

definition member_message :: string where
  "member_message = [CHR 0x27, CHR '','', CHR 0x27] @ '' or '' @ [CHR 0x27, CHR 0x7D, CHR 0x27] @ '' was expected after an object member''"

definition element_message :: string where
  "element_message = [CHR 0x27, CHR '','', CHR 0x27] @ '' or '' @ [CHR 0x27, CHR 0x5D, CHR 0x27] @ '' was expected after an array element''"

text \<open>After a loop turn: \<open>Inl\<close> to go round again, \<open>Inr\<close> with whether the bracket closed.\<close>

definition separator :: "units \<Rightarrow> u16 \<Rightarrow> string \<Rightarrow> jparser \<Rightarrow> jparser + bool \<times> jparser" where
  "separator t close message st =
     (let s = skipWhitespace t st
      in if peek t s = 0x2C then Inl (advance 1 s)
         else if peek t s = close then Inr (True, advance 1 s)
         else Inr (False, fail message s))"

text \<open>An object member up to its value: \<open>None\<close> after a failure.\<close>

definition member_key :: "units \<Rightarrow> jparser \<Rightarrow> units option \<times> jparser" where
  "member_key t st =
     (let st1 = skipWhitespace t st
      in if peek t st1 \<noteq> 0x22 then (None, fail ''an object key must be a double-quoted string'' st1)
         else case parseString t st1 of
                (None, s) \<Rightarrow> (None, s)
              | (Some key, s) \<Rightarrow>
                  (let s1 = skipWhitespace t s
                   in if peek t s1 \<noteq> 0x3A then (None, fail ([CHR 0x27, CHR '':'', CHR 0x27] @ '' was expected after an object key'') s1)
                      else (Some key, skipWhitespace t (advance 1 s1))))"

function (sequential) parseValue :: "(string \<Rightarrow> 'd) \<Rightarrow> units \<Rightarrow> jparser \<Rightarrow> 'd json_value option \<times> jparser"
  and parseObject_loop :: "(string \<Rightarrow> 'd) \<Rightarrow> units \<Rightarrow> (units \<times> 'd json_value) list \<Rightarrow> jparser \<Rightarrow>
        (units \<times> 'd json_value) list option \<times> jparser"
  and parseArray_loop :: "(string \<Rightarrow> 'd) \<Rightarrow> units \<Rightarrow> 'd json_value list \<Rightarrow> jparser \<Rightarrow> 'd json_value list option \<times> jparser"
where
  "parseValue strtod t st =
     (if atEnd t st then (None, fail ''a value was expected'' st)
      else let c = peek t st
        in if c = 0x7B
           then (case open_bracket t 0x7D st of
                   Refused s \<Rightarrow> (None, s)
                 | Closed s \<Rightarrow> (Some (VObject []), s)
                 | Entered s \<Rightarrow> (case parseObject_loop strtod t [] s of (r, s') \<Rightarrow> (map_option VObject r, leave s')))
           else if c = 0x5B
           then (case open_bracket t 0x5D st of
                   Refused s \<Rightarrow> (None, s)
                 | Closed s \<Rightarrow> (Some (VArray []), s)
                 | Entered s \<Rightarrow> (case parseArray_loop strtod t [] s of (r, s') \<Rightarrow> (map_option VArray r, leave s')))
           else if c = 0x22 then parseStringValue t st
           else if c = 0x74 then parseWord t word_true (VBool True) st
           else if c = 0x66 then parseWord t word_false (VBool False) st
           else if c = 0x6E then parseWord t word_null VNull st
           else if c = 0x2D \<or> is_dig c then parseNumber strtod t st
           else (None, unexpected t st))"
| "parseObject_loop strtod t members st =
     (case member_key t st of
        (None, s) \<Rightarrow> (None, s)
      | (Some key, s) \<Rightarrow>
          (case parseValue strtod t s of
             (None, s1) \<Rightarrow> (None, s1)
           | (Some v, s1) \<Rightarrow>
               (case separator t 0x7D member_message s1 of
                  Inl s2 \<Rightarrow> parseObject_loop strtod t (members @ [(key, v)]) s2
                | Inr (ok, s2) \<Rightarrow> (if ok then Some (members @ [(key, v)]) else None, s2))))"
| "parseArray_loop strtod t elements st =
     (case parseValue strtod t (skipWhitespace t st) of
        (None, s1) \<Rightarrow> (None, s1)
      | (Some v, s1) \<Rightarrow>
          (case separator t 0x5D element_message s1 of
             Inl s2 \<Rightarrow> parseArray_loop strtod t (elements @ [v]) s2
           | Inr (ok, s2) \<Rightarrow> (if ok then Some (elements @ [v]) else None, s2)))"
  by pat_completeness auto

section \<open>The position only moves forward\<close>

lemma advance_simps [simp]:
  "pos (advance n st) = pos st + n" "depth (advance n st) = depth st" "err (advance n st) = err st"
  by (simp_all add: advance_def)

lemma fail_simps [simp]: "pos (fail what st) = pos st" "depth (fail what st) = depth st"
  by (simp_all add: fail_def)

lemma leave_simps [simp]: "pos (leave st) = pos st" "depth (leave st) = depth st - 1" "err (leave st) = err st"
  by (simp_all add: leave_def)

lemma skipWhitespace_eq: "skipWhitespace t st = advance (length (takeWhile is_ws (drop (pos st) t))) st"
proof (induction t st rule: skipWhitespace.induct)
  case (1 t st)
  show ?case
  proof (cases "\<not> atEnd t st \<and> is_ws (t ! pos st)")
    case True
    then have "drop (pos st) t = t ! pos st # drop (Suc (pos st)) t"
      by (simp add: atEnd_def Cons_nth_drop_Suc)
    then show ?thesis
      using True 1 by (simp add: skipWhitespace.simps [of t st] advance_def)
  next
    case False
    then show ?thesis
      by (cases "drop (pos st) t")
         (auto simp: skipWhitespace.simps [of t st] atEnd_def advance_def nth_via_drop)
  qed
qed

lemma skipDigits_eq: "skipDigits t st = advance (length (takeWhile is_dig (drop (pos st) t))) st"
proof (induction t st rule: skipDigits.induct)
  case (1 t st)
  show ?case
  proof (cases "\<not> atEnd t st \<and> is_dig (peek t st)")
    case True
    then have "drop (pos st) t = t ! pos st # drop (Suc (pos st)) t"
      by (simp add: atEnd_def Cons_nth_drop_Suc)
    then show ?thesis
      using True 1 by (simp add: skipDigits.simps [of t st] advance_def peek_def atEnd_def)
  next
    case False
    then show ?thesis
      by (cases "drop (pos st) t")
         (auto simp: skipDigits.simps [of t st] atEnd_def advance_def peek_def nth_via_drop)
  qed
qed

lemma pos_skipWhitespace: "pos st \<le> pos (skipWhitespace t st)"
  by (simp add: skipWhitespace_eq)

lemma pos_skipDigits: "pos st \<le> pos (skipDigits t st)"
  by (simp add: skipDigits_eq)

lemma parseString_loop_backslash:
  assumes "Suc (pos st) < length t" and "t ! pos st = 0x5C"
  shows "parseString_loop t out st =
    (case simple_escape (t ! (pos st + 1)) of Some u \<Rightarrow> parseString_loop t (out @ [u]) (advance 2 st)
        | None \<Rightarrow> if t ! (pos st + 1) = 0x75
            then (if length t - (pos st + 2) < 4 then (None, fail (CHR 0x5C # ''u needs four hexadecimal digits'') (advance 2 st))
                  else case hex_loop t (pos st + 2) 4 0 of
                         None \<Rightarrow> (None, fail (CHR 0x5C # ''u needs four hexadecimal digits'') (advance 2 st))
                       | Some v \<Rightarrow> parseString_loop t (out @ [ucast v]) (advance 6 st))
            else (None, fail ''that escape is not one JSON defines'' (advance 2 st)))"
proof -
  have adv: "advance 1 (advance 1 st) = advance 2 st" "advance 4 (advance 2 st) = advance 6 st" "pos st + 1 + 1 = pos st + 2"
    by (simp_all add: advance_def)
  have ends: "\<not> atEnd t st" "\<not> atEnd t (advance 1 st)"
    using assms(1) by (simp_all add: atEnd_def)
  have ne: "t ! pos st \<noteq> 0x22" "\<not> t ! pos st < 0x20"
    using assms(2) by simp_all
  show ?thesis
    unfolding parseString_loop.simps [of t out st] Let_def adv advance_simps(1)
    using assms(2) ne ends by (simp only: if_False if_True simp_thms adv)
qed

text \<open>One turn of the string loop.\<close>

lemma parseString_loop_cases:
  assumes "parseString_loop t out st = (r, st')"
  obtains (failed) message s where "r = None" "st' = fail message s" "pos st \<le> pos s" "pos s \<le> max (pos st) (length t)"
      "depth s = depth st" "err s = err st"
    | (closed) "drop (pos st) t = 0x22 # drop (pos st + 1) t" "r = Some out" "st' = advance 1 st"
    | (plain) c where "drop (pos st) t = c # drop (pos st + 1) t" "c \<noteq> 0x22" "\<not> c < 0x20" "c \<noteq> 0x5C"
      "parseString_loop t (out @ [c]) (advance 1 st) = (r, st')"
    | (escaped) e u where "drop (pos st) t = 0x5C # e # drop (pos st + 2) t" "simple_escape e = Some u"
      "parseString_loop t (out @ [u]) (advance 2 st) = (r, st')"
    | (unicode) v where "drop (pos st) t = [0x5C, 0x75] @ drop (pos st + 2) t" "pos st + 6 \<le> length t"
      "hex_loop t (pos st + 2) 4 0 = Some v" "parseString_loop t (out @ [ucast v]) (advance 6 st) = (r, st')"
proof -
  have two: "drop (pos st) t = t ! pos st # t ! Suc (pos st) # drop (pos st + 2) t" if "Suc (pos st) < length t"
    using that by (simp add: Cons_nth_drop_Suc)
  have one: "drop (pos st) t = t ! pos st # drop (pos st + 1) t" if "pos st < length t"
    using that by (simp add: Cons_nth_drop_Suc)
  note run = assms [unfolded parseString_loop.simps [of t out st] Let_def]
  consider "atEnd t st" | "\<not> atEnd t st" "t ! pos st = 0x22" | "\<not> atEnd t st" "t ! pos st \<noteq> 0x22" "t ! pos st < 0x20"
    | "\<not> atEnd t st" "t ! pos st \<noteq> 0x22" "\<not> t ! pos st < 0x20" "t ! pos st \<noteq> 0x5C"
    | "\<not> atEnd t st" "t ! pos st = 0x5C" "atEnd t (advance 1 st)"
    | "\<not> atEnd t st" "t ! pos st = 0x5C" "\<not> atEnd t (advance 1 st)"
    by blast
  then show thesis
  proof cases
    case 1
    then show thesis
      using run by (intro failed [of _ st]) auto
  next
    case 2
    then show thesis
      using run one by (intro closed) (auto simp: atEnd_def)
  next
    case 3
    then show thesis
      using run by (intro failed [of _ st]) auto
  next
    case 4
    then show thesis
      using run one by (intro plain [of "t ! pos st"]) (auto simp: atEnd_def)
  next
    case 5
    then show thesis
      using run by (intro failed [of _ "advance 1 st"]) (auto simp: atEnd_def)
  next
    case 6
    define e where "e = t ! (pos st + 1)"
    have len: "Suc (pos st) < length t"
      using 6 by (simp add: atEnd_def)
    note run' = assms [unfolded parseString_loop_backslash [OF len 6(2)], folded e_def]
    show thesis
    proof (cases "simple_escape e")
      case (Some u)
      then show thesis
        using run' two [OF len] 6 by (intro escaped [of e u]) (simp_all add: e_def del: simple_escape.simps)
    next
      case None
      show thesis
      proof (cases "e = 0x75 \<and> \<not> length t - (pos st + 2) < 4 \<and> hex_loop t (pos st + 2) 4 0 \<noteq> None")
        case True
        then obtain v where "hex_loop t (pos st + 2) 4 0 = Some v"
          by blast
        then show thesis
          using run' two [OF len] 6 None True by (intro unicode [of v]) (auto simp: e_def simp del: simple_escape.simps)
      next
        case False
        then have "\<exists>m. st' = fail m (advance 2 st) \<and> r = None"
          using run' None by (auto split: if_splits option.splits simp del: simple_escape.simps)
        then show thesis
          using len by (elim exE conjE) (rule failed [of _ "advance 2 st"]; simp)
      qed
    qed
  qed
qed

declare simple_escape.simps [simp del]

lemma drop_Cons_less: "drop n xs = x # ys \<Longrightarrow> n < length xs"
  by (metis drop_all list.distinct(1) not_le)

lemma pos_parseString_loop: "parseString_loop t out st = (r, st') \<Longrightarrow> pos st \<le> pos st'"
proof (induction "length t - pos st" arbitrary: out st rule: less_induct)
  case less
  from less.prems show ?case
  proof (cases rule: parseString_loop_cases)
    case (plain c)
    have "length t - pos (advance 1 st) < length t - pos st"
      using drop_Cons_less [OF plain(1)] by simp
    from less.hyps [OF this plain(5)] show ?thesis
      by simp
  next
    case (escaped e u)
    have "length t - pos (advance 2 st) < length t - pos st"
      using drop_Cons_less [OF escaped(1)] by simp
    from less.hyps [OF this escaped(3)] show ?thesis
      by simp
  next
    case (unicode v)
    have "length t - pos (advance 6 st) < length t - pos st"
      using unicode(2) by simp
    from less.hyps [OF this unicode(4)] show ?thesis
      by simp
  qed auto
qed

lemma pos_parseString: "parseString t st = (r, st') \<Longrightarrow> pos st < pos st'"
  using pos_parseString_loop [of t "[]" "advance 1 st"] by (fastforce simp: parseString_def)

lemma pos_number:
  "number_int t st = (b, st') \<Longrightarrow> pos st \<le> pos st'"
  "number_frac t st = (b, st') \<Longrightarrow> pos st \<le> pos st'"
  "number_exp t st = (b, st') \<Longrightarrow> pos st \<le> pos st'"
proof -
  have step: "pos st + 1 \<le> pos (skipDigits t (advance 1 st))" "pos st + 2 \<le> pos (skipDigits t (advance 1 (advance 1 st)))"
    using pos_skipDigits [of "advance 1 st" t] pos_skipDigits [of "advance 1 (advance 1 st)" t] by simp_all
  show "number_int t st = (b, st') \<Longrightarrow> pos st \<le> pos st'" "number_frac t st = (b, st') \<Longrightarrow> pos st \<le> pos st'"
    "number_exp t st = (b, st') \<Longrightarrow> pos st \<le> pos st'"
    using step pos_skipDigits [of st t]
    by (auto simp: number_int_def number_frac_def number_exp_def Let_def split: if_splits)
qed

lemma pos_parseNumber:
  assumes "parseNumber strtod t st = (r, st')"
  shows "pos st \<le> pos st'"
proof -
  define st0 where "st0 = (if peek t st = 0x2D then advance 1 st else st)"
  obtain b1 s1 b2 s2 b3 s3 where "number_int t st0 = (b1, s1)" "number_frac t s1 = (b2, s2)" "number_exp t s2 = (b3, s3)"
    by fastforce
  moreover from this have "pos st \<le> pos st0" "pos st0 \<le> pos s1" "pos s1 \<le> pos s2" "pos s2 \<le> pos s3"
    using pos_number by (auto simp: st0_def)
  ultimately show ?thesis
    using assms by (auto simp: parseNumber_def Let_def simp flip: st0_def split: bool.splits)
qed

lemma pos_unexpected [simp]: "pos (unexpected t st) = pos st" "depth (unexpected t st) = depth st"
  by (simp_all add: unexpected_def Let_def)

lemma pos_parseWord: "parseWord t word v st = (r, st') \<Longrightarrow> pos st \<le> pos st'"
  by (auto simp: parseWord_def matchWord_def Let_def split: if_splits)

lemma pos_parseStringValue: "parseStringValue t st = (r, st') \<Longrightarrow> pos st \<le> pos st'"
  using pos_parseString [of t st] by (fastforce simp: parseStringValue_def split: prod.splits)

lemma pos_open_bracket:
  "open_bracket t c st = Refused s \<Longrightarrow> pos st \<le> pos s" "open_bracket t c st = Closed s \<Longrightarrow> pos st < pos s"
  "open_bracket t c st = Entered s \<Longrightarrow> pos st < pos s"
  using pos_skipWhitespace [of "advance 1 (st\<lparr>depth := depth st + 1\<rparr>)" t]
  by (auto simp: open_bracket_def Let_def split: if_splits)

lemma pos_separator:
  "separator t c m st = Inl s \<Longrightarrow> pos st < pos s" "separator t c m st = Inr (b, s) \<Longrightarrow> pos st \<le> pos s"
  using pos_skipWhitespace [of st t] by (auto simp: separator_def Let_def less_Suc_eq_le le_SucI split: if_splits)

lemma pos_member_key:
  assumes "member_key t st = (r, s)"
  shows "pos st \<le> pos s" and "r \<noteq> None \<Longrightarrow> pos st < length t"
proof -
  define s0 where "s0 = skipWhitespace t st"
  obtain k s1 where str: "parseString t s0 = (k, s1)"
    by fastforce
  have le: "pos st \<le> pos s0" "pos s0 < pos s1" "pos s1 \<le> pos (skipWhitespace t s1)"
    "pos (skipWhitespace t s1) < pos (skipWhitespace t (advance 1 (skipWhitespace t s1)))"
    using pos_skipWhitespace [of st t] pos_parseString [OF str] pos_skipWhitespace [of s1 t]
      pos_skipWhitespace [of "advance 1 (skipWhitespace t s1)" t] by (simp_all add: s0_def)
  have "s \<in> {s1, skipWhitespace t (advance 1 (skipWhitespace t s1))} \<or>
      (\<exists>m. s = fail m s0 \<or> s = fail m (skipWhitespace t s1))"
    using assms by (auto simp: member_key_def Let_def str simp flip: s0_def split: if_splits option.splits)
  then show "pos st \<le> pos s"
    using le by auto
  show "r \<noteq> None \<Longrightarrow> pos st < length t"
    using assms le(1) by (auto simp: member_key_def Let_def peek_def simp flip: s0_def split: if_splits)
qed

lemma pos_parse_partial:
  "parseValue_parseObject_loop_parseArray_loop_dom (Inl (strtod, t, st)) \<Longrightarrow>
     (\<And>r st'. parseValue strtod t st = (r, st') \<Longrightarrow> pos st \<le> pos st' \<and> (r \<noteq> None \<longrightarrow> pos st < length t))"
  "parseValue_parseObject_loop_parseArray_loop_dom (Inr (Inl (strtod, t, ms, st))) \<Longrightarrow>
     (\<And>r st'. parseObject_loop strtod t ms st = (r, st') \<Longrightarrow> pos st \<le> pos st')"
  "parseValue_parseObject_loop_parseArray_loop_dom (Inr (Inr (strtod, t, es, st))) \<Longrightarrow>
     (\<And>r st'. parseArray_loop strtod t es st = (r, st') \<Longrightarrow> pos st \<le> pos st')"
proof (induction strtod t st and strtod t ms st and strtod t es st
    rule: parseValue_parseObject_loop_parseArray_loop.pinduct)
  case (1 strtod t st)
  show ?case
  proof (cases "atEnd t st")
    case True
    then show ?thesis
      using 1(4) by (auto simp: parseValue.psimps [OF 1(1)])
  next
    case False
    have obj: "pos st \<le> pos s'" if "open_bracket t 0x7D st = Entered s" "peek t st = 0x7B"
      "parseObject_loop strtod t [] s = (r, s')" for s r s'
      using 1(2) [OF False refl that(2,1,3)] pos_open_bracket(3) [OF that(1)] by linarith
    have arr: "pos st \<le> pos s'" if "open_bracket t 0x5D st = Entered s" "peek t st = 0x5B"
      "parseArray_loop strtod t [] s = (r, s')" for s r s'
      using 1(3) [OF False refl _ that(2,1,3)] that(2) pos_open_bracket(3) [OF that(1)] by fastforce
    have "pos st \<le> pos st'"
      using 1(4) obj arr False unfolding parseValue.psimps [OF 1(1)] Let_def
      by (auto dest: pos_open_bracket pos_parseStringValue pos_parseWord pos_parseNumber
          split: if_splits opened.splits prod.splits)
    then show ?thesis
      using False by (simp add: atEnd_def)
  qed
next
  case (2 strtod t ms st)
  obtain k s where mk: "member_key t st = (k, s)"
    by fastforce
  note run = 2(4) [unfolded parseObject_loop.psimps [OF 2(1)] mk]
  show ?case
  proof (cases k)
    case None
    then show ?thesis
      using run pos_member_key [OF mk] by simp
  next
    case (Some key)
    obtain r1 s1 where pv: "parseValue strtod t s = (r1, s1)"
      by fastforce
    have le: "pos st \<le> pos s" "pos s \<le> pos s1"
      using pos_member_key [OF mk] 2(2) [OF mk [symmetric] Some pv] by auto
    show ?thesis
      using run le 2(3) [OF mk [symmetric] Some pv [symmetric]]
      by (fastforce simp: Some pv dest!: pos_separator split: option.splits sum.splits if_splits)
  qed
next
  case (3 strtod t es st)
  obtain r1 s1 where pv: "parseValue strtod t (skipWhitespace t st) = (r1, s1)"
    by fastforce
  note run = 3(4) [unfolded parseArray_loop.psimps [OF 3(1)] pv]
  have le: "pos st \<le> pos (skipWhitespace t st)" "pos (skipWhitespace t st) \<le> pos s1"
    using pos_skipWhitespace 3(2) [OF pv] by auto
  show ?case
    using run le 3(3) [OF pv [symmetric]]
    by (fastforce dest!: pos_separator split: option.splits sum.splits if_splits)
qed

termination parseValue
proof (relation "measure (case_sum (\<lambda>(strtod, t, st). 2 * (length t - pos st))
    (case_sum (\<lambda>(strtod, t, ms, st). 2 * (length t - pos st) + 1) (\<lambda>(strtod, t, es, st). 2 * (length t - pos st) + 1)))",
    goal_cases)
  case (2 strtod t st x s)
  then show ?case
    using pos_open_bracket(3) [OF 2(4)] by (simp add: atEnd_def)
next
  case (3 strtod t st x s)
  then show ?case
    using pos_open_bracket(3) [OF 3(5)] by (simp add: atEnd_def)
next
  case (4 strtod t ms st k s key)
  then show ?case
    using pos_member_key(1) [OF 4(1) [symmetric]] by simp
next
  case (5 strtod t ms st k s key r s1 v s2)
  have "pos st \<le> pos s" "pos st < length t" "pos s \<le> pos s1" "pos s1 < pos s2"
    using pos_member_key [OF 5(1) [symmetric]] 5(2) pos_parse_partial(1) [OF 5(6) 5(3) [symmetric]] pos_separator(1) [OF 5(5)]
    by simp_all
  then show ?case
    by simp
next
  case (6 strtod t es st)
  then show ?case
    using pos_skipWhitespace [of st t] by simp
next
  case (7 strtod t es st r s1 v s2)
  have "pos st \<le> pos (skipWhitespace t st)" "pos (skipWhitespace t st) < length t" "pos (skipWhitespace t st) \<le> pos s1"
    "pos s1 < pos s2"
    using pos_skipWhitespace [of st t] pos_parse_partial(1) [OF 7(4) 7(1) [symmetric]] 7(2) pos_separator(1) [OF 7(3)]
    by simp_all
  then show ?case
    by simp
qed simp

declare parseValue.simps [simp del] parseObject_loop.simps [simp del] parseArray_loop.simps [simp del]

definition parseText :: "(string \<Rightarrow> 'd) \<Rightarrow> units \<Rightarrow> jparser \<Rightarrow> 'd json_value option \<times> jparser" where
  "parseText strtod t st =
     (case parseValue strtod t (skipWhitespace t st) of
        (None, s1) \<Rightarrow> (None, s1)
      | (Some v, s1) \<Rightarrow>
          (let s2 = skipWhitespace t s1
           in if pos s2 \<noteq> length t then (None, fail ''unexpected text after the end of the JSON value'' s2)
              else (Some v, s2)))"

definition json_parse :: "(string \<Rightarrow> 'd) \<Rightarrow> units \<Rightarrow> string + 'd json_value" where
  "json_parse strtod t =
     (case parseText strtod t \<lparr>pos = 0, depth = 0, err = []\<rparr> of
        (Some v, _) \<Rightarrow> Inr v
      | (None, s) \<Rightarrow> Inl (if err s = [] then ''Unexpected end of JSON input'' else err s))"

section \<open>The grammar\<close>

text \<open>RFC 8259's productions, relating a text to the value it denotes. A string's characters, each
  written raw or escaped:\<close>

inductive jchars :: "units \<Rightarrow> units \<Rightarrow> bool" where
  chars_nil: "jchars [] []"
| chars_raw: "0x20 \<le> c \<Longrightarrow> c \<noteq> 0x22 \<Longrightarrow> c \<noteq> 0x5C \<Longrightarrow> jchars w s \<Longrightarrow> jchars (c # w) (c # s)"
| chars_escape: "(e, c) \<in> {(0x22, 0x22), (0x5C, 0x5C), (0x2F, 0x2F), (0x62, 0x08), (0x66, 0x0C), (0x6E, 0x0A),
      (0x72, 0x0D), (0x74, 0x09)} \<Longrightarrow> jchars w s \<Longrightarrow> jchars (0x5C # e # w) (c # s)"
| chars_unicode: "map hexDigit [a, b, c, d] = map Some [i, j, k, l] \<Longrightarrow> jchars w s \<Longrightarrow>
      jchars (0x5C # 0x75 # a # b # c # d # w) (ucast (((i * 16 + j) * 16 + k) * 16 + l) # s)"

definition jstring :: "units \<Rightarrow> units \<Rightarrow> bool" where
  "jstring w s \<longleftrightarrow> (\<exists>body. w = 0x22 # body @ [0x22] \<and> jchars body s)"

definition digits :: "units \<Rightarrow> bool" where
  "digits w \<longleftrightarrow> w \<noteq> [] \<and> (\<forall>c \<in> set w. is_dig c)"

definition jnumber :: "units \<Rightarrow> bool" where
  "jnumber w \<longleftrightarrow> (\<exists>sgn int frac exp. w = sgn @ int @ frac @ exp \<and> sgn \<in> {[], [0x2D]} \<and>
     (int = [0x30] \<or> digits int \<and> hd int \<noteq> 0x30) \<and>
     (frac = [] \<or> (\<exists>ds. frac = 0x2E # ds \<and> digits ds)) \<and>
     (exp = [] \<or> (\<exists>e s ds. exp = e # s @ ds \<and> e \<in> {0x65, 0x45} \<and> s \<in> {[], [0x2B], [0x2D]} \<and> digits ds)))"

definition blank :: "units \<Rightarrow> bool" where
  "blank w \<longleftrightarrow> (\<forall>c \<in> set w. is_ws c)"

text \<open>Values, array elements and object members; the number is how many more brackets may nest.\<close>

inductive jvalue :: "(string \<Rightarrow> 'd) \<Rightarrow> nat \<Rightarrow> units \<Rightarrow> 'd json_value \<Rightarrow> bool"
  and jelements :: "(string \<Rightarrow> 'd) \<Rightarrow> nat \<Rightarrow> units \<Rightarrow> 'd json_value list \<Rightarrow> bool"
  and jmembers :: "(string \<Rightarrow> 'd) \<Rightarrow> nat \<Rightarrow> units \<Rightarrow> (units \<times> 'd json_value) list \<Rightarrow> bool"
  for strtod
where
  val_null: "jvalue strtod n word_null VNull"
| val_true: "jvalue strtod n word_true (VBool True)"
| val_false: "jvalue strtod n word_false (VBool False)"
| val_string: "jstring w s \<Longrightarrow> jvalue strtod n w (VString s)"
| val_number: "jnumber w \<Longrightarrow> jvalue strtod n w (VNumber (strtod (ascii w)))"
| val_empty_array: "blank w \<Longrightarrow> jvalue strtod (Suc n) (0x5B # w @ [0x5D]) (VArray [])"
| val_array: "jelements strtod n w vs \<Longrightarrow> jvalue strtod (Suc n) (0x5B # w @ [0x5D]) (VArray vs)"
| val_empty_object: "blank w \<Longrightarrow> jvalue strtod (Suc n) (0x7B # w @ [0x7D]) (VObject [])"
| val_object: "jmembers strtod n w ms \<Longrightarrow> jvalue strtod (Suc n) (0x7B # w @ [0x7D]) (VObject ms)"
| elem_one: "blank a \<Longrightarrow> jvalue strtod n w v \<Longrightarrow> blank b \<Longrightarrow> jelements strtod n (a @ w @ b) [v]"
| elem_more: "blank a \<Longrightarrow> jvalue strtod n w v \<Longrightarrow> blank b \<Longrightarrow> jelements strtod n r vs \<Longrightarrow>
    jelements strtod n (a @ w @ b @ 0x2C # r) (v # vs)"
| mem_one: "blank a \<Longrightarrow> jstring k key \<Longrightarrow> blank b \<Longrightarrow> blank c \<Longrightarrow> jvalue strtod n w v \<Longrightarrow> blank d \<Longrightarrow>
    jmembers strtod n (a @ k @ b @ 0x3A # c @ w @ d) [(key, v)]"
| mem_more: "blank a \<Longrightarrow> jstring k key \<Longrightarrow> blank b \<Longrightarrow> blank c \<Longrightarrow> jvalue strtod n w v \<Longrightarrow> blank d \<Longrightarrow>
    jmembers strtod n r ms \<Longrightarrow> jmembers strtod n (a @ k @ b @ 0x3A # c @ w @ d @ 0x2C # r) ((key, v) # ms)"

definition json_text :: "(string \<Rightarrow> 'd) \<Rightarrow> units \<Rightarrow> 'd json_value \<Rightarrow> bool" where
  "json_text strtod t v \<longleftrightarrow> (\<exists>a w b. t = a @ w @ b \<and> blank a \<and> jvalue strtod kMaxDepth w v \<and> blank b)"

section \<open>What a step consumes\<close>

definition consumed :: "units \<Rightarrow> jparser \<Rightarrow> jparser \<Rightarrow> units \<Rightarrow> bool" where
  "consumed t st st' w \<longleftrightarrow> st' = advance (length w) st \<and> drop (pos st) t = w @ drop (pos st') t"

lemma advance_advance [simp]: "advance m (advance n st) = advance (n + m) st"
  by (simp add: advance_def add.assoc)

lemma advance_0 [simp]: "advance 0 st = st"
  by (simp add: advance_def)

lemma consumed_Nil [simp]: "consumed t st st []"
  by (simp add: consumed_def)

lemma consumed_trans [trans]: "consumed t st s1 u \<Longrightarrow> consumed t s1 s2 w \<Longrightarrow> consumed t st s2 (u @ w)"
  by (simp add: consumed_def)

lemma consumed_pos: "consumed t st st' w \<Longrightarrow> pos st \<le> length t \<Longrightarrow> pos st' \<le> length t"
proof -
  assume "consumed t st st' w" and le: "pos st \<le> length t"
  then have "length (drop (pos st) t) = length w + (length t - pos st')" and "pos st' = pos st + length w"
    by (simp_all add: consumed_def)
  then show "pos st' \<le> length t"
    using le by (simp; linarith)
qed

lemma consumed_peek:
  assumes "peek t st = c" and "c \<noteq> 0"
  shows "consumed t st (advance 1 st) [c]"
  using assms by (auto simp: consumed_def peek_def Cons_nth_drop_Suc split: if_splits)

lemma consumed_skipWhitespace: "consumed t st (skipWhitespace t st) (takeWhile is_ws (drop (pos st) t))"
  by (simp add: consumed_def skipWhitespace_eq) (metis dropWhile_eq_drop drop_drop add.commute takeWhile_dropWhile_id)

lemma blank_takeWhile [simp]: "blank (takeWhile is_ws w)"
  by (auto simp: blank_def dest: set_takeWhileD)

lemma blank_append [simp]: "blank (a @ b) \<longleftrightarrow> blank a \<and> blank b"
  by (auto simp: blank_def)

lemma skip_blank:
  obtains a where "consumed t st (skipWhitespace t st) a" and "blank a"
  using consumed_skipWhitespace blank_takeWhile by blast

lemma consumed_skipDigits: "consumed t st (skipDigits t st) (takeWhile is_dig (drop (pos st) t))"
  by (simp add: consumed_def skipDigits_eq) (metis dropWhile_eq_drop drop_drop add.commute takeWhile_dropWhile_id)

lemma skip_digits:
  assumes "\<not> atEnd t st" and "is_dig (peek t st)"
  obtains ds where "consumed t st (skipDigits t st) ds" and "digits ds" and "hd ds = peek t st"
proof
  show "consumed t st (skipDigits t st) (takeWhile is_dig (drop (pos st) t))"
    by (rule consumed_skipDigits)
  have "drop (pos st) t = peek t st # drop (Suc (pos st)) t"
    using assms(1) by (simp add: atEnd_def peek_def Cons_nth_drop_Suc)
  then show "digits (takeWhile is_dig (drop (pos st) t))" "hd (takeWhile is_dig (drop (pos st) t)) = peek t st"
    using assms(2) by (auto simp: digits_def dest: set_takeWhileD)
qed

section \<open>Soundness\<close>

text \<open>A failed step has reported an error at a position inside the text or at its end.\<close>

definition reported :: "units \<Rightarrow> jparser \<Rightarrow> bool" where
  "reported t st \<longleftrightarrow> (\<exists>k what. k \<le> length t \<and> err st = ''Unexpected token in JSON at position '' @ to_string k @ '': '' @ what)"

lemma reported_fail: "err st = [] \<Longrightarrow> pos st \<le> length t \<Longrightarrow> reported t (fail what st)"
  by (auto simp: reported_def fail_def)

lemma reported_unexpected: "err st = [] \<Longrightarrow> pos st \<le> length t \<Longrightarrow> reported t (unexpected t st)"
  by (simp add: unexpected_def Let_def reported_fail)

lemma reported_leave [simp]: "reported t (leave st) = reported t st"
  by (simp add: reported_def)

text \<open>The contract of a parsing step: on success it consumed a text of the right form, on failure an
  error is reported.\<close>

definition step_ok :: "units \<Rightarrow> jparser \<Rightarrow> 'a option \<times> jparser \<Rightarrow> (units \<Rightarrow> 'a \<Rightarrow> bool) \<Rightarrow> bool" where
  "step_ok t st out P \<longleftrightarrow>
     (case fst out of
        Some x \<Rightarrow> (\<exists>w. consumed t st (snd out) w \<and> P w x)
      | None \<Rightarrow> (err st = [] \<and> pos st \<le> length t \<longrightarrow> reported t (snd out)))"

lemma step_okD:
  "step_ok t st (Some x, st') P \<Longrightarrow> \<exists>w. consumed t st st' w \<and> P w x"
  "step_ok t st (None, st') P \<Longrightarrow> err st = [] \<Longrightarrow> pos st \<le> length t \<Longrightarrow> reported t st'"
  by (simp_all add: step_ok_def)

lemma consumed_err: "consumed t st st' w \<Longrightarrow> err st' = err st"
  by (auto simp: consumed_def)

lemma consumed_depth: "consumed t st st' w \<Longrightarrow> depth st' = depth st"
  by (auto simp: consumed_def)

text \<open>A step after some text was consumed.\<close>

lemma step_ok_after:
  assumes "consumed t st s1 u" and "step_ok t s1 out P" and "\<And>w x. P w x \<Longrightarrow> Q (u @ w) x"
  shows "step_ok t st out Q"
proof (cases "fst out")
  case None
  then show ?thesis
    using assms(2) consumed_err [OF assms(1)] consumed_pos [OF assms(1)] by (simp add: step_ok_def)
next
  case (Some x)
  then obtain w where "consumed t s1 (snd out) w" "P w x"
    using assms(2) by (auto simp: step_ok_def)
  then show ?thesis
    using Some assms(1,3) consumed_trans by (fastforce simp: step_ok_def)
qed

lemma step_ok_fail:
  assumes "consumed t st s u"
  shows "step_ok t st (None, fail m s) P"
  using reported_fail [of s t m] consumed_err [OF assms] consumed_pos [OF assms] by (simp add: step_ok_def)

lemma hex_loop_4:
  assumes "hex_loop t at 4 0 = Some v" and "at + 4 \<le> length t"
  obtains a b c d i j k l where "drop at t = a # b # c # d # drop (at + 4) t"
    and "map hexDigit [a, b, c, d] = map Some [i, j, k, l]" and "v = ((i * 16 + j) * 16 + k) * 16 + l"
proof -
  have "drop at t = t ! at # t ! (at + 1) # t ! (at + 2) # t ! (at + 3) # drop (at + 4) t"
    using assms(2) by (simp add: Cons_nth_drop_Suc eval_nat_numeral)
  moreover obtain i j k l where "hexDigit (t ! at) = Some i" "hexDigit (t ! (at + 1)) = Some j"
      "hexDigit (t ! (at + 2)) = Some k" "hexDigit (t ! (at + 3)) = Some l" "v = ((i * 16 + j) * 16 + k) * 16 + l"
    using assms(1) by (auto simp: eval_nat_numeral split: option.splits)
  ultimately show thesis
    using that by simp
qed

lemma simple_escape_table:
  "simple_escape e = Some c \<longleftrightarrow> (e, c) \<in> {(0x22, 0x22), (0x5C, 0x5C), (0x2F, 0x2F), (0x62, 0x08), (0x66, 0x0C),
     (0x6E, 0x0A), (0x72, 0x0D), (0x74, 0x09)}"
  by (auto simp: simple_escape.simps)

lemma parseString_loop_sound:
  "step_ok t st (parseString_loop t out st) (\<lambda>w s. \<exists>body s'. w = body @ [0x22] \<and> jchars body s' \<and> s = out @ s')"
proof (induction "length t - pos st" arbitrary: out st rule: less_induct)
  case less
  obtain r st' where run: "parseString_loop t out st = (r, st')"
    by fastforce
  then show ?case
  proof (cases rule: parseString_loop_cases)
    case (failed m s)
    then show ?thesis
      unfolding run using reported_fail [of s t m] by (auto simp: step_ok_def max_def)
  next
    case closed
    then have "consumed t st st' [0x22]"
      by (simp add: consumed_def)
    then show ?thesis
      unfolding run closed using chars_nil by (auto simp: step_ok_def)
  next
    case (plain c)
    have "consumed t st (advance 1 st) [c]"
      using plain(1) by (simp add: consumed_def)
    then show ?thesis
      unfolding run plain(5) [symmetric]
    proof (rule step_ok_after [OF _ less])
      show "length t - pos (advance 1 st) < length t - pos st"
        using drop_Cons_less [OF plain(1)] by simp
      show "\<exists>body s'. [c] @ w = body @ [0x22] \<and> jchars body s' \<and> x = out @ s'"
        if "\<exists>body s'. w = body @ [0x22] \<and> jchars body s' \<and> x = (out @ [c]) @ s'" for w x
        using that chars_raw [of c] plain(2-4) by (metis append.assoc append_Cons append_Nil linorder_not_less)
    qed
  next
    case (escaped e u)
    have "consumed t st (advance 2 st) [0x5C, e]"
      using escaped(1) by (simp add: consumed_def)
    then show ?thesis
      unfolding run escaped(3) [symmetric]
    proof (rule step_ok_after [OF _ less])
      show "length t - pos (advance 2 st) < length t - pos st"
        using drop_Cons_less [OF escaped(1)] by simp
      show "\<exists>body s'. [0x5C, e] @ w = body @ [0x22] \<and> jchars body s' \<and> x = out @ s'"
        if "\<exists>body s'. w = body @ [0x22] \<and> jchars body s' \<and> x = (out @ [u]) @ s'" for w x
        using that chars_escape [of e u] escaped(2) [unfolded simple_escape_table] by (metis append.assoc append_Cons append_Nil)
    qed
  next
    case (unicode v)
    have six: "pos st + 2 + 4 = pos st + 6"
      by simp
    obtain a b c d i j k l where hex: "drop (pos st + 2) t = a # b # c # d # drop (pos st + 6) t"
      "map hexDigit [a, b, c, d] = map Some [i, j, k, l]" "v = ((i * 16 + j) * 16 + k) * 16 + l"
      using hex_loop_4 [OF unicode(3), unfolded six] unicode(2) by blast
    have "consumed t st (advance 6 st) [0x5C, 0x75, a, b, c, d]"
      using unicode(1) hex(1) by (simp add: consumed_def)
    then show ?thesis
      unfolding run unicode(4) [symmetric]
    proof (rule step_ok_after [OF _ less])
      show "length t - pos (advance 6 st) < length t - pos st"
        using unicode(2) by simp
      show "\<exists>body s'. [0x5C, 0x75, a, b, c, d] @ w = body @ [0x22] \<and> jchars body s' \<and> x = out @ s'"
        if "\<exists>body s'. w = body @ [0x22] \<and> jchars body s' \<and> x = (out @ [ucast v]) @ s'" for w x
        using that chars_unicode [OF hex(2)] unfolding hex(3) by (metis append.assoc append_Cons append_Nil)
    qed
  qed
qed

lemma parseString_sound:
  assumes "peek t st = 0x22"
  shows "step_ok t st (parseString t st) jstring"
  unfolding parseString_def
proof (rule step_ok_after [OF _ parseString_loop_sound])
  show "consumed t st (advance 1 st) [0x22]"
    by (rule consumed_peek [OF assms]) simp
qed (auto simp: jstring_def)

lemma step_ok_map:
  assumes "step_ok t st out P" and "\<And>w x. P w x \<Longrightarrow> Q w (f x)"
  shows "step_ok t st (map_option f (fst out), snd out) Q"
  using assms by (cases "fst out") (auto simp: step_ok_def)

lemma parseStringValue_sound: "peek t st = 0x22 \<Longrightarrow> step_ok t st (parseStringValue t st) (jvalue strtod n)"
  using step_ok_map [OF parseString_sound, of t st "jvalue strtod n" VString]
  by (auto simp: parseStringValue_def case_prod_beta val_string)

lemma parseWord_sound:
  assumes "jvalue strtod n word v"
  shows "step_ok t st (parseWord t word v st) (jvalue strtod n)"
proof (cases "fst (matchWord t word st)")
  case True
  then have fits: "\<not> length t - pos st < length word" "\<forall>i < length word. t ! (pos st + i) = word ! i"
    "matchWord t word st = (True, advance (length word) st)"
    by (auto simp: matchWord_def split: if_splits)
  have "take (length word) (drop (pos st) t) = word"
    using fits(1,2) by (intro nth_equalityI) auto
  then have "consumed t st (advance (length word) st) word"
    by (simp add: consumed_def) (metis append_take_drop_id drop_drop add.commute)
  then show ?thesis
    using assms by (auto simp: parseWord_def fits(3) step_ok_def)
next
  case False
  then have "matchWord t word st = (False, st)"
    by (auto simp: matchWord_def split: if_splits)
  then show ?thesis
    using reported_unexpected [of st t] by (simp add: parseWord_def step_ok_def)
qed

text \<open>The parts of a number; a part's verdict is a step that yields nothing.\<close>

definition part_ok :: "units \<Rightarrow> jparser \<Rightarrow> bool \<times> jparser \<Rightarrow> (units \<Rightarrow> bool) \<Rightarrow> bool" where
  "part_ok t st out P \<longleftrightarrow> step_ok t st (if fst out then Some () else None, snd out) (\<lambda>w _. P w)"

lemma part_ok_True: "consumed t st s w \<Longrightarrow> P w \<Longrightarrow> part_ok t st (True, s) P"
  by (auto simp: part_ok_def step_ok_def)

lemma part_ok_fail: "consumed t st s w \<Longrightarrow> part_ok t st (False, fail m s) P"
  by (simp add: part_ok_def step_ok_fail)

lemma number_int_sound: "part_ok t st (number_int t st) (\<lambda>w. w = [0x30] \<or> digits w \<and> hd w \<noteq> 0x30)"
proof (cases "atEnd t st \<or> \<not> is_dig (peek t st)")
  case True
  then show ?thesis
    using part_ok_fail [of t st st "[]"] by (simp add: number_int_def)
next
  case False
  show ?thesis
  proof (cases "peek t st = 0x30")
    case True
    then have "consumed t st (advance 1 st) [0x30]"
      by (intro consumed_peek) simp_all
    then show ?thesis
      using False True part_ok_True part_ok_fail by (auto simp: number_int_def Let_def)
  next
    assume ne: "peek t st \<noteq> 0x30"
    obtain ds where "consumed t st (skipDigits t st) ds" "digits ds" "hd ds = peek t st"
      using False skip_digits by blast
    then show ?thesis
      using False ne part_ok_True by (simp add: number_int_def Let_def)
  qed
qed

lemma number_frac_sound: "part_ok t st (number_frac t st) (\<lambda>w. w = [] \<or> (\<exists>ds. w = 0x2E # ds \<and> digits ds))"
proof (cases "peek t st = 0x2E")
  case True
  then have dot: "consumed t st (advance 1 st) [0x2E]"
    by (intro consumed_peek) simp_all
  show ?thesis
  proof (cases "atEnd t (advance 1 st) \<or> \<not> is_dig (peek t (advance 1 st))")
    case False
    then obtain ds where "consumed t (advance 1 st) (skipDigits t (advance 1 st)) ds" "digits ds"
      using skip_digits by blast
    then show ?thesis
      using False True part_ok_True [OF consumed_trans [OF dot]] by (auto simp: number_frac_def Let_def)
  qed (use True part_ok_fail [OF dot] in \<open>simp add: number_frac_def Let_def\<close>)
qed (simp add: number_frac_def part_ok_True [of t st st "[]"])

lemma number_exp_sound:
  "part_ok t st (number_exp t st)
     (\<lambda>w. w = [] \<or> (\<exists>e s ds. w = e # s @ ds \<and> e \<in> {0x65, 0x45} \<and> s \<in> {[], [0x2B], [0x2D]} \<and> digits ds))"
proof (cases "peek t st = 0x65 \<or> peek t st = 0x45")
  case True
  define st1 where "st1 = advance 1 st"
  define st2 where "st2 = (if peek t st1 = 0x2B \<or> peek t st1 = 0x2D then advance 1 st1 else st1)"
  obtain e where e: "consumed t st st1 [e]" "e \<in> {0x65, 0x45}"
    using True consumed_peek [of t st] by (auto simp: st1_def)
  obtain s where s: "consumed t st1 st2 s" "s \<in> {[], [0x2B], [0x2D]}"
    using consumed_peek [of t st1] unfolding st2_def by (cases "peek t st1 = 0x2B"; cases "peek t st1 = 0x2D") force+
  note head = consumed_trans [OF e(1) s(1)]
  have eq: "number_exp t st = (if atEnd t st2 \<or> \<not> is_dig (peek t st2) then (False, fail ''a digit was expected in the exponent'' st2)
      else (True, skipDigits t st2))"
    using True unfolding number_exp_def Let_def st2_def st1_def by (simp only: if_True)
  show ?thesis
  proof (cases "atEnd t st2 \<or> \<not> is_dig (peek t st2)")
    case False
    then obtain ds where "consumed t st2 (skipDigits t st2) ds" "digits ds"
      using skip_digits by blast
    then have "consumed t st (skipDigits t st2) (e # s @ ds)"
      using consumed_trans [OF head] by simp
    moreover have "\<exists>x y ds'. e # s @ ds = x # y @ ds' \<and> x \<in> {0x65, 0x45} \<and> y \<in> {[], [0x2B], [0x2D]} \<and> digits ds'"
      using e(2) s(2) \<open>digits ds\<close> by blast
    ultimately show ?thesis
      using False part_ok_True by (simp add: eq)
  qed (use part_ok_fail [OF head] in \<open>simp add: eq\<close>)
qed (simp add: number_exp_def part_ok_True [of t st st "[]"])

lemma part_then:
  assumes "consumed t st s0 u" and "part_ok t s0 (b, s) P" and "\<not> b \<Longrightarrow> k = (None, s)"
    and "\<And>w. b \<Longrightarrow> consumed t st s (u @ w) \<Longrightarrow> P w \<Longrightarrow> step_ok t st k Q"
  shows "step_ok t st k Q"
proof (cases b)
  case True
  then obtain w where "consumed t s0 s w" "P w"
    using assms(2) by (auto simp: part_ok_def step_ok_def)
  then show ?thesis
    using assms(4) True consumed_trans [OF assms(1)] by blast
next
  case False
  then show ?thesis
    using assms(2,3) consumed_err [OF assms(1)] consumed_pos [OF assms(1)] by (simp add: part_ok_def step_ok_def)
qed

lemma optional_minus:
  obtains sgn where "consumed t st (if peek t st = 0x2D then advance 1 st else st) sgn" and "sgn \<in> {[], [0x2D]}"
proof (cases "peek t st = 0x2D")
  case True
  then show thesis
    using that [of "[0x2D]"] consumed_peek [OF True] by simp
next
  case False
  then show thesis
    using that [of "[]"] by simp
qed

lemma parseNumber_sound: "step_ok t st (parseNumber strtod t st) (jvalue strtod n)"
proof -
  define st0 where "st0 = (if peek t st = 0x2D then advance 1 st else st)"
  obtain sgn where sgn: "consumed t st st0 sgn" "sgn \<in> {[], [0x2D]}"
    unfolding st0_def by (rule optional_minus)
  obtain b1 s1 b2 s2 b3 s3 where parts: "number_int t st0 = (b1, s1)" "number_frac t s1 = (b2, s2)" "number_exp t s2 = (b3, s3)"
    by (metis surj_pair)
  have run: "parseNumber strtod t st = (if \<not> b1 then (None, s1) else if \<not> b2 then (None, s2) else if \<not> b3 then (None, s3)
      else (Some (VNumber (strtod (ascii (take (pos s3 - pos st) (drop (pos st) t))))), s3))"
    by (cases b1; cases b2; cases b3) (simp_all add: parseNumber_def Let_def parts flip: st0_def)
  show ?thesis
  proof (rule part_then [OF sgn(1) number_int_sound [of t st0, unfolded parts]])
    fix i
    assume i: "b1" "consumed t st s1 (sgn @ i)" "i = [0x30] \<or> digits i \<and> hd i \<noteq> 0x30"
    show ?thesis
    proof (rule part_then [OF i(2) number_frac_sound [of t s1, unfolded parts]])
      fix f
      assume f: "b2" "consumed t st s2 ((sgn @ i) @ f)" "f = [] \<or> (\<exists>ds. f = 0x2E # ds \<and> digits ds)"
      show ?thesis
      proof (rule part_then [OF f(2) number_exp_sound [of t s2, unfolded parts]])
        fix e
        assume e: "b3" "consumed t st s3 (((sgn @ i) @ f) @ e)"
          "e = [] \<or> (\<exists>x s ds. e = x # s @ ds \<and> x \<in> {0x65, 0x45} \<and> s \<in> {[], [0x2B], [0x2D]} \<and> digits ds)"
        define w where "w = ((sgn @ i) @ f) @ e"
        have w: "consumed t st s3 w"
          unfolding w_def by (rule e(2))
        then have "take (pos s3 - pos st) (drop (pos st) t) = w"
          by (simp add: consumed_def)
        then have "parseNumber strtod t st = (Some (VNumber (strtod (ascii w))), s3)"
          by (simp add: run i(1) f(1) e(1))
        moreover have "jnumber w"
          unfolding jnumber_def w_def
          by (intro exI [of _ sgn] exI [of _ i] exI [of _ f] exI [of _ e] conjI sgn(2) i(3) f(3) e(3)) simp
        ultimately show ?thesis
          using w val_number [of w strtod n] by (simp add: step_ok_def) blast
      qed (simp add: run i(1) f(1))
    qed (simp add: run i(1))
  qed (simp add: run)
qed

text \<open>The pieces of a bracketed value.\<close>

lemma open_bracket_cases:
  fixes c :: u16
  assumes "c \<noteq> 0"
  obtains (refused) m where "kMaxDepth < depth st + 1" "open_bracket t c st = Refused (leave (fail m (st\<lparr>depth := depth st + 1\<rparr>)))"
    | (closed) a where "depth st + 1 \<le> kMaxDepth" "open_bracket t c st = Closed (advance (length a + 2) st)"
        "drop (pos st + 1) t = a @ c # drop (pos st + length a + 2) t" "blank a"
    | (entered) a s where "depth st + 1 \<le> kMaxDepth" "open_bracket t c st = Entered (advance (length a + 1) (st\<lparr>depth := depth st + 1\<rparr>))"
        "drop (pos st + 1) t = a @ drop (pos st + 1 + length a) t" "blank a"
        "peek t (advance (length a + 1) (st\<lparr>depth := depth st + 1\<rparr>)) \<noteq> c"
proof -
  define st1 where "st1 = st\<lparr>depth := depth st + 1\<rparr>"
  obtain a where a: "consumed t (advance 1 st1) (skipWhitespace t (advance 1 st1)) a" "blank a"
    using skip_blank by blast
  then have skip: "skipWhitespace t (advance 1 st1) = advance (length a + 1) st1"
    and text1: "drop (pos st + 1) t = a @ drop (pos st + 1 + length a) t"
    by (simp_all add: consumed_def st1_def add.commute)
  have leave: "leave (advance n st1) = advance n st" for n
    by (simp add: leave_def st1_def advance_def)
  show thesis
  proof (cases "kMaxDepth < depth st + 1")
    case True
    then show thesis
      by (intro refused) (simp_all add: open_bracket_def Let_def)
  next
    case False
    show thesis
    proof (cases "peek t (advance (length a + 1) st1) = c")
      case True
      have "drop (pos st + 1 + length a) t = c # drop (pos st + length a + 2) t"
        using True assms by (auto simp: peek_def st1_def Cons_nth_drop_Suc split: if_splits)
      then show thesis
        using False True text1 a(2) leave skip
        by (intro closed [of a]) (simp_all add: open_bracket_def Let_def st1_def)
    next
      assume "peek t (advance (length a + 1) st1) \<noteq> c"
      then show thesis
        using False text1 a(2) skip unfolding st1_def
        by (intro entered [of a]) (simp_all add: open_bracket_def Let_def)
    qed
  qed
qed

lemma blank_prefix:
  "jelements strtod n w vs \<Longrightarrow> blank a \<Longrightarrow> jelements strtod n (a @ w) vs"
  "jmembers strtod n w ms \<Longrightarrow> blank a \<Longrightarrow> jmembers strtod n (a @ w) ms"
proof -
  assume w: "jelements strtod n w vs" and a: "blank a"
  show "jelements strtod n (a @ w) vs"
    using w
  proof (cases rule: jelements.cases)
    case (elem_one b x v c)
    then show ?thesis
      using jvalue_jelements_jmembers.elem_one [of "a @ b" strtod n x v c] a by simp
  next
    case (elem_more b x v c r vs)
    then show ?thesis
      using jvalue_jelements_jmembers.elem_more [of "a @ b" strtod n x v c r vs] a by simp
  qed
next
  assume w: "jmembers strtod n w ms" and a: "blank a"
  show "jmembers strtod n (a @ w) ms"
    using w
  proof (cases rule: jmembers.cases)
    case (mem_one p k key b c x v d)
    then show ?thesis
      using jvalue_jelements_jmembers.mem_one [of "a @ p" k key b c strtod n x v d] a by simp
  next
    case (mem_more p k key b c x v d r ms)
    then show ?thesis
      using jvalue_jelements_jmembers.mem_more [of "a @ p" k key b c strtod n x v d r ms] a by simp
  qed
qed

lemma separator_cases:
  fixes close :: u16
  assumes "close \<noteq> 0"
  obtains (comma) b where "separator t close m st = Inl (advance (length b + 1) st)" "blank b"
      "consumed t st (advance (length b + 1) st) (b @ [0x2C])"
    | (closing) b where "separator t close m st = Inr (True, advance (length b + 1) st)" "blank b"
      "consumed t st (advance (length b + 1) st) (b @ [close])"
    | (neither) b s where "separator t close m st = Inr (False, fail m s)" "consumed t st s b"
proof -
  obtain b where b: "consumed t st (skipWhitespace t st) b" "blank b"
    using skip_blank by blast
  define s where "s = skipWhitespace t st"
  have s: "s = advance (length b) st" "consumed t st s b"
    using b by (simp_all add: s_def consumed_def)
  have char: "consumed t st (advance (length b + 1) st) (b @ [c])" if "peek t s = c" "c \<noteq> 0" for c
    using consumed_trans [OF s(2) consumed_peek [OF that]] s(1) by simp
  consider "peek t s = 0x2C" | "peek t s \<noteq> 0x2C" "peek t s = close" | "peek t s \<noteq> 0x2C" "peek t s \<noteq> close"
    by blast
  then show thesis
  proof cases
    case 1
    then show thesis
      using b(2) char by (intro comma [of b]) (simp_all add: separator_def Let_def s(1) flip: s_def)
  next
    case 2
    then show thesis
      using b(2) char [OF 2(2) assms] by (intro closing [of b]) (simp_all add: separator_def Let_def s(1) flip: s_def)
  next
    case 3
    then show thesis
      using s(2) by (intro neither [of s]) (simp_all add: separator_def Let_def flip: s_def)
  qed
qed

lemma member_key_sound:
  "step_ok t st (member_key t st) (\<lambda>w key. \<exists>a k b c. w = a @ k @ b @ 0x3A # c \<and> blank a \<and> blank b \<and> blank c \<and> jstring k key)"
  (is "step_ok t st _ ?Q")
proof -
  obtain a where a: "consumed t st (skipWhitespace t st) a" "blank a"
    using skip_blank by blast
  define s0 where "s0 = skipWhitespace t st"
  note a' = a(1) [folded s0_def]
  show ?thesis
  proof (cases "peek t s0 = 0x22")
    case False
    then show ?thesis
      using step_ok_fail [OF a'] by (simp add: member_key_def Let_def flip: s0_def)
  next
    case True
    obtain k s1 where str: "parseString t s0 = (k, s1)"
      by fastforce
    note ok = parseString_sound [OF True, unfolded str]
    show ?thesis
    proof (cases k)
      case None
      have "step_ok t st (None, s1) ?Q"
        using step_okD(2) [OF ok [unfolded None]] consumed_err [OF a'] consumed_pos [OF a'] by (simp add: step_ok_def)
      then show ?thesis
        using True None str by (simp add: member_key_def Let_def flip: s0_def)
    next
      case (Some key)
      obtain w where w: "consumed t s0 s1 w" "jstring w key"
        using step_okD(1) [OF ok [unfolded Some]] by blast
      obtain b where b: "consumed t s1 (skipWhitespace t s1) b" "blank b"
        using skip_blank by blast
      define s2 where "s2 = skipWhitespace t s1"
      note ab = consumed_trans [OF consumed_trans [OF a' w(1)] b(1) [folded s2_def]]
      obtain c where c: "consumed t (advance 1 s2) (skipWhitespace t (advance 1 s2)) c" "blank c"
        using skip_blank by blast
      have run: "member_key t st = (if peek t s2 \<noteq> 0x3A
          then (None, fail ([CHR 0x27, CHR '':'', CHR 0x27] @ '' was expected after an object key'') s2)
          else (Some key, skipWhitespace t (advance 1 s2)))"
        using True Some str by (simp add: member_key_def Let_def flip: s0_def s2_def)
      show ?thesis
      proof (cases "peek t s2 = 0x3A")
        case False
        then show ?thesis
          unfolding run by (simp add: step_ok_fail [OF ab])
      next
        case colon: True
        have "consumed t st (skipWhitespace t (advance 1 s2)) ((((a @ w) @ b) @ [0x3A]) @ c)"
          by (rule consumed_trans [OF consumed_trans [OF ab consumed_peek [OF colon]] c(1)]) simp
        moreover have "?Q ((((a @ w) @ b) @ [0x3A]) @ c) key"
          using a(2) b(2) c(2) w(2) by (intro exI [of _ a] exI [of _ w] exI [of _ b] exI [of _ c]) simp
        ultimately show ?thesis
          unfolding run using colon by (simp add: step_ok_def) blast
      qed
    qed
  qed
qed

lemma bracket_sound:
  assumes "open_bracket t close st = Entered s" and "close \<noteq> 0" and "peek t st = opening" and "opening \<noteq> 0"
    and "step_ok t s out P" and "\<And>a w x. blank a \<Longrightarrow> P w x \<Longrightarrow> Q (opening # a @ w) (f x)"
  shows "step_ok t st (map_option f (fst out), leave (snd out)) Q"
proof -
  obtain a where s: "s = advance (length a + 1) (st\<lparr>depth := depth st + 1\<rparr>)" and a: "blank a"
    and text1: "drop (pos st + 1) t = a @ drop (pos st + 1 + length a) t"
    by (rule open_bracket_cases [OF assms(2), of st t]) (use assms(1) in auto)
  have first: "drop (pos st) t = opening # drop (pos st + 1) t"
    using consumed_peek [OF assms(3,4)] by (simp add: consumed_def)
  show ?thesis
  proof (cases "fst out")
    case None
    have "length (drop (pos st) t) = length (opening # a @ drop (pos st + 1 + length a) t)"
      using first text1 by simp
    then have "pos s \<le> length t" if "pos st \<le> length t"
      using that by (simp add: s)
    then show ?thesis
      using None assms(5) by (simp add: step_ok_def s)
  next
    case (Some x)
    then obtain w where w: "consumed t s (snd out) w" "P w x"
      using assms(5) by (auto simp: step_ok_def)
    have "consumed t st (leave (snd out)) (opening # a @ w)"
      using w(1) first text1 by (simp add: consumed_def s leave_def advance_def add.assoc)
    then show ?thesis
      using Some assms(6) [OF a w(2)] by (auto simp: step_ok_def)
  qed
qed

lemma bracket_closed_sound:
  assumes "open_bracket t close st = Closed s" and "close \<noteq> 0" and "peek t st = opening" and "opening \<noteq> 0"
    and "\<And>a. blank a \<Longrightarrow> Q (opening # a @ [close]) x"
  shows "step_ok t st (Some x, s) Q"
proof -
  obtain a where s: "s = advance (length a + 2) st" and a: "blank a"
    and text1: "drop (pos st + 1) t = a @ close # drop (pos st + length a + 2) t"
    by (rule open_bracket_cases [OF assms(2), of st t]) (use assms(1) in auto)
  have "drop (pos st) t = opening # drop (pos st + 1) t"
    using consumed_peek [OF assms(3,4)] by (simp add: consumed_def)
  then have "consumed t st s (opening # a @ [close])"
    using text1 by (simp add: consumed_def s add.assoc)
  then show ?thesis
    using assms(5) [OF a] by (auto simp: step_ok_def)
qed

lemma bracket_refused_sound:
  assumes "open_bracket t close st = Refused s" and "close \<noteq> 0"
  shows "step_ok t st (None, s) Q"
proof -
  obtain m where s: "s = leave (fail m (st\<lparr>depth := depth st + 1\<rparr>))"
    by (rule open_bracket_cases [OF assms(2), of st t]) (use assms(1) in auto)
  have "reported t s" if "err st = []" "pos st \<le> length t"
    using that reported_fail [of "st\<lparr>depth := depth st + 1\<rparr>" t m] by (simp add: s)
  then show ?thesis
    by (simp add: step_ok_def)
qed

lemma open_bracket_depth:
  assumes "open_bracket t close st = Entered s \<or> open_bracket t close st = Closed s" and "close \<noteq> 0"
  shows "depth st < kMaxDepth" and "open_bracket t close st = Entered s \<Longrightarrow> depth s = depth st + 1"
  by (rule open_bracket_cases [OF assms(2), of st t]; use assms(1) in auto)+

lemma object_branch:
  fixes strtod :: "string \<Rightarrow> 'd"
  assumes "peek t st = 0x7B" and "\<not> atEnd t st"
    and "\<And>s. open_bracket t 0x7D st = Entered s \<Longrightarrow> step_ok t s (parseObject_loop strtod t [] s)
      (\<lambda>w xs. \<exists>body new. w = body @ [0x7D] \<and> xs = [] @ new \<and> jmembers strtod (kMaxDepth - depth s) body new)"
  shows "step_ok t st (parseValue strtod t st) (jvalue strtod (kMaxDepth - depth st))"
proof (cases "open_bracket t 0x7D st")
  case (Refused s)
  then show ?thesis
    using bracket_refused_sound [OF Refused] assms(1,2) by (simp add: parseValue.simps [of strtod t st])
next
  case (Closed s)
  have "depth st < kMaxDepth"
    using open_bracket_depth(1) [of t "0x7D" st s] Closed by simp
  then have n: "kMaxDepth - depth st = Suc (kMaxDepth - Suc (depth st))"
    by simp
  have "step_ok t st (Some (VObject []), s) (jvalue strtod (kMaxDepth - depth st))"
    unfolding n by (rule bracket_closed_sound [OF Closed _ assms(1)]) (simp_all add: val_empty_object)
  then show ?thesis
    using Closed assms(1,2) by (simp add: parseValue.simps [of strtod t st])
next
  case (Entered s)
  have "depth st < kMaxDepth" "depth s = Suc (depth st)"
    using open_bracket_depth [of t "0x7D" st s] Entered by simp_all
  then have n: "kMaxDepth - depth st = Suc (kMaxDepth - depth s)"
    by simp
  have "step_ok t st (map_option VObject (fst (parseObject_loop strtod t [] s)), leave (snd (parseObject_loop strtod t [] s)))
      (jvalue strtod (kMaxDepth - depth st))"
    unfolding n
  proof (rule bracket_sound [OF Entered _ assms(1) _ assms(3) [OF Entered]])
    fix a w x
    assume a: "blank a" and "\<exists>body new. w = body @ [0x7D] \<and> x = [] @ new \<and> jmembers strtod (kMaxDepth - depth s) body new"
    then obtain body where w: "w = body @ [0x7D]" "jmembers strtod (kMaxDepth - depth s) body x"
      by auto
    show "jvalue strtod (Suc (kMaxDepth - depth s)) (0x7B # a @ w) (VObject x)"
      using val_object [OF blank_prefix(2) [OF w(2) a]] by (simp add: w(1))
  qed simp_all
  then show ?thesis
    using Entered assms(1,2) by (simp add: parseValue.simps [of strtod t st] case_prod_beta)
qed

lemma array_branch:
  fixes strtod :: "string \<Rightarrow> 'd"
  assumes "peek t st = 0x5B" and "\<not> atEnd t st"
    and "\<And>s. open_bracket t 0x5D st = Entered s \<Longrightarrow> step_ok t s (parseArray_loop strtod t [] s)
      (\<lambda>w xs. \<exists>body new. w = body @ [0x5D] \<and> xs = [] @ new \<and> jelements strtod (kMaxDepth - depth s) body new)"
  shows "step_ok t st (parseValue strtod t st) (jvalue strtod (kMaxDepth - depth st))"
proof (cases "open_bracket t 0x5D st")
  case (Refused s)
  then show ?thesis
    using bracket_refused_sound [OF Refused] assms(1,2) by (simp add: parseValue.simps [of strtod t st])
next
  case (Closed s)
  have "depth st < kMaxDepth"
    using open_bracket_depth(1) [of t "0x5D" st s] Closed by simp
  then have n: "kMaxDepth - depth st = Suc (kMaxDepth - Suc (depth st))"
    by simp
  have "step_ok t st (Some (VArray []), s) (jvalue strtod (kMaxDepth - depth st))"
    unfolding n by (rule bracket_closed_sound [OF Closed _ assms(1)]) (simp_all add: val_empty_array)
  then show ?thesis
    using Closed assms(1,2) by (simp add: parseValue.simps [of strtod t st])
next
  case (Entered s)
  have "depth st < kMaxDepth" "depth s = Suc (depth st)"
    using open_bracket_depth [of t "0x5D" st s] Entered by simp_all
  then have n: "kMaxDepth - depth st = Suc (kMaxDepth - depth s)"
    by simp
  have "step_ok t st (map_option VArray (fst (parseArray_loop strtod t [] s)), leave (snd (parseArray_loop strtod t [] s)))
      (jvalue strtod (kMaxDepth - depth st))"
    unfolding n
  proof (rule bracket_sound [OF Entered _ assms(1) _ assms(3) [OF Entered]])
    fix a w x
    assume a: "blank a" and "\<exists>body new. w = body @ [0x5D] \<and> x = [] @ new \<and> jelements strtod (kMaxDepth - depth s) body new"
    then obtain body where w: "w = body @ [0x5D]" "jelements strtod (kMaxDepth - depth s) body x"
      by auto
    show "jvalue strtod (Suc (kMaxDepth - depth s)) (0x5B # a @ w) (VArray x)"
      using val_array [OF blank_prefix(1) [OF w(2) a]] by (simp add: w(1))
  qed simp_all
  then show ?thesis
    using Entered assms(1,2) by (simp add: parseValue.simps [of strtod t st] case_prod_beta)
qed

lemma scalar_branch:
  assumes "\<not> atEnd t st" and "peek t st \<noteq> 0x7B" and "peek t st \<noteq> 0x5B"
  shows "step_ok t st (parseValue strtod t st) (jvalue strtod n)"
proof -
  have other: "step_ok t st (None, unexpected t st) (jvalue strtod n)"
    using reported_unexpected [of st t] by (simp add: step_ok_def)
  show ?thesis
    unfolding parseValue.simps [of strtod t st] Let_def
    using assms other parseStringValue_sound [of t st strtod n] parseWord_sound [OF val_true [of strtod n], of t st]
      parseWord_sound [OF val_false [of strtod n], of t st] parseWord_sound [OF val_null [of strtod n], of t st]
      parseNumber_sound [of t st strtod n]
    by (simp split del: if_split) (simp only: split: if_split, blast)
qed

text \<open>One turn of a loop, from the item it parsed.\<close>

lemma loop_turn:
  assumes item: "step_ok t st (r, s1) P" and "close \<noteq> 0"
    and none: "r = None \<Longrightarrow> out = (None, s1)"
    and closing: "\<And>x s2. r = Some x \<Longrightarrow> separator t close m s1 = Inr (True, s2) \<Longrightarrow> out = (Some (xs @ [f x]), s2)"
    and broken: "\<And>x s2. r = Some x \<Longrightarrow> separator t close m s1 = Inr (False, s2) \<Longrightarrow> out = (None, s2)"
    and again: "\<And>x s2. r = Some x \<Longrightarrow> separator t close m s1 = Inl s2 \<Longrightarrow> depth s2 = depth st \<Longrightarrow>
      step_ok t s2 out
      (\<lambda>w ys. \<exists>body new. w = body @ [close] \<and> ys = (xs @ [f x]) @ new \<and> R body new)"
    and one: "\<And>w x b. P w x \<Longrightarrow> blank b \<Longrightarrow> R (w @ b) [f x]"
    and more: "\<And>w x b body new. P w x \<Longrightarrow> blank b \<Longrightarrow> R body new \<Longrightarrow> R (w @ b @ 0x2C # body) (f x # new)"
  shows "step_ok t st out (\<lambda>w ys. \<exists>body new. w = body @ [close] \<and> ys = xs @ new \<and> R body new)"
proof (cases r)
  case None
  then show ?thesis
    using item none by (simp add: step_ok_def)
next
  case (Some x)
  then obtain w where w: "consumed t st s1 w" "P w x"
    using item by (auto simp: step_ok_def)
  show ?thesis
  proof (rule separator_cases [OF assms(2), of t m s1])
    fix b
    assume "separator t close m s1 = Inl (advance (length b + 1) s1)" "blank b" and
      b: "consumed t s1 (advance (length b + 1) s1) (b @ [0x2C])"
    have "depth (advance (length b + 1) s1) = depth st"
      using consumed_depth [OF w(1)] by simp
    note rest = again [OF Some \<open>separator t close m s1 = Inl (advance (length b + 1) s1)\<close> this]
    show ?thesis
    proof (rule step_ok_after [OF consumed_trans [OF w(1) b] rest])
      fix u ys
      assume "\<exists>body new. u = body @ [close] \<and> ys = (xs @ [f x]) @ new \<and> R body new"
      then obtain body new where "u = body @ [close]" "ys = (xs @ [f x]) @ new" "R body new"
        by blast
      then show "\<exists>body new. (w @ b @ [0x2C]) @ u = body @ [close] \<and> ys = xs @ new \<and> R body new"
        using more [OF w(2) \<open>blank b\<close>] by (intro exI [of _ "w @ b @ 0x2C # body"] exI [of _ "f x # new"]) simp
    qed
  next
    fix b
    assume sep: "separator t close m s1 = Inr (True, advance (length b + 1) s1)" "blank b" and
      b: "consumed t s1 (advance (length b + 1) s1) (b @ [close])"
    have "R (w @ b) [f x]"
      by (rule one [OF w(2) sep(2)])
    then show ?thesis
      using closing [OF Some sep(1)] consumed_trans [OF w(1) b] by (fastforce simp: step_ok_def)
  next
    fix b s
    assume sep: "separator t close m s1 = Inr (False, fail m s)" and b: "consumed t s1 s b"
    show ?thesis
      using broken [OF Some sep] step_ok_fail [OF consumed_trans [OF w(1) b]] by simp
  qed
qed

lemma parse_sound:
  fixes strtod :: "string \<Rightarrow> 'd"
  shows "step_ok t st (parseValue strtod t st) (jvalue strtod (kMaxDepth - depth st))"
    and "step_ok t st (parseObject_loop strtod t ms st)
      (\<lambda>w ms'. \<exists>body new. w = body @ [0x7D] \<and> ms' = ms @ new \<and> jmembers strtod (kMaxDepth - depth st) body new)"
    and "step_ok t st (parseArray_loop strtod t es st)
      (\<lambda>w es'. \<exists>body new. w = body @ [0x5D] \<and> es' = es @ new \<and> jelements strtod (kMaxDepth - depth st) body new)"
proof (induction strtod t st and strtod t ms st and strtod t es st
    rule: parseValue_parseObject_loop_parseArray_loop.induct)
  case (1 strtod t st)
  consider "atEnd t st" | "\<not> atEnd t st" "peek t st = 0x7B" | "\<not> atEnd t st" "peek t st \<noteq> 0x7B" "peek t st = 0x5B"
    | "\<not> atEnd t st" "peek t st \<noteq> 0x7B" "peek t st \<noteq> 0x5B"
    by blast
  then show ?case
  proof cases
    case 1
    then show ?thesis
      using step_ok_fail [of t st st "[]"] by (simp add: parseValue.simps [of strtod t st])
  next
    case brace: 2
    then show ?thesis
      using 1(1) [OF brace(1) refl brace(2)] by (intro object_branch) blast+
  next
    case bracket: 3
    then show ?thesis
      using 1(2) [OF bracket(1) refl bracket(2,3)] by (intro array_branch) blast+
  next
    case 4
    then show ?thesis
      by (rule scalar_branch)
  qed
next
  case (2 strtod t ms st)
  obtain k s where mk: "member_key t st = (k, s)"
    by fastforce
  note key = member_key_sound [of t st, unfolded mk]
  show ?case
  proof (cases k)
    case None
    then show ?thesis
      using key by (simp add: parseObject_loop.simps [of strtod t ms st] mk step_ok_def)
  next
    case (Some name)
    obtain w where w: "consumed t st s w"
      "\<exists>a k b c. w = a @ k @ b @ 0x3A # c \<and> blank a \<and> blank b \<and> blank c \<and> jstring k name"
      using step_okD(1) [OF key [unfolded Some]] by blast
    obtain r s1 where pv: "parseValue strtod t s = (r, s1)"
      by fastforce
    have depth: "depth s = depth st"
      using consumed_depth [OF w(1)] .
    have item: "step_ok t st (r, s1) (\<lambda>u v. \<exists>x. u = w @ x \<and> jvalue strtod (kMaxDepth - depth st) x v)"
      by (rule step_ok_after [OF w(1) 2(1) [OF mk [symmetric] Some, unfolded pv depth]]) blast
    show ?thesis
    proof (rule loop_turn [OF item, where f = "Pair name" and xs = ms])
      fix x s2
      assume x: "r = Some x" "separator t 0x7D member_message s1 = Inl s2"
      assume "depth s2 = depth st"
      then show "step_ok t s2 (parseObject_loop strtod t ms st)
          (\<lambda>w ys. \<exists>body new. w = body @ [0x7D] \<and> ys = (ms @ [(name, x)]) @ new \<and> jmembers strtod (kMaxDepth - depth st) body new)"
        using 2(2) [OF mk [symmetric] Some pv [symmetric] x]
        by (simp add: parseObject_loop.simps [of strtod t ms st] mk Some pv x)
    next
      show "jmembers strtod (kMaxDepth - depth st) (u @ b) [(name, v)]"
        if "\<exists>x. u = w @ x \<and> jvalue strtod (kMaxDepth - depth st) x v" "blank b" for u v b
        using that w(2) mem_one by fastforce
      show "jmembers strtod (kMaxDepth - depth st) (u @ b @ 0x2C # body) ((name, v) # new)"
        if "\<exists>x. u = w @ x \<and> jvalue strtod (kMaxDepth - depth st) x v" "blank b"
          "jmembers strtod (kMaxDepth - depth st) body new" for u v b body new
        using that w(2) mem_more by fastforce
    qed (simp_all add: parseObject_loop.simps [of strtod t ms st] mk Some pv)
  qed
next
  case (3 strtod t es st)
  obtain a where a: "consumed t st (skipWhitespace t st) a" "blank a"
    using skip_blank by blast
  obtain r s1 where pv: "parseValue strtod t (skipWhitespace t st) = (r, s1)"
    by fastforce
  have depth: "depth (skipWhitespace t st) = depth st"
    using consumed_depth [OF a(1)] .
  have item: "step_ok t st (r, s1) (\<lambda>u v. \<exists>x. u = a @ x \<and> jvalue strtod (kMaxDepth - depth st) x v)"
    by (rule step_ok_after [OF a(1) 3(1) [unfolded pv depth]]) blast
  show ?case
  proof (rule loop_turn [OF item, where f = "\<lambda>v. v" and xs = es])
    fix x s2
    assume x: "r = Some x" "separator t 0x5D element_message s1 = Inl s2" and "depth s2 = depth st"
    then show "step_ok t s2 (parseArray_loop strtod t es st)
        (\<lambda>w ys. \<exists>body new. w = body @ [0x5D] \<and> ys = (es @ [x]) @ new \<and> jelements strtod (kMaxDepth - depth st) body new)"
      using 3(2) [OF pv [symmetric] x]
      by (simp add: parseArray_loop.simps [of strtod t es st] pv x)
  next
    show "jelements strtod (kMaxDepth - depth st) (u @ b) [v]"
      if "\<exists>x. u = a @ x \<and> jvalue strtod (kMaxDepth - depth st) x v" "blank b" for u v b
      using that a(2) elem_one by fastforce
    show "jelements strtod (kMaxDepth - depth st) (u @ b @ 0x2C # body) (v # new)"
      if "\<exists>x. u = a @ x \<and> jvalue strtod (kMaxDepth - depth st) x v" "blank b"
        "jelements strtod (kMaxDepth - depth st) body new" for u v b body new
      using that a(2) elem_more by fastforce
  qed (simp_all add: parseArray_loop.simps [of strtod t es st] pv)
qed

section \<open>Completeness\<close>

lemma at_char:
  assumes "drop (pos st) t = c # r"
  shows "peek t st = c" and "\<not> atEnd t st" and "t ! pos st = c" and "drop (pos st + 1) t = r"
proof -
  have "pos st < length t"
    using drop_Cons_less [OF assms] .
  then show "peek t st = c" "\<not> atEnd t st" "t ! pos st = c"
    using nth_via_drop [OF assms] by (simp_all add: peek_def atEnd_def)
  show "drop (pos st + 1) t = r"
    using assms by (metis drop_drop drop_Suc_Cons drop0 add.commute One_nat_def)
qed

lemma at_end: "drop (pos st) t = [] \<Longrightarrow> atEnd t st \<and> peek t st = 0"
  by (simp add: atEnd_def peek_def)

lemma after_text: "drop (pos st) t = w @ r \<Longrightarrow> drop (pos st + length w) t = r"
  by (metis append_eq_conv_conj drop_drop add.commute)

lemma skip_exact:
  assumes "drop (pos st) t = a @ r" and "blank a" and "r = [] \<or> \<not> is_ws (hd r)"
  shows "skipWhitespace t st = advance (length a) st"
proof -
  have "takeWhile is_ws r = []"
    using assms(3) by (cases r) auto
  then have "takeWhile is_ws (a @ r) = a"
    using assms(2) by (simp add: blank_def)
  then show ?thesis
    by (simp add: skipWhitespace_eq assms(1))
qed

lemma digits_exact:
  assumes "drop (pos st) t = ds @ r" and "digits ds" and "r = [] \<or> \<not> is_dig (hd r)"
  shows "skipDigits t st = advance (length ds) st"
proof -
  have "takeWhile is_dig r = []"
    using assms(3) by (cases r) auto
  then have "takeWhile is_dig (ds @ r) = ds"
    using assms(2) by (simp add: digits_def)
  then show ?thesis
    by (simp add: skipDigits_eq assms(1))
qed

lemma parseString_loop_raw:
  assumes "drop (pos st) t = c # r" and "0x20 \<le> c" and "c \<noteq> 0x22" and "c \<noteq> 0x5C"
  shows "parseString_loop t out st = parseString_loop t (out @ [c]) (advance 1 st)"
proof -
  have "\<not> c < 0x20"
    using assms(2) by (simp add: not_less)
  then show ?thesis
    using assms(3,4) at_char [OF assms(1)] by (simp add: parseString_loop.simps [of t out st])
qed

lemma parseString_loop_escape:
  assumes "drop (pos st) t = 0x5C # e # r" and "simple_escape e = Some u"
  shows "parseString_loop t out st = parseString_loop t (out @ [u]) (advance 2 st)"
proof -
  have "t ! (pos st + 1) = e" "Suc (pos st) < length t"
    using at_char(3) [of "advance 1 st" t e r] at_char(4) [OF assms(1)] drop_Cons_less [of "pos st + 1" t e r] by simp_all
  then show ?thesis
    using assms(2) at_char(3) [OF assms(1)] by (simp add: parseString_loop_backslash)
qed

lemma parseString_loop_hex:
  assumes "drop (pos st) t = 0x5C # 0x75 # a # b # c # d # r" and "map hexDigit [a, b, c, d] = map Some [i, j, k, l]"
  shows "parseString_loop t out st =
    parseString_loop t (out @ [ucast (((i * 16 + j) * 16 + k) * 16 + l)]) (advance 6 st)"
proof -
  have nth: "t ! (pos st + n) = (0x5C # 0x75 # a # b # c # d # r) ! n" if "n < 6" for n
    using that assms(1) nth_drop [of "pos st" t n] drop_Cons_less [OF assms(1)] by simp
  have "length (drop (pos st) t) = 6 + length r"
    by (simp add: assms(1))
  then have len: "length t = pos st + 6 + length r"
    by simp
  have "hex_loop t (pos st + 2) (Suc (Suc (Suc (Suc 0)))) 0 = Some (((i * 16 + j) * 16 + k) * 16 + l)"
    using assms(2) nth [of "Suc (Suc 0)"] nth [of "Suc (Suc (Suc 0))"] nth [of "Suc (Suc (Suc (Suc 0)))"]
      nth [of "Suc (Suc (Suc (Suc (Suc 0))))"] by (simp add: numeral_2_eq_2)
  then have hex: "hex_loop t (pos st + 2) 4 0 = Some (((i * 16 + j) * 16 + k) * 16 + l)"
    by (simp add: numeral_eq_Suc del: hex_loop.simps)
  have "simple_escape 0x75 = None"
    by (simp add: simple_escape.simps)
  then show ?thesis
    using hex len nth [of 0] nth [of 1] by (subst parseString_loop_backslash) (simp_all del: hex_loop.simps)
qed

lemma parseString_loop_complete:
  "jchars w s \<Longrightarrow> drop (pos st) t = w @ 0x22 # r \<Longrightarrow>
   parseString_loop t out st = (Some (out @ s), advance (length w + 1) st)"
proof (induction arbitrary: out st rule: jchars.induct)
  case chars_nil
  then show ?case
    using at_char [of st t] by (simp add: parseString_loop.simps [of t out st])
next
  case (chars_raw c w s)
  have "drop (pos (advance 1 st)) t = w @ 0x22 # r"
    using at_char(4) [of st t c] chars_raw.prems by simp
  then show ?case
    using chars_raw parseString_loop_raw [of st t c] by simp
next
  case (chars_escape e c w s)
  have "drop (pos (advance 2 st)) t = w @ 0x22 # r"
    using after_text [of st t "[0x5C, e]"] chars_escape.prems by simp
  then show ?case
    using chars_escape.IH [of "advance 2 st" "out @ [c]"] parseString_loop_escape [of st t e] chars_escape.prems
      chars_escape.hyps(1) [folded simple_escape_table] by simp
next
  case (chars_unicode a b c d i j k l w s)
  have "drop (pos (advance 6 st)) t = w @ 0x22 # r"
    using after_text [of st t "[0x5C, 0x75, a, b, c, d]" "w @ 0x22 # r"] chars_unicode.prems by (simp add: eval_nat_numeral)
  then show ?case
    using chars_unicode.IH [of "advance 6 st"] parseString_loop_hex [of st t a b c d _ i j k l] chars_unicode.prems
      chars_unicode.hyps(1) by simp
qed

lemma parseString_complete:
  assumes "jstring w s" and "drop (pos st) t = w @ r"
  shows "parseString t st = (Some s, advance (length w) st)"
proof -
  obtain body where w: "w = 0x22 # body @ [0x22]" "jchars body s"
    using assms(1) by (auto simp: jstring_def)
  have "drop (pos (advance 1 st)) t = body @ 0x22 # r"
    using at_char(4) [of st t "0x22"] assms(2) by (simp add: w(1))
  from parseString_loop_complete [OF w(2) this, of "[]"] show ?thesis
    by (simp add: parseString_def w(1))
qed

text \<open>What may follow a number without being read as part of it.\<close>

definition follow :: "units \<Rightarrow> bool" where
  "follow r \<longleftrightarrow> r = [] \<or> \<not> is_dig (hd r) \<and> hd r \<notin> {0x2E, 0x65, 0x45}"

lemma number_int_complete:
  assumes "i = [0x30] \<or> digits i \<and> hd i \<noteq> 0x30" and "drop (pos st) t = i @ r" and "r = [] \<or> \<not> is_dig (hd r)"
  shows "number_int t st = (True, advance (length i) st)"
  using assms(1)
proof
  assume i: "i = [0x30]"
  have dig: "is_dig 0x30"
    by (simp add: is_dig_def)
  have "drop (pos (advance 1 st)) t = r"
    using at_char(4) [of st t "0x30" r] assms(2) i by simp
  then have "atEnd t (advance 1 st) \<or> \<not> is_dig (peek t (advance 1 st))"
    using assms(3) at_end [of "advance 1 st" t] at_char(1) [of "advance 1 st" t] by (cases r) auto
  then show ?thesis
    using at_char [of st t "0x30" r] assms(2) i dig by (simp add: number_int_def Let_def)
next
  assume i: "digits i \<and> hd i \<noteq> 0x30"
  then obtain d ds where d: "i = d # ds" "is_dig d" "d \<noteq> 0x30"
    by (cases i) (auto simp: digits_def)
  then show ?thesis
    using at_char [of st t d "ds @ r"] assms(2) digits_exact [OF assms(2) _ assms(3)] i by (simp add: number_int_def Let_def)
qed

lemma number_frac_complete:
  assumes "f = [] \<or> (\<exists>ds. f = 0x2E # ds \<and> digits ds)" and "drop (pos st) t = f @ r" and "r = [] \<or> \<not> is_dig (hd r)"
    and "f = [] \<Longrightarrow> r = [] \<or> hd r \<noteq> 0x2E"
  shows "number_frac t st = (True, advance (length f) st)"
proof (cases "f = []")
  case True
  then have "peek t st \<noteq> 0x2E"
    using assms(2,4) at_end [of st t] at_char(1) [of st t] by (cases r) auto
  then show ?thesis
    using True by (simp add: number_frac_def)
next
  case False
  then obtain ds where f: "f = 0x2E # ds" "digits ds"
    using assms(1) by blast
  have rest: "drop (pos (advance 1 st)) t = ds @ r"
    using at_char(4) [of st t "0x2E"] assms(2) f(1) by simp
  obtain d ds' where d: "ds = d # ds'" "is_dig d"
    using f(2) by (cases ds) (auto simp: digits_def)
  have "\<not> atEnd t (advance 1 st)" "is_dig (peek t (advance 1 st))"
    using at_char(1,2) [of "advance 1 st" t d "ds' @ r"] rest d by simp_all
  then show ?thesis
    using at_char(1) [of st t "0x2E" "ds @ r"] assms(2) f(1) digits_exact [OF rest f(2) assms(3)]
    by (simp add: number_frac_def Let_def)
qed

lemma number_exp_complete:
  assumes "e = [] \<or> (\<exists>x s ds. e = x # s @ ds \<and> x \<in> {0x65, 0x45} \<and> s \<in> {[], [0x2B], [0x2D]} \<and> digits ds)"
    and "drop (pos st) t = e @ r" and "follow r"
  shows "number_exp t st = (True, advance (length e) st)"
proof (cases "e = []")
  case True
  then have "peek t st \<notin> {0x65, 0x45}"
    using assms(2,3) at_end [of st t] at_char(1) [of st t] by (cases r) (auto simp: follow_def)
  then show ?thesis
    using True by (simp add: number_exp_def)
next
  case False
  then obtain x s ds where e: "e = x # s @ ds" "x \<in> {0x65, 0x45}" "s \<in> {[], [0x2B], [0x2D]}" "digits ds"
    using assms(1) by blast
  define st1 where "st1 = advance 1 st"
  define st2 where "st2 = (if peek t st1 = 0x2B \<or> peek t st1 = 0x2D then advance 1 st1 else st1)"
  have x: "peek t st = x" and rest: "drop (pos st1) t = s @ ds @ r"
    using at_char(1,4) [of st t x] assms(2) e(1) by (simp_all add: st1_def)
  obtain d ds' where d: "ds = d # ds'" "is_dig d"
    using e(4) by (cases ds) (auto simp: digits_def)
  have nd: "d \<noteq> 0x2B" "d \<noteq> 0x2D"
    using d(2) by (auto simp: is_dig_def)
  have st2: "st2 = advance (length s) st1"
    using e(3) at_char(1) [of st1 t] rest d nd by (auto simp: st2_def)
  have rest2: "drop (pos st2) t = ds @ r"
    using after_text [OF rest] by (simp add: st2)
  have eq: "number_exp t st = (if atEnd t st2 \<or> \<not> is_dig (peek t st2) then (False, fail ''a digit was expected in the exponent'' st2)
      else (True, skipDigits t st2))"
    using x e(2) unfolding number_exp_def Let_def st2_def st1_def by auto
  have "r = [] \<or> \<not> is_dig (hd r)"
    using assms(3) by (auto simp: follow_def)
  then have "skipDigits t st2 = advance (length ds) st2"
    using digits_exact [OF rest2 e(4)] by simp
  then show ?thesis
    using at_char(1,2) [of st2 t d "ds' @ r"] rest2 d by (simp add: eq st2 st1_def e(1) add.commute add.left_commute)
qed

lemma parseNumber_complete:
  assumes "jnumber w" and "drop (pos st) t = w @ r" and "follow r"
  shows "parseNumber strtod t st = (Some (VNumber (strtod (ascii w))), advance (length w) st)"
proof -
  obtain sgn i f e where w: "w = sgn @ i @ f @ e" "sgn \<in> {[], [0x2D]}" "i = [0x30] \<or> digits i \<and> hd i \<noteq> 0x30"
    "f = [] \<or> (\<exists>ds. f = 0x2E # ds \<and> digits ds)"
    "e = [] \<or> (\<exists>x s ds. e = x # s @ ds \<and> x \<in> {0x65, 0x45} \<and> s \<in> {[], [0x2B], [0x2D]} \<and> digits ds)"
    using assms(1) unfolding jnumber_def by blast
  define st0 where "st0 = (if peek t st = 0x2D then advance 1 st else st)"
  obtain d i' where d: "i = d # i'" "is_dig d"
    using w(3) by (cases i) (auto simp: digits_def is_dig_def)
  have "d \<noteq> 0x2D"
    using d(2) by (auto simp: is_dig_def)
  then have st0: "st0 = advance (length sgn) st"
    using w(1,2) assms(2) d(1) at_char(1) [of st t] by (auto simp: st0_def)
  have follow_e: "(e @ r = [] \<or> \<not> is_dig (hd (e @ r))) \<and> (e @ r = [] \<or> hd (e @ r) \<noteq> 0x2E)"
    using w(5) assms(3) by (cases e) (auto simp: follow_def is_dig_def)
  then have follow_f: "f @ e @ r = [] \<or> \<not> is_dig (hd (f @ e @ r))"
    using w(4) by (cases f) (auto simp: is_dig_def)
  have r0: "drop (pos st0) t = i @ f @ e @ r"
    using after_text [of st t sgn] assms(2) w(1) by (simp add: st0)
  have r1: "drop (pos (advance (length i) st0)) t = f @ e @ r"
    using after_text [OF r0] by simp
  have r2: "drop (pos (advance (length f) (advance (length i) st0))) t = e @ r"
    using after_text [OF r1] by (simp add: add.assoc)
  have parts: "number_int t st0 = (True, advance (length i) st0)"
    "number_frac t (advance (length i) st0) = (True, advance (length f) (advance (length i) st0))"
    "number_exp t (advance (length f) (advance (length i) st0)) =
       (True, advance (length e) (advance (length f) (advance (length i) st0)))"
    using number_int_complete [OF w(3) r0 follow_f] number_frac_complete [OF w(4) r1] follow_e number_exp_complete [OF w(5) r2 assms(3)]
    by blast+
  have "advance (length e) (advance (length f) (advance (length i) st0)) = advance (length w) st"
    by (simp add: st0 w(1) add.assoc)
  then show ?thesis
    using assms(2) parts by (simp add: parseNumber_def Let_def flip: st0_def)
qed

lemma parseWord_complete:
  assumes "drop (pos st) t = word @ r"
  shows "parseWord t word v st = (Some v, advance (length word) st)"
proof -
  have "t ! (pos st + n) = word ! n" if "n < length word" for n
    using that assms nth_drop [of "pos st" t n] by (cases "pos st \<le> length t") (auto simp: nth_append)
  moreover have "length word \<le> length t - pos st"
    using assms by (metis length_append length_drop le_add1)
  ultimately show ?thesis
    by (simp add: parseWord_def matchWord_def)
qed

text \<open>How a value starts, and the blank a list of elements or members starts with.\<close>

definition starts :: "units \<Rightarrow> bool" where
  "starts w \<longleftrightarrow> w \<noteq> [] \<and> \<not> is_ws (hd w) \<and> hd w \<notin> {0x5D, 0x7D}"

lemma starts_append: "starts w \<Longrightarrow> starts (w @ r)"
  by (cases w) (auto simp: starts_def)

lemma jnumber_starts:
  assumes "jnumber w"
  shows "w \<noteq> []" and "hd w = 0x2D \<or> is_dig (hd w)"
proof -
  obtain sgn i r where w: "w = sgn @ i @ r" "sgn \<in> {[], [0x2D]}" "i = [0x30] \<or> digits i"
    using assms unfolding jnumber_def by blast
  then have "i \<noteq> []" "is_dig (hd i)"
    by (auto simp: digits_def is_dig_def)
  then show "w \<noteq> []" "hd w = 0x2D \<or> is_dig (hd w)"
    using w(1,2) by auto
qed

lemma jvalue_starts: "jvalue strtod n w v \<Longrightarrow> starts w"
proof (induction rule: jvalue.cases)
  case (val_number w n)
  then show ?case
    using jnumber_starts [OF val_number(4)] by (auto simp: starts_def is_ws_def is_dig_def)
qed (auto simp: starts_def is_ws_def jstring_def)

lemma jstring_starts: "jstring k key \<Longrightarrow> starts k \<and> hd k = 0x22"
  by (auto simp: jstring_def starts_def is_ws_def)

lemma split_blank:
  "jelements strtod n w vs \<Longrightarrow> \<exists>a w'. w = a @ w' \<and> blank a \<and> starts w' \<and> jelements strtod n w' vs"
  "jmembers strtod n w ms \<Longrightarrow> \<exists>a w'. w = a @ w' \<and> blank a \<and> starts w' \<and> jmembers strtod n w' ms"
proof -
  have Nil: "blank []"
    by (simp add: blank_def)
  {
    assume "jelements strtod n w vs"
    then show "\<exists>a w'. w = a @ w' \<and> blank a \<and> starts w' \<and> jelements strtod n w' vs"
    proof (cases rule: jelements.cases)
      case (elem_one a x v b)
      then show ?thesis
        using jvalue_jelements_jmembers.elem_one [OF Nil elem_one(4,5)] starts_append [OF jvalue_starts [OF elem_one(4)], of b]
        by (metis append_Nil)
    next
      case (elem_more a x v b r vs')
      then show ?thesis
        using jvalue_jelements_jmembers.elem_more [OF Nil elem_more(4,5,6)] starts_append [OF jvalue_starts [OF elem_more(4)]]
        by (metis append_Nil)
    qed
  next
    assume "jmembers strtod n w ms"
    then show "\<exists>a w'. w = a @ w' \<and> blank a \<and> starts w' \<and> jmembers strtod n w' ms"
    proof (cases rule: jmembers.cases)
      case (mem_one a k key b c x v d)
      then show ?thesis
        using jvalue_jelements_jmembers.mem_one [OF Nil mem_one(4-8)] starts_append [of k] jstring_starts [OF mem_one(4)]
        by (metis append_Nil)
    next
      case (mem_more a k key b c x v d r ms')
      then show ?thesis
        using jvalue_jelements_jmembers.mem_more [OF Nil mem_more(4-9)] starts_append [of k] jstring_starts [OF mem_more(4)]
        by (metis append_Nil)
    qed
  }
qed

lemma blank_follow: "blank b \<Longrightarrow> c \<in> {0x2C, 0x5D, 0x7D} \<Longrightarrow> follow (b @ c # r)"
  by (cases b) (auto simp: follow_def blank_def is_ws_def is_dig_def)

lemma separator_complete:
  assumes "drop (pos st) t = b @ c # r" and "blank b" and "\<not> is_ws c" and "close \<noteq> 0x2C"
  shows "c = 0x2C \<Longrightarrow> separator t close m st = Inl (advance (length b + 1) st)"
    and "c = close \<Longrightarrow> separator t close m st = Inr (True, advance (length b + 1) st)"
proof -
  have skip: "skipWhitespace t st = advance (length b) st"
    using skip_exact [OF assms(1,2)] assms(3) by simp
  have "peek t (advance (length b) st) = c"
    using at_char(1) [of "advance (length b) st" t c r] after_text [OF assms(1)] by simp
  then show "c = 0x2C \<Longrightarrow> separator t close m st = Inl (advance (length b + 1) st)"
    "c = close \<Longrightarrow> separator t close m st = Inr (True, advance (length b + 1) st)"
    using assms(4) by (simp_all add: separator_def Let_def skip)
qed

lemma member_key_complete:
  assumes "drop (pos st) t = a @ k @ b @ 0x3A # c @ r" and "blank a" and "jstring k key" and "blank b" and "blank c" and "starts r"
  shows "member_key t st = (Some key, advance (length (a @ k @ b @ 0x3A # c)) st)"
proof -
  obtain k' where k: "k = 0x22 # k'"
    using assms(3) by (auto simp: jstring_def)
  define s0 where "s0 = advance (length a) st"
  have r0: "drop (pos s0) t = k @ b @ 0x3A # c @ r"
    using after_text [OF assms(1)] by (simp add: s0_def)
  have skip0: "skipWhitespace t st = s0"
    using skip_exact [OF assms(1,2)] k by (simp add: s0_def is_ws_def)
  define s1 where "s1 = advance (length k) s0"
  have r1: "drop (pos s1) t = b @ 0x3A # c @ r"
    using after_text [OF r0] by (simp add: s1_def)
  define s2 where "s2 = advance (length b) s1"
  have r2: "drop (pos s2) t = 0x3A # c @ r"
    using after_text [OF r1] by (simp add: s2_def)
  have skip2: "skipWhitespace t s1 = s2"
    using skip_exact [OF r1 assms(4)] by (simp add: s2_def is_ws_def)
  have r3: "drop (pos (advance 1 s2)) t = c @ r"
    using at_char(4) [OF r2] by simp
  have "skipWhitespace t (advance 1 s2) = advance (length c) (advance 1 s2)"
    using skip_exact [OF r3 assms(5)] assms(6) by (simp add: starts_def)
  moreover have "peek t s0 = 0x22" "peek t s2 = 0x3A"
    using at_char(1) [of s0 t "0x22"] r0 k at_char(1) [OF r2] by simp_all
  moreover have "parseString t s0 = (Some key, s1)"
    using parseString_complete [OF assms(3) r0] by (simp add: s1_def)
  ultimately show ?thesis
    by (simp add: member_key_def Let_def skip0 skip2) (simp add: s2_def s1_def s0_def add.assoc)
qed

lemma open_bracket_complete:
  assumes "drop (pos st) t = opening # a @ c # r" and "blank a" and "\<not> is_ws c" and "depth st + 1 \<le> kMaxDepth"
  shows "c = close \<Longrightarrow> open_bracket t close st = Closed (advance (length a + 2) st)"
    and "c \<noteq> close \<Longrightarrow> open_bracket t close st = Entered (advance (length a + 1) (st\<lparr>depth := depth st + 1\<rparr>))"
proof -
  define st1 where "st1 = advance 1 (st\<lparr>depth := depth st + 1\<rparr>)"
  have r1: "drop (pos st1) t = a @ c # r"
    using at_char(4) [OF assms(1)] by (simp add: st1_def)
  have skip: "skipWhitespace t st1 = advance (length a) st1"
    using skip_exact [OF r1 assms(2)] assms(3) by simp
  have "peek t (advance (length a) st1) = c"
    using at_char(1) [of "advance (length a) st1" t c r] after_text [OF r1] by simp
  then show "c = close \<Longrightarrow> open_bracket t close st = Closed (advance (length a + 2) st)"
    "c \<noteq> close \<Longrightarrow> open_bracket t close st = Entered (advance (length a + 1) (st\<lparr>depth := depth st + 1\<rparr>))"
    using assms(4) skip by (auto simp: open_bracket_def Let_def st1_def leave_def advance_def)
qed

text \<open>The loops skip blanks first, so entering one before or after the blank is the same.\<close>

lemma skipWhitespace_idem: "skipWhitespace t (skipWhitespace t st) = skipWhitespace t st"
proof -
  have "drop (pos st) t = takeWhile is_ws (drop (pos st) t) @ dropWhile is_ws (drop (pos st) t)"
    by simp
  from after_text [OF this] have "drop (pos (skipWhitespace t st)) t = dropWhile is_ws (drop (pos st) t)"
    by (simp add: skipWhitespace_eq)
  moreover have "takeWhile is_ws (dropWhile is_ws u) = []" for u
    by (induction u) auto
  ultimately have "takeWhile is_ws (drop (pos (skipWhitespace t st)) t) = []"
    by simp
  then show ?thesis
    by (simp only: skipWhitespace_eq [of t "skipWhitespace t st"]) simp
qed

lemma loop_skips:
  "parseArray_loop strtod t es (skipWhitespace t st) = parseArray_loop strtod t es st"
  "parseObject_loop strtod t ms (skipWhitespace t st) = parseObject_loop strtod t ms st"
  by (simp_all only: parseArray_loop.simps [of strtod t es] parseObject_loop.simps [of strtod t ms] member_key_def
      skipWhitespace_idem)

text \<open>A value between brackets, from what its loop answers.\<close>

lemma bracketed_complete:
  assumes "drop (pos st) t = opening # w @ close # r" and "w = a @ w'" and "blank a" and "starts w'" and "close \<in> {0x5D, 0x7D}"
    and "depth st + 1 \<le> kMaxDepth"
  defines "s \<equiv> advance 1 (st\<lparr>depth := depth st + 1\<rparr>)"
  shows "open_bracket t close st = Entered (skipWhitespace t s)" and "drop (pos s) t = w @ close # r"
    and "leave (advance (length w + 1) s) = advance (length (opening # w @ [close])) st"
proof -
  obtain c w2 where c: "w' = c # w2" "\<not> is_ws c" "c \<noteq> close"
    using assms(4,5) by (cases w') (auto simp: starts_def)
  have text1: "drop (pos st) t = opening # a @ c # w2 @ close # r"
    using assms(1,2) c(1) by simp
  show rest: "drop (pos s) t = w @ close # r"
    using at_char(4) [OF assms(1)] by (simp add: s_def)
  have "skipWhitespace t s = advance (length a) s"
    using skip_exact [of s t a "c # w2 @ close # r"] rest assms(2,3) c by simp
  then have "skipWhitespace t s = advance (length a + 1) (st\<lparr>depth := depth st + 1\<rparr>)"
    by (simp add: s_def)
  then show "open_bracket t close st = Entered (skipWhitespace t s)"
    using open_bracket_complete(2) [OF text1 assms(3) c(2) assms(6) c(3)] by simp
  show "leave (advance (length w + 1) s) = advance (length (opening # w @ [close])) st"
    by (simp add: s_def leave_def advance_def add.assoc)
qed

text \<open>One turn of a loop over well-formed text.\<close>

lemma element_complete:
  assumes "drop (pos st) t = a @ w @ b @ c # r" and "blank a" and "starts w" and "blank b"
    and "parseValue strtod t (advance (length a) st) = (Some v, advance (length w) (advance (length a) st))"
  shows "c = 0x5D \<Longrightarrow> parseArray_loop strtod t es st = (Some (es @ [v]), advance (length (a @ w @ b) + 1) st)"
    and "c = 0x2C \<Longrightarrow> parseArray_loop strtod t es st = parseArray_loop strtod t (es @ [v]) (advance (length (a @ w @ b) + 1) st)"
proof -
  define s1 where "s1 = advance (length w) (advance (length a) st)"
  have "skipWhitespace t st = advance (length a) st"
    using skip_exact [OF assms(1,2)] starts_append [OF assms(3)] by (simp add: starts_def)
  moreover have "drop (pos s1) t = b @ c # r"
    using after_text [of st t "a @ w"] assms(1) by (simp add: s1_def add.assoc)
  ultimately show "c = 0x5D \<Longrightarrow> parseArray_loop strtod t es st = (Some (es @ [v]), advance (length (a @ w @ b) + 1) st)"
    "c = 0x2C \<Longrightarrow> parseArray_loop strtod t es st = parseArray_loop strtod t (es @ [v]) (advance (length (a @ w @ b) + 1) st)"
    using separator_complete [of s1 t b c r "0x5D" element_message] assms(4,5)
    by (simp_all add: parseArray_loop.simps [of strtod t es st] is_ws_def flip: s1_def) (simp_all add: s1_def add.assoc)
qed

lemma member_complete:
  assumes "drop (pos st) t = a @ k @ b @ 0x3A # c @ w @ d @ x # r" and "blank a" and "jstring k key" and "blank b" and "blank c"
    and "starts w" and "blank d"
    and "parseValue strtod t (advance (length (a @ k @ b @ 0x3A # c)) st) =
      (Some v, advance (length w) (advance (length (a @ k @ b @ 0x3A # c)) st))"
  shows "x = 0x7D \<Longrightarrow> parseObject_loop strtod t ms st =
      (Some (ms @ [(key, v)]), advance (length (a @ k @ b @ 0x3A # c @ w @ d) + 1) st)"
    and "x = 0x2C \<Longrightarrow> parseObject_loop strtod t ms st =
      parseObject_loop strtod t (ms @ [(key, v)]) (advance (length (a @ k @ b @ 0x3A # c @ w @ d) + 1) st)"
proof -
  define s1 where "s1 = advance (length w) (advance (length (a @ k @ b @ 0x3A # c)) st)"
  have "member_key t st = (Some key, advance (length (a @ k @ b @ 0x3A # c)) st)"
    using member_key_complete [OF assms(1-5)] starts_append [OF assms(6)] by simp
  moreover have "drop (pos s1) t = d @ x # r"
    using after_text [of st t "a @ k @ b @ 0x3A # c @ w"] assms(1) by (simp add: s1_def add.assoc)
  moreover have "s1 = advance (length (a @ k @ b @ 0x3A # c @ w)) st"
    by (simp add: s1_def add.assoc)
  ultimately show "x = 0x7D \<Longrightarrow> parseObject_loop strtod t ms st =
      (Some (ms @ [(key, v)]), advance (length (a @ k @ b @ 0x3A # c @ w @ d) + 1) st)"
    "x = 0x2C \<Longrightarrow> parseObject_loop strtod t ms st =
      parseObject_loop strtod t (ms @ [(key, v)]) (advance (length (a @ k @ b @ 0x3A # c @ w @ d) + 1) st)"
    using separator_complete [of s1 t d x r "0x7D" member_message] assms(7,8) [folded s1_def]
    by (simp_all add: parseObject_loop.simps [of strtod t ms st] is_ws_def add.assoc)
qed

lemma parse_complete:
  fixes strtod :: "string \<Rightarrow> 'd"
  shows "jvalue strtod n w v \<Longrightarrow> (\<And>st r. drop (pos st) t = w @ r \<Longrightarrow> follow r \<Longrightarrow> n + depth st \<le> kMaxDepth \<Longrightarrow>
      parseValue strtod t st = (Some v, advance (length w) st))"
    and "jelements strtod n w vs \<Longrightarrow> (\<And>st r es. drop (pos st) t = w @ 0x5D # r \<Longrightarrow> n + depth st \<le> kMaxDepth \<Longrightarrow>
      parseArray_loop strtod t es st = (Some (es @ vs), advance (length w + 1) st))"
    and "jmembers strtod n w ms \<Longrightarrow> (\<And>st r ms0. drop (pos st) t = w @ 0x7D # r \<Longrightarrow> n + depth st \<le> kMaxDepth \<Longrightarrow>
      parseObject_loop strtod t ms0 st = (Some (ms0 @ ms), advance (length w + 1) st))"
proof (induction rule: jvalue_jelements_jmembers.inducts)
  case (val_null n)
  then show ?case
    using parseWord_complete [OF val_null(1), of VNull] at_char(1,2) [of st t "0x6E"] by (simp add: parseValue.simps [of strtod t st])
next
  case (val_true n)
  then show ?case
    using parseWord_complete [OF val_true(1), of "VBool True"] at_char(1,2) [of st t "0x74"] by (simp add: parseValue.simps [of strtod t st])
next
  case (val_false n)
  then show ?case
    using parseWord_complete [OF val_false(1), of "VBool False"] at_char(1,2) [of st t "0x66"] by (simp add: parseValue.simps [of strtod t st])
next
  case (val_string w s n)
  then have "peek t st = 0x22" "\<not> atEnd t st"
    using at_char(1,2) [of st t "0x22"] by (auto simp: jstring_def)
  then show ?case
    using parseString_complete [OF val_string(1,2)] by (simp add: parseValue.simps [of strtod t st] parseStringValue_def)
next
  case (val_number w n)
  obtain c w' where w: "w = c # w'" "c = 0x2D \<or> is_dig c"
    using jnumber_starts [OF val_number(1)] by (cases w) auto
  then have "peek t st = c" "\<not> atEnd t st" "c \<notin> {0x7B, 0x5B, 0x22, 0x74, 0x66, 0x6E}"
    using at_char(1,2) [of st t c] val_number(2) by (auto simp: is_dig_def)
  then show ?case
    using parseNumber_complete [OF val_number(1,2,3), of strtod] w(2) by (auto simp: parseValue.simps [of strtod t st] Let_def)
next
  case (val_empty_array w n)
  then have "open_bracket t 0x5D st = Closed (advance (length w + 2) st)"
    using open_bracket_complete(1) [of st t "0x5B" w "0x5D" r] by (simp add: is_ws_def)
  then show ?case
    using val_empty_array(2) at_char(1,2) [of st t "0x5B"] by (simp add: parseValue.simps [of strtod t st])
next
  case (val_array n w vs)
  obtain a w' where w: "w = a @ w'" "blank a" "starts w'"
    using split_blank(1) [OF val_array(1)] by blast
  define s where "s = advance 1 (st\<lparr>depth := depth st + 1\<rparr>)"
  have depth: "depth st + 1 \<le> kMaxDepth" "n + depth s \<le> kMaxDepth"
    using val_array.prems(3) by (simp_all add: s_def)
  have text1: "drop (pos st) t = 0x5B # w @ 0x5D # r"
    using val_array.prems(1) by simp
  have mem: "(0x5D :: u16) \<in> {0x5D, 0x7D}"
    by simp
  note br = bracketed_complete [OF text1 w mem depth(1), folded s_def]
  have "parseArray_loop strtod t [] (skipWhitespace t s) = (Some ([] @ vs), advance (length w + 1) s)"
    unfolding loop_skips by (rule val_array(2) [OF br(2) depth(2)])
  then show ?case
    using br(1,3) at_char(1,2) [OF text1] by (simp add: parseValue.simps [of strtod t st])
next
  case (val_empty_object w n)
  then have "open_bracket t 0x7D st = Closed (advance (length w + 2) st)"
    using open_bracket_complete(1) [of st t "0x7B" w "0x7D" r] by (simp add: is_ws_def)
  then show ?case
    using val_empty_object(2) at_char(1,2) [of st t "0x7B"] by (simp add: parseValue.simps [of strtod t st])
next
  case (val_object n w ms)
  obtain a w' where w: "w = a @ w'" "blank a" "starts w'"
    using split_blank(2) [OF val_object(1)] by blast
  define s where "s = advance 1 (st\<lparr>depth := depth st + 1\<rparr>)"
  have depth: "depth st + 1 \<le> kMaxDepth" "n + depth s \<le> kMaxDepth"
    using val_object.prems(3) by (simp_all add: s_def)
  have text1: "drop (pos st) t = 0x7B # w @ 0x7D # r"
    using val_object.prems(1) by simp
  have mem: "(0x7D :: u16) \<in> {0x5D, 0x7D}"
    by simp
  note br = bracketed_complete [OF text1 w mem depth(1), folded s_def]
  have "parseObject_loop strtod t [] (skipWhitespace t s) = (Some ([] @ ms), advance (length w + 1) s)"
    unfolding loop_skips by (rule val_object(2) [OF br(2) depth(2)])
  then show ?case
    using br(1,3) at_char(1,2) [OF text1] by (simp add: parseValue.simps [of strtod t st])
next
  case (elem_one a n w v b)
  have r1: "drop (pos (advance (length a) st)) t = w @ b @ 0x5D # r"
    using after_text [of st t a] elem_one.prems(1) by simp
  have "parseValue strtod t (advance (length a) st) = (Some v, advance (length w) (advance (length a) st))"
    using elem_one(4) [OF r1] blank_follow [OF elem_one(2)] elem_one.prems(2) by simp
  then show ?case
    using element_complete(1) [of st t a w b "0x5D" r] elem_one(1,2) jvalue_starts [OF elem_one(3)] elem_one.prems(1) by simp
next
  case (elem_more a n w v b r' vs)
  have text1: "drop (pos st) t = a @ w @ b @ 0x2C # r' @ 0x5D # r"
    using elem_more.prems(1) by simp
  have r1: "drop (pos (advance (length a) st)) t = w @ b @ 0x2C # r' @ 0x5D # r"
    using after_text [OF text1] by simp
  have "parseValue strtod t (advance (length a) st) = (Some v, advance (length w) (advance (length a) st))"
    using elem_more(4) [OF r1] blank_follow [OF elem_more(2)] elem_more.prems(2) by simp
  note turn = element_complete(2) [OF text1 elem_more(1) jvalue_starts [OF elem_more(3)] elem_more(2) this refl, of es]
  have "drop (pos (advance (length (a @ w @ b) + 1) st)) t = r' @ 0x5D # r"
    using after_text [of st t "a @ w @ b @ [0x2C]"] text1 by (simp add: add.assoc)
  from elem_more(6) [OF this, of "es @ [v]"] show ?case
    unfolding turn using elem_more.prems(2) by (simp add: add.assoc)
next
  case (mem_one a k key b c n w v d)
  have text1: "drop (pos st) t = a @ k @ b @ 0x3A # c @ w @ d @ 0x7D # r"
    using mem_one.prems(1) by simp
  have r1: "drop (pos (advance (length (a @ k @ b @ 0x3A # c)) st)) t = w @ d @ 0x7D # r"
    using after_text [of st t "a @ k @ b @ 0x3A # c"] text1 by (simp add: add.assoc)
  have "parseValue strtod t (advance (length (a @ k @ b @ 0x3A # c)) st) =
      (Some v, advance (length w) (advance (length (a @ k @ b @ 0x3A # c)) st))"
    using mem_one(7) [OF r1] blank_follow [OF mem_one(5)] mem_one.prems(2) by simp
  then show ?case
    using member_complete(1) [OF text1 mem_one(1-4) jvalue_starts [OF mem_one(6)] mem_one(5)] by simp
next
  case (mem_more a k key b c n w v d r' ms)
  have text1: "drop (pos st) t = a @ k @ b @ 0x3A # c @ w @ d @ 0x2C # r' @ 0x7D # r"
    using mem_more.prems(1) by simp
  have r1: "drop (pos (advance (length (a @ k @ b @ 0x3A # c)) st)) t = w @ d @ 0x2C # r' @ 0x7D # r"
    using after_text [of st t "a @ k @ b @ 0x3A # c"] text1 by (simp add: add.assoc)
  have "parseValue strtod t (advance (length (a @ k @ b @ 0x3A # c)) st) =
      (Some v, advance (length w) (advance (length (a @ k @ b @ 0x3A # c)) st))"
    using mem_more(7) [OF r1] blank_follow [OF mem_more(5)] mem_more.prems(2) by simp
  note turn = member_complete(2) [OF text1 mem_more(1-4) jvalue_starts [OF mem_more(6)] mem_more(5) this refl, of ms0]
  have "drop (pos (advance (length (a @ k @ b @ 0x3A # c @ w @ d) + 1) st)) t = r' @ 0x7D # r"
    using after_text [of st t "a @ k @ b @ 0x3A # c @ w @ d @ [0x2C]"] text1 by (simp add: add.assoc)
  from mem_more(9) [OF this, of "ms0 @ [(key, v)]"] show ?case
    unfolding turn using mem_more.prems(2) by (simp add: add.assoc)
qed

section \<open>Properties\<close>

lemma parseText_sound: "step_ok t st (parseText strtod t st)
    (\<lambda>u v. pos (snd (parseText strtod t st)) = length t \<and>
      (\<exists>a w b. u = a @ w @ b \<and> blank a \<and> jvalue strtod (kMaxDepth - depth st) w v \<and> blank b))"
proof -
  obtain a where a: "consumed t st (skipWhitespace t st) a" "blank a"
    using skip_blank by blast
  obtain r s1 where pv: "parseValue strtod t (skipWhitespace t st) = (r, s1)"
    by fastforce
  have ok: "step_ok t (skipWhitespace t st) (r, s1) (jvalue strtod (kMaxDepth - depth st))"
    using parse_sound(1) [of t "skipWhitespace t st" strtod] consumed_depth [OF a(1)] pv by simp
  show ?thesis
  proof (cases r)
    case None
    then show ?thesis
      using ok consumed_err [OF a(1)] consumed_pos [OF a(1)] by (simp add: parseText_def pv step_ok_def)
  next
    case (Some v)
    obtain w where w: "consumed t (skipWhitespace t st) s1 w" "jvalue strtod (kMaxDepth - depth st) w v"
      using step_okD(1) [OF ok [unfolded Some]] by blast
    obtain b where b: "consumed t s1 (skipWhitespace t s1) b" "blank b"
      using skip_blank by blast
    note all = consumed_trans [OF consumed_trans [OF a(1) w(1)] b(1)]
    show ?thesis
    proof (cases "pos (skipWhitespace t s1) = length t")
      case True
      then show ?thesis
        using all a(2) w(2) b(2) Some by (auto simp: parseText_def pv step_ok_def)
    next
      case False
      then show ?thesis
        using step_ok_fail [OF all] Some by (simp add: parseText_def pv)
    qed
  qed
qed

text \<open>How deep the brackets of a value nest.\<close>

fun nesting :: "'d json_value \<Rightarrow> nat" where
  "nesting (VArray vs) = Suc (foldr (\<lambda>v n. max (nesting v) n) vs 0)"
| "nesting (VObject ms) = Suc (foldr (\<lambda>m n. max (nesting (snd m)) n) ms 0)"
| "nesting _ = 0"

lemma foldr_max_le: "\<forall>x \<in> set xs. f x \<le> n \<Longrightarrow> foldr (\<lambda>x m. max (f x) m) xs 0 \<le> (n :: nat)"
  by (induction xs) auto

lemma jvalue_nesting:
  "jvalue strtod n w v \<Longrightarrow> nesting v \<le> n"
  "jelements strtod n w vs \<Longrightarrow> \<forall>v \<in> set vs. nesting v \<le> n"
  "jmembers strtod n w ms \<Longrightarrow> \<forall>m \<in> set ms. nesting (snd m) \<le> n"
  by (induction rule: jvalue_jelements_jmembers.inducts) (auto simp: foldr_max_le)

lemma json_parse_grammar: "json_parse strtod t = Inr v \<longleftrightarrow> json_text strtod t v"
proof
  assume run: "json_parse strtod t = Inr v"
  let ?st = "\<lparr>pos = 0, depth = 0, err = []\<rparr>"
  obtain s where s: "parseText strtod t ?st = (Some v, s)"
    using run by (auto simp: json_parse_def split: prod.splits option.splits)
  obtain u where u: "consumed t ?st s u" "pos s = length t"
    "\<exists>a w b. u = a @ w @ b \<and> blank a \<and> jvalue strtod kMaxDepth w v \<and> blank b"
    using step_okD(1) [OF parseText_sound [of t ?st strtod, unfolded s]] by auto
  have "t = u"
    using u(1,2) by (simp add: consumed_def)
  then show "json_text strtod t v"
    using u(3) by (simp add: json_text_def)
next
  let ?st = "\<lparr>pos = 0, depth = 0, err = []\<rparr>"
  assume "json_text strtod t v"
  then obtain a w b where t: "t = a @ w @ b" "blank a" "jvalue strtod kMaxDepth w v" "blank b"
    by (auto simp: json_text_def)
  have skip: "skipWhitespace t ?st = advance (length a) ?st"
    using skip_exact [of ?st t a "w @ b"] t starts_append [OF jvalue_starts [OF t(3)], of b] by (simp add: starts_def)
  have rest: "drop (pos (advance (length a) ?st)) t = w @ b"
    by (simp add: t(1))
  have "follow b"
    using t(4) by (cases b) (auto simp: follow_def blank_def is_ws_def is_dig_def)
  then have pv: "parseValue strtod t (advance (length a) ?st) = (Some v, advance (length w) (advance (length a) ?st))"
    using parse_complete(1) [OF t(3) rest] by simp
  have "drop (pos (advance (length w) (advance (length a) ?st))) t = b @ []"
    by (simp add: t(1))
  from skip_exact [OF this t(4)] have "skipWhitespace t (advance (length w) (advance (length a) ?st)) =
      advance (length b) (advance (length w) (advance (length a) ?st))"
    by simp
  moreover have "length t = length a + length w + length b"
    by (simp add: t(1))
  ultimately show "json_parse strtod t = Inr v"
    by (simp add: json_parse_def parseText_def skip pv Let_def)
qed

text \<open>C5: The parser accepts exactly the texts of the grammar whose brackets nest at most 512 deep, and
  answers the value the grammar gives them: no trailing comma, comment, leading zero or trailing text
  gets through, and nothing well-formed is refused for another reason.\<close>

theorem json_parse_iff_grammar: "json_parse strtod t = Inr v \<longleftrightarrow> json_text strtod t v"
  by (rule json_parse_grammar)

text \<open>C26: Every refusal carries a message that names a position of the text, so the fallback message
  for an empty one is never used.\<close>

theorem json_parse_error_position:
  assumes "json_parse strtod t = Inl message"
  shows "\<exists>k what. k \<le> length t \<and> message = ''Unexpected token in JSON at position '' @ to_string k @ '': '' @ what"
proof -
  let ?st = "\<lparr>pos = 0, depth = 0, err = []\<rparr>"
  obtain s where s: "parseText strtod t ?st = (None, s)" and m: "message = (if err s = [] then ''Unexpected end of JSON input'' else err s)"
    using assms by (auto simp: json_parse_def split: prod.splits option.splits)
  have "reported t s"
    using step_okD(2) [OF parseText_sound [of t ?st strtod, unfolded s]] by simp
  then obtain k what where k: "k \<le> length t" "err s = ''Unexpected token in JSON at position '' @ to_string k @ '': '' @ what"
    by (auto simp: reported_def)
  then show ?thesis
    using m by auto
qed

theorem json_parse_error_position_witness:
  "\<exists>k what. k \<le> length [0x5B, 0x31, 0x2C, 0x5D :: u16] \<and>
     ''Unexpected token in JSON at position 3: a trailing comma is not a JSON value'' =
     ''Unexpected token in JSON at position '' @ to_string k @ '': '' @ what"
proof (rule json_parse_error_position)
  show "json_parse (\<lambda>s. s) [0x5B, 0x31, 0x2C, 0x5D] =
      Inl ''Unexpected token in JSON at position 3: a trailing comma is not a JSON value''"
    by code_simp
qed

text \<open>No accepted value nests deeper than the parser's depth bound.\<close>

theorem json_parse_depth_bound:
  assumes "json_parse strtod t = Inr v"
  shows "nesting v \<le> kMaxDepth"
proof -
  have "json_text strtod t v"
    using assms json_parse_grammar by blast
  then show ?thesis
    using jvalue_nesting(1) by (auto simp: json_text_def)
qed

theorem json_parse_depth_bound_witness:
  "json_parse (\<lambda>s. s) [0x5B, 0x5B, 0x31, 0x5D, 0x5D] = Inr (VArray [VArray [VNumber ''1'']]) \<and>
   nesting (VArray [VArray [VNumber ''1'']]) \<le> kMaxDepth"
proof -
  have run: "json_parse (\<lambda>s. s) [0x5B, 0x5B, 0x31, 0x5D, 0x5D] = Inr (VArray [VArray [VNumber ''1'']])"
    by code_simp
  show ?thesis
    using json_parse_depth_bound [OF run] run by blast
qed

end
