(* ===== verification/Map_Keys.thy ===== *)
theory Map_Keys
  imports BigNum
begin

text \<open>
  The keys of \<open>Map\<close> and \<open>Set\<close> (\<open>src/src/runtime/value.h\<close>, \<open>string.cpp\<close>, \<open>map.cpp\<close>): NaN-boxed values,
  the hash of a key and the SameValueZero and SameValue comparisons.

  A number is its IEEE-754 bit pattern, which is what a \<open>Value\<close> holds. An object, symbol, string or
  BigInt is an identity with its contents; its raw bits are its tag over its current address, which
  the collector (outside \<open>src/\<close>) may change. The heap the sources consult is the record \<open>heap\<close>: the
  relocation epoch, the current address of every identity and whether it may still move.
\<close>

section \<open>Definitions\<close>

text \<open>A heap pointer is below \<open>2 ^ 47\<close> and no object is smaller than its 8-byte header, so 44 bits name
  every object the heap can hold at once.\<close>

type_synonym ref = "44 word"

datatype Value =
  Number u64
| Object ref
| Symbol ref
| Str ref "u16 list"
| BigInt ref bignum
| Imm u64

record heap =
  epoch :: nat
  addr :: "ref \<Rightarrow> u64"
  movable :: "ref \<Rightarrow> bool"

definition kCanonicalNaNBits :: u64 where "kCanonicalNaNBits = 0x7FF8000000000000"
definition kNumberMaxBits :: u64 where "kNumberMaxBits = 0xFFF0000000000000"
definition kPayloadMask :: u64 where "kPayloadMask = 0x0000FFFFFFFFFFFF"
definition kTagShift :: nat where "kTagShift = 48"

definition tag_Object :: u64 where "tag_Object = 0xFFF1"
definition tag_String :: u64 where "tag_String = 0xFFF2"
definition tag_Symbol :: u64 where "tag_Symbol = 0xFFF8"
definition tag_BigInt :: u64 where "tag_BigInt = 0xFFFB"
definition tag_Hole :: u64 where "tag_Hole = 0xFFF7"
definition tag_Undefined :: u64 where "tag_Undefined = 0xFFF6"

definition fromTagAndPayload :: "u64 \<Rightarrow> u64 \<Rightarrow> u64" where
  "fromTagAndPayload tag payload = push_bit kTagShift tag OR (payload AND kPayloadMask)"

definition tag_of :: "u64 \<Rightarrow> u64" where
  "tag_of bits = drop_bit kTagShift bits"

fun rawBits :: "heap \<Rightarrow> Value \<Rightarrow> u64" where
  "rawBits h (Number b) = b"
| "rawBits h (Object r) = fromTagAndPayload tag_Object (addr h r)"
| "rawBits h (Symbol r) = fromTagAndPayload tag_Symbol (addr h r)"
| "rawBits h (Str r s) = fromTagAndPayload tag_String (addr h r)"
| "rawBits h (BigInt r n) = fromTagAndPayload tag_BigInt (addr h r)"
| "rawBits h (Imm b) = b"

definition fromHole :: Value where
  "fromHole = Imm (fromTagAndPayload tag_Hole 0)"

definition fromUndefined :: Value where
  "fromUndefined = Imm (fromTagAndPayload tag_Undefined 0)"

fun isHole :: "Value \<Rightarrow> bool" where
  "isHole (Imm b) = (tag_of b = tag_Hole)"
| "isHole _ = False"

text \<open>\<open>std::isnan\<close>, \<open>x == 0.0\<close>, \<open>x == y\<close> and \<open>std::signbit\<close> on bit patterns.\<close>

definition is_nan :: "u64 \<Rightarrow> bool" where
  "is_nan b \<longleftrightarrow> (b AND 0x7FFFFFFFFFFFFFFF) > 0x7FF0000000000000"

definition is_zero :: "u64 \<Rightarrow> bool" where
  "is_zero b \<longleftrightarrow> (b AND 0x7FFFFFFFFFFFFFFF) = 0"

definition double_eq :: "u64 \<Rightarrow> u64 \<Rightarrow> bool" where
  "double_eq x y \<longleftrightarrow> \<not> is_nan x \<and> \<not> is_nan y \<and> (x = y \<or> is_zero x \<and> is_zero y)"

definition sign_bit :: "u64 \<Rightarrow> bool" where
  "sign_bit b \<longleftrightarrow> bit b 63"

definition mix64 :: "u64 \<Rightarrow> u32" where
  "mix64 x0 =
     (let x1 = x0 XOR drop_bit 30 x0;
          x2 = x1 * 0xBF58476D1CE4E5B9;
          x3 = x2 XOR drop_bit 27 x2;
          x4 = x3 * 0x94D049BB133111EB;
          x5 = x4 XOR drop_bit 31 x4
      in ucast x5)"

definition str_hash_step :: "u32 \<Rightarrow> u16 \<Rightarrow> u32" where
  "str_hash_step h u =
     (let h1 = (h XOR ucast (u AND 0xFF)) * 0x01000193
      in (h1 XOR ucast (drop_bit 8 u)) * 0x01000193)"

definition str_hash :: "u16 list \<Rightarrow> u32" where
  "str_hash s = foldl str_hash_step 0x811c9dc5 s AND 0xFFFFFFFC"

definition hashKey :: "heap \<Rightarrow> Value \<Rightarrow> u32" where
  "hashKey h v =
     (case v of
        Number b \<Rightarrow>
          (let d = (if double_eq b 0 then 0 else b)
           in if is_nan d then mix64 kCanonicalNaNBits else mix64 d)
      | Str r s \<Rightarrow> mix64 (ucast (str_hash s))
      | BigInt r n \<Rightarrow>
          mix64 (foldl (\<lambda>acc limb. ucast (mix64 (acc XOR ucast limb))) (if neg n then 1 else 0) (mag n))
      | _ \<Rightarrow> mix64 (rawBits h v))"

fun keyMayMove :: "heap \<Rightarrow> Value \<Rightarrow> bool" where
  "keyMayMove h (Object r) = movable h r"
| "keyMayMove h (Symbol r) = movable h r"
| "keyMayMove h _ = False"

definition sameValueZero :: "heap \<Rightarrow> Value \<Rightarrow> Value \<Rightarrow> bool" where
  "sameValueZero h a b =
     (case (a, b) of
        (Number x, Number y) \<Rightarrow> if is_nan x \<and> is_nan y then True else double_eq x y
      | (Str _ s, Str _ u) \<Rightarrow> s = u
      | (BigInt _ m, BigInt _ n) \<Rightarrow> compare m n = 0
      | _ \<Rightarrow> rawBits h a = rawBits h b)"

definition sameValue :: "heap \<Rightarrow> Value \<Rightarrow> Value \<Rightarrow> bool" where
  "sameValue h a b =
     (case (a, b) of
        (Number x, Number y) \<Rightarrow>
          if is_nan x \<and> is_nan y then True
          else if double_eq x 0 \<and> double_eq y 0 then sign_bit x = sign_bit y else double_eq x y
      | _ \<Rightarrow> sameValueZero h a b)"

section \<open>Well-formed values and heaps\<close>

text \<open>A \<open>Number\<close> holds a pattern \<open>fromDouble\<close> makes, an immediate one of the singleton or boolean tags,
  a BigInt a canonical magnitude.\<close>

fun wf_value :: "Value \<Rightarrow> bool" where
  "wf_value (Number b) = (b \<le> kNumberMaxBits)"
| "wf_value (Imm b) = (tag_of b \<in> {0xFFF3, 0xFFF4, 0xFFF5, 0xFFF6, 0xFFF7, 0xFFFA})"
| "wf_value (BigInt r n) = bn_wf n"
| "wf_value _ = True"

text \<open>Distinct identities are at distinct addresses.\<close>

definition heap_wf :: "heap \<Rightarrow> bool" where
  "heap_wf h \<longleftrightarrow> inj (\<lambda>r. addr h r AND kPayloadMask)"

text \<open>SameValueZero without the heap: which values a program cannot tell apart as keys.\<close>

fun same_key :: "Value \<Rightarrow> Value \<Rightarrow> bool" where
  "same_key (Number x) (Number y) = (is_nan x \<and> is_nan y \<or> double_eq x y)"
| "same_key (Str _ s) (Str _ u) = (s = u)"
| "same_key (BigInt _ m) (BigInt _ n) = (bn_val m = bn_val n)"
| "same_key (Object r) (Object q) = (r = q)"
| "same_key (Symbol r) (Symbol q) = (r = q)"
| "same_key (Imm b) (Imm c) = (b = c)"
| "same_key _ _ = False"

section \<open>Tags\<close>

lemma bit_kPayloadMask: "bit kPayloadMask n \<longleftrightarrow> n < 48"
proof -
  have *: "kPayloadMask = mask 48" by (simp add: kPayloadMask_def mask_eq_exp_minus_1)
  show ?thesis unfolding * by (auto simp only: bit_mask_iff possible_bit_word) simp
qed

lemma small_tag: "tag < (0x10000 :: u64) \<Longrightarrow> take_bit 16 tag = tag"
  by (simp add: word_unat_eq_iff word_less_nat_alt unsigned_take_bit_eq take_bit_nat_eq_self)

lemma tag_fromTagAndPayload:
  assumes "tag < 0x10000"
  shows "tag_of (fromTagAndPayload tag p) = tag"
proof (rule bit_word_eqI)
  fix n assume "n < LENGTH(64)"
  moreover have "bit tag n \<longrightarrow> n < 16"
    using bit_take_bit_iff [of 16 tag n] unfolding small_tag [OF assms] by blast
  ultimately show "bit (tag_of (fromTagAndPayload tag p)) n \<longleftrightarrow> bit tag n"
    by (auto simp: tag_of_def fromTagAndPayload_def kTagShift_def bit_simps bit_kPayloadMask not_less)
qed

lemma payload_fromTagAndPayload [simp]: "fromTagAndPayload tag p AND kPayloadMask = p AND kPayloadMask"
  by (rule bit_word_eqI) (auto simp: fromTagAndPayload_def kTagShift_def bit_simps bit_kPayloadMask)

lemma tag_number: "b \<le> kNumberMaxBits \<Longrightarrow> tag_of b \<le> 0xFFF0"
  by (simp add: tag_of_def kTagShift_def kNumberMaxBits_def word_le_nat_alt unat_div drop_bit_eq_div)

lemma fromTagAndPayload_eq_iff:
  "fromTagAndPayload tag p = fromTagAndPayload tag q \<longleftrightarrow> p AND kPayloadMask = q AND kPayloadMask"
  by (metis fromTagAndPayload_def payload_fromTagAndPayload)

lemma fromTagAndPayload_neq:
  "t < 0x10000 \<Longrightarrow> u < 0x10000 \<Longrightarrow> t \<noteq> u \<Longrightarrow> fromTagAndPayload t p \<noteq> fromTagAndPayload u q"
  by (metis tag_fromTagAndPayload)

lemmas tag_defs = tag_Object_def tag_String_def tag_Symbol_def tag_BigInt_def tag_Hole_def tag_Undefined_def

text \<open>The tag alone tells the kinds of value apart.\<close>

fun kind_of :: "Value \<Rightarrow> nat" where
  "kind_of (Number _) = 0"
| "kind_of (Object _) = 1"
| "kind_of (Symbol _) = 2"
| "kind_of (Str _ _) = 3"
| "kind_of (BigInt _ _) = 4"
| "kind_of (Imm _) = 5"

definition kind_of_tag :: "u64 \<Rightarrow> nat" where
  "kind_of_tag t =
     (if t \<le> 0xFFF0 then 0 else if t = 0xFFF1 then 1 else if t = 0xFFF8 then 2
      else if t = 0xFFF2 then 3 else if t = 0xFFFB then 4 else 5)"

lemma kind_of_rawBits: "wf_value v \<Longrightarrow> kind_of_tag (tag_of (rawBits h v)) = kind_of v"
  by (cases v) (auto simp: kind_of_tag_def tag_number tag_defs tag_fromTagAndPayload)

lemma rawBits_kind: "wf_value a \<Longrightarrow> wf_value b \<Longrightarrow> rawBits h a = rawBits h b \<Longrightarrow> kind_of a = kind_of b"
  by (metis kind_of_rawBits)

section \<open>The comparisons\<close>

lemma same_key_kind: "same_key a b \<Longrightarrow> kind_of a = kind_of b"
  by (cases a; cases b) auto

lemma addr_eq_iff: "heap_wf h \<Longrightarrow> addr h r AND kPayloadMask = addr h q AND kPayloadMask \<longleftrightarrow> r = q"
  by (auto simp: heap_wf_def inj_def)

lemma sameValueZero_same_kind:
  assumes "heap_wf h" and "wf_value a" and "wf_value b" and "kind_of a = kind_of b"
  shows "sameValueZero h a b = same_key a b"
  using assms
  by (cases a; cases b)
     (auto simp: sameValueZero_def fromTagAndPayload_eq_iff addr_eq_iff compare_correct order_of_def)

lemma sameValueZero_other_kind:
  assumes "kind_of a \<noteq> kind_of b" shows "sameValueZero h a b \<longleftrightarrow> rawBits h a = rawBits h b"
  using assms by (cases a; cases b) (simp_all add: sameValueZero_def)

lemma sameValueZero_iff:
  assumes "heap_wf h" and "wf_value a" and "wf_value b"
  shows "sameValueZero h a b \<longleftrightarrow> same_key a b"
proof (cases "kind_of a = kind_of b")
  case True
  then show ?thesis using assms sameValueZero_same_kind by simp
next
  case False
  then show ?thesis
    using assms same_key_kind rawBits_kind sameValueZero_other_kind by blast
qed

lemma same_key_refl [simp]: "same_key a a"
  by (cases a) (auto simp: double_eq_def)

lemma same_key_sym: "same_key a b \<Longrightarrow> same_key b a"
  by (cases a; cases b) (auto simp: double_eq_def)

lemma same_key_trans: "same_key a b \<Longrightarrow> same_key b c \<Longrightarrow> same_key a c"
  by (cases a; cases b; cases c) (auto simp: double_eq_def)

lemma is_nan_0 [simp]: "\<not> is_nan 0" "is_zero 0"
  by (simp_all add: is_nan_def is_zero_def)

lemma double_eq_0: "double_eq x 0 \<longleftrightarrow> is_zero x"
  by (auto simp: double_eq_def is_zero_def is_nan_def)

lemma hashKey_same_key:
  assumes "same_key a b" and "wf_value a" and "wf_value b"
  shows "hashKey h a = hashKey h b"
  using assms
  by (cases a; cases b)
     (auto simp: hashKey_def double_eq_0 Let_def double_eq_def dest: bn_unique)

text \<open>An immediate, a number, a string and a BigInt hash by contents; an object and a symbol by address.\<close>

fun ref_of :: "Value \<Rightarrow> ref option" where
  "ref_of (Object r) = Some r"
| "ref_of (Symbol r) = Some r"
| "ref_of _ = None"

lemma rawBits_cong: "ref_of v = Some r \<Longrightarrow> addr h' r = addr h r \<Longrightarrow> rawBits h' v = rawBits h v"
  by (cases v) auto

lemma hashKey_cong:
  "(\<And>r. ref_of v = Some r \<Longrightarrow> addr h' r = addr h r) \<Longrightarrow> hashKey h' v = hashKey h v"
  by (cases v) (auto simp: hashKey_def)

lemma keyMayMove_iff: "keyMayMove h v \<longleftrightarrow> (\<exists>r. ref_of v = Some r \<and> movable h r)"
  by (cases v) auto

lemma sign_zero_eq:
  assumes "is_zero x" and "is_zero y" and "sign_bit x = sign_bit y"
  shows "x = y"
proof (rule bit_word_eqI)
  fix n assume n: "n < LENGTH(64)"
  have m: "bit (0x7FFFFFFFFFFFFFFF :: u64) k \<longleftrightarrow> k < 63" for k
  proof -
    have *: "(0x7FFFFFFFFFFFFFFF :: u64) = mask 63" by (simp add: mask_eq_exp_minus_1)
    show ?thesis unfolding * by (auto simp only: bit_mask_iff possible_bit_word) simp
  qed
  have "bit (x AND 0x7FFFFFFFFFFFFFFF) n = bit (y AND 0x7FFFFFFFFFFFFFFF) n"
    using assms(1,2) by (simp add: is_zero_def)
  then have "n < 63 \<Longrightarrow> bit x n = bit y n"
    unfolding bit_and_iff m by blast
  moreover have "n = 63 \<Longrightarrow> bit x n = bit y n"
    using assms(3) by (simp add: sign_bit_def)
  moreover have "n < 63 \<or> n = 63" using n by auto
  ultimately show "bit x n = bit y n" by blast
qed

lemma sameValue_number:
  "sameValue h (Number x) (Number y) \<longleftrightarrow> is_nan x \<and> is_nan y \<or> \<not> is_nan x \<and> \<not> is_nan y \<and> x = y"
  using sign_zero_eq [of x y]
  by (auto simp: sameValue_def double_eq_0) (auto simp: double_eq_def is_zero_def is_nan_def)

end
