(* ===== verification/Map_Table.thy ===== *)
theory Map_Table
  imports Map_Keys
begin

text \<open>
  The insertion-ordered hash table under \<open>Map\<close> and \<open>Set\<close> (\<open>src/src/runtime/map.h\<close>, \<open>map.cpp\<close>).

  A table is a list of entries in insertion order, a deleted entry being a tombstone whose key is
  the hole, and an open-addressed bucket index over it. An object key hashes by its address, which a
  collection may change; the recorded epoch and anchor decide whether the index is still valid and a
  lookup rebuilds it when it is not.

  The collector is the brass submodule, which is not part of the sources: it is the parameter \<open>gc\<close>, run
  at every allocation, and \<open>collector_ok\<close> states what \<open>heap.h\<close> documents of it. The counts are naturals:
  \<open>Heap::kMaxObjectBytes\<close> (512 MiB) keeps an entry block below \<open>2 ^ 25\<close> pairs, so that none of the
  32-bit products of the code wraps. Each probe loop carries fuel, the number of buckets, and yields
  \<open>None\<close> when it would run past it; the lemmas below show that it never does. The weak tables, whose
  entries the collector tombstones by itself, are not modelled.
\<close>

section \<open>Definitions\<close>

record map_header =
  entries :: "(Value \<times> Value) list option"
  index :: "nat list option"
  liveCount :: nat
  usedCount :: nat
  indexEpoch :: int
  indexAnchor :: int

type_synonym collector = "heap \<Rightarrow> heap"

definition kInitialCapacity :: nat where "kInitialCapacity = 8"
definition kBucketsPerSlot :: nat where "kBucketsPerSlot = 2"
definition kStableIndex :: int where "kStableIndex = - 2"

text \<open>\<open>while (n < target) n *= 2\<close>, entered with a positive \<open>n\<close>.\<close>

function double_until :: "nat \<Rightarrow> nat \<Rightarrow> nat" where
  "double_until n target = (if 0 < n \<and> n < target then double_until (n * 2) target else n)"
  by pat_completeness auto
termination by (relation "measure (\<lambda>(n, target). target - n)") auto

declare double_until.simps [simp del]

definition bucketCountFor :: "nat \<Rightarrow> nat" where
  "bucketCountFor cap = double_until 8 (cap * kBucketsPerSlot)"

definition selfAddress :: "heap \<Rightarrow> ref \<Rightarrow> int" where
  "selfAddress h self = uint (addr h self AND kPayloadMask)"

definition bucketsOf :: "map_header \<Rightarrow> nat list" where
  "bucketsOf m = (case index m of None \<Rightarrow> [] | Some b \<Rightarrow> b)"

definition bucketCountOf :: "map_header \<Rightarrow> nat" where
  "bucketCountOf m = (case index m of None \<Rightarrow> 0 | Some b \<Rightarrow> length b)"

definition capacity :: "map_header \<Rightarrow> nat" where
  "capacity m = (case entries m of None \<Rightarrow> 0 | Some es \<Rightarrow> length es)"

definition entryData :: "map_header \<Rightarrow> (Value \<times> Value) list" where
  "entryData m = (case entries m of None \<Rightarrow> [] | Some es \<Rightarrow> es)"

definition keyAt :: "map_header \<Rightarrow> nat \<Rightarrow> Value" where
  "keyAt m slot = fst (entryData m ! slot)"

definition valueAt :: "map_header \<Rightarrow> nat \<Rightarrow> Value" where
  "valueAt m slot = snd (entryData m ! slot)"

definition liveAt :: "map_header \<Rightarrow> nat \<Rightarrow> bool" where
  "liveAt m slot \<longleftrightarrow> \<not> isHole (keyAt m slot)"

text \<open>\<open>while (buckets[b] != 0) b = (b + 1) & mask\<close>.\<close>

fun free_bucket :: "nat \<Rightarrow> nat list \<Rightarrow> nat \<Rightarrow> nat \<Rightarrow> nat option" where
  "free_bucket 0 buckets msk b = None"
| "free_bucket (Suc fuel) buckets msk b =
     (if buckets ! b \<noteq> 0 then free_bucket fuel buckets msk ((b + 1) AND msk) else Some b)"

fun reindex_loop ::
  "heap \<Rightarrow> map_header \<Rightarrow> nat \<Rightarrow> nat list \<Rightarrow> nat list \<times> bool \<times> nat \<Rightarrow> (nat list \<times> bool \<times> nat) option" where
  "reindex_loop h m msk [] st = Some st"
| "reindex_loop h m msk (slot # slots) (buckets, moves, live) =
     (if \<not> liveAt m slot then reindex_loop h m msk slots (buckets, moves, live)
      else
        (let key = keyAt m slot;
             moves' = (moves \<or> keyMayMove h key)
         in case free_bucket (length buckets) buckets msk (unat (hashKey h key) AND msk) of
              None \<Rightarrow> None
            | Some b \<Rightarrow> reindex_loop h m msk slots (buckets[b := slot + 1], moves', live + 1)))"

definition reindex :: "collector \<Rightarrow> heap \<Rightarrow> ref \<Rightarrow> map_header \<Rightarrow> (heap \<times> map_header) option" where
  "reindex gc h self m =
     (let wanted = bucketCountFor (capacity m);
          h' = (if bucketCountOf m \<noteq> wanted then gc h else h)
      in case reindex_loop h' m (wanted - 1) [0..<usedCount m] (replicate wanted 0, False, 0) of
           None \<Rightarrow> None
         | Some (buckets, moves, live) \<Rightarrow>
             Some (h', m\<lparr>index := Some buckets, liveCount := live,
                         indexEpoch := (if moves then int (epoch h') else kStableIndex),
                         indexAnchor := selfAddress h' self\<rparr>))"

definition epochCurrent :: "heap \<Rightarrow> map_header \<Rightarrow> bool" where
  "epochCurrent h m \<longleftrightarrow> indexEpoch m = kStableIndex \<or> indexEpoch m = int (epoch h)"

definition ensureIndex :: "collector \<Rightarrow> heap \<Rightarrow> ref \<Rightarrow> map_header \<Rightarrow> (heap \<times> map_header) option" where
  "ensureIndex gc h self m =
     (if index m \<noteq> None \<and> epochCurrent h m \<and> indexAnchor m = selfAddress h self then Some (h, m)
      else reindex gc h self m)"

definition growEntries :: "collector \<Rightarrow> heap \<Rightarrow> ref \<Rightarrow> map_header \<Rightarrow> (heap \<times> map_header) option" where
  "growEntries gc h self m =
     (let live = length (filter (liveAt m) [0..<usedCount m]);
          newCap = double_until kInitialCapacity ((live + 1) * 2);
          h' = gc h;
          dst = replicate newCap (fromUndefined, fromUndefined);
          moved = filter (\<lambda>e. \<not> isHole (fst e)) (take (usedCount m) (entryData m))
      in reindex gc h' self
           (m\<lparr>entries := Some (moved @ drop (length moved) dst),
              usedCount := length moved, liveCount := length moved\<rparr>))"

definition create :: map_header where
  "create = \<lparr>entries = None, index = None, liveCount = 0, usedCount = 0, indexEpoch = - 1, indexAnchor = - 1\<rparr>"

text \<open>
  The probe loop of the three lookups: it stops at the first bucket whose entry \<open>hit\<close> accepts or at
  an empty one, which is the answer \<open>UINT32_MAX\<close>, here \<open>Some None\<close>.
\<close>

fun probe :: "nat \<Rightarrow> (nat \<Rightarrow> bool) \<Rightarrow> nat list \<Rightarrow> nat \<Rightarrow> nat \<Rightarrow> nat option option" where
  "probe 0 hit buckets msk b = None"
| "probe (Suc fuel) hit buckets msk b =
     (if buckets ! b \<noteq> 0
      then (let slot = buckets ! b - 1
            in if hit slot then Some (Some slot) else probe fuel hit buckets msk ((b + 1) AND msk))
      else Some None)"

datatype fast_answer = Fallback | Answer "nat option"

definition findFast :: "heap \<Rightarrow> ref \<Rightarrow> map_header \<Rightarrow> Value \<Rightarrow> fast_answer option" where
  "findFast h self m key =
     (if liveCount m = 0 then Some (Answer None)
      else if index m = None \<or> \<not> epochCurrent h m \<or> indexAnchor m \<noteq> selfAddress h self then Some Fallback
      else
        (let count = bucketCountOf m;
             msk = count - 1;
             buckets = bucketsOf m
         in if count = 0 then Some Fallback
            else map_option Answer
                   (probe count (\<lambda>s. liveAt m s \<and> sameValueZero h (keyAt m s) key) buckets msk
                      (unat (hashKey h key) AND msk))))"

definition findFastIdentity :: "heap \<Rightarrow> ref \<Rightarrow> map_header \<Rightarrow> Value \<Rightarrow> fast_answer option" where
  "findFastIdentity h self m key =
     (if liveCount m = 0 then Some (Answer None)
      else if index m = None \<or> \<not> epochCurrent h m \<or> indexAnchor m \<noteq> selfAddress h self then Some Fallback
      else
        (let count = bucketCountOf m;
             msk = count - 1;
             buckets = bucketsOf m;
             want = rawBits h key
         in if count = 0 then Some Fallback
            else map_option Answer
                   (probe count (\<lambda>s. rawBits h (keyAt m s) = want) buckets msk (unat (mix64 want) AND msk))))"

definition find :: "collector \<Rightarrow> heap \<Rightarrow> ref \<Rightarrow> map_header \<Rightarrow> Value \<Rightarrow> (heap \<times> map_header \<times> nat option) option" where
  "find gc h self m key =
     (if liveCount m = 0 then Some (h, m, None)
      else
        case ensureIndex gc h self m of
          None \<Rightarrow> None
        | Some (h', m') \<Rightarrow>
            (let count = bucketCountOf m';
                 msk = count - 1
             in if count = 0 then Some (h', m', None)
                else map_option (\<lambda>r. (h', m', r))
                       (probe count (\<lambda>s. liveAt m' s \<and> sameValueZero h' (keyAt m' s) key) (bucketsOf m') msk
                          (unat (hashKey h' key) AND msk))))"

text \<open>\<open>MapHeader::set\<close> in its three parts: the update of an entry that exists, the growth of a full
  table, and the append of a new entry with its bucket.\<close>

definition put_value :: "map_header \<Rightarrow> nat \<Rightarrow> Value \<Rightarrow> map_header" where
  "put_value m slot v = m\<lparr>entries := Some ((entryData m)[slot := (keyAt m slot, v)])\<rparr>"

definition append_entry :: "heap \<Rightarrow> map_header \<Rightarrow> Value \<Rightarrow> Value \<Rightarrow> map_header option" where
  "append_entry h m key v =
     (let slot = usedCount m;
          buckets = bucketsOf m;
          msk = bucketCountOf m - 1
      in case free_bucket (length buckets) buckets msk (unat (hashKey h key) AND msk) of
           None \<Rightarrow> None
         | Some b \<Rightarrow>
             Some (m\<lparr>entries := Some ((entryData m)[slot := (key, v)]),
                     usedCount := slot + 1,
                     liveCount := liveCount m + 1,
                     indexEpoch := (if indexEpoch m = kStableIndex \<and> keyMayMove h key then int (epoch h)
                                    else indexEpoch m),
                     index := Some (buckets[b := slot + 1])\<rparr>))"

definition map_set ::
  "collector \<Rightarrow> heap \<Rightarrow> ref \<Rightarrow> map_header \<Rightarrow> Value \<Rightarrow> Value \<Rightarrow> (heap \<times> map_header) option" where
  "map_set gc h self m key v =
     (case find gc h self m key of
        None \<Rightarrow> None
      | Some (h1, m1, Some existing) \<Rightarrow> Some (h1, put_value m1 existing v)
      | Some (h1, m1, None) \<Rightarrow>
          (case (if usedCount m1 \<ge> capacity m1 then growEntries gc h1 self m1 else Some (h1, m1)) of
             None \<Rightarrow> None
           | Some (h2, m2) \<Rightarrow>
               (case ensureIndex gc h2 self m2 of
                  None \<Rightarrow> None
                | Some (h3, m3) \<Rightarrow> map_option (\<lambda>m4. (h3, m4)) (append_entry h3 m3 key v))))"

definition map_remove ::
  "collector \<Rightarrow> heap \<Rightarrow> ref \<Rightarrow> map_header \<Rightarrow> Value \<Rightarrow> (heap \<times> map_header \<times> bool) option" where
  "map_remove gc h self m key =
     (case find gc h self m key of
        None \<Rightarrow> None
      | Some (h1, m1, None) \<Rightarrow> Some (h1, m1, False)
      | Some (h1, m1, Some slot) \<Rightarrow>
          Some (h1, m1\<lparr>entries := Some ((entryData m1)[slot := (fromHole, fromUndefined)]),
                       liveCount := liveCount m1 - 1\<rparr>, True))"

definition map_clear :: "map_header \<Rightarrow> map_header" where
  "map_clear m =
     m\<lparr>entries := map_option (\<lambda>es. replicate (usedCount m) (fromHole, fromUndefined) @ drop (usedCount m) es) (entries m),
       liveCount := 0, usedCount := 0, indexEpoch := - 1, indexAnchor := - 1\<rparr>"

section \<open>Table sizes\<close>

lemma double_until_ge: "0 < n \<Longrightarrow> target \<le> double_until n target"
  by (induction n target rule: double_until.induct) (subst double_until.simps, auto)

lemma double_until_power: "\<exists>k. double_until (2 ^ j) target = 2 ^ k"
proof (induction "2 ^ j :: nat" target arbitrary: j rule: double_until.induct)
  case (1 target)
  show ?case
  proof (cases "(2 :: nat) ^ j < target")
    case True
    have "(2 :: nat) ^ j * 2 = 2 ^ Suc j" by simp
    with 1 True obtain k where "double_until (2 ^ j * 2) target = 2 ^ k"
      by (metis zero_less_numeral zero_less_power)
    with True show ?thesis by (subst double_until.simps) auto
  next
    case False
    then show ?thesis by (subst double_until.simps) auto
  qed
qed

lemma double_until_bound: "0 < n \<Longrightarrow> double_until n target \<le> n \<or> double_until n target < 2 * target"
proof (induction n target rule: double_until.induct)
  case (1 n target)
  then show ?case
    by (cases "n < target") (auto simp: double_until.simps [of n target])
qed

lemma bucketCountFor_power: "\<exists>k. bucketCountFor cap = 2 ^ k"
  using double_until_power [of 3] by (simp add: bucketCountFor_def)

lemma double_until_mono: "n \<le> double_until n target"
  by (induction n target rule: double_until.induct) (subst double_until.simps, auto)

lemma bucketCountFor_ge: "2 * cap \<le> bucketCountFor cap" "8 \<le> bucketCountFor cap"
  using double_until_ge [of 8 "cap * 2"] double_until_mono [of 8 "cap * 2"]
  by (auto simp: bucketCountFor_def kBucketsPerSlot_def)

lemma bucketCountFor_pos [simp]: "0 < bucketCountFor cap"
  using bucketCountFor_ge(2) [of cap] by linarith

lemma and_mask_mod: "(x :: nat) AND (2 ^ k - 1) = x mod 2 ^ k"
  by (metis mask_eq_exp_minus_1 take_bit_eq_mask take_bit_eq_mod)

lemma and_count_mod: "\<exists>k. n = 2 ^ k \<Longrightarrow> (x :: nat) AND (n - 1) = x mod n"
  using and_mask_mod by auto

section \<open>Linear probing\<close>

text \<open>The bucket \<open>d\<close> steps after \<open>i\<close>.\<close>

definition nth_probe :: "nat list \<Rightarrow> nat \<Rightarrow> nat \<Rightarrow> nat" where
  "nth_probe bs i d = bs ! ((i + d) mod length bs)"

lemma nth_probe_Suc: "nth_probe bs ((i + 1) mod length bs) d = nth_probe bs i (Suc d)"
  by (simp add: nth_probe_def mod_add_left_eq flip: add.assoc)

lemma nth_probe_0: "i < length bs \<Longrightarrow> nth_probe bs i 0 = bs ! i"
  by (simp add: nth_probe_def)

lemma free_bucket_walk:
  assumes "\<exists>k. length bs = 2 ^ k" and "i < length bs" and "d < fuel"
    and "\<And>e. e < d \<Longrightarrow> nth_probe bs i e \<noteq> 0" and "nth_probe bs i d = 0"
  shows "free_bucket fuel bs (length bs - 1) i = Some ((i + d) mod length bs)"
  using assms(2-)
proof (induction d arbitrary: i fuel)
  case 0
  then show ?case by (cases fuel) (auto simp: nth_probe_0)
next
  case (Suc d)
  obtain f where f: "fuel = Suc f" using Suc.prems(2) by (cases fuel) auto
  have "bs ! i \<noteq> 0" using Suc.prems(1) Suc.prems(3) [of 0] by (simp add: nth_probe_0)
  moreover have "free_bucket f bs (length bs - 1) ((i + 1) mod length bs) = Some (((i + 1) mod length bs + d) mod length bs)"
    by (rule Suc.IH) (use Suc.prems f in \<open>auto simp: nth_probe_Suc simp del: One_nat_def intro: mod_less_divisor\<close>)
  ultimately show ?case
    unfolding f free_bucket.simps and_count_mod [OF assms(1)] by (simp add: mod_add_left_eq mod_Suc_eq)
qed

lemma probe_walk:
  assumes "\<exists>k. length bs = 2 ^ k" and "i < length bs" and "d < fuel"
    and "\<And>e. e < d \<Longrightarrow> nth_probe bs i e \<noteq> 0 \<and> \<not> hit (nth_probe bs i e - 1)"
    and "nth_probe bs i d = 0 \<or> hit (nth_probe bs i d - 1)"
  shows "probe fuel hit bs (length bs - 1) i =
           Some (if nth_probe bs i d = 0 then None else Some (nth_probe bs i d - 1))"
  using assms(2-)
proof (induction d arbitrary: i fuel)
  case 0
  then show ?case by (cases fuel) (auto simp: nth_probe_0 Let_def)
next
  case (Suc d)
  obtain f where f: "fuel = Suc f" using Suc.prems(2) by (cases fuel) auto
  have "bs ! i \<noteq> 0 \<and> \<not> hit (bs ! i - 1)"
    using Suc.prems(1) Suc.prems(3) [of 0] by (simp add: nth_probe_0)
  moreover have "probe f hit bs (length bs - 1) ((i + 1) mod length bs) =
      Some (if nth_probe bs ((i + 1) mod length bs) d = 0 then None
            else Some (nth_probe bs ((i + 1) mod length bs) d - 1))"
    by (rule Suc.IH) (use Suc.prems f in \<open>auto simp: nth_probe_Suc simp del: One_nat_def intro: mod_less_divisor\<close>)
  ultimately show ?case
    unfolding f probe.simps and_count_mod [OF assms(1)] nth_probe_Suc by (simp add: Let_def)
qed

text \<open>A table with a free bucket has one within \<open>length bs\<close> steps of any start.\<close>

lemma first_stop:
  assumes "i < length bs" and "j < length bs" and "P (bs ! j)"
  obtains d where "d < length bs" and "P (nth_probe bs i d)" and "\<And>e. e < d \<Longrightarrow> \<not> P (nth_probe bs i e)"
proof -
  let ?e = "(j + length bs - i) mod length bs"
  have "(i + ?e) mod length bs = j"
    using assms(1,2) by (simp add: mod_add_right_eq)
  then have ex: "P (nth_probe bs i ?e)" using assms(3) by (simp add: nth_probe_def)
  let ?d = "LEAST d. P (nth_probe bs i d)"
  have "?d \<le> ?e" using ex by (rule Least_le)
  moreover have "?e < length bs" using assms(1) by (intro mod_less_divisor) linarith
  ultimately have "?d < length bs" by linarith
  moreover have "P (nth_probe bs i ?d)" using ex by (rule LeastI)
  moreover have "\<not> P (nth_probe bs i e)" if "e < ?d" for e using that by (rule not_less_Least)
  ultimately show ?thesis by (rule that)
qed

definition used_buckets :: "nat list \<Rightarrow> nat" where
  "used_buckets bs = length (filter (\<lambda>x. x \<noteq> 0) bs)"

lemma free_exists: "used_buckets bs < length bs \<Longrightarrow> \<exists>j < length bs. bs ! j = 0"
  unfolding used_buckets_def by (metis (mono_tags, lifting) filter_True in_set_conv_nth less_irrefl)

lemma used_buckets_update:
  "b < length bs \<Longrightarrow> bs ! b = 0 \<Longrightarrow> x \<noteq> 0 \<Longrightarrow> used_buckets (bs[b := x]) = Suc (used_buckets bs)"
proof (induction bs arbitrary: b)
  case (Cons y ys)
  then show ?case by (cases b) (auto simp: used_buckets_def)
qed simp

lemma used_buckets_replicate [simp]: "used_buckets (replicate n 0) = 0"
  by (simp add: used_buckets_def)

text \<open>\<open>x\<close> can be reached from bucket \<open>i\<close> without crossing an empty bucket.\<close>

definition reachable_from :: "nat list \<Rightarrow> nat \<Rightarrow> nat \<Rightarrow> bool" where
  "reachable_from bs i x \<longleftrightarrow>
     (\<exists>d. d < length bs \<and> nth_probe bs i d = x \<and> (\<forall>e < d. nth_probe bs i e \<noteq> 0))"

lemma nth_probe_update:
  "b < length bs \<Longrightarrow> nth_probe (bs[b := x]) i d = (if (i + d) mod length bs = b then x else nth_probe bs i d)"
  by (auto simp: nth_probe_def nth_list_update)

lemma reachable_update:
  assumes "b < length bs" and "bs ! b = 0" and "x \<noteq> 0" and "reachable_from bs i y" and "y \<noteq> 0"
  shows "reachable_from (bs[b := x]) i y"
proof -
  obtain d where d: "d < length bs" "nth_probe bs i d = y" "\<forall>e < d. nth_probe bs i e \<noteq> 0"
    using assms(4) by (auto simp: reachable_from_def)
  have "(i + d) mod length bs \<noteq> b" using d(2) assms(2,5) by (auto simp: nth_probe_def)
  with d show ?thesis
    using assms(1,3) unfolding reachable_from_def by (intro exI [of _ d]) (auto simp: nth_probe_update)
qed

text \<open>What placing an entry does: it finds a free bucket, from which the entry is reachable.\<close>

lemma free_bucket_places:
  assumes pow: "\<exists>k. length bs = 2 ^ k" and i: "i < length bs" and "used_buckets bs < length bs" and "x \<noteq> 0"
  obtains b where "free_bucket (length bs) bs (length bs - 1) i = Some b" and "b < length bs" and "bs ! b = 0"
    and "reachable_from (bs[b := x]) i x"
proof -
  obtain j where "j < length bs" "bs ! j = 0" using free_exists assms(3) by blast
  with i obtain d where d: "d < length bs" "nth_probe bs i d = 0" "\<And>e. e < d \<Longrightarrow> nth_probe bs i e \<noteq> 0"
    by (rule first_stop [where P = "\<lambda>x. x = 0"]) auto
  let ?b = "(i + d) mod length bs"
  have b: "?b < length bs" using i by (intro mod_less_divisor) linarith
  have "reachable_from (bs[?b := x]) i x"
    unfolding reachable_from_def using d b \<open>x \<noteq> 0\<close> by (intro exI [of _ d]) (auto simp: nth_probe_update)
  then show ?thesis
    using that [of ?b] free_bucket_walk [OF pow i d(1) d(3) d(2)] b d(2) by (simp add: nth_probe_def)
qed

text \<open>What a probe answers: the entry \<open>hit\<close> accepts when it is reachable from the start and no other
  entry of the table is accepted, and \<open>UINT32_MAX\<close> when none is accepted.\<close>

lemma probe_hit:
  assumes "\<exists>k. length bs = 2 ^ k" and "i < length bs" and "reachable_from bs i (Suc s)" and "hit s"
    and "\<And>t. Suc t \<in> set bs \<Longrightarrow> hit t \<Longrightarrow> t = s"
  shows "probe (length bs) hit bs (length bs - 1) i = Some (Some s)"
proof -
  obtain d where d: "d < length bs" "nth_probe bs i d = Suc s" "\<And>e. e < d \<Longrightarrow> nth_probe bs i e \<noteq> 0"
    using assms(3) by (auto simp: reachable_from_def)
  have mem: "nth_probe bs i e \<in> set bs" for e
    using assms(2) by (auto simp: nth_probe_def intro!: nth_mem mod_less_divisor)
  have only: "nth_probe bs i e = Suc s" if "e \<le> d" "hit (nth_probe bs i e - 1)" for e
  proof -
    have "nth_probe bs i e \<noteq> 0" using d(2,3) that(1) by (cases "e = d") auto
    then show ?thesis using assms(5) that(2) mem [of e] by (cases "nth_probe bs i e") auto
  qed
  let ?P = "\<lambda>e. e \<le> d \<and> hit (nth_probe bs i e - 1)"
  define f where "f = (LEAST e. ?P e)"
  have "?P d" using d(2) assms(4) by simp
  then have "?P f" unfolding f_def by (rule LeastI)
  moreover have "\<not> ?P e" if "e < f" for e using that unfolding f_def by (rule not_less_Least)
  ultimately have "probe (length bs) hit bs (length bs - 1) i = Some (if nth_probe bs i f = 0 then None else Some (nth_probe bs i f - 1))"
    using d by (intro probe_walk assms(1,2)) auto
  then show ?thesis using only [of f] \<open>?P f\<close> by simp
qed

lemma probe_miss:
  assumes "\<exists>k. length bs = 2 ^ k" and i: "i < length bs" and "used_buckets bs < length bs"
    and none: "\<And>t. Suc t \<in> set bs \<Longrightarrow> \<not> hit t"
  shows "probe (length bs) hit bs (length bs - 1) i = Some None"
proof -
  obtain j where "j < length bs" "bs ! j = 0" using free_exists assms(3) by blast
  with i obtain d where d: "d < length bs" "nth_probe bs i d = 0" "\<And>e. e < d \<Longrightarrow> nth_probe bs i e \<noteq> 0"
    by (rule first_stop [where P = "\<lambda>x. x = 0"]) auto
  have "\<not> hit (nth_probe bs i e - 1)" if "e < d" for e
  proof -
    have "nth_probe bs i e \<in> set bs"
      using i by (auto simp: nth_probe_def intro!: nth_mem mod_less_divisor)
    then show ?thesis using none [of "nth_probe bs i e - 1"] d(3) [OF that] by simp
  qed
  then have "probe (length bs) hit bs (length bs - 1) i = Some (if nth_probe bs i d = 0 then None else Some (nth_probe bs i d - 1))"
    using d by (intro probe_walk assms(1) i) auto
  then show ?thesis using d(2) by simp
qed

end
