(* ===== verification/Map_Index.thy ===== *)
theory Map_Index
  imports Map_Table
begin

text \<open>
  The invariant of the hash table and what \<open>reindex\<close>, \<open>ensureIndex\<close>, \<open>growEntries\<close> and the lookups do
  under it: every loop ends, every live entry is reachable from the bucket its key hashes to while
  the index is current, and a collection keeps the invariant.
\<close>

section \<open>Collections and the invariant\<close>

text \<open>
  What \<open>heap.h\<close> documents of a collection: objects stay apart, an object that may not move stays where
  it is and never becomes movable again, and the relocation epoch advances whenever an object moves.
\<close>

definition collected :: "heap \<Rightarrow> heap \<Rightarrow> bool" where
  "collected h h' \<longleftrightarrow>
     heap_wf h' \<and> epoch h \<le> epoch h' \<and>
     (\<forall>r. \<not> movable h r \<longrightarrow> addr h' r = addr h r \<and> \<not> movable h' r) \<and>
     (epoch h' = epoch h \<longrightarrow> addr h' = addr h)"

definition collector_ok :: "collector \<Rightarrow> bool" where
  "collector_ok gc \<longleftrightarrow> (\<forall>h. heap_wf h \<longrightarrow> collected h (gc h))"

definition map_slots :: "map_header \<Rightarrow> (Value \<times> Value) list" where
  "map_slots m = take (usedCount m) (entryData m)"

definition live_entries :: "map_header \<Rightarrow> (Value \<times> Value) list" where
  "live_entries m = filter (\<lambda>e. \<not> isHole (fst e)) (map_slots m)"

definition apart :: "Value \<times> Value \<Rightarrow> Value \<times> Value \<Rightarrow> bool" where
  "apart a b \<longleftrightarrow> isHole (fst a) \<or> isHole (fst b) \<or> \<not> same_key (fst a) (fst b)"

definition slots_inv :: "map_header \<Rightarrow> bool" where
  "slots_inv m \<longleftrightarrow>
     usedCount m \<le> capacity m \<and> (\<forall>e \<in> set (map_slots m). wf_value (fst e)) \<and> sorted_wrt apart (map_slots m)"

definition home :: "heap \<Rightarrow> Value \<Rightarrow> nat list \<Rightarrow> nat" where
  "home h key bs = unat (hashKey h key) mod length bs"

definition indexed :: "heap \<Rightarrow> map_header \<Rightarrow> nat list \<Rightarrow> bool" where
  "indexed h m bs \<longleftrightarrow>
     length bs = bucketCountFor (capacity m) \<and> (\<forall>x \<in> set bs. x \<le> usedCount m) \<and>
     used_buckets bs \<le> usedCount m \<and>
     (\<forall>s < usedCount m. liveAt m s \<longrightarrow> reachable_from bs (home h (keyAt m s) bs) (Suc s))"

definition index_inv :: "heap \<Rightarrow> map_header \<Rightarrow> bool" where
  "index_inv h m \<longleftrightarrow>
     indexEpoch m \<le> int (epoch h) \<and>
     (\<forall>bs. index m = Some bs \<longrightarrow> epochCurrent h m \<longrightarrow> indexed h m bs) \<and>
     (index m \<noteq> None \<longrightarrow> indexEpoch m = kStableIndex \<longrightarrow>
       (\<forall>s < usedCount m. liveAt m s \<longrightarrow> \<not> keyMayMove h (keyAt m s)))"

definition table_inv :: "heap \<Rightarrow> map_header \<Rightarrow> bool" where
  "table_inv h m \<longleftrightarrow>
     heap_wf h \<and> slots_inv m \<and> liveCount m = length (live_entries m) \<and> index_inv h m"

text \<open>A key a program can pass: any value but the hole.\<close>

definition key_ok :: "Value \<Rightarrow> bool" where
  "key_ok key \<longleftrightarrow> wf_value key \<and> \<not> isHole key"

definition index_current :: "heap \<Rightarrow> map_header \<Rightarrow> bool" where
  "index_current h m \<longleftrightarrow> index m \<noteq> None \<and> epochCurrent h m"

lemma collected_refl: "heap_wf h \<Longrightarrow> collected h h"
  by (simp add: collected_def)

lemma collected_trans: "collected a b \<Longrightarrow> collected b c \<Longrightarrow> collected a c"
  by (auto simp: collected_def)

lemma collected_wf: "collected h h' \<Longrightarrow> heap_wf h'"
  by (simp add: collected_def)

lemma collector_okD: "collector_ok gc \<Longrightarrow> heap_wf h \<Longrightarrow> collected h (gc h)"
  by (simp add: collector_ok_def)

lemma stable_hash: "collected h h' \<Longrightarrow> \<not> keyMayMove h key \<Longrightarrow> hashKey h' key = hashKey h key"
  by (rule hashKey_cong) (auto simp: keyMayMove_iff collected_def)

lemma same_epoch_hash: "collected h h' \<Longrightarrow> epoch h' = epoch h \<Longrightarrow> hashKey h' key = hashKey h key"
  by (rule hashKey_cong) (auto simp: collected_def)

lemma stays_put: "collected h h' \<Longrightarrow> \<not> keyMayMove h key \<Longrightarrow> \<not> keyMayMove h' key"
  by (auto simp: keyMayMove_iff collected_def)

lemma indexed_rehash:
  assumes "indexed h m bs" and "\<And>s. s < usedCount m \<Longrightarrow> liveAt m s \<Longrightarrow> hashKey h' (keyAt m s) = hashKey h (keyAt m s)"
  shows "indexed h' m bs"
  using assms by (auto simp: indexed_def home_def)

text \<open>A collection between two operations leaves the table correct.\<close>

lemma index_inv_collected:
  assumes inv: "index_inv h m" and c: "collected h h'"
  shows "index_inv h' m"
proof -
  have le: "epoch h \<le> epoch h'" using c by (simp add: collected_def)
  have "indexed h' m bs" if bs: "index m = Some bs" and cur: "epochCurrent h' m" for bs
  proof (cases "indexEpoch m = kStableIndex")
    case True
    with inv bs have "indexed h m bs" and "\<And>s. s < usedCount m \<Longrightarrow> liveAt m s \<Longrightarrow> \<not> keyMayMove h (keyAt m s)"
      by (auto simp: index_inv_def epochCurrent_def)
    then show ?thesis using stable_hash [OF c] by (blast intro: indexed_rehash)
  next
    case False
    with cur inv le have "epoch h' = epoch h" and "epochCurrent h m"
      by (auto simp: epochCurrent_def index_inv_def)
    with inv bs show ?thesis using same_epoch_hash [OF c] by (auto simp: index_inv_def intro: indexed_rehash)
  qed
  then show ?thesis using inv le stays_put [OF c] by (auto simp: index_inv_def)
qed

lemma table_inv_collected: "table_inv h m \<Longrightarrow> collected h h' \<Longrightarrow> table_inv h' m"
  by (auto simp: table_inv_def collected_wf index_inv_collected)

lemma table_inv_create: "heap_wf h \<Longrightarrow> table_inv h create"
  by (simp add: table_inv_def create_def slots_inv_def index_inv_def map_slots_def live_entries_def entryData_def)

section \<open>Slots\<close>

lemma length_entryData: "length (entryData m) = capacity m"
  by (simp add: entryData_def capacity_def split: option.split)

lemma length_slots: "slots_inv m \<Longrightarrow> length (map_slots m) = usedCount m"
  by (simp add: slots_inv_def map_slots_def length_entryData)

lemma slot_nth: "s < usedCount m \<Longrightarrow> map_slots m ! s = entryData m ! s"
  by (simp add: map_slots_def)

lemma keyAt_slot: "s < usedCount m \<Longrightarrow> keyAt m s = fst (map_slots m ! s)"
  by (simp add: keyAt_def slot_nth)

lemma wf_keyAt: "slots_inv m \<Longrightarrow> s < usedCount m \<Longrightarrow> wf_value (keyAt m s)"
  by (metis keyAt_slot length_slots nth_mem slots_inv_def)

lemma liveAt_cong: "entries m' = entries m \<Longrightarrow> liveAt m' = liveAt m" "entries m' = entries m \<Longrightarrow> keyAt m' = keyAt m"
  by (auto simp: fun_eq_iff liveAt_def keyAt_def entryData_def)

lemma live_unique:
  assumes "slots_inv m" and "s < usedCount m" and "t < usedCount m" and "liveAt m s" and "liveAt m t"
    and "same_key (keyAt m s) (keyAt m t)"
  shows "s = t"
proof (rule ccontr)
  assume ne: "s \<noteq> t"
  have "apart (map_slots m ! a) (map_slots m ! b)" if "a < b" "b < usedCount m" for a b
    using assms(1) that length_slots [OF assms(1)] by (simp add: slots_inv_def sorted_wrt_iff_nth_less)
  with ne have "apart (map_slots m ! s) (map_slots m ! t) \<or> apart (map_slots m ! t) (map_slots m ! s)"
    using assms(2,3) by (cases "s < t") auto
  then show False
    using assms(2-) same_key_sym by (auto simp: apart_def liveAt_def keyAt_slot)
qed

lemma filter_index: "n \<le> length xs \<Longrightarrow> filter P (take n xs) = map ((!) xs) (filter (\<lambda>i. P (xs ! i)) [0..<n])"
proof (induction n)
  case (Suc n)
  then show ?case by (simp add: take_Suc_conv_app_nth)
qed simp

lemma live_entries_index:
  assumes "usedCount m \<le> capacity m"
  shows "live_entries m = map ((!) (entryData m)) (filter (liveAt m) [0..<usedCount m])"
proof -
  have "liveAt m = (\<lambda>i. \<not> isHole (fst (entryData m ! i)))"
    by (simp add: fun_eq_iff liveAt_def keyAt_def)
  with assms show ?thesis by (simp add: live_entries_def map_slots_def length_entryData filter_index)
qed

lemma count_live: "usedCount m \<le> capacity m \<Longrightarrow> length (filter (liveAt m) [0..<usedCount m]) = length (live_entries m)"
  by (simp add: live_entries_index)

lemma in_live_entries:
  assumes "slots_inv m"
  shows "e \<in> set (live_entries m) \<longleftrightarrow> (\<exists>s < usedCount m. liveAt m s \<and> e = entryData m ! s)"
  using assms by (auto simp: live_entries_index slots_inv_def)

section \<open>Rebuilding the index\<close>

definition reindexed :: "heap \<Rightarrow> map_header \<Rightarrow> nat list \<Rightarrow> nat list \<Rightarrow> nat list \<Rightarrow> bool" where
  "reindexed h m slots bs bs' \<longleftrightarrow>
     length bs' = length bs \<and> set bs' \<subseteq> set bs \<union> Suc ` set slots \<and>
     used_buckets bs' \<le> used_buckets bs + length slots \<and>
     (\<forall>s \<in> set slots. liveAt m s \<longrightarrow> reachable_from bs' (home h (keyAt m s) bs') (Suc s)) \<and>
     (\<forall>i y. y \<noteq> 0 \<longrightarrow> reachable_from bs i y \<longrightarrow> reachable_from bs' i y)"

lemma reindexed_skip: "\<not> liveAt m s \<Longrightarrow> reindexed h m slots bs bs' \<Longrightarrow> reindexed h m (s # slots) bs bs'"
  by (auto simp: reindexed_def)

lemma reindexed_place:
  assumes b: "b < length bs" "bs ! b = 0" and reach: "reachable_from (bs[b := Suc s]) (home h (keyAt m s) bs) (Suc s)"
    and rest: "reindexed h m slots (bs[b := Suc s]) bs'"
  shows "reindexed h m (s # slots) bs bs'"
proof -
  have "set (bs[b := Suc s]) \<subseteq> insert (Suc s) (set bs)" by (rule set_update_subset_insert)
  moreover have "used_buckets (bs[b := Suc s]) = Suc (used_buckets bs)" using b by (simp add: used_buckets_update)
  moreover have "length bs' = length bs" using rest by (simp add: reindexed_def)
  then have "reachable_from bs' (home h (keyAt m s) bs') (Suc s)"
    using rest reach by (auto simp: reindexed_def home_def)
  moreover have "reachable_from bs' i y" if "y \<noteq> 0" "reachable_from bs i y" for i y
    using rest reachable_update [OF b _ that(2,1)] that(1) by (simp add: reindexed_def)
  ultimately show ?thesis using rest by (auto simp: reindexed_def)
qed

lemma reindex_loop_correct:
  assumes "\<exists>k. length bs = 2 ^ k" and "used_buckets bs + length slots < length bs"
  shows "\<exists>bs'. reindex_loop h m (length bs - 1) slots (bs, moves, live) =
           Some (bs', moves \<or> (\<exists>s \<in> set slots. liveAt m s \<and> keyMayMove h (keyAt m s)),
                 live + length (filter (liveAt m) slots)) \<and> reindexed h m slots bs bs'"
  using assms
proof (induction slots arbitrary: bs moves live)
  case Nil
  then show ?case by (simp add: reindexed_def)
next
  case (Cons s slots)
  show ?case
  proof (cases "liveAt m s")
    case False
    have "used_buckets bs + length slots < length bs" using Cons.prems(2) by simp
    from Cons.IH [OF Cons.prems(1) this, of moves live] show ?thesis
      using False reindexed_skip [OF False] by auto
  next
    case True
    let ?i = "unat (hashKey h (keyAt m s)) AND (length bs - 1)"
    have i: "?i = home h (keyAt m s) bs" unfolding home_def by (rule and_count_mod [OF Cons.prems(1)])
    have "home h (keyAt m s) bs < length bs"
      unfolding home_def by (rule mod_less_divisor) (use Cons.prems(2) in linarith)
    then obtain b where b: "free_bucket (length bs) bs (length bs - 1) (home h (keyAt m s) bs) = Some b"
        "b < length bs" "bs ! b = 0" "reachable_from (bs[b := Suc s]) (home h (keyAt m s) bs) (Suc s)"
      by (rule free_bucket_places [OF Cons.prems(1), where x = "Suc s"]) (use Cons.prems(2) in auto)
    have pre: "\<exists>k. length (bs[b := Suc s]) = 2 ^ k" "used_buckets (bs[b := Suc s]) + length slots < length (bs[b := Suc s])"
      using Cons.prems b(2,3) by (auto simp: used_buckets_update)
    from Cons.IH [OF pre, of "moves \<or> keyMayMove h (keyAt m s)" "live + 1"] reindexed_place [OF b(2-4)]
    show ?thesis using True b(1) by (auto simp: i [unfolded One_nat_def] Let_def)
  qed
qed

lemma reindex_correct:
  assumes wf: "heap_wf h" and gc: "collector_ok gc" and inv: "slots_inv m"
  shows "\<exists>h' m'. reindex gc h self m = Some (h', m') \<and> collected h h' \<and> table_inv h' m' \<and> index_current h' m' \<and>
           entries m' = entries m \<and> usedCount m' = usedCount m"
proof -
  let ?n = "bucketCountFor (capacity m)"
  define h' where "h' = (if bucketCountOf m \<noteq> ?n then gc h else h)"
  have c: "collected h h'" using gc wf by (simp add: h'_def collector_okD collected_refl)
  have used: "usedCount m \<le> capacity m" using inv by (simp add: slots_inv_def)
  let ?mv = "\<exists>s \<in> {0..<usedCount m}. liveAt m s \<and> keyMayMove h' (keyAt m s)"
  have room: "usedCount m < ?n"
    using used bucketCountFor_ge [of "capacity m"] by linarith
  have pow: "\<exists>k. length (replicate ?n (0 :: nat)) = 2 ^ k" by (simp add: bucketCountFor_power)
  have fit: "used_buckets (replicate ?n 0) + length [0..<usedCount m] < length (replicate ?n (0 :: nat))"
    using room by simp
  obtain bs where loop0: "reindex_loop h' m (?n - 1) [0..<usedCount m] (replicate ?n 0, False, 0) =
        Some (bs, False \<or> ?mv, 0 + length (filter (liveAt m) [0..<usedCount m]))"
      and r: "reindexed h' m [0..<usedCount m] (replicate ?n 0) bs"
    using reindex_loop_correct [OF pow fit, of h' m False 0] unfolding length_replicate set_upt by blast
  have loop: "reindex_loop h' m (?n - 1) [0..<usedCount m] (replicate ?n 0, False, 0) =
      Some (bs, ?mv, length (live_entries m))"
    unfolding loop0 count_live [OF used] by simp
  define m' where "m' = m\<lparr>index := Some bs, liveCount := length (live_entries m),
      indexEpoch := (if ?mv then int (epoch h') else kStableIndex), indexAnchor := selfAddress h' self\<rparr>"
  have same: "entryData m' = entryData m" "capacity m' = capacity m" "map_slots m' = map_slots m"
      "usedCount m' = usedCount m" "keyAt m' = keyAt m" "liveAt m' = liveAt m" "live_entries m' = live_entries m"
    by (auto simp: m'_def entryData_def capacity_def map_slots_def live_entries_def keyAt_def liveAt_def fun_eq_iff)
  have "length bs = ?n" "used_buckets bs \<le> usedCount m" "set bs \<subseteq> insert 0 (Suc ` {0..<usedCount m})"
      "\<forall>s < usedCount m. liveAt m s \<longrightarrow> reachable_from bs (home h' (keyAt m s) bs) (Suc s)"
    using r by (auto simp: reindexed_def)
  then have "indexed h' m' bs"
    unfolding indexed_def same by fastforce
  moreover have "indexEpoch m' \<le> int (epoch h')" "index m' = Some bs" "liveCount m' = length (live_entries m)"
    by (simp_all add: m'_def kStableIndex_def)
  moreover have "\<not> ?mv" if "indexEpoch m' = kStableIndex"
    using that by (auto simp: m'_def kStableIndex_def split: if_splits)
  ultimately have "index_inv h' m'" and "liveCount m' = length (live_entries m')"
    unfolding index_inv_def same by auto
  then have "table_inv h' m'"
    using collected_wf [OF c] inv by (simp add: table_inv_def slots_inv_def same)
  moreover have "reindex gc h self m = Some (h', m')"
    unfolding reindex_def Let_def h'_def [symmetric] loop m'_def by simp
  moreover have "index_current h' m'"
    by (simp add: index_current_def epochCurrent_def m'_def)
  ultimately show ?thesis using c by (auto simp: m'_def)
qed

lemma ensureIndex_correct:
  assumes "collector_ok gc" and "table_inv h m"
  shows "\<exists>h' m'. ensureIndex gc h self m = Some (h', m') \<and> collected h h' \<and> table_inv h' m' \<and> index_current h' m' \<and>
           entries m' = entries m \<and> usedCount m' = usedCount m"
  using reindex_correct [OF _ assms(1)] assms(2) collected_refl
  by (auto simp: ensureIndex_def table_inv_def index_current_def)

section \<open>Growth\<close>

lemma growEntries_correct:
  assumes gc: "collector_ok gc" and inv: "table_inv h m"
  shows "\<exists>h' m'. growEntries gc h self m = Some (h', m') \<and> collected h h' \<and> table_inv h' m' \<and> index_current h' m' \<and>
           live_entries m' = live_entries m \<and> map_slots m' = live_entries m \<and> usedCount m' = length (live_entries m) \<and>
           capacity m' = double_until kInitialCapacity ((length (live_entries m) + 1) * 2)"
proof -
  let ?l = "live_entries m" and ?cap = "double_until kInitialCapacity ((length (live_entries m) + 1) * 2)"
  have sl: "slots_inv m" and wf: "heap_wf h" using inv by (simp_all add: table_inv_def)
  have cg: "collected h (gc h)" using gc wf by (rule collector_okD)
  have room: "length ?l < ?cap"
    using double_until_ge [of kInitialCapacity "(length ?l + 1) * 2"] by (simp add: kInitialCapacity_def)
  let ?es = "?l @ drop (length ?l) (replicate ?cap (fromUndefined, fromUndefined))"
  define m1 where "m1 = m\<lparr>entries := Some ?es, usedCount := length ?l, liveCount := length ?l\<rparr>"
  have m1: "map_slots m1 = ?l" "capacity m1 = ?cap" "usedCount m1 = length ?l" "live_entries m1 = ?l"
    using room by (simp_all add: m1_def map_slots_def entryData_def capacity_def live_entries_def)
  have "sorted_wrt apart ?l" "\<forall>e \<in> set ?l. wf_value (fst e)"
    using sl by (auto simp: slots_inv_def live_entries_def intro: sorted_wrt_filter)
  with room have "slots_inv m1" by (simp add: slots_inv_def m1)
  from reindex_correct [OF collected_wf [OF cg] gc this]
  obtain h' m' where r: "reindex gc (gc h) self m1 = Some (h', m')" "collected (gc h) h'" "table_inv h' m'"
      "index_current h' m'" "entries m' = entries m1" "usedCount m' = usedCount m1" by blast
  have "growEntries gc h self m = Some (h', m')"
    using r(1) count_live [of m] sl
    by (simp add: growEntries_def Let_def m1_def slots_inv_def live_entries_def map_slots_def)
  moreover have "live_entries m' = live_entries m1" "map_slots m' = map_slots m1" "capacity m' = capacity m1"
    using r(5,6) by (simp_all add: live_entries_def map_slots_def entryData_def capacity_def)
  ultimately show ?thesis
    using r m1 collected_trans [OF cg r(2)] by auto
qed

section \<open>Lookups\<close>

text \<open>What a lookup means: the live slot whose key is the same, or that there is none.\<close>

definition slot_answer :: "map_header \<Rightarrow> Value \<Rightarrow> nat option \<Rightarrow> bool" where
  "slot_answer m key r =
     (case r of
        None \<Rightarrow> \<forall>s < usedCount m. liveAt m s \<longrightarrow> \<not> same_key (keyAt m s) key
      | Some s \<Rightarrow> s < usedCount m \<and> liveAt m s \<and> same_key (keyAt m s) key)"

lemma slot_answer_unique:
  assumes "slots_inv m" and "slot_answer m key r" and "slot_answer m key q"
  shows "r = q"
proof -
  have "s = t" if "s < usedCount m" "t < usedCount m" "liveAt m s" "liveAt m t" "same_key (keyAt m s) key"
      "same_key (keyAt m t) key" for s t
    using live_unique [OF assms(1) that(1-4)] that(5,6) same_key_sym same_key_trans by blast
  with assms(2,3) show ?thesis by (cases r; cases q) (auto simp: slot_answer_def)
qed

lemma slot_answer_exists: "\<exists>r. slot_answer m key r"
proof (cases "\<exists>s < usedCount m. liveAt m s \<and> same_key (keyAt m s) key")
  case True
  then obtain s where "slot_answer m key (Some s)" by (auto simp: slot_answer_def)
  then show ?thesis ..
next
  case False
  then have "slot_answer m key None" by (auto simp: slot_answer_def)
  then show ?thesis ..
qed

lemma index_probe:
  assumes inv: "table_inv h m" and cur: "index_current h m" and key: "key_ok key"
    and hit: "\<And>s. s < usedCount m \<Longrightarrow> hit s \<longleftrightarrow> liveAt m s \<and> same_key (keyAt m s) key"
    and ans: "slot_answer m key r"
  shows "probe (bucketCountOf m) hit (bucketsOf m) (bucketCountOf m - 1) (unat (hashKey h key) AND (bucketCountOf m - 1)) = Some r"
proof -
  obtain bs where bs: "index m = Some bs" using cur by (auto simp: index_current_def)
  have ix: "indexed h m bs" using inv cur bs by (auto simp: table_inv_def index_inv_def index_current_def)
  have sl: "slots_inv m" using inv by (simp add: table_inv_def)
  have len: "length bs = bucketCountFor (capacity m)" using ix by (simp add: indexed_def)
  have pow: "\<exists>k. length bs = 2 ^ k" using len bucketCountFor_power by simp
  have pos: "0 < length bs" using len by simp
  have i: "home h key bs < length bs" unfolding home_def using pos by (rule mod_less_divisor)
  have slot: "t < usedCount m" if "Suc t \<in> set bs" for t using ix that by (auto simp: indexed_def)
  have free: "used_buckets bs < length bs"
  proof -
    have "used_buckets bs \<le> capacity m" using ix sl by (auto simp: indexed_def slots_inv_def)
    then show ?thesis using bucketCountFor_ge(1) [of "capacity m"] pos len by linarith
  qed
  have "probe (length bs) hit bs (length bs - 1) (home h key bs) = Some r"
  proof (cases r)
    case None
    have "\<not> hit t" if "Suc t \<in> set bs" for t using ans None hit [OF slot [OF that]] slot [OF that] by (auto simp: slot_answer_def)
    then show ?thesis unfolding None by (rule probe_miss [OF pow i free])
  next
    case (Some s)
    then have s: "s < usedCount m" "liveAt m s" "same_key (keyAt m s) key" using ans by (auto simp: slot_answer_def)
    have "home h (keyAt m s) bs = home h key bs"
      using hashKey_same_key [OF s(3)] wf_keyAt [OF sl s(1)] key by (simp add: home_def key_ok_def)
    then have "reachable_from bs (home h key bs) (Suc s)" using ix s by (auto simp: indexed_def)
    moreover have "t = s" if "Suc t \<in> set bs" "hit t" for t
      using live_unique [OF sl slot [OF that(1)] s(1)] that(2) hit [OF slot [OF that(1)]] s same_key_sym same_key_trans by blast
    ultimately show ?thesis unfolding Some using hit [OF s(1)] s by (intro probe_hit [OF pow i]) auto
  qed
  then show ?thesis
    by (simp add: bucketCountOf_def bucketsOf_def bs home_def and_count_mod [OF pow, unfolded One_nat_def])
qed

lemma bucketCountOf_pos: "table_inv h m \<Longrightarrow> index_current h m \<Longrightarrow> 0 < bucketCountOf m"
  by (auto simp: table_inv_def index_inv_def index_current_def indexed_def bucketCountOf_def)

lemma hit_same_key:
  "table_inv h m \<Longrightarrow> key_ok key \<Longrightarrow> s < usedCount m \<Longrightarrow>
     (liveAt m s \<and> sameValueZero h (keyAt m s) key) = (liveAt m s \<and> same_key (keyAt m s) key)"
  by (auto simp: table_inv_def key_ok_def sameValueZero_iff wf_keyAt)

lemma no_live_answer:
  assumes "table_inv h m" and "liveCount m = 0" shows "slot_answer m key None"
proof -
  have "live_entries m = []" using assms by (simp add: table_inv_def)
  then have "\<not> liveAt m s" if "s < usedCount m" for s
    using in_live_entries [of m "entryData m ! s"] assms(1) that by (auto simp: table_inv_def)
  then show ?thesis by (auto simp: slot_answer_def)
qed

lemma slot_answer_cong:
  "entries m' = entries m \<Longrightarrow> usedCount m' = usedCount m \<Longrightarrow> slot_answer m' key r = slot_answer m key r"
  using liveAt_cong [of m' m] by (simp add: slot_answer_def split: option.split)

lemma live_entries_cong:
  "entries m' = entries m \<Longrightarrow> usedCount m' = usedCount m \<Longrightarrow> live_entries m' = live_entries m"
  by (simp add: live_entries_def map_slots_def entryData_def)

lemma find_correct:
  assumes gc: "collector_ok gc" and inv: "table_inv h m" and key: "key_ok key" and ans: "slot_answer m key r"
  shows "\<exists>h' m'. find gc h self m key = Some (h', m', r) \<and> collected h h' \<and> table_inv h' m' \<and>
           entries m' = entries m \<and> usedCount m' = usedCount m"
proof (cases "liveCount m = 0")
  case True
  have "r = None"
    using slot_answer_unique [OF _ ans no_live_answer [OF inv True]] inv by (simp add: table_inv_def)
  then show ?thesis using True inv collected_refl by (simp add: find_def table_inv_def)
next
  case False
  from ensureIndex_correct [OF gc inv] obtain h' m' where e: "ensureIndex gc h self m = Some (h', m')"
      "collected h h'" "table_inv h' m'" "index_current h' m'" "entries m' = entries m" "usedCount m' = usedCount m"
    by blast
  have "slot_answer m' key r" using ans slot_answer_cong [OF e(5,6)] by simp
  with index_probe [OF e(3,4) key hit_same_key [OF e(3) key]] bucketCountOf_pos [OF e(3,4)]
  have "find gc h self m key = Some (h', m', r)"
    using False e(1) by (simp add: find_def Let_def)
  with e show ?thesis by blast
qed

lemma findFast_answer:
  assumes inv: "table_inv h m" and key: "key_ok key" and ans: "slot_answer m key r"
    and "liveCount m \<noteq> 0" and "index m \<noteq> None" and "epochCurrent h m" and "indexAnchor m = selfAddress h self"
  shows "findFast h self m key = Some (Answer r)"
proof -
  have cur: "index_current h m" using assms by (simp add: index_current_def)
  show ?thesis
    using index_probe [OF inv cur key hit_same_key [OF inv key] ans] bucketCountOf_pos [OF inv cur] assms(4-)
    by (simp add: findFast_def Let_def)
qed

text \<open>For an object or symbol key, equal bits are the same key and a tombstone has other bits.\<close>

lemma identity_hit:
  assumes inv: "table_inv h m" and key: "key_ok key" and id: "ref_of key \<noteq> None" and s: "s < usedCount m"
  shows "rawBits h (keyAt m s) = rawBits h key \<longleftrightarrow> liveAt m s \<and> same_key (keyAt m s) key"
proof -
  have wf: "wf_value (keyAt m s)" "wf_value key" "heap_wf h"
    using inv key s by (auto simp: table_inv_def key_ok_def wf_keyAt)
  have "rawBits h (keyAt m s) = rawBits h key \<longleftrightarrow> same_key (keyAt m s) key"
  proof (cases "kind_of (keyAt m s) = kind_of key")
    case True
    then show ?thesis using wf id
      by (cases "keyAt m s"; cases key) (auto simp: fromTagAndPayload_eq_iff addr_eq_iff)
  next
    case False
    then show ?thesis using rawBits_kind [OF wf(1,2)] same_key_kind by blast
  qed
  moreover have "same_key (keyAt m s) key \<longrightarrow> liveAt m s"
    using id by (cases "keyAt m s"; cases key) (auto simp: liveAt_def)
  ultimately show ?thesis by blast
qed

lemma hashKey_identity: "ref_of key \<noteq> None \<Longrightarrow> hashKey h key = mix64 (rawBits h key)"
  by (cases key) (auto simp: hashKey_def)

lemma findFastIdentity_eq:
  assumes inv: "table_inv h m" and key: "key_ok key" and id: "ref_of key \<noteq> None"
  shows "findFastIdentity h self m key = findFast h self m key"
proof (cases "liveCount m \<noteq> 0 \<and> index m \<noteq> None \<and> epochCurrent h m \<and> indexAnchor m = selfAddress h self")
  case True
  obtain r where ans: "slot_answer m key r" using slot_answer_exists by blast
  have cur: "index_current h m" using True by (simp add: index_current_def)
  show ?thesis
    using index_probe [OF inv cur key identity_hit [OF inv key id] ans] bucketCountOf_pos [OF inv cur] True
      findFast_answer [OF inv key ans]
    by (simp add: findFastIdentity_def Let_def hashKey_identity [OF id])
next
  case False
  then show ?thesis by (auto simp: findFastIdentity_def findFast_def)
qed

end
