(* ===== verification/Map_Refinement.thy ===== *)
theory Map_Refinement
  imports Map_Index
begin

text \<open>
  The table as an insertion-ordered map. The abstract map is an association list with one entry per
  key; the locale \<open>ordered_map\<close> states what an implementation promises against it and derives what
  its clients use. The hash table of \<open>map.cpp\<close> interprets it, for any collector that keeps the
  contract of \<open>heap.h\<close>.
\<close>

section \<open>The abstract map\<close>

fun assoc_get :: "('k \<Rightarrow> 'k \<Rightarrow> bool) \<Rightarrow> 'k \<Rightarrow> ('k \<times> 'v) list \<Rightarrow> 'v option" where
  "assoc_get eq key [] = None"
| "assoc_get eq key ((k, v) # xs) = (if eq k key then Some v else assoc_get eq key xs)"

definition assoc_has :: "('k \<Rightarrow> 'k \<Rightarrow> bool) \<Rightarrow> 'k \<Rightarrow> ('k \<times> 'v) list \<Rightarrow> bool" where
  "assoc_has eq key xs \<longleftrightarrow> (\<exists>e \<in> set xs. eq (fst e) key)"

definition assoc_set :: "('k \<Rightarrow> 'k \<Rightarrow> bool) \<Rightarrow> 'k \<Rightarrow> 'v \<Rightarrow> ('k \<times> 'v) list \<Rightarrow> ('k \<times> 'v) list" where
  "assoc_set eq key v xs =
     (if assoc_has eq key xs then map (\<lambda>e. if eq (fst e) key then (fst e, v) else e) xs else xs @ [(key, v)])"

definition assoc_delete :: "('k \<Rightarrow> 'k \<Rightarrow> bool) \<Rightarrow> 'k \<Rightarrow> ('k \<times> 'v) list \<Rightarrow> ('k \<times> 'v) list" where
  "assoc_delete eq key xs = filter (\<lambda>e. \<not> eq (fst e) key) xs"

lemma assoc_get_None: "assoc_get eq key xs = None \<longleftrightarrow> \<not> assoc_has eq key xs"
  by (induction xs) (auto simp: assoc_has_def split: if_splits)

lemma assoc_get_append: "\<not> assoc_has eq key xs \<Longrightarrow> assoc_get eq key (xs @ ys) = assoc_get eq key ys"
  by (induction xs) (auto simp: assoc_has_def)

lemma assoc_get_unique:
  "(k, v) \<in> set xs \<Longrightarrow> eq k key \<Longrightarrow> \<forall>(l, w) \<in> set xs. eq l key \<longrightarrow> w = v \<Longrightarrow> assoc_get eq key xs = Some v"
  by (induction xs) auto

text \<open>The operations of a program on one map, a collection of the heap being one of them.\<close>

datatype ('k, 'v) map_op = Put 'k 'v | Delete 'k | Clear | Collect

fun spec_step :: "('k \<Rightarrow> 'k \<Rightarrow> bool) \<Rightarrow> ('k, 'v) map_op \<Rightarrow> ('k \<times> 'v) list \<Rightarrow> ('k \<times> 'v) list" where
  "spec_step eq (Put k v) xs = assoc_set eq k v xs"
| "spec_step eq (Delete k) xs = assoc_delete eq k xs"
| "spec_step eq Clear xs = []"
| "spec_step eq Collect xs = xs"

fun op_key_ok :: "('k \<Rightarrow> bool) \<Rightarrow> ('k, 'v) map_op \<Rightarrow> bool" where
  "op_key_ok ok (Put k v) = ok k"
| "op_key_ok ok (Delete k) = ok k"
| "op_key_ok ok _ = True"

text \<open>A sequence of operations, each of which may fail to return.\<close>

fun run_ops :: "('o \<Rightarrow> 's \<Rightarrow> 's option) \<Rightarrow> 'o list \<Rightarrow> 's \<Rightarrow> 's option" where
  "run_ops exec [] s = Some s"
| "run_ops exec (oper # opers) s = (case exec oper s of None \<Rightarrow> None | Some s' \<Rightarrow> run_ops exec opers s')"

section \<open>The interface\<close>

locale key_equality =
  fixes eq :: "'k \<Rightarrow> 'k \<Rightarrow> bool"
  assumes eq_refl: "eq k k"
    and eq_sym: "eq k l \<Longrightarrow> eq l k"
    and eq_trans: "eq k l \<Longrightarrow> eq l n \<Longrightarrow> eq k n"
begin

definition one_entry_per_key :: "('k \<times> 'v) list \<Rightarrow> bool" where
  "one_entry_per_key xs \<longleftrightarrow> sorted_wrt (\<lambda>a b. \<not> eq (fst a) (fst b)) xs"

lemma eq_both: "eq a k \<Longrightarrow> eq a l \<Longrightarrow> eq k l"
  by (blast intro: eq_sym eq_trans)

lemma eq_cong: "eq k l \<Longrightarrow> eq a k \<longleftrightarrow> eq a l"
  by (blast intro: eq_sym eq_trans)

lemma get_cong: "eq k l \<Longrightarrow> assoc_get eq k xs = assoc_get eq l xs"
  by (induction xs) (auto simp: eq_cong [of k l])

lemma get_map_same:
  "assoc_has eq key xs \<Longrightarrow> assoc_get eq key (map (\<lambda>e. if eq (fst e) key then (fst e, v) else e) xs) = Some v"
  by (induction xs) (force simp: assoc_has_def)+

lemma get_set_same: "assoc_get eq key (assoc_set eq key v xs) = Some v"
  by (simp add: assoc_set_def get_map_same assoc_get_append eq_refl)

lemma get_map_other:
  "\<not> eq key l \<Longrightarrow> assoc_get eq l (map (\<lambda>e. if eq (fst e) key then (fst e, v) else e) xs) = assoc_get eq l xs"
  by (induction xs) (auto dest: eq_both)

lemma get_append_other: "\<not> eq key l \<Longrightarrow> assoc_get eq l (xs @ [(key, v)]) = assoc_get eq l xs"
  by (induction xs) auto

lemma get_set_other: "\<not> eq key l \<Longrightarrow> assoc_get eq l (assoc_set eq key v xs) = assoc_get eq l xs"
  by (simp add: assoc_set_def get_map_other get_append_other)

lemma get_delete_same: "assoc_get eq key (assoc_delete eq key xs) = None"
  by (simp add: assoc_get_None assoc_has_def assoc_delete_def)

lemma get_delete_other: "\<not> eq key l \<Longrightarrow> assoc_get eq l (assoc_delete eq key xs) = assoc_get eq l xs"
  by (induction xs) (auto simp: assoc_delete_def dest: eq_both)

lemma keys_set: "map fst (assoc_set eq key v xs) = (if assoc_has eq key xs then map fst xs else map fst xs @ [key])"
  by (auto simp: assoc_set_def)

lemma one_entry_iff: "one_entry_per_key xs \<longleftrightarrow> sorted_wrt (\<lambda>a b. \<not> eq a b) (map fst xs)"
  by (simp add: one_entry_per_key_def sorted_wrt_map)

lemma one_entry_set: "one_entry_per_key xs \<Longrightarrow> one_entry_per_key (assoc_set eq key v xs)"
  unfolding one_entry_iff keys_set by (auto simp: sorted_wrt_append assoc_has_def)

lemma one_entry_step: "one_entry_per_key xs \<Longrightarrow> one_entry_per_key (spec_step eq oper xs)"
  by (cases oper) (simp_all add: one_entry_set, simp_all add: assoc_delete_def one_entry_per_key_def sorted_wrt_filter)

lemma one_entry_run: "one_entry_per_key xs \<Longrightarrow> one_entry_per_key (fold (spec_step eq) opers xs)"
  by (induction opers arbitrary: xs) (simp_all add: one_entry_step)

end

locale ordered_map = key_equality eq
  for eq :: "'k \<Rightarrow> 'k \<Rightarrow> bool" +
  fixes ok :: "'k \<Rightarrow> bool"
    and inv :: "'s \<Rightarrow> bool"
    and model :: "'s \<Rightarrow> ('k \<times> 'v) list"
    and exec :: "('k, 'v) map_op \<Rightarrow> 's \<Rightarrow> 's option"
    and lookup :: "'s \<Rightarrow> 'k \<Rightarrow> ('s \<times> 'v option) option"
  assumes exec_refines: "inv s \<Longrightarrow> op_key_ok ok oper \<Longrightarrow>
      \<exists>s'. exec oper s = Some s' \<and> inv s' \<and> model s' = spec_step eq oper (model s)"
    and lookup_refines: "inv s \<Longrightarrow> ok k \<Longrightarrow>
      \<exists>s'. lookup s k = Some (s', assoc_get eq k (model s)) \<and> inv s' \<and> model s' = model s"
begin

lemma run_refines:
  assumes "inv s" and "\<forall>oper \<in> set opers. op_key_ok ok oper"
  shows "\<exists>s'. run_ops exec opers s = Some s' \<and> inv s' \<and> model s' = fold (spec_step eq) opers (model s)"
  using assms
proof (induction opers arbitrary: s)
  case (Cons oper opers)
  then obtain s1 where s1: "exec oper s = Some s1" "inv s1" "model s1 = spec_step eq oper (model s)"
    using exec_refines [of s oper] by auto
  with Cons.IH [of s1] Cons.prems show ?case by auto
qed simp

lemma lookup_after_put:
  assumes "inv s" and "ok k" and "ok l"
  obtains s1 s2 where "exec (Put k v) s = Some s1"
    and "lookup s1 l = Some (s2, if eq k l then Some v else assoc_get eq l (model s))" and "model s2 = model s1"
proof -
  obtain s1 where s1: "exec (Put k v) s = Some s1" "inv s1" "model s1 = assoc_set eq k v (model s)"
    using exec_refines [of s "Put k v"] assms by auto
  obtain s2 where s2: "lookup s1 l = Some (s2, assoc_get eq l (model s1))" "model s2 = model s1"
    using lookup_refines [OF s1(2) assms(3)] by auto
  have "assoc_get eq l (model s1) = (if eq k l then Some v else assoc_get eq l (model s))"
  proof (cases "eq k l")
    case True
    then show ?thesis using s1(3) get_set_same get_cong [OF True] by metis
  qed (simp add: s1(3) get_set_other)
  with s1 s2 show ?thesis by (intro that [of s1 s2]) auto
qed

end

section \<open>The operations of the table\<close>

lemma isHole_fromHole [simp]: "isHole fromHole"
  by (simp add: fromHole_def tag_fromTagAndPayload tag_Hole_def)

lemma wf_fromHole [simp]: "wf_value fromHole"
  by (simp add: fromHole_def tag_fromTagAndPayload tag_Hole_def)

lemma same_key_live: "key_ok key \<Longrightarrow> same_key k key \<Longrightarrow> \<not> isHole k"
  by (cases k; cases key) (auto simp: key_ok_def)

lemma has_iff:
  assumes "slots_inv m" shows "assoc_has same_key key (live_entries m) \<longleftrightarrow> \<not> slot_answer m key None"
proof -
  have "assoc_has same_key key (live_entries m) \<longleftrightarrow> (\<exists>e. e \<in> set (live_entries m) \<and> same_key (fst e) key)"
    unfolding assoc_has_def by blast
  also have "\<dots> \<longleftrightarrow> \<not> slot_answer m key None"
    unfolding in_live_entries [OF assms] slot_answer_def keyAt_def option.case by blast
  finally show ?thesis .
qed

lemma entryData_Some: "entries m = Some es \<Longrightarrow> entryData m = es"
  by (simp add: entryData_def)

lemma update_only:
  assumes "s < length xs" and "\<And>t. t < length xs \<Longrightarrow> Q (xs ! t) \<longleftrightarrow> t = s"
  shows "xs[s := f (xs ! s)] = map (\<lambda>e. if Q e then f e else e) xs"
  using assms by (intro nth_equalityI) (auto simp: nth_list_update)

lemma length_filter_drop_one:
  "s < length xs \<Longrightarrow> P (xs ! s) \<Longrightarrow> \<not> P y \<Longrightarrow> length (filter P (xs[s := y])) = length (filter P xs) - 1"
proof (induction xs arbitrary: s)
  case (Cons x xs)
  have "filter P xs \<noteq> []" if "s < length xs" "P (xs ! s)" for s
    using that nth_mem by (fastforce simp: filter_empty_conv)
  with Cons show ?case by (cases s) auto
qed simp

text \<open>A live slot is the only one that holds its key.\<close>

lemma only_slot:
  assumes sl: "slots_inv m" and key: "key_ok key" and ans: "slot_answer m key (Some s)" and t: "t < length (map_slots m)"
  shows "same_key (fst (map_slots m ! t)) key \<longleftrightarrow> t = s"
proof
  have tu: "t < usedCount m" using t length_slots [OF sl] by simp
  assume "same_key (fst (map_slots m ! t)) key"
  then have "slot_answer m key (Some t)"
    using same_key_live [OF key] tu by (simp add: slot_answer_def liveAt_def keyAt_slot)
  from slot_answer_unique [OF sl ans this] show "t = s" by simp
next
  assume "t = s"
  then show "same_key (fst (map_slots m ! t)) key"
    using ans by (auto simp: slot_answer_def keyAt_slot)
qed

lemma index_inv_sub:
  assumes "index_inv h m" and "index m' = index m" and "indexEpoch m' = indexEpoch m"
    and "usedCount m' = usedCount m" and "capacity m' = capacity m"
    and "\<And>s. s < usedCount m \<Longrightarrow> liveAt m' s \<Longrightarrow> liveAt m s \<and> keyAt m' s = keyAt m s"
  shows "index_inv h m'"
  using assms by (auto simp: index_inv_def indexed_def epochCurrent_def)

text \<open>Both writes of an existing slot replace the entry of \<open>key\<close> by a function of it.\<close>

lemma write_slot:
  assumes inv: "table_inv h m" and key: "key_ok key" and ans: "slot_answer m key (Some s)"
    and m': "m' = m\<lparr>entries := Some ((entryData m)[s := f (map_slots m ! s)]), liveCount := n\<rparr>"
  shows "map_slots m' = map (\<lambda>e. if same_key (fst e) key then f e else e) (map_slots m)"
    and "capacity m' = capacity m"
proof -
  have sl: "slots_inv m" using inv by (simp add: table_inv_def)
  have s: "s < usedCount m" using ans by (simp add: slot_answer_def)
  have "map_slots m' = (map_slots m)[s := f (map_slots m ! s)]"
    by (simp add: m' map_slots_def [of "m\<lparr>entries := _, liveCount := _\<rparr>"] entryData_def [of "m\<lparr>entries := _, liveCount := _\<rparr>"]
          take_update_swap map_slots_def [of m, symmetric])
  also have "\<dots> = map (\<lambda>e. if same_key (fst e) key then f e else e) (map_slots m)"
    using s length_slots [OF sl] only_slot [OF sl key ans] by (intro update_only) auto
  finally show "map_slots m' = map (\<lambda>e. if same_key (fst e) key then f e else e) (map_slots m)" .
  show "capacity m' = capacity m"
    using s sl by (auto simp: m' capacity_def entryData_def slots_inv_def split: option.split)
qed

lemma sorted_apart_map:
  assumes "sorted_wrt apart xs" and "\<And>e. isHole (fst (g e)) \<or> fst (g e) = fst e"
  shows "sorted_wrt apart (map g xs)"
  unfolding sorted_wrt_map
proof (rule sorted_wrt_mono_rel [OF _ assms(1)])
  fix x y assume "apart x y"
  then show "apart (g x) (g y)" using assms(2) [of x] assms(2) [of y] by (auto simp: apart_def)
qed

lemma put_value_correct:
  assumes inv: "table_inv h m" and key: "key_ok key" and ans: "slot_answer m key (Some s)"
  shows "table_inv h (put_value m s v)" and "live_entries (put_value m s v) = assoc_set same_key key v (live_entries m)"
    and "map_slots (put_value m s v) = map (\<lambda>e. if same_key (fst e) key then (fst e, v) else e) (map_slots m)"
proof -
  let ?g = "\<lambda>e. if same_key (fst e) key then (fst e, v) else e"
  let ?m = "put_value m s v"
  have sl: "slots_inv m" using inv by (simp add: table_inv_def)
  have s: "s < usedCount m" "s < length (entryData m)"
    using ans sl by (simp_all add: slot_answer_def slots_inv_def length_entryData)
  have m: "?m = m\<lparr>entries := Some ((entryData m)[s := (fst (map_slots m ! s), v)]), liveCount := liveCount m\<rparr>"
    using s by (simp add: put_value_def keyAt_slot)
  note w = write_slot [where f = "\<lambda>e. (fst e, v)", OF inv key ans m]
  show "map_slots ?m = map ?g (map_slots m)" by (rule w(1))
  have fst_g: "fst (?g e) = fst e" for e by simp
  have keys: "keyAt ?m t = keyAt m t" for t
    using s by (cases "t = s") (simp_all add: put_value_def keyAt_def entryData_def [of "m\<lparr>entries := _\<rparr>"])
  have fields: "usedCount ?m = usedCount m" "index ?m = index m" "indexEpoch ?m = indexEpoch m" "liveCount ?m = liveCount m"
    by (simp_all add: put_value_def)
  have live: "live_entries ?m = map ?g (live_entries m)"
    unfolding live_entries_def w(1) filter_map by (simp add: comp_def fst_g)
  then show "live_entries ?m = assoc_set same_key key v (live_entries m)"
    using has_iff [OF sl, of key] slot_answer_unique [OF sl ans] by (auto simp: assoc_set_def)
  have "index_inv h ?m"
    by (rule index_inv_sub [of h m]) (use inv fields w(2) keys in \<open>auto simp: table_inv_def liveAt_def\<close>)
  moreover have "sorted_wrt apart (map_slots ?m)"
    unfolding w(1) by (rule sorted_apart_map) (use sl in \<open>auto simp: slots_inv_def\<close>)
  then have "slots_inv ?m" using sl fields w by (auto simp: slots_inv_def)
  ultimately show "table_inv h ?m" using inv fields live by (simp add: table_inv_def)
qed

lemma remove_slot_correct:
  assumes inv: "table_inv h m" and key: "key_ok key" and ans: "slot_answer m key (Some s)"
    and m': "m' = m\<lparr>entries := Some ((entryData m)[s := (fromHole, fromUndefined)]), liveCount := liveCount m - 1\<rparr>"
  shows "table_inv h m'" and "live_entries m' = assoc_delete same_key key (live_entries m)"
    and "map_slots m' = map (\<lambda>e. if same_key (fst e) key then (fromHole, fromUndefined) else e) (map_slots m)"
    and "capacity m' = capacity m"
proof -
  let ?g = "\<lambda>e. if same_key (fst e) key then (fromHole, fromUndefined) else e"
  have sl: "slots_inv m" using inv by (simp add: table_inv_def)
  have s: "s < usedCount m" "s < length (entryData m)" "liveAt m s"
    using ans sl by (simp_all add: slot_answer_def slots_inv_def length_entryData)
  note w = write_slot [where f = "\<lambda>e. (fromHole, fromUndefined)", OF inv key ans m']
  show "map_slots m' = map ?g (map_slots m)" "capacity m' = capacity m" by (rule w)+
  have fields: "usedCount m' = usedCount m" "index m' = index m" "indexEpoch m' = indexEpoch m"
    by (simp_all add: m')
  have keys: "t \<noteq> s \<and> keyAt m' t = keyAt m t" if "liveAt m' t" for t
    using that s(2) by (cases "t = s") (auto simp: m' liveAt_def keyAt_def entryData_def [of "m\<lparr>entries := _, liveCount := _\<rparr>"])
  have drop: "filter (\<lambda>e. \<not> isHole (fst e)) (map ?g xs) = filter (\<lambda>e. \<not> same_key (fst e) key) (filter (\<lambda>e. \<not> isHole (fst e)) xs)" for xs
    using same_key_live [OF key] by (induction xs) auto
  then show live: "live_entries m' = assoc_delete same_key key (live_entries m)"
    unfolding live_entries_def w(1) assoc_delete_def .
  have slots: "map_slots m' = (map_slots m)[s := (fromHole, fromUndefined)]"
    by (simp add: m' map_slots_def entryData_def [of "m\<lparr>entries := _, liveCount := _\<rparr>"] take_update_swap)
  have "length (live_entries m') = length (live_entries m) - 1"
    unfolding live_entries_def slots using s length_slots [OF sl]
    by (intro length_filter_drop_one) (auto simp: liveAt_def keyAt_slot)
  then have count: "liveCount m' = length (live_entries m')"
    using inv by (simp add: m' table_inv_def)
  have "index_inv h m'"
    by (rule index_inv_sub [of h m]) (use inv fields w(2) keys in \<open>auto simp: table_inv_def liveAt_def\<close>)
  moreover have "sorted_wrt apart (map_slots m')"
    unfolding w(1) by (rule sorted_apart_map) (use sl in \<open>auto simp: slots_inv_def\<close>)
  then have "slots_inv m'" using sl fields w by (auto simp: slots_inv_def)
  ultimately show "table_inv h m'" using inv count by (simp add: table_inv_def)
qed

lemma append_entry_correct:
  assumes inv: "table_inv h m" and cur: "index_current h m" and key: "key_ok key"
    and new: "\<not> assoc_has same_key key (live_entries m)" and room: "usedCount m < capacity m"
  shows "\<exists>m'. append_entry h m key v = Some m' \<and> table_inv h m' \<and>
           live_entries m' = live_entries m @ [(key, v)] \<and> map_slots m' = map_slots m @ [(key, v)]"
proof -
  obtain bs where bs: "index m = Some bs" using cur by (auto simp: index_current_def)
  have ix: "indexed h m bs" using inv cur bs by (auto simp: table_inv_def index_inv_def index_current_def)
  have sl: "slots_inv m" using inv by (simp add: table_inv_def)
  have len: "length bs = bucketCountFor (capacity m)" using ix by (simp add: indexed_def)
  have pow: "\<exists>k. length bs = 2 ^ k" using len bucketCountFor_power by simp
  have pos: "0 < length bs" using len by simp
  have i: "home h key bs < length bs" unfolding home_def using pos by (rule mod_less_divisor)
  have free: "used_buckets bs < length bs"
    using ix room bucketCountFor_ge(1) [of "capacity m"] len by (auto simp: indexed_def)
  obtain b where b: "free_bucket (length bs) bs (length bs - 1) (home h key bs) = Some b" "b < length bs" "bs ! b = 0"
      "reachable_from (bs[b := Suc (usedCount m)]) (home h key bs) (Suc (usedCount m))"
    by (rule free_bucket_places [OF pow i free, where x = "Suc (usedCount m)"]) simp
  let ?bs = "bs[b := Suc (usedCount m)]"
  define m' where "m' = m\<lparr>entries := Some ((entryData m)[usedCount m := (key, v)]), usedCount := usedCount m + 1,
      liveCount := liveCount m + 1,
      indexEpoch := (if indexEpoch m = kStableIndex \<and> keyMayMove h key then int (epoch h) else indexEpoch m),
      index := Some ?bs\<rparr>"
  have op: "append_entry h m key v = Some m'"
    using b(1) unfolding append_entry_def Let_def bucketsOf_def bucketCountOf_def bs option.case
    by (simp add: and_count_mod [OF pow, unfolded One_nat_def] home_def m'_def)
  have used: "usedCount m' = Suc (usedCount m)" "index m' = Some ?bs"
      "entryData m' = (entryData m)[usedCount m := (key, v)]"
    by (simp_all add: m'_def entryData_Some)
  have cap: "capacity m' = capacity m" using used(3) length_entryData [of m'] by (simp add: length_entryData)
  have slots: "map_slots m' = map_slots m @ [(key, v)]"
    using room by (simp add: map_slots_def used length_entryData take_Suc_conv_app_nth)
  have old: "keyAt m' s = keyAt m s" if "s < usedCount m" for s
    using that length_slots [OF sl] by (simp add: keyAt_slot used slots nth_append)
  have this_key: "keyAt m' (usedCount m) = key"
    using length_slots [OF sl] by (simp add: keyAt_slot used slots nth_append)
  have live: "live_entries m' = live_entries m @ [(key, v)]"
    using key by (simp add: live_entries_def slots key_ok_def)
  have "apart e (key, v)" if "e \<in> set (map_slots m)" for e
    using new that by (cases e) (auto simp: apart_def assoc_has_def live_entries_def)
  then have "slots_inv m'"
    using sl key room by (auto simp: slots_inv_def slots used cap sorted_wrt_append key_ok_def)
  moreover have "reachable_from ?bs (home h (keyAt m' s) ?bs) (Suc s)" if "s < Suc (usedCount m)" "liveAt m' s" for s
  proof (cases "s = usedCount m")
    case True
    then show ?thesis using b(4) by (simp add: this_key home_def)
  next
    case False
    with that have "reachable_from bs (home h (keyAt m s) bs) (Suc s)"
      using ix old by (simp add: indexed_def liveAt_def)
    from reachable_update [OF b(2,3) _ this] show ?thesis using False that(1) old by (simp add: home_def)
  qed
  then have "indexed h m' ?bs"
    using ix b(2,3) set_update_subset_insert [of bs b "Suc (usedCount m)"]
    by (fastforce simp: indexed_def used cap used_buckets_update)
  moreover have "indexEpoch m' \<le> int (epoch h)" using inv by (simp add: m'_def table_inv_def index_inv_def)
  moreover have "\<not> keyMayMove h (keyAt m' s)" if "indexEpoch m' = kStableIndex" "s < Suc (usedCount m)" "liveAt m' s" for s
  proof (cases "s = usedCount m")
    case True
    have "\<not> keyMayMove h key" using that(1) by (auto simp: m'_def kStableIndex_def split: if_splits)
    then show ?thesis using True this_key by simp
  next
    case False
    moreover have "indexEpoch m = kStableIndex" using that(1) by (auto simp: m'_def kStableIndex_def split: if_splits)
    ultimately show ?thesis using inv that old bs by (auto simp: table_inv_def index_inv_def liveAt_def)
  qed
  ultimately have "slots_inv m'" and "index_inv h m'"
    by (auto simp: index_inv_def used)
  then have "table_inv h m'"
    using inv live by (simp add: table_inv_def) (simp add: m'_def)
  with op live slots show ?thesis by blast
qed

lemma map_slots_cong: "entries m' = entries m \<Longrightarrow> usedCount m' = usedCount m \<Longrightarrow> map_slots m' = map_slots m"
  by (simp add: map_slots_def entryData_def)

text \<open>The whole operations: they return, keep the invariant and do what the abstract map does.\<close>

lemma map_set_correct:
  assumes gc: "collector_ok gc" and inv: "table_inv h m" and key: "key_ok key"
  shows "\<exists>h' m'. map_set gc h self m key v = Some (h', m') \<and> collected h h' \<and> table_inv h' m' \<and>
           live_entries m' = assoc_set same_key key v (live_entries m) \<and>
           map_slots m' =
             (if assoc_has same_key key (live_entries m)
              then map (\<lambda>e. if same_key (fst e) key then (fst e, v) else e) (map_slots m)
              else (if usedCount m < capacity m then map_slots m else live_entries m) @ [(key, v)])"
proof -
  obtain r where ans: "slot_answer m key r" using slot_answer_exists by blast
  obtain h1 m1 where f: "find gc h self m key = Some (h1, m1, r)" "table_inv h1 m1" "entries m1 = entries m" "usedCount m1 = usedCount m"
      and ch: "collected h h1"
    using find_correct [OF gc inv key ans] by blast
  have ans1: "slot_answer m1 key r" and live1: "live_entries m1 = live_entries m" and slots1: "map_slots m1 = map_slots m"
    using ans slot_answer_cong [OF f(3,4)] live_entries_cong [OF f(3,4)] map_slots_cong [OF f(3,4)] by auto
  have cap1: "capacity m1 = capacity m" using f(3) by (simp add: capacity_def)
  let ?base = "if usedCount m < capacity m then map_slots m else live_entries m"
  show ?thesis
  proof (cases r)
    case (Some s)
    then have "assoc_has same_key key (live_entries m)"
      using has_iff [of m key] slot_answer_unique [OF _ ans, of None] inv by (auto simp: table_inv_def)
    then show ?thesis
      using Some f ch put_value_correct [OF f(2) key, of s v] ans1 live1 slots1 by (simp add: map_set_def)
  next
    case None
    have new: "\<not> assoc_has same_key key (live_entries m)"
      using has_iff [of m] inv ans None by (auto simp: table_inv_def)
    have "\<exists>h2 m2. (if usedCount m1 \<ge> capacity m1 then growEntries gc h1 self m1 else Some (h1, m1)) = Some (h2, m2) \<and>
        collected h1 h2 \<and> table_inv h2 m2 \<and> live_entries m2 = live_entries m \<and> map_slots m2 = ?base \<and> usedCount m2 < capacity m2"
    proof (cases "usedCount m1 \<ge> capacity m1")
      case True
      have "length xs < double_until kInitialCapacity ((length xs + 1) * 2)" for xs :: "(Value \<times> Value) list"
        using double_until_ge [of kInitialCapacity "(length xs + 1) * 2"] by (simp add: kInitialCapacity_def)
      then show ?thesis using True growEntries_correct [OF gc f(2), of self] live1 cap1 f(4) by auto
    qed (use f(2,4) collected_refl [of h1] table_inv_def live1 slots1 cap1 in auto)
    then obtain h2 m2 where g: "(if usedCount m1 \<ge> capacity m1 then growEntries gc h1 self m1 else Some (h1, m1)) = Some (h2, m2)"
        "table_inv h2 m2" "live_entries m2 = live_entries m" "usedCount m2 < capacity m2" "map_slots m2 = ?base"
      and ch2: "collected h1 h2" by blast
    obtain h3 m3 where e: "ensureIndex gc h2 self m2 = Some (h3, m3)" "table_inv h3 m3" "index_current h3 m3"
        "entries m3 = entries m2" "usedCount m3 = usedCount m2" and ch3: "collected h2 h3"
      using ensureIndex_correct [OF gc g(2)] by blast
    have live3: "live_entries m3 = live_entries m" "map_slots m3 = ?base" and room: "usedCount m3 < capacity m3"
      using g(3-5) e(4,5) live_entries_cong [OF e(4,5)] map_slots_cong [OF e(4,5)] by (simp_all add: capacity_def)
    obtain m4 where "append_entry h3 m3 key v = Some m4" "table_inv h3 m4" "live_entries m4 = live_entries m @ [(key, v)]"
        "map_slots m4 = ?base @ [(key, v)]"
      using append_entry_correct [OF e(2,3) key _ room, of v] live3 new by auto
    moreover have "map_set gc h self m key v = map_option (\<lambda>m4. (h3, m4)) (append_entry h3 m3 key v)"
      unfolding map_set_def f(1) None option.case prod.case g(1) e(1) by (rule refl)
    moreover have "collected h h3" using ch ch2 ch3 collected_trans by blast
    ultimately show ?thesis using new by (simp add: assoc_set_def)
  qed
qed

lemma map_remove_correct:
  assumes gc: "collector_ok gc" and inv: "table_inv h m" and key: "key_ok key"
  shows "\<exists>h' m'. map_remove gc h self m key = Some (h', m', assoc_has same_key key (live_entries m)) \<and> collected h h' \<and> table_inv h' m' \<and>
           live_entries m' = assoc_delete same_key key (live_entries m) \<and> capacity m' = capacity m \<and>
           map_slots m' = map (\<lambda>e. if same_key (fst e) key then (fromHole, fromUndefined) else e) (map_slots m)"
proof -
  obtain r where ans: "slot_answer m key r" using slot_answer_exists by blast
  obtain h1 m1 where f: "find gc h self m key = Some (h1, m1, r)" "table_inv h1 m1" "entries m1 = entries m" "usedCount m1 = usedCount m"
      and ch: "collected h h1"
    using find_correct [OF gc inv key ans] by blast
  have ans1: "slot_answer m1 key r" and live1: "live_entries m1 = live_entries m" and slots1: "map_slots m1 = map_slots m"
    using ans slot_answer_cong [OF f(3,4)] live_entries_cong [OF f(3,4)] map_slots_cong [OF f(3,4)] by auto
  have cap1: "capacity m1 = capacity m" using f(3) by (simp add: capacity_def)
  have sl: "slots_inv m" using inv by (simp add: table_inv_def)
  show ?thesis
  proof (cases r)
    case None
    then have "\<not> assoc_has same_key key (live_entries m)" using has_iff [OF sl] ans by simp
    moreover from this have "assoc_delete same_key key (live_entries m) = live_entries m"
      by (auto simp: assoc_delete_def assoc_has_def filter_id_conv)
    moreover have "\<not> same_key (fst e) key" if "e \<in> set (map_slots m)" for e
      using calculation(1) that same_key_live [OF key] unfolding assoc_has_def live_entries_def by (cases e) auto
    then have "map (\<lambda>e. if same_key (fst e) key then (fromHole, fromUndefined) else e) (map_slots m) = map_slots m"
      by (simp add: map_idI)
    ultimately show ?thesis using f ch None live1 slots1 cap1 by (simp add: map_remove_def)
  next
    case (Some s)
    have "assoc_has same_key key (live_entries m)"
      using has_iff [OF sl] slot_answer_unique [OF sl ans] Some by blast
    then show ?thesis
      using f ch remove_slot_correct [OF f(2) key _ refl, of s] ans1 live1 slots1 cap1 Some by (simp add: map_remove_def)
  qed
qed

lemma map_clear_correct:
  assumes "table_inv h m"
  shows "table_inv h (map_clear m)" and "live_entries (map_clear m) = []"
proof -
  have "capacity (map_clear m) = capacity m" if "usedCount m \<le> capacity m"
    using that by (auto simp: map_clear_def capacity_def split: option.split)
  moreover have "map_slots (map_clear m) = []" "liveCount (map_clear m) = 0" "usedCount (map_clear m) = 0"
      "\<not> epochCurrent h (map_clear m)" "indexEpoch (map_clear m) = - 1"
    by (simp_all add: map_clear_def map_slots_def epochCurrent_def kStableIndex_def)
  ultimately show "table_inv h (map_clear m)" and "live_entries (map_clear m) = []"
    using assms by (simp_all add: table_inv_def slots_inv_def live_entries_def index_inv_def)
qed

section \<open>The table implements the interface\<close>

type_synonym table_state = "heap \<times> map_header"

fun table_exec :: "collector \<Rightarrow> ref \<Rightarrow> (Value, Value) map_op \<Rightarrow> table_state \<Rightarrow> table_state option" where
  "table_exec gc self (Put k v) (h, m) = map_set gc h self m k v"
| "table_exec gc self (Delete k) (h, m) = map_option (\<lambda>(h', m', _). (h', m')) (map_remove gc h self m k)"
| "table_exec gc self Clear (h, m) = Some (h, map_clear m)"
| "table_exec gc self Collect (h, m) = Some (gc h, m)"

definition table_lookup :: "collector \<Rightarrow> ref \<Rightarrow> table_state \<Rightarrow> Value \<Rightarrow> (table_state \<times> Value option) option" where
  "table_lookup gc self s key =
     (case find gc (fst s) self (snd s) key of
        None \<Rightarrow> None
      | Some (h, m, slot) \<Rightarrow> Some ((h, m), map_option (valueAt m) slot))"

definition table_ok :: "collector \<Rightarrow> table_state \<Rightarrow> bool" where
  "table_ok gc s \<longleftrightarrow> collector_ok gc \<and> table_inv (fst s) (snd s)"

lemma assoc_get_live:
  assumes "slots_inv m" and "slot_answer m key r"
  shows "assoc_get same_key key (live_entries m) = map_option (valueAt m) r"
proof (cases r)
  case None
  then show ?thesis using has_iff [OF assms(1)] assms(2) by (simp add: assoc_get_None)
next
  case (Some s)
  then have s: "s < usedCount m" "liveAt m s" "same_key (keyAt m s) key" using assms(2) by (auto simp: slot_answer_def)
  have "(keyAt m s, valueAt m s) \<in> set (live_entries m)"
    unfolding in_live_entries [OF assms(1)] using s by (intro exI [of _ s]) (simp add: keyAt_def valueAt_def)
  moreover have "w = valueAt m s" if mem: "(k, w) \<in> set (live_entries m)" and same: "same_key k key" for k w
  proof -
    obtain t where t: "t < usedCount m" "liveAt m t" "(k, w) = entryData m ! t"
      using mem unfolding in_live_entries [OF assms(1)] by blast
    have kw: "keyAt m t = k" "valueAt m t = w" by (simp_all add: keyAt_def valueAt_def t(3) [symmetric])
    then have "slot_answer m key (Some t)" using same t by (simp add: slot_answer_def)
    from slot_answer_unique [OF assms this] Some kw(2) show ?thesis by simp
  qed
  ultimately have "assoc_get same_key key (live_entries m) = Some (valueAt m s)"
    using assoc_get_unique [where eq = same_key, OF _ s(3), of "valueAt m s" "live_entries m"] by blast
  then show ?thesis using Some by simp
qed

interpretation value_keys: key_equality same_key
  by unfold_locales (auto intro: same_key_sym same_key_trans)

interpretation hash_table: ordered_map same_key key_ok "table_ok gc" "\<lambda>s. live_entries (snd s)" "table_exec gc self" "table_lookup gc self"
  for gc self
proof unfold_locales
  fix s :: table_state and oper :: "(Value, Value) map_op"
  assume ok: "table_ok gc s" and key: "op_key_ok key_ok oper"
  obtain h m where s: "s = (h, m)" by (cases s)
  have gc: "collector_ok gc" and inv: "table_inv h m" using ok s by (simp_all add: table_ok_def)
  show "\<exists>s'. table_exec gc self oper s = Some s' \<and> table_ok gc s' \<and>
      live_entries (snd s') = spec_step same_key oper (live_entries (snd s))"
  proof (cases oper)
    case (Put k v)
    then show ?thesis using map_set_correct [OF gc inv, of k self v] key gc by (auto simp: s table_ok_def)
  next
    case (Delete k)
    then show ?thesis using map_remove_correct [OF gc inv, of k self] key gc by (auto simp: s table_ok_def)
  next
    case Clear
    then show ?thesis using map_clear_correct [OF inv] gc by (simp add: s table_ok_def)
  next
    case Collect
    have "heap_wf h" using inv by (simp add: table_inv_def)
    then show ?thesis using Collect gc collector_okD [OF gc] table_inv_collected [OF inv] by (simp add: s table_ok_def)
  qed
next
  fix s :: table_state and k assume ok: "table_ok gc s" and key: "key_ok k"
  obtain h m where s: "s = (h, m)" by (cases s)
  have gc: "collector_ok gc" and inv: "table_inv h m" using ok s by (simp_all add: table_ok_def)
  obtain r where ans: "slot_answer m k r" using slot_answer_exists by blast
  obtain h1 m1 where f: "find gc h self m k = Some (h1, m1, r)" "table_inv h1 m1" "entries m1 = entries m" "usedCount m1 = usedCount m"
    using find_correct [OF gc inv key ans] by blast
  have "assoc_get same_key k (live_entries m) = map_option (valueAt m1) r"
    using assoc_get_live [OF _ ans] inv f(3) by (simp add: table_inv_def valueAt_def [abs_def] entryData_def)
  then show "\<exists>s'. table_lookup gc self s k = Some (s', assoc_get same_key k (live_entries (snd s))) \<and> table_ok gc s' \<and>
      live_entries (snd s') = live_entries (snd s)"
    using f gc live_entries_cong [OF f(3,4)] by (simp add: s table_lookup_def table_ok_def)
qed

end
