(* ===== verification/Map_Methods.thy ===== *)
theory Map_Methods
  imports Map_Refinement
begin

text \<open>
  The methods of \<open>Map.prototype\<close> and \<open>Set.prototype\<close> and their iterators (\<open>src/src/runtime/builtin_map.cpp\<close>,
  \<open>builtin_map_methods.cpp\<close>, \<open>builtin_map_iterator.cpp\<close>) over the table of \<open>Map_Table\<close>.

  A receiver is its kind (the brand of the object) and its table; an argument a call leaves out is
  \<open>undefined\<close>. A method returns the heap and table after it with a value or the \<open>TypeError\<close> it raises.
  The callback of \<open>forEach\<close> is program code: a parameter that transforms the program's own state, the
  heap and the table, \<open>None\<close> when it throws or does not return.
\<close>

section \<open>Definitions\<close>

datatype coll_kind = MapKind | SetKind | NoCollection

datatype method_error =
  IncompatibleReceiver bool string
| NeedsFunction bool
| IncompatibleIterator

type_synonym 'r method_result = "(heap \<times> map_header \<times> (method_error + 'r)) option"

definition tag_Bool :: u64 where "tag_Bool = 0xFFF4"

definition fromBool :: "bool \<Rightarrow> Value" where
  "fromBool b = Imm (fromTagAndPayload tag_Bool (if b then 1 else 0))"

definition arg :: "Value list \<Rightarrow> nat \<Rightarrow> Value" where
  "arg args i = (if i < length args then args ! i else fromUndefined)"

definition requireCollection :: "coll_kind \<Rightarrow> bool \<Rightarrow> bool" where
  "requireCollection kind isSet = (if isSet then kind = SetKind else kind = MapKind)"

definition sizeGetter :: "coll_kind \<Rightarrow> map_header \<Rightarrow> bool \<Rightarrow> method_error + nat" where
  "sizeGetter kind m isSet =
     (if \<not> requireCollection kind isSet then Inl (IncompatibleReceiver isSet ''size'') else Inr (liveCount m))"

text \<open>The allocation-free prologue of \<open>get\<close> and \<open>has\<close>.\<close>

definition fast_prologue :: "heap \<Rightarrow> ref \<Rightarrow> coll_kind \<Rightarrow> map_header \<Rightarrow> Value list \<Rightarrow> bool \<Rightarrow> fast_answer option" where
  "fast_prologue h self kind m args isSet =
     (if args \<noteq> [] \<and> requireCollection kind isSet then findFast h self m (args ! 0) else Some Fallback)"

definition collectionGet ::
  "collector \<Rightarrow> heap \<Rightarrow> ref \<Rightarrow> coll_kind \<Rightarrow> map_header \<Rightarrow> Value list \<Rightarrow> bool \<Rightarrow> Value method_result" where
  "collectionGet gc h self kind m args isSet =
     (case fast_prologue h self kind m args isSet of
        None \<Rightarrow> None
      | Some (Answer None) \<Rightarrow> Some (h, m, Inr fromUndefined)
      | Some (Answer (Some slot)) \<Rightarrow> Some (h, m, Inr (valueAt m slot))
      | Some Fallback \<Rightarrow>
          if \<not> requireCollection kind isSet then Some (h, m, Inl (IncompatibleReceiver isSet ''get''))
          else
            (case find gc h self m (arg args 0) of
               None \<Rightarrow> None
             | Some (h', m', None) \<Rightarrow> Some (h', m', Inr fromUndefined)
             | Some (h', m', Some slot) \<Rightarrow> Some (h', m', Inr (valueAt m' slot))))"

definition collectionHas ::
  "collector \<Rightarrow> heap \<Rightarrow> ref \<Rightarrow> coll_kind \<Rightarrow> map_header \<Rightarrow> Value list \<Rightarrow> bool \<Rightarrow> Value method_result" where
  "collectionHas gc h self kind m args isSet =
     (case fast_prologue h self kind m args isSet of
        None \<Rightarrow> None
      | Some (Answer slot) \<Rightarrow> Some (h, m, Inr (fromBool (slot \<noteq> None)))
      | Some Fallback \<Rightarrow>
          if \<not> requireCollection kind isSet then Some (h, m, Inl (IncompatibleReceiver isSet ''has''))
          else
            (case find gc h self m (arg args 0) of
               None \<Rightarrow> None
             | Some (h', m', slot) \<Rightarrow> Some (h', m', Inr (fromBool (slot \<noteq> None)))))"

definition collectionDelete ::
  "collector \<Rightarrow> heap \<Rightarrow> ref \<Rightarrow> coll_kind \<Rightarrow> map_header \<Rightarrow> Value list \<Rightarrow> bool \<Rightarrow> Value method_result" where
  "collectionDelete gc h self kind m args isSet =
     (if \<not> requireCollection kind isSet then Some (h, m, Inl (IncompatibleReceiver isSet ''delete''))
      else
        (case map_remove gc h self m (arg args 0) of
           None \<Rightarrow> None
         | Some (h', m', removed) \<Rightarrow> Some (h', m', Inr (fromBool removed))))"

definition collectionClear :: "heap \<Rightarrow> coll_kind \<Rightarrow> map_header \<Rightarrow> bool \<Rightarrow> Value method_result" where
  "collectionClear h kind m isSet =
     (if \<not> requireCollection kind isSet then Some (h, m, Inl (IncompatibleReceiver isSet ''clear''))
      else Some (h, map_clear m, Inr fromUndefined))"

definition rtMapSetBody ::
  "collector \<Rightarrow> heap \<Rightarrow> ref \<Rightarrow> coll_kind \<Rightarrow> map_header \<Rightarrow> Value list \<Rightarrow> Value method_result" where
  "rtMapSetBody gc h self kind m args =
     (if \<not> requireCollection kind False then Some (h, m, Inl (IncompatibleReceiver False ''set''))
      else
        (case map_set gc h self m (arg args 0) (arg args 1) of
           None \<Rightarrow> None
         | Some (h', m') \<Rightarrow> Some (h', m', Inr (Object self))))"

definition rtSetAddBody ::
  "collector \<Rightarrow> heap \<Rightarrow> ref \<Rightarrow> coll_kind \<Rightarrow> map_header \<Rightarrow> Value list \<Rightarrow> Value method_result" where
  "rtSetAddBody gc h self kind m args =
     (if \<not> requireCollection kind True then Some (h, m, Inl (IncompatibleReceiver True ''add''))
      else
        (case map_set gc h self m (arg args 0) (arg args 0) of
           None \<Rightarrow> None
         | Some (h', m') \<Rightarrow> Some (h', m', Inr (Object self))))"

text \<open>The walk of \<open>forEach\<close>, whose bound is read again at every step.\<close>

type_synonym 'u program = "'u \<times> heap \<times> map_header"

partial_function (option) forEach_loop ::
  "(Value \<Rightarrow> Value \<Rightarrow> 'u program \<Rightarrow> 'u program option) \<Rightarrow> bool \<Rightarrow> nat \<Rightarrow> 'u program \<Rightarrow> 'u program option" where
  "forEach_loop cb isSet pos st =
     (let m = snd (snd st)
      in if pos < usedCount m
         then if \<not> liveAt m pos then forEach_loop cb isSet (pos + 1) st
              else Option.bind (cb (if isSet then keyAt m pos else valueAt m pos) (keyAt m pos) st)
                     (forEach_loop cb isSet (pos + 1))
         else Some st)"

declare forEach_loop.simps [code]

definition collectionForEach ::
  "coll_kind \<Rightarrow> bool \<Rightarrow> (Value \<Rightarrow> Value \<Rightarrow> 'u program \<Rightarrow> 'u program option) option \<Rightarrow> 'u program \<Rightarrow>
     ('u program \<times> (method_error + Value)) option" where
  "collectionForEach kind isSet callback st =
     (if \<not> requireCollection kind isSet then Some (st, Inl (IncompatibleReceiver isSet ''forEach''))
      else
        (case callback of
           None \<Rightarrow> Some (st, Inl (NeedsFunction isSet))
         | Some cb \<Rightarrow> map_option (\<lambda>st'. (st', Inr fromUndefined)) (forEach_loop cb isSet 0 st)))"

subsection \<open>Iterators\<close>

datatype MapIterKind = MapIterKeys | MapIterValues | MapIterEntries

record map_iterator =
  iteratedMap :: bool
  nextIndex :: nat
  iterKind :: MapIterKind

datatype produced = Single Value | EntryPair Value Value

definition rtMakeMapIterator :: "MapIterKind \<Rightarrow> map_iterator" where
  "rtMakeMapIterator kind = \<lparr>iteratedMap = True, nextIndex = 0, iterKind = kind\<rparr>"

definition collectionIterator :: "coll_kind \<Rightarrow> bool \<Rightarrow> MapIterKind \<Rightarrow> string \<Rightarrow> method_error + map_iterator" where
  "collectionIterator kind isSet iter method =
     (if \<not> requireCollection kind isSet then Inl (IncompatibleReceiver isSet method)
      else Inr (rtMakeMapIterator iter))"

text \<open>\<open>while (at < map->used() && !map->liveAt(at)) ++at\<close>.\<close>

function skip_dead :: "map_header \<Rightarrow> nat \<Rightarrow> nat" where
  "skip_dead m pos = (if pos < usedCount m \<and> \<not> liveAt m pos then skip_dead m (pos + 1) else pos)"
  by pat_completeness auto
termination by (relation "measure (\<lambda>(m, pos). usedCount m - pos)") auto

declare skip_dead.simps [simp del]

definition rtMapIteratorStep :: "bool \<Rightarrow> map_header \<Rightarrow> map_iterator \<Rightarrow> map_iterator \<times> produced option" where
  "rtMapIteratorStep isSet m it =
     (if \<not> iteratedMap it then (it, None)
      else
        (let pos = skip_dead m (nextIndex it)
         in if pos \<ge> usedCount m then (it\<lparr>iteratedMap := False\<rparr>, None)
            else
              (it\<lparr>nextIndex := pos + 1\<rparr>,
               Some (case iterKind it of
                       MapIterKeys \<Rightarrow> Single (keyAt m pos)
                     | MapIterValues \<Rightarrow> Single (if isSet then keyAt m pos else valueAt m pos)
                     | MapIterEntries \<Rightarrow> EntryPair (keyAt m pos) (if isSet then keyAt m pos else valueAt m pos)))))"

text \<open>Stepping an iterator over a table nobody changes, at most \<open>n\<close> times.\<close>

fun iterate :: "nat \<Rightarrow> bool \<Rightarrow> map_header \<Rightarrow> map_iterator \<Rightarrow> produced list" where
  "iterate 0 isSet m it = []"
| "iterate (Suc n) isSet m it =
     (case rtMapIteratorStep isSet m it of
        (it', None) \<Rightarrow> []
      | (it', Some p) \<Rightarrow> p # iterate n isSet m it')"

section \<open>Lookups and updates\<close>

lemma findFast_or_fallback:
  assumes inv: "table_inv h m" and key: "key_ok key" and ans: "slot_answer m key r"
  shows "findFast h self m key = Some (Answer r) \<or> findFast h self m key = Some Fallback"
proof (cases "liveCount m = 0")
  case True
  then show ?thesis
    using slot_answer_unique [OF _ ans no_live_answer [OF inv True]] inv by (simp add: findFast_def table_inv_def)
next
  case False
  then show ?thesis using findFast_answer [OF inv key ans False] by (auto simp: findFast_def)
qed

lemma collectionGet_correct:
  assumes gc: "collector_ok gc" and inv: "table_inv h m" and key: "key_ok (arg args 0)"
    and recv: "requireCollection kind isSet"
  shows "\<exists>h' m'. collectionGet gc h self kind m args isSet =
             Some (h', m', Inr (case assoc_get same_key (arg args 0) (live_entries m) of None \<Rightarrow> fromUndefined | Some v \<Rightarrow> v)) \<and>
           table_inv h' m' \<and> live_entries m' = live_entries m"
proof -
  obtain r where ans: "slot_answer m (arg args 0) r" using slot_answer_exists by blast
  have get: "assoc_get same_key (arg args 0) (live_entries m) = map_option (valueAt m) r"
    using assoc_get_live [OF _ ans] inv by (simp add: table_inv_def)
  obtain h1 m1 where f: "find gc h self m (arg args 0) = Some (h1, m1, r)" "table_inv h1 m1"
      "entries m1 = entries m" "usedCount m1 = usedCount m"
    using find_correct [OF gc inv key ans] by blast
  have v1: "valueAt m1 = valueAt m" by (simp add: fun_eq_iff valueAt_def entryData_def f(3))
  have "args \<noteq> [] \<Longrightarrow> args ! 0 = arg args 0" by (simp add: arg_def)
  then have "fast_prologue h self kind m args isSet = Some (Answer r) \<or> fast_prologue h self kind m args isSet = Some Fallback"
    using findFast_or_fallback [OF inv key ans, of self] recv by (auto simp: fast_prologue_def)
  then show ?thesis
    using f inv get v1 recv live_entries_cong [OF f(3,4)] by (cases r) (auto simp: collectionGet_def)
qed

lemma collectionHas_correct:
  assumes gc: "collector_ok gc" and inv: "table_inv h m" and key: "key_ok (arg args 0)"
    and recv: "requireCollection kind isSet"
  shows "\<exists>h' m'. collectionHas gc h self kind m args isSet =
             Some (h', m', Inr (fromBool (assoc_has same_key (arg args 0) (live_entries m)))) \<and>
           table_inv h' m' \<and> live_entries m' = live_entries m"
proof -
  obtain r where ans: "slot_answer m (arg args 0) r" using slot_answer_exists by blast
  have sl: "slots_inv m" using inv by (simp add: table_inv_def)
  have has: "assoc_has same_key (arg args 0) (live_entries m) \<longleftrightarrow> r \<noteq> None"
    using assoc_get_live [OF sl ans] assoc_get_None [of same_key "arg args 0" "live_entries m"] by (cases r) simp_all
  obtain h1 m1 where f: "find gc h self m (arg args 0) = Some (h1, m1, r)" "table_inv h1 m1"
      "entries m1 = entries m" "usedCount m1 = usedCount m"
    using find_correct [OF gc inv key ans] by blast
  have "args \<noteq> [] \<Longrightarrow> args ! 0 = arg args 0" by (simp add: arg_def)
  then have "fast_prologue h self kind m args isSet = Some (Answer r) \<or> fast_prologue h self kind m args isSet = Some Fallback"
    using findFast_or_fallback [OF inv key ans, of self] recv by (auto simp: fast_prologue_def)
  then show ?thesis
    using f inv has recv live_entries_cong [OF f(3,4)] by (auto simp: collectionHas_def)
qed

section \<open>Iteration\<close>

text \<open>What a cursor at \<open>pos\<close> has still to visit.\<close>

definition pending :: "map_header \<Rightarrow> nat \<Rightarrow> (Value \<times> Value) list" where
  "pending m pos = filter (\<lambda>e. \<not> isHole (fst e)) (drop pos (map_slots m))"

lemma pending_0: "pending m 0 = live_entries m"
  by (simp add: pending_def live_entries_def)

lemma pending_end: "slots_inv m \<Longrightarrow> usedCount m \<le> pos \<Longrightarrow> pending m pos = []"
  by (simp add: pending_def length_slots)

lemma live_pending_step:
  assumes "slots_inv m" and "pos < usedCount m"
  shows "pending m pos = (if liveAt m pos then (keyAt m pos, valueAt m pos) # pending m (Suc pos) else pending m (Suc pos))"
proof -
  have "drop pos (map_slots m) = map_slots m ! pos # drop (Suc pos) (map_slots m)"
    using assms length_slots by (simp add: Cons_nth_drop_Suc)
  then show ?thesis
    using assms(2) by (simp add: pending_def liveAt_def keyAt_def valueAt_def slot_nth)
qed

lemma skip_dead_spec:
  assumes "slots_inv m"
  shows "pending m (skip_dead m pos) = pending m pos \<and>
         (skip_dead m pos < usedCount m \<longrightarrow> liveAt m (skip_dead m pos))"
  using assms
proof (induction m pos rule: skip_dead.induct)
  case (1 m pos)
  then show ?case
    using live_pending_step [OF "1.prems", of pos] by (simp add: skip_dead.simps [of m pos])
qed

definition produce :: "bool \<Rightarrow> MapIterKind \<Rightarrow> Value \<times> Value \<Rightarrow> produced" where
  "produce isSet kind e =
     (case kind of
        MapIterKeys \<Rightarrow> Single (fst e)
      | MapIterValues \<Rightarrow> Single (if isSet then fst e else snd e)
      | MapIterEntries \<Rightarrow> EntryPair (fst e) (if isSet then fst e else snd e))"

lemma iterator_step:
  assumes sl: "slots_inv m" and "iteratedMap it"
  shows "rtMapIteratorStep isSet m it =
    (case pending m (nextIndex it) of
       [] \<Rightarrow> (it\<lparr>iteratedMap := False\<rparr>, None)
     | e # es \<Rightarrow> (it\<lparr>nextIndex := Suc (skip_dead m (nextIndex it))\<rparr>, Some (produce isSet (iterKind it) e)))"
    and "pending m (nextIndex it) = e # es \<Longrightarrow> pending m (Suc (skip_dead m (nextIndex it))) = es"
proof -
  let ?p = "skip_dead m (nextIndex it)"
  note sd = skip_dead_spec [OF sl, of "nextIndex it"]
  have cons: "pending m (nextIndex it) = (keyAt m ?p, valueAt m ?p) # pending m (Suc ?p)" if "?p < usedCount m"
    using sd live_pending_step [OF sl that] that by auto
  show "rtMapIteratorStep isSet m it =
    (case pending m (nextIndex it) of
       [] \<Rightarrow> (it\<lparr>iteratedMap := False\<rparr>, None)
     | e # es \<Rightarrow> (it\<lparr>nextIndex := Suc ?p\<rparr>, Some (produce isSet (iterKind it) e)))"
  proof (cases "?p < usedCount m")
    case True
    then show ?thesis
      using assms(2) cons by (cases "iterKind it") (simp_all add: rtMapIteratorStep_def Let_def produce_def)
  next
    case False
    then have "pending m (nextIndex it) = []" using sd pending_end [OF sl] by simp
    then show ?thesis using False assms(2) by (simp add: rtMapIteratorStep_def Let_def)
  qed
  assume p: "pending m (nextIndex it) = e # es"
  then have "?p < usedCount m" using sd pending_end [OF sl, of ?p] by (cases "?p < usedCount m") simp_all
  then show "pending m (Suc ?p) = es" using cons p by simp
qed

lemma iterate_pending:
  assumes "slots_inv m" and "iteratedMap it" and "length (pending m (nextIndex it)) \<le> n"
  shows "iterate n isSet m it = map (produce isSet (iterKind it)) (pending m (nextIndex it))"
  using assms(2,3)
proof (induction n arbitrary: it)
  case (Suc n)
  show ?case
  proof (cases "pending m (nextIndex it)")
    case Nil
    then show ?thesis using iterator_step(1) [OF assms(1) Suc.prems(1)] by simp
  next
    case (Cons e es)
    let ?it = "it\<lparr>nextIndex := Suc (skip_dead m (nextIndex it))\<rparr>"
    have "iterate n isSet m ?it = map (produce isSet (iterKind it)) es"
      using Suc.IH [of ?it] Suc.prems iterator_step(2) [OF assms(1) Suc.prems(1) Cons] Cons by simp
    then show ?thesis using iterator_step(1) [OF assms(1) Suc.prems(1)] Cons by simp
  qed
qed simp

lemma forEach_pending:
  assumes "slots_inv m" and "\<And>v k u. cb v k (u, h, m) = Some (f v k u, h, m)"
  shows "forEach_loop cb isSet pos (u, h, m) =
           Some (fold (\<lambda>e. f (if isSet then fst e else snd e) (fst e)) (pending m pos) u, h, m)"
proof (induction "usedCount m - pos" arbitrary: pos u)
  case 0
  then show ?case
    by (subst forEach_loop.simps) (simp add: pending_end [OF assms(1)])
next
  case (Suc n)
  have "pos < usedCount m" using Suc.hyps(2) by simp
  moreover have "n = usedCount m - (pos + 1)" using Suc.hyps(2) by simp
  note IH = Suc.hyps(1) [OF this]
  ultimately show ?case
    by (subst forEach_loop.simps) (auto simp: live_pending_step [OF assms(1), of pos] IH assms(2))
qed

text \<open>A delete leaves every cursor on the entry it was on; a set does so as long as the table has room.\<close>

lemma pending_remove:
  assumes "collector_ok gc" and "table_inv h m" and "key_ok key"
  shows "\<exists>h' m' b. map_remove gc h self m key = Some (h', m', b) \<and> table_inv h' m' \<and>
           pending m' pos = assoc_delete same_key key (pending m pos)"
proof -
  have drop: "filter (\<lambda>e. \<not> isHole (fst e)) (map (\<lambda>e. if same_key (fst e) key then (fromHole, fromUndefined) else e) xs) =
      filter (\<lambda>e. \<not> same_key (fst e) key) (filter (\<lambda>e. \<not> isHole (fst e)) xs)" for xs
    using same_key_live [OF assms(3)] by (induction xs) auto
  show ?thesis
    using map_remove_correct [OF assms, of self] by (auto simp: pending_def assoc_delete_def drop drop_map)
qed

lemma pending_set:
  assumes "collector_ok gc" and "table_inv h m" and "key_ok key" and "pos \<le> usedCount m" and "usedCount m < capacity m"
  shows "\<exists>h' m'. map_set gc h self m key v = Some (h', m') \<and> table_inv h' m' \<and>
           pending m' pos =
             (if assoc_has same_key key (live_entries m)
              then map (\<lambda>e. if same_key (fst e) key then (fst e, v) else e) (pending m pos)
              else pending m pos @ [(key, v)])"
proof -
  have upd: "filter (\<lambda>e. \<not> isHole (fst e)) (map (\<lambda>e. if same_key (fst e) key then (fst e, v) else e) xs) =
      map (\<lambda>e. if same_key (fst e) key then (fst e, v) else e) (filter (\<lambda>e. \<not> isHole (fst e)) xs)" for xs
    by (induction xs) auto
  have "length (map_slots m) = usedCount m" using assms(2) length_slots by (simp add: table_inv_def)
  then show ?thesis
    using map_set_correct [OF assms(1-3), of self v] assms(3-5)
    by (auto simp: pending_def upd drop_map key_ok_def)
qed

text \<open>A set on a full table compacts it: the entries move down over the tombstones and a cursor does not.\<close>

lemma pending_compaction:
  assumes gc: "collector_ok gc" and inv: "table_inv h m" and key: "key_ok key" and n: "key_ok n"
    and full: "usedCount m = capacity m" and slots: "map_slots m = xs @ (key, w) # e # ys"
    and live: "live_entries m = map_slots m" and new: "\<not> assoc_has same_key n (live_entries m)"
  shows "\<exists>h1 m1 b h2 m2. map_remove gc h self m key = Some (h1, m1, b) \<and> map_set gc h1 self m1 n v = Some (h2, m2) \<and>
           table_inv h2 m2 \<and> live_entries m2 = xs @ e # ys @ [(n, v)] \<and> pending m2 (Suc (length xs)) = ys @ [(n, v)]"
proof -
  have sl: "slots_inv m" using inv by (simp add: table_inv_def)
  have sorted: "sorted_wrt apart (map_slots m)" using sl by (simp add: slots_inv_def)
  have nh: "\<not> isHole (fst a)" if "a \<in> set (map_slots m)" for a
    using that live by (metis (mono_tags, lifting) filter_id_conv live_entries_def)
  have "\<not> same_key (fst a) key" if a: "a \<in> set (xs @ e # ys)" for a
  proof -
    have "apart a (key, w) \<or> apart (key, w) a"
      using a sorted unfolding slots by (auto simp: sorted_wrt_append)
    moreover have "\<not> isHole (fst a)" using a by (intro nh) (auto simp: slots)
    moreover have "\<not> isHole key" using key by (simp add: key_ok_def)
    ultimately show ?thesis using same_key_sym unfolding apart_def by auto
  qed
  then have del: "assoc_delete same_key key (live_entries m) = xs @ e # ys"
    unfolding live slots by (auto simp: assoc_delete_def filter_id_conv)
  obtain h1 m1 b where r: "map_remove gc h self m key = Some (h1, m1, b)" "table_inv h1 m1"
      "live_entries m1 = xs @ e # ys" "capacity m1 = capacity m" "length (map_slots m1) = length (map_slots m)"
    using map_remove_correct [OF gc inv key, of self] del by auto
  have used1: "usedCount m1 = capacity m1"
    using r full length_slots [of m1] length_slots [OF sl] by (simp add: table_inv_def)
  have new1: "\<not> assoc_has same_key n (live_entries m1)"
    using new live slots r(3) by (auto simp: assoc_has_def)
  obtain h2 m2 where t: "map_set gc h1 self m1 n v = Some (h2, m2)" "table_inv h2 m2"
      "live_entries m2 = (xs @ e # ys) @ [(n, v)]" "map_slots m2 = (xs @ e # ys) @ [(n, v)]"
    using map_set_correct [OF gc r(2) n, of self v] new1 used1 r(3) by (auto simp: assoc_set_def)
  have "filter (\<lambda>a. \<not> isHole (fst a)) (ys @ [(n, v)]) = ys @ [(n, v)]"
    using nh n unfolding slots key_ok_def by (auto simp: filter_id_conv)
  then show ?thesis using r(1) t by (auto simp: pending_def)
qed

section \<open>Properties\<close>

text \<open>A collector that moves objects: it exchanges two young ones.\<close>

definition swap_collector :: collector where
  "swap_collector h =
     (if movable h 0 \<and> movable h 1
      then h\<lparr>epoch := epoch h + 1, addr := (addr h)(0 := addr h 1, 1 := addr h 0)\<rparr> else h)"

definition young_heap :: heap where
  "young_heap = \<lparr>epoch = 0, addr = (\<lambda>r. ucast r), movable = (\<lambda>_. True)\<rparr>"

lemma swap_collector_ok: "collector_ok swap_collector"
  unfolding collector_ok_def
proof (intro allI impI)
  fix h assume wf: "heap_wf h"
  have "heap_wf (swap_collector h)"
    using wf unfolding heap_wf_def inj_def swap_collector_def
    by (auto simp: fun_upd_def split: if_splits) (metis zero_neq_one)
  then show "collected h (swap_collector h)"
    using collected_refl [OF wf] by (auto simp: collected_def swap_collector_def)
qed

lemma young_heap_wf: "heap_wf young_heap"
proof -
  have mask48: "kPayloadMask = mask 48" by (simp add: kPayloadMask_def mask_eq_exp_minus_1)
  have "(ucast r AND kPayloadMask :: u64) = ucast r" for r :: ref
    unfolding mask48 take_bit_eq_mask [symmetric] by (rule bit_word_eqI) (auto simp: bit_simps dest: bit_imp_le_length)
  moreover have "r = q" if "(ucast r :: u64) = ucast q" for r q :: ref
    using that by (simp add: word_unat_eq_iff unsigned_ucast_eq take_bit_nat_eq_self less_le_trans [OF unsigned_less])
  ultimately show ?thesis by (simp add: heap_wf_def inj_def young_heap_def)
qed

text \<open>Two keys the table's comparison calls the same are one key for a program (numbers by value with
  one NaN and one zero, strings by contents, BigInts by value, the rest by identity), and they hash alike.\<close>

theorem hash_respects_sameValueZero:
  assumes "heap_wf h" and "wf_value a" and "wf_value b"
  shows "(sameValueZero h a b \<longleftrightarrow> same_key a b) \<and> (sameValueZero h a b \<longrightarrow> hashKey h a = hashKey h b)"
  using sameValueZero_iff [OF assms] hashKey_same_key [OF _ assms(2,3)] by blast

theorem hash_respects_sameValueZero_witness:
  "heap_wf young_heap \<and> sameValueZero young_heap (Number 0) (Number 0x8000000000000000) \<and>
   hashKey young_heap (Number 0) = hashKey young_heap (Number 0x8000000000000000)"
proof -
  have "wf_value (Number 0)" "wf_value (Number 0x8000000000000000)" "same_key (Number 0) (Number 0x8000000000000000)"
    by (simp_all add: kNumberMaxBits_def double_eq_def is_zero_def is_nan_def)
  with hash_respects_sameValueZero [OF young_heap_wf, of "Number 0" "Number 0x8000000000000000"] young_heap_wf
  show ?thesis by blast
qed

text \<open>C2: Whatever a program does to a fresh table (sets, deletes, clears, with collections that move
  objects anywhere in between), every operation returns and the live entries are those of the
  insertion-ordered map that runs the same operations, with one entry per key.\<close>

theorem table_runs_spec:
  assumes "collector_ok gc" and "heap_wf h" and "\<forall>oper \<in> set opers. op_key_ok key_ok oper"
  shows "\<exists>h' m'. run_ops (table_exec gc self) opers (h, create) = Some (h', m') \<and> table_inv h' m' \<and>
           live_entries m' = fold (spec_step same_key) opers [] \<and>
           sorted_wrt (\<lambda>a b. \<not> same_key (fst a) (fst b)) (live_entries m')"
proof -
  have "table_ok gc (h, create)" using assms table_inv_create by (simp add: table_ok_def)
  from hash_table.run_refines [OF this assms(3), of self] obtain s' where
    "run_ops (table_exec gc self) opers (h, create) = Some s'" "table_ok gc s'"
    "live_entries (snd s') = fold (spec_step same_key) opers (live_entries create)"
    unfolding snd_conv by blast
  moreover have "live_entries create = []" by (simp add: live_entries_def map_slots_def create_def)
  moreover have "value_keys.one_entry_per_key (fold (spec_step same_key) opers [])" for opers :: "(Value, Value) map_op list"
    by (rule value_keys.one_entry_run) (simp add: value_keys.one_entry_per_key_def)
  ultimately show ?thesis
    by (cases s') (auto simp: table_ok_def value_keys.one_entry_per_key_def)
qed

theorem table_runs_spec_witness:
  "\<exists>h' m'. run_ops (table_exec swap_collector 7) [Put (Object 0) (Number 1), Collect, Put (Object 1) (Number 2), Delete (Object 0), Put (Object 0) (Number 3)] (young_heap, create) = Some (h', m') \<and>
     live_entries m' = [(Object 1, Number 2), (Object 0, Number 3)]"
  using table_runs_spec [OF swap_collector_ok young_heap_wf,
      of "[Put (Object 0) (Number 1), Collect, Put (Object 1) (Number 2), Delete (Object 0), Put (Object 0) (Number 3)]" 7]
  by (auto simp: key_ok_def assoc_set_def assoc_delete_def assoc_has_def)

text \<open>C10: The rooted lookup always returns and finds the live slot of the key, if any; the
  allocation-free lookup gives the same slot or asks for the rooted one, and for an object or symbol
  key the comparison of raw bits gives what the full comparison gives.\<close>

theorem lookups_agree:
  assumes "collector_ok gc" and "table_inv h m" and "key_ok key"
  shows "\<exists>h' m' r. find gc h self m key = Some (h', m', r) \<and> table_inv h' m' \<and>
           map_option (valueAt m) r = assoc_get same_key key (live_entries m) \<and>
           (findFast h self m key = Some (Answer r) \<or> findFast h self m key = Some Fallback) \<and>
           (ref_of key \<noteq> None \<longrightarrow> findFastIdentity h self m key = findFast h self m key)"
proof -
  obtain r where ans: "slot_answer m key r" using slot_answer_exists by blast
  have "slots_inv m" using assms(2) by (simp add: table_inv_def)
  from assoc_get_live [OF this ans] find_correct [OF assms ans, of self] findFast_or_fallback [OF assms(2,3) ans, of self]
    findFastIdentity_eq [OF assms(2,3), of self]
  show ?thesis by metis
qed

definition full_table :: map_header where
  "full_table = create\<lparr>entries := Some (map (\<lambda>r. (Object r, Number 0)) [0, 1, 2, 3, 4, 5, 6, 7]), liveCount := 8, usedCount := 8\<rparr>"

lemma full_table_slots:
  "map_slots full_table = map (\<lambda>r. (Object r, Number 0)) [0, 1, 2, 3, 4, 5, 6, 7]"
  "live_entries full_table = map_slots full_table" "capacity full_table = 8" "usedCount full_table = 8"
  by (simp_all add: full_table_def map_slots_def entryData_def create_def live_entries_def capacity_def)

lemma full_table_inv: "table_inv young_heap full_table"
proof -
  have "slots_inv full_table"
    unfolding slots_inv_def full_table_slots by (simp add: apart_def)
  moreover have "liveCount full_table = length (live_entries full_table)"
    unfolding full_table_slots by (simp add: full_table_def)
  moreover have "index_inv young_heap full_table"
    by (simp add: index_inv_def full_table_def create_def)
  ultimately show ?thesis using young_heap_wf by (simp add: table_inv_def)
qed

theorem lookups_agree_witness:
  "\<exists>h' m' r. find swap_collector young_heap 9 full_table (Object 3) = Some (h', m', r) \<and>
     map_option (valueAt full_table) r = Some (Number 0)"
  using lookups_agree [OF swap_collector_ok full_table_inv, of "Object 3" 9]
  by (auto simp: full_table_slots key_ok_def)

text \<open>C15: A collection, which may move every key that can move, keeps the invariant of the table and
  changes no answer: the lookup before and after it finds the same slot.\<close>

theorem collection_keeps_answers:
  assumes "collector_ok gc" and "table_inv h m" and "key_ok key" and "collected h h'"
  shows "table_inv h' m \<and>
         (\<exists>h1 m1 h2 m2 r. find gc h self m key = Some (h1, m1, r) \<and> find gc h' self m key = Some (h2, m2, r))"
proof -
  obtain r where ans: "slot_answer m key r" using slot_answer_exists by blast
  have inv': "table_inv h' m" using assms(2,4) by (rule table_inv_collected)
  show ?thesis
    using inv' find_correct [OF assms(1-3) ans, of self] find_correct [OF assms(1) inv' assms(3) ans, of self] by blast
qed

theorem collection_keeps_answers_witness:
  "table_inv (swap_collector young_heap) full_table \<and> addr (swap_collector young_heap) 0 \<noteq> addr young_heap 0"
proof -
  have "collected young_heap (swap_collector young_heap)"
    using swap_collector_ok young_heap_wf by (rule collector_okD)
  moreover have "key_ok (Object 0)" by (simp add: key_ok_def)
  ultimately have "table_inv (swap_collector young_heap) full_table"
    using collection_keeps_answers [OF swap_collector_ok full_table_inv, of "Object 0" "swap_collector young_heap"] by blast
  then show ?thesis by (simp add: swap_collector_def young_heap_def)
qed

text \<open>\<open>get\<close> after \<open>set\<close>: on a Map receiver, \<open>set(k, v)\<close> returns the map and the next \<open>get(l)\<close> yields
  \<open>v\<close> when \<open>l\<close> is the same key, and otherwise what it yielded before; on any other receiver both raise
  the TypeError and change nothing.\<close>

theorem get_after_set:
  assumes "collector_ok gc" and "table_inv h m" and "key_ok k" and "key_ok l"
  shows "(\<exists>h1 m1 h2 m2. rtMapSetBody gc h self MapKind m [k, v] = Some (h1, m1, Inr (Object self)) \<and>
            collectionGet gc h1 self MapKind m1 [l] False =
              Some (h2, m2, Inr (if same_key k l then v
                                 else case assoc_get same_key l (live_entries m) of None \<Rightarrow> fromUndefined | Some w \<Rightarrow> w)) \<and>
            table_inv h2 m2) \<and>
         (kind \<noteq> MapKind \<longrightarrow>
            rtMapSetBody gc h self kind m [k, v] = Some (h, m, Inl (IncompatibleReceiver False ''set'')) \<and>
            collectionGet gc h self kind m [l] False = Some (h, m, Inl (IncompatibleReceiver False ''get'')))"
proof -
  obtain h1 m1 where s: "map_set gc h self m k v = Some (h1, m1)" "table_inv h1 m1"
      "live_entries m1 = assoc_set same_key k v (live_entries m)"
    using map_set_correct [OF assms(1-3), of self v] by blast
  have "assoc_get same_key l (live_entries m1) = (if same_key k l then Some v else assoc_get same_key l (live_entries m))"
    using s(3) value_keys.get_set_same [of k v] value_keys.get_set_other [of k l v] value_keys.get_cong [of k l] by metis
  moreover have "rtMapSetBody gc h self MapKind m [k, v] = Some (h1, m1, Inr (Object self))"
    using s(1) by (simp add: rtMapSetBody_def requireCollection_def arg_def)
  moreover obtain h2 m2 where "collectionGet gc h1 self MapKind m1 [l] False =
      Some (h2, m2, Inr (case assoc_get same_key l (live_entries m1) of None \<Rightarrow> fromUndefined | Some v \<Rightarrow> v))" "table_inv h2 m2"
    using collectionGet_correct [OF assms(1) s(2), of "[l]" MapKind False self] assms(4)
    by (auto simp: arg_def requireCollection_def)
  moreover have "kind \<noteq> MapKind \<longrightarrow>
            rtMapSetBody gc h self kind m [k, v] = Some (h, m, Inl (IncompatibleReceiver False ''set'')) \<and>
            collectionGet gc h self kind m [l] False = Some (h, m, Inl (IncompatibleReceiver False ''get''))"
    by (simp add: rtMapSetBody_def collectionGet_def requireCollection_def fast_prologue_def)
  ultimately show ?thesis by auto
qed

theorem get_after_set_witness:
  "\<exists>h1 m1 h2 m2. rtMapSetBody swap_collector young_heap 9 MapKind full_table [Number 5, Number 6] = Some (h1, m1, Inr (Object 9)) \<and>
     collectionGet swap_collector h1 9 MapKind m1 [Object 2] False = Some (h2, m2, Inr (Number 0))"
proof -
  have "key_ok (Number 5)" "key_ok (Object 2)" by (simp_all add: key_ok_def kNumberMaxBits_def)
  from get_after_set [OF swap_collector_ok full_table_inv this, of 9 "Number 6" MapKind]
  show ?thesis by (auto simp: full_table_slots)
qed

text \<open>C27: Over a table nobody changes, the iterators and \<open>forEach\<close> end and visit the live entries once
  each in insertion order, keys, values or pairs as the kind asks.\<close>

theorem iteration_in_insertion_order:
  assumes "table_inv h m" and "\<And>v k u. cb v k (u, h, m) = Some (f v k u, h, m)" and "usedCount m \<le> n"
  shows "iterate n isSet m (rtMakeMapIterator kind) = map (produce isSet kind) (live_entries m) \<and>
         forEach_loop cb isSet 0 (u, h, m) =
           Some (fold (\<lambda>e. f (if isSet then fst e else snd e) (fst e)) (live_entries m) u, h, m)"
proof -
  have sl: "slots_inv m" using assms(1) by (simp add: table_inv_def)
  have "length (live_entries m) \<le> usedCount m"
    using length_slots [OF sl] length_filter_le [of _ "map_slots m"] by (simp add: live_entries_def)
  then show ?thesis
    using iterate_pending [OF sl, of "rtMakeMapIterator kind" n isSet] forEach_pending [OF sl, of cb h f isSet 0 u] assms(2,3)
    by (simp add: rtMakeMapIterator_def pending_0)
qed

theorem iteration_in_insertion_order_witness:
  "iterate 8 False full_table (rtMakeMapIterator MapIterKeys) = map (\<lambda>r. Single (Object r)) [0, 1, 2, 3, 4, 5, 6, 7]"
  using iteration_in_insertion_order [OF full_table_inv, of "\<lambda>v k st. Some st" "\<lambda>v k u. u" 8 False MapIterKeys "()"]
  by (simp add: full_table_slots produce_def)

text \<open>A cursor keeps its place: a delete takes the key out of what the cursor has still to visit
  and nothing else, and a set on a table with room updates the pending entry or appends a new one.\<close>

theorem cursor_keeps_place:
  assumes "collector_ok gc" and "table_inv h m" and "key_ok key" and "pos \<le> usedCount m"
  shows "(\<exists>h' m' b. map_remove gc h self m key = Some (h', m', b) \<and> table_inv h' m' \<and>
            pending m' pos = assoc_delete same_key key (pending m pos)) \<and>
         (usedCount m < capacity m \<longrightarrow>
           (\<exists>h' m'. map_set gc h self m key v = Some (h', m') \<and> table_inv h' m' \<and>
             pending m' pos =
               (if assoc_has same_key key (live_entries m)
                then map (\<lambda>e. if same_key (fst e) key then (fst e, v) else e) (pending m pos)
                else pending m pos @ [(key, v)])))"
  using pending_remove [OF assms(1-3), of self pos] pending_set [OF assms(1-4), of self v] by blast

theorem cursor_keeps_place_witness:
  "\<exists>h' m' b. map_remove swap_collector young_heap 9 full_table (Object 6) = Some (h', m', b) \<and>
     pending m' 5 = [(Object 5, Number 0), (Object 7, Number 0)]"
proof -
  have "key_ok (Object 6)" "pending full_table 5 = map (\<lambda>r. (Object r, Number 0)) [5, 6, 7]"
    by (simp_all add: key_ok_def pending_def full_table_slots)
  with cursor_keeps_place [OF swap_collector_ok full_table_inv, of "Object 6" 5 9]
  show ?thesis by (auto simp: full_table_slots assoc_delete_def)
qed

text \<open>A set on a full table compacts it under a running iteration: when the callback deletes the
  entry it is at and adds a new key, the entry after it is not visited although it stays in the map.\<close>

theorem compaction_skips_entry:
  assumes "collector_ok gc" and "table_inv h m" and "key_ok key" and "key_ok n" and "usedCount m = capacity m"
    and "map_slots m = xs @ (key, w) # e # ys" and "live_entries m = map_slots m"
    and "\<not> assoc_has same_key n (live_entries m)"
  shows "\<exists>h1 m1 b h2 m2. map_remove gc h self m key = Some (h1, m1, b) \<and> map_set gc h1 self m1 n v = Some (h2, m2) \<and>
           e \<in> set (live_entries m2) \<and> pending m (Suc (length xs)) = e # ys \<and>
           pending m2 (Suc (length xs)) = ys @ [(n, v)]"
proof -
  have "\<forall>a \<in> set (map_slots m). \<not> isHole (fst a)"
    using assms(7) unfolding live_entries_def by (simp only: filter_id_conv)
  then have "pending m (Suc (length xs)) = e # ys"
    by (auto simp: pending_def assms(6) filter_id_conv)
  with pending_compaction [OF assms, of self v] show ?thesis by auto
qed

theorem compaction_skips_entry_witness:
  "\<exists>h1 m1 b h2 m2. map_remove swap_collector young_heap 9 full_table (Object 0) = Some (h1, m1, b) \<and>
     map_set swap_collector h1 9 m1 (Object 8) (Number 0) = Some (h2, m2) \<and>
     (Object 1, Number 0) \<in> set (live_entries m2) \<and> (Object 1, Number 0) \<notin> set (pending m2 1)"
proof -
  have "\<not> assoc_has same_key (Object 8) (live_entries full_table)"
    by (simp add: full_table_slots assoc_has_def)
  from compaction_skips_entry [OF swap_collector_ok full_table_inv _ _ _ _ full_table_slots(2) this, of "Object 0" "[]" "Number 0"
      "(Object 1, Number 0)" "map (\<lambda>r. (Object r, Number 0)) [2, 3, 4, 5, 6, 7]" 9 "Number 0"]
  show ?thesis by (auto simp: full_table_slots key_ok_def)
qed

text \<open>\<open>Set.prototype.add\<close> and \<open>Map.prototype.set\<close> store a negative zero as it comes.\<close>

theorem set_add_keeps_negative_zero:
  assumes "collector_ok gc" and "heap_wf h"
  shows "\<exists>h' m'. rtSetAddBody gc h self SetKind create [Number 0x8000000000000000] = Some (h', m', Inr (Object self)) \<and>
           map fst (live_entries m') = [Number 0x8000000000000000]"
proof -
  have "key_ok (Number 0x8000000000000000)" by (simp add: key_ok_def kNumberMaxBits_def)
  from map_set_correct [OF assms(1) table_inv_create [OF assms(2)] this, of self "Number 0x8000000000000000"]
  show ?thesis
    by (auto simp: rtSetAddBody_def requireCollection_def arg_def assoc_set_def assoc_has_def live_entries_def map_slots_def create_def)
qed

text \<open>An entry added after a \<open>clear\<close> inside a callback lands before the cursor and is not visited.\<close>

theorem clear_resets_under_cursor:
  assumes "collector_ok gc" and "table_inv h m" and "key_ok n"
  shows "\<exists>h' m'. map_set gc h self (map_clear m) n v = Some (h', m') \<and> live_entries m' = [(n, v)] \<and> pending m' (Suc pos) = []"
proof -
  note c = map_clear_correct [OF assms(2)]
  have "map_slots (map_clear m) = []" by (simp add: map_clear_def map_slots_def)
  with map_set_correct [OF assms(1) c(1) assms(3), of self v] c(2)
  show ?thesis by (auto simp: assoc_set_def assoc_has_def pending_def)
qed

end
