(* ===== verification/Set_Operations.thy ===== *)
theory Set_Operations
  imports Complex_Main Map_Methods
begin

text \<open>
  The set operations of \<open>Set.prototype\<close> (\<open>src/src/runtime/builtin_set_ops.cpp\<close>): \<open>union\<close>, \<open>intersection\<close>,
  \<open>difference\<close>, \<open>symmetricDifference\<close> and the three predicates, over the tables of \<open>Map_Table\<close>.

  The argument is any set-like object. Its \<open>size\<close> (already converted to a number), \<open>has\<close> and \<open>keys\<close> are
  program code and so parameters of the model: \<open>has\<close> is a predicate on values and \<open>keys\<close> the values its
  iterator yields; methods that throw or that change the receiver while it is walked are not modelled.
  The receiver, the result and the set of matches of \<open>intersection\<close> are separate tables in one heap, and
  creating a table is an allocation, at which the collector may run.
\<close>

section \<open>Definitions\<close>

datatype set_error = NotASet | NotSetLike | SizeNotNumeric | SizeNegative | NoHas | NoKeys | KeysNotObject

datatype number_value = NumNaN | NumInf bool | NumFin rat

record set_like =
  isObject :: bool
  sizeNumber :: number_value
  hasMethod :: "(Value \<Rightarrow> bool) option"
  keysMethod :: "Value list option option"

datatype claimed_size = Unbounded | Bounded int

record set_record =
  rec_size :: claimed_size
  rec_has :: "Value \<Rightarrow> bool"
  rec_keys :: "Value list option"

definition canonicalizeKey :: "Value \<Rightarrow> Value" where
  "canonicalizeKey v = (case v of Number b \<Rightarrow> if double_eq b 0 then Number 0 else v | _ \<Rightarrow> v)"

definition trunc :: "rat \<Rightarrow> int" where
  "trunc x = (if x < 0 then \<lceil>x\<rceil> else \<lfloor>x\<rfloor>)"

definition checkSize :: "number_value \<Rightarrow> set_error + claimed_size" where
  "checkSize n =
     (case n of
        NumNaN \<Rightarrow> Inl SizeNotNumeric
      | NumInf negative \<Rightarrow> if negative then Inl SizeNegative else Inr Unbounded
      | NumFin x \<Rightarrow> if x < 0 then Inl SizeNegative else Inr (Bounded (trunc x)))"

definition getSetRecord :: "set_like \<Rightarrow> set_error + set_record" where
  "getSetRecord other =
     (if \<not> isObject other then Inl NotSetLike
      else
        (case checkSize (sizeNumber other) of
           Inl e \<Rightarrow> Inl e
         | Inr n \<Rightarrow>
             (case hasMethod other of
                None \<Rightarrow> Inl NoHas
              | Some has \<Rightarrow>
                  (case keysMethod other of
                     None \<Rightarrow> Inl NoKeys
                   | Some keys \<Rightarrow> Inr \<lparr>rec_size = n, rec_has = has, rec_keys = keys\<rparr>))))"

definition openKeys :: "set_record \<Rightarrow> set_error + Value list" where
  "openKeys rec = (case rec_keys rec of None \<Rightarrow> Inl KeysNotObject | Some ks \<Rightarrow> Inr ks)"

definition size_le :: "nat \<Rightarrow> claimed_size \<Rightarrow> bool" where
  "size_le n bound = (case bound of Unbounded \<Rightarrow> True | Bounded z \<Rightarrow> int n \<le> z)"

definition size_less :: "nat \<Rightarrow> claimed_size \<Rightarrow> bool" where
  "size_less n bound = (case bound of Unbounded \<Rightarrow> True | Bounded z \<Rightarrow> int n < z)"

definition addTo :: "collector \<Rightarrow> ref \<Rightarrow> Value \<Rightarrow> table_state \<Rightarrow> table_state option" where
  "addTo gc r v s = map_set gc (fst s) r (snd s) (canonicalizeKey v) (canonicalizeKey v)"

definition setHas :: "collector \<Rightarrow> ref \<Rightarrow> Value \<Rightarrow> table_state \<Rightarrow> (table_state \<times> bool) option" where
  "setHas gc r v s =
     map_option (\<lambda>(h, m, slot). ((h, m), slot \<noteq> None)) (find gc (fst s) r (snd s) (canonicalizeKey v))"

definition removeFrom :: "collector \<Rightarrow> ref \<Rightarrow> Value \<Rightarrow> table_state \<Rightarrow> table_state option" where
  "removeFrom gc r v s =
     map_option (\<lambda>(h, m, removed). (h, m)) (map_remove gc (fst s) r (snd s) (canonicalizeKey v))"

text \<open>The snapshot of the live elements in a block of \<open>count\<close> values that starts out \<open>undefined\<close>.\<close>

definition fillLiveElements :: "map_header \<Rightarrow> nat \<Rightarrow> Value list" where
  "fillLiveElements m count =
     (let ks = take count (map fst (filter (\<lambda>e. \<not> isHole (fst e)) (take (usedCount m) (entryData m))))
      in ks @ replicate (count - length ks) fromUndefined)"

text \<open>One turn of the loops that test one table and write another: \<open>(heap, tested, written)\<close>.\<close>

type_synonym two_tables = "heap \<times> map_header \<times> map_header"

definition test_then ::
  "collector \<Rightarrow> ref \<Rightarrow> (Value \<Rightarrow> table_state \<Rightarrow> table_state option) \<Rightarrow> (Value \<Rightarrow> table_state \<Rightarrow> table_state option) \<Rightarrow>
     Value \<Rightarrow> two_tables \<Rightarrow> two_tables option" where
  "test_then gc r yes no v s =
     (case s of (h, m, w) \<Rightarrow>
        (case setHas gc r v (h, m) of
           None \<Rightarrow> None
         | Some ((h1, m1), present) \<Rightarrow>
             map_option (\<lambda>(h2, w'). (h2, m1, w')) ((if present then yes else no) v (h1, w))))"

definition skip :: "Value \<Rightarrow> table_state \<Rightarrow> table_state option" where
  "skip v s = Some s"

type_synonym set_result = "(set_error + two_tables) option"

text \<open>The prologue every member opens with.\<close>

definition with_record :: "coll_kind \<Rightarrow> set_like \<Rightarrow> (set_record \<Rightarrow> (set_error + 'r) option) \<Rightarrow> (set_error + 'r) option" where
  "with_record kind other body =
     (if kind \<noteq> SetKind then Some (Inl NotASet)
      else (case getSetRecord other of Inl e \<Rightarrow> Some (Inl e) | Inr rec \<Rightarrow> body rec))"

definition with_keys :: "set_record \<Rightarrow> (Value list \<Rightarrow> (set_error + 'r) option) \<Rightarrow> (set_error + 'r) option" where
  "with_keys rec body = (case openKeys rec of Inl e \<Rightarrow> Some (Inl e) | Inr ks \<Rightarrow> body ks)"

definition setUnion ::
  "collector \<Rightarrow> ref \<Rightarrow> coll_kind \<Rightarrow> heap \<Rightarrow> map_header \<Rightarrow> set_like \<Rightarrow> set_result" where
  "setUnion gc res kind h m other =
     with_record kind other (\<lambda>rec. with_keys rec (\<lambda>ks.
       map_option (\<lambda>(h', w). Inr (h', m, w))
         (Option.bind (run_ops (addTo gc res) (fillLiveElements m (liveCount m)) (gc h, create))
            (run_ops (addTo gc res) ks))))"

definition setIntersection ::
  "collector \<Rightarrow> ref \<Rightarrow> ref \<Rightarrow> ref \<Rightarrow> coll_kind \<Rightarrow> heap \<Rightarrow> map_header \<Rightarrow> set_like \<Rightarrow> set_result" where
  "setIntersection gc self aux res kind h m other =
     with_record kind other (\<lambda>rec.
       if size_le (liveCount m) (rec_size rec) then
         map_option (\<lambda>(h', w). Inr (h', m, w))
           (run_ops (\<lambda>v. if rec_has rec v then addTo gc res v else skip v)
              (fillLiveElements m (liveCount m)) (gc h, create))
       else
         with_keys rec (\<lambda>ks.
           case run_ops (test_then gc self (addTo gc aux) skip) ks (gc (gc h), m, create) of
             None \<Rightarrow> None
           | Some (h1, m1, matched) \<Rightarrow>
               map_option (\<lambda>(h2, matched', w). Inr (h2, m1, w))
                 (run_ops (test_then gc aux (addTo gc res) skip)
                    (fillLiveElements m1 (liveCount m1)) (h1, matched, create))))"

definition setDifference ::
  "collector \<Rightarrow> ref \<Rightarrow> coll_kind \<Rightarrow> heap \<Rightarrow> map_header \<Rightarrow> set_like \<Rightarrow> set_result" where
  "setDifference gc res kind h m other =
     with_record kind other (\<lambda>rec.
       case run_ops (addTo gc res) (fillLiveElements m (liveCount m)) (gc h, create) of
         None \<Rightarrow> None
       | Some s \<Rightarrow>
           if size_le (liveCount m) (rec_size rec) then
             map_option (\<lambda>(h', w). Inr (h', m, w))
               (run_ops (\<lambda>v. if rec_has rec v then removeFrom gc res v else skip v)
                  (fillLiveElements m (liveCount m)) s)
           else
             with_keys rec (\<lambda>ks. map_option (\<lambda>(h', w). Inr (h', m, w)) (run_ops (removeFrom gc res) ks s)))"

definition setSymmetricDifference ::
  "collector \<Rightarrow> ref \<Rightarrow> ref \<Rightarrow> coll_kind \<Rightarrow> heap \<Rightarrow> map_header \<Rightarrow> set_like \<Rightarrow> set_result" where
  "setSymmetricDifference gc self res kind h m other =
     with_record kind other (\<lambda>rec. with_keys rec (\<lambda>ks.
       case run_ops (addTo gc res) (fillLiveElements m (liveCount m)) (gc h, create) of
         None \<Rightarrow> None
       | Some (h1, w) \<Rightarrow>
           map_option Inr (run_ops (test_then gc self (removeFrom gc res) (addTo gc res)) ks (h1, m, w))))"

text \<open>A predicate answers with its truth value and whether it closed the other side's iterator.\<close>

type_synonym predicate_result = "(set_error + table_state \<times> bool \<times> bool) option"

definition setIsSubsetOf :: "coll_kind \<Rightarrow> heap \<Rightarrow> map_header \<Rightarrow> set_like \<Rightarrow> predicate_result" where
  "setIsSubsetOf kind h m other =
     with_record kind other (\<lambda>rec.
       Some (Inr ((h, m),
         (if \<not> size_le (liveCount m) (rec_size rec) then False
          else list_all (rec_has rec) (fillLiveElements m (liveCount m))), False)))"

text \<open>The walk over the other side's keys that stops, closing the iterator, at the first one whose
  presence in this set is \<open>stop\<close>.\<close>

fun keys_until :: "collector \<Rightarrow> ref \<Rightarrow> bool \<Rightarrow> Value list \<Rightarrow> table_state \<Rightarrow> (table_state \<times> bool \<times> bool) option" where
  "keys_until gc self stop [] s = Some (s, True, False)"
| "keys_until gc self stop (v # vs) s =
     (case setHas gc self v s of
        None \<Rightarrow> None
      | Some (s', present) \<Rightarrow> if present = stop then Some (s', False, True) else keys_until gc self stop vs s')"

definition setIsSupersetOf :: "collector \<Rightarrow> ref \<Rightarrow> coll_kind \<Rightarrow> heap \<Rightarrow> map_header \<Rightarrow> set_like \<Rightarrow> predicate_result" where
  "setIsSupersetOf gc self kind h m other =
     with_record kind other (\<lambda>rec.
       if size_less (liveCount m) (rec_size rec) then Some (Inr ((h, m), False, False))
       else with_keys rec (\<lambda>ks. map_option Inr (keys_until gc self False ks (h, m))))"

definition setIsDisjointFrom :: "collector \<Rightarrow> ref \<Rightarrow> coll_kind \<Rightarrow> heap \<Rightarrow> map_header \<Rightarrow> set_like \<Rightarrow> predicate_result" where
  "setIsDisjointFrom gc self kind h m other =
     with_record kind other (\<lambda>rec.
       if size_le (liveCount m) (rec_size rec) then
         Some (Inr ((h, m), list_all (\<lambda>v. \<not> rec_has rec v) (fillLiveElements m (liveCount m)), False))
       else with_keys rec (\<lambda>ks. map_option Inr (keys_until gc self True ks (h, m))))"

section \<open>Keys up to SameValueZero\<close>

definition key_mem :: "Value \<Rightarrow> Value list \<Rightarrow> bool" where
  "key_mem k ks \<longleftrightarrow> (\<exists>l \<in> set ks. same_key l k)"

definition add_key :: "Value \<Rightarrow> Value list \<Rightarrow> Value list" where
  "add_key k ks = (if key_mem k ks then ks else ks @ [k])"

definition del_key :: "Value \<Rightarrow> Value list \<Rightarrow> Value list" where
  "del_key k ks = filter (\<lambda>l. \<not> same_key l k) ks"

definition distinct_keys :: "Value list \<Rightarrow> bool" where
  "distinct_keys ks \<longleftrightarrow> sorted_wrt (\<lambda>a b. \<not> same_key a b) ks"

definition table_keys :: "map_header \<Rightarrow> Value list" where
  "table_keys m = map fst (live_entries m)"

abbreviation canon :: "Value \<Rightarrow> Value" where
  "canon \<equiv> canonicalizeKey"

lemma same_key_canon: "same_key (canon v) v"
  by (cases v) (auto simp: canonicalizeKey_def double_eq_0, auto simp: double_eq_def is_zero_def is_nan_def)

lemma same_key_iff: "same_key a b \<Longrightarrow> same_key a c \<longleftrightarrow> same_key b c" "same_key a b \<Longrightarrow> same_key c a \<longleftrightarrow> same_key c b"
  using same_key_sym same_key_trans by blast+

lemma canon_left [simp]: "same_key (canon v) k \<longleftrightarrow> same_key v k"
  using same_key_iff(1) [OF same_key_canon] .

lemma canon_right [simp]: "same_key k (canon v) \<longleftrightarrow> same_key k v"
  using same_key_iff(2) [OF same_key_canon] .

lemma key_ok_canon [simp]: "key_ok v \<Longrightarrow> key_ok (canon v)"
  by (cases v) (auto simp: canonicalizeKey_def key_ok_def kNumberMaxBits_def)

lemma key_mem_canon [simp]: "key_mem (canon v) ks \<longleftrightarrow> key_mem v ks" "key_mem v (map canon ks) \<longleftrightarrow> key_mem v ks"
  by (auto simp: key_mem_def)

lemma key_mem_simps [simp]: "\<not> key_mem v []" "key_mem v (k # ks) \<longleftrightarrow> same_key k v \<or> key_mem v ks"
    "key_mem v (ks @ ls) \<longleftrightarrow> key_mem v ks \<or> key_mem v ls"
  by (auto simp: key_mem_def)

lemma key_mem_cong: "same_key a b \<Longrightarrow> key_mem a ks \<longleftrightarrow> key_mem b ks"
  by (auto simp: key_mem_def same_key_iff(2) [of a b])

lemma distinct_keys_simps [simp]: "distinct_keys []" "distinct_keys (k # ks) \<longleftrightarrow> \<not> key_mem k ks \<and> distinct_keys ks"
  using same_key_sym by (auto simp: distinct_keys_def key_mem_def)

lemma distinct_keys_append:
  "distinct_keys (ks @ ls) \<longleftrightarrow> distinct_keys ks \<and> distinct_keys ls \<and> (\<forall>l \<in> set ls. \<not> key_mem l ks)"
  by (auto simp: distinct_keys_def sorted_wrt_append key_mem_def)

lemma del_key_simps [simp]: "del_key k [] = []"
    "del_key k (l # ls) = (if same_key l k then del_key k ls else l # del_key k ls)"
    "del_key k (ks @ ls) = del_key k ks @ del_key k ls"
  by (simp_all add: del_key_def)

lemma del_key_absent: "\<not> key_mem k ks \<Longrightarrow> del_key k ks = ks"
  by (induction ks) simp_all

text \<open>Adding the keys \<open>vs\<close>, none twice, to \<open>ks\<close>.\<close>

lemma fold_add_key:
  "distinct_keys vs \<Longrightarrow> fold (\<lambda>v. add_key (canon v)) vs ks = ks @ map canon (filter (\<lambda>v. \<not> key_mem v ks) vs)"
proof (induction vs arbitrary: ks)
  case (Cons v vs)
  have "filter (\<lambda>u. \<not> key_mem u (ks @ [canon v])) vs = filter (\<lambda>u. \<not> key_mem u ks) vs"
    using Cons.prems same_key_sym by (intro filter_cong) (auto simp: key_mem_def)
  with Cons show ?case by (auto simp: add_key_def)
qed simp

lemma fold_del_key: "fold (\<lambda>v. del_key (canon v)) vs ks = filter (\<lambda>k. \<not> key_mem k vs) ks"
proof (induction vs arbitrary: ks)
  case (Cons v vs)
  have "filter (\<lambda>k. \<not> key_mem k vs) (del_key (canon v) ks) = filter (\<lambda>k. \<not> key_mem k (v # vs)) ks"
    unfolding del_key_def filter_filter using same_key_sym by (intro filter_cong) auto
  with Cons show ?case by simp
qed simp

lemma fold_skip: "fold (\<lambda>v. if P v then f v else id) vs a = fold f (filter P vs) a"
  by (induction vs arbitrary: a) simp_all

lemma distinct_keys_filter: "distinct_keys ks \<Longrightarrow> distinct_keys (filter P ks)"
  by (simp add: distinct_keys_def sorted_wrt_filter)

lemma filter_mem_map_canon: "filter (\<lambda>k. P (canon k)) ks = filter P' ks \<Longrightarrow> filter P (map canon ks) = map canon (filter P' ks)"
  by (simp add: filter_map comp_def)

text \<open>Distinct keys that all occur in a list are no more than the list has.\<close>

lemma keys_pigeonhole:
  "distinct_keys xs \<Longrightarrow> \<forall>x \<in> set xs. key_mem x ys \<Longrightarrow> length xs \<le> length ys"
proof (induction xs arbitrary: ys)
  case (Cons x xs)
  from Cons.prems obtain y where y: "y \<in> set ys" "same_key y x" by (auto simp: key_mem_def)
  have "key_mem z (remove1 y ys)" if z: "z \<in> set xs" for z
  proof -
    obtain l where l: "l \<in> set ys" "same_key l z" using Cons.prems(2) z by (auto simp: key_mem_def)
    have "\<not> same_key z x" using Cons.prems(1) z by (auto simp: key_mem_def)
    then have "l \<noteq> y" using l(2) y(2) same_key_sym same_key_trans by blast
    then show ?thesis using l by (auto simp: key_mem_def)
  qed
  then have "length xs \<le> length (remove1 y ys)" using Cons by simp
  then have "length xs \<le> length ys - 1" using y(1) by (simp add: length_remove1)
  then show ?case using length_pos_if_in_set [OF y(1)] unfolding length_Cons by linarith
qed simp

section \<open>The table operations on keys\<close>

definition in_heap :: "heap \<Rightarrow> table_state \<Rightarrow> Value list \<Rightarrow> bool" where
  "in_heap h0 s ks \<longleftrightarrow> collected h0 (fst s) \<and> table_inv (fst s) (snd s) \<and> table_keys (snd s) = ks"

lemma key_mem_table: "key_mem k (table_keys m) \<longleftrightarrow> assoc_has same_key k (live_entries m)"
  by (simp add: key_mem_def table_keys_def assoc_has_def)

lemma assoc_has_canon [simp]: "assoc_has same_key (canon v) xs \<longleftrightarrow> assoc_has same_key v xs"
  by (simp add: assoc_has_def)

lemma addTo_keys:
  assumes "collector_ok gc" and "in_heap h0 s ks" and "key_ok v"
  shows "\<exists>s'. addTo gc r v s = Some s' \<and> in_heap h0 s' (add_key (canon v) ks) \<and> collected (fst s) (fst s')"
proof -
  have inv: "table_inv (fst s) (snd s)" using assms(2) by (simp add: in_heap_def)
  from map_set_correct [OF assms(1) inv key_ok_canon [OF assms(3)], of r "canon v"]
  obtain h' m' where "map_set gc (fst s) r (snd s) (canon v) (canon v) = Some (h', m')" "collected (fst s) h'" "table_inv h' m'"
    "live_entries m' = assoc_set same_key (canon v) (canon v) (live_entries (snd s))" by blast
  then show ?thesis
    using assms(2) collected_trans
    by (auto simp: addTo_def in_heap_def table_keys_def value_keys.keys_set add_key_def key_mem_table [unfolded table_keys_def])
qed

lemma removeFrom_keys:
  assumes "collector_ok gc" and "in_heap h0 s ks" and "key_ok v"
  shows "\<exists>s'. removeFrom gc r v s = Some s' \<and> in_heap h0 s' (del_key (canon v) ks) \<and> collected (fst s) (fst s')"
proof -
  have inv: "table_inv (fst s) (snd s)" using assms(2) by (simp add: in_heap_def)
  have "map fst (assoc_delete same_key k xs) = del_key k (map fst xs)" for k and xs :: "(Value \<times> Value) list"
    by (simp add: assoc_delete_def del_key_def filter_map comp_def)
  with map_remove_correct [OF assms(1) inv key_ok_canon [OF assms(3)], of r] show ?thesis
    using assms(2) collected_trans by (auto simp: removeFrom_def in_heap_def table_keys_def)
qed

lemma setHas_keys:
  assumes "collector_ok gc" and "table_inv h m" and "key_ok v"
  shows "\<exists>h' m'. setHas gc r v (h, m) = Some ((h', m'), key_mem v (table_keys m)) \<and> collected h h' \<and> table_inv h' m' \<and>
           live_entries m' = live_entries m"
proof -
  obtain a where ans: "slot_answer m (canon v) a" using slot_answer_exists by blast
  have sl: "slots_inv m" using assms(2) by (simp add: table_inv_def)
  have "key_mem v (table_keys m) \<longleftrightarrow> a \<noteq> None"
    using assoc_get_live [OF sl ans] assoc_get_None [of same_key "canon v" "live_entries m"] key_mem_table [of "canon v" m]
    by (cases a) simp_all
  moreover obtain h' m' where f: "find gc h r m (canon v) = Some (h', m', a)" "collected h h'" "table_inv h' m'"
      "entries m' = entries m" "usedCount m' = usedCount m"
    using find_correct [OF assms(1,2) key_ok_canon [OF assms(3)] ans] by blast
  ultimately show ?thesis using live_entries_cong [OF f(4,5)] by (simp add: setHas_def)
qed

lemma run_ops_refines:
  assumes "R s a" and "\<And>v s a. v \<in> set vs \<Longrightarrow> R s a \<Longrightarrow> \<exists>s'. exec v s = Some s' \<and> R s' (spec v a)"
  shows "\<exists>s'. run_ops exec vs s = Some s' \<and> R s' (fold spec vs a)"
  using assms
proof (induction vs arbitrary: s a)
  case (Cons v vs)
  from Cons.prems obtain s' where s': "exec v s = Some s'" "R s' (spec v a)" by force
  from Cons.IH [OF s'(2)] Cons.prems(2) s'(1) show ?case by simp
qed simp

lemma fillLiveElements_keys:
  assumes "table_inv h m" shows "fillLiveElements m (liveCount m) = table_keys m"
  using assms by (simp add: fillLiveElements_def table_keys_def table_inv_def live_entries_def map_slots_def)

lemma table_keys_ok:
  assumes "table_inv h m" shows "\<forall>k \<in> set (table_keys m). key_ok k" "distinct_keys (table_keys m)"
proof -
  have sl: "slots_inv m" using assms by (simp add: table_inv_def)
  then show "\<forall>k \<in> set (table_keys m). key_ok k"
    by (auto simp: table_keys_def live_entries_def slots_inv_def key_ok_def)
  have "sorted_wrt apart (live_entries m)"
    using sl by (simp add: slots_inv_def live_entries_def sorted_wrt_filter)
  then have "sorted_wrt (\<lambda>a b. \<not> same_key (fst a) (fst b)) (live_entries m)"
    by (rule sorted_wrt_mono_rel [rotated]) (auto simp: apart_def live_entries_def)
  then show "distinct_keys (table_keys m)" by (simp add: distinct_keys_def table_keys_def sorted_wrt_map)
qed

text \<open>A fresh result set filled with the elements of this one.\<close>

lemma newSet_keys:
  assumes "collector_ok gc" and "heap_wf h" shows "in_heap h (gc h, create) []"
  using collector_okD [OF assms] table_inv_create collected_wf
  by (auto simp: in_heap_def table_keys_def live_entries_def map_slots_def create_def)

lemma add_all_keys:
  assumes "collector_ok gc" and "in_heap h0 s ks" and "\<forall>v \<in> set vs. key_ok v"
  shows "\<exists>s'. run_ops (addTo gc r) vs s = Some s' \<and> in_heap h0 s' (fold (\<lambda>v. add_key (canon v)) vs ks)"
  by (rule run_ops_refines [where R = "in_heap h0", OF assms(2)]) (use addTo_keys [OF assms(1)] assms(3) in blast)

lemma copy_keys:
  assumes "collector_ok gc" and "table_inv h m"
  shows "\<exists>s'. run_ops (addTo gc r) (fillLiveElements m (liveCount m)) (gc h, create) = Some s' \<and>
           in_heap h s' (map canon (table_keys m))"
proof -
  have "heap_wf h" using assms(2) by (simp add: table_inv_def)
  from add_all_keys [OF assms(1) newSet_keys [OF assms(1) this] table_keys_ok(1) [OF assms(2)], of r] show ?thesis
    using fold_add_key [OF table_keys_ok(2) [OF assms(2)], of "[]"] fillLiveElements_keys [OF assms(2)] by simp
qed

lemma in_heap_inv: "table_inv h m \<Longrightarrow> in_heap h s ks \<Longrightarrow> table_inv (fst s) m"
  by (auto simp: in_heap_def intro: table_inv_collected)

text \<open>A loop that tests the table \<open>m\<close> and writes another.\<close>

definition two_in_heap :: "heap \<Rightarrow> map_header \<Rightarrow> two_tables \<Rightarrow> Value list \<Rightarrow> bool" where
  "two_in_heap h0 m0 s ks \<longleftrightarrow>
     (case s of (h, m, w) \<Rightarrow> table_inv h m \<and> live_entries m = live_entries m0 \<and> in_heap h0 (h, w) ks)"

lemma test_then_keys:
  assumes gc: "collector_ok gc" and R: "two_in_heap h0 m0 s ks" and v: "key_ok v"
    and yes: "\<And>s ks. in_heap h0 s ks \<Longrightarrow> \<exists>s'. yes v s = Some s' \<and> in_heap h0 s' (fy v ks) \<and> collected (fst s) (fst s')"
    and no: "\<And>s ks. in_heap h0 s ks \<Longrightarrow> \<exists>s'. no v s = Some s' \<and> in_heap h0 s' (fn v ks) \<and> collected (fst s) (fst s')"
  shows "\<exists>s'. test_then gc r yes no v s = Some s' \<and> two_in_heap h0 m0 s' (if key_mem v (table_keys m0) then fy v ks else fn v ks)"
proof -
  obtain h m w where s: "s = (h, m, w)" by (cases s)
  have inv: "table_inv h m" "live_entries m = live_entries m0" "in_heap h0 (h, w) ks" using R by (simp_all add: two_in_heap_def s)
  have keys: "table_keys m = table_keys m0" using inv(2) by (simp add: table_keys_def)
  obtain h1 m1 where t: "setHas gc r v (h, m) = Some ((h1, m1), key_mem v (table_keys m0))" "collected h h1" "table_inv h1 m1"
      "live_entries m1 = live_entries m"
    using setHas_keys [OF gc inv(1) v, of r] keys by auto
  have w1: "in_heap h0 (h1, w) ks"
    using inv(3) t(2) collected_trans table_inv_collected by (auto simp: in_heap_def)
  obtain s' where "(if key_mem v (table_keys m0) then yes else no) v (h1, w) = Some s'"
      "in_heap h0 s' (if key_mem v (table_keys m0) then fy v ks else fn v ks)" "collected h1 (fst s')"
    using yes [OF w1] no [OF w1] by (cases "key_mem v (table_keys m0)") auto
  then show ?thesis
    using t inv(2) table_inv_collected [OF t(3)] by (cases s') (auto simp: s test_then_def two_in_heap_def)
qed

lemma skip_keys: "in_heap h0 s ks \<Longrightarrow> \<exists>s'. skip v s = Some s' \<and> in_heap h0 s' ks \<and> collected (fst s) (fst s')"
  by (auto simp: skip_def in_heap_def table_inv_def intro: collected_refl)

section \<open>The members\<close>

text \<open>A set-like argument that behaves like a set: its keys are distinct, its size is their number and
  \<open>has\<close> tests them.\<close>

definition honest :: "set_record \<Rightarrow> Value list \<Rightarrow> bool" where
  "honest rec ks \<longleftrightarrow>
     rec_size rec = Bounded (int (length ks)) \<and> rec_keys rec = Some ks \<and> distinct_keys ks \<and>
     (\<forall>k \<in> set ks. key_ok k) \<and> (\<forall>v. key_ok v \<longrightarrow> (rec_has rec v \<longleftrightarrow> key_mem v ks))"

lemma setUnion_keys:
  assumes gc: "collector_ok gc" and inv: "table_inv h m" and rec: "getSetRecord other = Inr rec" and ho: "honest rec ks"
  shows "\<exists>h' w. setUnion gc res SetKind h m other = Some (Inr (h', m, w)) \<and> table_inv h' m \<and> table_inv h' w \<and>
           table_keys w = map canon (table_keys m) @ map canon (filter (\<lambda>k. \<not> key_mem k (table_keys m)) ks)"
proof -
  obtain s where s: "run_ops (addTo gc res) (fillLiveElements m (liveCount m)) (gc h, create) = Some s"
      "in_heap h s (map canon (table_keys m))"
    using copy_keys [OF gc inv] by blast
  have ks: "\<forall>k \<in> set ks. key_ok k" "distinct_keys ks" using ho by (simp_all add: honest_def)
  obtain s' where s': "run_ops (addTo gc res) ks s = Some s'"
      "in_heap h s' (fold (\<lambda>v. add_key (canon v)) ks (map canon (table_keys m)))"
    using add_all_keys [OF gc s(2) ks(1)] by blast
  then show ?thesis
    using s rec ho in_heap_inv [OF inv s'(2)]
    by (cases s') (simp add: setUnion_def with_record_def with_keys_def openKeys_def honest_def fold_add_key [OF ks(2)] in_heap_def)
qed

lemma fold_select: "fold (\<lambda>v. add_key (canon v)) vs [] = map canon vs" if "distinct_keys vs"
  using fold_add_key [OF that, of "[]"] by simp

lemma guarded_keys:
  assumes s: "in_heap h0 s ks" and vs: "\<forall>v \<in> set vs. key_ok v"
    and oper: "\<And>v s ks. in_heap h0 s ks \<Longrightarrow> key_ok v \<Longrightarrow> \<exists>s'. oper v s = Some s' \<and> in_heap h0 s' (f v ks) \<and> collected (fst s) (fst s')"
  shows "\<exists>s'. run_ops (\<lambda>v. if P v then oper v else skip v) vs s = Some s' \<and> in_heap h0 s' (fold f (filter P vs) ks)"
proof -
  have "\<exists>s'. run_ops (\<lambda>v. if P v then oper v else skip v) vs s = Some s' \<and>
           in_heap h0 s' (fold (\<lambda>v. if P v then f v else id) vs ks)"
  proof (rule run_ops_refines [where R = "in_heap h0", OF s])
    fix v s ks assume "v \<in> set vs" and R: "in_heap h0 s ks"
    then show "\<exists>s'. (if P v then oper v else skip v) s = Some s' \<and> in_heap h0 s' ((if P v then f v else id) ks)"
      using oper [OF R, of v] skip_keys [OF R, of v] vs by (cases "P v") auto
  qed
  then show ?thesis by (simp add: fold_skip)
qed

lemma select_keys:
  assumes "collector_ok gc" and "in_heap h0 s ks" and "\<forall>v \<in> set vs. key_ok v"
  shows "\<exists>s'. run_ops (\<lambda>v. if P v then addTo gc r v else skip v) vs s = Some s' \<and>
           in_heap h0 s' (fold (\<lambda>v. add_key (canon v)) (filter P vs) ks)"
  by (rule guarded_keys [OF assms(2,3)]) (rule addTo_keys [OF assms(1)])

lemma discard_keys:
  assumes "collector_ok gc" and "in_heap h0 s ks" and "\<forall>v \<in> set vs. key_ok v"
  shows "\<exists>s'. run_ops (\<lambda>v. if P v then removeFrom gc r v else skip v) vs s = Some s' \<and>
           in_heap h0 s' (filter (\<lambda>k. \<not> key_mem k (filter P vs)) ks)"
  unfolding fold_del_key [symmetric] by (rule guarded_keys [OF assms(2,3)]) (rule removeFrom_keys [OF assms(1)])

lemma test_loop_keys:
  assumes gc: "collector_ok gc" and s: "two_in_heap h0 m0 s ks" and vs: "\<forall>v \<in> set vs. key_ok v"
    and yes: "\<And>v s ks. key_ok v \<Longrightarrow> in_heap h0 s ks \<Longrightarrow> \<exists>s'. yes v s = Some s' \<and> in_heap h0 s' (fy v ks) \<and> collected (fst s) (fst s')"
    and no: "\<And>v s ks. key_ok v \<Longrightarrow> in_heap h0 s ks \<Longrightarrow> \<exists>s'. no v s = Some s' \<and> in_heap h0 s' (fn v ks) \<and> collected (fst s) (fst s')"
  shows "\<exists>s'. run_ops (test_then gc r yes no) vs s = Some s' \<and>
           two_in_heap h0 m0 s' (fold (\<lambda>v. if key_mem v (table_keys m0) then fy v else fn v) vs ks)"
proof (rule run_ops_refines [where R = "two_in_heap h0 m0", OF s])
  fix v s ks assume "v \<in> set vs" and R: "two_in_heap h0 m0 s ks"
  then have v: "key_ok v" using vs by blast
  from test_then_keys [where fy = fy and fn = fn and yes = yes and no = no, OF gc R v yes [OF v] no [OF v], of r]
  show "\<exists>s'. test_then gc r yes no v s = Some s' \<and> two_in_heap h0 m0 s' ((if key_mem v (table_keys m0) then fy v else fn v) ks)"
    by (simp add: if_distrib [of "\<lambda>f. f ks"])
qed

lemma filter_mem_sym: "distinct_keys xs \<Longrightarrow> filter (\<lambda>k. key_mem k (filter (\<lambda>v. key_mem v xs) ys)) xs = filter (\<lambda>k. key_mem k ys) xs"
  by (rule filter_cong) (auto simp: key_mem_def intro: same_key_sym)

lemma live_length: "table_inv h m \<Longrightarrow> liveCount m = length (table_keys m)"
  by (simp add: table_inv_def table_keys_def)

lemmas member_defs = with_record_def with_keys_def openKeys_def honest_def

lemma in_heap_start: "heap_wf h \<Longrightarrow> in_heap h (h, create) []"
  using table_inv_create collected_refl
  by (auto simp: in_heap_def table_keys_def live_entries_def map_slots_def create_def)

lemma setIntersection_small:
  assumes gc: "collector_ok gc" and inv: "table_inv h m" and rec: "getSetRecord other = Inr rec" and ho: "honest rec ks"
    and le: "size_le (liveCount m) (rec_size rec)"
  shows "\<exists>h' w. setIntersection gc self aux res SetKind h m other = Some (Inr (h', m, w)) \<and> table_inv h' m \<and> table_inv h' w \<and>
           table_keys w = map canon (filter (\<lambda>k. key_mem k ks) (table_keys m))"
proof -
  have wf: "heap_wf h" using inv by (simp add: table_inv_def)
  note ok = table_keys_ok [OF inv]
  obtain s where s: "run_ops (\<lambda>v. if rec_has rec v then addTo gc res v else skip v) (table_keys m) (gc h, create) = Some s"
      "in_heap h s (fold (\<lambda>v. add_key (canon v)) (filter (rec_has rec) (table_keys m)) [])"
    using select_keys [OF gc newSet_keys [OF gc wf] ok(1)] by blast
  have "filter (rec_has rec) (table_keys m) = filter (\<lambda>k. key_mem k ks) (table_keys m)"
    using ok(1) ho by (intro filter_cong) (auto simp: honest_def)
  then have k: "in_heap h s (map canon (filter (\<lambda>k. key_mem k ks) (table_keys m)))"
    using s(2) fold_select [OF distinct_keys_filter [OF ok(2)]] by simp
  then show ?thesis
    using s(1) rec le in_heap_inv [OF inv k] fillLiveElements_keys [OF inv]
    by (cases s) (simp add: setIntersection_def with_record_def in_heap_def)
qed

lemma match_keys:
  assumes gc: "collector_ok gc" and inv: "table_inv h m" and h0: "in_heap h0 (h, create) []" and vs: "\<forall>v \<in> set vs. key_ok v" "distinct_keys vs"
  shows "\<exists>h' m' w. run_ops (test_then gc r (addTo gc q) skip) vs (h, m, create) = Some (h', m', w) \<and>
           table_inv h' m' \<and> live_entries m' = live_entries m \<and> in_heap h0 (h', w) (map canon (filter (\<lambda>k. key_mem k (table_keys m)) vs))"
proof -
  have two: "two_in_heap h0 m (h, m, create) []" using inv h0 by (simp add: two_in_heap_def)
  have "\<exists>s'. run_ops (test_then gc r (addTo gc q) skip) vs (h, m, create) = Some s' \<and>
      two_in_heap h0 m s' (fold (\<lambda>v. if key_mem v (table_keys m) then add_key (canon v) else id) vs [])"
    by (rule test_loop_keys [OF gc two vs(1)]) (use addTo_keys [OF gc] skip_keys in \<open>simp_all only: id_apply\<close>)
  then obtain h' m' w where "run_ops (test_then gc r (addTo gc q) skip) vs (h, m, create) = Some (h', m', w)"
      "two_in_heap h0 m (h', m', w) (map canon (filter (\<lambda>k. key_mem k (table_keys m)) vs))"
    unfolding fold_skip fold_select [OF distinct_keys_filter [OF vs(2)]] by (metis prod_cases3)
  then show ?thesis by (auto simp: two_in_heap_def)
qed

lemma setIntersection_large:
  assumes gc: "collector_ok gc" and inv: "table_inv h m" and rec: "getSetRecord other = Inr rec" and ho: "honest rec ks"
    and le: "\<not> size_le (liveCount m) (rec_size rec)"
  shows "\<exists>h' m' w. setIntersection gc self aux res SetKind h m other = Some (Inr (h', m', w)) \<and> table_inv h' m' \<and> table_inv h' w \<and>
           live_entries m' = live_entries m \<and> table_keys w = map canon (filter (\<lambda>k. key_mem k ks) (table_keys m))"
proof -
  have wf: "heap_wf h" using inv by (simp add: table_inv_def)
  have ks: "\<forall>k \<in> set ks. key_ok k" "distinct_keys ks" using ho by (simp_all add: honest_def)
  have c1: "collected h (gc h)" and c2: "collected (gc h) (gc (gc h))"
    using collector_okD [OF gc] wf collected_wf by blast+
  have inv2: "table_inv (gc (gc h)) m" using table_inv_collected [OF inv] collected_trans [OF c1 c2] by blast
  from match_keys [OF gc inv2 newSet_keys [OF gc collected_wf [OF c1]] ks, of self aux]
  obtain h1 m1 w1 where m: "run_ops (test_then gc self (addTo gc aux) skip) ks (gc (gc h), m, create) = Some (h1, m1, w1)"
      "table_inv h1 m1" "live_entries m1 = live_entries m" "in_heap (gc h) (h1, w1) (map canon (filter (\<lambda>k. key_mem k (table_keys m)) ks))"
    by blast
  have keys: "table_keys m1 = table_keys m" using m(3) by (simp add: table_keys_def)
  have w1: "table_inv h1 w1" "table_keys w1 = map canon (filter (\<lambda>k. key_mem k (table_keys m)) ks)" "heap_wf h1"
    using m(4) by (simp_all add: in_heap_def table_inv_def)
  from match_keys [OF gc w1(1) in_heap_start [OF w1(3)] table_keys_ok [OF m(2)], of aux res]
  obtain h2 w2 w where n: "run_ops (test_then gc aux (addTo gc res) skip) (table_keys m1) (h1, w1, create) = Some (h2, w2, w)"
      "in_heap h1 (h2, w) (map canon (filter (\<lambda>k. key_mem k (table_keys w1)) (table_keys m1)))"
    by blast
  have "filter (\<lambda>k. key_mem k (table_keys w1)) (table_keys m1) = filter (\<lambda>k. key_mem k ks) (table_keys m)"
    using filter_mem_sym [OF table_keys_ok(2) [OF inv], of ks] by (simp add: w1(2) keys)
  with n(2) have "table_inv h2 w" "table_keys w = map canon (filter (\<lambda>k. key_mem k ks) (table_keys m))" "table_inv h2 m1"
    using table_inv_collected [OF m(2)] by (auto simp: in_heap_def)
  moreover have "setIntersection gc self aux res SetKind h m other = Some (Inr (h2, m1, w))"
    using m(1) n(1) rec le ho fillLiveElements_keys [OF m(2)] by (simp add: setIntersection_def member_defs)
  ultimately show ?thesis using m(3) by blast
qed

lemma remove_all_keys:
  assumes "collector_ok gc" and "in_heap h0 s ks" and "\<forall>v \<in> set vs. key_ok v"
  shows "\<exists>s'. run_ops (removeFrom gc r) vs s = Some s' \<and> in_heap h0 s' (filter (\<lambda>k. \<not> key_mem k vs) ks)"
  using discard_keys [OF assms, of "\<lambda>_. True" r] by simp

lemma setDifference_keys:
  assumes gc: "collector_ok gc" and inv: "table_inv h m" and rec: "getSetRecord other = Inr rec" and ho: "honest rec ks"
  shows "\<exists>h' w. setDifference gc res SetKind h m other = Some (Inr (h', m, w)) \<and> table_inv h' m \<and> table_inv h' w \<and>
           table_keys w = map canon (filter (\<lambda>k. \<not> key_mem k ks) (table_keys m))"
proof -
  let ?S = "table_keys m"
  note ok = table_keys_ok [OF inv] and fill = fillLiveElements_keys [OF inv]
  have ks: "\<forall>k \<in> set ks. key_ok k" using ho by (simp add: honest_def)
  obtain s where s: "run_ops (addTo gc res) ?S (gc h, create) = Some s" "in_heap h s (map canon ?S)"
    using copy_keys [OF gc inv, of res] fill by auto
  have "\<exists>s'. (if size_le (liveCount m) (rec_size rec)
          then run_ops (\<lambda>v. if rec_has rec v then removeFrom gc res v else skip v) ?S s
          else run_ops (removeFrom gc res) ks s) = Some s' \<and>
        in_heap h s' (map canon (filter (\<lambda>k. \<not> key_mem k ks) ?S))"
  proof (cases "size_le (liveCount m) (rec_size rec)")
    case True
    have "key_mem k (filter (rec_has rec) ?S) \<longleftrightarrow> key_mem k ks" if "k \<in> set ?S" for k
    proof -
      have has: "\<forall>l \<in> set ?S. rec_has rec l \<longleftrightarrow> key_mem l ks" using ok(1) ho by (auto simp: honest_def)
      have "key_mem k (filter (rec_has rec) ?S) \<longleftrightarrow> (\<exists>l \<in> set ?S. key_mem l ks \<and> same_key l k)"
        using has by (auto simp: key_mem_def [of k])
      then show ?thesis using that key_mem_cong same_key_refl by blast
    qed
    then have "filter (\<lambda>k. \<not> key_mem k (filter (rec_has rec) ?S)) (map canon ?S) = map canon (filter (\<lambda>k. \<not> key_mem k ks) ?S)"
      by (intro filter_mem_map_canon filter_cong) auto
    then show ?thesis using True discard_keys [OF gc s(2) ok(1), of "rec_has rec" res] by simp
  next
    case False
    have "filter (\<lambda>k. \<not> key_mem k ks) (map canon ?S) = map canon (filter (\<lambda>k. \<not> key_mem k ks) ?S)"
      by (intro filter_mem_map_canon) simp
    then show ?thesis using False remove_all_keys [OF gc s(2) ks, of res] by simp
  qed
  then obtain h' w where t: "(if size_le (liveCount m) (rec_size rec)
          then run_ops (\<lambda>v. if rec_has rec v then removeFrom gc res v else skip v) ?S s
          else run_ops (removeFrom gc res) ks s) = Some (h', w)"
      "in_heap h (h', w) (map canon (filter (\<lambda>k. \<not> key_mem k ks) ?S))" by force
  then show ?thesis
    using s(1) rec ho in_heap_inv [OF inv t(2)] unfolding setDifference_def fill
    by (cases "size_le (liveCount m) (rec_size rec)") (simp_all add: member_defs in_heap_def)
qed

lemma fold_symmetric:
  assumes "distinct_keys (seen @ todo)"
  shows "fold (\<lambda>v. if key_mem v S then del_key (canon v) else add_key (canon v)) todo
           (map canon (filter (\<lambda>k. \<not> key_mem k seen) S) @ map canon (filter (\<lambda>k. \<not> key_mem k S) seen)) =
         map canon (filter (\<lambda>k. \<not> key_mem k (seen @ todo)) S) @ map canon (filter (\<lambda>k. \<not> key_mem k S) (seen @ todo))"
  using assms
proof (induction todo arbitrary: seen)
  case (Cons v todo)
  let ?A = "map canon (filter (\<lambda>k. \<not> key_mem k seen) S)" and ?B = "map canon (filter (\<lambda>k. \<not> key_mem k S) seen)"
  have v: "\<not> key_mem v seen" using Cons.prems by (auto simp: distinct_keys_append)
  have "(if key_mem v S then del_key (canon v) else add_key (canon v)) (?A @ ?B) =
      map canon (filter (\<lambda>k. \<not> key_mem k (seen @ [v])) S) @ map canon (filter (\<lambda>k. \<not> key_mem k S) (seen @ [v]))"
  proof (cases "key_mem v S")
    case True
    have "del_key (canon v) ?A = map canon (filter (\<lambda>k. \<not> key_mem k (seen @ [v])) S)"
      using same_key_sym by (auto simp: del_key_def filter_map comp_def intro!: arg_cong [where f = "map canon"] filter_cong)
    moreover have "\<not> key_mem (canon v) ?B"
      using True key_mem_cong by (auto simp: key_mem_def [of _ "filter _ _"])
    ultimately show ?thesis using True by (simp add: del_key_absent)
  next
    case False
    have "filter (\<lambda>k. \<not> key_mem k (seen @ [v])) S = filter (\<lambda>k. \<not> key_mem k seen) S"
      using False same_key_sym by (intro filter_cong) (auto simp: key_mem_def [of _ S])
    moreover have "\<not> key_mem v (?A @ ?B)" using False v by (auto simp: key_mem_def)
    ultimately show ?thesis using False by (simp add: add_key_def)
  qed
  then show ?case using Cons.IH [of "seen @ [v]"] Cons.prems by simp
qed simp

lemma setSymmetricDifference_keys:
  assumes gc: "collector_ok gc" and inv: "table_inv h m" and rec: "getSetRecord other = Inr rec" and ho: "honest rec ks"
  shows "\<exists>h' m' w. setSymmetricDifference gc self res SetKind h m other = Some (Inr (h', m', w)) \<and> table_inv h' m' \<and> table_inv h' w \<and>
           live_entries m' = live_entries m \<and>
           table_keys w = map canon (filter (\<lambda>k. \<not> key_mem k ks) (table_keys m)) @ map canon (filter (\<lambda>k. \<not> key_mem k (table_keys m)) ks)"
proof -
  let ?S = "table_keys m"
  have ks: "\<forall>k \<in> set ks. key_ok k" "distinct_keys ks" using ho by (simp_all add: honest_def)
  obtain h1 w1 where s: "run_ops (addTo gc res) (fillLiveElements m (liveCount m)) (gc h, create) = Some (h1, w1)" "in_heap h (h1, w1) (map canon ?S)"
    using copy_keys [OF gc inv] by force
  have two: "two_in_heap h m (h1, m, w1) (map canon ?S)"
    using s(2) in_heap_inv [OF inv s(2)] by (simp add: two_in_heap_def)
  have "\<exists>s'. run_ops (test_then gc self (removeFrom gc res) (addTo gc res)) ks (h1, m, w1) = Some s' \<and>
      two_in_heap h m s' (fold (\<lambda>v. if key_mem v ?S then del_key (canon v) else add_key (canon v)) ks (map canon ?S))"
    by (rule test_loop_keys [OF gc two ks(1)]) (use addTo_keys [OF gc] removeFrom_keys [OF gc] in blast)+
  then obtain h' m' w where t: "run_ops (test_then gc self (removeFrom gc res) (addTo gc res)) ks (h1, m, w1) = Some (h', m', w)"
      "two_in_heap h m (h', m', w) (map canon (filter (\<lambda>k. \<not> key_mem k ks) ?S) @ map canon (filter (\<lambda>k. \<not> key_mem k ?S) ks))"
    using fold_symmetric [of "[]" ks ?S] ks(2) by force
  then show ?thesis
    using s(1) rec ho by (auto simp: setSymmetricDifference_def member_defs two_in_heap_def in_heap_def)
qed

lemma keys_until_answer:
  assumes gc: "collector_ok gc" and inv: "table_inv h m" and vs: "\<forall>v \<in> set vs. key_ok v"
  shows "\<exists>h' m'. keys_until gc self stop vs (h, m) =
             Some ((h', m'), (\<forall>v \<in> set vs. key_mem v (table_keys m) \<noteq> stop), (\<exists>v \<in> set vs. key_mem v (table_keys m) = stop)) \<and>
           table_inv h' m' \<and> live_entries m' = live_entries m"
  using inv vs
proof (induction vs arbitrary: h m)
  case (Cons v vs)
  obtain h1 m1 where t: "setHas gc self v (h, m) = Some ((h1, m1), key_mem v (table_keys m))" "table_inv h1 m1"
      "live_entries m1 = live_entries m"
    using setHas_keys [OF gc Cons.prems(1), of v self] Cons.prems(2) by auto
  have keys: "table_keys m1 = table_keys m" using t(3) by (simp add: table_keys_def)
  show ?case
  proof (cases "key_mem v (table_keys m) = stop")
    case True
    then show ?thesis using t by auto
  next
    case False
    then show ?thesis using Cons.IH [OF t(2)] Cons.prems(2) t(1,3) keys by auto
  qed
qed simp

section \<open>Properties\<close>

text \<open>C14: Against a set-like argument that behaves like a set, the four operations return a new set
  whose elements are those the operation names, this set's elements first and in this set's order,
  followed by those of the argument in its order, with a negative zero stored as zero; whichever side
  the sizes make the code walk, the result is the same, and the receiver is unchanged.\<close>

theorem set_operations_ordered:
  assumes "collector_ok gc" and "table_inv h m" and "getSetRecord other = Inr rec" and "honest rec ks"
  shows "(\<exists>h' w. setUnion gc res SetKind h m other = Some (Inr (h', m, w)) \<and> table_inv h' w \<and>
            table_keys w = map canonicalizeKey (table_keys m @ filter (\<lambda>k. \<not> key_mem k (table_keys m)) ks)) \<and>
         (\<exists>h' m' w. setIntersection gc self aux res SetKind h m other = Some (Inr (h', m', w)) \<and> table_inv h' w \<and>
            live_entries m' = live_entries m \<and> table_keys w = map canonicalizeKey (filter (\<lambda>k. key_mem k ks) (table_keys m))) \<and>
         (\<exists>h' w. setDifference gc res SetKind h m other = Some (Inr (h', m, w)) \<and> table_inv h' w \<and>
            table_keys w = map canonicalizeKey (filter (\<lambda>k. \<not> key_mem k ks) (table_keys m))) \<and>
         (\<exists>h' m' w. setSymmetricDifference gc self res SetKind h m other = Some (Inr (h', m', w)) \<and> table_inv h' w \<and>
            live_entries m' = live_entries m \<and>
            table_keys w = map canonicalizeKey (filter (\<lambda>k. \<not> key_mem k ks) (table_keys m) @
                                                filter (\<lambda>k. \<not> key_mem k (table_keys m)) ks))"
proof (intro conjI)
  show "\<exists>h' m' w. setIntersection gc self aux res SetKind h m other = Some (Inr (h', m', w)) \<and> table_inv h' w \<and>
      live_entries m' = live_entries m \<and> table_keys w = map canonicalizeKey (filter (\<lambda>k. key_mem k ks) (table_keys m))"
    using setIntersection_small [OF assms, of self aux res] setIntersection_large [OF assms, of self aux res] by blast
qed (use setUnion_keys [OF assms, of res] setDifference_keys [OF assms, of res]
       setSymmetricDifference_keys [OF assms, of self res] in \<open>simp_all, blast+\<close>)

definition two_keys :: "Value list" where
  "two_keys = [Object 1, Object 20]"

definition two_keys_set :: set_like where
  "two_keys_set = \<lparr>isObject = True, sizeNumber = NumFin 2, hasMethod = Some (\<lambda>v. key_mem v two_keys), keysMethod = Some (Some two_keys)\<rparr>"

definition two_keys_record :: set_record where
  "two_keys_record = \<lparr>rec_size = Bounded 2, rec_has = (\<lambda>v. key_mem v two_keys), rec_keys = Some two_keys\<rparr>"

lemma two_keys_honest: "getSetRecord two_keys_set = Inr two_keys_record" "honest two_keys_record two_keys"
  by (simp_all add: getSetRecord_def two_keys_set_def two_keys_record_def checkSize_def trunc_def honest_def two_keys_def key_ok_def)

lemma full_table_keys: "table_keys full_table = map Object [0, 1, 2, 3, 4, 5, 6, 7]"
  by (simp add: table_keys_def full_table_slots)

theorem set_operations_ordered_witness:
  "\<exists>h' m' w. setIntersection swap_collector 9 10 11 SetKind young_heap full_table two_keys_set = Some (Inr (h', m', w)) \<and>
     table_keys w = [Object 1]"
  using set_operations_ordered [OF swap_collector_ok full_table_inv two_keys_honest, of 11 9 10]
  by (auto simp: full_table_keys two_keys_def canonicalizeKey_def)

text \<open>C28: Against such an argument the predicates decide inclusion in either direction and
  disjointness, the shortcuts on the sizes included.\<close>

theorem set_predicates_decide:
  assumes "collector_ok gc" and "table_inv h m" and "getSetRecord other = Inr rec" and "honest rec ks"
  shows "(\<exists>s c. setIsSubsetOf SetKind h m other = Some (Inr (s, (\<forall>k \<in> set (table_keys m). key_mem k ks), c))) \<and>
         (\<exists>s c. setIsSupersetOf gc self SetKind h m other = Some (Inr (s, (\<forall>k \<in> set ks. key_mem k (table_keys m)), c))) \<and>
         (\<exists>s c. setIsDisjointFrom gc self SetKind h m other = Some (Inr (s, (\<forall>k \<in> set (table_keys m). \<not> key_mem k ks), c)))"
proof (intro conjI)
  let ?S = "table_keys m"
  note ok = table_keys_ok [OF assms(2)] and fill = fillLiveElements_keys [OF assms(2)] and len = live_length [OF assms(2)]
  have ks: "\<forall>k \<in> set ks. key_ok k" "distinct_keys ks" "rec_size rec = Bounded (int (length ks))" "rec_keys rec = Some ks"
    and has: "\<forall>k \<in> set ?S. rec_has rec k \<longleftrightarrow> key_mem k ks"
    using assms(4) ok(1) by (auto simp: honest_def)
  have "length ?S \<le> length ks" if "\<forall>k \<in> set ?S. key_mem k ks" using keys_pigeonhole [OF ok(2) that] .
  then show "\<exists>s c. setIsSubsetOf SetKind h m other = Some (Inr (s, (\<forall>k \<in> set ?S. key_mem k ks), c))"
    using has by (auto simp: setIsSubsetOf_def with_record_def assms(3) fill [unfolded len] len size_le_def ks(3) list_all_iff)
  have "(\<forall>k \<in> set ks. key_mem k ?S) \<longrightarrow> length ks \<le> length ?S" using keys_pigeonhole [OF ks(2)] by blast
  moreover obtain h1 m1 where "keys_until gc self False ks (h, m) = Some ((h1, m1), (\<forall>v \<in> set ks. key_mem v ?S), (\<exists>v \<in> set ks. \<not> key_mem v ?S))"
    using keys_until_answer [OF assms(1,2) ks(1), of self False] by auto
  ultimately show "\<exists>s c. setIsSupersetOf gc self SetKind h m other = Some (Inr (s, (\<forall>k \<in> set ks. key_mem k ?S), c))"
    by (auto simp: setIsSupersetOf_def member_defs assms(3) ks(3,4) size_less_def len)
  obtain h2 m2 where "keys_until gc self True ks (h, m) = Some ((h2, m2), (\<forall>v \<in> set ks. \<not> key_mem v ?S), (\<exists>v \<in> set ks. key_mem v ?S))"
    using keys_until_answer [OF assms(1,2) ks(1), of self True] by auto
  moreover have "(\<forall>v \<in> set ks. \<not> key_mem v ?S) \<longleftrightarrow> (\<forall>k \<in> set ?S. \<not> key_mem k ks)"
    unfolding key_mem_def using same_key_sym by blast
  ultimately show "\<exists>s c. setIsDisjointFrom gc self SetKind h m other = Some (Inr (s, (\<forall>k \<in> set ?S. \<not> key_mem k ks), c))"
    using has by (auto simp: setIsDisjointFrom_def member_defs assms(3) ks(3,4) fill list_all_iff)
qed

theorem set_predicates_decide_witness:
  "\<exists>s c. setIsSubsetOf SetKind young_heap full_table two_keys_set = Some (Inr (s, False, c))"
  using set_predicates_decide [OF swap_collector_ok full_table_inv two_keys_honest]
  by (auto simp: full_table_keys two_keys_def)

text \<open>\<open>getSetRecord\<close> reports the first defect in the order it reads the argument: not an object, a
  size that is not a number, a negative size, no \<open>has\<close>, no \<open>keys\<close>; the members raise that error after
  checking the receiver, and a member that needs the keys raises when \<open>keys\<close> yields no object. A size
  between minus one and zero, which truncates to zero, is refused as negative.\<close>

theorem set_record_errors:
  "getSetRecord other =
     (if \<not> isObject other then Inl NotSetLike
      else if sizeNumber other = NumNaN then Inl SizeNotNumeric
      else if sizeNumber other = NumInf True \<or> (\<exists>x. sizeNumber other = NumFin x \<and> x < 0) then Inl SizeNegative
      else if hasMethod other = None then Inl NoHas
      else if keysMethod other = None then Inl NoKeys
      else Inr \<lparr>rec_size = (case sizeNumber other of NumFin x \<Rightarrow> Bounded \<lfloor>x\<rfloor> | _ \<Rightarrow> Unbounded),
                 rec_has = the (hasMethod other), rec_keys = the (keysMethod other)\<rparr>) \<and>
   (\<forall>e. getSetRecord other = Inl e \<longrightarrow>
      setUnion gc res SetKind h m other = Some (Inl e) \<and> setIsSupersetOf gc self SetKind h m other = Some (Inl e)) \<and>
   (kind \<noteq> SetKind \<longrightarrow> setUnion gc res kind h m other = Some (Inl NotASet))"
proof (intro conjI)
  show "getSetRecord other =
     (if \<not> isObject other then Inl NotSetLike
      else if sizeNumber other = NumNaN then Inl SizeNotNumeric
      else if sizeNumber other = NumInf True \<or> (\<exists>x. sizeNumber other = NumFin x \<and> x < 0) then Inl SizeNegative
      else if hasMethod other = None then Inl NoHas
      else if keysMethod other = None then Inl NoKeys
      else Inr \<lparr>rec_size = (case sizeNumber other of NumFin x \<Rightarrow> Bounded \<lfloor>x\<rfloor> | _ \<Rightarrow> Unbounded),
                 rec_has = the (hasMethod other), rec_keys = the (keysMethod other)\<rparr>)"
    by (auto simp: getSetRecord_def checkSize_def trunc_def split: number_value.split option.split)
qed (simp_all add: setUnion_def setIsSupersetOf_def with_record_def)

theorem set_record_errors_witness:
  "setUnion swap_collector 11 SetKind young_heap full_table (two_keys_set\<lparr>sizeNumber := NumFin (- 1)\<rparr>) = Some (Inl SizeNegative)"
  using set_record_errors [of "two_keys_set\<lparr>sizeNumber := NumFin (- 1)\<rparr>" swap_collector 11 young_heap full_table 9 SetKind]
  by (simp add: two_keys_set_def)

text \<open>A size of minus one half truncates to zero and is still refused.\<close>

lemma fractional_size_refused:
  "trunc (- 1 / 2) = 0 \<and> checkSize (NumFin (- 1 / 2)) = Inl SizeNegative"
  by (simp add: trunc_def checkSize_def ceiling_eq_iff)

end
