(* ===== verification/Regex_Chars.thy ===== *)
theory Regex_Chars
  imports Prelude "HOL-Library.Product_Lexorder"
begin

text \<open>
  The character questions of the regular expressions (\<open>src/src/regex/chars.h\<close>, \<open>chars.cpp\<close>): lists of
  inclusive code-point ranges with their set operations, the decoding of UTF-16 in both directions
  and the uppercase table of \<open>Canonicalize\<close>.

  A code point is a natural number; the one increment that wraps in \<open>uint32_t\<close> is written out. The
  simple case folding used under the flags \<open>u\<close> and \<open>i\<close> together comes from generated Unicode tables and
  is a parameter of \<open>canonicalize\<close>.
\<close>

section \<open>Definitions\<close>

type_synonym range = "nat \<times> nat"
type_synonym RangeList = "range list"

definition kMaxUnit :: nat where "kMaxUnit = 0xFFFF"
definition kMaxCodePoint :: nat where "kMaxCodePoint = 0x10FFFF"

definition alphabetCeiling :: "bool \<Rightarrow> nat" where
  "alphabetCeiling unicode = (if unicode then kMaxCodePoint else kMaxUnit)"

text \<open>\<open>x + 1\<close> on \<open>uint32_t\<close>.\<close>

definition inc32 :: "nat \<Rightarrow> nat" where
  "inc32 x = (x + 1) mod 2 ^ 32"

definition addRange :: "RangeList \<Rightarrow> nat \<Rightarrow> nat \<Rightarrow> RangeList" where
  "addRange list lo hi = (if lo > hi then list else list @ [(lo, hi)])"

text \<open>The merge of \<open>normalizeRanges\<close>; \<open>merged\<close> has its last range first.\<close>

fun merge_loop :: "RangeList \<Rightarrow> RangeList \<Rightarrow> RangeList" where
  "merge_loop merged [] = rev merged"
| "merge_loop [] (r # rs) = merge_loop [r] rs"
| "merge_loop (b # merged) (r # rs) =
     (if fst r \<le> inc32 (snd b) then merge_loop ((fst b, max (snd b) (snd r)) # merged) rs
      else merge_loop (r # b # merged) rs)"

definition normalizeRanges :: "RangeList \<Rightarrow> RangeList" where
  "normalizeRanges list = merge_loop [] (sort list)"

fun complement_loop :: "nat \<Rightarrow> nat \<Rightarrow> RangeList \<Rightarrow> RangeList" where
  "complement_loop ceil next [] = (if next \<le> ceil then [(next, ceil)] else [])"
| "complement_loop ceil next (r # rs) =
     (if fst r > ceil then (if next \<le> ceil then [(next, ceil)] else [])
      else
        (if fst r > next then [(next, fst r - 1)] else []) @
        (if snd r \<ge> ceil then [] else complement_loop ceil (inc32 (snd r)) rs))"

definition complementRanges :: "RangeList \<Rightarrow> nat \<Rightarrow> RangeList" where
  "complementRanges list ceil = complement_loop ceil 0 (normalizeRanges list)"

fun intersect_loop :: "RangeList \<Rightarrow> RangeList \<Rightarrow> RangeList" where
  "intersect_loop (a # left) (b # right) =
     (let lo = max (fst a) (fst b); hi = min (snd a) (snd b)
      in (if lo \<le> hi then [(lo, hi)] else []) @
         (if snd a < snd b then intersect_loop left (b # right) else intersect_loop (a # left) right))"
| "intersect_loop _ _ = []"

definition intersectRanges :: "RangeList \<Rightarrow> RangeList \<Rightarrow> RangeList" where
  "intersectRanges a b = normalizeRanges (intersect_loop (normalizeRanges a) (normalizeRanges b))"

text \<open>The ranges of \<open>right\<close> taken out of \<open>r\<close> from \<open>next\<close> on.\<close>

fun subtract_one :: "range \<Rightarrow> nat \<Rightarrow> RangeList \<Rightarrow> RangeList" where
  "subtract_one r next [] = (if next \<le> snd r then [(next, snd r)] else [])"
| "subtract_one r next (k # ks) =
     (if fst k \<le> snd r
      then
        (let gap = (if fst k > next then [(next, fst k - 1)] else []);
             next' = (if snd k \<ge> next then inc32 (snd k) else next)
         in gap @ (if next' > snd r then [] else subtract_one r next' ks))
      else (if next \<le> snd r then [(next, snd r)] else []))"

fun subtract_loop :: "RangeList \<Rightarrow> RangeList \<Rightarrow> RangeList" where
  "subtract_loop [] right = []"
| "subtract_loop (r # left) right =
     (let right' = dropWhile (\<lambda>k. snd k < fst r) right
      in subtract_one r (fst r) right' @ subtract_loop left right')"

definition subtractRanges :: "RangeList \<Rightarrow> RangeList \<Rightarrow> RangeList" where
  "subtractRanges a b = normalizeRanges (subtract_loop (normalizeRanges a) (normalizeRanges b))"

fun rangesContain :: "RangeList \<Rightarrow> nat \<Rightarrow> bool" where
  "rangesContain [] code = False"
| "rangesContain (r # rs) code =
     (if code < fst r then False else if code \<le> snd r then True else rangesContain rs code)"

definition isLeadSurrogate :: "nat \<Rightarrow> bool" where
  "isLeadSurrogate u \<longleftrightarrow> 0xD800 \<le> u \<and> u \<le> 0xDBFF"

definition isTrailSurrogate :: "nat \<Rightarrow> bool" where
  "isTrailSurrogate u \<longleftrightarrow> 0xDC00 \<le> u \<and> u \<le> 0xDFFF"

definition combineSurrogates :: "nat \<Rightarrow> nat \<Rightarrow> nat" where
  "combineSurrogates lead trail = 0x10000 + (lead - 0xD800) * 2 ^ 10 + (trail - 0xDC00)"

text \<open>A character and the number of code units it occupies.\<close>

type_synonym CodePointStep = "nat \<times> nat"

definition codePointAt :: "nat list \<Rightarrow> nat \<Rightarrow> bool \<Rightarrow> CodePointStep" where
  "codePointAt input i unicode =
     (let first = input ! i
      in if \<not> unicode \<or> \<not> isLeadSurrogate first \<or> i + 1 \<ge> length input then (first, 1)
         else (let second = input ! (i + 1)
               in if \<not> isTrailSurrogate second then (first, 1) else (combineSurrogates first second, 2)))"

definition codePointBefore :: "nat list \<Rightarrow> nat \<Rightarrow> bool \<Rightarrow> CodePointStep" where
  "codePointBefore input i unicode =
     (let last = input ! (i - 1)
      in if \<not> unicode \<or> \<not> isTrailSurrogate last \<or> i < 2 then (last, 1)
         else (let first = input ! (i - 2)
               in if \<not> isLeadSurrogate first then (last, 1) else (combineSurrogates first last, 2)))"

definition advanceStringIndex :: "nat list \<Rightarrow> nat \<Rightarrow> bool \<Rightarrow> nat" where
  "advanceStringIndex input i unicode =
     (if i \<ge> length input then i + 1 else i + snd (codePointAt input i unicode))"

subsection \<open>The uppercase table\<close>

definition foldLatin1 :: "nat \<Rightarrow> nat" where
  "foldLatin1 u =
     (if 0x61 \<le> u \<and> u \<le> 0x7A then u - 32
      else if u = 0xDF then u
      else if u = 0xB5 then 0x39C
      else if u = 0xFF then 0x178
      else if 0xE0 \<le> u \<and> u \<le> 0xFE \<and> u \<noteq> 0xF7 then u - 32
      else u)"

definition foldLatinExtendedA :: "nat \<Rightarrow> nat" where
  "foldLatinExtendedA u =
     (if u \<in> {0x130, 0x131, 0x138, 0x149, 0x178, 0x17F} then u
      else if u \<le> 0x137 then (if odd u then u - 1 else u)
      else if u \<le> 0x148 then (if odd u then u else u - 1)
      else if u \<le> 0x177 then (if odd u then u - 1 else u)
      else (if odd u then u else u - 1))"

definition greek_table :: "(nat \<times> nat) list" where
  "greek_table =
     [(0x3AC, 0x386), (0x3AD, 0x388), (0x3AE, 0x389), (0x3AF, 0x38A), (0x3CC, 0x38C), (0x3CD, 0x38E), (0x3CE, 0x38F),
      (0x371, 0x370), (0x373, 0x372), (0x377, 0x376), (0x37B, 0x3FD), (0x37C, 0x3FE), (0x37D, 0x3FF),
      (0x3D0, 0x392), (0x3D1, 0x398), (0x3D5, 0x3A6), (0x3D6, 0x3A0), (0x3D7, 0x3CF), (0x3F0, 0x39A), (0x3F1, 0x3A1),
      (0x3F2, 0x3F9), (0x3F3, 0x37F), (0x3F5, 0x395), (0x3F8, 0x3F7), (0x3FB, 0x3FA)]"

definition foldGreek :: "nat \<Rightarrow> nat" where
  "foldGreek u =
     (if 0x3B1 \<le> u \<and> u \<le> 0x3C1 then u - 32
      else if u = 0x3C2 then 0x3A3
      else if 0x3C3 \<le> u \<and> u \<le> 0x3CB then u - 32
      else case map_of greek_table u of
             Some c \<Rightarrow> c
           | None \<Rightarrow> if 0x3D8 \<le> u \<and> u \<le> 0x3EF \<and> odd u then u - 1 else u)"

definition foldCyrillic :: "nat \<Rightarrow> nat" where
  "foldCyrillic u =
     (if 0x430 \<le> u \<and> u \<le> 0x44F then u - 32
      else if 0x450 \<le> u \<and> u \<le> 0x45F then u - 80
      else if u = 0x4CF then 0x4C0
      else if 0x460 \<le> u \<and> u \<le> 0x481 \<and> odd u then u - 1
      else if 0x48A \<le> u \<and> u \<le> 0x4BF \<and> odd u then u - 1
      else if 0x4C1 \<le> u \<and> u \<le> 0x4CE \<and> even u then u - 1
      else if 0x4D0 \<le> u \<and> u \<le> 0x52F \<and> odd u then u - 1
      else u)"

definition canonicalize :: "(nat \<Rightarrow> nat) \<Rightarrow> nat \<Rightarrow> bool \<Rightarrow> bool \<Rightarrow> nat" where
  "canonicalize simpleCaseFold code ignoreCase unicode =
     (if \<not> ignoreCase then code
      else if unicode then simpleCaseFold code
      else
        (let u = code mod 2 ^ 16
         in if u < 0x100 then foldLatin1 u
            else if u < 0x180 then foldLatinExtendedA u
            else if 0x370 \<le> u \<and> u \<le> 0x3FF then foldGreek u
            else if 0x400 \<le> u \<and> u \<le> 0x52F then foldCyrillic u
            else if 0x561 \<le> u \<and> u \<le> 0x586 then u - 48
            else u))"

definition kUnknownCasedBlocks :: RangeList where
  "kUnknownCasedBlocks =
     [(0x180, 0x2FF), (0x300, 0x36F), (0x37A, 0x37A), (0x557, 0x560), (0x587, 0x58F), (0x10A0, 0x10FF), (0x13A0, 0x13FF),
      (0x1C80, 0x1CBF), (0x1E00, 0x1FFF), (0x2100, 0x218F), (0x24B6, 0x24E9), (0x2C00, 0x2D2F), (0xA640, 0xA7FF),
      (0xAB53, 0xABBF), (0xFB00, 0xFB17), (0xFF21, 0xFF5A)]"

fun unknown_cased_loop :: "RangeList \<Rightarrow> nat \<Rightarrow> nat \<Rightarrow> nat option" where
  "unknown_cased_loop [] lo hi = None"
| "unknown_cased_loop (r # rs) lo hi =
     (if fst r > hi then None
      else if snd r < lo then unknown_cased_loop rs lo hi
      else Some (if lo > fst r then lo else fst r))"

definition firstUnknownCasedUnitInRange :: "nat \<Rightarrow> nat \<Rightarrow> nat option" where
  "firstUnknownCasedUnitInRange lo hi = (if lo > hi then None else unknown_cased_loop kUnknownCasedBlocks lo hi)"

definition isUnknownCasedUnit :: "nat \<Rightarrow> bool" where
  "isUnknownCasedUnit u = (firstUnknownCasedUnitInRange u u \<noteq> None)"

section \<open>Ranges as sets\<close>

definition members :: "RangeList \<Rightarrow> nat set" where
  "members rs = {c. \<exists>r \<in> set rs. fst r \<le> c \<and> c \<le> snd r}"

definition valid_ranges :: "RangeList \<Rightarrow> bool" where
  "valid_ranges rs \<longleftrightarrow> (\<forall>r \<in> set rs. fst r \<le> snd r \<and> snd r \<le> kMaxCodePoint)"

text \<open>Sorted, disjoint and not even adjacent.\<close>

definition separated :: "RangeList \<Rightarrow> bool" where
  "separated rs \<longleftrightarrow> sorted_wrt (\<lambda>a b. snd a + 1 < fst b) rs"

lemma members_simps [simp]: "members [] = {}" "members (r # rs) = {fst r..snd r} \<union> members rs"
    "members (rs @ qs) = members rs \<union> members qs" "members (rev rs) = members rs"
  by (auto simp: members_def)

lemma valid_simps [simp]: "valid_ranges []" "valid_ranges (r # rs) \<longleftrightarrow> fst r \<le> snd r \<and> snd r \<le> kMaxCodePoint \<and> valid_ranges rs"
    "valid_ranges (rs @ qs) \<longleftrightarrow> valid_ranges rs \<and> valid_ranges qs" "valid_ranges (rev rs) \<longleftrightarrow> valid_ranges rs"
  by (auto simp: valid_ranges_def)

lemma separated_simps [simp]: "separated []" "separated (r # rs) \<longleftrightarrow> (\<forall>q \<in> set rs. snd r + 1 < fst q) \<and> separated rs"
  by (simp_all add: separated_def)

lemma separated_append:
  "separated (rs @ qs) \<longleftrightarrow> separated rs \<and> separated qs \<and> (\<forall>r \<in> set rs. \<forall>q \<in> set qs. snd r + 1 < fst q)"
  by (simp add: separated_def sorted_wrt_append)

lemma inc32_small [simp]: "x \<le> kMaxCodePoint \<Longrightarrow> inc32 x = x + 1"
  by (simp add: inc32_def kMaxCodePoint_def)

lemma merge_loop_correct:
  assumes "valid_ranges merged" and "valid_ranges rs" and "sorted_wrt (\<lambda>a b. fst a \<le> fst b) rs" and "separated (rev merged)"
    and "merged \<noteq> [] \<longrightarrow> (\<forall>r \<in> set rs. fst (hd merged) \<le> fst r)"
  shows "members (merge_loop merged rs) = members merged \<union> members rs \<and> valid_ranges (merge_loop merged rs) \<and>
         separated (merge_loop merged rs)"
  using assms
proof (induction merged rs rule: merge_loop.induct)
  case (3 b merged r rs)
  show ?case
  proof (cases "fst r \<le> inc32 (snd b)")
    case True
    let ?b = "(fst b, max (snd b) (snd r))"
    have le: "fst r \<le> snd b + 1" "fst b \<le> fst r" "fst b \<le> snd b" "fst r \<le> snd r" using True 3 by simp_all
    then have "{fst b..max (snd b) (snd r)} = {fst b..snd b} \<union> {fst r..snd r}" by auto
    moreover have "separated (rev (?b # merged))" using 3 by (auto simp: separated_append)
    ultimately show ?thesis using 3 True le by auto
  next
    case False
    then have "snd b + 1 < fst r" using 3 by simp
    then have "separated (rev (r # b # merged))" using 3 by (fastforce simp: separated_append)
    then show ?thesis using 3 False by auto
  qed
qed auto

lemma sorted_fst: "sorted (rs :: RangeList) \<Longrightarrow> sorted_wrt (\<lambda>a b. fst a \<le> fst b) rs"
  by (erule sorted_wrt_mono_rel [rotated]) (auto simp: less_eq_prod_def)

lemma normalizeRanges_correct:
  assumes "valid_ranges rs"
  shows "members (normalizeRanges rs) = members rs" and "valid_ranges (normalizeRanges rs)" and "separated (normalizeRanges rs)"
proof -
  have "valid_ranges (sort rs)" "members (sort rs) = members rs"
    using assms by (simp_all add: valid_ranges_def members_def)
  then show "members (normalizeRanges rs) = members rs" "valid_ranges (normalizeRanges rs)" "separated (normalizeRanges rs)"
    using merge_loop_correct [of "[]" "sort rs"] sorted_fst [OF sorted_sort] by (simp_all add: normalizeRanges_def)
qed

lemma rangesContain_correct: "separated rs \<Longrightarrow> valid_ranges rs \<Longrightarrow> rangesContain rs code \<longleftrightarrow> code \<in> members rs"
proof (induction rs)
  case (Cons r rs)
  have "\<forall>q \<in> set rs. fst r < fst q" using Cons.prems by auto
  then have "code < fst r \<Longrightarrow> code \<notin> members rs" by (fastforce simp: members_def)
  with Cons show ?case by auto
qed simp

lemma complement_loop_correct:
  assumes "separated rs" and "valid_ranges rs" and "\<forall>r \<in> set rs. next \<le> fst r" and "ceil \<le> kMaxCodePoint"
  shows "members (complement_loop ceil next rs) = {next..ceil} - members rs \<and>
         valid_ranges (complement_loop ceil next rs) \<and> separated (complement_loop ceil next rs) \<and>
         (\<forall>q \<in> set (complement_loop ceil next rs). next \<le> fst q)"
  using assms
proof (induction ceil "next" rs rule: complement_loop.induct)
  case (2 ceil "next" r rs)
  let ?gap = "if fst r > next then [(next, fst r - 1)] else []"
  have r: "next \<le> fst r" "fst r \<le> snd r" "snd r \<le> kMaxCodePoint" "\<forall>q \<in> set rs. snd r + 1 < fst q" using "2.prems" by auto
  have later: "members rs \<inter> {..snd r + 1} = {}" using r(4) by (fastforce simp: members_def)
  have gap: "members ?gap = {next..<fst r}" by (auto simp: members_def)
  show ?case
  proof (cases "fst r > ceil \<or> snd r \<ge> ceil")
    case True
    then show ?thesis using r later "2.prems"(4) gap by (auto simp: members_def)
  next
    case False
    then have inc: "inc32 (snd r) = snd r + 1" using r by simp
    have IH: "members (complement_loop ceil (snd r + 1) rs) = {snd r + 1..ceil} - members rs"
        "valid_ranges (complement_loop ceil (snd r + 1) rs)" "separated (complement_loop ceil (snd r + 1) rs)"
        "\<forall>q \<in> set (complement_loop ceil (snd r + 1) rs). snd r + 1 \<le> fst q"
      using "2.IH" "2.prems" False r inc by (fastforce simp del: One_nat_def)+
    have "{next..<fst r} \<union> ({snd r + 1..ceil} - members rs) = {next..ceil} - ({fst r..snd r} \<union> members rs)"
      using r later False by auto
    then show ?thesis
      using False IH r gap "2.prems"(4) unfolding complement_loop.simps inc by (auto simp: separated_append)
  qed
qed auto

lemma intersect_loop_correct:
  assumes "separated l" and "separated r" and "valid_ranges l" and "valid_ranges r"
  shows "members (intersect_loop l r) = members l \<inter> members r \<and> valid_ranges (intersect_loop l r)"
  using assms
proof (induction l r rule: intersect_loop.induct)
  case (1 a left b right)
  have later: "members left \<inter> {..snd a} = {}" "members right \<inter> {..snd b} = {}"
    using "1.prems" by (fastforce simp: members_def)+
  let ?x = "if max (fst a) (fst b) \<le> min (snd a) (snd b) then [(max (fst a) (fst b), min (snd a) (snd b))] else []"
  have x: "members ?x = {fst a..snd a} \<inter> {fst b..snd b}" "valid_ranges ?x" using "1.prems" by auto
  show ?case
  proof (cases "snd a < snd b")
    case True
    have "{fst a..snd a} \<inter> members right = {}" using later(2) True by fastforce
    then show ?thesis using "1.IH"(1) [OF refl refl True] "1.prems" x True by (auto simp: Let_def)
  next
    case False
    have "{fst b..snd b} \<inter> members left = {}" using later(1) False by fastforce
    then show ?thesis using "1.IH"(2) [OF refl refl False] "1.prems" x False by (auto simp: Let_def)
  qed
qed auto

lemma subtract_one_correct:
  assumes "separated ks" and "valid_ranges ks" and "snd r \<le> kMaxCodePoint"
  shows "members (subtract_one r next ks) = {next..snd r} - members ks \<and> valid_ranges (subtract_one r next ks)"
  using assms
proof (induction r "next" ks rule: subtract_one.induct)
  case (2 r "next" k ks)
  let ?n = "if snd k \<ge> next then snd k + 1 else next"
  have k: "fst k \<le> snd k" "snd k \<le> kMaxCodePoint" using "2.prems" by auto
  have later: "members ks \<inter> {..snd k} = {}" using "2.prems" by (fastforce simp: members_def)
  have n: "(if snd k \<ge> next then inc32 (snd k) else next) = ?n" using k by simp
  let ?gap = "if fst k > next then [(next, fst k - 1)] else []"
  have gap: "members ?gap = {next..<fst k}" "valid_ranges ?gap" using k by (auto simp: members_def)
  have split: "{next..snd r} - members (k # ks) = {next..<fst k} \<union> ({?n..snd r} - members ks)" if "fst k \<le> snd r"
    using that k later by auto
  show ?case
  proof (cases "fst k \<le> snd r")
    case True
    then show ?thesis
      using "2.IH" [OF True refl refl] "2.prems" gap split [OF True]
      unfolding subtract_one.simps Let_def n by (cases "?n > snd r") simp_all
  next
    case False
    then have "members (k # ks) \<inter> {..snd r} = {}" using later k by auto
    then show ?thesis using False "2.prems" by auto
  qed
qed auto

lemma subtract_loop_correct:
  assumes "separated left" and "separated right" and "valid_ranges left" and "valid_ranges right"
  shows "members (subtract_loop left right) = members left - members right \<and> valid_ranges (subtract_loop left right)"
  using assms
proof (induction left right rule: subtract_loop.induct)
  case (2 r left right)
  let ?gone = "takeWhile (\<lambda>k. snd k < fst r) right" and ?right = "dropWhile (\<lambda>k. snd k < fst r) right"
  have app: "right = ?gone @ ?right" by simp
  have ok: "separated ?right" "valid_ranges ?right" using "2.prems" app by (metis separated_append, metis valid_simps(3))
  have "\<forall>k \<in> set ?gone. snd k < fst r" by (auto dest: set_takeWhileD)
  moreover have "\<forall>q \<in> set left. fst r \<le> fst q" using "2.prems" by fastforce
  ultimately have "members ?gone \<inter> members (r # left) = {}" by (fastforce simp: members_def)
  moreover have "members right = members ?gone \<union> members ?right" using app by (metis members_simps(3))
  ultimately have out: "members (r # left) - members right = members (r # left) - members ?right" by blast
  have "members (subtract_one r (fst r) ?right) = {fst r..snd r} - members ?right \<and> valid_ranges (subtract_one r (fst r) ?right)"
    using "2.prems" by (intro subtract_one_correct ok) auto
  then show ?case using "2.IH" [OF refl] "2.prems" ok out by (auto simp: Let_def)
qed simp

text \<open>Lists of ranges that are ready for the membership scan.\<close>

definition normal :: "RangeList \<Rightarrow> bool" where
  "normal rs \<longleftrightarrow> separated rs \<and> valid_ranges rs"

lemma normalizeRanges_normal: "valid_ranges rs \<Longrightarrow> normal (normalizeRanges rs) \<and> members (normalizeRanges rs) = members rs"
  using normalizeRanges_correct by (simp add: normal_def)

lemma complementRanges_normal:
  assumes "valid_ranges rs" and "ceil \<le> kMaxCodePoint"
  shows "normal (complementRanges rs ceil) \<and> members (complementRanges rs ceil) = {0..ceil} - members rs"
  using normalizeRanges_correct [OF assms(1)] complement_loop_correct [of "normalizeRanges rs" 0 ceil] assms(2)
  by (simp add: complementRanges_def normal_def)

lemma intersectRanges_normal:
  assumes "valid_ranges a" and "valid_ranges b"
  shows "normal (intersectRanges a b) \<and> members (intersectRanges a b) = members a \<inter> members b"
  using intersect_loop_correct [of "normalizeRanges a" "normalizeRanges b"] normalizeRanges_correct [OF assms(1)]
    normalizeRanges_correct [OF assms(2)] normalizeRanges_normal [of "intersect_loop (normalizeRanges a) (normalizeRanges b)"]
  by (simp add: intersectRanges_def)

lemma subtractRanges_normal:
  assumes "valid_ranges a" and "valid_ranges b"
  shows "normal (subtractRanges a b) \<and> members (subtractRanges a b) = members a - members b"
  using subtract_loop_correct [of "normalizeRanges a" "normalizeRanges b"] normalizeRanges_correct [OF assms(1)]
    normalizeRanges_correct [OF assms(2)] normalizeRanges_normal [of "subtract_loop (normalizeRanges a) (normalizeRanges b)"]
  by (simp add: subtractRanges_def)

section \<open>Decoding\<close>

text \<open>A position that is not between the halves of a surrogate pair.\<close>

definition boundary :: "nat list \<Rightarrow> bool \<Rightarrow> nat \<Rightarrow> bool" where
  "boundary input unicode p \<longleftrightarrow>
     \<not> (unicode \<and> 0 < p \<and> p < length input \<and> isLeadSurrogate (input ! (p - 1)) \<and> isTrailSurrogate (input ! p))"

lemma lead_not_trail: "isLeadSurrogate u \<Longrightarrow> \<not> isTrailSurrogate u"
  by (simp add: isLeadSurrogate_def isTrailSurrogate_def)

lemma width_at: "0 < snd (codePointAt input p unicode)" "p < length input \<Longrightarrow> p + snd (codePointAt input p unicode) \<le> length input"
  by (auto simp: codePointAt_def Let_def)

lemma width_before: "0 < snd (codePointBefore input p unicode)" "0 < p \<Longrightarrow> snd (codePointBefore input p unicode) \<le> p"
  by (auto simp: codePointBefore_def Let_def)

text \<open>The two decodings agree on where the characters are.\<close>

lemma decode_forth_back:
  assumes "p < length input" and "boundary input unicode p"
  shows "boundary input unicode (p + snd (codePointAt input p unicode))"
    and "codePointBefore input (p + snd (codePointAt input p unicode)) unicode = codePointAt input p unicode"
  using assms by (auto simp: codePointAt_def codePointBefore_def boundary_def Let_def lead_not_trail dest: lead_not_trail)

lemma decode_back_forth:
  assumes "0 < p" and "p \<le> length input" and "boundary input unicode p"
  shows "boundary input unicode (p - snd (codePointBefore input p unicode))"
    and "codePointAt input (p - snd (codePointBefore input p unicode)) unicode = codePointBefore input p unicode"
proof -
  obtain q where q: "p = Suc q" using assms(1) by (cases p) auto
  show "boundary input unicode (p - snd (codePointBefore input p unicode))"
    using assms unfolding q
    by (cases q) (auto simp: codePointBefore_def boundary_def Let_def dest: lead_not_trail)
  show "codePointAt input (p - snd (codePointBefore input p unicode)) unicode = codePointBefore input p unicode"
    using assms unfolding q
    by (cases q) (auto simp: codePointAt_def codePointBefore_def boundary_def Let_def dest: lead_not_trail)
qed

section \<open>Canonicalisation\<close>

definition upper16 :: "nat \<Rightarrow> nat" where
  "upper16 u = canonicalize id u True False"

lemma upper16_small: "u < 2 ^ 16 \<Longrightarrow> upper16 u =
   (if u < 0x100 then foldLatin1 u else if u < 0x180 then foldLatinExtendedA u
    else if 0x370 \<le> u \<and> u \<le> 0x3FF then foldGreek u else if 0x400 \<le> u \<and> u \<le> 0x52F then foldCyrillic u
    else if 0x561 \<le> u \<and> u \<le> 0x586 then u - 48 else u)"
  by (simp add: upper16_def canonicalize_def Let_def)

lemma upper16_fixed_greek: "u \<in> snd ` set greek_table \<union> {0x39C, 0x3A3} \<Longrightarrow> upper16 u = u"
  by (auto simp: upper16_small greek_table_def foldGreek_def)

text \<open>Each fold lands on a character that it leaves alone.\<close>

lemma foldLatin1_lands:
  assumes "u < 0x100"
  shows "foldLatin1 u = 0x39C \<or> foldLatin1 u = 0x178 \<or>
    foldLatin1 u < 0x100 \<and> \<not> (0x61 \<le> foldLatin1 u \<and> foldLatin1 u \<le> 0x7A) \<and> foldLatin1 u \<noteq> 0xB5 \<and> foldLatin1 u \<noteq> 0xFF \<and>
    \<not> (0xE0 \<le> foldLatin1 u \<and> foldLatin1 u \<le> 0xFE \<and> foldLatin1 u \<noteq> 0xF7)"
  unfolding foldLatin1_def using assms by (simp only: split: if_split) presburger

lemma foldLatinExtendedA_lands:
  assumes "0x100 \<le> u" and "u < 0x180"
  shows "0x100 \<le> foldLatinExtendedA u \<and> foldLatinExtendedA u < 0x180 \<and>
    (foldLatinExtendedA u \<in> {0x130, 0x131, 0x138, 0x149, 0x178, 0x17F} \<or>
     even (foldLatinExtendedA u) \<and> foldLatinExtendedA u \<le> 0x137 \<or>
     odd (foldLatinExtendedA u) \<and> 0x138 < foldLatinExtendedA u \<and> foldLatinExtendedA u \<le> 0x148 \<or>
     even (foldLatinExtendedA u) \<and> 0x148 < foldLatinExtendedA u \<and> foldLatinExtendedA u \<le> 0x177 \<or>
     odd (foldLatinExtendedA u) \<and> 0x177 < foldLatinExtendedA u)"
  unfolding foldLatinExtendedA_def insert_iff empty_iff using assms by (simp only: split: if_split) presburger

lemma foldCyrillic_lands:
  assumes u: "0x400 \<le> u" "u \<le> 0x52F"
  shows "0x400 \<le> foldCyrillic u \<and> foldCyrillic u \<le> 0x52F \<and> foldCyrillic (foldCyrillic u) = foldCyrillic u"
proof -
  let ?G = "0x400 \<le> foldCyrillic u \<and> foldCyrillic u \<le> 0x52F \<and> foldCyrillic (foldCyrillic u) = foldCyrillic u"
  have low: "foldCyrillic v = v" if "v < 0x430" for v using that by (simp add: foldCyrillic_def)
  have "?G" if c: "0x430 \<le> u \<and> u \<le> 0x44F"
  proof -
    have "foldCyrillic u = u - 32" unfolding foldCyrillic_def using c by simp
    then show ?thesis using c low [of "u - 32"] by auto
  qed
  moreover have "?G" if c: "0x450 \<le> u \<and> u \<le> 0x45F"
  proof -
    have "foldCyrillic u = u - 80" unfolding foldCyrillic_def using c by simp
    then show ?thesis using c low [of "u - 80"] by auto
  qed
  moreover have "?G" if "u = 0x4CF" using that by (simp add: foldCyrillic_def)
  moreover have "?G" if "0x460 \<le> u \<and> u \<le> 0x481 \<and> odd u" using that by (auto simp: foldCyrillic_def elim!: oddE) presburger
  moreover have "?G" if "0x48A \<le> u \<and> u \<le> 0x4BF \<and> odd u" using that by (auto simp: foldCyrillic_def elim!: oddE)
  moreover have "?G" if "0x4C1 \<le> u \<and> u \<le> 0x4CE \<and> even u" using that by (auto simp: foldCyrillic_def elim!: evenE)
  moreover have "?G" if "0x4D0 \<le> u \<and> u \<le> 0x52F \<and> odd u" using that by (auto simp: foldCyrillic_def elim!: oddE) presburger
  moreover have "?G" if "\<not> (0x430 \<le> u \<and> u \<le> 0x44F)" "\<not> (0x450 \<le> u \<and> u \<le> 0x45F)" "u \<noteq> 0x4CF"
      "\<not> (0x460 \<le> u \<and> u \<le> 0x481 \<and> odd u)" "\<not> (0x48A \<le> u \<and> u \<le> 0x4BF \<and> odd u)"
      "\<not> (0x4C1 \<le> u \<and> u \<le> 0x4CE \<and> even u)" "\<not> (0x4D0 \<le> u \<and> u \<le> 0x52F \<and> odd u)"
  proof -
    have "foldCyrillic u = u" unfolding foldCyrillic_def by (simp only: that if_False)
    then show ?thesis using u by simp
  qed
  ultimately show ?G by blast
qed

lemma greek_table_none:
  "0x391 \<le> v \<Longrightarrow> v \<le> 0x3AB \<Longrightarrow> map_of greek_table v = None" "0x3D8 \<le> v \<Longrightarrow> v \<le> 0x3EF \<Longrightarrow> map_of greek_table v = None"
  by (simp_all add: greek_table_def)

lemma foldGreek_lands:
  assumes u: "0x370 \<le> u" "u \<le> 0x3FF"
  shows "upper16 (foldGreek u) = foldGreek u"
proof (cases "map_of greek_table u")
  case (Some c)
  have "u \<in> fst ` set greek_table" using map_of_SomeD [OF Some] by force
  then have "\<not> (0x3B1 \<le> u \<and> u \<le> 0x3CB)" by (auto simp: greek_table_def)
  then have "foldGreek u = c" using Some by (auto simp: foldGreek_def)
  moreover have "c \<in> snd ` set greek_table" using map_of_SomeD [OF Some] by force
  ultimately show ?thesis using upper16_fixed_greek by simp
next
  case None
  have run: ?thesis if "0x3B1 \<le> u \<and> u \<le> 0x3CB"
  proof -
    have "0x391 \<le> foldGreek u \<and> foldGreek u \<le> 0x3AB" unfolding foldGreek_def using that by auto
    then show ?thesis using greek_table_none(1) [of "foldGreek u"] by (simp add: upper16_small foldGreek_def [of "foldGreek u"])
  qed
  have pair: ?thesis if odd: "0x3D8 \<le> u \<and> u \<le> 0x3EF \<and> odd u"
  proof -
    obtain w where w: "u = 2 * w + 1" using odd by (auto elim: oddE)
    then have "foldGreek u = 2 * w" using None odd by (simp add: foldGreek_def)
    moreover have "0x3D8 \<le> 2 * w" "2 * w \<le> 0x3EF" using odd w by presburger+
    ultimately show ?thesis using greek_table_none(2) [of "2 * w"] by (simp add: upper16_small foldGreek_def [of "2 * w"])
  qed
  have ?thesis if "\<not> (0x3B1 \<le> u \<and> u \<le> 0x3CB)" "\<not> (0x3D8 \<le> u \<and> u \<le> 0x3EF \<and> odd u)"
  proof -
    have same: "foldGreek u = u" using that None unfolding foldGreek_def by auto
    then have "upper16 u = foldGreek u" using u by (simp add: upper16_small)
    then show ?thesis using same by simp
  qed
  then show ?thesis using run pair by blast
qed

lemma upper16_latin1: "u < 0x100 \<Longrightarrow> upper16 (foldLatin1 u) = foldLatin1 u"
proof -
  assume "u < 0x100"
  from foldLatin1_lands [OF this] show ?thesis
  proof (elim disjE)
    assume "foldLatin1 u = 0x39C"
    then show ?thesis using upper16_fixed_greek [of "0x39C"] by simp
  next
    assume "foldLatin1 u = 0x178"
    then show ?thesis by (simp add: upper16_small foldLatinExtendedA_def)
  next
    assume *: "foldLatin1 u < 0x100 \<and> \<not> (0x61 \<le> foldLatin1 u \<and> foldLatin1 u \<le> 0x7A) \<and> foldLatin1 u \<noteq> 0xB5 \<and> foldLatin1 u \<noteq> 0xFF \<and>
      \<not> (0xE0 \<le> foldLatin1 u \<and> foldLatin1 u \<le> 0xFE \<and> foldLatin1 u \<noteq> 0xF7)"
    then have "foldLatin1 (foldLatin1 u) = foldLatin1 u" unfolding foldLatin1_def [of "foldLatin1 u"] by auto
    then show ?thesis using * by (simp add: upper16_small)
  qed
qed

lemma upper16_latinA: "0x100 \<le> u \<Longrightarrow> u < 0x180 \<Longrightarrow> upper16 (foldLatinExtendedA u) = foldLatinExtendedA u"
proof -
  assume "0x100 \<le> u" "u < 0x180"
  note * = foldLatinExtendedA_lands [OF this]
  then have "foldLatinExtendedA (foldLatinExtendedA u) = foldLatinExtendedA u"
    unfolding foldLatinExtendedA_def [of "foldLatinExtendedA u"] by auto
  then show ?thesis using * by (simp add: upper16_small)
qed

lemma upper16_idem: "u < 2 ^ 16 \<Longrightarrow> upper16 (upper16 u) = upper16 u"
  using upper16_latin1 [of u] upper16_latinA [of u] foldGreek_lands [of u] foldCyrillic_lands [of u]
  by (auto simp: upper16_small [of u]) (auto simp: upper16_small)

section \<open>Properties\<close>

text \<open>The range operations are the set operations: normalising keeps the members and yields sorted
  ranges with a gap between any two, the membership scan decides membership, and complement,
  intersection and difference denote the complement within the ceiling, the intersection and the
  difference, all normalised.\<close>

theorem range_algebra:
  assumes "valid_ranges a" and "valid_ranges b" and "ceil \<le> kMaxCodePoint"
  shows "members (normalizeRanges a) = members a \<and> separated (normalizeRanges a) \<and>
         (rangesContain (normalizeRanges a) code \<longleftrightarrow> code \<in> members a) \<and>
         members (complementRanges a ceil) = {0..ceil} - members a \<and> separated (complementRanges a ceil) \<and>
         members (intersectRanges a b) = members a \<inter> members b \<and> separated (intersectRanges a b) \<and>
         members (subtractRanges a b) = members a - members b \<and> separated (subtractRanges a b)"
  using normalizeRanges_normal [OF assms(1)] rangesContain_correct [of "normalizeRanges a" code]
    complementRanges_normal [OF assms(1,3)] intersectRanges_normal [OF assms(1,2)] subtractRanges_normal [OF assms(1,2)]
  by (simp add: normal_def)

theorem range_algebra_witness:
  "members (complementRanges [(0x30, 0x39)] 0xFFFF) = {0..0xFFFF} - {0x30..0x39}"
  using range_algebra [of "[(0x30, 0x39)]" "[]" "0xFFFF" 0] by (simp add: kMaxCodePoint_def)

text \<open>Reading forward and reading backward agree about where characters begin and end: from a
  position outside every surrogate pair each reader lands on such a position, and the other one
  undoes the step and reads the same character; a step stays inside the text.\<close>

theorem decode_agrees:
  assumes "boundary input unicode p" and "p \<le> length input"
  shows "(p < length input \<longrightarrow>
            (let (c, w) = codePointAt input p unicode
             in p + w \<le> length input \<and> boundary input unicode (p + w) \<and> codePointBefore input (p + w) unicode = (c, w) \<and>
                advanceStringIndex input p unicode = p + w)) \<and>
         (0 < p \<longrightarrow>
            (let (c, w) = codePointBefore input p unicode
             in w \<le> p \<and> boundary input unicode (p - w) \<and> codePointAt input (p - w) unicode = (c, w)))"
proof (intro conjI impI)
  assume p: "p < length input"
  show "let (c, w) = codePointAt input p unicode
        in p + w \<le> length input \<and> boundary input unicode (p + w) \<and> codePointBefore input (p + w) unicode = (c, w) \<and>
           advanceStringIndex input p unicode = p + w"
    using decode_forth_back [OF p assms(1)] width_at(2) [OF p, of unicode] p
    by (cases "codePointAt input p unicode") (simp add: advanceStringIndex_def)
next
  assume p: "0 < p"
  show "let (c, w) = codePointBefore input p unicode
        in w \<le> p \<and> boundary input unicode (p - w) \<and> codePointAt input (p - w) unicode = (c, w)"
    using decode_back_forth [OF p assms(2,1)] width_before(2) [OF p, of input unicode]
    by (cases "codePointBefore input p unicode") simp
qed

theorem decode_agrees_witness:
  "codePointAt [0xD83D, 0xDE00, 0x61] 0 True = (0x1F600, 2) \<and> codePointBefore [0xD83D, 0xDE00, 0x61] 2 True = (0x1F600, 2)"
proof -
  have "codePointAt [0xD83D, 0xDE00, 0x61] 0 True = (0x1F600, 2)"
    by (simp add: codePointAt_def isLeadSurrogate_def isTrailSurrogate_def combineSurrogates_def)
  moreover have "boundary [0xD83D, 0xDE00, 0x61] True 0" by (simp add: boundary_def)
  ultimately show ?thesis using decode_agrees [of "[0xD83D, 0xDE00, 0x61]" True 0] by simp
qed

text \<open>Canonicalising twice is canonicalising once, in every mode, as long as the generated case
  folding is so: a pattern character canonicalised when it was parsed can be compared with one
  canonicalisation of the input.\<close>

theorem canonicalize_idempotent:
  assumes "\<And>c. fold_table (fold_table c) = fold_table c" and "code \<le> alphabetCeiling unicode"
  shows "canonicalize fold_table (canonicalize fold_table code ignoreCase unicode) ignoreCase unicode =
         canonicalize fold_table code ignoreCase unicode"
proof (cases "ignoreCase \<and> \<not> unicode")
  case True
  then have "code < 2 ^ 16" using assms(2) by (simp add: alphabetCeiling_def kMaxUnit_def)
  moreover have "canonicalize fold_table c True False = upper16 c" for c by (simp add: canonicalize_def upper16_def)
  ultimately show ?thesis using True upper16_idem by simp
next
  case False
  then show ?thesis using assms(1) by (auto simp: canonicalize_def)
qed

theorem canonicalize_idempotent_witness:
  "canonicalize id (canonicalize id 0xB5 True False) True False = 0x39C"
  using canonicalize_idempotent [of id "0xB5" False True]
  by (simp add: alphabetCeiling_def kMaxUnit_def) (simp add: canonicalize_def foldLatin1_def)

end
