(* ===== verification/Regex_Pattern.thy ===== *)
theory Regex_Pattern
  imports Regex_Chars
begin

text \<open>
  Patterns and the questions they ask of one character (\<open>src/src/regex/pattern.h\<close>, \<open>regex.h\<close>, the sets
  built in \<open>chars.cpp\<close> and the single-character tests of \<open>matcher.cpp\<close>).

  The generated Unicode tables (\<open>simpleCaseFold\<close>, its reverse index and its sources) are a record
  \<open>case_tables\<close> that the definitions take as an argument; the locale \<open>case_index\<close> says what the index
  has to be for the class test to be right, and is interpreted on the uppercase table of \<open>chars.cpp\<close>.
\<close>

section \<open>Flags\<close>

record Flags =
  hasIndices :: bool
  global :: bool
  ignoreCase :: bool
  multiline :: bool
  dotAll :: bool
  unicode :: bool
  unicodeSets :: bool
  sticky :: bool

definition noFlags :: Flags where
  "noFlags = \<lparr>hasIndices = False, global = False, ignoreCase = False, multiline = False, dotAll = False,
     unicode = False, unicodeSets = False, sticky = False\<rparr>"

definition unicodeMode :: "Flags \<Rightarrow> bool" where
  "unicodeMode f \<longleftrightarrow> unicode f \<or> unicodeSets f"

definition flags_text :: "Flags \<Rightarrow> string" where
  "flags_text f =
     (if hasIndices f then ''d'' else []) @ (if global f then ''g'' else []) @ (if ignoreCase f then ''i'' else []) @
     (if multiline f then ''m'' else []) @ (if dotAll f then ''s'' else []) @ (if unicode f then ''u'' else []) @
     (if unicodeSets f then ''v'' else []) @ (if sticky f then ''y'' else [])"

datatype flags_error = UnknownFlag char | RepeatedFlag char | UnicodeAndSets

text \<open>The bit a letter names: how to read it and how to set it.\<close>

definition flag_slot :: "char \<Rightarrow> ((Flags \<Rightarrow> bool) \<times> (Flags \<Rightarrow> Flags)) option" where
  "flag_slot c =
     (if c = CHR ''d'' then Some (hasIndices, hasIndices_update (\<lambda>_. True))
      else if c = CHR ''g'' then Some (global, global_update (\<lambda>_. True))
      else if c = CHR ''i'' then Some (ignoreCase, ignoreCase_update (\<lambda>_. True))
      else if c = CHR ''m'' then Some (multiline, multiline_update (\<lambda>_. True))
      else if c = CHR ''s'' then Some (dotAll, dotAll_update (\<lambda>_. True))
      else if c = CHR ''u'' then Some (unicode, unicode_update (\<lambda>_. True))
      else if c = CHR ''v'' then Some (unicodeSets, unicodeSets_update (\<lambda>_. True))
      else if c = CHR ''y'' then Some (sticky, sticky_update (\<lambda>_. True))
      else None)"

fun parseFlags_loop :: "string \<Rightarrow> Flags \<Rightarrow> flags_error + Flags" where
  "parseFlags_loop [] out = Inr out"
| "parseFlags_loop (c # cs) out =
     (case flag_slot c of
        None \<Rightarrow> Inl (UnknownFlag c)
      | Some (get, put) \<Rightarrow> if get out then Inl (RepeatedFlag c) else parseFlags_loop cs (put out))"

definition parseFlags :: "string \<Rightarrow> flags_error + Flags" where
  "parseFlags txt =
     (case parseFlags_loop txt noFlags of
        Inl e \<Rightarrow> Inl e
      | Inr out \<Rightarrow> if unicode out \<and> unicodeSets out then Inl UnicodeAndSets else Inr out)"

section \<open>Character sets\<close>

record case_tables =
  simpleCaseFold :: "nat \<Rightarrow> nat"
  simpleCaseFoldCandidates :: "nat \<Rightarrow> nat list"
  simpleCaseFoldSources :: "nat list"

definition makeDigits :: RangeList where
  "makeDigits = addRange [] 0x30 0x39"

definition makeSpaces :: RangeList where
  "makeSpaces =
     normalizeRanges
       (fold (\<lambda>r list. addRange list (fst r) (snd r))
         [(0x9, 0xD), (0x20, 0x20), (0xA0, 0xA0), (0x1680, 0x1680), (0x2000, 0x200A), (0x2028, 0x2029),
          (0x202F, 0x202F), (0x205F, 0x205F), (0x3000, 0x3000), (0xFEFF, 0xFEFF)] [])"

definition basic_words :: RangeList where
  "basic_words =
     normalizeRanges
       (fold (\<lambda>r list. addRange list (fst r) (snd r)) [(0x30, 0x39), (0x41, 0x5A), (0x5F, 0x5F), (0x61, 0x7A)] [])"

text \<open>The lambda \<open>consider\<close> of \<open>makeWords\<close>.\<close>

definition consider_word :: "case_tables \<Rightarrow> bool \<Rightarrow> bool \<Rightarrow> nat \<Rightarrow> RangeList \<Rightarrow> RangeList" where
  "consider_word tab ic uni code list =
     (if rangesContain basic_words code then list
      else if rangesContain basic_words (canonicalize (simpleCaseFold tab) code ic uni) then addRange list code code
      else list)"

definition makeWords :: "case_tables \<Rightarrow> bool \<Rightarrow> bool \<Rightarrow> RangeList" where
  "makeWords tab ic uni =
     normalizeRanges (fold (consider_word tab ic uni) (if uni then simpleCaseFoldSources tab else [0..<kMaxUnit + 1]) basic_words)"

definition wordRanges :: "case_tables \<Rightarrow> bool \<Rightarrow> bool \<Rightarrow> RangeList" where
  "wordRanges tab ic uni =
     (if \<not> uni then (if ic then makeWords tab True False else makeWords tab False False)
      else (if ic then makeWords tab True True else makeWords tab False True))"

text \<open>The value of \<open>reverseUppercaseTable()\<close> at \<open>cc\<close>: the units pushed onto \<open>out[cc]\<close>, in order.\<close>

definition reverseUppercaseTable :: "nat \<Rightarrow> nat list" where
  "reverseUppercaseTable cc = filter (\<lambda>u. upper16 u = cc \<and> upper16 u \<noteq> u) [0..<kMaxUnit + 1]"

definition caseCandidates :: "case_tables \<Rightarrow> nat \<Rightarrow> bool \<Rightarrow> nat list" where
  "caseCandidates tab cc uni = (if uni then simpleCaseFoldCandidates tab cc else reverseUppercaseTable cc)"

section \<open>Patterns\<close>

datatype AssertionKind = Start | End | WordBoundary | NotWordBoundary

record repeat_node =
  repMin :: nat
  repMax :: nat
  greedy :: bool
  firstCapture :: nat
  captureCount :: nat
  simpleAtom :: bool

text \<open>
  One constructor per \<open>NodeKind\<close> with the fields that kind reads. An alternative of a disjunction is a
  sequence node that is only read through its children, so it is the list of them.
\<close>

datatype node =
    Alternation "node list list"
  | Sequence "node list"
  | Character nat
  | Class RangeList bool "nat list list" bool
  | Dot
  | Assertion AssertionKind
  | Lookahead bool node
  | Lookbehind bool node
  | Group nat node
  | Backreference nat
  | Repeat repeat_node node

definition kUnbounded :: nat where "kUnbounded = 0xFFFFFFFF"

section \<open>Single-character tests\<close>

text \<open>What a matcher is built from: the pattern's flags, the input and the generated tables.\<close>

record matcher =
  tables :: case_tables
  flags :: Flags
  input :: "nat list"

definition unicode_of :: "matcher \<Rightarrow> bool" where
  "unicode_of m = unicodeMode (flags m)"

definition ignoreCase_of :: "matcher \<Rightarrow> bool" where
  "ignoreCase_of m = ignoreCase (flags m)"

definition isLineTerminator :: "nat \<Rightarrow> bool" where
  "isLineTerminator u \<longleftrightarrow> u = 0xA \<or> u = 0xD \<or> u = 0x2028 \<or> u = 0x2029"

definition canonical :: "matcher \<Rightarrow> nat \<Rightarrow> nat" where
  "canonical m code = canonicalize (simpleCaseFold (tables m)) code (ignoreCase_of m) (unicode_of m)"

definition charMatches :: "matcher \<Rightarrow> nat \<Rightarrow> nat \<Rightarrow> bool" where
  "charMatches m patternCode inputCode \<longleftrightarrow> canonical m inputCode = patternCode"

definition class_found :: "matcher \<Rightarrow> RangeList \<Rightarrow> nat \<Rightarrow> bool" where
  "class_found m ranges inputCode =
     (if rangesContain ranges inputCode then True
      else if ignoreCase_of m then
        (let cc = canonical m inputCode
         in if rangesContain ranges cc then True
            else list_ex (rangesContain ranges) (caseCandidates (tables m) cc (unicode_of m)))
      else False)"

definition classMatches :: "matcher \<Rightarrow> RangeList \<Rightarrow> bool \<Rightarrow> nat \<Rightarrow> bool" where
  "classMatches m ranges negated inputCode =
     (let found = class_found m ranges inputCode in if negated then \<not> found else found)"

definition dotMatches :: "matcher \<Rightarrow> nat \<Rightarrow> bool" where
  "dotMatches m inputCode \<longleftrightarrow> dotAll (flags m) \<or> \<not> isLineTerminator inputCode"

fun singleCharMatches :: "matcher \<Rightarrow> node \<Rightarrow> nat \<Rightarrow> bool" where
  "singleCharMatches m (Character ch) code = charMatches m ch code"
| "singleCharMatches m (Class ranges negated strings matchesEmpty) code = classMatches m ranges negated code"
| "singleCharMatches m Dot code = dotMatches m code"
| "singleCharMatches m _ code = False"

definition characterAt :: "matcher \<Rightarrow> nat \<Rightarrow> CodePointStep" where
  "characterAt m pos = codePointAt (input m) pos (unicode_of m)"

definition characterBefore :: "matcher \<Rightarrow> nat \<Rightarrow> CodePointStep" where
  "characterBefore m pos = codePointBefore (input m) pos (unicode_of m)"

definition isWordAt :: "matcher \<Rightarrow> int \<Rightarrow> bool" where
  "isWordAt m at =
     (if at < 0 \<or> at \<ge> int (length (input m)) then False
      else rangesContain (wordRanges (tables m) (ignoreCase_of m) (unicode_of m)) (input m ! nat at))"

fun assertionHolds :: "matcher \<Rightarrow> AssertionKind \<Rightarrow> nat \<Rightarrow> bool" where
  "assertionHolds m Start pos =
     (if pos = 0 then True else multiline (flags m) \<and> isLineTerminator (input m ! (pos - 1)))"
| "assertionHolds m End pos =
     (if pos = length (input m) then True else multiline (flags m) \<and> isLineTerminator (input m ! pos))"
| "assertionHolds m WordBoundary pos = (isWordAt m (int pos - 1) \<noteq> isWordAt m (int pos))"
| "assertionHolds m NotWordBoundary pos = (isWordAt m (int pos - 1) = isWordAt m (int pos))"

section \<open>The flags round trip\<close>

text \<open>One letter of the text after the other.\<close>

lemma parseFlags_letters:
  "parseFlags_loop ((if b then ''d'' else []) @ rest)
     \<lparr>hasIndices = False, global = False, ignoreCase = False, multiline = False, dotAll = False, unicode = False, unicodeSets = False, sticky = False\<rparr> =
   parseFlags_loop rest \<lparr>hasIndices = b, global = False, ignoreCase = False, multiline = False, dotAll = False, unicode = False, unicodeSets = False, sticky = False\<rparr>"
  "parseFlags_loop ((if b then ''g'' else []) @ rest)
     \<lparr>hasIndices = d, global = False, ignoreCase = False, multiline = False, dotAll = False, unicode = False, unicodeSets = False, sticky = False\<rparr> =
   parseFlags_loop rest \<lparr>hasIndices = d, global = b, ignoreCase = False, multiline = False, dotAll = False, unicode = False, unicodeSets = False, sticky = False\<rparr>"
  "parseFlags_loop ((if b then ''i'' else []) @ rest)
     \<lparr>hasIndices = d, global = g, ignoreCase = False, multiline = False, dotAll = False, unicode = False, unicodeSets = False, sticky = False\<rparr> =
   parseFlags_loop rest \<lparr>hasIndices = d, global = g, ignoreCase = b, multiline = False, dotAll = False, unicode = False, unicodeSets = False, sticky = False\<rparr>"
  "parseFlags_loop ((if b then ''m'' else []) @ rest)
     \<lparr>hasIndices = d, global = g, ignoreCase = i, multiline = False, dotAll = False, unicode = False, unicodeSets = False, sticky = False\<rparr> =
   parseFlags_loop rest \<lparr>hasIndices = d, global = g, ignoreCase = i, multiline = b, dotAll = False, unicode = False, unicodeSets = False, sticky = False\<rparr>"
  "parseFlags_loop ((if b then ''s'' else []) @ rest)
     \<lparr>hasIndices = d, global = g, ignoreCase = i, multiline = m0, dotAll = False, unicode = False, unicodeSets = False, sticky = False\<rparr> =
   parseFlags_loop rest \<lparr>hasIndices = d, global = g, ignoreCase = i, multiline = m0, dotAll = b, unicode = False, unicodeSets = False, sticky = False\<rparr>"
  "parseFlags_loop ((if b then ''u'' else []) @ rest)
     \<lparr>hasIndices = d, global = g, ignoreCase = i, multiline = m0, dotAll = s, unicode = False, unicodeSets = False, sticky = False\<rparr> =
   parseFlags_loop rest \<lparr>hasIndices = d, global = g, ignoreCase = i, multiline = m0, dotAll = s, unicode = b, unicodeSets = False, sticky = False\<rparr>"
  "parseFlags_loop ((if b then ''v'' else []) @ rest)
     \<lparr>hasIndices = d, global = g, ignoreCase = i, multiline = m0, dotAll = s, unicode = u, unicodeSets = False, sticky = False\<rparr> =
   parseFlags_loop rest \<lparr>hasIndices = d, global = g, ignoreCase = i, multiline = m0, dotAll = s, unicode = u, unicodeSets = b, sticky = False\<rparr>"
  "parseFlags_loop ((if b then ''y'' else []))
     \<lparr>hasIndices = d, global = g, ignoreCase = i, multiline = m0, dotAll = s, unicode = u, unicodeSets = v, sticky = False\<rparr> =
   parseFlags_loop [] \<lparr>hasIndices = d, global = g, ignoreCase = i, multiline = m0, dotAll = s, unicode = u, unicodeSets = v, sticky = b\<rparr>"
  by (simp_all add: flag_slot_def)

lemma parseFlags_loop_text: "parseFlags_loop (flags_text f) noFlags = Inr f"
  unfolding flags_text_def noFlags_def by (cases f) (simp only: parseFlags_letters append_assoc parseFlags_loop.simps Flags.select_convs)

section \<open>The class test\<close>

text \<open>
  A canonicalisation over an alphabet with an index of what canonicalises to each character. The class
  test is three membership scans; under these laws it asks whether some member canonicalises as the
  input does.
\<close>

locale case_index =
  fixes canon :: "nat \<Rightarrow> nat" and candidates :: "nat \<Rightarrow> nat list" and ceil :: nat
  assumes canon_le: "c \<le> ceil \<Longrightarrow> canon c \<le> ceil"
    and canon_idem: "c \<le> ceil \<Longrightarrow> canon (canon c) = canon c"
    and candidates_set: "set (candidates cc) = {c. c \<le> ceil \<and> canon c = cc \<and> c \<noteq> cc}"
begin

lemma three_scans:
  assumes "c \<le> ceil" and "S \<subseteq> {0..ceil}"
  shows "(c \<in> S \<or> canon c \<in> S \<or> (\<exists>d \<in> set (candidates (canon c)). d \<in> S)) \<longleftrightarrow> (\<exists>d \<in> S. canon d = canon c)"
  using assms canon_idem [OF assms(1)] by (fastforce simp: candidates_set)

end

lemma upper16_le: "u \<le> kMaxUnit \<Longrightarrow> upper16 u \<le> kMaxUnit"
proof -
  assume u: "u \<le> kMaxUnit"
  have "foldLatin1 u \<le> max u 0x39C" "foldLatinExtendedA u \<le> u" "foldCyrillic u \<le> max u 0x4C0"
    by (auto simp: foldLatin1_def foldLatinExtendedA_def foldCyrillic_def)
  moreover have "c \<le> 0x3FF" if "map_of greek_table u = Some c" for c
    using map_of_SomeD [OF that] by (auto simp: greek_table_def)
  then have "foldGreek u \<le> max u 0x3FF"
    unfolding foldGreek_def le_max_iff_disj by (simp split: option.split)
  moreover have "u mod 2 ^ 16 = u" using u by (simp add: kMaxUnit_def)
  ultimately show ?thesis
    using u unfolding upper16_def canonicalize_def kMaxUnit_def Let_def by (simp, linarith)
qed

lemma reverseUppercaseTable_set: "set (reverseUppercaseTable cc) = {c. c \<le> kMaxUnit \<and> upper16 c = cc \<and> c \<noteq> cc}"
  unfolding reverseUppercaseTable_def by (auto simp del: upt_Suc)

lemma upper16_idem_unit: "c \<le> kMaxUnit \<Longrightarrow> upper16 (upper16 c) = upper16 c"
  using upper16_idem [of c] by (simp add: kMaxUnit_def)

interpretation uppercase: case_index upper16 reverseUppercaseTable kMaxUnit
  by unfold_locales (fact upper16_le upper16_idem_unit reverseUppercaseTable_set)+

lemma canonical_upper: "ignoreCase_of m \<Longrightarrow> \<not> unicode_of m \<Longrightarrow> canonical m c = upper16 c"
  by (simp add: canonical_def upper16_def canonicalize_def)

text \<open>What \<open>unicode.h\<close> documents of the folding: it stays in the code space, folds once, and comes with
  the exact reverse index.\<close>

definition tables_ok :: "case_tables \<Rightarrow> bool" where
  "tables_ok tab \<longleftrightarrow> case_index (simpleCaseFold tab) (simpleCaseFoldCandidates tab) kMaxCodePoint"

lemma identity_tables_ok: "tables_ok \<lparr>simpleCaseFold = id, simpleCaseFoldCandidates = (\<lambda>_. []), simpleCaseFoldSources = []\<rparr>"
  by (simp add: tables_ok_def case_index_def)

text \<open>C29: A class matches a character exactly when some member of its set canonicalises as the character
  does, or none does and the class is negated, in every combination of the flags: the three scans of
  the matcher find all of them, with the uppercase index built from the uppercase table itself.\<close>

theorem class_test_decides:
  assumes "tables_ok (tables m)" and "c \<le> alphabetCeiling (unicode_of m)"
    and "separated ranges" and "valid_ranges ranges" and "members ranges \<subseteq> {0..alphabetCeiling (unicode_of m)}"
  shows "classMatches m ranges negated c \<longleftrightarrow> ((\<exists>d \<in> members ranges. canonical m d = canonical m c) \<longleftrightarrow> \<not> negated)"
proof -
  have scan: "rangesContain ranges d \<longleftrightarrow> d \<in> members ranges" for d
    by (rule rangesContain_correct [OF assms(3,4)])
  have "class_found m ranges c \<longleftrightarrow> (\<exists>d \<in> members ranges. canonical m d = canonical m c)"
  proof (cases "ignoreCase_of m")
    case False
    then show ?thesis by (auto simp: class_found_def scan canonical_def canonicalize_def)
  next
    case True
    let ?U = "unicode_of m"
    have "class_found m ranges c \<longleftrightarrow>
        c \<in> members ranges \<or> canonical m c \<in> members ranges \<or> (\<exists>d \<in> set (caseCandidates (tables m) (canonical m c) ?U). d \<in> members ranges)"
      using True by (simp add: class_found_def scan Let_def list_ex_iff)
    also have "\<dots> \<longleftrightarrow> (\<exists>d \<in> members ranges. canonical m d = canonical m c)"
    proof (cases ?U)
      case U: True
      then have "canonical m d = simpleCaseFold (tables m) d" for d
        using True by (simp add: canonical_def canonicalize_def)
      then show ?thesis
        using case_index.three_scans [OF assms(1) [unfolded tables_ok_def], of c "members ranges"] assms(2,5) U
        by (simp add: caseCandidates_def alphabetCeiling_def)
    next
      case U: False
      then show ?thesis
        using uppercase.three_scans [of c "members ranges"] assms(2,5) canonical_upper [OF True U]
        by (simp add: caseCandidates_def alphabetCeiling_def)
    qed
    finally show ?thesis .
  qed
  then show ?thesis by (auto simp: classMatches_def Let_def)
qed

theorem class_test_decides_witness:
  "classMatches \<lparr>tables = \<lparr>simpleCaseFold = id, simpleCaseFoldCandidates = (\<lambda>_. []), simpleCaseFoldSources = []\<rparr>,
       flags = noFlags\<lparr>ignoreCase := True\<rparr>, input = []\<rparr> [(0xB5, 0xB5)] False 0x39C"
proof -
  let ?m = "\<lparr>tables = \<lparr>simpleCaseFold = id, simpleCaseFoldCandidates = (\<lambda>_. []), simpleCaseFoldSources = []\<rparr>,
       flags = noFlags\<lparr>ignoreCase := True\<rparr>, input = []\<rparr>"
  have m: "unicode_of ?m = False" "ignoreCase_of ?m"
    by (simp_all add: unicode_of_def ignoreCase_of_def unicodeMode_def noFlags_def)
  have "canonical ?m 0xB5 = canonical ?m 0x39C"
    by (simp add: canonical_upper [OF m(2)] m(1) upper16_small foldLatin1_def foldGreek_def greek_table_def)
  then show ?thesis
    using class_test_decides [of ?m "0x39C" "[(0xB5, 0xB5)]" False]
    by (simp add: m(1) identity_tables_ok alphabetCeiling_def kMaxUnit_def kMaxCodePoint_def)
qed

text \<open>Printing the flags and parsing the text gives the flags back, unless both alphabets are asked for.\<close>

theorem flags_round_trip:
  "parseFlags (flags_text f) = (if unicode f \<and> unicodeSets f then Inl UnicodeAndSets else Inr f)"
  by (simp add: parseFlags_def parseFlags_loop_text)

end
