(* ===== verification/Regex_Unicode.thy ===== *)
theory Regex_Unicode
  imports Regex_Pattern
begin

text \<open>
  The Unicode properties and the simple case folding (\<open>src/src/regex/unicode.h\<close>, \<open>unicode.cpp\<close>): what
  \<open>\p{...}\<close> denotes, the category and the script of one code point, and the fold with its reverse index.

  The generated tables of \<open>unicode_data_*.cpp\<close> are the record \<open>ucd\<close>, an argument of the definitions;
  \<open>ucd_ok\<close> is what \<open>unicode_data.h\<close> documents of them. The aliases of the categories are short and are
  written out, so that the masks of \<open>kGcNames\<close> can be computed.
\<close>

section \<open>Tables\<close>

record ucd =
  kGcRuns :: "(nat \<times> nat) list"
  kSimpleCaseFolds :: "(nat \<times> nat) list"
  kScriptRuns :: "(nat \<times> nat) list"
  kScriptNames :: "string list"
  kScriptAliases :: "(string \<times> nat) list"
  kScxRanges :: "(nat \<times> nat \<times> nat \<times> nat) list"
  kScxScripts :: "nat list"
  kIdStartRanges :: RangeList
  kIdContinueRanges :: RangeList

definition kGcAliases :: "string list" where
  "kGcAliases =
     [''Cc'', ''Cf'', ''Cn'', ''Co'', ''Cs'', ''Ll'', ''Lm'', ''Lo'', ''Lt'', ''Lu'',
      ''Mc'', ''Me'', ''Mn'', ''Nd'', ''Nl'', ''No'', ''Pc'', ''Pd'', ''Pe'', ''Pf'',
      ''Pi'', ''Po'', ''Ps'', ''Sc'', ''Sk'', ''Sm'', ''So'', ''Zl'', ''Zp'', ''Zs'']"

definition kGcNames :: "(string \<times> string) list" where
  "kGcNames =
     [(''C'', ''Cc Cf Cn Co Cs''), (''Other'', ''Cc Cf Cn Co Cs''), (''L'', ''Ll Lm Lo Lt Lu''),
      (''Letter'', ''Ll Lm Lo Lt Lu''), (''LC'', ''Ll Lt Lu''), (''Cased_Letter'', ''Ll Lt Lu''),
      (''M'', ''Mc Me Mn''), (''Mark'', ''Mc Me Mn''), (''Combining_Mark'', ''Mc Me Mn''),
      (''N'', ''Nd Nl No''), (''Number'', ''Nd Nl No''), (''P'', ''Pc Pd Pe Pf Pi Po Ps''),
      (''Punctuation'', ''Pc Pd Pe Pf Pi Po Ps''), (''punct'', ''Pc Pd Pe Pf Pi Po Ps''),
      (''S'', ''Sc Sk Sm So''), (''Symbol'', ''Sc Sk Sm So''), (''Z'', ''Zl Zp Zs''),
      (''Separator'', ''Zl Zp Zs''), (''Cc'', ''Cc''), (''Control'', ''Cc''), (''cntrl'', ''Cc''),
      (''Cf'', ''Cf''), (''Format'', ''Cf''), (''Cn'', ''Cn''), (''Unassigned'', ''Cn''), (''Co'', ''Co''),
      (''Private_Use'', ''Co''), (''Cs'', ''Cs''), (''Surrogate'', ''Cs''), (''Ll'', ''Ll''),
      (''Lowercase_Letter'', ''Ll''), (''Lm'', ''Lm''), (''Modifier_Letter'', ''Lm''), (''Lo'', ''Lo''),
      (''Other_Letter'', ''Lo''), (''Lt'', ''Lt''), (''Titlecase_Letter'', ''Lt''), (''Lu'', ''Lu''),
      (''Uppercase_Letter'', ''Lu''), (''Mc'', ''Mc''), (''Spacing_Mark'', ''Mc''), (''Me'', ''Me''),
      (''Enclosing_Mark'', ''Me''), (''Mn'', ''Mn''), (''Nonspacing_Mark'', ''Mn''), (''Nd'', ''Nd''),
      (''Decimal_Number'', ''Nd''), (''digit'', ''Nd''), (''Nl'', ''Nl''), (''Letter_Number'', ''Nl''),
      (''No'', ''No''), (''Other_Number'', ''No''), (''Pc'', ''Pc''), (''Connector_Punctuation'', ''Pc''),
      (''Pd'', ''Pd''), (''Dash_Punctuation'', ''Pd''), (''Pe'', ''Pe''), (''Close_Punctuation'', ''Pe''),
      (''Pf'', ''Pf''), (''Final_Punctuation'', ''Pf''), (''Pi'', ''Pi''), (''Initial_Punctuation'', ''Pi''),
      (''Po'', ''Po''), (''Other_Punctuation'', ''Po''), (''Ps'', ''Ps''), (''Open_Punctuation'', ''Ps''),
      (''Sc'', ''Sc''), (''Currency_Symbol'', ''Sc''), (''Sk'', ''Sk''), (''Modifier_Symbol'', ''Sk''),
      (''Sm'', ''Sm''), (''Math_Symbol'', ''Sm''), (''So'', ''So''), (''Other_Symbol'', ''So''),
      (''Zl'', ''Zl''), (''Line_Separator'', ''Zl''), (''Zp'', ''Zp''), (''Paragraph_Separator'', ''Zp''),
      (''Zs'', ''Zs''), (''Space_Separator'', ''Zs'')]"

text \<open>The bisection of \<open>std::lower_bound\<close> and \<open>std::upper_bound\<close>: \<open>lo\<close> is \<open>first\<close> and \<open>n\<close> the length left,
  and \<open>prior\<close> says that an element is before the value looked for.\<close>

function bound_loop :: "('a \<Rightarrow> bool) \<Rightarrow> 'a list \<Rightarrow> nat \<Rightarrow> nat \<Rightarrow> nat" where
  "bound_loop prior xs lo n =
     (if n = 0 then lo
      else let half = n div 2
           in if prior (xs ! (lo + half)) then bound_loop prior xs (lo + half + 1) (n - half - 1)
              else bound_loop prior xs lo half)"
  by pat_completeness auto
termination
  by (relation "measure (\<lambda>(prior, xs, lo, n). n)") auto

declare bound_loop.simps [simp del]

definition bound :: "('a \<Rightarrow> bool) \<Rightarrow> 'a list \<Rightarrow> nat" where
  "bound prior xs = bound_loop prior xs 0 (length xs)"

section \<open>General categories\<close>

definition gc_bit :: "nat \<Rightarrow> u32" where
  "gc_bit i = push_bit i 1"

definition aliasIndex :: "string \<Rightarrow> nat" where
  "aliasIndex alias = length (takeWhile (\<lambda>a. a \<noteq> alias) kGcAliases)"

text \<open>The loop of \<open>maskOfName\<close> over the members of an entry.\<close>

function mask_loop :: "string \<Rightarrow> u32 \<Rightarrow> u32" where
  "mask_loop mem bits =
     (if mem = [] then bits
      else let alias = takeWhile (\<lambda>c. c \<noteq> CHR '' '') mem; index = aliasIndex alias
           in if index = length kGcAliases then 0
              else if length alias = length mem then bits OR gc_bit index
              else mask_loop (drop (length alias + 1) mem) (bits OR gc_bit index))"
  by pat_completeness auto
termination
  by (relation "measure (\<lambda>(mem, bits). length mem)") auto

declare mask_loop.simps [simp del]

definition maskOfName :: "string \<Rightarrow> u32" where
  "maskOfName name = (case map_of kGcNames name of None \<Rightarrow> 0 | Some mem \<Rightarrow> mask_loop mem 0)"

text \<open>The loop that \<open>rangesForMask\<close> and \<open>scriptRanges\<close> share: the runs whose value is wanted, each up to the
  start of the next one.\<close>

fun run_ranges :: "(nat \<Rightarrow> bool) \<Rightarrow> (nat \<times> nat) list \<Rightarrow> RangeList \<Rightarrow> RangeList" where
  "run_ranges wanted [] list = list"
| "run_ranges wanted (r # rs) list =
     run_ranges wanted rs
       (if \<not> wanted (snd r) then list
        else addRange list (fst r) (case rs of [] \<Rightarrow> kMaxCodePoint | q # qs \<Rightarrow> (fst q + 2 ^ 32 - 1) mod 2 ^ 32))"

definition rangesForMask :: "ucd \<Rightarrow> u32 \<Rightarrow> RangeList" where
  "rangesForMask u bits = normalizeRanges (run_ranges (\<lambda>category. bits AND gc_bit category \<noteq> 0) (kGcRuns u) [])"

definition binaryPropertySet :: "ucd \<Rightarrow> string \<Rightarrow> RangeList option" where
  "binaryPropertySet u val =
     (if val = ''Any'' then Some (addRange [] 0 kMaxCodePoint)
      else if val = ''ASCII'' then Some (addRange [] 0 0x7F)
      else if val = ''Assigned'' then
        Some (rangesForMask u (fold (\<lambda>i bits. bits OR gc_bit i) [0..<length kGcAliases] 0 AND NOT (gc_bit (aliasIndex ''Cn''))))
      else if val = ''ID_Start'' \<or> val = ''IDS'' then Some (kIdStartRanges u)
      else if val = ''ID_Continue'' \<or> val = ''IDC'' then Some (kIdContinueRanges u)
      else None)"

section \<open>Scripts\<close>

definition text_less :: "string \<Rightarrow> string \<Rightarrow> bool" where
  "text_less a b = ord_class.lexordp (map (of_char :: char \<Rightarrow> nat) a) (map of_char b)"

definition scriptIndex :: "ucd \<Rightarrow> string \<Rightarrow> nat" where
  "scriptIndex u alias =
     (let it = bound (\<lambda>entry. text_less (fst entry) alias) (kScriptAliases u)
      in if it = length (kScriptAliases u) \<or> fst (kScriptAliases u ! it) \<noteq> alias then length (kScriptNames u)
         else snd (kScriptAliases u ! it))"

definition scriptRanges :: "ucd \<Rightarrow> nat \<Rightarrow> RangeList" where
  "scriptRanges u script = normalizeRanges (run_ranges (\<lambda>s. s = script) (kScriptRuns u) [])"

definition scx_names :: "ucd \<Rightarrow> nat \<Rightarrow> nat \<times> nat \<times> nat \<times> nat \<Rightarrow> bool" where
  "scx_names u script = (\<lambda>(lo, hi, offset, n). list_ex (\<lambda>j. kScxScripts u ! (offset + j) = script) [0..<n])"

definition scriptExtensionRanges :: "ucd \<Rightarrow> nat \<Rightarrow> RangeList" where
  "scriptExtensionRanges u script =
     (let overridden = fold (\<lambda>(lo, hi, _) list. addRange list lo hi) (kScxRanges u) [];
          named = fold (\<lambda>(lo, hi, _) list. addRange list lo hi) (filter (scx_names u script) (kScxRanges u)) []
      in normalizeRanges (subtractRanges (scriptRanges u script) (normalizeRanges overridden) @ normalizeRanges named))"

section \<open>Properties by name\<close>

definition isPropertyOfStrings :: "string \<Rightarrow> bool" where
  "isPropertyOfStrings val \<longleftrightarrow>
     val \<in> {''Basic_Emoji'', ''Emoji_Keycap_Sequence'', ''RGI_Emoji'', ''RGI_Emoji_Flag_Sequence'',
            ''RGI_Emoji_Modifier_Sequence'', ''RGI_Emoji_Tag_Sequence'', ''RGI_Emoji_ZWJ_Sequence''}"

datatype property_error = NoScript | NotNameValue | ScriptInLoneForm | PropertyOfStrings | NoProperty

definition unicodePropertySet :: "ucd \<Rightarrow> string \<Rightarrow> string \<Rightarrow> property_error + RangeList" where
  "unicodePropertySet u name val =
     (if name = ''Script'' \<or> name = ''sc'' \<or> name = ''Script_Extensions'' \<or> name = ''scx'' then
        (let script = scriptIndex u val
         in if script = length (kScriptNames u) then Inl NoScript
            else Inr (if name = ''Script'' \<or> name = ''sc'' then scriptRanges u script else scriptExtensionRanges u script))
      else if name \<noteq> [] \<and> name \<noteq> ''General_Category'' \<and> name \<noteq> ''gc'' then Inl NotNameValue
      else
        (case (if name = [] then binaryPropertySet u val else None) of
           Some rs \<Rightarrow> Inr rs
         | None \<Rightarrow>
             (let bits = maskOfName val
              in if bits = 0 then
                   (if name = [] \<and> scriptIndex u val \<noteq> length (kScriptNames u) then Inl ScriptInLoneForm
                    else if name = [] \<and> isPropertyOfStrings val then Inl PropertyOfStrings
                    else Inl NoProperty)
                 else Inr (rangesForMask u bits))))"

text \<open>The value of the run that contains \<open>code\<close>; the first run starts at zero, so there is one.\<close>

definition run_value :: "(nat \<times> nat) list \<Rightarrow> nat \<Rightarrow> nat" where
  "run_value runs code = snd (runs ! (bound (\<lambda>r. \<not> code < fst r) runs - 1))"

definition generalCategoryOf :: "ucd \<Rightarrow> nat \<Rightarrow> string" where
  "generalCategoryOf u code = kGcAliases ! run_value (kGcRuns u) code"

definition scriptOf :: "ucd \<Rightarrow> nat \<Rightarrow> string" where
  "scriptOf u code = kScriptNames u ! run_value (kScriptRuns u) code"

fun scx_loop :: "ucd \<Rightarrow> nat \<Rightarrow> nat \<Rightarrow> (nat \<times> nat \<times> nat \<times> nat) list \<Rightarrow> bool option" where
  "scx_loop u code script [] = None"
| "scx_loop u code script (r # rs) =
     (if code < fst r then None
      else if code > fst (snd r) then scx_loop u code script rs
      else Some (scx_names u script r))"

definition scriptExtensionsContain :: "ucd \<Rightarrow> nat \<Rightarrow> string \<Rightarrow> bool" where
  "scriptExtensionsContain u code alias =
     (let script = scriptIndex u alias
      in if script = length (kScriptNames u) then False
         else (case scx_loop u code script (kScxRanges u) of
                 Some b \<Rightarrow> b
               | None \<Rightarrow> scriptOf u code = kScriptNames u ! script))"

section \<open>Simple case folding\<close>

definition ucd_simpleCaseFold :: "ucd \<Rightarrow> nat \<Rightarrow> nat" where
  "ucd_simpleCaseFold u code =
     (let table = kSimpleCaseFolds u; it = bound (\<lambda>entry. fst entry < code) table
      in if it \<noteq> length table \<and> fst (table ! it) = code then snd (table ! it) else code)"

text \<open>What \<open>reverseFoldTable()\<close> holds at \<open>folded\<close>: the sources pushed there, in table order.\<close>

definition ucd_simpleCaseFoldCandidates :: "ucd \<Rightarrow> nat \<Rightarrow> nat list" where
  "ucd_simpleCaseFoldCandidates u folded = map fst (filter (\<lambda>entry. snd entry = folded) (kSimpleCaseFolds u))"

definition ucd_simpleCaseFoldSources :: "ucd \<Rightarrow> nat list" where
  "ucd_simpleCaseFoldSources u = map fst (kSimpleCaseFolds u)"

definition ucd_tables :: "ucd \<Rightarrow> case_tables" where
  "ucd_tables u =
     \<lparr>simpleCaseFold = ucd_simpleCaseFold u, simpleCaseFoldCandidates = ucd_simpleCaseFoldCandidates u,
      simpleCaseFoldSources = ucd_simpleCaseFoldSources u\<rparr>"

definition simpleCaseFoldFixedPoints :: "case_tables \<Rightarrow> RangeList" where
  "simpleCaseFoldFixedPoints tab =
     complementRanges (normalizeRanges (fold (\<lambda>code moved. addRange moved code code) (simpleCaseFoldSources tab) [])) kMaxCodePoint"

section \<open>Bisection\<close>

lemma bound_loop_eq:
  assumes "\<And>i. lo \<le> i \<Longrightarrow> i < lo + n \<Longrightarrow> prior (xs ! i) \<longleftrightarrow> i < k" and "lo \<le> k" and "k \<le> lo + n"
  shows "bound_loop prior xs lo n = k"
  using assms
proof (induction prior xs lo n rule: bound_loop.induct)
  case (1 prior xs lo n)
  note IH = "1.IH" [OF _ refl] and prems = "1.prems"
  show ?case
  proof (cases "n = 0")
    case True
    then show ?thesis using prems by (simp add: bound_loop.simps)
  next
    case False
    then have half: "n div 2 < n" by simp
    show ?thesis
    proof (cases "lo + n div 2 < k")
      case True
      then have "prior (xs ! (lo + n div 2))" using prems(1) [of "lo + n div 2"] half by simp
      then show ?thesis
        using IH(1) [OF False] prems half True \<open>n \<noteq> 0\<close> by (subst bound_loop.simps) (simp add: Let_def)
    next
      case upper: False
      then have "\<not> prior (xs ! (lo + n div 2))" using prems(1) [of "lo + n div 2"] half by simp
      then show ?thesis
        using IH(2) [OF False] prems half upper \<open>n \<noteq> 0\<close> by (subst bound_loop.simps) (simp add: Let_def)
    qed
  qed
qed

lemma bound_takeWhile:
  assumes "\<And>i j. i < j \<Longrightarrow> j < length xs \<Longrightarrow> prior (xs ! j) \<Longrightarrow> prior (xs ! i)"
  shows "bound prior xs = length (takeWhile prior xs)"
  unfolding bound_def
proof (rule bound_loop_eq)
  let ?k = "length (takeWhile prior xs)"
  fix i assume i: "0 \<le> i" "i < 0 + length xs"
  show "prior (xs ! i) \<longleftrightarrow> i < ?k"
  proof (cases "i < ?k")
    case True
    then show ?thesis using takeWhile_nth [OF True] nth_mem [OF True] by (metis set_takeWhileD)
  next
    case False
    then have "\<not> prior (xs ! ?k)" using nth_length_takeWhile [of prior xs] i by simp
    then show ?thesis using False assms [of ?k i] i by (cases "i = ?k") auto
  qed
qed (simp_all add: length_takeWhile_le)

text \<open>A table sorted by its keys, looked up by bisection, is the map it lists.\<close>

locale key_order =
  fixes less :: "'k \<Rightarrow> 'k \<Rightarrow> bool"
  assumes irrefl: "\<not> less a a"
    and trans: "less a b \<Longrightarrow> less b c \<Longrightarrow> less a c"
begin

lemma bound_keys:
  assumes "sorted_wrt (\<lambda>a b. less (fst a) (fst b)) table"
  shows "bound (\<lambda>entry. less (fst entry) key) table = length (takeWhile (\<lambda>entry. less (fst entry) key) table)"
  using assms trans by (intro bound_takeWhile) (blast dest: sorted_wrt_nth_less)

lemma lookup:
  fixes table :: "('k \<times> 'v) list" and key :: 'k
  assumes "sorted_wrt (\<lambda>a b. less (fst a) (fst b)) table"
  defines "it \<equiv> bound (\<lambda>entry. less (fst entry) key) table"
  shows "map_of table key = (if it = length table \<or> fst (table ! it) \<noteq> key then None else Some (snd (table ! it)))"
  using assms(1) unfolding it_def bound_keys [OF assms(1)]
proof (induction table)
  case (Cons e table)
  have later: "less (fst e) key" if "(key, v) \<in> set table" for v using Cons.prems that by force
  show ?case
  proof (cases "less (fst e) key")
    case True
    then have "fst e \<noteq> key" using irrefl by auto
    then show ?thesis using True Cons by (cases e) auto
  next
    case False
    then have "map_of table key = None" using later by (force simp: map_of_eq_None_iff)
    then show ?thesis using False by (cases e) auto
  qed
qed simp

end

interpretation code_keys: key_order "(<) :: nat \<Rightarrow> nat \<Rightarrow> bool"
  by unfold_locales auto

interpretation text_keys: key_order text_less
proof unfold_locales
  show "\<not> text_less a a" for a by (simp add: text_less_def lexordp_irreflexive')
  show "text_less a b \<Longrightarrow> text_less b c \<Longrightarrow> text_less a c" for a b c
    unfolding text_less_def by (rule lexordp_trans)
qed

section \<open>Runs\<close>

definition runs_ok :: "nat \<Rightarrow> (nat \<times> nat) list \<Rightarrow> bool" where
  "runs_ok n runs \<longleftrightarrow>
     runs \<noteq> [] \<and> fst (hd runs) = 0 \<and> sorted_wrt (\<lambda>a b. fst a < fst b) runs \<and>
     (\<forall>r \<in> set runs. fst r \<le> kMaxCodePoint \<and> snd r < n)"

lemma run_value_last:
  assumes "runs_ok n runs"
  shows "run_value runs code = snd (last (takeWhile (\<lambda>r. fst r \<le> code) runs))"
    and "takeWhile (\<lambda>r. fst r \<le> code) runs \<noteq> []"
proof -
  let ?prior = "\<lambda>r. \<not> code < fst r" let ?w = "takeWhile ?prior runs"
  have "bound ?prior runs = length ?w"
    using assms by (intro bound_takeWhile) (fastforce simp: runs_ok_def dest: sorted_wrt_nth_less)
  moreover have w: "?w \<noteq> []" using assms by (cases runs) (auto simp: runs_ok_def)
  moreover have "?w ! (length ?w - 1) = runs ! (length ?w - 1)" using w by (intro takeWhile_nth) simp
  ultimately show "run_value runs code = snd (last (takeWhile (\<lambda>r. fst r \<le> code) runs))"
    and "takeWhile (\<lambda>r. fst r \<le> code) runs \<noteq> []"
    by (simp_all add: run_value_def last_conv_nth not_less)
qed

lemma run_value_less: "runs_ok n runs \<Longrightarrow> run_value runs code < n"
  using run_value_last [of n runs code] set_takeWhileD [OF last_in_set]
  by (metis runs_ok_def)

lemma run_ranges_members:
  assumes "sorted_wrt (\<lambda>a b. fst a < fst b) runs" and "\<forall>r \<in> set runs. fst r \<le> kMaxCodePoint" and "valid_ranges list"
  shows "valid_ranges (run_ranges wanted runs list) \<and>
         members (run_ranges wanted runs list) =
           members list \<union> {c. c \<le> kMaxCodePoint \<and> takeWhile (\<lambda>r. fst r \<le> c) runs \<noteq> [] \<and>
                              wanted (snd (last (takeWhile (\<lambda>r. fst r \<le> c) runs)))}"
  using assms
proof (induction runs arbitrary: list)
  case (Cons r runs)
  define hi where "hi = (case runs of [] \<Rightarrow> kMaxCodePoint | q # qs \<Rightarrow> (fst q + 2 ^ 32 - 1) mod 2 ^ 32)"
  have hi: "fst r \<le> hi \<and> hi \<le> kMaxCodePoint \<and> (\<forall>c \<le> kMaxCodePoint. c \<le> hi \<longleftrightarrow> takeWhile (\<lambda>r. fst r \<le> c) runs = [])"
  proof (cases runs)
    case Nil
    then show ?thesis using Cons.prems by (simp add: hi_def)
  next
    case next_run: (Cons q qs)
    have "fst r < fst q" "fst q \<le> kMaxCodePoint" using Cons.prems next_run by auto
    then have "hi = fst q - 1" unfolding hi_def next_run kMaxCodePoint_def by (simp add: mod_if)
    then show ?thesis using \<open>fst r < fst q\<close> \<open>fst q \<le> kMaxCodePoint\<close> next_run by auto
  qed
  then have near: "c \<le> hi \<longleftrightarrow> c \<le> kMaxCodePoint \<and> takeWhile (\<lambda>r. fst r \<le> c) runs = []" for c
    by (meson order.trans)
  let ?list = "if wanted (snd r) then addRange list (fst r) hi else list"
  have list: "valid_ranges ?list" "members ?list = members list \<union> {c. fst r \<le> c \<and> c \<le> hi \<and> wanted (snd r)}"
    using Cons.prems hi by (auto simp: addRange_def)
  have step: "run_ranges wanted (r # runs) list = run_ranges wanted runs ?list" by (simp add: hi_def)
  have above: "takeWhile (\<lambda>r. fst r \<le> c) runs = []" if "c < fst r" for c
    using Cons.prems that by (cases runs) auto
  have IH: "valid_ranges (run_ranges wanted runs ?list)"
      "members (run_ranges wanted runs ?list) =
         members ?list \<union> {c. c \<le> kMaxCodePoint \<and> takeWhile (\<lambda>r. fst r \<le> c) runs \<noteq> [] \<and>
                           wanted (snd (last (takeWhile (\<lambda>r. fst r \<le> c) runs)))}"
    using Cons.IH [OF _ _ list(1)] Cons.prems(1,2) by simp_all
  have "fst r \<le> c \<and> c \<le> hi \<and> wanted (snd r) \<or>
          c \<le> kMaxCodePoint \<and> takeWhile (\<lambda>r. fst r \<le> c) runs \<noteq> [] \<and> wanted (snd (last (takeWhile (\<lambda>r. fst r \<le> c) runs))) \<longleftrightarrow>
        c \<le> kMaxCodePoint \<and> takeWhile (\<lambda>r. fst r \<le> c) (r # runs) \<noteq> [] \<and>
          wanted (snd (last (takeWhile (\<lambda>r. fst r \<le> c) (r # runs))))" for c
    using near [of c] above [of c] by (cases "fst r \<le> c"; cases "takeWhile (\<lambda>r. fst r \<le> c) runs = []") auto
  then show ?case unfolding step IH(2) list(2) using IH(1) by (simp add: set_eq_iff)
qed simp

section \<open>The tables as documented\<close>

text \<open>What \<open>unicode_data.h\<close> says of the generated tables: runs that partition the code space, a fold listed by
  ascending source that moves every source to a fixed point, aliases sorted by name, overrides of the
  script in ascending disjoint ranges, and normalised identifier ranges.\<close>

definition ucd_ok :: "ucd \<Rightarrow> bool" where
  "ucd_ok u \<longleftrightarrow>
     runs_ok (length kGcAliases) (kGcRuns u) \<and> runs_ok (length (kScriptNames u)) (kScriptRuns u) \<and> distinct (kScriptNames u) \<and>
     sorted_wrt (\<lambda>a b. fst a < fst b) (kSimpleCaseFolds u) \<and>
     (\<forall>(from, to) \<in> set (kSimpleCaseFolds u). from \<le> kMaxCodePoint \<and> to \<le> kMaxCodePoint \<and> to \<notin> fst ` set (kSimpleCaseFolds u)) \<and>
     sorted_wrt (\<lambda>a b. text_less (fst a) (fst b)) (kScriptAliases u) \<and>
     (\<forall>(name, script) \<in> set (kScriptAliases u). script < length (kScriptNames u)) \<and>
     sorted_wrt (\<lambda>a b. fst (snd a) < fst b) (kScxRanges u) \<and>
     (\<forall>(lo, hi, offset, n) \<in> set (kScxRanges u). lo \<le> hi \<and> hi \<le> kMaxCodePoint) \<and>
     separated (kIdStartRanges u) \<and> valid_ranges (kIdStartRanges u) \<and>
     separated (kIdContinueRanges u) \<and> valid_ranges (kIdContinueRanges u)"

lemma run_set:
  assumes "runs_ok n runs"
  shows "normal (normalizeRanges (run_ranges wanted runs []))"
    and "members (normalizeRanges (run_ranges wanted runs [])) = {c. c \<le> kMaxCodePoint \<and> wanted (run_value runs c)}"
proof -
  have *: "valid_ranges (run_ranges wanted runs [])"
      "members (run_ranges wanted runs []) = {c. c \<le> kMaxCodePoint \<and> wanted (run_value runs c)}"
    using run_ranges_members [of runs "[]" wanted] assms run_value_last [OF assms] by (auto simp: runs_ok_def)
  show "normal (normalizeRanges (run_ranges wanted runs []))"
    and "members (normalizeRanges (run_ranges wanted runs [])) = {c. c \<le> kMaxCodePoint \<and> wanted (run_value runs c)}"
    using normalizeRanges_correct [OF *(1)] *(2) by (simp_all add: normal_def)
qed

lemma rangesForMask_set:
  assumes "ucd_ok u"
  shows "normal (rangesForMask u bits)"
    and "members (rangesForMask u bits) = {c. c \<le> kMaxCodePoint \<and> bits AND gc_bit (run_value (kGcRuns u) c) \<noteq> 0}"
  using run_set [of "length kGcAliases" "kGcRuns u"] assms by (simp_all add: rangesForMask_def ucd_ok_def)

lemma scriptRanges_set:
  assumes "ucd_ok u"
  shows "normal (scriptRanges u s)" and "members (scriptRanges u s) = {c. c \<le> kMaxCodePoint \<and> run_value (kScriptRuns u) c = s}"
  using run_set [of "length (kScriptNames u)" "kScriptRuns u" "\<lambda>x. x = s"] assms by (simp_all add: scriptRanges_def ucd_ok_def)

abbreviation covers :: "nat \<times> nat \<times> nat \<times> nat \<Rightarrow> nat \<Rightarrow> bool" where
  "covers r c \<equiv> fst r \<le> c \<and> c \<le> fst (snd r)"

text \<open>Collecting ranges one by one.\<close>

lemma collect_ranges:
  assumes "\<forall>r \<in> set rs. fst r \<le> fst (snd r) \<and> fst (snd r) \<le> kMaxCodePoint" and "valid_ranges list"
  shows "valid_ranges (fold (\<lambda>(lo, hi, _) list. addRange list lo hi) rs list) \<and>
         members (fold (\<lambda>(lo, hi, _) list. addRange list lo hi) rs list) = members list \<union> {c. \<exists>r \<in> set rs. covers r c}"
  using assms by (induction rs arbitrary: list) (fastforce simp: addRange_def split_beta)+

lemma scx_loop_cases:
  assumes "sorted_wrt (\<lambda>a b. fst (snd a) < fst b) rs" and "\<forall>r \<in> set rs. fst r \<le> fst (snd r)"
  shows "scx_loop u c s rs = None \<longleftrightarrow> (\<forall>r \<in> set rs. \<not> covers r c)"
    and "scx_loop u c s rs = Some True \<longleftrightarrow> (\<exists>r \<in> set rs. covers r c \<and> scx_names u s r)"
  unfolding atomize_conj using assms
proof (induction rs)
  case (Cons r rs)
  have later: "fst (snd r) < fst q" "fst r < fst q" if "q \<in> set rs" for q
    using Cons.prems that by (auto intro: le_less_trans)
  consider "c < fst r" | "covers r c" | "c > fst (snd r)" by linarith
  then show ?case
  proof cases
    case 1
    then have "\<forall>q \<in> set rs. \<not> covers q c" using later(2) by (metis leD le_less_trans less_imp_le)
    then show ?thesis using 1 by simp blast
  next
    case 2
    then have "\<forall>q \<in> set rs. \<not> covers q c" using later(1) by (metis leD le_less_trans)
    then show ?thesis using 2 by simp blast
  next
    case 3
    then show ?thesis using Cons by simp
  qed
qed simp

lemma scriptExtensionRanges_set:
  assumes "ucd_ok u"
  shows "normal (scriptExtensionRanges u s)"
    and "members (scriptExtensionRanges u s) =
           {c. c \<le> kMaxCodePoint \<and> (case scx_loop u c s (kScxRanges u) of Some b \<Rightarrow> b | None \<Rightarrow> run_value (kScriptRuns u) c = s)}"
proof -
  let ?rs = "kScxRanges u" let ?add = "fold (\<lambda>(lo, hi, _) list. addRange list lo hi)"
  have rs: "\<forall>r \<in> set ?rs. fst r \<le> fst (snd r) \<and> fst (snd r) \<le> kMaxCodePoint" "sorted_wrt (\<lambda>a b. fst (snd a) < fst b) ?rs"
      "\<forall>r \<in> set ?rs. fst r \<le> fst (snd r)"
    using assms by (auto simp: ucd_ok_def)
  have over: "valid_ranges (?add ?rs [])" "members (?add ?rs []) = {c. \<exists>r \<in> set ?rs. covers r c}"
    using collect_ranges [OF rs(1), of "[]"] by simp_all
  have named: "valid_ranges (?add (filter (scx_names u s) ?rs) [])"
      "members (?add (filter (scx_names u s) ?rs) []) = {c. \<exists>r \<in> set (filter (scx_names u s) ?rs). covers r c}"
    using collect_ranges [of "filter (scx_names u s) ?rs" "[]"] rs(1) by simp_all
  have sub: "members (subtractRanges a b) = members a - members b" "valid_ranges (subtractRanges a b)"
    if "valid_ranges a" "valid_ranges b" for a b
    using subtractRanges_normal [OF that] by (simp_all add: normal_def)
  let ?out = "subtractRanges (scriptRanges u s) (normalizeRanges (?add ?rs [])) @ normalizeRanges (?add (filter (scx_names u s) ?rs) [])"
  have sc: "valid_ranges (scriptRanges u s)" using scriptRanges_set(1) [OF assms] by (simp add: normal_def)
  note no = normalizeRanges_correct [OF over(1)] and nn = normalizeRanges_correct [OF named(1)]
  have out: "valid_ranges ?out" using sub(2) [OF sc no(2)] nn(2) by simp
  have "members ?out = {c. c \<le> kMaxCodePoint \<and> (case scx_loop u c s ?rs of Some b \<Rightarrow> b | None \<Rightarrow> run_value (kScriptRuns u) c = s)}"
    (is "_ = ?R")
  proof (rule set_eqI)
    fix c
    have "c \<in> members ?out \<longleftrightarrow>
            c \<le> kMaxCodePoint \<and> run_value (kScriptRuns u) c = s \<and> scx_loop u c s ?rs = None \<or> scx_loop u c s ?rs = Some True"
      using sub(1) [OF sc no(2)] over named no nn scriptRanges_set(2) [OF assms] scx_loop_cases [OF rs(2,3)] by auto
    moreover have "c \<le> kMaxCodePoint" if "scx_loop u c s ?rs = Some True"
      using that rs(1) unfolding scx_loop_cases(2) [OF rs(2,3)] by auto
    ultimately show "c \<in> members ?out \<longleftrightarrow> c \<in> ?R" by (auto split: option.split)
  qed
  then show "members (scriptExtensionRanges u s) =
           {c. c \<le> kMaxCodePoint \<and> (case scx_loop u c s (kScxRanges u) of Some b \<Rightarrow> b | None \<Rightarrow> run_value (kScriptRuns u) c = s)}"
    and "normal (scriptExtensionRanges u s)"
    using normalizeRanges_correct [OF out] by (simp_all add: scriptExtensionRanges_def normal_def)
qed

lemma scriptIndex_lookup:
  assumes "ucd_ok u"
  shows "scriptIndex u alias = (case map_of (kScriptAliases u) alias of None \<Rightarrow> length (kScriptNames u) | Some s \<Rightarrow> s)"
  using text_keys.lookup [of "kScriptAliases u" "alias"] assms by (simp add: ucd_ok_def scriptIndex_def Let_def)

lemma scriptIndex_less:
  assumes "ucd_ok u" and "scriptIndex u alias \<noteq> length (kScriptNames u)"
  shows "scriptIndex u alias < length (kScriptNames u)"
  using assms map_of_SomeD unfolding scriptIndex_lookup [OF assms(1)] by (fastforce simp: ucd_ok_def split: option.splits)

lemma fold_lookup:
  assumes "ucd_ok u"
  shows "ucd_simpleCaseFold u code = (case map_of (kSimpleCaseFolds u) code of None \<Rightarrow> code | Some to \<Rightarrow> to)"
  using code_keys.lookup [of "kSimpleCaseFolds u" code] assms by (simp add: ucd_ok_def ucd_simpleCaseFold_def Let_def)

lemma fold_keys_distinct: "ucd_ok u \<Longrightarrow> distinct (map fst (kSimpleCaseFolds u))"
  by (auto simp: ucd_ok_def strict_sorted_iff sorted_wrt_map distinct_conv_nth sorted_wrt_iff_nth_less nat_neq_iff)

lemma binary_set_normal:
  assumes "ucd_ok u" and "binaryPropertySet u val = Some rs"
  shows "normal rs"
proof -
  have "normal (kIdStartRanges u)" "normal (kIdContinueRanges u)" using assms(1) by (simp_all add: ucd_ok_def normal_def)
  moreover have "normal (addRange [] 0 kMaxCodePoint)" "normal (addRange [] 0 0x7F)"
    by (simp_all add: normal_def addRange_def kMaxCodePoint_def)
  ultimately show ?thesis
    using assms(2) rangesForMask_set(1) [OF assms(1)]
    by (simp only: binaryPropertySet_def option.inject option.distinct split: if_split_asm) blast+
qed

lemma property_set_normal:
  assumes "ucd_ok u" and "unicodePropertySet u name val = Inr rs"
  shows "normal rs"
proof -
  define sc ext other where "sc \<longleftrightarrow> name = ''Script'' \<or> name = ''sc''" and "ext \<longleftrightarrow> name = ''Script_Extensions'' \<or> name = ''scx''"
    and "other \<longleftrightarrow> name \<noteq> [] \<and> name \<noteq> ''General_Category'' \<and> name \<noteq> ''gc''"
  note sets = rangesForMask_set(1) [OF assms(1)] scriptRanges_set(1) [OF assms(1)] scriptExtensionRanges_set(1) [OF assms(1)]
  show ?thesis
  proof (cases "sc \<or> ext \<or> other")
    case True
    then show ?thesis
      using assms(2) sets unfolding unicodePropertySet_def disj_assoc [symmetric] sc_def [symmetric]
      unfolding disj_assoc ext_def [symmetric] other_def [symmetric] Let_def by (auto split: if_splits)
  next
    case False
    have "(name = ''Script'' \<or> name = ''sc'' \<or> name = ''Script_Extensions'' \<or> name = ''scx'') = False"
        "(name \<noteq> [] \<and> name \<noteq> ''General_Category'' \<and> name \<noteq> ''gc'') = False"
      using False unfolding sc_def ext_def other_def by blast+
    then have "unicodePropertySet u name val =
        (case (if name = [] then binaryPropertySet u val else None) of
           Some rs \<Rightarrow> Inr rs
         | None \<Rightarrow>
             (let bits = maskOfName val
              in if bits = 0 then
                   (if name = [] \<and> scriptIndex u val \<noteq> length (kScriptNames u) then Inl ScriptInLoneForm
                    else if name = [] \<and> isPropertyOfStrings val then Inl PropertyOfStrings
                    else Inl NoProperty)
                 else Inr (rangesForMask u bits)))"
      by (simp only: unicodePropertySet_def if_False)
    then show ?thesis
      using assms(2) sets binary_set_normal [OF assms(1)] unfolding Let_def by (auto split: if_splits option.splits)
  qed
qed

lemma aliasIndex_nth:
  assumes "i < length kGcAliases"
  shows "aliasIndex (kGcAliases ! i) = i"
proof -
  have "length (takeWhile (\<lambda>a. a \<noteq> xs ! i) xs) = i" if "distinct xs" "i < length xs" for xs :: "string list" and i
    using that by (induction xs arbitrary: i) (auto simp: nth_Cons split: nat.split)
  moreover have "distinct kGcAliases" by code_simp
  ultimately show ?thesis using assms by (simp add: aliasIndex_def)
qed

text \<open>Collecting code points one by one.\<close>

lemma collect_codes:
  assumes "\<forall>c \<in> set cs. f c \<le> kMaxCodePoint" and "valid_ranges list"
  shows "valid_ranges (fold (\<lambda>code list. addRange list (f code) (f code)) cs list) \<and>
         members (fold (\<lambda>code list. addRange list (f code) (f code)) cs list) = members list \<union> f ` set cs"
  using assms by (induction cs arbitrary: list) (auto simp: addRange_def)

lemma fold_table:
  assumes "ucd_ok u"
  shows "c \<le> kMaxCodePoint \<Longrightarrow> ucd_simpleCaseFold u c \<le> kMaxCodePoint"
    and "ucd_simpleCaseFold u c = c \<longleftrightarrow> c \<notin> set (ucd_simpleCaseFoldSources u)"
    and "ucd_simpleCaseFold u c \<notin> set (ucd_simpleCaseFoldSources u)"
    and "\<forall>c \<in> set (ucd_simpleCaseFoldSources u). c \<le> kMaxCodePoint"
proof -
  let ?t = "kSimpleCaseFolds u"
  have entry: "c \<le> kMaxCodePoint" "d \<le> kMaxCodePoint" "d \<notin> fst ` set ?t" if "(c, d) \<in> set ?t" for c d
    using assms that by (auto simp: ucd_ok_def)
  have sources: "set (ucd_simpleCaseFoldSources u) = fst ` set ?t" by (simp add: ucd_simpleCaseFoldSources_def)
  have none: "c \<notin> fst ` set ?t \<longleftrightarrow> map_of ?t c = None" by (simp add: map_of_eq_None_iff)
  have some: "(c, d) \<in> set ?t" if "map_of ?t c = Some d" for c d using that by (rule map_of_SomeD)
  show "c \<le> kMaxCodePoint \<Longrightarrow> ucd_simpleCaseFold u c \<le> kMaxCodePoint"
    using entry(2) some unfolding fold_lookup [OF assms] by (auto split: option.split)
  show "ucd_simpleCaseFold u c = c \<longleftrightarrow> c \<notin> set (ucd_simpleCaseFoldSources u)"
    using entry(3) some none unfolding fold_lookup [OF assms] sources by (cases "map_of ?t c") force+
  show "ucd_simpleCaseFold u c \<notin> set (ucd_simpleCaseFoldSources u)"
    using entry(3) some none unfolding fold_lookup [OF assms] sources by (cases "map_of ?t c") auto
  show "\<forall>c \<in> set (ucd_simpleCaseFoldSources u). c \<le> kMaxCodePoint"
    using entry(1) unfolding sources by auto
qed

lemma fold_candidates_set:
  assumes "ucd_ok u"
  shows "set (ucd_simpleCaseFoldCandidates u cc) = {c. c \<le> kMaxCodePoint \<and> ucd_simpleCaseFold u c = cc \<and> c \<noteq> cc}"
proof -
  let ?t = "kSimpleCaseFolds u"
  have "c \<in> set (ucd_simpleCaseFoldCandidates u cc) \<longleftrightarrow> map_of ?t c = Some cc" for c
    using map_of_is_SomeI [OF fold_keys_distinct [OF assms]] map_of_SomeD [of ?t c cc]
    by (force simp: ucd_simpleCaseFoldCandidates_def)
  moreover have "map_of ?t c = Some cc \<longleftrightarrow> ucd_simpleCaseFold u c = cc \<and> c \<noteq> cc" for c
    using fold_table(2) [OF assms, of c] map_of_eq_None_iff [of ?t c] unfolding fold_lookup [OF assms]
    by (cases "map_of ?t c") (auto simp: ucd_simpleCaseFoldSources_def)
  moreover have "c \<le> kMaxCodePoint" if "map_of ?t c = Some cc" for c
    using fold_table(4) [OF assms] map_of_SomeD [OF that] by (force simp: ucd_simpleCaseFoldSources_def)
  ultimately show ?thesis by blast
qed

lemma fixed_points_normal:
  assumes "ucd_ok u"
  shows "normal (simpleCaseFoldFixedPoints (ucd_tables u)) \<and>
         members (simpleCaseFoldFixedPoints (ucd_tables u)) = {c. c \<le> kMaxCodePoint \<and> ucd_simpleCaseFold u c = c}"
proof -
  let ?sources = "ucd_simpleCaseFoldSources u" let ?moved = "fold (\<lambda>code moved. addRange moved code code) ?sources []"
  have moved: "valid_ranges ?moved" "members ?moved = set ?sources"
    using collect_codes [of ?sources id "[]"] fold_table(4) [OF assms] by simp_all
  then have "normal (simpleCaseFoldFixedPoints (ucd_tables u)) \<and> members (simpleCaseFoldFixedPoints (ucd_tables u)) = {0..kMaxCodePoint} - set ?sources"
    using complementRanges_normal [of "normalizeRanges ?moved" kMaxCodePoint] normalizeRanges_correct [OF moved(1)]
    by (simp add: simpleCaseFoldFixedPoints_def ucd_tables_def)
  then show ?thesis using fold_table(2) [OF assms] by auto
qed

section \<open>Properties\<close>

text \<open>C32: The sets and the lookups never disagree: a code point is in the set of a category name, of a script
  or of a script extension exactly when the table lookup of that one code point says so, and every set
  a property name gives is normalised.\<close>

theorem property_sets_agree:
  assumes "ucd_ok u" and "code \<le> kMaxCodePoint" and "unicodePropertySet u name val = Inr rs"
  shows "separated rs \<and> valid_ranges rs \<and>
         (name \<in> {''General_Category'', ''gc''} \<longrightarrow>
            (rangesContain rs code \<longleftrightarrow> maskOfName val AND gc_bit (aliasIndex (generalCategoryOf u code)) \<noteq> 0)) \<and>
         (name \<in> {''Script'', ''sc''} \<longrightarrow> (rangesContain rs code \<longleftrightarrow> scriptOf u code = kScriptNames u ! scriptIndex u val)) \<and>
         (name \<in> {''Script_Extensions'', ''scx''} \<longrightarrow> (rangesContain rs code \<longleftrightarrow> scriptExtensionsContain u code val))"
proof -
  have n: "separated rs" "valid_ranges rs" using property_set_normal [OF assms(1,3)] by (simp_all add: normal_def)
  have runs: "runs_ok (length kGcAliases) (kGcRuns u)" "runs_ok (length (kScriptNames u)) (kScriptRuns u)" "distinct (kScriptNames u)"
    using assms(1) by (simp_all add: ucd_ok_def)
  have script: "scriptOf u code = kScriptNames u ! s \<longleftrightarrow> run_value (kScriptRuns u) code = s" if "s < length (kScriptNames u)" for s
    using that runs(3) run_value_less [OF runs(2)] by (simp add: scriptOf_def nth_eq_iff_index_eq)
  have contain: "rangesContain rs code \<longleftrightarrow> code \<in> members rs" by (rule rangesContain_correct [OF n])
  have gc: "rs = rangesForMask u (maskOfName val)" if "name \<in> {''General_Category'', ''gc''}"
    using that assms(3) by (auto simp: unicodePropertySet_def Let_def split: if_splits)
  have sc: "scriptIndex u val < length (kScriptNames u) \<and> rs = scriptRanges u (scriptIndex u val)" if "name \<in> {''Script'', ''sc''}"
    using that assms(3) scriptIndex_less [OF assms(1), of val] by (auto simp: unicodePropertySet_def Let_def split: if_splits)
  have ext: "scriptIndex u val < length (kScriptNames u) \<and> rs = scriptExtensionRanges u (scriptIndex u val)"
    if "name \<in> {''Script_Extensions'', ''scx''}"
    using that assms(3) scriptIndex_less [OF assms(1), of val] by (auto simp: unicodePropertySet_def Let_def split: if_splits)
  show ?thesis
    unfolding contain
  proof (intro conjI impI n)
    assume "name \<in> {''General_Category'', ''gc''}"
    then show "code \<in> members rs \<longleftrightarrow> maskOfName val AND gc_bit (aliasIndex (generalCategoryOf u code)) \<noteq> 0"
      using gc rangesForMask_set(2) [OF assms(1)] assms(2) aliasIndex_nth [OF run_value_less [OF runs(1)]]
      by (simp add: generalCategoryOf_def)
  next
    assume "name \<in> {''Script'', ''sc''}"
    then show "code \<in> members rs \<longleftrightarrow> scriptOf u code = kScriptNames u ! scriptIndex u val"
      using sc scriptRanges_set(2) [OF assms(1)] assms(2) script by simp
  next
    assume "name \<in> {''Script_Extensions'', ''scx''}"
    then show "code \<in> members rs \<longleftrightarrow> scriptExtensionsContain u code val"
      using ext scriptExtensionRanges_set(2) [OF assms(1)] assms(2) script
      by (simp add: scriptExtensionsContain_def Let_def split: option.split)
  qed
qed

text \<open>The fold of the generated table and its reverse index satisfy what the class test relies on: the fold
  stays in the code space and is idempotent, the candidates of a code point are exactly the others
  that fold to it, and the fixed points are exactly the code points the fold leaves alone.\<close>

theorem fold_index_exact:
  assumes "ucd_ok u"
  shows "tables_ok (ucd_tables u) \<and>
         members (simpleCaseFoldFixedPoints (ucd_tables u)) = {c. c \<le> kMaxCodePoint \<and> ucd_simpleCaseFold u c = c}"
proof -
  have "case_index (ucd_simpleCaseFold u) (ucd_simpleCaseFoldCandidates u) kMaxCodePoint"
    using fold_table(1,2,3) [OF assms] fold_candidates_set [OF assms] by unfold_locales auto
  then show ?thesis using fixed_points_normal [OF assms] by (simp add: tables_ok_def ucd_tables_def)
qed

section \<open>Witnesses\<close>

text \<open>A small instance of the tables: one upper case run, one pair of letters that fold.\<close>

definition sample_ucd :: ucd where
  "sample_ucd =
     \<lparr>kGcRuns = [(0, 2), (0x41, 9), (0x5B, 2)], kSimpleCaseFolds = [(0x41, 0x61)], kScriptRuns = [(0, 0), (0x41, 1), (0x5B, 0)],
      kScriptNames = [''Common'', ''Latin''], kScriptAliases = [(''Common'', 0), (''Latin'', 1), (''Latn'', 1), (''Zyyy'', 0)],
      kScxRanges = [(0x30, 0x31, 0, 1)], kScxScripts = [1], kIdStartRanges = [(0x41, 0x5A)], kIdContinueRanges = [(0x41, 0x5A)]\<rparr>"

lemma sample_ucd_ok: "ucd_ok sample_ucd"
  by (simp add: ucd_ok_def sample_ucd_def runs_ok_def kMaxCodePoint_def kGcAliases_def text_less_def)

lemma sample_sets:
  "unicodePropertySet sample_ucd ''scx'' ''Latn'' = Inr [(0x30, 0x31), (0x41, 0x5A)]"
  "unicodePropertySet sample_ucd ''gc'' ''Letter'' = Inr [(0x41, 0x5A)]"
  "unicodePropertySet sample_ucd [] ''Latin'' = Inl ScriptInLoneForm"
  by (simp_all add: unicodePropertySet_def binaryPropertySet_def scriptIndex_def bound_def bound_loop.simps text_less_def sample_ucd_def
      scriptExtensionRanges_def scx_names_def scriptRanges_def addRange_def normalizeRanges_def subtractRanges_def maskOfName_def
      kGcNames_def mask_loop.simps aliasIndex_def kGcAliases_def gc_bit_def rangesForMask_def inc32_def kMaxCodePoint_def Let_def)

theorem property_sets_agree_witness:
  "rangesContain [(0x30, 0x31), (0x41, 0x5A)] 0x30 \<longleftrightarrow> scriptExtensionsContain sample_ucd 0x30 ''Latn''"
  using property_sets_agree [OF sample_ucd_ok _ sample_sets(1), of "0x30"] by (simp add: kMaxCodePoint_def)

theorem fold_index_exact_witness:
  "ucd_simpleCaseFoldCandidates sample_ucd 0x61 = [0x41] \<and> tables_ok (ucd_tables sample_ucd)"
  using fold_index_exact [OF sample_ucd_ok] by (simp add: ucd_simpleCaseFoldCandidates_def sample_ucd_def)

text \<open>Every name of a category denotes something, and nothing else does.\<close>

lemma category_names: "maskOfName name \<noteq> 0 \<longleftrightarrow> name \<in> fst ` set kGcNames"
proof -
  have "list_all (\<lambda>mem. mask_loop mem 0 \<noteq> 0) (remdups (map snd kGcNames))" by code_simp
  then have "mask_loop mem 0 \<noteq> 0" if "map_of kGcNames name = Some mem" for mem
    using map_of_SomeD [OF that] by (force simp: list_all_iff)
  then show ?thesis
    using map_of_eq_None_iff [of kGcNames name] by (auto simp: maskOfName_def split: option.split)
qed

end
