(* ===== verification/Regex_Matcher.thy ===== *)
theory Regex_Matcher
  imports Regex_Pattern
begin

text \<open>
  The backtracking matcher (\<open>src/src/regex/matcher.cpp\<close>): the class \<open>Matcher\<close> with its continuation chain,
  and the two entry points \<open>matchAt\<close> and \<open>search\<close>.

  The members that change while matching are the record \<open>mstate\<close>. \<open>depth_\<close> is incremented when
  \<open>matchNode\<close> is entered and decremented on every way out, so it is an argument. A function that the
  source hands its continuation \<open>k\<close> to, and that only ever calls \<open>runCont(k, ...)\<close> with it, takes that
  call as a function \<open>run\<close>; the remaining functions are one mutual recursion. Positions inside the
  input are natural numbers; the patterns for which every capture slot is in range are singled out in
  the theory that states what the matcher computes.
\<close>

section \<open>State\<close>

definition kStepBudget :: nat where "kStepBudget = 20000000"
definition kMaxDepth :: nat where "kMaxDepth = 2000"
definition kUnset :: int where "kUnset = -1"

datatype give_up = BudgetExceeded | DepthExceeded

record mstate =
  captures :: "int list"
  endPos :: nat
  steps :: nat
  err :: "give_up option"

abbreviation failed :: "mstate \<Rightarrow> bool" where
  "failed st \<equiv> err st \<noteq> None"

type_synonym attempt = "mstate \<Rightarrow> bool \<times> mstate"

definition giveUp :: "give_up \<Rightarrow> attempt" where
  "giveUp e st = (False, if failed st then st else st\<lparr>err := Some e\<rparr>)"

datatype cont =
    Done
  | SequenceK "node list" nat bool cont
  | RepeatK repeat_node node nat nat nat bool cont
  | CaptureK nat nat cont

text \<open>\<open>if (first) return true; if (failed_) return false; return second;\<close>\<close>

definition or_else :: "attempt \<Rightarrow> attempt \<Rightarrow> attempt" where
  "or_else first second st =
     (case first st of (b, st1) \<Rightarrow> if b then (True, st1) else if failed st1 then (False, st1) else second st1)"

text \<open>The same without the test of \<open>failed_\<close>: \<open>if (first) return true; undo; return false;\<close>\<close>

definition or_undo :: "attempt \<Rightarrow> (mstate \<Rightarrow> mstate) \<Rightarrow> attempt" where
  "or_undo first undo st = (case first st of (b, st1) \<Rightarrow> if b then (True, st1) else (False, undo st1))"

text \<open>A loop whose turns are attempts, left at the first that succeeds or gives up.\<close>

fun try_each :: "('a \<Rightarrow> attempt) \<Rightarrow> 'a list \<Rightarrow> attempt" where
  "try_each f [] st = (False, st)"
| "try_each f (x # xs) st = or_else (f x) (try_each f xs) st"

section \<open>Atoms\<close>

text \<open>Where \<open>matchOneCharacter\<close> resumes, if it does.\<close>

definition step_one :: "matcher \<Rightarrow> node \<Rightarrow> bool \<Rightarrow> nat \<Rightarrow> nat option" where
  "step_one m node backward pos =
     (if backward then
        (if pos = 0 then None
         else (let (code, width) = characterBefore m pos
               in if \<not> singleCharMatches m node code then None else Some (pos - width)))
      else
        (if pos \<ge> length (input m) then None
         else (let (code, width) = characterAt m pos
               in if \<not> singleCharMatches m node code then None else Some (pos + width))))"

definition matchOneCharacter :: "matcher \<Rightarrow> node \<Rightarrow> nat \<Rightarrow> bool \<Rightarrow> (nat \<Rightarrow> attempt) \<Rightarrow> attempt" where
  "matchOneCharacter m node pos backward run st =
     (case step_one m node backward pos of None \<Rightarrow> (False, st) | Some p \<Rightarrow> run p st)"

text \<open>The inner loop of \<open>matchClassSet\<close>; a backward match reads the member from its end.\<close>

fun consume :: "matcher \<Rightarrow> bool \<Rightarrow> nat list \<Rightarrow> nat \<Rightarrow> nat option" where
  "consume m backward [] at = Some at"
| "consume m backward (c # cs) at =
     (if backward then
        (if at = 0 then None
         else (let (code, width) = characterBefore m at
               in if code \<noteq> c then None else consume m backward cs (at - width)))
      else
        (if at \<ge> length (input m) then None
         else (let (code, width) = characterAt m at
               in if code \<noteq> c then None else consume m backward cs (at + width))))"

definition consume_member :: "matcher \<Rightarrow> bool \<Rightarrow> nat \<Rightarrow> nat list \<Rightarrow> nat option" where
  "consume_member m backward pos member = consume m backward (if backward then rev member else member) pos"

definition matchClassSet ::
  "matcher \<Rightarrow> node \<Rightarrow> RangeList \<Rightarrow> nat list list \<Rightarrow> bool \<Rightarrow> nat \<Rightarrow> bool \<Rightarrow> (nat \<Rightarrow> attempt) \<Rightarrow> attempt" where
  "matchClassSet m node ranges strings matchesEmpty pos backward run =
     or_else
       (try_each (\<lambda>member st. case consume_member m backward pos member of None \<Rightarrow> (False, st) | Some at \<Rightarrow> run at st) strings)
       (or_else
         (\<lambda>st. if ranges \<noteq> [] then matchOneCharacter m node pos backward run st else (False, st))
         (\<lambda>st. if matchesEmpty then run pos st else (False, st)))"

text \<open>The comparison of one character of the captured text with one of the input.\<close>

definition sameCharacter :: "matcher \<Rightarrow> CodePointStep \<Rightarrow> CodePointStep \<Rightarrow> bool" where
  "sameCharacter m a b =
     (if fst a \<noteq> fst b then
        (if snd a \<noteq> snd b then False
         else if ignoreCase_of m then
           (if canonical m (fst a) \<noteq> canonical m (fst b)
            then simpleCaseFold (tables m) (fst a) = simpleCaseFold (tables m) (fst b)
            else True)
         else False)
      else True)"

function same_text :: "matcher \<Rightarrow> nat \<Rightarrow> nat \<Rightarrow> nat \<Rightarrow> nat \<Rightarrow> bool" where
  "same_text m start from len i =
     (if i < len then
        (let a = characterAt m (start + i); b = characterAt m (from + i)
         in if sameCharacter m a b then same_text m start from len (i + snd a) else False)
      else True)"
  by auto
termination
  by (relation "measure (\<lambda>(m, start, from, len, i). len - i)")
    (auto simp: characterAt_def intro!: diff_less_mono2 trans_less_add1 [OF lessI] less_add_same_cancel1 [THEN iffD2] width_at(1))

text \<open>Where \<open>matchBackreference\<close> resumes, if it does.\<close>

definition back_to :: "matcher \<Rightarrow> nat \<Rightarrow> bool \<Rightarrow> nat \<Rightarrow> int list \<Rightarrow> nat option" where
  "back_to m backreference backward pos caps =
     (let start = caps ! (2 * backreference); stop = caps ! (2 * backreference + 1)
      in if start = kUnset \<or> stop = kUnset then Some pos
         else
           (let len = nat (stop - start)
            in if backward then
                 (if pos < len then None
                  else if same_text m (nat start) (pos - len) len 0 then Some (pos - len) else None)
               else
                 (if pos + len > length (input m) then None
                  else if same_text m (nat start) pos len 0 then Some (pos + len) else None)))"

definition matchBackreference :: "matcher \<Rightarrow> nat \<Rightarrow> nat \<Rightarrow> bool \<Rightarrow> (nat \<Rightarrow> attempt) \<Rightarrow> attempt" where
  "matchBackreference m backreference pos backward run st =
     (case back_to m backreference backward pos (captures st) of None \<Rightarrow> (False, st) | Some p \<Rightarrow> run p st)"

section \<open>The counted quantifier\<close>

lemma step_one_moves:
  assumes "step_one m node backward pos = Some p"
  shows "backward \<Longrightarrow> p < pos" and "\<not> backward \<Longrightarrow> pos < p \<and> p \<le> length (input m)"
  using assms width_before(1) [of "input m" pos "unicode_of m"] width_at(1) [of "input m" pos "unicode_of m"] width_at(2) [of pos "input m" "unicode_of m"]
  by (auto simp: step_one_def characterBefore_def characterAt_def Let_def split: if_splits prod.splits)

text \<open>The scan of \<open>matchSimpleRepeat\<close>: how many characters match, and where it stops.\<close>

function scan :: "matcher \<Rightarrow> node \<Rightarrow> bool \<Rightarrow> nat \<Rightarrow> nat \<Rightarrow> nat \<Rightarrow> nat \<times> nat" where
  "scan m atom backward mx count at =
     (if mx = kUnbounded \<or> count < mx then
        (case step_one m atom backward at of None \<Rightarrow> (count, at) | Some p \<Rightarrow> scan m atom backward mx (count + 1) p)
      else (count, at))"
  by auto
termination
  by (relation "measure (\<lambda>(m, atom, backward, mx, count, at). if backward then at else length (input m) - at)")
    (auto dest: step_one_moves)

declare scan.simps [simp del] same_text.simps [simp del]

definition shrink :: "matcher \<Rightarrow> bool \<Rightarrow> nat \<Rightarrow> nat" where
  "shrink m backward cur = (if backward then cur + snd (characterAt m cur) else cur - snd (characterBefore m cur))"

definition grow :: "matcher \<Rightarrow> bool \<Rightarrow> nat \<Rightarrow> nat" where
  "grow m backward cur = (if backward then cur - snd (characterBefore m cur) else cur + snd (characterAt m cur))"

text \<open>The values \<open>cur\<close> takes over \<open>n + 1\<close> turns of a loop that moves it with \<open>f\<close>.\<close>

fun walk :: "(nat \<Rightarrow> nat) \<Rightarrow> nat \<Rightarrow> nat \<Rightarrow> nat list" where
  "walk f 0 cur = [cur]"
| "walk f (Suc n) cur = cur # walk f n (f cur)"

definition matchSimpleRepeat :: "matcher \<Rightarrow> repeat_node \<Rightarrow> node \<Rightarrow> nat \<Rightarrow> bool \<Rightarrow> (nat \<Rightarrow> attempt) \<Rightarrow> attempt" where
  "matchSimpleRepeat m node atom pos backward run st =
     (let (count, at) = scan m atom backward (repMax node) 0 pos
      in if count < repMin node then (False, st)
         else if greedy node then try_each run (walk (shrink m backward) (count - repMin node) at) st
         else try_each run (walk (grow m backward) (count - repMin node) ((grow m backward ^^ repMin node) pos)) st)"

section \<open>Captures\<close>

definition set_capture :: "nat \<Rightarrow> nat \<Rightarrow> nat \<Rightarrow> int list \<Rightarrow> int list" where
  "set_capture i mark pos caps =
     caps[2 * i := int (if mark < pos then mark else pos), 2 * i + 1 := int (if mark < pos then pos else mark)]"

definition clearRepeatCaptures :: "repeat_node \<Rightarrow> int list \<Rightarrow> int list" where
  "clearRepeatCaptures node caps =
     fold (\<lambda>i caps. caps[2 * (firstCapture node + i) := kUnset, 2 * (firstCapture node + i) + 1 := kUnset])
       [0..<captureCount node] caps"

definition saveRepeatCaptures :: "repeat_node \<Rightarrow> int list \<Rightarrow> int list" where
  "saveRepeatCaptures node caps =
     concat (map (\<lambda>i. [caps ! (2 * (firstCapture node + i)), caps ! (2 * (firstCapture node + i) + 1)]) [0..<captureCount node])"

definition restoreRepeatCaptures :: "repeat_node \<Rightarrow> int list \<Rightarrow> int list \<Rightarrow> int list" where
  "restoreRepeatCaptures node saved caps =
     fold (\<lambda>i caps. caps[2 * (firstCapture node + i) := saved ! (i * 2), 2 * (firstCapture node + i) + 1 := saved ! (i * 2 + 1)])
       [0..<captureCount node] caps"

definition clear_if :: "repeat_node \<Rightarrow> mstate \<Rightarrow> mstate" where
  "clear_if node st = (if captureCount node \<noteq> 0 then st\<lparr>captures := clearRepeatCaptures node (captures st)\<rparr> else st)"

definition restore_if :: "repeat_node \<Rightarrow> int list \<Rightarrow> mstate \<Rightarrow> mstate" where
  "restore_if node saved st =
     (if captureCount node \<noteq> 0 then st\<lparr>captures := restoreRepeatCaptures node saved (captures st)\<rparr> else st)"

text \<open>\<open>inner\<close> is \<open>matchNode\<close> of the body with a continuation that accepts.\<close>

definition matchLookaround :: "bool \<Rightarrow> nat \<Rightarrow> attempt \<Rightarrow> (nat \<Rightarrow> attempt) \<Rightarrow> attempt" where
  "matchLookaround lookaroundNegative pos inner run st =
     (let saved = captures st; savedEnd = endPos st; (ok, st1) = inner st; st2 = st1\<lparr>endPos := savedEnd\<rparr>
      in if failed st2 then (False, st2)
         else if lookaroundNegative then
           (let st3 = st2\<lparr>captures := saved\<rparr> in if ok then (False, st3) else run pos st3)
         else if \<not> ok then (False, st2\<lparr>captures := saved\<rparr>)
         else or_undo (run pos) (captures_update (\<lambda>_. saved)) st2)"

section \<open>The mutual recursion\<close>

text \<open>The three branches of \<open>matchRepeat\<close> after the continuation for another turn has been built:
  \<open>atom\<close> matches the atom with it and \<open>out\<close> is the continuation of the whole quantifier.\<close>

definition repeat_turn :: "repeat_node \<Rightarrow> nat \<Rightarrow> attempt \<Rightarrow> attempt \<Rightarrow> attempt" where
  "repeat_turn node mn atom out st =
     (let saved = saveRepeatCaptures node (captures st); st0 = clear_if node st
      in if mn \<noteq> 0 then or_undo atom (restore_if node saved) st0
         else if \<not> greedy node then
           or_else out (\<lambda>st2. or_undo atom (restore_if node saved) (clear_if node st2)) (restore_if node saved st0)
         else
           or_else (or_undo atom (restore_if node saved)) out st0)"

lemma or_else_cong [fundef_cong]:
  assumes "st = st'" "\<And>s. first s = first' s" "\<And>s. second s = second' s"
  shows "or_else first second st = or_else first' second' st'"
  using assms by (auto simp: or_else_def split: prod.split)

lemma or_undo_cong [fundef_cong]:
  assumes "st = st'" "\<And>s. first s = first' s" "undo = undo'"
  shows "or_undo first undo st = or_undo first' undo' st'"
  using assms by (simp add: or_undo_def)

lemma try_each_cong [fundef_cong]:
  assumes "st = st'" "xs = xs'" "\<And>x s. x \<in> set xs \<Longrightarrow> f x s = f' x s"
  shows "try_each f xs st = try_each f' xs' st'"
  using assms by (induction xs arbitrary: st st' xs') (auto intro!: or_else_cong)

lemma matchOneCharacter_cong [fundef_cong]:
  assumes "m = m'" "node = node'" "pos = pos'" "bw = bw'" "st = st'" "\<And>p s. run p s = run' p s"
  shows "matchOneCharacter m node pos bw run st = matchOneCharacter m' node' pos' bw' run' st'"
  using assms by (simp add: matchOneCharacter_def split: option.split)

lemma matchClassSet_cong [fundef_cong]:
  assumes "m = m'" "node = node'" "rs = rs'" "ss = ss'" "e = e'" "pos = pos'" "bw = bw'" "st = st'" "\<And>p s. run p s = run' p s"
  shows "matchClassSet m node rs ss e pos bw run st = matchClassSet m' node' rs' ss' e' pos' bw' run' st'"
proof -
  have "run = run'" using assms(9) by (intro ext)
  then show ?thesis using assms by simp
qed

lemma matchBackreference_cong [fundef_cong]:
  assumes "m = m'" "i = i'" "pos = pos'" "bw = bw'" "st = st'" "\<And>p s. run p s = run' p s"
  shows "matchBackreference m i pos bw run st = matchBackreference m' i' pos' bw' run' st'"
  using assms by (simp add: matchBackreference_def split: option.split)

lemma matchSimpleRepeat_cong [fundef_cong]:
  assumes "m = m'" "r = r'" "a = a'" "pos = pos'" "bw = bw'" "st = st'" "\<And>p s. run p s = run' p s"
  shows "matchSimpleRepeat m r a pos bw run st = matchSimpleRepeat m' r' a' pos' bw' run' st'"
proof -
  have "run = run'" using assms(7) by (intro ext)
  then show ?thesis using assms by simp
qed

lemma matchLookaround_cong [fundef_cong]:
  assumes "neg = neg'" "pos = pos'" "st = st'" "\<And>s. inner s = inner' s" "\<And>p s. run p s = run' p s"
  shows "matchLookaround neg pos inner run st = matchLookaround neg' pos' inner' run' st'"
proof -
  have "run = run'" "inner = inner'" using assms(4,5) by (auto intro!: ext)
  then show ?thesis using assms by simp
qed

lemma repeat_turn_cong [fundef_cong]:
  assumes "r = r'" "mn = mn'" "st = st'" "\<And>s. atom s = atom' s" "\<And>s. out s = out' s"
  shows "repeat_turn r mn atom out st = repeat_turn r' mn' atom' out' st'"
proof -
  have "atom = atom'" "out = out'" using assms(4,5) by (auto intro!: ext)
  then show ?thesis using assms by simp
qed

function (sequential) runCont :: "matcher \<Rightarrow> nat \<Rightarrow> cont \<Rightarrow> nat \<Rightarrow> mstate \<Rightarrow> bool \<times> mstate"
  and matchSequence :: "matcher \<Rightarrow> nat \<Rightarrow> node list \<Rightarrow> nat \<Rightarrow> nat \<Rightarrow> cont \<Rightarrow> bool \<Rightarrow> mstate \<Rightarrow> bool \<times> mstate"
  and matchRepeat :: "matcher \<Rightarrow> nat \<Rightarrow> repeat_node \<Rightarrow> node \<Rightarrow> nat \<Rightarrow> nat \<Rightarrow> nat \<Rightarrow> cont \<Rightarrow> bool \<Rightarrow> mstate \<Rightarrow> bool \<times> mstate"
  and matchNode :: "matcher \<Rightarrow> nat \<Rightarrow> node \<Rightarrow> nat \<Rightarrow> cont \<Rightarrow> bool \<Rightarrow> mstate \<Rightarrow> bool \<times> mstate"
  and matchNodeInner :: "matcher \<Rightarrow> nat \<Rightarrow> node \<Rightarrow> nat \<Rightarrow> cont \<Rightarrow> bool \<Rightarrow> mstate \<Rightarrow> bool \<times> mstate"
where
  "runCont m depth k pos st =
     (if failed st then (False, st)
      else
        (let st1 = st\<lparr>steps := steps st + 1\<rparr>
         in if steps st1 > kStepBudget then giveUp BudgetExceeded st1
            else case k of
                Done \<Rightarrow> (True, st1\<lparr>endPos := pos\<rparr>)
              | SequenceK terms index backward next \<Rightarrow> matchSequence m depth terms index pos next backward st1
              | RepeatK node atom mn mx mark backward next \<Rightarrow>
                  (if mn = 0 \<and> pos = mark then (False, st1)
                   else matchRepeat m depth node atom (if mn = 0 then 0 else mn - 1)
                          (if mx = kUnbounded then kUnbounded else mx - 1) pos next backward st1)
              | CaptureK captureIndex mark next \<Rightarrow>
                  or_undo (\<lambda>s. runCont m depth next pos s)
                    (captures_update
                       (\<lambda>caps. caps[2 * captureIndex := captures st1 ! (2 * captureIndex),
                                    2 * captureIndex + 1 := captures st1 ! (2 * captureIndex + 1)]))
                    (st1\<lparr>captures := set_capture captureIndex mark pos (captures st1)\<rparr>)))"
| "matchSequence m depth terms index pos k backward st =
     (if index = length terms then runCont m depth k pos st
      else matchNode m depth (terms ! (if backward then length terms - 1 - index else index)) pos
             (SequenceK terms (index + 1) backward k) backward st)"
| "matchRepeat m depth node atom mn mx pos k backward st =
     (if mx = 0 then runCont m depth k pos st
      else repeat_turn node mn (\<lambda>s. matchNode m depth atom pos (RepeatK node atom mn mx pos backward k) backward s)
             (\<lambda>s. runCont m depth k pos s) st)"
| "matchNode m depth node pos k backward st =
     (if failed st then (False, st)
      else if depth + 1 > kMaxDepth then giveUp DepthExceeded st
      else matchNodeInner m (depth + 1) node pos k backward st)"
| "matchNodeInner m depth (Alternation alts) pos k backward st =
     try_each (\<lambda>alt s. matchSequence m depth alt 0 pos k backward s) alts st"
| "matchNodeInner m depth (Sequence terms) pos k backward st = matchSequence m depth terms 0 pos k backward st"
| "matchNodeInner m depth (Class ranges negated strings matchesEmpty) pos k backward st =
     (if strings \<noteq> [] \<or> matchesEmpty
      then matchClassSet m (Class ranges negated strings matchesEmpty) ranges strings matchesEmpty pos backward (\<lambda>p s. runCont m depth k p s) st
      else matchOneCharacter m (Class ranges negated strings matchesEmpty) pos backward (\<lambda>p s. runCont m depth k p s) st)"
| "matchNodeInner m depth (Assertion assertion) pos k backward st =
     (if \<not> assertionHolds m assertion pos then (False, st) else runCont m depth k pos st)"
| "matchNodeInner m depth (Lookahead lookaroundNegative child) pos k backward st =
     matchLookaround lookaroundNegative pos (\<lambda>s. matchNode m depth child pos Done False s) (\<lambda>p s. runCont m depth k p s) st"
| "matchNodeInner m depth (Lookbehind lookaroundNegative child) pos k backward st =
     matchLookaround lookaroundNegative pos (\<lambda>s. matchNode m depth child pos Done True s) (\<lambda>p s. runCont m depth k p s) st"
| "matchNodeInner m depth (Group captureIndex child) pos k backward st =
     (if captureIndex = 0 then matchNode m depth child pos k backward st
      else matchNode m depth child pos (CaptureK captureIndex pos k) backward st)"
| "matchNodeInner m depth (Backreference backreference) pos k backward st =
     matchBackreference m backreference pos backward (\<lambda>p s. runCont m depth k p s) st"
| "matchNodeInner m depth (Repeat node atom) pos k backward st =
     (if simpleAtom node then matchSimpleRepeat m node atom pos backward (\<lambda>p s. runCont m depth k p s) st
      else matchRepeat m depth node atom (repMin node) (repMax node) pos k backward st)"
| "matchNodeInner m depth node pos k backward st =
     matchOneCharacter m node pos backward (\<lambda>p s. runCont m depth k p s) st"
  by pat_completeness auto
termination
proof (relation "inv_image (less_than <*lex*> less_than <*lex*> less_than)
    (case_sum
      (case_sum (\<lambda>(m, d, k, p, st). (2 * (kMaxDepth + 1 - d) + 1, size k, 0))
                (\<lambda>(m, d, ts, i, p, k, b, st). (2 * (kMaxDepth + 1 - d) + 1, size k, 1)))
      (case_sum (\<lambda>(m, d, r, a, mn, mx, p, k, b, st). (2 * (kMaxDepth + 1 - d) + 1, size k, 1))
                (case_sum (\<lambda>(m, d, n, p, k, b, st). (2 * (kMaxDepth + 1 - d), 0, 0 :: nat))
                          (\<lambda>(m, d, n, p, k, b, st). (2 * (kMaxDepth + 1 - d) + 1, size k, 2)))))", goal_cases)
  case 1
  show ?case by auto
qed (auto simp: kMaxDepth_def)

declare runCont.simps [simp del] matchSequence.simps [simp del] matchRepeat.simps [simp del] matchNode.simps [simp del]

section \<open>Entry points\<close>

text \<open>\<open>ExecStatus\<close> with what is written to \<open>out\<close> or \<open>error\<close>.\<close>

datatype exec_result = NoMatch | Match "int list" | Error give_up

text \<open>\<open>Matcher::run\<close>; the matcher's state survives from one attempt to the next.\<close>

definition run :: "matcher \<Rightarrow> node \<Rightarrow> nat \<Rightarrow> mstate \<Rightarrow> exec_result \<times> mstate" where
  "run m root at st =
     (let (ok, st1) = matchNode m 0 root at Done False
                        (st\<lparr>captures := replicate (length (captures st)) kUnset, steps := 0, err := None\<rparr>)
      in case err st1 of
           Some e \<Rightarrow> (Error e, st1)
         | None \<Rightarrow>
             if \<not> ok then (NoMatch, st1)
             else (let caps = (captures st1)[0 := int at, 1 := int (endPos st1)]
                   in (Match caps, st1\<lparr>captures := caps\<rparr>)))"

text \<open>The native plan a pattern may carry (\<open>regex_jit.cpp\<close>, compiled through the brass submodule): whether it
  is usable, and its two kernels, which answer or ask for the interpreter.\<close>

record jit_plan =
  isSupported :: bool
  requiresCaptureExtraction :: bool
  tryMatchAt :: "nat list \<Rightarrow> nat \<Rightarrow> exec_result option"
  trySearch :: "nat list \<Rightarrow> nat \<Rightarrow> exec_result option"

record Pattern =
  root :: node
  pattern_flags :: Flags
  groupCount :: nat
  groupNames :: "string list"
  hasNamedGroups :: bool
  jitPlan :: "jit_plan option"

definition new_matcher :: "case_tables \<Rightarrow> Pattern \<Rightarrow> nat list \<Rightarrow> matcher" where
  "new_matcher tab p inp = \<lparr>tables = tab, flags = pattern_flags p, input = inp\<rparr>"

definition new_state :: "Pattern \<Rightarrow> mstate" where
  "new_state p = \<lparr>captures = replicate ((groupCount p + 1) * 2) kUnset, endPos = 0, steps = 0, err = None\<rparr>"

fun match_start :: "exec_result \<Rightarrow> int" where
  "match_start (Match caps) = (if caps = [] then kUnset else caps ! 0)"
| "match_start _ = kUnset"

definition usable_plan :: "Pattern \<Rightarrow> jit_plan option" where
  "usable_plan p = (case jitPlan p of Some plan \<Rightarrow> if isSupported plan then Some plan else None | None \<Rightarrow> None)"

definition is_match :: "exec_result \<Rightarrow> bool" where
  "is_match r = (case r of Match _ \<Rightarrow> True | _ \<Rightarrow> False)"

definition matchAt :: "case_tables \<Rightarrow> Pattern \<Rightarrow> nat list \<Rightarrow> nat \<Rightarrow> exec_result" where
  "matchAt tab p inp at =
     (let full = fst (run (new_matcher tab p inp) (root p) at (new_state p))
      in if at > length inp then NoMatch
         else case usable_plan p of
             None \<Rightarrow> full
           | Some plan \<Rightarrow>
               (case tryMatchAt plan inp at of
                  None \<Rightarrow> full
                | Some r \<Rightarrow> if \<not> is_match r \<or> \<not> requiresCaptureExtraction plan then r else full))"

function search_loop :: "matcher \<Rightarrow> node \<Rightarrow> nat \<Rightarrow> mstate \<Rightarrow> exec_result" where
  "search_loop m rt at st =
     (if at \<le> length (input m) then
        (let (r, st1) = run m rt at st
         in if r \<noteq> NoMatch then r else search_loop m rt (advanceStringIndex (input m) at (unicode_of m)) st1)
      else NoMatch)"
  by auto

lemma advance_moves: "at < advanceStringIndex inp at u"
  using width_at(1) [of inp at u] by (simp add: advanceStringIndex_def)

termination search_loop
  by (relation "measure (\<lambda>(m, rt, at, st). Suc (length (input m)) - at)") (auto intro!: diff_less_mono2 advance_moves)

declare search_loop.simps [simp del]

definition search :: "case_tables \<Rightarrow> Pattern \<Rightarrow> nat list \<Rightarrow> nat \<Rightarrow> exec_result" where
  "search tab p inp from =
     (let m = new_matcher tab p inp
      in if from > length inp then NoMatch
         else case usable_plan p of
             None \<Rightarrow> search_loop m (root p) from (new_state p)
           | Some plan \<Rightarrow>
               (case trySearch plan inp from of
                  None \<Rightarrow> search_loop m (root p) from (new_state p)
                | Some r \<Rightarrow>
                    if \<not> is_match r \<or> \<not> requiresCaptureExtraction plan then r
                    else fst (run m (root p) (nat (match_start r)) (new_state p))))"

end
