(* ===== verification/Regex_Parser.thy ===== *)
theory Regex_Parser
  imports Regex_Unicode Regex_Matcher "HOL-Library.While_Combinator"
begin

text \<open>
  The parser of regular expressions (\<open>src/src/regex/parser_internal.h\<close>, \<open>parser.cpp\<close>, \<open>parser_class.cpp\<close>): the
  pre-scan that counts groups, recursive descent from the disjunction to the atom, the two grammars of
  character classes, and \<open>compile\<close>.

  The cursor and the capture counter are the record \<open>pstate\<close>. A parse that fails sets the error once and
  unwinds to the top, so the functions return a sum: the error with the index it names, or the result and
  the state. \<open>depth_\<close> is incremented and decremented around the two functions that nest; their first
  argument is the number of levels left, \<open>kMaxDepth - depth_\<close>, and the functions in between take the nested
  call as an argument. The loops are instances of \<open>while\<close>, which unfolds to its own body; that they end is
  shown with what they read. Counters are natural numbers: a pattern has fewer than \<open>2^32\<close> units.
\<close>

section \<open>Characters\<close>

abbreviation ch :: "char \<Rightarrow> nat" where
  "ch c \<equiv> of_char c"

definition isDecimalDigit :: "nat \<Rightarrow> bool" where
  "isDecimalDigit c \<longleftrightarrow> ch CHR ''0'' \<le> c \<and> c \<le> ch CHR ''9''"

definition isLetter :: "nat \<Rightarrow> bool" where
  "isLetter c \<longleftrightarrow> ch CHR ''a'' \<le> c \<and> c \<le> ch CHR ''z'' \<or> ch CHR ''A'' \<le> c \<and> c \<le> ch CHR ''Z''"

definition isIdentifierStart :: "nat \<Rightarrow> bool" where
  "isIdentifierStart c \<longleftrightarrow> isLetter c \<or> c = ch CHR ''_'' \<or> c = ch CHR ''$''"

definition isIdentifierPart :: "nat \<Rightarrow> bool" where
  "isIdentifierPart c \<longleftrightarrow> isIdentifierStart c \<or> isDecimalDigit c"

definition isAlphanumeric :: "nat \<Rightarrow> bool" where
  "isAlphanumeric c \<longleftrightarrow> isLetter c \<or> isDecimalDigit c"

definition isPropertyCharacter :: "nat \<Rightarrow> bool" where
  "isPropertyCharacter c \<longleftrightarrow> isLetter c \<or> isDecimalDigit c \<or> c = ch CHR ''_''"

definition isSyntaxCharacter :: "nat \<Rightarrow> bool" where
  "isSyntaxCharacter c \<longleftrightarrow> c \<in> ch ` (set ''^$.*+?()[]{}|'' \<union> {CHR 0x5C})"

definition isClassSetSyntaxCharacter :: "nat \<Rightarrow> bool" where
  "isClassSetSyntaxCharacter c \<longleftrightarrow> c \<in> ch ` (set ''()[]{}/-|'' \<union> {CHR 0x5C})"

definition isClassSetReservedPunctuator :: "nat \<Rightarrow> bool" where
  "isClassSetReservedPunctuator c \<longleftrightarrow> c \<in> ch ` (set ''&-!#%,:;<=>@~'' \<union> {CHR 0x60})"

definition isClassSetDoubledPunctuator :: "nat \<Rightarrow> bool" where
  "isClassSetDoubledPunctuator c \<longleftrightarrow> c \<in> ch ` (set ''&!#$%*+,.:;<=>?@^~'' \<union> {CHR 0x60})"

definition hexDigitValue :: "nat \<Rightarrow> nat option" where
  "hexDigitValue c =
     (if ch CHR ''0'' \<le> c \<and> c \<le> ch CHR ''9'' then Some (c - ch CHR ''0'')
      else if ch CHR ''a'' \<le> c \<and> c \<le> ch CHR ''f'' then Some (c - ch CHR ''a'' + 10)
      else if ch CHR ''A'' \<le> c \<and> c \<le> ch CHR ''F'' then Some (c - ch CHR ''A'' + 10)
      else None)"

definition asciiOf :: "nat list \<Rightarrow> string" where
  "asciiOf units = map char_of units"

section \<open>Groups\<close>

record GroupInfo =
  count :: nat
  names :: "string list"

text \<open>The loop of \<open>prescanGroups\<close> over what is left of the source, with the number and names so far.\<close>

function prescan_loop :: "bool \<Rightarrow> nat \<Rightarrow> nat list \<Rightarrow> GroupInfo \<Rightarrow> GroupInfo" where
  "prescan_loop sets classDepth src info =
     (case src of
        [] \<Rightarrow> info
      | c # cs \<Rightarrow>
          if c = ch CHR 0x5C then prescan_loop sets classDepth (drop 1 cs) info
          else if classDepth \<noteq> 0 then
            (let deeper = (if c = ch CHR ''['' \<and> sets then classDepth + 1 else classDepth)
             in prescan_loop sets (if c = ch CHR '']'' then deeper - 1 else deeper) cs info)
          else if c = ch CHR ''['' then prescan_loop sets 1 cs info
          else if c \<noteq> ch CHR ''('' then prescan_loop sets classDepth cs info
          else if cs \<noteq> [] \<and> hd cs = ch CHR ''?'' then
            (if length cs > 2 \<and> cs ! 1 = ch CHR ''<'' \<and> cs ! 2 \<noteq> ch CHR ''='' \<and> cs ! 2 \<noteq> ch CHR ''!''
             then prescan_loop sets classDepth cs
                    \<lparr>count = count info + 1, names = names info @ [asciiOf (takeWhile (\<lambda>c. c \<noteq> ch CHR ''>'') (drop 2 cs))]\<rparr>
             else prescan_loop sets classDepth cs info)
          else prescan_loop sets classDepth cs \<lparr>count = count info + 1, names = names info @ [[]]\<rparr>)"
  by pat_completeness auto
termination
  by (relation "measure (\<lambda>(sets, classDepth, src, info). length src)") auto

declare prescan_loop.simps [simp del]

definition prescanGroups :: "nat list \<Rightarrow> bool \<Rightarrow> GroupInfo" where
  "prescanGroups src sets = prescan_loop sets 0 src \<lparr>count = 0, names = []\<rparr>"

section \<open>State and errors\<close>

datatype (plugins only: size code) parse_error =
    NestedTooDeeply | QuantifiedAssertion | MinimumExceedsMaximum | AtomExpected | NothingToRepeat
  | LoneSyntaxCharacter nat | UnknownCase nat | GroupNameStart | GroupNameEnd | GroupModifier | GroupEnd
  | UnmatchedParenthesis | TrailingBackslash | BackreferenceStart | BackreferenceEnd | UnknownGroup string
  | NoSuchGroup nat | MisplacedStringSet | LegacyOctal | ControlLetter | HexDigits | NotAnEscape nat
  | PropertyWithoutUnicode | PropertyStart | PropertyEnd | PropertyEmpty | PropertyUnknown property_error
  | CodePointWithoutUnicode | CodePointDigits | CodePointTooLarge | UnicodeDigits
  | ClassEnd | SetAsRangeEnd | RangeReversed | NegatedStrings | MixedOperators | StringSetStart | StringSetEnd
  | SetInString | StringsUnderIgnoreCase | ReservedCharacter nat | ReservedDouble nat

record pstate =
  at :: nat
  captureCounter :: nat

type_synonym 'a parse = "(parse_error \<times> nat) + ('a \<times> pstate)"

record penv =
  src :: "nat list"
  pflags :: Flags
  groups :: GroupInfo
  unicodeData :: ucd

abbreviation ptables :: "penv \<Rightarrow> case_tables" where
  "ptables e \<equiv> ucd_tables (unicodeData e)"

definition parser_kMaxDepth :: nat where "parser_kMaxDepth = 256"

definition p_atEnd :: "penv \<Rightarrow> pstate \<Rightarrow> bool" where
  "p_atEnd e st \<longleftrightarrow> at st \<ge> length (src e)"

definition p_peek :: "penv \<Rightarrow> pstate \<Rightarrow> nat \<Rightarrow> nat" where
  "p_peek e st ahead = (let i = at st + ahead in if i < length (src e) then src e ! i else 0)"

definition skip_by :: "nat \<Rightarrow> pstate \<Rightarrow> pstate" where
  "skip_by n st = st\<lparr>at := at st + n\<rparr>"

text \<open>\<open>eat(c)\<close>: \<open>None\<close> where it answers \<open>false\<close>.\<close>

definition eat :: "penv \<Rightarrow> nat \<Rightarrow> pstate \<Rightarrow> pstate option" where
  "eat e c st = (if p_atEnd e st \<or> src e ! at st \<noteq> c then None else Some (skip_by 1 st))"

definition eatTwo :: "penv \<Rightarrow> nat \<Rightarrow> pstate \<Rightarrow> pstate option" where
  "eatTwo e c st =
     (if at st + 1 \<ge> length (src e) \<or> src e ! at st \<noteq> c \<or> src e ! (at st + 1) \<noteq> c then None else Some (skip_by 2 st))"

definition readSourceCharacter :: "penv \<Rightarrow> pstate \<Rightarrow> nat \<times> pstate" where
  "readSourceCharacter e st =
     (let (code, width) = codePointAt (src e) (at st) (unicodeMode (pflags e)) in (code, skip_by width st))"

definition p_fail :: "parse_error \<Rightarrow> pstate \<Rightarrow> 'a parse" where
  "p_fail what st = Inl (what, at st)"

text \<open>\<open>while (at < size && P(src[at])) ++at\<close>\<close>

definition skip_while :: "(nat \<Rightarrow> bool) \<Rightarrow> nat list \<Rightarrow> nat \<Rightarrow> nat" where
  "skip_while P s i = i + length (takeWhile P (drop i s))"

definition p_substr :: "penv \<Rightarrow> nat \<Rightarrow> nat \<Rightarrow> nat list" where
  "p_substr e i j = take (j - i) (drop i (src e))"

text \<open>\<open>while (going) turn\<close>, left at once when a turn fails.\<close>

definition p_while :: "(pstate \<Rightarrow> bool) \<Rightarrow> ('a \<Rightarrow> pstate \<Rightarrow> 'a parse) \<Rightarrow> 'a \<Rightarrow> pstate \<Rightarrow> 'a parse" where
  "p_while going turn acc st =
     while (\<lambda>r. case r of Inl why \<Rightarrow> False | Inr (acc, st) \<Rightarrow> going st)
       (\<lambda>r. case r of Inl why \<Rightarrow> Inl why | Inr (acc, st) \<Rightarrow> turn acc st)
       (Inr (acc, st))"

section \<open>Quantifiers\<close>

text \<open>The digits from \<open>i\<close> on as a number, capped: \<open>None\<close> when there are none.\<close>

definition readBoundedDigits :: "penv \<Rightarrow> nat \<Rightarrow> (nat \<times> nat) option" where
  "readBoundedDigits e i =
     (let j = skip_while isDecimalDigit (src e) i
      in if j = i then None
         else Some (foldl (\<lambda>v d. min (v * 10 + (d - ch CHR ''0'')) 0xFFFFFFFE) 0 (p_substr e i j), j))"

text \<open>\<open>None\<close> where \<open>readQuantifier\<close> answers \<open>false\<close>; it reports no errors.\<close>

definition readBraces :: "penv \<Rightarrow> pstate \<Rightarrow> (nat \<times> nat \<times> pstate) option" where
  "readBraces e st =
     (case readBoundedDigits e (at st + 1) of
        None \<Rightarrow> None
      | Some (lo, i) \<Rightarrow>
          (case (if i < length (src e) \<and> src e ! i = ch CHR '','' then
                   (if i + 1 < length (src e) \<and> src e ! (i + 1) = ch CHR ''}'' then Some (kUnbounded, i + 1)
                    else readBoundedDigits e (i + 1))
                 else Some (lo, i)) of
             None \<Rightarrow> None
           | Some (hi, j) \<Rightarrow>
               if j \<ge> length (src e) \<or> src e ! j \<noteq> ch CHR ''}'' then None else Some (lo, hi, st\<lparr>at := j + 1\<rparr>)))"

definition readQuantifier :: "penv \<Rightarrow> pstate \<Rightarrow> (nat \<times> nat \<times> bool \<times> pstate) option" where
  "readQuantifier e st =
     (case (case eat e (ch CHR ''*'') st of
              Some st1 \<Rightarrow> Some (0, kUnbounded, st1)
            | None \<Rightarrow>
                (case eat e (ch CHR ''+'') st of
                   Some st1 \<Rightarrow> Some (1, kUnbounded, st1)
                 | None \<Rightarrow>
                     (case eat e (ch CHR ''?'') st of
                        Some st1 \<Rightarrow> Some (0, 1, st1)
                      | None \<Rightarrow> if p_peek e st 0 = ch CHR ''{'' then readBraces e st else None))) of
        None \<Rightarrow> None
      | Some (mn, mx, st1) \<Rightarrow>
          (case eat e (ch CHR ''?'') st1 of
             Some st2 \<Rightarrow> Some (mn, mx, False, st2)
           | None \<Rightarrow> Some (mn, mx, True, st1)))"

section \<open>Sets in the mode of the pattern\<close>

definition foldedForOperation :: "penv \<Rightarrow> RangeList \<Rightarrow> RangeList" where
  "foldedForOperation e rs =
     (if \<not> ignoreCase (pflags e) then rs
      else
        (let sources = filter (rangesContain rs) (simpleCaseFoldSources (ptables e));
             moved = fold (\<lambda>code list. addRange list code code) sources [];
             arrived = fold (\<lambda>code list. addRange list (simpleCaseFold (ptables e) code) (simpleCaseFold (ptables e) code)) sources []
         in if moved = [] then rs
            else normalizeRanges (subtractRanges rs (normalizeRanges moved) @ normalizeRanges arrived)))"

definition complementInMode :: "penv \<Rightarrow> RangeList \<Rightarrow> RangeList" where
  "complementInMode e rs =
     (if unicodeSets (pflags e) \<and> ignoreCase (pflags e)
      then subtractRanges (simpleCaseFoldFixedPoints (ptables e)) (foldedForOperation e rs)
      else complementRanges rs (alphabetCeiling (unicodeMode (pflags e))))"

section \<open>Escapes\<close>

datatype EscapeValue = Code nat | CharSet RangeList

definition readHex :: "penv \<Rightarrow> nat \<Rightarrow> nat \<Rightarrow> nat option" where
  "readHex e i n =
     (if i + n > length (src e) then None
      else fold (\<lambda>d acc. case (acc, hexDigitValue d) of (Some v, Some digit) \<Rightarrow> Some (16 * v + digit) | _ \<Rightarrow> None)
             (take n (drop i (src e))) (Some 0))"

text \<open>The name, empty where there is none, and the value between the braces.\<close>

definition property_text :: "penv \<Rightarrow> pstate \<Rightarrow> string \<times> string \<times> pstate" where
  "property_text e st1 =
     (let st2 = st1\<lparr>at := skip_while isPropertyCharacter (src e) (at st1)\<rparr>;
          first = asciiOf (p_substr e (at st1) (at st2))
      in case eat e (ch CHR ''='') st2 of
           None \<Rightarrow> ([], first, st2)
         | Some st' \<Rightarrow>
             (let st'' = st'\<lparr>at := skip_while isPropertyCharacter (src e) (at st')\<rparr>
              in (first, asciiOf (p_substr e (at st') (at st'')), st'')))"

definition readPropertyEscape :: "penv \<Rightarrow> bool \<Rightarrow> pstate \<Rightarrow> EscapeValue parse" where
  "readPropertyEscape e negated st =
     (if \<not> unicodeMode (pflags e) then p_fail PropertyWithoutUnicode st
      else
        (case eat e (ch CHR ''{'') (skip_by 1 st) of
           None \<Rightarrow> p_fail PropertyStart (skip_by 1 st)
         | Some st1 \<Rightarrow>
             (case property_text e st1 of
                (name, val, st3) \<Rightarrow>
                  (case eat e (ch CHR ''}'') st3 of
                     None \<Rightarrow> p_fail PropertyEnd st3
                   | Some st4 \<Rightarrow>
                       if val = [] then p_fail PropertyEmpty st4
                       else
                         (case unicodePropertySet (unicodeData e) name val of
                            Inl why \<Rightarrow> p_fail (PropertyUnknown why) st4
                          | Inr rs \<Rightarrow> Inr (CharSet (if negated then complementInMode e rs else rs), st4))))))"

text \<open>The digits of \<open>\u{...}\<close>, capped one above the last code point.\<close>

definition brace_value :: "nat list \<Rightarrow> nat" where
  "brace_value ds = foldl (\<lambda>v d. min (16 * v + the (hexDigitValue d)) (kMaxCodePoint + 1)) 0 ds"

definition readUnicodeEscape :: "penv \<Rightarrow> pstate \<Rightarrow> EscapeValue parse" where
  "readUnicodeEscape e st =
     (if at st + 1 < length (src e) \<and> src e ! (at st + 1) = ch CHR ''{'' then
        (if \<not> unicodeMode (pflags e) then p_fail CodePointWithoutUnicode st
         else
           (let i = at st + 2; j = skip_while (\<lambda>c. hexDigitValue c \<noteq> None) (src e) i;
                code = brace_value (p_substr e i j)
            in if j = i \<or> j \<ge> length (src e) \<or> src e ! j \<noteq> ch CHR ''}'' then p_fail CodePointDigits st
               else if code > kMaxCodePoint then p_fail CodePointTooLarge st
               else Inr (Code code, st\<lparr>at := j + 1\<rparr>)))
      else
        (case readHex e (at st + 1) 4 of
           None \<Rightarrow> p_fail UnicodeDigits st
         | Some v \<Rightarrow>
             (let st1 = skip_by 5 st
              in if unicodeMode (pflags e) \<and> isLeadSurrogate v \<and> at st1 + 1 < length (src e) \<and>
                    src e ! at st1 = ch CHR 0x5C \<and> src e ! (at st1 + 1) = ch CHR ''u'' then
                   (case readHex e (at st1 + 2) 4 of
                      Some trail \<Rightarrow>
                        if isTrailSurrogate trail then Inr (Code (combineSurrogates v trail), skip_by 6 st1) else Inr (Code v, st1)
                    | None \<Rightarrow> Inr (Code v, st1))
                 else Inr (Code v, st1))))"

definition readEscapeValue :: "penv \<Rightarrow> bool \<Rightarrow> pstate \<Rightarrow> EscapeValue parse" where
  "readEscapeValue e inClass st =
     (let c = p_peek e st 0; st1 = skip_by 1 st; uni = unicodeMode (pflags e); words = wordRanges (ptables e) (ignoreCase (pflags e)) uni
      in if c = ch CHR ''d'' then Inr (CharSet makeDigits, st1)
         else if c = ch CHR ''D'' then Inr (CharSet (complementInMode e makeDigits), st1)
         else if c = ch CHR ''s'' then Inr (CharSet makeSpaces, st1)
         else if c = ch CHR ''S'' then Inr (CharSet (complementInMode e makeSpaces), st1)
         else if c = ch CHR ''w'' then Inr (CharSet words, st1)
         else if c = ch CHR ''W'' then Inr (CharSet (complementInMode e words), st1)
         else if c = ch CHR ''p'' \<or> c = ch CHR ''P'' then readPropertyEscape e (c = ch CHR ''P'') st
         else if c = ch CHR ''q'' \<and> unicodeSets (pflags e) \<and> inClass then p_fail MisplacedStringSet st
         else if c = ch CHR ''f'' then Inr (Code 0xC, st1)
         else if c = ch CHR ''n'' then Inr (Code 0xA, st1)
         else if c = ch CHR ''r'' then Inr (Code 0xD, st1)
         else if c = ch CHR ''t'' then Inr (Code 0x9, st1)
         else if c = ch CHR ''v'' then Inr (Code 0xB, st1)
         else if c = ch CHR ''0'' then
           (if \<not> p_atEnd e st1 \<and> isDecimalDigit (p_peek e st1 0) then p_fail LegacyOctal st1 else Inr (Code 0, st1))
         else if c = ch CHR ''c'' then
           (if at st + 1 \<ge> length (src e) then p_fail ControlLetter st
            else if \<not> isLetter (src e ! (at st + 1)) then p_fail ControlLetter st
            else Inr (Code (src e ! (at st + 1) mod 32), skip_by 2 st))
         else if c = ch CHR ''x'' then
           (case readHex e (at st + 1) 2 of None \<Rightarrow> p_fail HexDigits st | Some v \<Rightarrow> Inr (Code v, skip_by 3 st))
         else if c = ch CHR ''u'' then readUnicodeEscape e st
         else if c = ch CHR ''b'' then Inr (Code 0x8, st1)
         else if isAlphanumeric c then p_fail (NotAnEscape c) st
         else if unicodeSets (pflags e) \<and> inClass \<and> isClassSetReservedPunctuator c then Inr (Code c, st1)
         else if uni \<and> \<not> isSyntaxCharacter c \<and> c \<noteq> ch CHR ''/'' \<and> \<not> (inClass \<and> c = ch CHR ''-'') then p_fail (NotAnEscape c) st
         else Inr (Code c, st1))"

section \<open>Classes without \<open>v\<close>\<close>

definition caseTableFailure :: "nat \<Rightarrow> pstate \<Rightarrow> 'a parse" where
  "caseTableFailure code st = p_fail (UnknownCase code) st"

text \<open>The fold that only \<open>i\<close> without \<open>u\<close> and \<open>v\<close> reads.\<close>

definition upper_mode :: "penv \<Rightarrow> bool" where
  "upper_mode e \<longleftrightarrow> ignoreCase (pflags e) \<and> \<not> unicodeMode (pflags e)"

definition readClassAtom :: "penv \<Rightarrow> pstate \<Rightarrow> EscapeValue parse" where
  "readClassAtom e st =
     (if p_atEnd e st then p_fail ClassEnd st
      else if p_peek e st 0 \<noteq> ch CHR 0x5C then (case readSourceCharacter e st of (code, st1) \<Rightarrow> Inr (Code code, st1))
      else
        (let st1 = skip_by 1 st
         in if p_atEnd e st1 then p_fail TrailingBackslash st1 else readEscapeValue e True st1))"

text \<open>One turn of the loop of \<open>parseCharacterClass\<close>: the ranges with what was read added.\<close>

definition class_turn :: "penv \<Rightarrow> RangeList \<Rightarrow> pstate \<Rightarrow> RangeList parse" where
  "class_turn e ranges st =
     (case readClassAtom e st of
        Inl why \<Rightarrow> Inl why
      | Inr (CharSet rs, st1) \<Rightarrow> Inr (ranges @ rs, st1)
      | Inr (Code lo, st1) \<Rightarrow>
          if p_peek e st1 0 = ch CHR ''-'' \<and> at st1 + 1 < length (src e) \<and> src e ! (at st1 + 1) \<noteq> ch CHR '']'' then
            (case readClassAtom e (skip_by 1 st1) of
               Inl why \<Rightarrow> Inl why
             | Inr (CharSet rs, st2) \<Rightarrow> p_fail SetAsRangeEnd st2
             | Inr (Code hi, st2) \<Rightarrow>
                 if lo > hi then p_fail RangeReversed st2
                 else
                   (case (if upper_mode e then firstUnknownCasedUnitInRange lo hi else None) of
                      Some offender \<Rightarrow> caseTableFailure offender st2
                    | None \<Rightarrow> Inr (addRange ranges lo hi, st2)))
          else if upper_mode e \<and> isUnknownCasedUnit lo then caseTableFailure lo st1
          else Inr (addRange ranges lo lo, st1))"

definition parseClassRanges :: "penv \<Rightarrow> pstate \<Rightarrow> node parse" where
  "parseClassRanges e st =
     (let st1 = skip_by 1 st;
          (negated, st2) = (case eat e (ch CHR ''^'') st1 of Some st' \<Rightarrow> (True, st') | None \<Rightarrow> (False, st1))
      in case p_while (\<lambda>st. \<not> p_atEnd e st \<and> p_peek e st 0 \<noteq> ch CHR '']'') (class_turn e) [] st2 of
           Inl why \<Rightarrow> Inl why
         | Inr (ranges, st3) \<Rightarrow>
             (case eat e (ch CHR '']'') st3 of
                None \<Rightarrow> p_fail ClassEnd st3
              | Some st4 \<Rightarrow> Inr (Class (normalizeRanges ranges) negated [] False, st4)))"

section \<open>Classes with \<open>v\<close>\<close>

record ClassSetValue =
  set_ranges :: RangeList
  set_strings :: "nat list list"
  set_empty :: bool
  mayContainStrings :: bool

definition noMembers :: ClassSetValue where
  "noMembers = \<lparr>set_ranges = [], set_strings = [], set_empty = False, mayContainStrings = False\<rparr>"

definition addString :: "nat list list \<Rightarrow> nat list \<Rightarrow> nat list list" where
  "addString list s = (if s \<in> set list then list else list @ [s])"

text \<open>\<open>sortLongestFirst\<close>: by length, longest first, then in lexicographic order.\<close>

fun lex_le :: "nat list \<Rightarrow> nat list \<Rightarrow> bool" where
  "lex_le [] b = True"
| "lex_le (x # a) [] = False"
| "lex_le (x # a) (y # b) = (if x = y then lex_le a b else x < y)"

definition longer_first :: "nat list \<Rightarrow> nat list \<Rightarrow> bool" where
  "longer_first a b = (if length a \<noteq> length b then length a > length b else lex_le a b)"

fun insert_longest :: "nat list \<Rightarrow> nat list list \<Rightarrow> nat list list" where
  "insert_longest s [] = [s]"
| "insert_longest s (t # ts) = (if longer_first s t then s # t # ts else t # insert_longest s ts)"

definition sortLongestFirst :: "nat list list \<Rightarrow> nat list list" where
  "sortLongestFirst list = foldr insert_longest list []"

definition readClassSetCharacter :: "penv \<Rightarrow> pstate \<Rightarrow> nat parse" where
  "readClassSetCharacter e st =
     (if p_atEnd e st then p_fail ClassEnd st
      else
        (let c = p_peek e st 0
         in if isClassSetSyntaxCharacter c then p_fail (ReservedCharacter c) st
            else if isClassSetDoubledPunctuator c \<and> p_peek e st 1 = c then p_fail (ReservedDouble c) st
            else Inr (readSourceCharacter e st)))"

text \<open>A character of a class, escaped or not, where a set is the error \<open>what\<close>: the end of a range and the
  members of \<open>\q{...}\<close>.\<close>

definition read_single :: "penv \<Rightarrow> parse_error \<Rightarrow> pstate \<Rightarrow> nat parse" where
  "read_single e what st =
     (if p_peek e st 0 = ch CHR 0x5C then
        (let st1 = skip_by 1 st
         in if p_atEnd e st1 then p_fail TrailingBackslash st1
            else
              (case readEscapeValue e True st1 of
                 Inl why \<Rightarrow> Inl why
               | Inr (CharSet rs, st2) \<Rightarrow> p_fail what st2
               | Inr (Code code, st2) \<Rightarrow> Inr (code, st2)))
      else readClassSetCharacter e st)"

text \<open>The characters of one alternative of \<open>\q{...}\<close>.\<close>

definition class_string :: "penv \<Rightarrow> pstate \<Rightarrow> (nat list) parse" where
  "class_string e =
     p_while (\<lambda>st. \<not> p_atEnd e st \<and> p_peek e st 0 \<noteq> ch CHR ''|'' \<and> p_peek e st 0 \<noteq> ch CHR ''}'')
       (\<lambda>alternative st.
          case read_single e SetInString st of
            Inl why \<Rightarrow> Inl why
          | Inr (c, st1) \<Rightarrow> Inr (alternative @ [c], st1))
       []"

definition add_alternative :: "nat list \<Rightarrow> ClassSetValue \<Rightarrow> ClassSetValue" where
  "add_alternative alternative out =
     (if length alternative = 1 then out\<lparr>set_ranges := addRange (set_ranges out) (alternative ! 0) (alternative ! 0)\<rparr>
      else if alternative = [] then out\<lparr>mayContainStrings := True, set_empty := True\<rparr>
      else out\<lparr>mayContainStrings := True, set_strings := addString (set_strings out) alternative\<rparr>)"

definition string_turn :: "penv \<Rightarrow> ClassSetValue \<Rightarrow> pstate \<Rightarrow> ClassSetValue parse" where
  "string_turn e out st =
     (case class_string e st of
        Inl why \<Rightarrow> Inl why
      | Inr (alternative, st1) \<Rightarrow> Inr (add_alternative alternative out, st1))"

text \<open>\<open>while (true) { turn; if (eat('|')) continue; if (eat('}')) break; refuse }\<close>\<close>

definition class_strings :: "penv \<Rightarrow> pstate \<Rightarrow> ClassSetValue parse" where
  "class_strings e st =
     (case string_turn e noMembers st of
        Inl why \<Rightarrow> Inl why
      | Inr (out, st1) \<Rightarrow>
          (case p_while (\<lambda>st. eat e (ch CHR ''|'') st \<noteq> None) (\<lambda>out st. string_turn e out (skip_by 1 st)) out st1 of
             Inl why \<Rightarrow> Inl why
           | Inr (out', st2) \<Rightarrow>
               (case eat e (ch CHR ''}'') st2 of None \<Rightarrow> p_fail StringSetEnd st2 | Some st3 \<Rightarrow> Inr (out', st3))))"

definition readClassStringDisjunction :: "penv \<Rightarrow> pstate \<Rightarrow> ClassSetValue parse" where
  "readClassStringDisjunction e st =
     (case eat e (ch CHR ''{'') st of
        None \<Rightarrow> p_fail StringSetStart st
      | Some st1 \<Rightarrow>
          (case class_strings e st1 of
             Inl why \<Rightarrow> Inl why
           | Inr (out, st2) \<Rightarrow>
               (let out' = out\<lparr>set_ranges := normalizeRanges (set_ranges out)\<rparr>
                in if ignoreCase (pflags e) \<and> set_strings out' \<noteq> [] then p_fail StringsUnderIgnoreCase st2
                   else Inr (out', st2))))"

text \<open>An operand: its value, and its code where it is one character. \<open>nested\<close> reads the class at a \<open>[\<close>.\<close>

definition readClassSetOperand :: "penv \<Rightarrow> (pstate \<Rightarrow> ClassSetValue parse) \<Rightarrow> pstate \<Rightarrow> (ClassSetValue \<times> nat option) parse" where
  "readClassSetOperand e nested st =
     (if p_atEnd e st then p_fail ClassEnd st
      else if p_peek e st 0 = ch CHR ''['' then
        (case nested st of Inl why \<Rightarrow> Inl why | Inr (out, st1) \<Rightarrow> Inr ((out, None), st1))
      else if p_peek e st 0 = ch CHR 0x5C then
        (if p_peek e st 1 = ch CHR ''q'' then
           (case readClassStringDisjunction e (skip_by 2 st) of Inl why \<Rightarrow> Inl why | Inr (out, st1) \<Rightarrow> Inr ((out, None), st1))
         else
           (let st1 = skip_by 1 st
            in if p_atEnd e st1 then p_fail TrailingBackslash st1
               else
                 (case readEscapeValue e True st1 of
                    Inl why \<Rightarrow> Inl why
                  | Inr (CharSet rs, st2) \<Rightarrow> Inr ((noMembers\<lparr>set_ranges := rs\<rparr>, None), st2)
                  | Inr (Code code, st2) \<Rightarrow> Inr ((noMembers\<lparr>set_ranges := addRange [] code code\<rparr>, Some code), st2))))
      else
        (case readClassSetCharacter e st of
           Inl why \<Rightarrow> Inl why
         | Inr (code, st1) \<Rightarrow> Inr ((noMembers\<lparr>set_ranges := addRange [] code code\<rparr>, Some code), st1)))"

definition intersect_values :: "penv \<Rightarrow> ClassSetValue \<Rightarrow> ClassSetValue \<Rightarrow> ClassSetValue" where
  "intersect_values e acc rhs =
     \<lparr>set_ranges = intersectRanges (foldedForOperation e (set_ranges acc)) (foldedForOperation e (set_ranges rhs)),
      set_strings = filter (\<lambda>s. s \<in> set (set_strings rhs)) (set_strings acc), set_empty = (set_empty acc \<and> set_empty rhs),
      mayContainStrings = (mayContainStrings acc \<and> mayContainStrings rhs)\<rparr>"

definition subtract_values :: "penv \<Rightarrow> ClassSetValue \<Rightarrow> ClassSetValue \<Rightarrow> ClassSetValue" where
  "subtract_values e acc rhs =
     acc\<lparr>set_ranges := subtractRanges (foldedForOperation e (set_ranges acc)) (foldedForOperation e (set_ranges rhs)),
         set_strings := filter (\<lambda>s. s \<notin> set (set_strings rhs)) (set_strings acc), set_empty := (set_empty acc \<and> \<not> set_empty rhs)\<rparr>"

text \<open>The loop of one of the two operators \<open>&&\<close> and \<open>--\<close>, and the refusal of the other one after it.\<close>

definition operator_loop ::
  "penv \<Rightarrow> (pstate \<Rightarrow> ClassSetValue parse) \<Rightarrow> nat \<Rightarrow> nat \<Rightarrow> (ClassSetValue \<Rightarrow> ClassSetValue \<Rightarrow> ClassSetValue) \<Rightarrow>
   ClassSetValue \<Rightarrow> pstate \<Rightarrow> ClassSetValue parse" where
  "operator_loop e nested this other combine first st =
     (case p_while (\<lambda>st. eatTwo e this st \<noteq> None)
             (\<lambda>acc st. case readClassSetOperand e nested (skip_by 2 st) of
                Inl why \<Rightarrow> Inl why
              | Inr ((rhs, _), st1) \<Rightarrow> Inr (combine acc rhs, st1))
             first st of
        Inl why \<Rightarrow> Inl why
      | Inr (acc, st1) \<Rightarrow>
          if p_peek e st1 0 = other \<and> p_peek e st1 1 = other then p_fail MixedOperators st1 else Inr (acc, st1))"

text \<open>The first half of a turn of \<open>readClassSetUnion\<close>: the pending operand, or the range that it begins, is added.\<close>

definition add_pending :: "penv \<Rightarrow> ClassSetValue \<Rightarrow> ClassSetValue \<times> nat option \<Rightarrow> pstate \<Rightarrow> ClassSetValue parse" where
  "add_pending e out operand st =
     (case operand of (pending, character) \<Rightarrow>
        if character \<noteq> None \<and> p_peek e st 0 = ch CHR ''-'' \<and> p_peek e st 1 \<noteq> ch CHR ''-'' \<and> p_peek e st 1 \<noteq> ch CHR '']'' then
          (case read_single e SetAsRangeEnd (skip_by 1 st) of
             Inl why \<Rightarrow> Inl why
           | Inr (hi, st1) \<Rightarrow>
               if the character > hi then p_fail RangeReversed st1
               else Inr (out\<lparr>set_ranges := addRange (set_ranges out) (the character) hi\<rparr>, st1))
        else
          Inr (\<lparr>set_ranges = set_ranges out @ set_ranges pending,
                set_strings = fold (\<lambda>s list. addString list s) (set_strings pending) (set_strings out),
                set_empty = (set_empty out \<or> set_empty pending),
                mayContainStrings = (mayContainStrings out \<or> mayContainStrings pending)\<rparr>, st))"

definition readClassSetUnion ::
  "penv \<Rightarrow> (pstate \<Rightarrow> ClassSetValue parse) \<Rightarrow> ClassSetValue \<times> nat option \<Rightarrow> pstate \<Rightarrow> ClassSetValue parse" where
  "readClassSetUnion e nested first st =
     (case add_pending e noMembers first st of
        Inl why \<Rightarrow> Inl why
      | Inr (out, st1) \<Rightarrow>
          (case p_while (\<lambda>st. \<not> (p_atEnd e st \<or> p_peek e st 0 = ch CHR '']''))
                  (\<lambda>out st. case readClassSetOperand e nested st of
                     Inl why \<Rightarrow> Inl why
                   | Inr (operand, st1) \<Rightarrow> add_pending e out operand st1)
                  out st1 of
             Inl why \<Rightarrow> Inl why
           | Inr (out', st2) \<Rightarrow> Inr (out'\<lparr>set_ranges := normalizeRanges (set_ranges out')\<rparr>, st2)))"

definition readClassSetExpression :: "penv \<Rightarrow> (pstate \<Rightarrow> ClassSetValue parse) \<Rightarrow> pstate \<Rightarrow> ClassSetValue parse" where
  "readClassSetExpression e nested st =
     (if p_peek e st 0 = ch CHR '']'' then Inr (noMembers, st)
      else
        (case readClassSetOperand e nested st of
           Inl why \<Rightarrow> Inl why
         | Inr (first, st1) \<Rightarrow>
             if p_peek e st1 0 = ch CHR ''&'' \<and> p_peek e st1 1 = ch CHR ''&'' then
               operator_loop e nested (ch CHR ''&'') (ch CHR ''-'') (intersect_values e) (fst first) st1
             else if p_peek e st1 0 = ch CHR ''-'' \<and> p_peek e st1 1 = ch CHR ''-'' then
               operator_loop e nested (ch CHR ''-'') (ch CHR ''&'') (subtract_values e) (fst first) st1
             else readClassSetUnion e nested first st1))"

primrec readNestedClass :: "nat \<Rightarrow> penv \<Rightarrow> pstate \<Rightarrow> ClassSetValue parse" where
  "readNestedClass 0 e st = p_fail NestedTooDeeply st"
| "readNestedClass (Suc levels) e st =
     (let st1 = skip_by 1 st;
          (negated, st2) = (case eat e (ch CHR ''^'') st1 of Some st' \<Rightarrow> (True, st') | None \<Rightarrow> (False, st1))
      in case readClassSetExpression e (readNestedClass levels e) st2 of
           Inl why \<Rightarrow> Inl why
         | Inr (v, st3) \<Rightarrow>
             (case eat e (ch CHR '']'') st3 of
                None \<Rightarrow> p_fail ClassEnd st3
              | Some st4 \<Rightarrow>
                  if negated \<and> mayContainStrings v then p_fail NegatedStrings st4
                  else
                    Inr (\<lparr>set_ranges = normalizeRanges (if negated then complementInMode e (set_ranges v) else set_ranges v),
                          set_strings = set_strings v, set_empty = set_empty v,
                          mayContainStrings = (if negated then False else mayContainStrings v)\<rparr>, st4)))"

definition parseClassSet :: "nat \<Rightarrow> penv \<Rightarrow> pstate \<Rightarrow> node parse" where
  "parseClassSet levels e st =
     (case readNestedClass levels e st of
        Inl why \<Rightarrow> Inl why
      | Inr (v, st1) \<Rightarrow> Inr (Class (set_ranges v) False (sortLongestFirst (set_strings v)) (set_empty v), st1))"

definition parseCharacterClass :: "nat \<Rightarrow> penv \<Rightarrow> pstate \<Rightarrow> node parse" where
  "parseCharacterClass levels e st = (if unicodeSets (pflags e) then parseClassSet levels e st else parseClassRanges e st)"

section \<open>Atoms\<close>

definition charNode :: "penv \<Rightarrow> nat \<Rightarrow> pstate \<Rightarrow> node parse" where
  "charNode e code st =
     (if upper_mode e \<and> isUnknownCasedUnit code then caseTableFailure code st
      else Inr (Character (canonicalize (simpleCaseFold (ptables e)) code (ignoreCase (pflags e)) (unicodeMode (pflags e))), st))"

text \<open>The digits of a backreference: the loop stops above \<open>0xFFFFFF\<close> without passing the digit.\<close>

fun reference_loop :: "nat list \<Rightarrow> nat \<Rightarrow> nat \<Rightarrow> nat \<times> nat" where
  "reference_loop [] v i = (v, i)"
| "reference_loop (d # ds) v i =
     (if \<not> isDecimalDigit d then (v, i)
      else let v' = v * 10 + (d - ch CHR ''0'') in if v' > 0xFFFFFF then (v', i) else reference_loop ds v' (i + 1))"

text \<open>The position of the first group with a name, from one on.\<close>

definition group_named :: "GroupInfo \<Rightarrow> string \<Rightarrow> nat option" where
  "group_named info name =
     (let i = length (takeWhile (\<lambda>n. n \<noteq> name) (names info)) in if i < length (names info) then Some (i + 1) else None)"

definition parseAtomEscape :: "penv \<Rightarrow> pstate \<Rightarrow> node parse" where
  "parseAtomEscape e st0 =
     (let st = skip_by 1 st0; c = p_peek e st 0
      in if p_atEnd e st then p_fail TrailingBackslash st
         else if c = ch CHR ''b'' \<or> c = ch CHR ''B'' then
           Inr (Assertion (if c = ch CHR ''b'' then WordBoundary else NotWordBoundary), skip_by 1 st)
         else if c = ch CHR ''k'' then
           (case eat e (ch CHR ''<'') (skip_by 1 st) of
              None \<Rightarrow> p_fail BackreferenceStart (skip_by 1 st)
            | Some st1 \<Rightarrow>
                (let st2 = st1\<lparr>at := skip_while isIdentifierPart (src e) (at st1)\<rparr>; name = asciiOf (p_substr e (at st1) (at st2))
                 in case eat e (ch CHR ''>'') st2 of
                      None \<Rightarrow> p_fail BackreferenceEnd st2
                    | Some st3 \<Rightarrow>
                        (case group_named (groups e) name of
                           None \<Rightarrow> p_fail (UnknownGroup name) st3
                         | Some i \<Rightarrow> Inr (Backreference i, st3))))
         else if ch CHR ''1'' \<le> c \<and> c \<le> ch CHR ''9'' then
           (case reference_loop (drop (at st) (src e)) 0 (at st) of
              (v, i) \<Rightarrow> if v > count (groups e) then p_fail (NoSuchGroup v) st else Inr (Backreference v, st\<lparr>at := i\<rparr>))
         else
           (case readEscapeValue e False st of
              Inl why \<Rightarrow> Inl why
            | Inr (CharSet rs, st1) \<Rightarrow> Inr (Class (normalizeRanges rs) False [] False, st1)
            | Inr (Code code, st1) \<Rightarrow> charNode e code st1))"

text \<open>What a \<open>(\<close> opens; \<open>Capture 0\<close> is the group that does not capture.\<close>

datatype group_kind = Capture nat | Ahead bool | Behind bool

definition new_capture :: "pstate \<Rightarrow> group_kind parse" where
  "new_capture st = Inr (Capture (captureCounter st + 1), st\<lparr>captureCounter := captureCounter st + 1\<rparr>)"

definition open_group :: "penv \<Rightarrow> pstate \<Rightarrow> group_kind parse" where
  "open_group e st =
     (case eat e (ch CHR ''?'') st of
        None \<Rightarrow> new_capture st
      | Some st1 \<Rightarrow>
          (case eat e (ch CHR '':'') st1 of
             Some st2 \<Rightarrow> Inr (Capture 0, st2)
           | None \<Rightarrow>
               (case eat e (ch CHR ''='') st1 of
                  Some st2 \<Rightarrow> Inr (Ahead False, st2)
                | None \<Rightarrow>
                    (case eat e (ch CHR ''!'') st1 of
                       Some st2 \<Rightarrow> Inr (Ahead True, st2)
                     | None \<Rightarrow>
                         if p_peek e st1 0 = ch CHR ''<'' \<and> (p_peek e st1 1 = ch CHR ''='' \<or> p_peek e st1 1 = ch CHR ''!'')
                         then Inr (Behind (p_peek e st1 1 = ch CHR ''!''), skip_by 2 st1)
                         else
                           (case eat e (ch CHR ''<'') st1 of
                              None \<Rightarrow> p_fail GroupModifier st1
                            | Some st2 \<Rightarrow>
                                if p_atEnd e st2 \<or> \<not> isIdentifierStart (p_peek e st2 0) then p_fail GroupNameStart st2
                                else
                                  (let st3 = st2\<lparr>at := skip_while isIdentifierPart (src e) (at st2)\<rparr>
                                   in case eat e (ch CHR ''>'') st3 of
                                        None \<Rightarrow> p_fail GroupNameEnd st3
                                      | Some st4 \<Rightarrow> new_capture st4))))))"

fun make_group :: "group_kind \<Rightarrow> node \<Rightarrow> node" where
  "make_group (Capture i) body = Group i body"
| "make_group (Ahead negative) body = Lookahead negative body"
| "make_group (Behind negative) body = Lookbehind negative body"

definition parseGroup :: "penv \<Rightarrow> (pstate \<Rightarrow> node parse) \<Rightarrow> pstate \<Rightarrow> node parse" where
  "parseGroup e disjunction st =
     (case open_group e (skip_by 1 st) of
        Inl why \<Rightarrow> Inl why
      | Inr (kind, st1) \<Rightarrow>
          (case disjunction st1 of
             Inl why \<Rightarrow> Inl why
           | Inr (body, st2) \<Rightarrow>
               (case eat e (ch CHR '')'') st2 of
                  None \<Rightarrow> p_fail GroupEnd st2
                | Some st3 \<Rightarrow> Inr (make_group kind body, st3))))"

definition parseAtom :: "nat \<Rightarrow> penv \<Rightarrow> (pstate \<Rightarrow> node parse) \<Rightarrow> pstate \<Rightarrow> node parse" where
  "parseAtom levels e disjunction st =
     (let c = p_peek e st 0
      in if p_atEnd e st then p_fail AtomExpected st
         else if c = ch CHR ''^'' \<or> c = ch CHR ''$'' then
           Inr (Assertion (if c = ch CHR ''^'' then Start else End), skip_by 1 st)
         else if c = ch CHR ''.'' then Inr (Dot, skip_by 1 st)
         else if c = ch CHR ''('' then parseGroup e disjunction st
         else if c = ch CHR ''['' then parseCharacterClass levels e st
         else if c = ch CHR 0x5C then parseAtomEscape e st
         else if c = ch CHR ''*'' \<or> c = ch CHR ''+'' \<or> c = ch CHR ''?'' then p_fail NothingToRepeat st
         else if c = ch CHR '')'' then p_fail AtomExpected st
         else if (c = ch CHR '']'' \<or> c = ch CHR ''{'' \<or> c = ch CHR ''}'') \<and> unicodeMode (pflags e) then p_fail (LoneSyntaxCharacter c) st
         else (case readSourceCharacter e st of (code, st1) \<Rightarrow> charNode e code st1))"

section \<open>Terms\<close>

fun is_assertion :: "node \<Rightarrow> bool" where
  "is_assertion (Assertion k) = True"
| "is_assertion (Lookahead neg child) = True"
| "is_assertion (Lookbehind neg child) = True"
| "is_assertion node = False"

fun consumes_one :: "node \<Rightarrow> bool" where
  "consumes_one (Character c) = True"
| "consumes_one (Class ranges negated strings matchesEmpty) \<longleftrightarrow> strings = [] \<and> \<not> matchesEmpty"
| "consumes_one Dot = True"
| "consumes_one node = False"

definition parseTerm :: "nat \<Rightarrow> penv \<Rightarrow> (pstate \<Rightarrow> node parse) \<Rightarrow> pstate \<Rightarrow> node parse" where
  "parseTerm levels e disjunction st =
     (case parseAtom levels e disjunction st of
        Inl why \<Rightarrow> Inl why
      | Inr (atom, st1) \<Rightarrow>
          (case readQuantifier e st1 of
             None \<Rightarrow> Inr (atom, st1)
           | Some (mn, mx, greedily, st2) \<Rightarrow>
               if is_assertion atom then p_fail QuantifiedAssertion st2
               else if mn > mx then p_fail MinimumExceedsMaximum st2
               else
                 (let n = captureCounter st2 - captureCounter st
                  in Inr (Repeat \<lparr>repMin = mn, repMax = mx, greedy = greedily, firstCapture = captureCounter st + 1,
                                  captureCount = n, simpleAtom = (n = 0 \<and> consumes_one atom)\<rparr> atom, st2))))"

definition parseAlternative :: "nat \<Rightarrow> penv \<Rightarrow> (pstate \<Rightarrow> node parse) \<Rightarrow> pstate \<Rightarrow> (node list) parse" where
  "parseAlternative levels e disjunction =
     p_while (\<lambda>st. \<not> p_atEnd e st \<and> p_peek e st 0 \<noteq> ch CHR ''|'' \<and> p_peek e st 0 \<noteq> ch CHR '')'')
       (\<lambda>terms st.
          case parseTerm levels e disjunction st of
            Inl why \<Rightarrow> Inl why
          | Inr (term, st1) \<Rightarrow> Inr (terms @ [term], st1))
       []"

primrec parseDisjunction :: "nat \<Rightarrow> penv \<Rightarrow> pstate \<Rightarrow> node parse" where
  "parseDisjunction 0 e st = p_fail NestedTooDeeply st"
| "parseDisjunction (Suc levels) e st =
     (case parseAlternative levels e (parseDisjunction levels e) st of
        Inl why \<Rightarrow> Inl why
      | Inr (alt, st1) \<Rightarrow>
          if p_peek e st1 0 \<noteq> ch CHR ''|'' then Inr (Sequence alt, st1)
          else
            (case p_while (\<lambda>st. eat e (ch CHR ''|'') st \<noteq> None)
                    (\<lambda>alts st. case parseAlternative levels e (parseDisjunction levels e) (skip_by 1 st) of
                       Inl why \<Rightarrow> Inl why
                     | Inr (alt, st1) \<Rightarrow> Inr (alts @ [alt], st1))
                    [alt] st1 of
               Inl why \<Rightarrow> Inl why
             | Inr (alts, st2) \<Rightarrow> Inr (Alternation alts, st2)))"

definition parse :: "penv \<Rightarrow> node parse" where
  "parse e =
     (case parseDisjunction parser_kMaxDepth e \<lparr>at = 0, captureCounter = 0\<rparr> of
        Inl why \<Rightarrow> Inl why
      | Inr (rt, st) \<Rightarrow> if at st < length (src e) then p_fail UnmatchedParenthesis st else Inr (rt, st))"

section \<open>The compiled pattern\<close>

datatype (plugins only: size code) compile_error = ParseError parse_error nat | CountsDisagree nat nat

text \<open>\<open>compile\<close>; \<open>tryCompile\<close> is what \<open>RegexJitPlan::tryCompile\<close> returns for the pattern.\<close>

definition compile :: "ucd \<Rightarrow> (node \<Rightarrow> Flags \<Rightarrow> jit_plan option) \<Rightarrow> nat list \<Rightarrow> Flags \<Rightarrow> compile_error + Pattern" where
  "compile u tryCompile source fl =
     (let info = prescanGroups source (unicodeSets fl)
      in case parse \<lparr>src = source, pflags = fl, groups = info, unicodeData = u\<rparr> of
           Inl (why, i) \<Rightarrow> Inl (ParseError why i)
         | Inr (rt, st) \<Rightarrow>
             if captureCounter st \<noteq> count info then Inl (CountsDisagree (count info) (captureCounter st))
             else
               Inr \<lparr>root = rt, pattern_flags = fl, groupCount = count info, groupNames = names info,
                    hasNamedGroups = list_ex (\<lambda>n. n \<noteq> []) (names info), jitPlan = tryCompile rt fl\<rparr>)"

definition groupName :: "Pattern \<Rightarrow> nat \<Rightarrow> string" where
  "groupName p index = (if index = 0 \<or> index > length (groupNames p) then [] else groupNames p ! (index - 1))"

end
