(* ===== verification/Regex_Scan.thy ===== *)
theory Regex_Scan
  imports Regex_Parser
begin

text \<open>
  What the readers of the parser consume: every loop ends, every error names an index of the pattern, and
  what lies between two positions of the parse holds the brackets, parentheses and backslashes that the
  pre-scan of the groups expects there. From this follows that the pre-scan and the parse count the same
  groups.
\<close>

section \<open>Loops\<close>

lemma p_while_unfold:
  "p_while going turn acc st =
     (if going st then (case turn acc st of Inl why \<Rightarrow> Inl why | Inr (acc1, st1) \<Rightarrow> p_while going turn acc1 st1)
      else Inr (acc, st))"
proof -
  have stop: "while (\<lambda>r. case r of Inl why \<Rightarrow> False | Inr (acc, st) \<Rightarrow> going st)
       (\<lambda>r. case r of Inl why \<Rightarrow> Inl why | Inr (acc, st) \<Rightarrow> turn acc st) (Inl why) = Inl why" for why
    by (subst while_unfold) simp
  show ?thesis
    unfolding p_while_def by (subst while_unfold) (auto simp: stop split: sum.split)
qed

text \<open>The rule for a loop whose turns move the cursor: an invariant for the states it passes, a bound for the
  errors.\<close>

lemma p_while_rule:
  assumes "I acc st"
    and "\<And>a s. I a s \<Longrightarrow> going s \<Longrightarrow> at s < n"
    and "\<And>a s why. I a s \<Longrightarrow> going s \<Longrightarrow> turn a s = Inl why \<Longrightarrow> E why"
    and "\<And>a s a' s'. I a s \<Longrightarrow> going s \<Longrightarrow> turn a s = Inr (a', s') \<Longrightarrow> I a' s' \<and> at s < at s'"
  shows "case p_while going turn acc st of Inl why \<Rightarrow> E why | Inr (a, s) \<Rightarrow> I a s \<and> \<not> going s"
  using assms(1)
proof (induction "n - at st" arbitrary: acc st rule: less_induct)
  case less
  show ?case
  proof (cases "going st")
    case True
    show ?thesis
    proof (cases "turn acc st")
      case (Inl why)
      then show ?thesis using assms(3) [OF less.prems True] True by (subst p_while_unfold) simp
    next
      case (Inr x)
      obtain a s where x: "x = (a, s)" by (cases x)
      then have "I a s" "at st < at s" using assms(4) [OF less.prems True] Inr by auto
      then show ?thesis
        using less.hyps [of s a] assms(2) [OF less.prems True] True Inr x by (subst p_while_unfold) simp
    qed
  qed (subst p_while_unfold, simp add: less.prems)
qed

text \<open>Such a loop ends: the iteration has a last state.\<close>

lemma p_while_ends:
  assumes "I acc st"
    and "\<And>a s. I a s \<Longrightarrow> going s \<Longrightarrow> at s < n"
    and "\<And>a s a' s'. I a s \<Longrightarrow> going s \<Longrightarrow> turn a s = Inr (a', s') \<Longrightarrow> I a' s' \<and> at s < at s'"
  shows "\<exists>r. while_option (\<lambda>r. case r of Inl why \<Rightarrow> False | Inr (acc, st) \<Rightarrow> going st)
       (\<lambda>r. case r of Inl why \<Rightarrow> Inl why | Inr (acc, st) \<Rightarrow> turn acc st) (Inr (acc, st)) = Some r"
  using assms(1)
proof (induction "n - at st" arbitrary: acc st rule: less_induct)
  case less
  show ?case
  proof (cases "going st")
    case True
    show ?thesis
    proof (cases "turn acc st")
      case (Inl why)
      then show ?thesis using True by (subst while_option_unfold, simp, subst while_option_unfold, simp)
    next
      case (Inr x)
      obtain a s where x: "x = (a, s)" by (cases x)
      then have "I a s" "at st < at s" using assms(3) [OF less.prems True] Inr by auto
      then show ?thesis
        using less.hyps [of s a] assms(2) [OF less.prems True] True Inr x by (subst while_option_unfold) simp
    qed
  qed (subst while_option_unfold, simp)
qed

section \<open>Sets\<close>

abbreviation ceiling_of :: "penv \<Rightarrow> nat" where
  "ceiling_of e \<equiv> alphabetCeiling (unicodeMode (pflags e))"

text \<open>Ranges of the alphabet, and the ones among them that are ready for the membership scan.\<close>

definition bounded :: "penv \<Rightarrow> RangeList \<Rightarrow> bool" where
  "bounded e rs \<longleftrightarrow> valid_ranges rs \<and> members rs \<subseteq> {..ceiling_of e}"

definition set_ok :: "penv \<Rightarrow> RangeList \<Rightarrow> bool" where
  "set_ok e rs \<longleftrightarrow> separated rs \<and> bounded e rs"

definition env_ok :: "penv \<Rightarrow> bool" where
  "env_ok e \<longleftrightarrow> (\<forall>u \<in> set (src e). u < 2 ^ 16) \<and> ucd_ok (unicodeData e)"

lemma ceiling_le: "ceiling_of e \<le> kMaxCodePoint" "kMaxUnit \<le> ceiling_of e"
  by (simp_all add: alphabetCeiling_def kMaxUnit_def kMaxCodePoint_def)

lemma bounded_simps [simp]:
  "bounded e []" "bounded e (rs @ qs) \<longleftrightarrow> bounded e rs \<and> bounded e qs"
  by (auto simp: bounded_def)

lemma bounded_range: "lo \<le> hi \<Longrightarrow> hi \<le> ceiling_of e \<Longrightarrow> bounded e rs \<Longrightarrow> bounded e (addRange rs lo hi)"
  using ceiling_le(1) [of e] by (auto simp: bounded_def addRange_def)

lemma set_ok_bounded: "set_ok e rs \<Longrightarrow> bounded e rs"
  by (simp add: set_ok_def)

lemma set_ok_normal: "normal rs \<Longrightarrow> members rs \<subseteq> {..ceiling_of e} \<Longrightarrow> set_ok e rs"
  by (simp add: normal_def set_ok_def bounded_def)

lemma members_le: "valid_ranges rs \<Longrightarrow> members rs \<subseteq> {..kMaxCodePoint}"
  by (force simp: valid_ranges_def members_def)

lemma set_ok_normalize: "bounded e rs \<Longrightarrow> set_ok e (normalizeRanges rs)"
  using normalizeRanges_normal [of rs] by (simp add: bounded_def set_ok_normal)

lemma set_ok_single: "c \<le> ceiling_of e \<Longrightarrow> set_ok e (addRange [] c c)"
  using bounded_range [of c c e "[]"] by (simp add: set_ok_def addRange_def)

lemma set_ok_empty [simp]: "set_ok e []"
  by (simp add: set_ok_def)

lemma set_ok_digits: "set_ok e makeDigits"
  using bounded_range [of "0x30" "0x39" e "[]"] ceiling_le(2) [of e] by (simp add: makeDigits_def set_ok_def addRange_def kMaxUnit_def)

lemma bounded_fold_ranges:
  "\<forall>r \<in> set rs. fst r \<le> snd r \<and> snd r \<le> ceiling_of e \<Longrightarrow> bounded e list \<Longrightarrow>
   bounded e (fold (\<lambda>r list. addRange list (fst r) (snd r)) rs list)"
  by (induction rs arbitrary: list) (auto intro: bounded_range)

lemma set_ok_spaces: "set_ok e makeSpaces"
  unfolding makeSpaces_def using ceiling_le(2) [of e]
  by (intro set_ok_normalize bounded_fold_ranges) (auto simp: kMaxUnit_def)

lemma bounded_words:
  "\<forall>c \<in> set cs. c \<le> ceiling_of e \<Longrightarrow> bounded e list \<Longrightarrow> bounded e (fold (consider_word tab ic uni) cs list)"
  by (induction cs arbitrary: list) (auto simp: consider_word_def intro: bounded_range)

lemma set_ok_basic_words: "set_ok e basic_words"
  unfolding basic_words_def using ceiling_le(2) [of e]
  by (intro set_ok_normalize bounded_fold_ranges) (auto simp: kMaxUnit_def)

lemma set_ok_words:
  assumes "env_ok e"
  shows "set_ok e (wordRanges (ptables e) ic (unicodeMode (pflags e)))"
proof -
  let ?u = "unicodeMode (pflags e)"
  have "\<forall>c \<in> set (if ?u then simpleCaseFoldSources (ptables e) else [0..<kMaxUnit + 1]). c \<le> ceiling_of e"
    using fold_table(4) [of "unicodeData e"] assms by (auto simp: env_ok_def ucd_tables_def alphabetCeiling_def simp del: upt_Suc)
  then have "set_ok e (makeWords (ptables e) ic ?u)"
    unfolding makeWords_def by (intro set_ok_normalize bounded_words set_ok_bounded [OF set_ok_basic_words])
  then show ?thesis by (cases ic; cases "unicodeMode (pflags e)") (simp_all add: wordRanges_def)
qed

text \<open>The set that \<open>MaybeSimpleCaseFolding\<close> gives, and the alphabet that a complement is taken over.\<close>

definition folded_set :: "penv \<Rightarrow> nat set \<Rightarrow> nat set" where
  "folded_set e S = (if ignoreCase (pflags e) then ucd_simpleCaseFold (unicodeData e) ` S else S)"

definition all_characters :: "penv \<Rightarrow> nat set" where
  "all_characters e =
     (if unicodeSets (pflags e) \<and> ignoreCase (pflags e) then {c. c \<le> kMaxCodePoint \<and> ucd_simpleCaseFold (unicodeData e) c = c}
      else {..ceiling_of e})"

lemma foldedForOperation_set:
  assumes "env_ok e" and "normal rs"
  shows "normal (foldedForOperation e rs)" and "members (foldedForOperation e rs) = folded_set e (members rs)"
proof -
  let ?u = "unicodeData e" let ?f = "ucd_simpleCaseFold ?u"
  define sources where "sources = filter (rangesContain rs) (ucd_simpleCaseFoldSources ?u)"
  have ucd: "ucd_ok ?u" using assms(1) by (simp add: env_ok_def)
  note ft = fold_table [OF ucd]
  have sources: "set sources = {c \<in> members rs. ?f c \<noteq> c}"
    using rangesContain_correct assms(2) ft(2) by (auto simp: sources_def normal_def)
  have valid: "valid_ranges rs" using assms(2) by (simp add: normal_def)
  have in_space: "\<forall>c \<in> set sources. c \<le> kMaxCodePoint" "\<forall>c \<in> set sources. ?f c \<le> kMaxCodePoint"
    using ft(1,4) by (auto simp: sources_def)
  have moved: "normal (normalizeRanges (fold (\<lambda>code list. addRange list code code) sources []))"
      "members (normalizeRanges (fold (\<lambda>code list. addRange list code code) sources [])) = set sources"
    using collect_codes [of sources id "[]"] normalizeRanges_normal in_space(1) by auto
  have arrived: "normal (normalizeRanges (fold (\<lambda>code list. addRange list (?f code) (?f code)) sources []))"
      "members (normalizeRanges (fold (\<lambda>code list. addRange list (?f code) (?f code)) sources [])) = ?f ` set sources"
    using collect_codes [of sources ?f "[]"] normalizeRanges_normal in_space(2) by auto
  let ?out = "subtractRanges rs (normalizeRanges (fold (\<lambda>code list. addRange list code code) sources [])) @
    normalizeRanges (fold (\<lambda>code list. addRange list (?f code) (?f code)) sources [])"
  have sub: "normal (subtractRanges rs (normalizeRanges (fold (\<lambda>code list. addRange list code code) sources [])))"
      "members (subtractRanges rs (normalizeRanges (fold (\<lambda>code list. addRange list code code) sources []))) = members rs - set sources"
    using subtractRanges_normal [OF valid] moved by (simp_all add: normal_def)
  have out: "valid_ranges ?out" "members ?out = ?f ` members rs"
  proof -
    have "members rs - set sources \<union> ?f ` set sources = ?f ` members rs"
      unfolding sources by (force simp: image_iff)
    then show "valid_ranges ?out" "members ?out = ?f ` members rs" using sub arrived by (simp_all add: normal_def)
  qed
  have empty: "fold (\<lambda>code list. addRange list code code) sources [] = [] \<longleftrightarrow> sources = []"
    using moved(2) by (cases sources) (auto simp: normalizeRanges_def)
  have fixed: "?f ` members rs = members rs" if "sources = []" using that sources by force
  have eq: "foldedForOperation e rs = (if \<not> ignoreCase (pflags e) \<or> sources = [] then rs else normalizeRanges ?out)"
    using empty by (simp add: foldedForOperation_def ucd_tables_def sources_def Let_def)
  show "normal (foldedForOperation e rs)" "members (foldedForOperation e rs) = folded_set e (members rs)"
    using normalizeRanges_normal [OF out(1)] out(2) assms(2) fixed unfolding eq folded_set_def by auto
qed

lemma complementInMode_set:
  assumes "env_ok e" and "set_ok e rs"
  shows "set_ok e (complementInMode e rs)"
    and "members (complementInMode e rs) = all_characters e - (if unicodeSets (pflags e) then folded_set e (members rs) else members rs)"
proof -
  have valid: "normal rs" "valid_ranges rs" using assms(2) by (simp_all add: set_ok_def bounded_def normal_def)
  note f = foldedForOperation_set [OF assms(1) valid(1)] and p = fixed_points_normal [of "unicodeData e"]
  have "normal (complementInMode e rs) \<and>
      members (complementInMode e rs) = all_characters e - (if unicodeSets (pflags e) then folded_set e (members rs) else members rs)"
    using subtractRanges_normal [of "simpleCaseFoldFixedPoints (ptables e)" "foldedForOperation e rs"] f p assms(1)
      complementRanges_normal [OF valid(2) ceiling_le(1) [of e]]
    by (simp add: complementInMode_def all_characters_def env_ok_def normal_def folded_set_def atLeast0AtMost)
  moreover have "all_characters e \<subseteq> {..ceiling_of e}"
    by (auto simp: all_characters_def alphabetCeiling_def unicodeMode_def)
  ultimately show "set_ok e (complementInMode e rs)"
    and "members (complementInMode e rs) = all_characters e - (if unicodeSets (pflags e) then folded_set e (members rs) else members rs)"
    by (auto intro!: set_ok_normal)
qed

section \<open>Reading without nesting\<close>

text \<open>A unit that the pre-scan passes wherever it stands.\<close>

definition quiet :: "nat \<Rightarrow> bool" where
  "quiet c \<longleftrightarrow> c \<notin> {ch CHR 0x5C, ch CHR ''['', ch CHR '']'', ch CHR ''(''}"

definition quiet_between :: "penv \<Rightarrow> nat \<Rightarrow> nat \<Rightarrow> bool" where
  "quiet_between e i j \<longleftrightarrow> (\<forall>k. i \<le> k \<longrightarrow> k < j \<longrightarrow> quiet (src e ! k))"

text \<open>The pre-scan from a position on, inside \<open>d\<close> brackets, and the stretches it passes unchanged.\<close>

definition prescan_from :: "penv \<Rightarrow> nat \<Rightarrow> nat \<Rightarrow> GroupInfo \<Rightarrow> GroupInfo" where
  "prescan_from e d i info = prescan_loop (unicodeSets (pflags e)) d (drop i (src e)) info"

definition passes :: "penv \<Rightarrow> nat \<Rightarrow> nat \<Rightarrow> bool" where
  "passes e i j \<longleftrightarrow> (\<forall>d info. prescan_from e d i info = prescan_from e d j info)"

lemma passes_refl [simp]: "passes e i i"
  by (simp add: passes_def)

lemma passes_trans [trans]: "passes e i j \<Longrightarrow> passes e j k \<Longrightarrow> passes e i k"
  by (simp add: passes_def)

lemma scan_step:
  assumes "i < length (src e)"
  shows "prescan_from e d i info =
     (let c = src e ! i; cs = drop (i + 1) (src e); sets = unicodeSets (pflags e)
      in if c = ch CHR 0x5C then prescan_from e d (i + 2) info
         else if d \<noteq> 0 then
           (let deeper = (if c = ch CHR ''['' \<and> sets then d + 1 else d) in prescan_from e (if c = ch CHR '']'' then deeper - 1 else deeper) (i + 1) info)
         else if c = ch CHR ''['' then prescan_from e 1 (i + 1) info
         else if c \<noteq> ch CHR ''('' then prescan_from e d (i + 1) info
         else if cs \<noteq> [] \<and> hd cs = ch CHR ''?'' then
           (if length cs > 2 \<and> cs ! 1 = ch CHR ''<'' \<and> cs ! 2 \<noteq> ch CHR ''='' \<and> cs ! 2 \<noteq> ch CHR ''!''
            then prescan_from e d (i + 1)
                   \<lparr>count = count info + 1, names = names info @ [asciiOf (takeWhile (\<lambda>c. c \<noteq> ch CHR ''>'') (drop 2 cs))]\<rparr>
            else prescan_from e d (i + 1) info)
         else prescan_from e d (i + 1) \<lparr>count = count info + 1, names = names info @ [[]]\<rparr>)"
proof -
  have "drop i (src e) = src e ! i # drop (i + 1) (src e)" using Cons_nth_drop_Suc [OF assms] by simp
  moreover have "drop 1 (drop (i + 1) (src e)) = drop (i + 2) (src e)" by (simp add: add.commute)
  ultimately show ?thesis
    unfolding prescan_from_def by (subst prescan_loop.simps) (simp only: list.case Let_def)
qed

lemma passes_quiet: "i < length (src e) \<Longrightarrow> quiet (src e ! i) \<Longrightarrow> passes e i (i + 1)"
  by (simp add: passes_def scan_step quiet_def Let_def)

lemma passes_escape: "i < length (src e) \<Longrightarrow> src e ! i = ch CHR 0x5C \<Longrightarrow> passes e i (i + 2)"
  by (simp add: passes_def scan_step Let_def)

text \<open>A result that moves the cursor inside the pattern, opens no group and, after the unit it starts at, reads
  what the pre-scan passes; an error names an index of the pattern.\<close>

definition flat :: "penv \<Rightarrow> ('a \<Rightarrow> bool) \<Rightarrow> pstate \<Rightarrow> 'a parse \<Rightarrow> bool" where
  "flat e V st r \<longleftrightarrow>
     (case r of
        Inl (why, i) \<Rightarrow> i \<le> length (src e)
      | Inr (v, st1) \<Rightarrow>
          V v \<and> at st < at st1 \<and> at st1 \<le> length (src e) \<and> captureCounter st1 = captureCounter st \<and>
          passes e (at st + 1) (at st1))"

lemma flat_simps [simp]:
  "flat e V st (Inl (why, i)) \<longleftrightarrow> i \<le> length (src e)"
  "flat e V st (p_fail what st1) \<longleftrightarrow> at st1 \<le> length (src e)"
  "flat e V st (Inr (v, st1)) \<longleftrightarrow>
     V v \<and> at st < at st1 \<and> at st1 \<le> length (src e) \<and> captureCounter st1 = captureCounter st \<and> passes e (at st + 1) (at st1)"
  by (auto simp: flat_def p_fail_def)

lemma skip_by_simps [simp]: "at (skip_by n st) = at st + n" "captureCounter (skip_by n st) = captureCounter st"
  by (simp_all add: skip_by_def)

lemma quiet_between_none [simp]: "j \<le> i \<Longrightarrow> quiet_between e i j"
  by (simp add: quiet_between_def)

lemma quiet_between_Suc: "quiet_between e i (Suc j) \<longleftrightarrow> quiet_between e i j \<and> (i \<le> j \<longrightarrow> quiet (src e ! j))"
  by (auto simp: quiet_between_def less_Suc_eq)

lemma quiet_between_trans: "quiet_between e i j \<Longrightarrow> quiet_between e j k \<Longrightarrow> quiet_between e i k"
  unfolding quiet_between_def by (metis leI)

lemma quiet_passes: "quiet_between e i j \<Longrightarrow> i \<le> j \<Longrightarrow> j \<le> length (src e) \<Longrightarrow> passes e i j"
proof (induction j)
  case (Suc j)
  show ?case
  proof (cases "i \<le> j")
    case True
    then have "passes e i j" "passes e j (j + 1)" using Suc passes_quiet [of j e] by (auto simp: quiet_between_Suc)
    then show ?thesis by (auto dest: passes_trans)
  qed (use Suc.prems in \<open>simp add: le_Suc_eq\<close>)
qed simp

lemma eatD:
  assumes "eat e c st = Some st1"
  shows "at st1 = at st + 1" "captureCounter st1 = captureCounter st" "at st < length (src e)" "src e ! at st = c" "st1 = skip_by 1 st"
  using assms by (auto simp: eat_def p_atEnd_def split: if_splits)

lemma eatTwoD:
  assumes "eatTwo e c st = Some st1"
  shows "at st + 2 \<le> length (src e)" "src e ! at st = c" "src e ! (at st + 1) = c" "st1 = skip_by 2 st"
  using assms by (auto simp: eatTwo_def split: if_splits)

lemma p_peek_at: "\<not> p_atEnd e st \<Longrightarrow> p_peek e st 0 = src e ! at st"
  by (simp add: p_peek_def p_atEnd_def)

lemma p_peekD: "p_peek e st k = c \<Longrightarrow> c \<noteq> 0 \<Longrightarrow> at st + k < length (src e) \<and> src e ! (at st + k) = c"
  by (auto simp: p_peek_def Let_def split: if_splits)

lemma skip_while_between:
  assumes "i \<le> length (src e)" and "\<And>c. P c \<Longrightarrow> quiet c"
  shows "i \<le> skip_while P (src e) i" "skip_while P (src e) i \<le> length (src e)" "quiet_between e i (skip_while P (src e) i)"
proof -
  let ?t = "takeWhile P (drop i (src e))"
  have le: "length ?t \<le> length (src e) - i" using length_takeWhile_le [of P "drop i (src e)"] by simp
  have "P (src e ! (i + k))" if "k < length ?t" for k
    using that le takeWhile_nth [OF that] nth_mem [OF that] set_takeWhileD [of "?t ! k" P "drop i (src e)"] assms(1)
    by (simp add: nth_drop)
  then have "P (src e ! k)" if "i \<le> k" "k < i + length ?t" for k using that by (metis le_add_diff_inverse nat_add_left_cancel_less)
  then show "i \<le> skip_while P (src e) i" "skip_while P (src e) i \<le> length (src e)" "quiet_between e i (skip_while P (src e) i)"
    using le assms by (auto simp: skip_while_def quiet_between_def)
qed

lemma quiet_letters:
  "isPropertyCharacter c \<Longrightarrow> quiet c" "isIdentifierPart c \<Longrightarrow> quiet c" "isDecimalDigit c \<Longrightarrow> quiet c"
  "hexDigitValue c \<noteq> None \<Longrightarrow> quiet c" "isLetter c \<Longrightarrow> quiet c"
  by (auto simp: isPropertyCharacter_def isIdentifierPart_def isIdentifierStart_def isLetter_def isDecimalDigit_def hexDigitValue_def
      quiet_def split: if_splits)

lemma quiet_numeral [simp]:
  "quiet (numeral n) \<longleftrightarrow> numeral n \<noteq> (0x5C :: nat) \<and> numeral n \<noteq> (0x5B :: nat) \<and> numeral n \<noteq> (0x5D :: nat) \<and> numeral n \<noteq> (0x28 :: nat)"
  by (simp add: quiet_def)

lemma readHex_quiet:
  assumes "readHex e i n = Some v"
  shows "i + n \<le> length (src e)" "quiet_between e i (i + n)" "v < 16 ^ n"
proof -
  let ?step = "\<lambda>d acc. case (acc, hexDigitValue d) of (Some v, Some digit) \<Rightarrow> Some (16 * v + digit) | _ \<Rightarrow> None"
  have none: "fold ?step ds None = None" for ds by (induction ds) auto
  have digits: "v < (a + 1) * 16 ^ length ds \<and> (\<forall>d \<in> set ds. hexDigitValue d \<noteq> None)" if "fold ?step ds (Some a) = Some v" for ds a v
    using that
  proof (induction ds arbitrary: a)
    case (Cons d ds)
    obtain digit where d: "hexDigitValue d = Some digit"
      using Cons.prems none by (cases "hexDigitValue d") auto
    then have "digit < 16" by (auto simp: hexDigitValue_def split: if_splits)
    then have "(16 * a + digit + 1) * 16 ^ length ds \<le> (16 * a + 16) * 16 ^ length ds" by (intro mult_right_mono) auto
    also have "\<dots> = (a + 1) * 16 ^ length (d # ds)" by (simp add: algebra_simps)
    finally have "(16 * a + digit + 1) * 16 ^ length ds \<le> (a + 1) * 16 ^ length (d # ds)" .
    moreover have "v < (16 * a + digit + 1) * 16 ^ length ds \<and> (\<forall>d \<in> set ds. hexDigitValue d \<noteq> None)"
      using Cons.IH [of "16 * a + digit"] Cons.prems d by simp
    ultimately show ?case using d by (auto intro: less_le_trans)
  qed simp
  have le: "i + n \<le> length (src e)" and f: "fold ?step (take n (drop i (src e))) (Some 0) = Some v"
    using assms by (auto simp: readHex_def split: if_splits)
  have "hexDigitValue (src e ! k) \<noteq> None" if "i \<le> k" "k < i + n" for k
  proof -
    have "take n (drop i (src e)) ! (k - i) = src e ! k" "k - i < length (take n (drop i (src e)))" using that le by auto
    then show ?thesis using digits [OF f] nth_mem by metis
  qed
  then show "i + n \<le> length (src e)" "quiet_between e i (i + n)" "v < 16 ^ n"
    using le digits [OF f] quiet_letters(4) by (auto simp: quiet_between_def)
qed

fun value_ok :: "penv \<Rightarrow> EscapeValue \<Rightarrow> bool" where
  "value_ok e (Code c) \<longleftrightarrow> c \<le> ceiling_of e"
| "value_ok e (CharSet rs) \<longleftrightarrow> set_ok e rs"

lemma unit_le: "env_ok e \<Longrightarrow> i < length (src e) \<Longrightarrow> src e ! i \<le> ceiling_of e"
proof -
  assume *: "env_ok e" "i < length (src e)"
  have "src e ! i < 2 ^ 16" using *(1) nth_mem [OF *(2)] unfolding env_ok_def by blast
  then have "src e ! i \<le> kMaxUnit" by (simp add: kMaxUnit_def)
  then show ?thesis using ceiling_le(2) by (rule le_trans)
qed

lemma property_text_between:
  assumes "property_text e st = (name, val, st1)" and "at st \<le> length (src e)"
  shows "at st \<le> at st1" "at st1 \<le> length (src e)" "captureCounter st1 = captureCounter st" "quiet_between e (at st) (at st1)"
proof -
  let ?j = "skip_while isPropertyCharacter (src e) (at st)"
  note first = skip_while_between [of "at st" e isPropertyCharacter, OF assms(2) quiet_letters(1)]
  have "at st \<le> at st1 \<and> at st1 \<le> length (src e) \<and> captureCounter st1 = captureCounter st \<and> quiet_between e (at st) (at st1)"
  proof (cases "eat e (ch CHR ''='') (st\<lparr>at := ?j\<rparr>)")
    case None
    then show ?thesis using assms(1) first by (auto simp: property_text_def Let_def)
  next
    case (Some st')
    note st' = eatD [OF Some]
    have "?j + 1 \<le> length (src e)" using st' by simp
    note second = skip_while_between [of "?j + 1" e isPropertyCharacter, OF this quiet_letters(1)]
    have "quiet_between e (at st) (?j + 1)" using first st' by (simp add: quiet_between_Suc)
    then have "quiet_between e (at st) (skip_while isPropertyCharacter (src e) (?j + 1))"
      using second(3) by (rule quiet_between_trans)
    then show ?thesis using assms(1) first second Some st' by (auto simp: property_text_def Let_def)
  qed
  then show "at st \<le> at st1" "at st1 \<le> length (src e)" "captureCounter st1 = captureCounter st" "quiet_between e (at st) (at st1)"
    by simp_all
qed

lemma readPropertyEscape_flat:
  assumes "env_ok e" and "at st < length (src e)"
  shows "flat e (value_ok e) st (readPropertyEscape e negated st)"
proof (cases "unicodeMode (pflags e)")
  case True
  have property: "set_ok e rs" if "unicodePropertySet (unicodeData e) name val = Inr rs" for name val rs
    using property_set_normal [OF _ that] members_le [of rs] assms(1) True
    by (intro set_ok_normal) (auto simp: env_ok_def normal_def alphabetCeiling_def)
  show ?thesis
  proof (cases "eat e (ch CHR ''{'') (skip_by 1 st)")
    case None
    then show ?thesis using True assms(2) by (simp add: readPropertyEscape_def)
  next
    case (Some st1)
    note st1 = eatD [OF Some]
    obtain name val st3 where t: "property_text e st1 = (name, val, st3)" by (cases "property_text e st1")
    note t' = property_text_between [OF t]
    show ?thesis
    proof (cases "eat e (ch CHR ''}'') st3")
      case None
      then show ?thesis using True Some t t' st1 by (simp add: readPropertyEscape_def)
    next
      case close: (Some st4)
      note st4 = eatD [OF close]
      have "quiet_between e (at st + 1) (at st4)"
      proof -
        have "quiet_between e (at st + 1) (at st1)" using st1 by (simp add: quiet_between_Suc)
        then have "quiet_between e (at st + 1) (at st3)" using t'(4) st1 by (auto intro: quiet_between_trans)
        then show ?thesis using st4 by (simp add: quiet_between_Suc)
      qed
      then have q: "passes e (at st + 1) (at st4)" using st1 st4 t' by (intro quiet_passes) auto
      show ?thesis
        using True Some t t' st1 close st4 q property complementInMode_set(1) [OF assms(1)]
        by (auto simp: readPropertyEscape_def split: sum.split)
    qed
  qed
qed (use assms in \<open>simp add: readPropertyEscape_def\<close>)

lemma combineSurrogates_le:
  assumes "isLeadSurrogate lead" and "isTrailSurrogate trail"
  shows "combineSurrogates lead trail \<le> kMaxCodePoint"
proof -
  have "lead - 0xD800 \<le> 0x3FF" "trail - 0xDC00 \<le> 0x3FF"
    using assms by (auto simp: isLeadSurrogate_def isTrailSurrogate_def)
  then have "(lead - 0xD800) * 2 ^ 10 + (trail - 0xDC00) \<le> 0x3FF * 2 ^ 10 + 0x3FF" by (intro add_mono mult_right_mono) auto
  then show ?thesis by (simp add: combineSurrogates_def kMaxCodePoint_def)
qed

lemma readUnicodeEscape_flat:
  assumes "at st < length (src e)"
  shows "flat e (value_ok e) st (readUnicodeEscape e st)"
proof (cases "at st + 1 < length (src e) \<and> src e ! (at st + 1) = ch CHR ''{''")
  case True
  let ?j = "skip_while (\<lambda>c. hexDigitValue c \<noteq> None) (src e) (at st + 2)"
  have le: "at st + 2 \<le> length (src e)" using True by simp
  note j = skip_while_between [of "at st + 2" e "\<lambda>c. hexDigitValue c \<noteq> None", OF le quiet_letters(4)]
  have "passes e (at st + 1) (?j + 1)" if "?j < length (src e)" "src e ! ?j = ch CHR ''}''"
  proof (rule quiet_passes)
    have "quiet_between e (at st + 1) (at st + 2)" using True by (simp add: quiet_between_Suc)
    then have "quiet_between e (at st + 1) ?j" using j(3) by (rule quiet_between_trans)
    then show "quiet_between e (at st + 1) (?j + 1)" using that by (simp add: quiet_between_Suc)
  qed (use that j(1) in simp_all)
  then show ?thesis
    using True le j(1,2) by (simp add: readUnicodeEscape_def Let_def alphabetCeiling_def)
next
  case False
  have places: "at (skip_by 5 st) = at st + 5" "at st + 5 + 1 = at st + 6" "at st + 5 + 2 = at st + 7" "skip_by 6 (skip_by 5 st) = skip_by 11 st"
    by (simp_all add: skip_by_def)
  have eq: "readUnicodeEscape e st =
        (case readHex e (at st + 1) 4 of
           None \<Rightarrow> p_fail UnicodeDigits st
         | Some v \<Rightarrow>
             if unicodeMode (pflags e) \<and> isLeadSurrogate v \<and> at st + 6 < length (src e) \<and>
                src e ! (at st + 5) = ch CHR 0x5C \<and> src e ! (at st + 6) = ch CHR ''u'' then
               (case readHex e (at st + 7) 4 of
                  Some trail \<Rightarrow>
                    if isTrailSurrogate trail then Inr (Code (combineSurrogates v trail), skip_by 11 st) else Inr (Code v, skip_by 5 st)
                | None \<Rightarrow> Inr (Code v, skip_by 5 st))
             else Inr (Code v, skip_by 5 st))"
    unfolding readUnicodeEscape_def if_not_P [OF False] Let_def places ..
  have single: "passes e (at st + 1) (at st + 5)" "at st + 5 \<le> length (src e)" "v \<le> ceiling_of e"
    if "readHex e (at st + 1) 4 = Some v" for v
    using readHex_quiet [OF that] quiet_passes [of e "at st + 1" "at st + 1 + 4"] ceiling_le(2) [of e]
    by (simp_all add: kMaxUnit_def add.commute)
  have pair: "passes e (at st + 1) (at st + 11)" "at st + 11 \<le> length (src e)" "combineSurrogates v trail \<le> ceiling_of e"
    if "readHex e (at st + 1) 4 = Some v" "unicodeMode (pflags e)" "isLeadSurrogate v" "src e ! (at st + 5) = ch CHR 0x5C"
      "readHex e (at st + 7) 4 = Some trail" "isTrailSurrogate trail" for v trail
  proof -
    note t = readHex_quiet [OF that(5)]
    have "passes e (at st + 5) (at st + 7)" using t(1) that(4) passes_escape [of "at st + 5" e] by (simp add: add.commute)
    moreover have "passes e (at st + 7) (at st + 11)"
      using t quiet_passes [of e "at st + 7" "at st + 7 + 4"] by (simp add: add.commute)
    ultimately show "passes e (at st + 1) (at st + 11)"
      using single(1) [OF that(1)] by (blast intro: passes_trans)
    show "at st + 11 \<le> length (src e)" using t by simp
    show "combineSurrogates v trail \<le> ceiling_of e"
      using combineSurrogates_le [OF that(3,6)] that(2) by (simp add: alphabetCeiling_def)
  qed
  show ?thesis
    using assms single pair unfolding eq by (auto split: option.split)
qed

text \<open>The escapes, from the unit after the backslash.\<close>

lemma readEscapeValue_flat:
  assumes "env_ok e" and "\<not> p_atEnd e st"
  shows "flat e (value_ok e) st (readEscapeValue e inClass st)"
proof -
  have lt: "at st < length (src e)" using assms(2) by (simp add: p_atEnd_def)
  have peek: "p_peek e st 0 \<le> ceiling_of e" using unit_le [OF assms(1) lt] p_peek_at [OF assms(2)] by simp
  have small: "c \<le> ceiling_of e" if "c \<le> 0xFFFF" for c using that ceiling_le(2) [of e] by (simp add: kMaxUnit_def)
  have control: "passes e (at st + 1) (at st + 2)" if "at st + 1 < length (src e)" "isLetter (src e ! (at st + 1))"
    using that passes_quiet [of "at st + 1" e] quiet_letters(5) by simp
  have hex: "passes e (at st + 1) (at st + 3)" "at st + 3 \<le> length (src e)" "v \<le> ceiling_of e"
    if "readHex e (at st + 1) 2 = Some v" for v
    using readHex_quiet [OF that] quiet_passes [of e "at st + 1" "at st + 1 + 2"] small [of v] by (simp_all add: numeral_3_eq_3)
  note sets = set_ok_digits [of e] set_ok_spaces [of e] set_ok_words [OF assms(1), of "ignoreCase (pflags e)"]
    complementInMode_set(1) [OF assms(1)] and nested = readPropertyEscape_flat [OF assms(1) lt] readUnicodeEscape_flat [OF lt]
  show ?thesis
    unfolding readEscapeValue_def Let_def
    using lt peek small sets nested control hex by (auto split: option.split)
qed

lemma readSourceCharacter_step:
  assumes "env_ok e" and "\<not> p_atEnd e st" and "readSourceCharacter e st = (code, st1)"
  shows "code \<le> ceiling_of e" "at st < at st1" "at st1 \<le> length (src e)" "captureCounter st1 = captureCounter st"
    "passes e (at st + 1) (at st1)"
proof -
  have lt: "at st < length (src e)" using assms(2) by (simp add: p_atEnd_def)
  have trail: "passes e (at st + 1) (at st + 2)" if "at st + 1 < length (src e)" "isTrailSurrogate (src e ! (at st + 1))"
    using that passes_quiet [of "at st + 1" e] by (auto simp: quiet_def isTrailSurrogate_def)
  have "code \<le> ceiling_of e \<and> at st < at st1 \<and> at st1 \<le> length (src e) \<and> captureCounter st1 = captureCounter st \<and>
    passes e (at st + 1) (at st1)"
    using assms(3) lt unit_le [OF assms(1) lt] trail combineSurrogates_le
    by (auto simp: readSourceCharacter_def codePointAt_def Let_def alphabetCeiling_def split: if_splits)
  then show "code \<le> ceiling_of e" "at st < at st1" "at st1 \<le> length (src e)" "captureCounter st1 = captureCounter st"
    "passes e (at st + 1) (at st1)" by simp_all
qed

section \<open>Reading inside a class\<close>

definition passes_in :: "penv \<Rightarrow> nat \<Rightarrow> nat \<Rightarrow> bool" where
  "passes_in e i j \<longleftrightarrow> (\<forall>d info. 0 < d \<longrightarrow> prescan_from e d i info = prescan_from e d j info)"

definition inside :: "penv \<Rightarrow> ('a \<Rightarrow> bool) \<Rightarrow> pstate \<Rightarrow> 'a parse \<Rightarrow> bool" where
  "inside e V st r \<longleftrightarrow>
     (case r of
        Inl (why, i) \<Rightarrow> i \<le> length (src e)
      | Inr (v, st1) \<Rightarrow>
          V v \<and> at st < at st1 \<and> at st1 \<le> length (src e) \<and> captureCounter st1 = captureCounter st \<and> passes_in e (at st) (at st1))"

lemma inside_simps [simp]:
  "inside e V st (Inl (why, i)) \<longleftrightarrow> i \<le> length (src e)"
  "inside e V st (p_fail what st1) \<longleftrightarrow> at st1 \<le> length (src e)"
  "inside e V st (Inr (v, st1)) \<longleftrightarrow>
     V v \<and> at st < at st1 \<and> at st1 \<le> length (src e) \<and> captureCounter st1 = captureCounter st \<and> passes_in e (at st) (at st1)"
  by (auto simp: inside_def p_fail_def)

lemma passes_in_refl [simp]: "passes_in e i i"
  by (simp add: passes_in_def)

lemma passes_in_trans [trans]: "passes_in e i j \<Longrightarrow> passes_in e j k \<Longrightarrow> passes_in e i k"
  by (simp add: passes_in_def)

lemma passes_passes_in: "passes e i j \<Longrightarrow> passes_in e i j"
  by (simp add: passes_def passes_in_def)

lemma passes_in_unit:
  "i < length (src e) \<Longrightarrow> src e ! i \<noteq> ch CHR 0x5C \<Longrightarrow> src e ! i \<noteq> ch CHR '']'' \<Longrightarrow>
   (unicodeSets (pflags e) \<Longrightarrow> src e ! i \<noteq> ch CHR ''['') \<Longrightarrow> passes_in e i (i + 1)"
  by (auto simp: passes_in_def scan_step Let_def)

text \<open>The same for a loop, which may stop at once.\<close>

definition onward :: "penv \<Rightarrow> ('a \<Rightarrow> bool) \<Rightarrow> pstate \<Rightarrow> 'a parse \<Rightarrow> bool" where
  "onward e V st r \<longleftrightarrow>
     (case r of
        Inl (why, i) \<Rightarrow> i \<le> length (src e)
      | Inr (v, st1) \<Rightarrow>
          V v \<and> at st \<le> at st1 \<and> at st1 \<le> length (src e) \<and> captureCounter st1 = captureCounter st \<and> passes_in e (at st) (at st1))"

lemma onward_simps [simp]:
  "onward e V st (Inl (why, i)) \<longleftrightarrow> i \<le> length (src e)"
  "onward e V st (p_fail what st1) \<longleftrightarrow> at st1 \<le> length (src e)"
  "onward e V st (Inr (v, st1)) \<longleftrightarrow>
     V v \<and> at st \<le> at st1 \<and> at st1 \<le> length (src e) \<and> captureCounter st1 = captureCounter st \<and> passes_in e (at st) (at st1)"
  by (auto simp: onward_def p_fail_def)

lemma inside_onward: "inside e V st r \<Longrightarrow> onward e V st r"
  by (auto simp: inside_def onward_def split: sum.splits)

lemma onward_loop:
  assumes "V acc" and "at st \<le> length (src e)" and "\<And>s. going s \<Longrightarrow> at s < length (src e)"
    and "\<And>a s. V a \<Longrightarrow> going s \<Longrightarrow> inside e V s (turn a s)"
  shows "onward e V st (p_while going turn acc st)" and "p_while going turn acc st = Inr (a, s) \<Longrightarrow> \<not> going s"
proof -
  let ?I = "\<lambda>a s. V a \<and> at st \<le> at s \<and> at s \<le> length (src e) \<and> captureCounter s = captureCounter st \<and> passes_in e (at st) (at s)"
  have "case p_while going turn acc st of Inl why \<Rightarrow> snd why \<le> length (src e) | Inr (a, s) \<Rightarrow> ?I a s \<and> \<not> going s"
  proof (rule p_while_rule [where n = "length (src e)"])
    fix a s why assume "?I a s" "going s" "turn a s = Inl why"
    then show "snd why \<le> length (src e)" using assms(4) [of a s] by (cases why) auto
  next
    fix a s a' s' assume "?I a s" "going s" "turn a s = Inr (a', s')"
    then show "?I a' s' \<and> at s < at s'" using assms(4) [of a s] by (auto intro: passes_in_trans)
  qed (use assms in auto)
  then show "onward e V st (p_while going turn acc st)" and "p_while going turn acc st = Inr (a, s) \<Longrightarrow> \<not> going s"
    by (auto simp: onward_def split: sum.splits)
qed

text \<open>A reading that goes on where another one has stopped.\<close>

lemma inside_from:
  assumes "inside e V st1 r" and "at st \<le> at st1" and "captureCounter st1 = captureCounter st" and "passes_in e (at st) (at st1)"
  shows "inside e V st r"
  using assms by (auto simp: inside_def split: sum.splits intro: passes_in_trans)

lemma inside_mono: "inside e V st r \<Longrightarrow> (\<And>v. V v \<Longrightarrow> W v) \<Longrightarrow> inside e W st r"
  by (auto simp: inside_def split: sum.splits)

lemma inside_escape:
  assumes "flat e V (skip_by 1 st) r" and "\<not> p_atEnd e st" and "src e ! at st = ch CHR 0x5C"
  shows "inside e V st r"
proof -
  have "passes e (at st) (at st + 2)" using assms by (intro passes_escape) (auto simp: p_atEnd_def)
  then show ?thesis
    using assms(1) by (auto simp: flat_def inside_def split: sum.splits dest: passes_trans passes_passes_in)
qed

lemma readSourceCharacter_inside:
  assumes "env_ok e" and "\<not> p_atEnd e st" and "src e ! at st \<noteq> ch CHR 0x5C" and "src e ! at st \<noteq> ch CHR '']''"
    and "unicodeSets (pflags e) \<Longrightarrow> src e ! at st \<noteq> ch CHR ''[''"
  shows "inside e (\<lambda>c. c \<le> ceiling_of e) st (Inr (readSourceCharacter e st))"
proof -
  obtain code st1 where r: "readSourceCharacter e st = (code, st1)" by (cases "readSourceCharacter e st")
  have "passes_in e (at st) (at st + 1)" using assms by (intro passes_in_unit) (auto simp: p_atEnd_def)
  then show ?thesis
    using readSourceCharacter_step [OF assms(1,2) r] r by (auto dest: passes_passes_in intro: passes_in_trans)
qed

subsection \<open>Without \<open>v\<close>\<close>

lemma readClassAtom_inside:
  assumes "env_ok e" and "\<not> unicodeSets (pflags e)" and "\<not> p_atEnd e st" and "src e ! at st \<noteq> ch CHR '']''"
  shows "inside e (value_ok e) st (readClassAtom e st)"
proof (cases "p_peek e st 0 = ch CHR 0x5C")
  case True
  then have "src e ! at st = ch CHR 0x5C" using p_peek_at [OF assms(3)] by simp
  then show ?thesis
    using True assms(3) inside_escape [OF readEscapeValue_flat [OF assms(1)] assms(3)]
    by (auto simp: readClassAtom_def Let_def p_atEnd_def)
next
  case False
  then show ?thesis
    using readSourceCharacter_inside [OF assms(1,3)] assms p_peek_at [OF assms(3)] by (auto simp: readClassAtom_def split: prod.split)
qed

lemma class_turn_inside:
  assumes "env_ok e" and "\<not> unicodeSets (pflags e)" and "\<not> p_atEnd e st" and "src e ! at st \<noteq> ch CHR '']''" and "bounded e ranges"
  shows "inside e (bounded e) st (class_turn e ranges st)"
proof (cases "readClassAtom e st")
  case (Inl why)
  then show ?thesis using readClassAtom_inside [OF assms(1-4)] by (cases why) (simp add: class_turn_def)
next
  case (Inr x)
  obtain lhs st1 where x: "x = (lhs, st1)" by (cases x)
  have first: "value_ok e lhs" "at st < at st1" "at st1 \<le> length (src e)" "captureCounter st1 = captureCounter st" "passes_in e (at st) (at st1)"
    using readClassAtom_inside [OF assms(1-4)] Inr x by simp_all
  show ?thesis
  proof (cases lhs)
    case (CharSet rs)
    then show ?thesis using first Inr x assms(5) set_ok_bounded by (simp add: class_turn_def)
  next
    case (Code lo)
    show ?thesis
    proof (cases "p_peek e st1 0 = ch CHR ''-'' \<and> at st1 + 1 < length (src e) \<and> src e ! (at st1 + 1) \<noteq> ch CHR '']''")
      case True
      then have dash: "src e ! at st1 = ch CHR ''-''" using p_peekD [of e st1 0] by simp
      have "passes_in e (at st1) (at st1 + 1)" using True dash by (intro passes_in_unit) auto
      then have to_dash: "passes_in e (at st) (at st1 + 1)" using first(5) by (blast intro: passes_in_trans)
      have "inside e (value_ok e) (skip_by 1 st1) (readClassAtom e (skip_by 1 st1))"
        using True by (intro readClassAtom_inside [OF assms(1,2)]) (auto simp: p_atEnd_def)
      then have second: "inside e (value_ok e) st (readClassAtom e (skip_by 1 st1))"
        by (rule inside_from) (use first to_dash in simp_all)
      have eq: "class_turn e ranges st =
          (case readClassAtom e (skip_by 1 st1) of
             Inl why \<Rightarrow> Inl why
           | Inr (CharSet rs, st2) \<Rightarrow> p_fail SetAsRangeEnd st2
           | Inr (Code hi, st2) \<Rightarrow>
               if lo > hi then p_fail RangeReversed st2
               else
                 (case (if upper_mode e then firstUnknownCasedUnitInRange lo hi else None) of
                    Some offender \<Rightarrow> caseTableFailure offender st2
                  | None \<Rightarrow> Inr (addRange ranges lo hi, st2)))"
        unfolding class_turn_def Inr x Code sum.case prod.case EscapeValue.case if_P [OF True] ..
      show ?thesis
      proof (cases "readClassAtom e (skip_by 1 st1)")
        case (Inl why)
        then show ?thesis using second by (cases why) (simp add: eq)
      next
        case last: (Inr y)
        obtain rhs st2 where y: "y = (rhs, st2)" by (cases y)
        show ?thesis
        proof (cases rhs)
          case hi: (Code hi)
          have "bounded e (addRange ranges lo hi)" if "lo \<le> hi"
            using bounded_range [OF that _ assms(5)] second last y hi by simp
          then show ?thesis using second last y hi by (simp add: eq caseTableFailure_def split: option.split)
        qed (use second last y in \<open>simp add: eq\<close>)
      qed
    next
      case False
      have "bounded e (addRange ranges lo lo)" using first(1) Code bounded_range [OF _ _ assms(5)] by simp
      then show ?thesis
        using first unfolding class_turn_def Inr x Code sum.case prod.case EscapeValue.case if_not_P [OF False]
        by (simp add: caseTableFailure_def)
    qed
  qed
qed

text \<open>Where the pre-scan enters and leaves a class.\<close>

lemma scan_open:
  "i < length (src e) \<Longrightarrow> src e ! i = ch CHR ''['' \<Longrightarrow> d = 0 \<or> unicodeSets (pflags e) \<Longrightarrow>
   prescan_from e d i info = prescan_from e (d + 1) (i + 1) info"
  by (auto simp: scan_step Let_def)

lemma scan_close:
  "i < length (src e) \<Longrightarrow> src e ! i = ch CHR '']'' \<Longrightarrow> prescan_from e (d + 1) i info = prescan_from e d (i + 1) info"
  by (simp add: scan_step Let_def)

lemma scan_class:
  assumes "src e ! i = ch CHR ''[''" and "passes_in e (i + 1) j" and "i < j" and "j < length (src e)" and "src e ! j = ch CHR '']''"
    and "d = 0 \<or> unicodeSets (pflags e)"
  shows "prescan_from e d i info = prescan_from e d (j + 1) info"
  using scan_open [of i e d info] scan_close [of j e d info] assms by (auto simp: passes_in_def)

text \<open>The optional \<open>^\<close>.\<close>

lemma eat_optional:
  assumes "(case eat e (ch CHR ''^'') st of Some st' \<Rightarrow> (True, st') | None \<Rightarrow> (False, st)) = (negated, st1)" and "at st \<le> length (src e)"
  shows "at st \<le> at st1" "at st1 \<le> length (src e)" "captureCounter st1 = captureCounter st" "passes_in e (at st) (at st1)"
proof -
  have "at st \<le> at st1 \<and> at st1 \<le> length (src e) \<and> captureCounter st1 = captureCounter st \<and> passes_in e (at st) (at st1)"
  proof (cases "eat e (ch CHR ''^'') st")
    case (Some st')
    note d = eatD [OF Some]
    have "passes_in e (at st) (at st + 1)" using d by (intro passes_in_unit) auto
    then show ?thesis using assms Some d(1-4) by auto
  qed (use assms in simp)
  then show "at st \<le> at st1" "at st1 \<le> length (src e)" "captureCounter st1 = captureCounter st" "passes_in e (at st) (at st1)"
    by simp_all
qed

text \<open>A class of ranges is closed by the bracket the pre-scan closes it with.\<close>

lemma parseClassRanges_reads:
  assumes "env_ok e" and "\<not> unicodeSets (pflags e)" and "at st < length (src e)" and "src e ! at st = ch CHR ''[''"
  shows "case parseClassRanges e st of
           Inl (why, i) \<Rightarrow> i \<le> length (src e)
         | Inr (n, st1) \<Rightarrow>
             (\<exists>rs negated. n = Class rs negated [] False \<and> set_ok e rs) \<and> at st < at st1 \<and> at st1 \<le> length (src e) \<and>
             captureCounter st1 = captureCounter st \<and> (\<forall>info. prescan_from e 0 (at st) info = prescan_from e 0 (at st1) info)"
proof -
  let ?going = "\<lambda>st. \<not> p_atEnd e st \<and> p_peek e st 0 \<noteq> ch CHR '']''"
  obtain negated st2 where st2: "(case eat e (ch CHR ''^'') (skip_by 1 st) of Some st' \<Rightarrow> (True, st') | None \<Rightarrow> (False, skip_by 1 st)) = (negated, st2)"
    by force
  note caret = eat_optional [OF st2]
  have loop: "onward e (bounded e) st2 (p_while ?going (class_turn e) [] st2)"
  proof (rule onward_loop(1))
    show "inside e (bounded e) s (class_turn e a s)" if "bounded e a" "?going s" for a s
      using that p_peek_at [of e s] by (intro class_turn_inside [OF assms(1,2)]) auto
  qed (use caret assms(3) in \<open>auto simp: p_atEnd_def\<close>)
  have eq: "parseClassRanges e st =
      (case p_while ?going (class_turn e) [] st2 of
         Inl why \<Rightarrow> Inl why
       | Inr (ranges, st3) \<Rightarrow>
           (case eat e (ch CHR '']'') st3 of
              None \<Rightarrow> p_fail ClassEnd st3
            | Some st4 \<Rightarrow> Inr (Class (normalizeRanges ranges) negated [] False, st4)))"
    unfolding parseClassRanges_def Let_def st2 prod.case ..
  show ?thesis
  proof (cases "p_while ?going (class_turn e) [] st2")
    case (Inl why)
    then show ?thesis using loop by (cases why) (simp add: eq)
  next
    case (Inr x)
    obtain ranges st3 where x: "x = (ranges, st3)" by (cases x)
    have r: "bounded e ranges" "at st2 \<le> at st3" "at st3 \<le> length (src e)" "captureCounter st3 = captureCounter st2" "passes_in e (at st2) (at st3)"
      using loop Inr x by auto
    show ?thesis
    proof (cases "eat e (ch CHR '']'') st3")
      case None
      then show ?thesis using Inr x r by (simp add: eq p_fail_def)
    next
      case (Some st4)
      have "passes_in e (at st + 1) (at st3)" using caret(4) r(5) assms(3) by (auto intro: passes_in_trans)
      then have "prescan_from e 0 (at st) info = prescan_from e 0 (at st3 + 1) info" for info
        using eatD(1-4) [OF Some] caret r assms(3,4) by (intro scan_class) auto
      then show ?thesis
        using Some eatD(1-4) [OF Some] Inr x r caret assms(3) set_ok_normalize [OF r(1)] by (auto simp: eq)
    qed
  qed
qed

subsection \<open>With \<open>v\<close>\<close>

lemma readClassSetCharacter_inside:
  assumes "env_ok e" and "at st \<le> length (src e)"
  shows "inside e (\<lambda>c. c \<le> ceiling_of e) st (readClassSetCharacter e st)"
proof (cases "p_atEnd e st \<or> isClassSetSyntaxCharacter (p_peek e st 0)")
  case True
  then show ?thesis using assms(2) by (auto simp: readClassSetCharacter_def Let_def)
next
  case False
  then have "inside e (\<lambda>c. c \<le> ceiling_of e) st (Inr (readSourceCharacter e st))"
    using p_peek_at [of e st] by (intro readSourceCharacter_inside [OF assms(1)]) (auto simp: isClassSetSyntaxCharacter_def)
  then show ?thesis using False assms(2) by (simp add: readClassSetCharacter_def Let_def)
qed

lemma read_single_inside:
  assumes "env_ok e" and "at st \<le> length (src e)"
  shows "inside e (\<lambda>c. c \<le> ceiling_of e) st (read_single e what st)"
proof (cases "p_peek e st 0 = ch CHR 0x5C")
  case True
  then have "at st < length (src e)" "src e ! at st = ch CHR 0x5C" using p_peekD [OF True] by simp_all
  then have esc: "inside e (value_ok e) st (readEscapeValue e True (skip_by 1 st))" if "\<not> p_atEnd e (skip_by 1 st)"
    using inside_escape [OF readEscapeValue_flat [OF assms(1) that]] by (simp add: p_atEnd_def)
  show ?thesis
  proof (cases "p_atEnd e (skip_by 1 st)")
    case End: True
    then show ?thesis using True \<open>at st < length (src e)\<close> by (simp add: read_single_def Let_def)
  next
    case False
    show ?thesis
    proof (cases "readEscapeValue e True (skip_by 1 st)")
      case (Inl why)
      then show ?thesis using True False esc by (cases why) (simp add: read_single_def Let_def)
    next
      case (Inr x)
      then show ?thesis using True False esc by (cases x; cases "fst x") (auto simp: read_single_def Let_def)
    qed
  qed
next
  case False
  then show ?thesis using readClassSetCharacter_inside [OF assms] by (simp add: read_single_def)
qed

text \<open>The strings of a class: two characters or more each, and only where the syntax says that there may be some.\<close>

definition strings_ok :: "penv \<Rightarrow> ClassSetValue \<Rightarrow> bool" where
  "strings_ok e v \<longleftrightarrow>
     (\<forall>s \<in> set (set_strings v). 2 \<le> length s \<and> (\<forall>c \<in> set s. c \<le> ceiling_of e)) \<and>
     (set_strings v \<noteq> [] \<or> set_empty v \<longrightarrow> mayContainStrings v)"

definition partial_ok :: "penv \<Rightarrow> ClassSetValue \<Rightarrow> bool" where
  "partial_ok e v \<longleftrightarrow> bounded e (set_ranges v) \<and> strings_ok e v"

definition class_ok :: "penv \<Rightarrow> ClassSetValue \<Rightarrow> bool" where
  "class_ok e v \<longleftrightarrow> set_ok e (set_ranges v) \<and> strings_ok e v"

lemma class_ok_partial: "class_ok e v \<Longrightarrow> partial_ok e v"
  by (simp add: class_ok_def partial_ok_def set_ok_def)

lemma class_ok_normalize: "partial_ok e v \<Longrightarrow> class_ok e (v\<lparr>set_ranges := normalizeRanges (set_ranges v)\<rparr>)"
  by (simp add: class_ok_def partial_ok_def strings_ok_def set_ok_normalize)

lemma class_ok_ranges: "set_ok e rs \<Longrightarrow> class_ok e (noMembers\<lparr>set_ranges := rs\<rparr>)"
  by (simp add: class_ok_def strings_ok_def noMembers_def)

lemma class_ok_empty: "class_ok e noMembers"
  by (simp add: class_ok_def strings_ok_def noMembers_def)

lemma class_string_onward:
  assumes "env_ok e" and "at st \<le> length (src e)"
  shows "onward e (\<lambda>s. \<forall>c \<in> set s. c \<le> ceiling_of e) st (class_string e st)"
  unfolding class_string_def
proof (rule onward_loop(1))
  fix a s assume a: "\<forall>c \<in> set a. c \<le> ceiling_of e" and s: "\<not> p_atEnd e s \<and> p_peek e s 0 \<noteq> ch CHR ''|'' \<and> p_peek e s 0 \<noteq> ch CHR ''}''"
  have "inside e (\<lambda>c. c \<le> ceiling_of e) s (read_single e SetInString s)"
    using s by (intro read_single_inside [OF assms(1)]) (simp add: p_atEnd_def)
  then show "inside e (\<lambda>s. \<forall>c \<in> set s. c \<le> ceiling_of e) s
      (case read_single e SetInString s of Inl why \<Rightarrow> Inl why | Inr (c, st1) \<Rightarrow> Inr (a @ [c], st1))"
    using a by (cases "read_single e SetInString s") auto
qed (use assms in \<open>auto simp: p_atEnd_def\<close>)

lemma add_alternative_ok:
  assumes "partial_ok e out" and "\<forall>c \<in> set s. c \<le> ceiling_of e"
  shows "partial_ok e (add_alternative s out)"
proof (cases "length s = 1")
  case True
  then obtain c where "s = [c]" by (metis One_nat_def length_0_conv length_Suc_conv)
  then show ?thesis using assms by (auto simp: add_alternative_def partial_ok_def strings_ok_def intro: bounded_range)
next
  case False
  then have "s = [] \<or> 2 \<le> length s" by (cases s) (auto simp: Suc_le_eq)
  then show ?thesis using assms False by (auto simp: add_alternative_def partial_ok_def strings_ok_def addString_def)
qed

lemma string_turn_onward:
  assumes "env_ok e" and "at st \<le> length (src e)" and "partial_ok e out"
  shows "onward e (partial_ok e) st (string_turn e out st)"
  using class_string_onward [OF assms(1,2)] add_alternative_ok [OF assms(3)]
  by (cases "class_string e st") (auto simp: string_turn_def)

text \<open>A reading after a unit that the pre-scan passes inside a class.\<close>

lemma inside_after:
  assumes "onward e V (skip_by n st) r" and "0 < n" and "passes_in e (at st) (at st + n)"
  shows "inside e V st r"
  using assms by (auto simp: onward_def inside_def split: sum.splits intro: passes_in_trans)

lemma class_strings_onward:
  assumes "env_ok e" and "at st \<le> length (src e)"
  shows "onward e (partial_ok e) st (class_strings e st)"
proof -
  let ?loop = "p_while (\<lambda>st. eat e (ch CHR ''|'') st \<noteq> None) (\<lambda>out st. string_turn e out (skip_by 1 st))"
  have first: "onward e (partial_ok e) st (string_turn e noMembers st)"
    using assms class_ok_partial [OF class_ok_empty] by (intro string_turn_onward)
  show ?thesis
  proof (cases "string_turn e noMembers st")
    case (Inl why)
    then show ?thesis using first by (cases why) (simp add: class_strings_def)
  next
    case (Inr x)
    obtain out st1 where x: "x = (out, st1)" by (cases x)
    have loop: "onward e (partial_ok e) st1 (?loop out st1)"
    proof (rule onward_loop(1))
      fix a s assume a: "partial_ok e a" and s: "eat e (ch CHR ''|'') s \<noteq> None"
      then obtain s' where s': "eat e (ch CHR ''|'') s = Some s'" by auto
      note d = eatD(1-4) [OF s']
      have "passes_in e (at s) (at s + 1)" using d by (intro passes_in_unit) auto
      then show "inside e (partial_ok e) s (string_turn e a (skip_by 1 s))"
        using d a by (intro inside_after [where n = 1] string_turn_onward [OF assms(1)]) auto
    qed (use first Inr x in \<open>auto simp: eat_def p_atEnd_def split: if_splits\<close>)
    show ?thesis
    proof (cases "?loop out st1")
      case l: (Inl why)
      then show ?thesis using loop Inr x by (cases why) (simp add: class_strings_def)
    next
      case r: (Inr y)
      obtain out' st2 where y: "y = (out', st2)" by (cases y)
      show ?thesis
      proof (cases "eat e (ch CHR ''}'') st2")
        case None
        then show ?thesis using loop Inr x r y by (simp add: class_strings_def)
      next
        case (Some st3)
        note d = eatD(1-4) [OF Some]
        have "passes_in e (at st2) (at st2 + 1)" using d by (intro passes_in_unit) auto
        moreover have "passes_in e (at st) (at st1)" "passes_in e (at st1) (at st2)" using first loop Inr x r y by simp_all
        ultimately have "passes_in e (at st) (at st3)" unfolding d(1) by (blast intro: passes_in_trans)
        then show ?thesis using first loop Inr x r y Some d by (simp add: class_strings_def)
      qed
    qed
  qed
qed

lemma inside_then:
  assumes "inside e U st (Inr (u, st1))" and "onward e V st1 r"
  shows "inside e V st r"
  using assms by (auto simp: onward_def inside_def split: sum.splits intro: passes_in_trans)

lemma onward_then:
  assumes "onward e U st (Inr (u, st1))" and "onward e V st1 r"
  shows "onward e V st r"
  using assms by (auto simp: onward_def split: sum.splits intro: passes_in_trans)

lemma eat_inside:
  assumes "eat e c st = Some st1" and "c \<noteq> ch CHR 0x5C" and "c \<noteq> ch CHR '']''" and "c \<noteq> ch CHR ''[''"
  shows "inside e (\<lambda>_. True) st (Inr ((), st1))"
  using eatD(1-4) [OF assms(1)] passes_in_unit [of "at st" e] assms(2-4) by simp

lemma readClassStringDisjunction_inside:
  assumes "env_ok e" and "at st \<le> length (src e)"
  shows "inside e (class_ok e) st (readClassStringDisjunction e st)"
proof (cases "eat e (ch CHR ''{'') st")
  case None
  then show ?thesis using assms(2) by (simp add: readClassStringDisjunction_def)
next
  case (Some st1)
  have brace: "inside e (\<lambda>_. True) st (Inr ((), st1))" by (rule eat_inside [OF Some]) simp_all
  have strings: "onward e (partial_ok e) st1 (class_strings e st1)"
    using brace by (intro class_strings_onward [OF assms(1)]) auto
  show ?thesis
  proof (cases "class_strings e st1")
    case (Inl why)
    then show ?thesis using strings Some by (cases why) (simp add: readClassStringDisjunction_def)
  next
    case (Inr x)
    obtain out st2 where x: "x = (out, st2)" by (cases x)
    have "inside e (partial_ok e) st (Inr (out, st2))"
      by (rule inside_then [OF brace]) (use strings Inr x in simp)
    then show ?thesis using Some Inr x class_ok_normalize [of e out] by (simp add: readClassStringDisjunction_def Let_def)
  qed
qed

definition operand_ok :: "penv \<Rightarrow> ClassSetValue \<times> nat option \<Rightarrow> bool" where
  "operand_ok e x \<longleftrightarrow> class_ok e (fst x) \<and> (\<forall>c. snd x = Some c \<longrightarrow> c \<le> ceiling_of e)"

text \<open>What the operands rely on: the nested call reads a class from its bracket on.\<close>

definition nested_ok :: "penv \<Rightarrow> (pstate \<Rightarrow> ClassSetValue parse) \<Rightarrow> bool" where
  "nested_ok e nested \<longleftrightarrow>
     (\<forall>st. at st < length (src e) \<longrightarrow> src e ! at st = ch CHR ''['' \<longrightarrow> inside e (class_ok e) st (nested st))"

lemma inside_map:
  assumes "inside e V st r" and "\<And>v. V v \<Longrightarrow> W (f v)"
  shows "inside e W st (case r of Inl why \<Rightarrow> Inl why | Inr (v, st1) \<Rightarrow> Inr (f v, st1))"
  using assms by (auto simp: inside_def split: sum.splits)

lemma operand_of_code: "c \<le> ceiling_of e \<Longrightarrow> operand_ok e (noMembers\<lparr>set_ranges := addRange [] c c\<rparr>, Some c)"
  by (simp add: operand_ok_def class_ok_ranges set_ok_single)

lemma readClassSetOperand_inside:
  assumes "env_ok e" and "nested_ok e nested" and "at st \<le> length (src e)"
  shows "inside e (operand_ok e) st (readClassSetOperand e nested st)"
proof (cases "p_atEnd e st")
  case True
  then show ?thesis using assms(3) by (simp add: readClassSetOperand_def)
next
  case False
  then have lt: "at st < length (src e)" by (simp add: p_atEnd_def)
  note peek = p_peek_at [OF False]
  consider (bracket) "p_peek e st 0 = ch CHR ''[''" | (quoted) "p_peek e st 0 = ch CHR 0x5C" "p_peek e st 1 = ch CHR ''q''"
    | (escape) "p_peek e st 0 = ch CHR 0x5C" "p_peek e st 1 \<noteq> ch CHR ''q''" | (plain) "p_peek e st 0 \<noteq> ch CHR ''[''" "p_peek e st 0 \<noteq> ch CHR 0x5C"
    by blast
  then show ?thesis
  proof cases
    case bracket
    then have "inside e (class_ok e) st (nested st)" using assms(2) lt peek by (simp add: nested_ok_def)
    then have "inside e (operand_ok e) st (case nested st of Inl why \<Rightarrow> Inl why | Inr (out, st1) \<Rightarrow> Inr ((out, None), st1))"
      by (rule inside_map) (simp add: operand_ok_def)
    then show ?thesis using bracket False by (simp add: readClassSetOperand_def)
  next
    case quoted
    have two: "at st + 2 \<le> length (src e)" using p_peekD [OF quoted(2)] by simp
    have "passes_in e (at st) (at st + 2)" using lt peek quoted(1) by (intro passes_passes_in passes_escape) auto
    moreover have "onward e (class_ok e) (skip_by 2 st) (readClassStringDisjunction e (skip_by 2 st))"
      by (rule inside_onward, rule readClassStringDisjunction_inside [OF assms(1)]) (use two in simp)
    ultimately have "inside e (class_ok e) st (readClassStringDisjunction e (skip_by 2 st))"
      by (intro inside_after [where n = 2]) simp_all
    then have "inside e (operand_ok e) st
        (case readClassStringDisjunction e (skip_by 2 st) of Inl why \<Rightarrow> Inl why | Inr (out, st1) \<Rightarrow> Inr ((out, None), st1))"
      by (rule inside_map) (simp add: operand_ok_def)
    then show ?thesis using quoted False by (simp add: readClassSetOperand_def)
  next
    case escape
    show ?thesis
    proof (cases "p_atEnd e (skip_by 1 st)")
      case True
      then show ?thesis using escape False lt by (simp add: readClassSetOperand_def Let_def)
    next
      case more: False
      have esc: "inside e (value_ok e) st (readEscapeValue e True (skip_by 1 st))"
        using escape peek by (intro inside_escape [OF readEscapeValue_flat [OF assms(1) more] False]) simp
      show ?thesis
      proof (cases "readEscapeValue e True (skip_by 1 st)")
        case (Inl why)
        then show ?thesis using escape False more esc by (cases why) (simp add: readClassSetOperand_def Let_def)
      next
        case (Inr x)
        obtain v st2 where x: "x = (v, st2)" by (cases x)
        have eq: "readClassSetOperand e nested st =
            Inr (case v of CharSet rs \<Rightarrow> (noMembers\<lparr>set_ranges := rs\<rparr>, None) | Code c \<Rightarrow> (noMembers\<lparr>set_ranges := addRange [] c c\<rparr>, Some c), st2)"
          using escape False more Inr x by (cases v) (simp_all add: readClassSetOperand_def Let_def)
        have "operand_ok e (case v of CharSet rs \<Rightarrow> (noMembers\<lparr>set_ranges := rs\<rparr>, None) | Code c \<Rightarrow> (noMembers\<lparr>set_ranges := addRange [] c c\<rparr>, Some c))"
          using esc Inr x operand_of_code by (cases v) (auto simp: operand_ok_def class_ok_ranges)
        then show ?thesis using esc Inr x unfolding eq by simp
      qed
    qed
  next
    case plain
    have "inside e (operand_ok e) st (case readClassSetCharacter e st of Inl why \<Rightarrow> Inl why
        | Inr (code, st1) \<Rightarrow> Inr ((noMembers\<lparr>set_ranges := addRange [] code code\<rparr>, Some code), st1))"
      by (rule inside_map [OF readClassSetCharacter_inside [OF assms(1,3)]]) (rule operand_of_code)
    then show ?thesis using plain False by (simp add: readClassSetOperand_def)
  qed
qed

lemma set_ok_sets: "set_ok e rs \<Longrightarrow> normal rs"
  by (simp add: set_ok_def bounded_def normal_def)

lemma set_ok_space: "unicodeSets (pflags e) \<Longrightarrow> normal rs \<Longrightarrow> set_ok e rs"
  using members_le [of rs] by (intro set_ok_normal) (auto simp: normal_def alphabetCeiling_def unicodeMode_def)

lemma operators_ok:
  assumes "env_ok e" and "unicodeSets (pflags e)" and "class_ok e a" and "class_ok e b"
  shows "class_ok e (intersect_values e a b)" and "class_ok e (subtract_values e a b)"
proof -
  have f: "valid_ranges (foldedForOperation e (set_ranges a))" "valid_ranges (foldedForOperation e (set_ranges b))"
    using assms(3,4) foldedForOperation_set(1) [OF assms(1) set_ok_sets, of e] by (auto simp: class_ok_def normal_def)
  show "class_ok e (intersect_values e a b)" "class_ok e (subtract_values e a b)"
    using intersectRanges_normal [OF f] subtractRanges_normal [OF f] set_ok_space [OF assms(2)] assms(3,4)
    by (auto simp: class_ok_def intersect_values_def subtract_values_def strings_ok_def filter_empty_conv)
qed

lemma eatTwo_inside:
  assumes "eatTwo e c st \<noteq> None" and "quiet c"
  shows "at st + 2 \<le> length (src e)" and "passes_in e (at st) (at st + 2)"
proof -
  obtain st1 where "eatTwo e c st = Some st1" using assms(1) by auto
  note d = eatTwoD(1-3) [OF this]
  show "at st + 2 \<le> length (src e)" by (rule d)
  have "quiet_between e (at st) (at st + 2)" using d assms(2) by (simp add: quiet_between_Suc)
  then show "passes_in e (at st) (at st + 2)" using d(1) by (intro passes_passes_in quiet_passes) auto
qed

lemma operator_loop_onward:
  assumes "env_ok e" and "nested_ok e nested" and "at st \<le> length (src e)" and "quiet this" and "class_ok e first"
    and "\<And>a b. class_ok e a \<Longrightarrow> class_ok e b \<Longrightarrow> class_ok e (combine a b)"
  shows "onward e (class_ok e) st (operator_loop e nested this other combine first st)"
proof -
  let ?turn = "\<lambda>acc st. case readClassSetOperand e nested (skip_by 2 st) of
                Inl why \<Rightarrow> Inl why
              | Inr ((rhs, _), st1) \<Rightarrow> Inr (combine acc rhs, st1)"
  have loop: "onward e (class_ok e) st (p_while (\<lambda>st. eatTwo e this st \<noteq> None) ?turn first st)"
  proof (rule onward_loop(1))
    fix a s assume a: "class_ok e a" and s: "eatTwo e this s \<noteq> None"
    note two = eatTwo_inside [OF s assms(4)]
    have operand: "inside e (operand_ok e) s (readClassSetOperand e nested (skip_by 2 s))"
      by (rule inside_after [where n = 2], rule inside_onward, rule readClassSetOperand_inside [OF assms(1,2)]) (use two in simp_all)
    have "inside e (class_ok e) s (case readClassSetOperand e nested (skip_by 2 s) of
        Inl why \<Rightarrow> Inl why | Inr (x, st1) \<Rightarrow> Inr (combine a (fst x), st1))"
      by (rule inside_map [OF operand]) (use a assms(6) in \<open>simp add: operand_ok_def\<close>)
    then show "inside e (class_ok e) s (?turn a s)" by (cases "readClassSetOperand e nested (skip_by 2 s)") (simp_all add: split_beta)
  qed (use assms in \<open>auto simp: eatTwo_def split: if_splits\<close>)
  then show ?thesis
    by (cases "p_while (\<lambda>st. eatTwo e this st \<noteq> None) ?turn first st") (auto simp: operator_loop_def)
qed

lemma addString_fold:
  "set (fold (\<lambda>s list. addString list s) ss list) = set ss \<union> set list"
  by (induction ss arbitrary: list) (auto simp: addString_def)

lemma union_ok:
  assumes "partial_ok e out" and "partial_ok e v"
  shows "partial_ok e \<lparr>set_ranges = set_ranges out @ set_ranges v,
           set_strings = fold (\<lambda>s list. addString list s) (set_strings v) (set_strings out), set_empty = (set_empty out \<or> set_empty v),
           mayContainStrings = (mayContainStrings out \<or> mayContainStrings v)\<rparr>"
proof -
  have "fold (\<lambda>s list. addString list s) (set_strings v) (set_strings out) = [] \<longleftrightarrow> set_strings v = [] \<and> set_strings out = []"
    using addString_fold [of "set_strings v" "set_strings out"] by (metis Un_empty set_empty)
  then show ?thesis using assms by (auto simp: partial_ok_def strings_ok_def addString_fold)
qed

lemma add_pending_onward:
  assumes "env_ok e" and "at st \<le> length (src e)" and "partial_ok e out" and "operand_ok e operand"
  shows "onward e (partial_ok e) st (add_pending e out operand st)"
proof -
  obtain v character where x: "operand = (v, character)" by (cases operand)
  have v: "partial_ok e v" "\<And>c. character = Some c \<Longrightarrow> c \<le> ceiling_of e"
    using assms(4) x class_ok_partial by (auto simp: operand_ok_def)
  show ?thesis
  proof (cases "character \<noteq> None \<and> p_peek e st 0 = ch CHR ''-'' \<and> p_peek e st 1 \<noteq> ch CHR ''-'' \<and> p_peek e st 1 \<noteq> ch CHR '']''")
    case True
    then have lt: "at st < length (src e)" "src e ! at st = ch CHR ''-''" using p_peekD [of e st 0] by simp_all
    have unit: "passes_in e (at st) (at st + 1)" using lt by (intro passes_in_unit) auto
    have hi: "inside e (\<lambda>c. c \<le> ceiling_of e) st (read_single e SetAsRangeEnd (skip_by 1 st))"
      by (rule inside_after [where n = 1], rule inside_onward, rule read_single_inside [OF assms(1)]) (use lt unit in simp_all)
    have range: "partial_ok e (out\<lparr>set_ranges := addRange (set_ranges out) lo hi\<rparr>)" if "lo \<le> hi" "hi \<le> ceiling_of e" for lo hi
      using that assms(3) by (auto simp: partial_ok_def strings_ok_def intro: bounded_range)
    have eq: "add_pending e out operand st =
        (case read_single e SetAsRangeEnd (skip_by 1 st) of
           Inl why \<Rightarrow> Inl why
         | Inr (hi, st1) \<Rightarrow>
             if the character > hi then p_fail RangeReversed st1
             else Inr (out\<lparr>set_ranges := addRange (set_ranges out) (the character) hi\<rparr>, st1))"
      unfolding add_pending_def x prod.case if_P [OF True] ..
    show ?thesis
      using inside_onward [OF hi] range unfolding eq by (cases "read_single e SetAsRangeEnd (skip_by 1 st)") auto
  next
    case False
    show ?thesis
      using union_ok [OF assms(3) v(1)] assms(2) unfolding add_pending_def x prod.case if_not_P [OF False] by simp
  qed
qed

lemma readClassSetUnion_onward:
  assumes "env_ok e" and "nested_ok e nested" and "at st \<le> length (src e)" and "operand_ok e first"
  shows "onward e (class_ok e) st (readClassSetUnion e nested first st)"
proof -
  let ?going = "\<lambda>st. \<not> (p_atEnd e st \<or> p_peek e st 0 = ch CHR '']'')"
  let ?turn = "\<lambda>out st. case readClassSetOperand e nested st of
                     Inl why \<Rightarrow> Inl why
                   | Inr (operand, st1) \<Rightarrow> add_pending e out operand st1"
  have start: "onward e (partial_ok e) st (add_pending e noMembers first st)"
    by (rule add_pending_onward [OF assms(1,3) class_ok_partial [OF class_ok_empty] assms(4)])
  show ?thesis
  proof (cases "add_pending e noMembers first st")
    case (Inl why)
    then show ?thesis using start by (cases why) (simp add: readClassSetUnion_def)
  next
    case (Inr x)
    obtain out st1 where x: "x = (out, st1)" by (cases x)
    have loop: "onward e (partial_ok e) st1 (p_while ?going ?turn out st1)"
    proof (rule onward_loop(1))
      fix a s assume a: "partial_ok e a" and s: "?going s"
      have operand: "inside e (operand_ok e) s (readClassSetOperand e nested s)"
        using s by (intro readClassSetOperand_inside [OF assms(1,2)]) (simp add: p_atEnd_def)
      show "inside e (partial_ok e) s (?turn a s)"
      proof (cases "readClassSetOperand e nested s")
        case (Inl why)
        then show ?thesis using operand by (cases why) simp
      next
        case read: (Inr y)
        obtain v s1 where y: "y = (v, s1)" by (cases y)
        have "inside e (operand_ok e) s (Inr (v, s1))" using operand read y by simp
        moreover from this have "onward e (partial_ok e) s1 (add_pending e a v s1)"
          using a by (intro add_pending_onward [OF assms(1)]) simp_all
        ultimately have "inside e (partial_ok e) s (add_pending e a v s1)" by (rule inside_then)
        then show ?thesis using read y by simp
      qed
    qed (use start Inr x in \<open>auto simp: p_atEnd_def\<close>)
    have "onward e (partial_ok e) st (p_while ?going ?turn out st1)"
      by (rule onward_then [OF _ loop]) (use start Inr x in simp)
    then show ?thesis
      using Inr x class_ok_normalize
      by (cases "p_while ?going ?turn out st1") (auto simp: readClassSetUnion_def)
  qed
qed

lemma readClassSetExpression_onward:
  assumes "env_ok e" and "unicodeSets (pflags e)" and "nested_ok e nested" and "at st \<le> length (src e)"
  shows "onward e (class_ok e) st (readClassSetExpression e nested st)"
proof (cases "p_peek e st 0 = ch CHR '']''")
  case True
  then show ?thesis using assms(4) class_ok_empty by (simp add: readClassSetExpression_def)
next
  case False
  have operand: "onward e (operand_ok e) st (readClassSetOperand e nested st)"
    by (rule inside_onward [OF readClassSetOperand_inside [OF assms(1,3,4)]])
  show ?thesis
  proof (cases "readClassSetOperand e nested st")
    case (Inl why)
    then show ?thesis using operand False by (cases why) (simp add: readClassSetExpression_def)
  next
    case (Inr x)
    obtain first st1 where x: "x = (first, st1)" by (cases x)
    have r: "onward e (operand_ok e) st (Inr (first, st1))" using operand Inr x by simp
    then have first: "at st1 \<le> length (src e)" "operand_ok e first" "class_ok e (fst first)" by (simp_all add: operand_ok_def)
    note ops = operators_ok [OF assms(1,2)]
    have "onward e (class_ok e) st1
       (if p_peek e st1 0 = ch CHR ''&'' \<and> p_peek e st1 1 = ch CHR ''&'' then
               operator_loop e nested (ch CHR ''&'') (ch CHR ''-'') (intersect_values e) (fst first) st1
             else if p_peek e st1 0 = ch CHR ''-'' \<and> p_peek e st1 1 = ch CHR ''-'' then
               operator_loop e nested (ch CHR ''-'') (ch CHR ''&'') (subtract_values e) (fst first) st1
             else readClassSetUnion e nested first st1)"
      using operator_loop_onward [OF assms(1,3) first(1) _ first(3)] ops readClassSetUnion_onward [OF assms(1,3) first(1,2)] by simp
    then show ?thesis
      unfolding readClassSetExpression_def if_not_P [OF False] Inr x sum.case prod.case by (rule onward_then [OF r])
  qed
qed

text \<open>A class of sets is closed by the bracket the pre-scan closes it with, at any depth.\<close>

lemma readNestedClass_passes:
  assumes "env_ok e" and "unicodeSets (pflags e)" and "at st < length (src e)" and "src e ! at st = ch CHR ''[''"
  shows "inside e (class_ok e) st (readNestedClass levels e st)"
    and "readNestedClass levels e st = Inr (v, st1) \<Longrightarrow> passes e (at st) (at st1)"
proof -
  have "inside e (class_ok e) st (readNestedClass levels e st) \<and>
        (\<forall>v st1. readNestedClass levels e st = Inr (v, st1) \<longrightarrow> passes e (at st) (at st1))"
    using assms(3,4)
  proof (induction levels arbitrary: st)
    case 0
    then show ?case by (simp add: p_fail_def)
  next
    case (Suc levels)
    have nested: "nested_ok e (readNestedClass levels e)" using Suc.IH by (simp add: nested_ok_def)
    obtain negated st2 where st2: "(case eat e (ch CHR ''^'') (skip_by 1 st) of Some st' \<Rightarrow> (True, st') | None \<Rightarrow> (False, skip_by 1 st)) = (negated, st2)"
      by force
    have caret: "at st + 1 \<le> at st2" "at st2 \<le> length (src e)" "captureCounter st2 = captureCounter st" "passes_in e (at st + 1) (at st2)"
      using eat_optional [OF st2] Suc.prems by simp_all
    let ?expr = "readClassSetExpression e (readNestedClass levels e) st2"
    have expr: "onward e (class_ok e) st2 ?expr" by (rule readClassSetExpression_onward [OF assms(1,2) nested caret(2)])
    have eq: "readNestedClass (Suc levels) e st =
      (case ?expr of
           Inl why \<Rightarrow> Inl why
         | Inr (v, st3) \<Rightarrow>
             (case eat e (ch CHR '']'') st3 of
                None \<Rightarrow> p_fail ClassEnd st3
              | Some st4 \<Rightarrow>
                  if negated \<and> mayContainStrings v then p_fail NegatedStrings st4
                  else
                    Inr (\<lparr>set_ranges = normalizeRanges (if negated then complementInMode e (set_ranges v) else set_ranges v),
                          set_strings = set_strings v, set_empty = set_empty v,
                          mayContainStrings = (if negated then False else mayContainStrings v)\<rparr>, st4)))"
      unfolding readNestedClass.simps Let_def st2 prod.case ..
    show ?case
    proof (cases ?expr)
      case (Inl why)
      then show ?thesis using expr by (cases why) (simp add: eq del: readNestedClass.simps)
    next
      case (Inr x)
      obtain v st3 where x: "x = (v, st3)" by (cases x)
      have v: "class_ok e v" "at st2 \<le> at st3" "at st3 \<le> length (src e)" "captureCounter st3 = captureCounter st2" "passes_in e (at st2) (at st3)"
        using expr Inr x by simp_all
      show ?thesis
      proof (cases "eat e (ch CHR '']'') st3")
        case None
        then show ?thesis using Inr x v by (simp add: eq p_fail_def del: readNestedClass.simps)
      next
        case (Some st4)
        note d = eatD(1-4) [OF Some]
        have "passes_in e (at st + 1) (at st3)" using caret(4) v(5) by (rule passes_in_trans)
        then have pass: "passes e (at st) (at st4)"
          unfolding passes_def d(1) using d caret v assms(2) Suc.prems by (intro allI scan_class) auto
        have "set_ok e (complementInMode e (set_ranges v))"
          using complementInMode_set(1) [OF assms(1)] v(1) by (simp add: class_ok_def)
        then have "class_ok e \<lparr>set_ranges = normalizeRanges (if negated then complementInMode e (set_ranges v) else set_ranges v),
                          set_strings = set_strings v, set_empty = set_empty v,
                          mayContainStrings = (if negated then False else mayContainStrings v)\<rparr>"
          if "\<not> (negated \<and> mayContainStrings v)"
          using v(1) that set_ok_normalize [OF set_ok_bounded] by (auto simp: class_ok_def strings_ok_def)
        then show ?thesis using Inr x Some d v caret pass passes_passes_in [OF pass] by (simp add: eq p_fail_def del: readNestedClass.simps)
      qed
    qed
  qed
  then show "inside e (class_ok e) st (readNestedClass levels e st)"
    and "readNestedClass levels e st = Inr (v, st1) \<Longrightarrow> passes e (at st) (at st1)"
    by simp_all
qed

end
