(* ===== verification/Regex_Groups.thy ===== *)
theory Regex_Groups
  imports Regex_Scan
begin

text \<open>
  What a successful parse builds: the pattern grammar from the atom to the disjunction, with the groups
  numbered by their opening parentheses, every set normalised and inside the alphabet, every
  backreference resolved, and as many groups opened as the pre-scan counts between the same positions.
\<close>

section \<open>Well-formed patterns\<close>

text \<open>The capture groups of a node, in the order of their opening parentheses.\<close>

fun captures_of :: "node \<Rightarrow> nat list" where
  "captures_of (Alternation alts) = concat (map (\<lambda>ts. concat (map captures_of ts)) alts)"
| "captures_of (Sequence ts) = concat (map captures_of ts)"
| "captures_of (Lookahead negative child) = captures_of child"
| "captures_of (Lookbehind negative child) = captures_of child"
| "captures_of (Group i child) = (if i = 0 then [] else [i]) @ captures_of child"
| "captures_of (Repeat r atom) = captures_of atom"
| "captures_of node = []"

text \<open>How deep groups and lookarounds nest.\<close>

fun depth_of :: "node \<Rightarrow> nat" where
  "depth_of (Alternation alts) = foldr max (map (\<lambda>ts. foldr max (map depth_of ts) 0) alts) 0"
| "depth_of (Sequence ts) = foldr max (map depth_of ts) 0"
| "depth_of (Lookahead negative child) = Suc (depth_of child)"
| "depth_of (Lookbehind negative child) = Suc (depth_of child)"
| "depth_of (Group i child) = Suc (depth_of child)"
| "depth_of (Repeat r atom) = depth_of atom"
| "depth_of node = 0"

fun node_wf :: "penv \<Rightarrow> node \<Rightarrow> bool" where
  "node_wf e (Alternation alts) \<longleftrightarrow> (\<forall>ts \<in> set alts. \<forall>t \<in> set ts. node_wf e t)"
| "node_wf e (Sequence ts) \<longleftrightarrow> (\<forall>t \<in> set ts. node_wf e t)"
| "node_wf e (Character c) \<longleftrightarrow> c \<le> ceiling_of e"
| "node_wf e (Class ranges negated strings matchesEmpty) \<longleftrightarrow>
     set_ok e ranges \<and> sorted_wrt (\<lambda>s t. length t \<le> length s) strings \<and>
     (\<forall>s \<in> set strings. 2 \<le> length s \<and> (\<forall>c \<in> set s. c \<le> ceiling_of e)) \<and>
     (strings \<noteq> [] \<or> matchesEmpty \<longrightarrow> unicodeSets (pflags e) \<and> \<not> negated)"
| "node_wf e (Lookahead negative child) \<longleftrightarrow> node_wf e child"
| "node_wf e (Lookbehind negative child) \<longleftrightarrow> node_wf e child"
| "node_wf e (Group i child) \<longleftrightarrow> node_wf e child"
| "node_wf e (Backreference i) \<longleftrightarrow> 1 \<le> i \<and> i \<le> count (groups e)"
| "node_wf e (Repeat r atom) \<longleftrightarrow>
     node_wf e atom \<and> \<not> is_assertion atom \<and> repMin r \<le> repMax r \<and> repMax r \<le> kUnbounded \<and>
     captures_of atom = [firstCapture r..<firstCapture r + captureCount r] \<and>
     (simpleAtom r \<longleftrightarrow> captureCount r = 0 \<and> consumes_one atom)"
| "node_wf e node \<longleftrightarrow> True"

lemma depths_max_le [simp]: "foldr max xs 0 \<le> n \<longleftrightarrow> (\<forall>x \<in> set xs. x \<le> (n :: nat))"
  by (induction xs) auto

section \<open>Progress\<close>

text \<open>From one state to another the parse opens as many groups as the pre-scan counts.\<close>

definition counts :: "penv \<Rightarrow> pstate \<Rightarrow> pstate \<Rightarrow> bool" where
  "counts e st st1 \<longleftrightarrow>
     captureCounter st \<le> captureCounter st1 \<and>
     (\<forall>info. \<exists>info'. prescan_from e 0 (at st) info = prescan_from e 0 (at st1) info' \<and>
               count info' + captureCounter st = count info + captureCounter st1)"

text \<open>The nodes that are read between two states, with at most \<open>n\<close> levels of groups in them.\<close>

definition built :: "penv \<Rightarrow> nat \<Rightarrow> pstate \<Rightarrow> node list \<Rightarrow> pstate \<Rightarrow> bool" where
  "built e n st nodes st1 \<longleftrightarrow>
     concat (map captures_of nodes) = [captureCounter st + 1..<captureCounter st1 + 1] \<and>
     (\<forall>x \<in> set nodes. node_wf e x \<and> depth_of x \<le> n)"

text \<open>A result at least \<open>k\<close> units further on, or an error at an index of the pattern.\<close>

definition moves :: "penv \<Rightarrow> nat \<Rightarrow> nat \<Rightarrow> ('a \<Rightarrow> node list) \<Rightarrow> pstate \<Rightarrow> 'a parse \<Rightarrow> bool" where
  "moves e k n nodes st r \<longleftrightarrow>
     (case r of
        Inl (why, i) \<Rightarrow> i \<le> length (src e)
      | Inr (v, st1) \<Rightarrow> at st + k \<le> at st1 \<and> at st1 \<le> length (src e) \<and> counts e st st1 \<and> built e n st (nodes v) st1)"

abbreviation one :: "node \<Rightarrow> node list" where
  "one x \<equiv> [x]"

lemma moves_simps [simp]:
  "moves e k n nodes st (Inl (why, i)) \<longleftrightarrow> i \<le> length (src e)"
  "moves e k n nodes st (p_fail what st1) \<longleftrightarrow> at st1 \<le> length (src e)"
  "moves e k n nodes st (Inr (v, st1)) \<longleftrightarrow>
     at st + k \<le> at st1 \<and> at st1 \<le> length (src e) \<and> counts e st st1 \<and> built e n st (nodes v) st1"
  by (auto simp: moves_def p_fail_def)

lemma counts_refl [simp]: "counts e st st"
  by (auto simp: counts_def)

lemma counts_trans:
  assumes "counts e st st1" and "counts e st1 st2"
  shows "counts e st st2"
  unfolding counts_def
proof (intro conjI allI)
  show "captureCounter st \<le> captureCounter st2" using assms by (simp add: counts_def)
  fix info
  obtain info1 where 1: "prescan_from e 0 (at st) info = prescan_from e 0 (at st1) info1" "count info1 + captureCounter st = count info + captureCounter st1"
    using assms(1) unfolding counts_def by blast
  obtain info2 where 2: "prescan_from e 0 (at st1) info1 = prescan_from e 0 (at st2) info2" "count info2 + captureCounter st1 = count info1 + captureCounter st2"
    using assms(2) unfolding counts_def by blast
  have "count info2 + captureCounter st = count info + captureCounter st2" using 1(2) 2(2) by linarith
  then show "\<exists>info'. prescan_from e 0 (at st) info = prescan_from e 0 (at st2) info' \<and> count info' + captureCounter st = count info + captureCounter st2"
    using 1(1) 2(1) by auto
qed

lemma counts_same:
  assumes "\<And>info. prescan_from e 0 (at st) info = prescan_from e 0 (at st1) info" and "captureCounter st1 = captureCounter st"
  shows "counts e st st1"
  using assms by (auto simp: counts_def)

lemma counts_passes: "passes e (at st) (at st1) \<Longrightarrow> captureCounter st1 = captureCounter st \<Longrightarrow> counts e st st1"
  by (rule counts_same) (simp_all add: passes_def)

lemma scan_plain:
  "i < length (src e) \<Longrightarrow> src e ! i \<noteq> ch CHR 0x5C \<Longrightarrow> src e ! i \<noteq> ch CHR ''['' \<Longrightarrow> src e ! i \<noteq> ch CHR ''('' \<Longrightarrow>
   prescan_from e 0 i info = prescan_from e 0 (i + 1) info"
  by (simp add: scan_step Let_def)

lemma built_Nil [simp]: "built e n st [] st1 \<longleftrightarrow> captureCounter st1 \<le> captureCounter st"
  by (auto simp: built_def)

lemma built_leaf:
  "captures_of x = [] \<Longrightarrow> depth_of x = 0 \<Longrightarrow> built e n st [x] st1 \<longleftrightarrow> node_wf e x \<and> captureCounter st1 \<le> captureCounter st"
  by (auto simp: built_def)

lemma built_append:
  assumes "built e n st xs st1" and "built e n st1 ys st2" and "captureCounter st \<le> captureCounter st1" and "captureCounter st1 \<le> captureCounter st2"
  shows "built e n st (xs @ ys) st2"
proof -
  have "[captureCounter st + 1..<captureCounter st2 + 1] =
      [captureCounter st + 1..<captureCounter st1 + 1] @ [captureCounter st1 + 1..<captureCounter st2 + 1]"
    using assms(3,4) upt_add_eq_append [of "captureCounter st + 1" "captureCounter st1 + 1" "captureCounter st2 - captureCounter st1"] by simp
  then show ?thesis using assms(1,2) by (auto simp: built_def)
qed

section \<open>Atoms\<close>

definition groups_ok :: "penv \<Rightarrow> bool" where
  "groups_ok e \<longleftrightarrow> length (names (groups e)) = count (groups e)"

lemma canonicalize_le:
  assumes "env_ok e" and "code \<le> ceiling_of e"
  shows "canonicalize (simpleCaseFold (ptables e)) code (ignoreCase (pflags e)) (unicodeMode (pflags e)) \<le> ceiling_of e"
proof -
  have "ucd_simpleCaseFold (unicodeData e) code \<le> kMaxCodePoint" if "code \<le> kMaxCodePoint"
    using fold_table(1) [OF _ that] assms(1) by (simp add: env_ok_def)
  moreover have "canonicalize f code True False \<le> kMaxUnit" if "code \<le> kMaxUnit" for f
    using upper16_le [OF that] by (simp add: upper16_def canonicalize_def)
  ultimately show ?thesis
    using assms(2) by (cases "ignoreCase (pflags e)"; cases "unicodeMode (pflags e)")
      (simp_all add: canonicalize_def ucd_tables_def alphabetCeiling_def)
qed

lemma charNode_moves:
  assumes "env_ok e" and "code \<le> ceiling_of e" and "at st + k \<le> at st1" and "at st1 \<le> length (src e)" and "counts e st st1"
    and "captureCounter st1 = captureCounter st"
  shows "moves e k n one st (charNode e code st1)"
  using assms canonicalize_le [OF assms(1,2)] by (simp add: charNode_def caseTableFailure_def built_leaf)

lemma reference_loop_digits:
  assumes "reference_loop ds v i = (v', j)"
  shows "i \<le> j \<and> j \<le> i + length ds \<and> (\<forall>k < j - i. isDecimalDigit (ds ! k)) \<and> v \<le> v'"
  using assms
proof (induction ds v i rule: reference_loop.induct)
  case (2 d ds v i)
  let ?v = "v * 10 + (d - ch CHR ''0'')"
  show ?case
  proof (cases "isDecimalDigit d \<and> \<not> ?v > 0xFFFFFF")
    case True
    then have "i + 1 \<le> j \<and> j \<le> i + 1 + length ds \<and> (\<forall>k < j - (i + 1). isDecimalDigit (ds ! k)) \<and> ?v \<le> v'"
      using "2.IH" [OF _ refl] "2.prems" by (auto simp: Let_def)
    moreover have "isDecimalDigit ((d # ds) ! k)" if "k < j - i" "\<forall>k < j - (i + 1). isDecimalDigit (ds ! k)" for k
      using that True by (cases k) auto
    ultimately show ?thesis by auto
  next
    case False
    then show ?thesis using "2.prems" by (auto simp: Let_def split: if_splits)
  qed
qed simp

lemma group_named_bound: "groups_ok e \<Longrightarrow> group_named (groups e) name = Some i \<Longrightarrow> 1 \<le> i \<and> i \<le> count (groups e)"
  by (auto simp: group_named_def groups_ok_def Let_def split: if_splits)

lemma flat_moves:
  assumes "flat e V (skip_by 1 st) (Inr (v, st1))" and "at st < length (src e)" and "src e ! at st = ch CHR 0x5C"
  shows "at st + 1 \<le> at st1" "at st1 \<le> length (src e)" "counts e st st1" "captureCounter st1 = captureCounter st" "V v"
proof -
  have "passes e (at st) (at st + 2)" using assms(2,3) by (rule passes_escape)
  moreover have "passes e (at st + 2) (at st1)" using assms(1) by simp
  ultimately have "passes e (at st) (at st1)" by (rule passes_trans)
  then show "counts e st st1" using assms(1) by (intro counts_passes) simp_all
  show "at st + 1 \<le> at st1" "at st1 \<le> length (src e)" "captureCounter st1 = captureCounter st" "V v" using assms(1) by simp_all
qed

lemma backreference_moves:
  assumes "at st + 1 < length (src e)" and "src e ! at st = ch CHR 0x5C" and "ch CHR ''1'' \<le> src e ! (at st + 1)" and "src e ! (at st + 1) \<le> ch CHR ''9''"
    and "reference_loop (drop (at st + 1) (src e)) 0 (at st + 1) = (v, i)"
  shows "1 \<le> v" "at st + 2 \<le> i" "i \<le> length (src e)" "passes e (at st) i"
proof -
  let ?d = "src e ! (at st + 1)"
  have drop: "drop (at st + 1) (src e) = ?d # drop (at st + 2) (src e)" using Cons_nth_drop_Suc [OF assms(1)] by simp
  have digit: "isDecimalDigit ?d" "?d - ch CHR ''0'' \<le> 0xFFFFFF" "1 \<le> ?d - ch CHR ''0''"
    using assms(3,4) by (auto simp: isDecimalDigit_def)
  have "reference_loop (drop (at st + 2) (src e)) (?d - ch CHR ''0'') (at st + 2) = (v, i)"
    using assms(5) digit unfolding drop by (simp add: Let_def)
  note r = reference_loop_digits [OF this]
  show "1 \<le> v" "at st + 2 \<le> i" "i \<le> length (src e)" using r digit(3) assms(1) by auto
  have "quiet_between e (at st + 2) i"
    unfolding quiet_between_def
  proof (intro allI impI)
    fix k assume k: "at st + 2 \<le> k" "k < i"
    then obtain l where l: "k = at st + 2 + l" using le_Suc_ex by blast
    then have "isDecimalDigit (drop (at st + 2) (src e) ! l)" using r k by auto
    then show "quiet (src e ! k)" using k l \<open>i \<le> length (src e)\<close> quiet_letters(3) by simp
  qed
  then have "passes e (at st + 2) i" using \<open>at st + 2 \<le> i\<close> \<open>i \<le> length (src e)\<close> by (rule quiet_passes)
  moreover have "passes e (at st) (at st + 2)" using assms(1,2) by (intro passes_escape) simp_all
  ultimately show "passes e (at st) i" by (blast intro: passes_trans)
qed

text \<open>A name between angle brackets.\<close>

lemma bracketed_name:
  assumes "eat e (ch CHR ''<'') st = Some st1" and "eat e (ch CHR ''>'') (st1\<lparr>at := skip_while isIdentifierPart (src e) (at st1)\<rparr>) = Some st2"
  shows "passes e (at st) (at st2)" "at st + 2 \<le> at st2" "at st2 \<le> length (src e)" "captureCounter st2 = captureCounter st"
proof -
  note d1 = eatD(1-4) [OF assms(1)] and d2 = eatD(1-4) [OF assms(2)]
  let ?j = "skip_while isIdentifierPart (src e) (at st1)"
  have le: "at st1 \<le> length (src e)" using d1 by simp
  note j = skip_while_between [of "at st1" e isIdentifierPart, OF le quiet_letters(2)]
  have "quiet_between e (at st) (at st1)" using d1 by (simp add: quiet_between_Suc)
  then have "quiet_between e (at st) ?j" using j(3) by (rule quiet_between_trans)
  then have "quiet_between e (at st) (at st2)" using d2 by (simp add: quiet_between_Suc)
  moreover show "at st + 2 \<le> at st2" "at st2 \<le> length (src e)" "captureCounter st2 = captureCounter st" using d1 d2 j by simp_all
  ultimately show "passes e (at st) (at st2)" by (intro quiet_passes) simp_all
qed

lemma named_backreference_moves:
  assumes "groups_ok e" and "at st + 1 < length (src e)" and "src e ! at st = ch CHR 0x5C"
  shows "moves e 1 n one st
           (case eat e (ch CHR ''<'') (skip_by 2 st) of
              None \<Rightarrow> p_fail BackreferenceStart (skip_by 2 st)
            | Some st1 \<Rightarrow>
                (let st2 = st1\<lparr>at := skip_while isIdentifierPart (src e) (at st1)\<rparr>; name = asciiOf (p_substr e (at st1) (at st2))
                 in case eat e (ch CHR ''>'') st2 of
                      None \<Rightarrow> p_fail BackreferenceEnd st2
                    | Some st3 \<Rightarrow>
                        (case group_named (groups e) name of
                           None \<Rightarrow> p_fail (UnknownGroup name) st3
                         | Some i \<Rightarrow> Inr (Backreference i, st3))))"
proof (cases "eat e (ch CHR ''<'') (skip_by 2 st)")
  case None
  then show ?thesis using assms(2) by simp
next
  case (Some st1)
  have le: "at st1 \<le> length (src e)" using eatD(1,3) [OF Some] by simp
  let ?st2 = "st1\<lparr>at := skip_while isIdentifierPart (src e) (at st1)\<rparr>"
  show ?thesis
  proof (cases "eat e (ch CHR ''>'') ?st2")
    case None
    then show ?thesis
      using Some skip_while_between(2) [of "at st1" e isIdentifierPart, OF le quiet_letters(2)] by (simp add: Let_def)
  next
    case close: (Some st3)
    note name = bracketed_name [OF Some close]
    have "passes e (at st) (at st + 2)" using assms(2,3) by (intro passes_escape) simp_all
    then have "counts e st st3" using name by (intro counts_passes) (auto intro: passes_trans)
    then show ?thesis
      using Some close name group_named_bound [OF assms(1)] by (simp add: Let_def built_leaf split: option.split)
  qed
qed

lemma parseAtomEscape_moves:
  assumes "env_ok e" and "groups_ok e" and "at st < length (src e)" and "src e ! at st = ch CHR 0x5C"
  shows "moves e 1 n one st (parseAtomEscape e st)"
proof (cases "p_atEnd e (skip_by 1 st)")
  case True
  then show ?thesis using assms(3) by (simp add: parseAtomEscape_def Let_def)
next
  case False
  let ?st = "skip_by 1 st"
  have lt: "at st + 1 < length (src e)" using False by (simp add: p_atEnd_def)
  have two: "skip_by 1 ?st = skip_by 2 st" by (simp add: skip_by_def)
  have c: "p_peek e ?st 0 = src e ! (at st + 1)" using p_peek_at [OF False] by simp
  consider (boundary) "p_peek e ?st 0 = ch CHR ''b'' \<or> p_peek e ?st 0 = ch CHR ''B''"
    | (named) "\<not> (p_peek e ?st 0 = ch CHR ''b'' \<or> p_peek e ?st 0 = ch CHR ''B'')" "p_peek e ?st 0 = ch CHR ''k''"
    | (digit) "\<not> (p_peek e ?st 0 = ch CHR ''b'' \<or> p_peek e ?st 0 = ch CHR ''B'')" "p_peek e ?st 0 \<noteq> ch CHR ''k''"
        "ch CHR ''1'' \<le> p_peek e ?st 0 \<and> p_peek e ?st 0 \<le> ch CHR ''9''"
    | (escape) "\<not> (p_peek e ?st 0 = ch CHR ''b'' \<or> p_peek e ?st 0 = ch CHR ''B'')" "p_peek e ?st 0 \<noteq> ch CHR ''k''"
        "\<not> (ch CHR ''1'' \<le> p_peek e ?st 0 \<and> p_peek e ?st 0 \<le> ch CHR ''9'')"
    by blast
  then show ?thesis
  proof cases
    case boundary
    have "counts e st (skip_by 2 st)" using passes_escape [OF assms(3,4)] by (intro counts_passes) simp_all
    then show ?thesis
      unfolding parseAtomEscape_def Let_def if_not_P [OF False] if_P [OF boundary] two using lt by (simp add: built_leaf)
  next
    case named
    show ?thesis
      unfolding parseAtomEscape_def Let_def if_not_P [OF False] if_not_P [OF named(1)] if_P [OF named(2)] two
      by (rule named_backreference_moves [OF assms(2) lt assms(4), unfolded Let_def])
  next
    case digit
    obtain v i where r: "reference_loop (drop (at st + 1) (src e)) 0 (at st + 1) = (v, i)" by force
    note back_to = backreference_moves [OF lt assms(4) _ _ r]
    have "moves e 1 n one st (if v > count (groups e) then p_fail (NoSuchGroup v) ?st else Inr (Backreference v, ?st\<lparr>at := i\<rparr>))"
      using back_to digit(3) lt c by (auto simp: built_leaf intro!: counts_passes)
    then show ?thesis
      unfolding parseAtomEscape_def Let_def if_not_P [OF False] if_not_P [OF digit(1)] if_not_P [OF digit(2)] if_P [OF digit(3)]
        skip_by_simps r prod.case .
  next
    case escape
    have eq: "parseAtomEscape e st =
        (case readEscapeValue e False ?st of
              Inl why \<Rightarrow> Inl why
            | Inr (CharSet rs, st1) \<Rightarrow> Inr (Class (normalizeRanges rs) False [] False, st1)
            | Inr (Code code, st1) \<Rightarrow> charNode e code st1)"
      unfolding parseAtomEscape_def Let_def if_not_P [OF False] if_not_P [OF escape(1)] if_not_P [OF escape(2)] if_not_P [OF escape(3)] ..
    note esc = readEscapeValue_flat [OF assms(1) False, of False]
    show ?thesis
    proof (cases "readEscapeValue e False ?st")
      case (Inl why)
      then show ?thesis using esc by (cases why) (simp add: eq)
    next
      case (Inr x)
      obtain v st1 where x: "x = (v, st1)" by (cases x)
      have f: "flat e (value_ok e) ?st (Inr (v, st1))" using esc Inr x by simp
      note m = flat_moves [OF f assms(3,4)]
      show ?thesis
      proof (cases v)
        case (Code code)
        then show ?thesis using m charNode_moves [OF assms(1)] Inr x by (simp add: eq)
      next
        case (CharSet rs)
        then have "set_ok e (normalizeRanges rs)" using m(5) by (simp add: set_ok_normalize set_ok_bounded)
        then show ?thesis using m CharSet Inr x by (simp add: eq built_leaf)
      qed
    qed
  qed
qed

section \<open>Groups\<close>

lemma scan_group:
  assumes "i < length (src e)" and "src e ! i = ch CHR ''(''"
  shows "\<not> (i + 1 < length (src e) \<and> src e ! (i + 1) = ch CHR ''?'') \<Longrightarrow>
           prescan_from e 0 i info = prescan_from e 0 (i + 1) \<lparr>count = count info + 1, names = names info @ [[]]\<rparr>"
    and "i + 1 < length (src e) \<Longrightarrow> src e ! (i + 1) = ch CHR ''?'' \<Longrightarrow>
           \<not> (i + 3 < length (src e) \<and> src e ! (i + 2) = ch CHR ''<'' \<and> src e ! (i + 3) \<noteq> ch CHR ''='' \<and> src e ! (i + 3) \<noteq> ch CHR ''!'') \<Longrightarrow>
           prescan_from e 0 i info = prescan_from e 0 (i + 1) info"
    and "i + 3 < length (src e) \<Longrightarrow> src e ! (i + 1) = ch CHR ''?'' \<Longrightarrow> src e ! (i + 2) = ch CHR ''<'' \<Longrightarrow>
           src e ! (i + 3) \<noteq> ch CHR ''='' \<Longrightarrow> src e ! (i + 3) \<noteq> ch CHR ''!'' \<Longrightarrow>
           \<exists>name. prescan_from e 0 i info = prescan_from e 0 (i + 1) \<lparr>count = count info + 1, names = names info @ [name]\<rparr>"
proof -
  let ?cs = "drop (i + 1) (src e)"
  have cs: "?cs \<noteq> [] \<longleftrightarrow> i + 1 < length (src e)" "i + 1 < length (src e) \<Longrightarrow> hd ?cs = src e ! (i + 1)"
      "length ?cs > 2 \<longleftrightarrow> i + 3 < length (src e)" "i + 3 < length (src e) \<Longrightarrow> ?cs ! 1 = src e ! (i + 2) \<and> ?cs ! 2 = src e ! (i + 3)"
    by (auto simp: hd_drop_conv_nth numeral_3_eq_3)
  let ?inc = "\<lambda>name. \<lparr>count = count info + 1, names = names info @ [name]\<rparr>"
  have step: "prescan_from e 0 i info =
      (if ?cs \<noteq> [] \<and> hd ?cs = ch CHR ''?'' then
         (if length ?cs > 2 \<and> ?cs ! 1 = ch CHR ''<'' \<and> ?cs ! 2 \<noteq> ch CHR ''='' \<and> ?cs ! 2 \<noteq> ch CHR ''!''
          then prescan_from e 0 (i + 1) (?inc (asciiOf (takeWhile (\<lambda>c. c \<noteq> ch CHR ''>'') (drop 2 ?cs))))
          else prescan_from e 0 (i + 1) info)
       else prescan_from e 0 (i + 1) (?inc []))"
    unfolding scan_step [OF assms(1)] Let_def assms(2) by simp
  show "\<not> (i + 1 < length (src e) \<and> src e ! (i + 1) = ch CHR ''?'') \<Longrightarrow> prescan_from e 0 i info = prescan_from e 0 (i + 1) (?inc [])"
    and "i + 1 < length (src e) \<Longrightarrow> src e ! (i + 1) = ch CHR ''?'' \<Longrightarrow>
           \<not> (i + 3 < length (src e) \<and> src e ! (i + 2) = ch CHR ''<'' \<and> src e ! (i + 3) \<noteq> ch CHR ''='' \<and> src e ! (i + 3) \<noteq> ch CHR ''!'') \<Longrightarrow>
           prescan_from e 0 i info = prescan_from e 0 (i + 1) info"
    and "i + 3 < length (src e) \<Longrightarrow> src e ! (i + 1) = ch CHR ''?'' \<Longrightarrow> src e ! (i + 2) = ch CHR ''<'' \<Longrightarrow>
           src e ! (i + 3) \<noteq> ch CHR ''='' \<Longrightarrow> src e ! (i + 3) \<noteq> ch CHR ''!'' \<Longrightarrow>
           \<exists>name. prescan_from e 0 i info = prescan_from e 0 (i + 1) (?inc name)"
    using cs unfolding step by auto
qed

fun kind_captures :: "group_kind \<Rightarrow> nat list" where
  "kind_captures (Capture i) = (if i = 0 then [] else [i])"
| "kind_captures kind = []"

lemma make_group_simps [simp]:
  "captures_of (make_group kind body) = kind_captures kind @ captures_of body"
  "depth_of (make_group kind body) = Suc (depth_of body)"
  "node_wf e (make_group kind body) \<longleftrightarrow> node_wf e body"
  by (cases kind; simp)+

text \<open>An opening parenthesis with what it says of its group.\<close>

definition opens :: "penv \<Rightarrow> pstate \<Rightarrow> group_kind parse \<Rightarrow> bool" where
  "opens e st r \<longleftrightarrow>
     (case r of
        Inl (why, i) \<Rightarrow> i \<le> length (src e)
      | Inr (kind, st1) \<Rightarrow>
          at st + 1 \<le> at st1 \<and> at st1 \<le> length (src e) \<and> counts e st st1 \<and>
          kind_captures kind = [captureCounter st + 1..<captureCounter st1 + 1])"

lemma opens_simps [simp]:
  "opens e st (p_fail what st1) \<longleftrightarrow> at st1 \<le> length (src e)"
  "opens e st (Inr (kind, st1)) \<longleftrightarrow>
     at st + 1 \<le> at st1 \<and> at st1 \<le> length (src e) \<and> counts e st st1 \<and> kind_captures kind = [captureCounter st + 1..<captureCounter st1 + 1]"
  by (auto simp: opens_def p_fail_def)

text \<open>A parenthesis followed by \<open>?\<close>, up to a later position.\<close>

lemma opens_quiet:
  assumes "at st + 1 < length (src e)" and "src e ! at st = ch CHR ''(''" and "src e ! (at st + 1) = ch CHR ''?''"
    and "passes e (at st + 2) (at st1)" and "at st + 2 \<le> at st1" and "at st1 \<le> length (src e)"
  shows "captureCounter st1 = captureCounter st \<Longrightarrow> kind_captures kind = [] \<Longrightarrow>
           \<not> (at st + 3 < length (src e) \<and> src e ! (at st + 2) = ch CHR ''<'' \<and> src e ! (at st + 3) \<noteq> ch CHR ''='' \<and> src e ! (at st + 3) \<noteq> ch CHR ''!'') \<Longrightarrow>
           opens e st (Inr (kind, st1))"
    and "captureCounter st1 = captureCounter st + 1 \<Longrightarrow> at st + 3 < length (src e) \<Longrightarrow> src e ! (at st + 2) = ch CHR ''<'' \<Longrightarrow>
           src e ! (at st + 3) \<noteq> ch CHR ''='' \<Longrightarrow> src e ! (at st + 3) \<noteq> ch CHR ''!'' \<Longrightarrow>
           opens e st (Inr (Capture (captureCounter st + 1), st1))"
proof -
  have i: "at st < length (src e)" using assms(1) by simp
  have "passes e (at st + 1) (at st + 1 + 1)" using assms(1,3) by (intro passes_quiet) simp_all
  then have pass: "passes e (at st + 1) (at st1)" using assms(4) by (auto intro: passes_trans)
  show "opens e st (Inr (kind, st1))"
    if "captureCounter st1 = captureCounter st" "kind_captures kind = []"
      "\<not> (at st + 3 < length (src e) \<and> src e ! (at st + 2) = ch CHR ''<'' \<and> src e ! (at st + 3) \<noteq> ch CHR ''='' \<and> src e ! (at st + 3) \<noteq> ch CHR ''!'')"
  proof -
    have "counts e st st1"
      by (rule counts_same) (use scan_group(2) [OF i assms(2,1,3) that(3)] pass that(1) in \<open>simp_all add: passes_def\<close>)
    then show ?thesis using that assms(5,6) by simp
  qed
  show "opens e st (Inr (Capture (captureCounter st + 1), st1))"
    if "captureCounter st1 = captureCounter st + 1" "at st + 3 < length (src e)" "src e ! (at st + 2) = ch CHR ''<''"
      "src e ! (at st + 3) \<noteq> ch CHR ''=''" "src e ! (at st + 3) \<noteq> ch CHR ''!''"
  proof -
    note named = that
    have "counts e st st1"
      unfolding counts_def
    proof (intro conjI allI)
      fix info
      obtain name where n: "prescan_from e 0 (at st) info = prescan_from e 0 (at st + 1) \<lparr>count = count info + 1, names = names info @ [name]\<rparr>"
        using scan_group(3) [OF i assms(2) named(2) assms(3) named(3-5)] by blast
      show "\<exists>info'. prescan_from e 0 (at st) info = prescan_from e 0 (at st1) info' \<and> count info' + captureCounter st = count info + captureCounter st1"
        by (rule exI [of _ "\<lparr>count = count info + 1, names = names info @ [name]\<rparr>"]) (use n pass that(1) in \<open>simp add: passes_def\<close>)
    qed (use that in simp)
    then show ?thesis using that assms(5,6) by simp
  qed
qed

lemma open_group_opens:
  assumes "at st < length (src e)" and "src e ! at st = ch CHR ''(''"
  shows "opens e st (open_group e (skip_by 1 st))"
proof (cases "eat e (ch CHR ''?'') (skip_by 1 st)")
  case None
  let ?st1 = "skip_by 1 st\<lparr>captureCounter := captureCounter st + 1\<rparr>"
  have no: "\<not> (at st + 1 < length (src e) \<and> src e ! (at st + 1) = ch CHR ''?'')"
    using None by (auto simp: eat_def p_atEnd_def split: if_splits)
  have "counts e st ?st1"
    unfolding counts_def
  proof (intro conjI allI)
    fix info
    show "\<exists>info'. prescan_from e 0 (at st) info = prescan_from e 0 (at ?st1) info' \<and> count info' + captureCounter st = count info + captureCounter ?st1"
      by (rule exI [of _ "\<lparr>count = count info + 1, names = names info @ [[]]\<rparr>"]) (use scan_group(1) [OF assms no] in simp)
  qed simp
  then show ?thesis using None assms(1) by (simp add: open_group_def new_capture_def)
next
  case (Some st1)
  note d = eatD(1-4) [OF Some]
  have q: "at st1 = at st + 2" "captureCounter st1 = captureCounter st" "at st + 1 < length (src e)" "src e ! (at st + 1) = ch CHR ''?''" using d by simp_all
  note quiet_open = opens_quiet [OF q(3) assms(2) q(4)]
  have mark: "opens e st (Inr (kind, st2))"
    if "eat e c st1 = Some st2" "c \<in> {ch CHR '':'', ch CHR ''='', ch CHR ''!''}" "kind_captures kind = []" for c kind st2
  proof -
    note m = eatD(1-4) [OF that(1)]
    have "passes e (at st1) (at st2)" using m that(2) passes_quiet [of "at st1" e] by auto
    then show ?thesis using m q that(2,3) by (intro quiet_open(1)) auto
  qed
  consider (colon) st2 where "eat e (ch CHR '':'') st1 = Some st2"
    | (equals) st2 where "eat e (ch CHR '':'') st1 = None" "eat e (ch CHR ''='') st1 = Some st2"
    | (bang) st2 where "eat e (ch CHR '':'') st1 = None" "eat e (ch CHR ''='') st1 = None" "eat e (ch CHR ''!'') st1 = Some st2"
    | (other) "eat e (ch CHR '':'') st1 = None" "eat e (ch CHR ''='') st1 = None" "eat e (ch CHR ''!'') st1 = None"
    by (metis option.exhaust)
  then show ?thesis
  proof cases
    case colon
    have "opens e st (Inr (Capture 0, st2))" by (rule mark [OF colon]) simp_all
    then show ?thesis unfolding open_group_def Some colon option.case .
  next
    case equals
    have "opens e st (Inr (Ahead False, st2))" by (rule mark [OF equals(2)]) simp_all
    then show ?thesis unfolding open_group_def Some equals option.case .
  next
    case bang
    have "opens e st (Inr (Ahead True, st2))" by (rule mark [OF bang(3)]) simp_all
    then show ?thesis unfolding open_group_def Some bang option.case .
  next
    case none: other
    show ?thesis
    proof (cases "p_peek e st1 0 = ch CHR ''<'' \<and> (p_peek e st1 1 = ch CHR ''='' \<or> p_peek e st1 1 = ch CHR ''!'')")
      case True
      have two: "at st + 3 < length (src e)" "src e ! (at st + 2) = ch CHR ''<''" "src e ! (at st + 3) = ch CHR ''='' \<or> src e ! (at st + 3) = ch CHR ''!''"
        using True p_peekD [of e st1 0] p_peekD [of e st1 1] q(1) by (auto simp: numeral_3_eq_3)
      have "quiet_between e (at st + 2) (at st + 4)"
        unfolding quiet_between_def
      proof (intro allI impI)
        fix k assume "at st + 2 \<le> k" "k < at st + 4"
        then have "k = at st + 2 \<or> k = at st + 3" by linarith
        then show "quiet (src e ! k)" using two by auto
      qed
      then have pass: "passes e (at st + 2) (at st + 4)" using two(1) by (intro quiet_passes) simp_all
      have four: "at st + 4 = Suc (Suc (Suc (Suc (at st))))" by simp
      have "opens e st (Inr (Behind (p_peek e st1 1 = ch CHR ''!''), skip_by 2 st1))"
        using pass q two four by (intro quiet_open(1)) auto
      then show ?thesis using Some none True by (simp add: open_group_def)
    next
      case named: False
      have eq: "open_group e (skip_by 1 st) =
          (case eat e (ch CHR ''<'') st1 of
              None \<Rightarrow> p_fail GroupModifier st1
            | Some st2 \<Rightarrow>
                if p_atEnd e st2 \<or> \<not> isIdentifierStart (p_peek e st2 0) then p_fail GroupNameStart st2
                else
                  (let st3 = st2\<lparr>at := skip_while isIdentifierPart (src e) (at st2)\<rparr>
                   in case eat e (ch CHR ''>'') st3 of
                        None \<Rightarrow> p_fail GroupNameEnd st3
                      | Some st4 \<Rightarrow> new_capture st4))"
        unfolding open_group_def Some none option.case if_not_P [OF named] ..
      show ?thesis
      proof (cases "eat e (ch CHR ''<'') st1")
        case None
        then show ?thesis unfolding eq using q by simp
      next
        case angle: (Some st2)
        note a = eatD(1-4) [OF angle]
        show ?thesis
        proof (cases "p_atEnd e st2 \<or> \<not> isIdentifierStart (p_peek e st2 0)")
          case True
          then show ?thesis unfolding eq using angle a by simp
        next
          case start: False
          let ?st3 = "st2\<lparr>at := skip_while isIdentifierPart (src e) (at st2)\<rparr>"
          have le: "at st2 \<le> length (src e)" using a by simp
          show ?thesis
          proof (cases "eat e (ch CHR ''>'') ?st3")
            case None
            then show ?thesis
              unfolding eq using angle start skip_while_between(2) [of "at st2" e isIdentifierPart, OF le quiet_letters(2)] by (simp add: Let_def)
          next
            case close: (Some st4)
            note name = bracketed_name [OF angle close]
            have third: "at st + 3 < length (src e)" "isIdentifierStart (src e ! (at st + 3))"
              using start a q p_peek_at [of e st2] by (auto simp: p_atEnd_def numeral_3_eq_3)
            have "opens e st (Inr (Capture (captureCounter st + 1), st4\<lparr>captureCounter := captureCounter st4 + 1\<rparr>))"
              using name a q third by (intro quiet_open(2)) (auto simp: isIdentifierStart_def isLetter_def)
            then show ?thesis unfolding eq using angle start close name q by (simp add: Let_def new_capture_def)
          qed
        qed
      qed
    qed
  qed
qed

text \<open>What the atoms rely on: the nested call reads a disjunction with one level of groups less.\<close>

definition disjunction_ok :: "penv \<Rightarrow> nat \<Rightarrow> (pstate \<Rightarrow> node parse) \<Rightarrow> bool" where
  "disjunction_ok e n disjunction \<longleftrightarrow>
     (\<forall>st. at st \<le> length (src e) \<longrightarrow>
        (case disjunction st of
           Inl (why, i) \<Rightarrow> i \<le> length (src e)
         | Inr (body, st1) \<Rightarrow>
             at st \<le> at st1 \<and> at st1 \<le> length (src e) \<and> counts e st st1 \<and> depth_of body < n \<and> node_wf e body \<and>
             captures_of body = [captureCounter st + 1..<captureCounter st1 + 1]))"

lemma eat_counts:
  assumes "eat e c st = Some st1" and "c \<noteq> ch CHR 0x5C" and "c \<noteq> ch CHR ''[''" and "c \<noteq> ch CHR ''(''"
  shows "counts e st st1"
  using eatD(1-4) [OF assms(1)] scan_plain [of "at st" e] assms(2-4) by (intro counts_same) simp_all

lemma upt_join: "a \<le> b \<Longrightarrow> b \<le> c \<Longrightarrow> [a + 1..<b + 1] @ [b + 1..<c + 1] = [a + 1..<c + 1 :: nat]"
  using upt_add_eq_append [of "a + 1" "b + 1" "c - b"] by simp

lemma parseGroup_moves:
  assumes "disjunction_ok e n disjunction" and "at st < length (src e)" and "src e ! at st = ch CHR ''(''"
  shows "moves e 1 n one st (parseGroup e disjunction st)"
proof (cases "open_group e (skip_by 1 st)")
  case (Inl why)
  then show ?thesis using open_group_opens [OF assms(2,3)] by (cases why) (simp add: parseGroup_def opens_def)
next
  case (Inr x)
  obtain kind st1 where x: "x = (kind, st1)" by (cases x)
  have o1: "at st + 1 \<le> at st1" "at st1 \<le> length (src e)" "counts e st st1" "kind_captures kind = [captureCounter st + 1..<captureCounter st1 + 1]"
    using open_group_opens [OF assms(2,3)] Inr x by simp_all
  note body = assms(1) [unfolded disjunction_ok_def, rule_format, OF o1(2)]
  show ?thesis
  proof (cases "disjunction st1")
    case l: (Inl why)
    then show ?thesis using body Inr x by (cases why) (simp add: parseGroup_def)
  next
    case r: (Inr y)
    obtain b st2 where y: "y = (b, st2)" by (cases y)
    have b: "at st1 \<le> at st2" "at st2 \<le> length (src e)" "counts e st1 st2" "depth_of b < n" "node_wf e b"
        "captures_of b = [captureCounter st1 + 1..<captureCounter st2 + 1]"
      using body r y by simp_all
    show ?thesis
    proof (cases "eat e (ch CHR '')'') st2")
      case None
      then show ?thesis using Inr x r y b by (simp add: parseGroup_def)
    next
      case (Some st3)
      note d = eatD(1-4) [OF Some]
      have "counts e st2 st3" by (rule eat_counts [OF Some]) simp_all
      then have c: "counts e st st3" using o1(3) b(3) by (blast intro: counts_trans)
      have "kind_captures kind @ captures_of b = [captureCounter st + 1..<captureCounter st3 + 1]"
        using o1(3,4) b(3,6) d(2) upt_join [of "captureCounter st" "captureCounter st1" "captureCounter st2"] by (simp add: counts_def)
      then have "built e n st [make_group kind b] st3" using b by (simp add: built_def)
      then show ?thesis using Inr x r y Some d o1 b c by (simp add: parseGroup_def)
    qed
  qed
qed

section \<open>Classes as nodes\<close>

lemma insert_longest_props:
  "set (insert_longest s ts) = insert s (set ts)"
  "sorted_wrt (\<lambda>a b. length b \<le> length a) ts \<Longrightarrow> sorted_wrt (\<lambda>a b. length b \<le> length a) (insert_longest s ts)"
proof -
  show members: "set (insert_longest s ts) = insert s (set ts)" for ts by (induction ts) auto
  show "sorted_wrt (\<lambda>a b. length b \<le> length a) ts \<Longrightarrow> sorted_wrt (\<lambda>a b. length b \<le> length a) (insert_longest s ts)"
    by (induction ts) (auto simp: members longer_first_def split: if_splits)
qed

lemma sortLongestFirst_props:
  "set (sortLongestFirst list) = set list" "sorted_wrt (\<lambda>a b. length b \<le> length a) (sortLongestFirst list)"
  unfolding sortLongestFirst_def by (induction list) (simp_all add: insert_longest_props)

lemma parseCharacterClass_moves:
  assumes "env_ok e" and "at st < length (src e)" and "src e ! at st = ch CHR ''[''"
  shows "moves e 1 n one st (parseCharacterClass levels e st)"
proof (cases "unicodeSets (pflags e)")
  case True
  note nested = readNestedClass_passes [OF assms(1) True assms(2,3), of levels]
  show ?thesis
  proof (cases "readNestedClass levels e st")
    case (Inl why)
    then show ?thesis using nested(1) True by (cases why) (simp add: parseCharacterClass_def parseClassSet_def)
  next
    case (Inr x)
    obtain v st1 where x: "x = (v, st1)" by (cases x)
    have v: "class_ok e v" "at st < at st1" "at st1 \<le> length (src e)" "captureCounter st1 = captureCounter st" using nested(1) Inr x by simp_all
    have "counts e st st1" using nested(2) Inr x v(4) by (intro counts_passes) simp_all
    moreover have "node_wf e (Class (set_ranges v) False (sortLongestFirst (set_strings v)) (set_empty v))"
      using v(1) True by (auto simp: class_ok_def strings_ok_def sortLongestFirst_props)
    ultimately show ?thesis
      using Inr x v True by (simp add: parseCharacterClass_def parseClassSet_def built_leaf)
  qed
next
  case False
  note ranges = parseClassRanges_reads [OF assms(1) False assms(2,3)]
  show ?thesis
  proof (cases "parseClassRanges e st")
    case (Inl why)
    then show ?thesis using ranges False by (cases why) (simp add: parseCharacterClass_def)
  next
    case (Inr x)
    obtain node st1 where x: "x = (node, st1)" by (cases x)
    obtain rs negated where node: "node = Class rs negated [] False" "set_ok e rs" using ranges Inr x by auto
    have "counts e st st1" using ranges Inr x by (intro counts_same) auto
    then show ?thesis using ranges Inr x node False by (simp add: parseCharacterClass_def built_leaf)
  qed
qed

section \<open>Atoms and terms\<close>

lemma parseAtom_moves:
  assumes "env_ok e" and "groups_ok e" and "disjunction_ok e n disjunction" and "at st \<le> length (src e)"
  shows "moves e 1 n one st (parseAtom levels e disjunction st)"
proof (cases "p_atEnd e st")
  case True
  then show ?thesis using assms(4) by (simp add: parseAtom_def Let_def)
next
  case False
  let ?c = "p_peek e st 0"
  have lt: "at st < length (src e)" using False by (simp add: p_atEnd_def)
  have c: "?c = src e ! at st" by (rule p_peek_at [OF False])
  have unit: "counts e st (skip_by 1 st)" if "?c \<noteq> ch CHR 0x5C" "?c \<noteq> ch CHR ''[''" "?c \<noteq> ch CHR ''(''"
    using scan_plain [OF lt] that c by (intro counts_same) simp_all
  have leaf: "moves e 1 n one st (Inr (x, skip_by 1 st))"
    if "captures_of x = []" "depth_of x = 0" "node_wf e x" "?c \<noteq> ch CHR 0x5C" "?c \<noteq> ch CHR ''[''" "?c \<noteq> ch CHR ''(''" for x
    using lt unit that by (simp add: built_leaf)
  have char: "moves e 1 n one st (case readSourceCharacter e st of (code, st1) \<Rightarrow> charNode e code st1)"
    if "?c \<noteq> ch CHR 0x5C" "?c \<noteq> ch CHR ''[''" "?c \<noteq> ch CHR ''(''"
  proof -
    obtain code st1 where r: "readSourceCharacter e st = (code, st1)" by (cases "readSourceCharacter e st")
    note s = readSourceCharacter_step [OF assms(1) False r]
    have "counts e (skip_by 1 st) st1" using s by (intro counts_passes) simp_all
    then have "counts e st st1" using unit [OF that] by (blast intro: counts_trans)
    then show ?thesis using r s charNode_moves [OF assms(1)] by simp
  qed
  show ?thesis
    using parseGroup_moves [OF assms(3) lt] parseCharacterClass_moves [OF assms(1) lt, of n levels]
      parseAtomEscape_moves [OF assms(1,2) lt, of n] leaf [of Dot] leaf [of "Assertion Start"] leaf [of "Assertion End"] char False c assms(4)
    unfolding parseAtom_def Let_def by simp
qed

text \<open>A quantifier, which the pre-scan passes.\<close>

lemma readBoundedDigits_reads:
  assumes "readBoundedDigits e i = Some (v, j)" and "i \<le> length (src e)"
  shows "i \<le> j" "j \<le> length (src e)" "quiet_between e i j" "v < kUnbounded"
proof -
  have fold_le: "foldl (\<lambda>v d. min (v * 10 + (d - ch CHR ''0'')) 0xFFFFFFFE) a ds \<le> 0xFFFFFFFE" if "a \<le> 0xFFFFFFFE" for a ds
    using that by (induction ds arbitrary: a) simp_all
  note w = skip_while_between [of i e isDecimalDigit, OF assms(2) quiet_letters(3)]
  show "i \<le> j" "j \<le> length (src e)" "quiet_between e i j" "v < kUnbounded"
    using assms(1) w fold_le [of 0 "p_substr e i j"] by (auto simp: readBoundedDigits_def Let_def kUnbounded_def split: if_splits)
qed

lemma readBraces_reads:
  assumes "readBraces e st = Some (mn, mx, st1)" and "p_peek e st 0 = ch CHR ''{''"
  shows "passes e (at st) (at st1)" "at st < at st1" "at st1 \<le> length (src e)" "captureCounter st1 = captureCounter st" "mx \<le> kUnbounded"
proof -
  have b: "at st < length (src e)" "src e ! at st = ch CHR ''{''" using p_peekD [OF assms(2)] by simp_all
  obtain lo i where lo: "readBoundedDigits e (at st + 1) = Some (lo, i)"
    using assms(1) by (auto simp: readBraces_def split: option.splits)
  note l = readBoundedDigits_reads [OF lo]
  obtain hi j where hi: "(if i < length (src e) \<and> src e ! i = ch CHR '','' then
                   (if i + 1 < length (src e) \<and> src e ! (i + 1) = ch CHR ''}'' then Some (kUnbounded, i + 1)
                    else readBoundedDigits e (i + 1))
                 else Some (lo, i)) = Some (hi, j)"
    using assms(1) lo by (auto simp: readBraces_def split: option.splits)
  have close: "j < length (src e)" "src e ! j = ch CHR ''}''" "st1 = st\<lparr>at := j + 1\<rparr>" "mx = hi"
    using assms(1) lo hi by (auto simp: readBraces_def split: if_splits)
  have "quiet_between e (at st) (at st + 1)" using b by (simp add: quiet_between_Suc)
  then have qi: "quiet_between e (at st) i" using l(3) b by (auto intro: quiet_between_trans)
  have j: "i \<le> j \<and> quiet_between e i j \<and> hi \<le> kUnbounded"
  proof (cases "i < length (src e) \<and> src e ! i = ch CHR '',''")
    case True
    have comma: "quiet_between e i (i + 1)" using True by (simp add: quiet_between_Suc)
    show ?thesis
    proof (cases "i + 1 < length (src e) \<and> src e ! (i + 1) = ch CHR ''}''")
      case False
      then have digits: "readBoundedDigits e (i + 1) = Some (hi, j)" using hi True by (simp split: if_splits)
      show ?thesis
        using readBoundedDigits_reads [OF digits] True quiet_between_trans [OF comma] by simp
    qed (use hi True comma in simp)
  next
    case False
    then show ?thesis using hi l(4) b by (auto split: if_splits)
  qed
  then have "quiet_between e (at st) (j + 1)" using qi close by (auto simp: quiet_between_Suc intro: quiet_between_trans)
  then show "passes e (at st) (at st1)" "at st < at st1" "at st1 \<le> length (src e)" "captureCounter st1 = captureCounter st" "mx \<le> kUnbounded"
    using close l j b by (auto intro: quiet_passes)
qed

lemma eat_passes:
  assumes "eat e c st = Some st1" and "quiet c"
  shows "passes e (at st) (at st1)" "at st < at st1" "at st1 \<le> length (src e)" "captureCounter st1 = captureCounter st"
  using eatD(1-4) [OF assms(1)] passes_quiet [of "at st" e] assms(2) by simp_all

lemma readQuantifier_reads:
  assumes "readQuantifier e st = Some (mn, mx, greedily, st2)"
  shows "passes e (at st) (at st2)" "at st \<le> at st2" "at st2 \<le> length (src e)" "captureCounter st2 = captureCounter st" "mx \<le> kUnbounded"
proof -
  obtain st1 where first: "passes e (at st) (at st1) \<and> at st < at st1 \<and> at st1 \<le> length (src e) \<and> captureCounter st1 = captureCounter st \<and> mx \<le> kUnbounded"
      and last: "(case eat e (ch CHR ''?'') st1 of Some st2 \<Rightarrow> Some (mn, mx, False, st2) | None \<Rightarrow> Some (mn, mx, True, st1)) = Some (mn, mx, greedily, st2)"
  proof -
    let ?first = "case eat e (ch CHR ''*'') st of
              Some st1 \<Rightarrow> Some (0, kUnbounded, st1)
            | None \<Rightarrow>
                (case eat e (ch CHR ''+'') st of
                   Some st1 \<Rightarrow> Some (1, kUnbounded, st1)
                 | None \<Rightarrow>
                     (case eat e (ch CHR ''?'') st of
                        Some st1 \<Rightarrow> Some (0, 1, st1)
                      | None \<Rightarrow> if p_peek e st 0 = ch CHR ''{'' then readBraces e st else None))"
    obtain mn' mx' st1 where f: "?first = Some (mn', mx', st1)"
      using assms by (auto simp: readQuantifier_def split: option.splits)
    then have same: "mn' = mn" "mx' = mx" using assms by (auto simp: readQuantifier_def split: option.splits)
    have "passes e (at st) (at st1) \<and> at st < at st1 \<and> at st1 \<le> length (src e) \<and> captureCounter st1 = captureCounter st \<and> mx' \<le> kUnbounded"
      using f eat_passes [of e "ch CHR ''*''" st st1] eat_passes [of e "ch CHR ''+''" st st1] eat_passes [of e "ch CHR ''?''" st st1]
        readBraces_reads [of e st mn' mx' st1]
      by (auto simp: kUnbounded_def split: option.splits if_splits)
    moreover have "(case eat e (ch CHR ''?'') st1 of Some st2 \<Rightarrow> Some (mn, mx, False, st2) | None \<Rightarrow> Some (mn, mx, True, st1)) = Some (mn, mx, greedily, st2)"
      using assms unfolding readQuantifier_def f same by simp
    ultimately show thesis unfolding same by (rule that)
  qed
  show "passes e (at st) (at st2)" "at st \<le> at st2" "at st2 \<le> length (src e)" "captureCounter st2 = captureCounter st" "mx \<le> kUnbounded"
    using first last eat_passes [of e "ch CHR ''?''" st1 st2] by (auto split: option.splits dest: passes_trans)
qed

lemma parseTerm_moves:
  assumes "env_ok e" and "groups_ok e" and "disjunction_ok e n disjunction" and "at st \<le> length (src e)"
  shows "moves e 1 n one st (parseTerm levels e disjunction st)"
proof (cases "parseAtom levels e disjunction st")
  case (Inl why)
  then show ?thesis using parseAtom_moves [OF assms, of levels] by (cases why) (simp add: parseTerm_def)
next
  case (Inr x)
  obtain atom st1 where x: "x = (atom, st1)" by (cases x)
  have a: "at st + 1 \<le> at st1" "at st1 \<le> length (src e)" "counts e st st1" "built e n st [atom] st1"
    using parseAtom_moves [OF assms, of levels] Inr x by simp_all
  show ?thesis
  proof (cases "readQuantifier e st1")
    case None
    then show ?thesis using Inr x a by (simp add: parseTerm_def)
  next
    case (Some q)
    obtain mn mx greedily st2 where q: "q = (mn, mx, greedily, st2)" by (cases q)
    note r = readQuantifier_reads [OF Some [unfolded q]]
    have c: "counts e st st2" using a(3) counts_passes [OF r(1,4)] by (rule counts_trans)
    let ?n = "captureCounter st2 - captureCounter st"
    let ?r = "\<lparr>repMin = mn, repMax = mx, greedy = greedily, firstCapture = captureCounter st + 1,
                captureCount = ?n, simpleAtom = (?n = 0 \<and> consumes_one atom)\<rparr>"
    have "built e n st [Repeat ?r atom] st2" if "\<not> is_assertion atom" "mn \<le> mx"
      using a(4) r c that by (auto simp: built_def counts_def)
    then show ?thesis using Inr x Some q r a c by (simp add: parseTerm_def Let_def)
  qed
qed

section \<open>Alternatives and disjunctions\<close>

lemma parseAlternative_moves:
  assumes "env_ok e" and "groups_ok e" and "disjunction_ok e n disjunction" and "at st \<le> length (src e)"
  shows "moves e 0 n (\<lambda>ts. ts) st (parseAlternative levels e disjunction st)"
proof -
  let ?going = "\<lambda>st. \<not> p_atEnd e st \<and> p_peek e st 0 \<noteq> ch CHR ''|'' \<and> p_peek e st 0 \<noteq> ch CHR '')''"
  let ?turn = "\<lambda>terms st. case parseTerm levels e disjunction st of Inl why \<Rightarrow> Inl why | Inr (term, st1) \<Rightarrow> Inr (terms @ [term], st1)"
  let ?I = "\<lambda>ts s. at st \<le> at s \<and> at s \<le> length (src e) \<and> counts e st s \<and> built e n st ts s"
  have "case p_while ?going ?turn [] st of Inl why \<Rightarrow> snd why \<le> length (src e) | Inr (ts, s) \<Rightarrow> ?I ts s \<and> \<not> ?going s"
  proof (rule p_while_rule [where n = "length (src e)"])
    fix a s why assume "?I a s" "?going s" "?turn a s = Inl why"
    then show "snd why \<le> length (src e)"
      using parseTerm_moves [OF assms(1-3), of s levels] by (cases why) (auto split: sum.splits)
  next
    fix a s a' s' assume i: "?I a s" and t: "?turn a s = Inr (a', s')"
    then obtain x where x: "parseTerm levels e disjunction s = Inr (x, s')" "a' = a @ [x]" by (auto split: sum.splits)
    have m: "at s + 1 \<le> at s'" "at s' \<le> length (src e)" "counts e s s'" "built e n s [x] s'"
      using parseTerm_moves [OF assms(1-3), of s levels] i x by simp_all
    have "counts e st s'" using i m by (blast intro: counts_trans)
    moreover have "built e n st (a @ [x]) s'" using i m by (intro built_append [of e n st a s]) (simp_all add: counts_def)
    ultimately show "?I a' s' \<and> at s < at s'" using i m x by simp
  qed (use assms(4) in \<open>auto simp: p_atEnd_def\<close>)
  then show ?thesis
    unfolding parseAlternative_def moves_def by (auto split: sum.splits)
qed

lemma parseDisjunction_ok:
  assumes "env_ok e" and "groups_ok e"
  shows "disjunction_ok e levels (parseDisjunction levels e)"
proof (induction levels)
  case 0
  show ?case by (simp add: disjunction_ok_def p_fail_def)
next
  case (Suc levels)
  let ?alt = "parseAlternative levels e (parseDisjunction levels e)"
  let ?going = "\<lambda>st. eat e (ch CHR ''|'') st \<noteq> None"
  let ?turn = "\<lambda>alts st. case ?alt (skip_by 1 st) of Inl why \<Rightarrow> Inl why | Inr (alt, st1) \<Rightarrow> Inr (alts @ [alt], st1)"
  note alternative = parseAlternative_moves [OF assms Suc.IH]
  show ?case
    unfolding disjunction_ok_def
  proof (intro allI impI)
    fix st :: pstate assume st: "at st \<le> length (src e)"
    show "case parseDisjunction (Suc levels) e st of
           Inl (why, i) \<Rightarrow> i \<le> length (src e)
         | Inr (body, st1) \<Rightarrow>
             at st \<le> at st1 \<and> at st1 \<le> length (src e) \<and> counts e st st1 \<and> depth_of body < Suc levels \<and> node_wf e body \<and>
             captures_of body = [captureCounter st + 1..<captureCounter st1 + 1]"
    proof (cases "?alt st")
      case (Inl why)
      then show ?thesis using alternative [OF st, of levels] by (cases why) simp
    next
      case (Inr x)
      obtain alt st1 where x: "x = (alt, st1)" by (cases x)
      have a: "at st \<le> at st1" "at st1 \<le> length (src e)" "counts e st st1" "built e levels st alt st1"
        using alternative [OF st, of levels] Inr x by simp_all
      show ?thesis
      proof (cases "p_peek e st1 0 \<noteq> ch CHR ''|''")
        case True
        then show ?thesis using Inr x a by (simp add: built_def less_Suc_eq_le)
      next
        case False
        let ?I = "\<lambda>alts s. at st \<le> at s \<and> at s \<le> length (src e) \<and> counts e st s \<and> built e levels st (concat alts) s"
        have loop: "case p_while ?going ?turn [alt] st1 of Inl why \<Rightarrow> snd why \<le> length (src e) | Inr (alts, s) \<Rightarrow> ?I alts s \<and> \<not> ?going s"
        proof (rule p_while_rule [where n = "length (src e)"])
          show "at s < length (src e)" if "?I as s" "?going s" for as s
            using that(2) by (auto simp: eat_def p_atEnd_def split: if_splits)
        next
          fix as s why assume "?I as s" "?going s" "?turn as s = Inl why"
          then show "snd why \<le> length (src e)"
            using alternative [of "skip_by 1 s" levels] by (cases why) (auto simp: eat_def p_atEnd_def split: sum.splits if_splits)
        next
          fix as s as' s' assume i: "?I as s" and g: "?going s" and t: "?turn as s = Inr (as', s')"
          obtain s1 where s1: "eat e (ch CHR ''|'') s = Some s1" using g by auto
          note d = eatD [OF s1]
          have bar: "counts e s (skip_by 1 s)" using eat_counts [OF s1] d(5) by simp
          obtain alt where alt: "?alt (skip_by 1 s) = Inr (alt, s')" "as' = as @ [alt]" using t by (auto split: sum.splits)
          have m: "at s + 1 \<le> at s'" "at s' \<le> length (src e)" "counts e (skip_by 1 s) s'" "built e levels (skip_by 1 s) alt s'"
            using alternative [of "skip_by 1 s" levels] d(3) alt by simp_all
          have "counts e st s'" using i bar m(3) by (blast intro: counts_trans)
          moreover have "built e levels s alt s'" using m(4) by (simp add: built_def)
          then have "built e levels st (concat as @ alt) s'"
            using i m(3) by (intro built_append [of e levels st "concat as" s]) (simp_all add: counts_def)
          ultimately show "?I as' s' \<and> at s < at s'" using i m alt by simp
        qed (use a in simp)
        have eq: "parseDisjunction (Suc levels) e st =
            (case p_while ?going ?turn [alt] st1 of Inl why \<Rightarrow> Inl why | Inr (alts, st2) \<Rightarrow> Inr (Alternation alts, st2))"
          unfolding parseDisjunction.simps Inr x sum.case prod.case if_not_P [OF False] ..
        have shape: "captures_of (Alternation alts) = concat (map captures_of (concat alts))" for alts
          by (induction alts) simp_all
        show ?thesis
        proof (cases "p_while ?going ?turn [alt] st1")
          case l: (Inl why)
          then show ?thesis using loop unfolding eq by (cases why) simp
        next
          case r: (Inr y)
          obtain alts st2 where y: "y = (alts, st2)" by (cases y)
          have "?I alts st2" using loop r y by simp
          then show ?thesis unfolding eq r y sum.case prod.case shape by (auto simp: built_def less_Suc_eq_le)
        qed
      qed
    qed
  qed
qed

end
