(* ===== verification/Regex_Semantics.thy ===== *)
theory Regex_Semantics
  imports Regex_Matcher
begin

text \<open>
  What a pattern means, without continuations, budgets or state: the outcomes of a node from a position
  and captures, in the order the matcher prefers them (ECMA-262 22.2.2). A quantifier is \<open>repeats\<close> for
  every atom, counted or not. The lemmas here say how outcomes move and that they keep positions and
  captures on character boundaries; what the matcher computes is compared with them afterwards.
\<close>

type_synonym outcome = "nat \<times> int list"

section \<open>Meaning\<close>

text \<open>How much input is left in a direction.\<close>

definition left :: "matcher \<Rightarrow> bool \<Rightarrow> nat \<Rightarrow> nat" where
  "left m backward p = (if backward then p else length (input m) - p)"

text \<open>
  RepeatMatcher (22.2.2.3.1). A turn taken after the minimum is met has to use up input, which ends the
  recursion; \<open>left_moves\<close> below shows that not using up input is not moving.
\<close>

function repeats ::
  "(outcome \<Rightarrow> outcome list) \<Rightarrow> (nat \<Rightarrow> nat) \<Rightarrow> bool \<Rightarrow> (int list \<Rightarrow> int list) \<Rightarrow> nat \<Rightarrow> nat option \<Rightarrow> outcome \<Rightarrow> outcome list" where
  "repeats body rest greed clear mn mx x =
     (if mx = Some 0 then [x]
      else
        (let turns = concat (map (\<lambda>y. if mn = 0 \<and> \<not> rest (fst y) < rest (fst x) then []
                                      else repeats body rest greed clear (mn - 1) (map_option (\<lambda>n. n - 1) mx) y)
                        (body (fst x, clear (snd x))))
         in if mn \<noteq> 0 then turns else if greed then turns @ [x] else x # turns))"
  by pat_completeness auto
termination
  by (relation "inv_image (less_than <*lex*> less_than) (\<lambda>(body, rest, greed, clear, mn, mx, x). (mn, rest (fst x)))") auto

declare repeats.simps [simp del]

lemma repeats_cong [fundef_cong]:
  assumes "\<And>x. body x = body' x" "rest = rest'" "greed = greed'" "clear = clear'" "mn = mn'" "mx = mx'" "x = x'"
  shows "repeats body rest greed clear mn mx x = repeats body' rest' greed' clear' mn' mx' x'"
proof -
  have "body = body'" using assms(1) by (intro ext)
  then show ?thesis using assms by simp
qed

definition max_of :: "nat \<Rightarrow> nat option" where
  "max_of mx = (if mx = kUnbounded then None else Some mx)"

definition one_character :: "matcher \<Rightarrow> node \<Rightarrow> bool \<Rightarrow> outcome \<Rightarrow> outcome list" where
  "one_character m node bw x = (case step_one m node bw (fst x) of None \<Rightarrow> [] | Some p \<Rightarrow> [(p, snd x)])"

definition class_outcomes ::
  "matcher \<Rightarrow> node \<Rightarrow> RangeList \<Rightarrow> nat list list \<Rightarrow> bool \<Rightarrow> bool \<Rightarrow> outcome \<Rightarrow> outcome list" where
  "class_outcomes m node ranges strings matchesEmpty bw x =
     map (\<lambda>p. (p, snd x)) (List.map_filter (consume_member m bw (fst x)) strings) @
     (if ranges \<noteq> [] then one_character m node bw x else []) @ (if matchesEmpty then [x] else [])"

definition back_outcomes :: "matcher \<Rightarrow> nat \<Rightarrow> bool \<Rightarrow> outcome \<Rightarrow> outcome list" where
  "back_outcomes m i bw x = (case back_to m i bw (fst x) (snd x) of None \<Rightarrow> [] | Some p \<Rightarrow> [(p, snd x)])"

definition look_outcomes :: "bool \<Rightarrow> outcome list \<Rightarrow> outcome \<Rightarrow> outcome list" where
  "look_outcomes neg ys x =
     (case ys of [] \<Rightarrow> if neg then [x] else [] | y # _ \<Rightarrow> if neg then [] else [(fst x, snd y)])"

fun sem :: "matcher \<Rightarrow> node \<Rightarrow> bool \<Rightarrow> outcome \<Rightarrow> outcome list"
  and sem_seq :: "matcher \<Rightarrow> node list \<Rightarrow> bool \<Rightarrow> outcome \<Rightarrow> outcome list"
  and sem_alts :: "matcher \<Rightarrow> node list list \<Rightarrow> bool \<Rightarrow> outcome \<Rightarrow> outcome list"
where
  "sem m (Alternation alts) bw x = sem_alts m alts bw x"
| "sem m (Sequence terms) bw x = sem_seq m terms bw x"
| "sem m (Character ch) bw x = one_character m (Character ch) bw x"
| "sem m Dot bw x = one_character m Dot bw x"
| "sem m (Class ranges negated strings matchesEmpty) bw x =
     (if strings \<noteq> [] \<or> matchesEmpty
      then class_outcomes m (Class ranges negated strings matchesEmpty) ranges strings matchesEmpty bw x
      else one_character m (Class ranges negated strings matchesEmpty) bw x)"
| "sem m (Assertion a) bw x = (if assertionHolds m a (fst x) then [x] else [])"
| "sem m (Lookahead neg child) bw x = look_outcomes neg (sem m child False x) x"
| "sem m (Lookbehind neg child) bw x = look_outcomes neg (sem m child True x) x"
| "sem m (Group i child) bw x =
     (if i = 0 then sem m child bw x else map (\<lambda>y. (fst y, set_capture i (fst x) (fst y) (snd y))) (sem m child bw x))"
| "sem m (Backreference i) bw x = back_outcomes m i bw x"
| "sem m (Repeat r atom) bw x =
     repeats (\<lambda>y. sem m atom bw y) (left m bw) (greedy r) (clearRepeatCaptures r) (repMin r) (max_of (repMax r)) x"
| "sem_seq m [] bw x = [x]"
| "sem_seq m (t # ts) bw x =
     (if bw then concat (map (\<lambda>y. sem m t bw y) (sem_seq m ts bw x)) else concat (map (\<lambda>y. sem_seq m ts bw y) (sem m t bw x)))"
| "sem_alts m [] bw x = []"
| "sem_alts m (ts # alts) bw x = sem_seq m ts bw x @ sem_alts m alts bw x"

section \<open>Well-formed patterns\<close>

text \<open>An atom that consumes exactly one character.\<close>

fun single :: "node \<Rightarrow> bool" where
  "single (Character ch) = True"
| "single Dot = True"
| "single (Class ranges negated strings matchesEmpty) \<longleftrightarrow> strings = [] \<and> \<not> matchesEmpty"
| "single _ = False"

text \<open>
  What the parser establishes of every node in a pattern with \<open>n\<close> groups (\<open>parseTerm\<close>, \<open>parseGroup\<close>,
  \<open>parseAtomEscape\<close>), except for the one restriction on backreferences: under \<open>u\<close>, none is matched
  backward.
\<close>

fun node_ok :: "matcher \<Rightarrow> nat \<Rightarrow> bool \<Rightarrow> node \<Rightarrow> bool" where
  "node_ok m n bw (Alternation alts) \<longleftrightarrow> (\<forall>ts \<in> set alts. \<forall>t \<in> set ts. node_ok m n bw t)"
| "node_ok m n bw (Sequence ts) \<longleftrightarrow> (\<forall>t \<in> set ts. node_ok m n bw t)"
| "node_ok m n bw (Lookahead neg child) \<longleftrightarrow> node_ok m n False child"
| "node_ok m n bw (Lookbehind neg child) \<longleftrightarrow> node_ok m n True child"
| "node_ok m n bw (Group i child) \<longleftrightarrow> i \<le> n \<and> node_ok m n bw child"
| "node_ok m n bw (Backreference i) \<longleftrightarrow> i \<le> n \<and> \<not> (unicode_of m \<and> bw)"
| "node_ok m n bw (Repeat r atom) \<longleftrightarrow>
     node_ok m n bw atom \<and> repMin r \<le> repMax r \<and> repMax r \<le> kUnbounded \<and>
     (captureCount r = 0 \<or> firstCapture r + captureCount r \<le> n + 1) \<and>
     (simpleAtom r \<longrightarrow> single atom \<and> captureCount r = 0)"
| "node_ok m n bw _ \<longleftrightarrow> True"

definition pos_ok :: "matcher \<Rightarrow> nat \<Rightarrow> bool" where
  "pos_ok m p \<longleftrightarrow> p \<le> length (input m) \<and> boundary (input m) (unicode_of m) p"

text \<open>Every capture is unset or an ordered pair of positions.\<close>

definition capture_ok :: "matcher \<Rightarrow> int \<Rightarrow> int \<Rightarrow> bool" where
  "capture_ok m s e \<longleftrightarrow> s = kUnset \<and> e = kUnset \<or> 0 \<le> s \<and> s \<le> e \<and> pos_ok m (nat s) \<and> pos_ok m (nat e)"

definition caps_ok :: "matcher \<Rightarrow> nat \<Rightarrow> int list \<Rightarrow> bool" where
  "caps_ok m n caps \<longleftrightarrow> length caps = 2 * (n + 1) \<and> (\<forall>i \<le> n. capture_ok m (caps ! (2 * i)) (caps ! (2 * i + 1)))"

definition out_ok :: "matcher \<Rightarrow> nat \<Rightarrow> outcome \<Rightarrow> bool" where
  "out_ok m n x \<longleftrightarrow> pos_ok m (fst x) \<and> caps_ok m n (snd x)"

text \<open>A move in a direction.\<close>

definition moved :: "bool \<Rightarrow> nat \<Rightarrow> nat \<Rightarrow> bool" where
  "moved bw p q \<longleftrightarrow> (if bw then q \<le> p else p \<le> q)"

definition input_ok :: "matcher \<Rightarrow> bool" where
  "input_ok m \<longleftrightarrow> (\<forall>u \<in> set (input m). u < 2 ^ 16)"

section \<open>Moves\<close>

lemma moved_refl [simp]: "moved bw p p"
  by (simp add: moved_def)

lemma moved_trans [trans]: "moved bw p q \<Longrightarrow> moved bw q r \<Longrightarrow> moved bw p r"
  by (auto simp: moved_def split: if_splits)

text \<open>An outcome that is not where it started has used up input.\<close>

lemma left_moves: "moved bw p q \<Longrightarrow> q \<le> length (input m) \<Longrightarrow> left m bw q < left m bw p \<longleftrightarrow> q \<noteq> p"
  by (auto simp: moved_def left_def split: if_splits)

lemma boundary_units: "\<not> u \<Longrightarrow> boundary inp u p"
  by (simp add: boundary_def)

lemma step_at:
  assumes "pos_ok m p" and "p < length (input m)"
  shows "pos_ok m (p + snd (characterAt m p))" and "characterBefore m (p + snd (characterAt m p)) = characterAt m p"
    and "0 < snd (characterAt m p)"
  using assms decode_forth_back [of p "input m" "unicode_of m"] width_at(1) [of "input m" p "unicode_of m"]
    width_at(2) [of p "input m" "unicode_of m"]
  by (auto simp: pos_ok_def characterAt_def characterBefore_def)

lemma step_before:
  assumes "pos_ok m p" and "0 < p"
  shows "pos_ok m (p - snd (characterBefore m p))" and "characterAt m (p - snd (characterBefore m p)) = characterBefore m p"
    and "0 < snd (characterBefore m p)" and "snd (characterBefore m p) \<le> p"
  using assms decode_back_forth [of p "input m" "unicode_of m"] width_before(1) [of "input m" p "unicode_of m"]
    width_before(2) [of p "input m" "unicode_of m"]
  by (auto simp: pos_ok_def characterAt_def characterBefore_def)

lemma step_one_ok:
  assumes "step_one m node bw p = Some q" and "pos_ok m p"
  shows "pos_ok m q" and "moved bw p q" and "left m bw q < left m bw p" and "shrink m bw q = p" and "grow m bw p = q"
proof -
  note at = step_at [OF assms(2)] and before = step_before [OF assms(2)]
  show "pos_ok m q" "moved bw p q" "shrink m bw q = p" "grow m bw p = q"
    using assms(1) at before
    by (auto simp: step_one_def moved_def shrink_def grow_def split: if_splits prod.splits)
  show "left m bw q < left m bw p"
    using step_one_moves [OF assms(1)] by (auto simp: left_def)
qed

lemma consume_ok:
  assumes "consume m bw cs p = Some q" and "pos_ok m p"
  shows "pos_ok m q \<and> moved bw p q"
  using assms
proof (induction cs arbitrary: p)
  case (Cons c cs)
  show ?case
  proof (cases bw)
    case True
    then show ?thesis
      using Cons.prems(1) Cons.IH [OF _ step_before(1) [OF Cons.prems(2)]]
      by (auto simp: moved_def split: if_splits prod.splits)
  next
    case False
    then show ?thesis
      using Cons.prems(1) Cons.IH [OF _ step_at(1) [OF Cons.prems(2)]]
      by (auto simp: moved_def split: if_splits prod.splits)
  qed
qed simp

text \<open>Two characters a backreference calls the same are as wide as each other.\<close>

lemma same_width:
  assumes "input_ok m" and "p < length (input m)" and "q < length (input m)" and "sameCharacter m (characterAt m p) (characterAt m q)"
  shows "snd (characterAt m p) = snd (characterAt m q)"
proof -
  have small: "input m ! i < 2 ^ 16" if "i < length (input m)" for i
    using assms(1) that by (simp add: input_ok_def)
  have wide: "snd (characterAt m i) = (if fst (characterAt m i) < 2 ^ 16 then 1 else 2)" if "i < length (input m)" for i
    using small [OF that] by (auto simp: characterAt_def codePointAt_def Let_def combineSurrogates_def)
  show ?thesis
    using assms(4) wide [OF assms(2)] wide [OF assms(3)] by (auto simp: sameCharacter_def split: if_splits)
qed

lemma inside_character:
  assumes "pos_ok m p" and "pos_ok m q" and "p < q"
  shows "p + snd (characterAt m p) \<le> q"
proof (rule ccontr)
  assume "\<not> ?thesis"
  then have "snd (characterAt m p) = 2" "q = p + 1"
    using assms(3) by (auto simp: characterAt_def codePointAt_def Let_def split: if_splits)
  then show False
    using assms(2) by (auto simp: pos_ok_def boundary_def characterAt_def codePointAt_def Let_def split: if_splits)
qed

lemma same_text_ok:
  assumes "input_ok m" and "pos_ok m (start + len)" and "from + len \<le> length (input m)"
    and "same_text m start from len i" and "pos_ok m (start + i)" and "pos_ok m (from + i)" and "i \<le> len"
  shows "pos_ok m (from + len)"
  using assms
proof (induction m start "from" len i rule: same_text.induct)
  case (1 m start "from" len i)
  show ?case
  proof (cases "i < len")
    case True
    let ?a = "characterAt m (start + i)" and ?b = "characterAt m (from + i)"
    have same: "sameCharacter m ?a ?b" and rest: "same_text m start from len (i + snd ?a)"
      using "1.prems"(4) True by (simp_all add: same_text.simps [of m start "from" len i] Let_def split: if_splits)
    have in1: "start + i < length (input m)" and in2: "from + i < length (input m)"
      using True "1.prems"(2,3) by (auto simp: pos_ok_def)
    have w: "snd ?a = snd ?b" by (rule same_width [OF "1.prems"(1) in1 in2 same])
    have "start + i + snd ?a \<le> start + len"
      using inside_character [OF "1.prems"(5,2)] True by simp
    then show ?thesis
      using "1.IH" [OF True refl refl same "1.prems"(1-3) rest] step_at(1) [OF "1.prems"(5) in1] step_at(1) [OF "1.prems"(6) in2] w
      by (simp add: add.assoc)
  next
    case False
    then show ?thesis using "1.prems"(6,7) by simp
  qed
qed

lemma back_to_ok:
  assumes "input_ok m" and "back_to m i bw p caps = Some q" and "pos_ok m p" and "caps_ok m n caps" and "i \<le> n" and "\<not> (unicode_of m \<and> bw)"
  shows "pos_ok m q \<and> moved bw p q"
proof -
  have c: "capture_ok m (caps ! (2 * i)) (caps ! (2 * i + 1))" using assms(4,5) by (simp add: caps_ok_def)
  show ?thesis
  proof (cases "unicode_of m")
    case False
    then show ?thesis
      using assms(2,3) by (auto simp: back_to_def Let_def pos_ok_def boundary_units moved_def split: if_splits)
  next
    case True
    then have bw: "\<not> bw" using assms(6) by simp
    show ?thesis
    proof (cases "caps ! (2 * i) = kUnset \<or> caps ! (2 * i + 1) = kUnset")
      case False
      let ?s = "nat (caps ! (2 * i))" and ?len = "nat (caps ! (2 * i + 1) - caps ! (2 * i))"
      have s: "pos_ok m ?s" "pos_ok m (?s + ?len)" using c False by (auto simp: capture_ok_def nat_add_distrib [symmetric])
      have "p + ?len \<le> length (input m)" "same_text m ?s p ?len 0" "q = p + ?len"
        using assms(2) False bw by (auto simp: back_to_def Let_def split: if_splits)
      then show ?thesis
        using same_text_ok [OF assms(1) s(2), of p 0] s(1) assms(3) bw by (simp add: moved_def)
    qed (use assms(2,3) in \<open>simp add: back_to_def Let_def\<close>)
  qed
qed

section \<open>Captures\<close>

lemma capture_update:
  assumes "caps_ok m n caps" and "i \<le> n" and "capture_ok m s e"
  shows "caps_ok m n (caps[2 * i := s, 2 * i + 1 := e])"
proof -
  have "caps[2 * i := s, 2 * i + 1 := e] ! (2 * j) = (if i = j then s else caps ! (2 * j))"
       "caps[2 * i := s, 2 * i + 1 := e] ! (2 * j + 1) = (if i = j then e else caps ! (2 * j + 1))" if "j \<le> n" for j
    using assms(1,2) that by (auto simp: caps_ok_def nth_list_update; presburger)+
  then show ?thesis using assms by (simp add: caps_ok_def)
qed

lemma set_capture_ok: "caps_ok m n caps \<Longrightarrow> i \<le> n \<Longrightarrow> pos_ok m p \<Longrightarrow> pos_ok m q \<Longrightarrow> caps_ok m n (set_capture i p q caps)"
  unfolding set_capture_def by (rule capture_update) (auto simp: capture_ok_def)

lemma clear_ok:
  assumes "caps_ok m n caps" and "captureCount r = 0 \<or> firstCapture r + captureCount r \<le> n + 1"
  shows "caps_ok m n (clearRepeatCaptures r caps)"
proof -
  have "caps_ok m n (fold (\<lambda>i caps. caps[2 * (firstCapture r + i) := kUnset, 2 * (firstCapture r + i) + 1 := kUnset]) is caps)"
    if "\<forall>i \<in> set is. i < captureCount r" and "caps_ok m n caps" for "is" caps
    using that
  proof (induction "is" arbitrary: caps)
    case (Cons i "is")
    have "firstCapture r + i \<le> n" using Cons.prems(1) assms(2) by auto
    from capture_update [OF Cons.prems(2) this, of kUnset kUnset] show ?case
      using Cons.prems(1) unfolding fold.simps comp_def by (intro Cons.IH) (auto simp: capture_ok_def)
  qed simp
  then show ?thesis using assms(1) by (simp add: clearRepeatCaptures_def)
qed

text \<open>Restoring what was saved undoes the clearing.\<close>

lemma nth_pairs: "i < k \<Longrightarrow> concat (map (\<lambda>i. [f i, g i]) [0..<k]) ! (i * 2) = f i \<and> concat (map (\<lambda>i. [f i, g i]) [0..<k]) ! (i * 2 + 1) = g i"
proof (induction k)
  case (Suc k)
  have "length (concat (map (\<lambda>i. [f i, g i]) [0..<k])) = 2 * k" by (simp add: length_concat sum_list_triv comp_def)
  then show ?case using Suc by (cases "i = k") (auto simp: nth_append)
qed simp

lemma updates_agree:
  assumes "\<forall>i \<in> set is. g i = c ! (f i) \<and> h i = c ! (f i + 1)" and "length caps = length c"
    and "\<forall>j < length c. caps ! j = c ! j \<or> (\<exists>i \<in> set is. j = f i \<or> j = f i + 1)"
  shows "fold (\<lambda>i caps. caps[f i := g i, f i + 1 := h i]) is caps = c"
  using assms
proof (induction "is" arbitrary: caps)
  case Nil
  then show ?case by (simp add: list_eq_iff_nth_eq)
next
  case (Cons i "is")
  show ?case
    unfolding fold.simps comp_def
  proof (rule Cons.IH)
    show "\<forall>j < length c. caps[f i := g i, f i + 1 := h i] ! j = c ! j \<or> (\<exists>i \<in> set is. j = f i \<or> j = f i + 1)"
    proof (intro allI impI)
      fix j
      assume j: "j < length c"
      then show "caps[f i := g i, f i + 1 := h i] ! j = c ! j \<or> (\<exists>i \<in> set is. j = f i \<or> j = f i + 1)"
        using Cons.prems by (cases "j = f i"; cases "j = f i + 1") auto
    qed
  qed (use Cons.prems in auto)
qed

lemma updates_elsewhere:
  "\<forall>i \<in> set is. j \<noteq> f i \<and> j \<noteq> f i + 1 \<Longrightarrow> fold (\<lambda>i caps. caps[f i := g i, f i + 1 := h i]) is caps ! j = caps ! j"
  by (induction "is" arbitrary: caps) auto

lemma updates_length [simp]: "length (fold (\<lambda>i caps. caps[f i := g i, f i + 1 := h i]) is caps) = length caps"
  by (induction "is" arbitrary: caps) auto

lemma restore_clear: "restoreRepeatCaptures r (saveRepeatCaptures r caps) (clearRepeatCaptures r caps) = caps"
  unfolding restoreRepeatCaptures_def clearRepeatCaptures_def saveRepeatCaptures_def
proof (rule updates_agree, goal_cases)
  case 1
  show ?case by (intro ballI nth_pairs) simp
next
  case 3
  show ?case by (intro allI impI disjCI updates_elsewhere) blast
qed (rule updates_length)

lemma clear_none: "captureCount r = 0 \<Longrightarrow> clearRepeatCaptures r caps = caps"
  by (simp add: clearRepeatCaptures_def)

section \<open>Outcomes keep the invariant and move in their direction\<close>

definition reaches :: "matcher \<Rightarrow> nat \<Rightarrow> bool \<Rightarrow> outcome \<Rightarrow> outcome list \<Rightarrow> bool" where
  "reaches m n bw x ys \<longleftrightarrow> (\<forall>y \<in> set ys. out_ok m n y \<and> moved bw (fst x) (fst y))"

lemma reaches_simps [simp]:
  "reaches m n bw x []"
  "reaches m n bw x (y # ys) \<longleftrightarrow> out_ok m n y \<and> moved bw (fst x) (fst y) \<and> reaches m n bw x ys"
  "reaches m n bw x (ys @ zs) \<longleftrightarrow> reaches m n bw x ys \<and> reaches m n bw x zs"
  by (auto simp: reaches_def)

lemma reaches_bind:
  assumes "reaches m n bw x ys" and "\<And>y. y \<in> set ys \<Longrightarrow> out_ok m n y \<Longrightarrow> reaches m n bw y (f y)"
  shows "reaches m n bw x (concat (map f ys))"
  using assms moved_trans by (fastforce simp: reaches_def)

lemma repeats_reach:
  assumes "\<And>x. out_ok m n x \<Longrightarrow> reaches m n bw x (body x)"
    and "\<And>x. out_ok m n x \<Longrightarrow> out_ok m n (fst x, clear (snd x))" and "out_ok m n x"
  shows "reaches m n bw x (repeats body rest greed clear mn mx x)"
  using assms
proof (induction body rest greed clear mn mx x rule: repeats.induct)
  case (1 body rest greed clear mn mx x)
  let ?next = "\<lambda>y. if mn = 0 \<and> \<not> rest (fst y) < rest (fst x) then []
    else repeats body rest greed clear (mn - 1) (map_option (\<lambda>n. n - 1) mx) y"
  have "reaches m n bw x (concat (map ?next (body (fst x, clear (snd x)))))" if "mx \<noteq> Some 0"
  proof (rule reaches_bind)
    show "reaches m n bw x (body (fst x, clear (snd x)))"
      using "1.prems"(1) [OF "1.prems"(2) [OF "1.prems"(3)]] by (simp add: reaches_def)
    show "reaches m n bw y (?next y)" if "y \<in> set (body (fst x, clear (snd x)))" "out_ok m n y" for y
      using "1.IH" [OF \<open>mx \<noteq> Some 0\<close> that(1) _ "1.prems"(1,2) that(2)] by simp
  qed
  moreover have "repeats body rest greed clear mn mx x =
      (if mx = Some 0 then [x] else
        (let turns = concat (map ?next (body (fst x, clear (snd x))))
         in if mn \<noteq> 0 then turns else if greed then turns @ [x] else x # turns))"
    by (rule repeats.simps)
  ultimately show ?case
    using "1.prems"(3) by (cases "mx = Some 0"; cases "mn \<noteq> 0"; cases greed) (simp_all only: Let_def if_True if_False reaches_simps moved_refl simp_thms)
qed

lemma out_ok_capture: "out_ok m n x \<Longrightarrow> out_ok m n y \<Longrightarrow> i \<le> n \<Longrightarrow> out_ok m n (fst y, set_capture i (fst x) (fst y) (snd y))"
  by (simp add: out_ok_def set_capture_ok)

lemma one_character_reach: "out_ok m n x \<Longrightarrow> reaches m n bw x (one_character m node bw x)"
  using step_one_ok(1,2) [of m node bw "fst x"] by (auto simp: one_character_def out_ok_def split: option.split)

lemma consume_member_ok: "consume_member m bw p s = Some q \<Longrightarrow> pos_ok m p \<Longrightarrow> pos_ok m q \<and> moved bw p q"
  unfolding consume_member_def by (rule consume_ok)

lemma member_reach: "out_ok m n x \<Longrightarrow> reaches m n bw x (map (\<lambda>p. (p, snd x)) (List.map_filter (consume_member m bw (fst x)) ss))"
proof (induction ss)
  case (Cons s ss)
  then show ?case
    using consume_member_ok [of m bw "fst x" s] by (simp add: List.map_filter_simps out_ok_def split: option.split)
qed (simp add: List.map_filter_simps)

lemma class_reach: "out_ok m n x \<Longrightarrow> reaches m n bw x (class_outcomes m node rs ss e bw x)"
  by (simp add: class_outcomes_def one_character_reach member_reach)

lemma sem_reach:
  "input_ok m \<Longrightarrow> node_ok m n bw node \<Longrightarrow> out_ok m n x \<Longrightarrow> reaches m n bw x (sem m node bw x)"
  "input_ok m \<Longrightarrow> \<forall>t \<in> set terms. node_ok m n bw t \<Longrightarrow> out_ok m n x \<Longrightarrow> reaches m n bw x (sem_seq m terms bw x)"
  "input_ok m \<Longrightarrow> \<forall>ts \<in> set alts. \<forall>t \<in> set ts. node_ok m n bw t \<Longrightarrow> out_ok m n x \<Longrightarrow> reaches m n bw x (sem_alts m alts bw x)"
proof (induction m node bw x and m terms bw x and m alts bw x rule: sem_sem_seq_sem_alts.induct)
  case (10 m i bw x)
  then show ?case using back_to_ok [of m i bw "fst x" "snd x" _ n] by (auto simp: back_outcomes_def out_ok_def split: option.split)
next
  case (11 m r atom bw x)
  show ?case
    unfolding sem.simps
  proof (rule repeats_reach)
    show "out_ok m n (fst y, clearRepeatCaptures r (snd y))" if "out_ok m n y" for y
      using that "11.prems"(2) clear_ok by (simp add: out_ok_def)
  qed (use 11 in auto)
next
  case (7 m neg child bw x)
  then show ?case by (auto simp: look_outcomes_def out_ok_def split: list.split)
next
  case (8 m neg child bw x)
  then show ?case by (auto simp: look_outcomes_def out_ok_def split: list.split)
next
  case (9 m i child bw x)
  then show ?case using out_ok_capture [of m n x] by (auto simp: reaches_def)
next
  case (13 m t ts bw x)
  then show ?case by (auto intro!: reaches_bind)
qed (auto simp: one_character_reach class_reach)

section \<open>The counted quantifier\<close>

text \<open>The positions reached by matching an atom up to \<open>mx\<close> times.\<close>

function runs :: "matcher \<Rightarrow> node \<Rightarrow> bool \<Rightarrow> nat option \<Rightarrow> nat \<Rightarrow> nat list" where
  "runs m atom bw mx p =
     p # (if mx = Some 0 then []
          else case step_one m atom bw p of None \<Rightarrow> [] | Some q \<Rightarrow> runs m atom bw (map_option (\<lambda>n. n - 1) mx) q)"
  by pat_completeness auto
termination
  by (relation "measure (\<lambda>(m, atom, bw, mx, p). if bw then p else length (input m) - p)") (auto dest: step_one_moves)

declare runs.simps [simp del]

lemma runs_Cons: "\<exists>ps. runs m atom bw mx p = p # ps"
  by (subst runs.simps) auto

lemma runs_chain:
  assumes "pos_ok m p"
  shows "successively (\<lambda>a b. b = grow m bw a \<and> a = shrink m bw b) (runs m atom bw mx p)"
  using assms
proof (induction m atom bw mx p rule: runs.induct)
  case (1 m atom bw mx p)
  show ?case
  proof (cases "mx = Some 0 \<or> step_one m atom bw p = None")
    case True
    then show ?thesis by (subst runs.simps) auto
  next
    case False
    then obtain q where q: "mx \<noteq> Some 0" "step_one m atom bw p = Some q" by auto
    obtain ps where ps: "runs m atom bw (map_option (\<lambda>n. n - 1) mx) q = q # ps" using runs_Cons by blast
    show ?thesis
      using "1.IH" [OF q step_one_ok(1) [OF q(2) "1.prems"]] step_one_ok(4,5) [OF q(2) "1.prems"] q ps
      by (subst runs.simps) simp
  qed
qed

lemma walk_chain: "successively (\<lambda>a b. b = f a) (x # xs) \<Longrightarrow> walk f (length xs) x = x # xs"
  by (induction xs arbitrary: x) auto

lemma funpow_chain: "successively (\<lambda>a b. b = f a) (x # xs) \<Longrightarrow> i < length (x # xs) \<Longrightarrow> (x # xs) ! i = (f ^^ i) x"
proof (induction xs arbitrary: x i)
  case (Cons y ys)
  have "successively (\<lambda>a b. b = f a) (y # ys)" "y = f x" using Cons.prems(1) by auto
  then show ?case using Cons.IH [of y] Cons.prems(2) by (cases i) (simp_all add: funpow_swap1)
qed simp

lemma successively_drop: "successively P xs \<Longrightarrow> successively P (drop i xs)"
  by (induction xs arbitrary: i) (auto simp: successively_Cons drop_Cons split: nat.split)

text \<open>The loops of \<open>matchSimpleRepeat\<close> visit these positions, from the far end or from the start.\<close>

lemma walk_runs:
  assumes "pos_ok m p" and "mn < length (runs m atom bw mx p)"
  defines "rs \<equiv> runs m atom bw mx p"
  shows "walk (shrink m bw) (length rs - 1 - mn) (last rs) = rev (drop mn rs)"
    and "walk (grow m bw) (length rs - 1 - mn) ((grow m bw ^^ mn) p) = drop mn rs"
proof -
  have mn: "mn < length rs" using assms(2) by (simp add: rs_def)
  have "successively (\<lambda>a b. b = grow m bw a \<and> a = shrink m bw b) rs"
    using runs_chain [OF assms(1)] by (simp add: rs_def)
  then have up: "successively (\<lambda>a b. b = grow m bw a) rs" and down: "successively (\<lambda>a b. a = shrink m bw b) rs"
    by (auto elim: successively_mono)
  obtain ps where ps: "rs = p # ps" using runs_Cons rs_def by blast
  obtain y ys where ys: "rev (drop mn rs) = y # ys" using mn by (cases "rev (drop mn rs)") auto
  have "successively (\<lambda>a b. b = shrink m bw a) (y # ys)"
    unfolding ys [symmetric] successively_rev by (rule successively_drop [OF down])
  moreover have "length ys = length rs - 1 - mn" and "y = last rs"
    using length_rev [of "drop mn rs"] hd_rev [of "drop mn rs"] last_drop [OF mn] unfolding ys by simp_all
  ultimately show "walk (shrink m bw) (length rs - 1 - mn) (last rs) = rev (drop mn rs)"
    using walk_chain [of "shrink m bw" y ys] ys by simp
  obtain z zs where zs: "drop mn rs = z # zs" using mn by (cases "drop mn rs") auto
  have "z = (grow m bw ^^ mn) p"
    using funpow_chain [of "grow m bw" p ps mn] up mn ps hd_drop_conv_nth [OF mn] arg_cong [OF zs, of hd] by simp
  moreover have "length zs = length rs - 1 - mn" using arg_cong [OF zs, of length] by simp
  ultimately show "walk (grow m bw) (length rs - 1 - mn) ((grow m bw ^^ mn) p) = drop mn rs"
    using walk_chain [of "grow m bw" z zs] successively_drop [OF up, of mn] zs by simp
qed

lemma scan_runs:
  assumes "mx = kUnbounded \<or> count \<le> mx"
  shows "scan m atom bw mx count at =
    (let rs = runs m atom bw (if mx = kUnbounded then None else Some (mx - count)) at in (count + length rs - 1, last rs))"
  using assms unfolding Let_def
proof (induction m atom bw mx count at rule: scan.induct)
  case (1 m atom bw mx count at)
  show ?case
  proof (cases "(mx = kUnbounded \<or> count < mx) \<and> step_one m atom bw at \<noteq> None")
    case True
    then obtain q where q: "mx = kUnbounded \<or> count < mx" "step_one m atom bw at = Some q" by auto
    let ?rest = "runs m atom bw (if mx = kUnbounded then None else Some (mx - (count + 1))) q"
    have "runs m atom bw (if mx = kUnbounded then None else Some (mx - count)) at = at # ?rest"
      using q by (subst runs.simps) auto
    moreover have "scan m atom bw mx count at = scan m atom bw mx (count + 1) q"
      using q by (subst scan.simps) simp
    moreover have "?rest \<noteq> []" using runs_Cons by (metis list.distinct(1))
    ultimately show ?thesis using "1.IH" [OF q] q(1) by auto
  next
    case False
    then have "scan m atom bw mx count at = (count, at)" by (subst scan.simps) (auto split: option.split)
    moreover have "runs m atom bw (if mx = kUnbounded then None else Some (mx - count)) at = [at]"
      using False "1.prems" by (subst runs.simps) (auto split: option.split)
    ultimately show ?thesis by simp
  qed
qed

text \<open>RepeatMatcher on an atom of one character gives them in the same order.\<close>

lemma repeats_single:
  assumes "pos_ok m p" and "\<And>k. mx = Some k \<Longrightarrow> mn \<le> k" and "\<And>c. clear c = c"
  shows "repeats (\<lambda>x. one_character m atom bw x) (left m bw) greed clear mn mx (p, caps) =
     map (\<lambda>q. (q, caps)) (let ps = drop mn (runs m atom bw mx p) in if greed then rev ps else ps)"
  using assms(1,2)
proof (induction m atom bw mx p arbitrary: mn rule: runs.induct)
  case (1 m atom bw mx p)
  show ?case
  proof (cases "mx = Some 0")
    case True
    then show ?thesis using "1.prems"(2) by (subst repeats.simps, subst runs.simps) (simp add: Let_def)
  next
    case False
    show ?thesis
    proof (cases "step_one m atom bw p")
      case None
      then show ?thesis
        using False by (subst repeats.simps, subst runs.simps) (cases mn, simp_all add: one_character_def Let_def)
    next
      case (Some q)
      have mx: "mn - 1 \<le> k" if "map_option (\<lambda>n. n - 1) mx = Some k" for k
        using "1.prems"(2) that by (cases mx) auto
      have ih: "repeats (\<lambda>x. one_character m atom bw x) (left m bw) greed clear (mn - 1) (map_option (\<lambda>n. n - 1) mx) (q, caps) =
          map (\<lambda>q. (q, caps)) (let ps = drop (mn - 1) (runs m atom bw (map_option (\<lambda>n. n - 1) mx) q) in if greed then rev ps else ps)"
        by (rule "1.IH" [OF False Some step_one_ok(1) [OF Some "1.prems"(1)] mx])
      have turn: "one_character m atom bw (p, clear caps) = [(q, caps)]" using Some assms(3) by (simp add: one_character_def)
      have "runs m atom bw mx p = p # runs m atom bw (map_option (\<lambda>n. n - 1) mx) q"
        using False Some by (subst runs.simps) simp
      then show ?thesis
        using False turn ih step_one_ok(3) [OF Some "1.prems"(1)]
        by (subst repeats.simps) (cases mn, simp_all add: Let_def)
    qed
  qed
qed

end
