(* ===== verification/Regex_Correct.thy ===== *)
theory Regex_Correct
  imports Regex_Semantics
begin

text \<open>
  The matcher against the meaning of its pattern: an attempt that does not give up ends with the first
  outcome of the pattern followed by its continuation, or fails and leaves the captures and the end
  position as they were. Each combinator of the matcher has its own rule, and one induction over the
  mutual recursion puts them together.
\<close>

lemma bind_bind: "concat (map g (concat (map f xs))) = concat (map (\<lambda>x. concat (map g (f x))) xs)"
  by (induction xs) auto

section \<open>What an attempt computes\<close>

fun answers :: "outcome list \<Rightarrow> mstate \<Rightarrow> bool \<Rightarrow> mstate \<Rightarrow> bool" where
  "answers [] st b st' \<longleftrightarrow> \<not> b \<and> captures st' = captures st \<and> endPos st' = endPos st"
| "answers (y # ys) st b st' \<longleftrightarrow> b \<and> endPos st' = fst y \<and> captures st' = snd y"

text \<open>The step counter stays within the budget, and one above it exactly when the matcher has given up
  for it.\<close>

definition budget_ok :: "mstate \<Rightarrow> bool" where
  "budget_ok st \<longleftrightarrow> steps st \<le> kStepBudget + 1 \<and> (steps st = kStepBudget + 1 \<longleftrightarrow> err st = Some BudgetExceeded)"

definition spec :: "mstate \<Rightarrow> bool \<times> mstate \<Rightarrow> outcome list \<Rightarrow> bool" where
  "spec st r ys \<longleftrightarrow>
     (case r of (b, st') \<Rightarrow>
        (failed st \<longrightarrow> failed st') \<and> (budget_ok st \<longrightarrow> budget_ok st') \<and> (\<not> failed st' \<longrightarrow> answers ys st b st'))"

definition computes :: "attempt \<Rightarrow> int list \<Rightarrow> outcome list \<Rightarrow> bool" where
  "computes f caps ys \<longleftrightarrow> (\<forall>st. captures st = caps \<longrightarrow> spec st (f st) ys)"

lemma computesI: "(\<And>st. captures st = caps \<Longrightarrow> spec st (f st) ys) \<Longrightarrow> computes f caps ys"
  by (simp add: computes_def)

lemma computesD: "computes f caps ys \<Longrightarrow> captures st = caps \<Longrightarrow> spec st (f st) ys"
  by (simp add: computes_def)

lemma spec_fails [simp]: "spec st (False, st) []"
  by (simp add: spec_def)

lemma computes_fails [simp]: "computes (\<lambda>st. (False, st)) caps []"
  by (simp add: computes_def)

lemma computes_or_else:
  assumes "computes f caps xs" and "computes g caps ys"
  shows "computes (or_else f g) caps (xs @ ys)"
proof (rule computesI)
  fix st :: mstate
  assume st: "captures st = caps"
  obtain b st1 where f: "f st = (b, st1)" by (cases "f st")
  note sf = computesD [OF assms(1) st, unfolded f]
  show "spec st (or_else f g st) (xs @ ys)"
  proof (cases "b \<or> failed st1")
    case True
    then show ?thesis using sf f by (cases xs) (auto simp: or_else_def spec_def)
  next
    case False
    then have xs: "xs = []" and st1: "captures st1 = caps" "endPos st1 = endPos st"
      using sf st by (cases xs; auto simp: spec_def)+
    have "answers ys st1 b' st2 \<longleftrightarrow> answers ys st b' st2" for b' st2
      using st st1 by (cases ys) auto
    then show ?thesis
      using computesD [OF assms(2) st1(1)] sf f False xs by (cases "g st1") (auto simp: or_else_def spec_def)
  qed
qed

lemma computes_try_each:
  assumes "\<And>x. x \<in> set xs \<Longrightarrow> computes (f x) caps (g x)"
  shows "computes (try_each f xs) caps (concat (map g xs))"
  using assms
proof (induction xs)
  case Nil
  then show ?case by (simp add: computes_def)
next
  case (Cons x xs)
  have "try_each f (x # xs) = or_else (f x) (try_each f xs)" by (intro ext) simp
  then show ?case using computes_or_else [of "f x" caps "g x" "try_each f xs" "concat (map g xs)"] Cons by simp
qed

text \<open>An attempt with its captures prepared and, when it fails, put back.\<close>

lemma computes_or_undo:
  assumes "computes f caps' ys"
    and "\<And>st. captures st = caps \<Longrightarrow> prep st = st\<lparr>captures := caps'\<rparr>"
    and "\<And>st. \<exists>c. undo st = st\<lparr>captures := c\<rparr> \<and> (captures st = caps' \<longrightarrow> c = caps)"
  shows "computes (\<lambda>st. or_undo f undo (prep st)) caps ys"
proof (rule computesI)
  fix st :: mstate
  assume st: "captures st = caps"
  let ?st0 = "st\<lparr>captures := caps'\<rparr>"
  obtain b st1 where f: "f ?st0 = (b, st1)" by (cases "f ?st0")
  have sf: "spec ?st0 (b, st1) ys" using computesD [OF assms(1), of ?st0] f by simp
  obtain c where "undo st1 = st1\<lparr>captures := c\<rparr>" "captures st1 = caps' \<longrightarrow> c = caps" using assms(3) by blast
  then show "spec st (or_undo f undo (prep st)) ys"
    using sf assms(2) [OF st] f st by (cases ys) (auto simp: or_undo_def spec_def budget_ok_def)
qed

lemma computes_case:
  assumes "\<And>p. found = Some p \<Longrightarrow> computes (go p) caps (K (p, caps))"
  shows "computes (\<lambda>st. case found of None \<Rightarrow> (False, st) | Some p \<Rightarrow> go p st) caps (concat (map K (case found of None \<Rightarrow> [] | Some p \<Rightarrow> [(p, caps)])))"
  using assms by (cases found) (simp_all add: computes_def)

section \<open>Rules for the parts of the matcher\<close>

lemma computes_one_character:
  assumes "\<And>p. step_one m node bw pos = Some p \<Longrightarrow> computes (go p) caps (K (p, caps))"
  shows "computes (matchOneCharacter m node pos bw go) caps (concat (map K (one_character m node bw (pos, caps))))"
  using computes_case [of "step_one m node bw pos" go caps K] assms
  by (cases "step_one m node bw pos") (simp_all add: computes_def matchOneCharacter_def one_character_def)

lemma computes_class_set:
  assumes "\<And>p. (p, caps) \<in> set (class_outcomes m node rs ss e bw (pos, caps)) \<Longrightarrow> computes (go p) caps (K (p, caps))"
  shows "computes (matchClassSet m node rs ss e pos bw go) caps (concat (map K (class_outcomes m node rs ss e bw (pos, caps))))"
proof -
  let ?member = "\<lambda>member st. case consume_member m bw pos member of None \<Rightarrow> (False, st) | Some at \<Rightarrow> go at st"
  let ?found = "\<lambda>member. case consume_member m bw pos member of None \<Rightarrow> [] | Some p \<Rightarrow> [(p, caps)]"
  have "computes (?member s) caps (concat (map K (?found s)))" if "s \<in> set ss" for s
  proof (rule computes_case)
    fix p
    assume "consume_member m bw pos s = Some p"
    then show "computes (go p) caps (K (p, caps))"
      using that by (intro assms) (auto simp: class_outcomes_def map_filter_def intro!: image_eqI)
  qed
  then have "computes (try_each ?member ss) caps (concat (map (\<lambda>s. concat (map K (?found s))) ss))"
    by (rule computes_try_each)
  moreover have "concat (map (\<lambda>s. concat (map K (?found s))) ss) = concat (map K (map (\<lambda>p. (p, caps)) (List.map_filter (consume_member m bw pos) ss)))"
    by (induction ss) (auto simp: List.map_filter_simps split: option.split)
  moreover have "computes (\<lambda>st. if rs \<noteq> [] then matchOneCharacter m node pos bw go st else (False, st)) caps
      (concat (map K (if rs \<noteq> [] then one_character m node bw (pos, caps) else [])))"
    using computes_one_character [of m node bw pos go caps K] assms
    by (cases "rs = []") (auto simp: class_outcomes_def one_character_def)
  moreover have "computes (\<lambda>st. if e then go pos st else (False, st)) caps (concat (map K (if e then [(pos, caps)] else [])))"
    using assms by (cases e) (auto simp: class_outcomes_def)
  ultimately show ?thesis
    unfolding matchClassSet_def class_outcomes_def map_append concat_append fst_conv snd_conv
    by (intro computes_or_else) simp_all
qed

lemma computes_backreference:
  assumes "\<And>p. back_to m i bw pos caps = Some p \<Longrightarrow> computes (go p) caps (K (p, caps))"
  shows "computes (matchBackreference m i pos bw go) caps (concat (map K (back_outcomes m i bw (pos, caps))))"
  using computes_case [of "back_to m i bw pos caps" go caps K] assms
  by (cases "back_to m i bw pos caps") (simp_all add: computes_def matchBackreference_def back_outcomes_def)

lemma computes_look:
  assumes "computes inner caps ys" and "\<And>c. (pos, c) \<in> set (look_outcomes neg ys (pos, caps)) \<Longrightarrow> computes (go pos) c (K (pos, c))"
  shows "computes (matchLookaround neg pos inner go) caps (concat (map K (look_outcomes neg ys (pos, caps))))"
proof (rule computesI)
  fix st :: mstate
  assume st: "captures st = caps"
  obtain b st1 where i: "inner st = (b, st1)" by (cases "inner st")
  let ?st2 = "st1\<lparr>endPos := endPos st\<rparr>"
  have si: "spec st (b, st1) ys" using computesD [OF assms(1) st] i by simp
  show "spec st (matchLookaround neg pos inner go st) (concat (map K (look_outcomes neg ys (pos, caps))))"
  proof (cases "failed st1")
    case True
    then show ?thesis using si i by (auto simp: matchLookaround_def spec_def budget_ok_def)
  next
    case ok: False
    show ?thesis
    proof (cases ys)
      case Nil
      then have b: "\<not> b" "captures st1 = caps" "endPos st1 = endPos st" using si ok st by (auto simp: spec_def)
      have same: "st1\<lparr>endPos := endPos st\<rparr> = st1" "st1\<lparr>captures := caps\<rparr> = st1"
        using b by (cases st1; simp)+
      have "matchLookaround neg pos inner go st = (if neg then go pos st1 else (False, st1))"
        using i b(1) ok st same by (simp add: matchLookaround_def Let_def)
      moreover have "spec st (go pos st1) (K (pos, caps))" if neg
      proof -
        have "spec st1 (go pos st1) (K (pos, caps))"
          using assms(2) [of caps] that Nil computesD [of "go pos" caps "K (pos, caps)" st1] b by (simp add: look_outcomes_def)
        then show ?thesis
          using b st si ok by (cases "K (pos, caps)") (auto simp: spec_def)
      qed
      ultimately show ?thesis
        using b ok st Nil si by (auto simp: look_outcomes_def spec_def)
    next
      case (Cons y rest)
      then have b: b "captures st1 = snd y" using si ok by (auto simp: spec_def)
      let ?r = "go pos ?st2"
      obtain b3 st3 where r: "?r = (b3, st3)" by (cases ?r)
      have "spec ?st2 (b3, st3) (K (pos, snd y))" if "\<not> neg"
        using assms(2) [of "snd y"] that Cons computesD [of "go pos" "snd y" "K (pos, snd y)" ?st2] b r
        by (auto simp: look_outcomes_def)
      then show ?thesis
        using i b ok st Cons si r
        by (cases "K (pos, snd y)") (auto simp: matchLookaround_def look_outcomes_def Let_def or_undo_def spec_def budget_ok_def)
    qed
  qed
qed

lemma computes_repeat_turn:
  assumes "computes atom (clearRepeatCaptures r caps) turns" and "computes out caps outs"
  shows "computes (repeat_turn r mn atom out) caps (if mn \<noteq> 0 then turns else if greedy r then turns @ outs else outs @ turns)"
proof -
  let ?saved = "saveRepeatCaptures r caps"
  have clear: "clear_if r st = st\<lparr>captures := clearRepeatCaptures r caps\<rparr>" if "captures st = caps" for st :: mstate
    using that clear_none [of r caps] by (simp add: clear_if_def)
  have restore: "\<exists>c. restore_if r ?saved st = st\<lparr>captures := c\<rparr> \<and> (captures st = clearRepeatCaptures r caps \<longrightarrow> c = caps)" for st :: mstate
    using restore_clear [of r caps] clear_none [of r caps]
    by (cases "captureCount r = 0") (auto simp: restore_if_def intro: exI [of _ "captures st"])
  have turn: "computes (\<lambda>st. or_undo atom (restore_if r ?saved) (clear_if r st)) caps turns"
    by (rule computes_or_undo [OF assms(1) clear restore])
  have undone: "restore_if r ?saved (clear_if r st) = st" if "captures st = caps" for st :: mstate
    using that restore_clear [of r caps] by (simp add: restore_if_def clear_if_def)
  show ?thesis
  proof (rule computesI)
    fix st :: mstate
    assume st: "captures st = caps"
    have "repeat_turn r mn atom out st =
        (if mn \<noteq> 0 then or_undo atom (restore_if r ?saved) (clear_if r st)
         else if greedy r then or_else (\<lambda>st. or_undo atom (restore_if r ?saved) (clear_if r st)) out st
         else or_else out (\<lambda>st. or_undo atom (restore_if r ?saved) (clear_if r st)) st)"
      using st undone [OF st] by (simp add: repeat_turn_def Let_def or_else_def or_undo_def)
    then show "spec st (repeat_turn r mn atom out st) (if mn \<noteq> 0 then turns else if greedy r then turns @ outs else outs @ turns)"
      using computesD [OF turn st] computesD [OF computes_or_else [OF turn assms(2)] st] computesD [OF computes_or_else [OF assms(2) turn] st]
      by simp
  qed
qed

text \<open>Where the parser sets \<open>simpleAtom\<close>, counting gives what RepeatMatcher gives.\<close>

lemma sem_single: "single atom \<Longrightarrow> sem m atom bw x = one_character m atom bw x"
  by (cases atom) auto

lemma sem_simple_repeat:
  assumes "node_ok m n bw (Repeat r atom)" and "simpleAtom r" and "pos_ok m pos"
  shows "sem m (Repeat r atom) bw (pos, caps) =
    map (\<lambda>q. (q, caps)) (let ps = drop (repMin r) (runs m atom bw (max_of (repMax r)) pos) in if greedy r then rev ps else ps)"
proof -
  have "(\<lambda>y. sem m atom bw y) = (\<lambda>y. one_character m atom bw y)" using assms(1,2) sem_single by (intro ext) auto
  then show ?thesis
    using repeats_single [OF assms(3), of "max_of (repMax r)" "repMin r" "clearRepeatCaptures r" atom bw "greedy r" caps] assms(1,2) clear_none
    by (auto simp: max_of_def split: if_splits)
qed

lemma computes_simple_repeat:
  assumes "node_ok m n bw (Repeat r atom)" and "simpleAtom r" and "pos_ok m pos"
    and "\<And>p. (p, caps) \<in> set (sem m (Repeat r atom) bw (pos, caps)) \<Longrightarrow> computes (go p) caps (K (p, caps))"
  shows "computes (matchSimpleRepeat m r atom pos bw go) caps (concat (map K (sem m (Repeat r atom) bw (pos, caps))))"
proof -
  define rs where "rs = runs m atom bw (max_of (repMax r)) pos"
  have "rs \<noteq> []" using runs_Cons rs_def by (metis list.distinct(1))
  have scan: "scan m atom bw (repMax r) 0 pos = (length rs - 1, last rs)"
    using scan_runs [of "repMax r" 0 m atom bw pos] by (simp add: rs_def max_of_def Let_def)
  define qs where "qs = (if greedy r then rev (drop (repMin r) rs) else drop (repMin r) rs)"
  have sem: "sem m (Repeat r atom) bw (pos, caps) = map (\<lambda>q. (q, caps)) qs"
    using sem_simple_repeat [OF assms(1-3)] by (simp add: qs_def rs_def Let_def)
  have each: "computes (try_each go qs) caps (concat (map (\<lambda>q. K (q, caps)) qs))"
    using assms(4) sem by (intro computes_try_each) auto
  have "matchSimpleRepeat m r atom pos bw go st = try_each go qs st" for st
  proof (cases "repMin r < length rs")
    case True
    then show ?thesis
      using walk_runs [OF assms(3), of "repMin r" atom bw "max_of (repMax r)"] scan
      by (auto simp: matchSimpleRepeat_def qs_def rs_def)
  next
    case False
    then have "qs = []" "length rs - 1 < repMin r" using \<open>rs \<noteq> []\<close> by (cases rs; auto simp: qs_def)+
    then show ?thesis using scan by (simp add: matchSimpleRepeat_def)
  qed
  then have "matchSimpleRepeat m r atom pos bw go = try_each go qs" by (intro ext)
  then show ?thesis using each sem by (simp add: comp_def)
qed

section \<open>The continuation chain\<close>

definition repeat_sem :: "matcher \<Rightarrow> repeat_node \<Rightarrow> node \<Rightarrow> bool \<Rightarrow> nat \<Rightarrow> nat \<Rightarrow> outcome \<Rightarrow> outcome list" where
  "repeat_sem m r atom bw mn mx x =
     repeats (\<lambda>y. sem m atom bw y) (left m bw) (greedy r) (clearRepeatCaptures r) mn (max_of mx) x"

text \<open>The terms a sequence has left after \<open>i\<close> of them.\<close>

definition remaining :: "bool \<Rightarrow> nat \<Rightarrow> node list \<Rightarrow> node list" where
  "remaining bw i ts = (if bw then take (length ts - i) ts else drop i ts)"

lemma remaining_0 [simp]: "remaining bw 0 ts = ts"
  by (simp add: remaining_def)

fun ksem :: "matcher \<Rightarrow> cont \<Rightarrow> outcome \<Rightarrow> outcome list" where
  "ksem m Done x = [x]"
| "ksem m (SequenceK ts i bw k) x = concat (map (ksem m k) (sem_seq m (remaining bw i ts) bw x))"
| "ksem m (RepeatK r atom mn mx mark bw k) x =
     (if mn = 0 \<and> fst x = mark then []
      else concat (map (ksem m k)
             (repeat_sem m r atom bw (if mn = 0 then 0 else mn - 1) (if mx = kUnbounded then kUnbounded else mx - 1) x)))"
| "ksem m (CaptureK i mark k) x = ksem m k (fst x, set_capture i mark (fst x) (snd x))"

fun chain_ok :: "matcher \<Rightarrow> nat \<Rightarrow> bool \<Rightarrow> cont \<Rightarrow> nat \<Rightarrow> bool" where
  "chain_ok m n bw Done p = True"
| "chain_ok m n bw (SequenceK ts i b k) p \<longleftrightarrow> b = bw \<and> i \<le> length ts \<and> (\<forall>t \<in> set ts. node_ok m n bw t) \<and> chain_ok m n bw k p"
| "chain_ok m n bw (RepeatK r atom mn mx mark b k) p \<longleftrightarrow>
     b = bw \<and> node_ok m n bw (Repeat r atom) \<and> 0 < mx \<and> mx \<le> kUnbounded \<and> moved bw mark p \<and> chain_ok m n bw k p"
| "chain_ok m n bw (CaptureK i mark k) p \<longleftrightarrow> i \<le> n \<and> pos_ok m mark \<and> chain_ok m n bw k p"

lemma chain_moves: "chain_ok m n bw k p \<Longrightarrow> moved bw p q \<Longrightarrow> chain_ok m n bw k q"
  using moved_trans by (induction k) auto

lemma sem_seq_snoc: "sem_seq m (ts @ [t]) True x = concat (map (\<lambda>y. sem_seq m ts True y) (sem m t True x))"
proof (induction ts)
  case Nil
  then show ?case by simp
next
  case (Cons u ts)
  have "sem_seq m ((u # ts) @ [t]) True x = concat (map (sem m u True) (concat (map (\<lambda>y. sem_seq m ts True y) (sem m t True x))))"
    using Cons by simp
  also have "\<dots> = concat (map (\<lambda>y. sem_seq m (u # ts) True y) (sem m t True x))"
    by (simp add: bind_bind)
  finally show ?case .
qed

lemma sem_seq_remaining:
  assumes "i < length ts"
  shows "sem_seq m (remaining bw i ts) bw x =
    concat (map (\<lambda>y. sem_seq m (remaining bw (i + 1) ts) bw y) (sem m (ts ! (if bw then length ts - 1 - i else i)) bw x))"
proof (cases bw)
  case True
  have "take (length ts - i) ts = take (length ts - (i + 1)) ts @ [ts ! (length ts - 1 - i)]"
    using take_Suc_conv_app_nth [of "length ts - (i + 1)" ts] assms by (simp add: Suc_diff_Suc)
  then show ?thesis using True sem_seq_snoc by (simp add: remaining_def)
next
  case False
  then show ?thesis using assms by (simp add: remaining_def Cons_nth_drop_Suc [symmetric])
qed

text \<open>Another turn round a quantifier is the continuation \<open>RepeatK\<close>.\<close>

lemma repeat_sem_turn:
  assumes "input_ok m" and "node_ok m n bw (Repeat r atom)" and "out_ok m n x" and "0 < mx" and "mx \<le> kUnbounded"
  shows "concat (map (ksem m k) (repeat_sem m r atom bw mn mx x)) =
    (let turns = concat (map (ksem m (RepeatK r atom mn mx (fst x) bw k)) (sem m atom bw (fst x, clearRepeatCaptures r (snd x))))
     in if mn \<noteq> 0 then turns else if greedy r then turns @ ksem m k x else ksem m k x @ turns)"
proof -
  let ?x = "(fst x, clearRepeatCaptures r (snd x))"
  let ?mx = "if mx = kUnbounded then kUnbounded else mx - 1"
  let ?next = "\<lambda>y. if mn = 0 \<and> \<not> left m bw (fst y) < left m bw (fst x) then [] else repeat_sem m r atom bw (mn - 1) ?mx y"
  have mx: "max_of mx \<noteq> Some 0" "map_option (\<lambda>n. n - 1) (max_of mx) = max_of ?mx"
    using assms(4,5) by (auto simp: max_of_def)
  have "out_ok m n ?x" using assms(2,3) clear_ok by (simp add: out_ok_def)
  then have "reaches m n bw ?x (sem m atom bw ?x)" using sem_reach(1) assms(1,2) by simp
  then have "concat (map (ksem m k) (?next y)) = ksem m (RepeatK r atom mn mx (fst x) bw k) y" if "y \<in> set (sem m atom bw ?x)" for y
    using that left_moves [of bw "fst x" "fst y" m] by (auto simp: reaches_def out_ok_def pos_ok_def)
  moreover define ts us where "ts = concat (map ?next (sem m atom bw ?x))" and "us = concat (map (ksem m (RepeatK r atom mn mx (fst x) bw k)) (sem m atom bw ?x))"
  ultimately have turns: "concat (map (ksem m k) ts) = us"
    unfolding ts_def us_def bind_bind by (intro arg_cong [of _ _ concat] map_cong refl)
  have "repeat_sem m r atom bw mn mx x = (if mn \<noteq> 0 then ts else if greedy r then ts @ [x] else x # ts)"
    unfolding ts_def repeat_sem_def mx(2) [symmetric] using mx(1) by (subst repeats.simps) (simp only: if_False Let_def)
  then show ?thesis
    unfolding us_def [symmetric] Let_def using turns by (cases "mn \<noteq> 0"; cases "greedy r") simp_all
qed

section \<open>The induction\<close>

lemma outcome_chain:
  assumes "reaches m n bw x ys" and "y \<in> set ys" and "chain_ok m n bw k (fst x)"
  shows "chain_ok m n bw k (fst y)" and "out_ok m n y"
  using assms chain_moves by (auto simp: reaches_def)

lemma set_capture_undo:
  "(set_capture i mark pos caps)[2 * i := caps ! (2 * i), 2 * i + 1 := caps ! (2 * i + 1)] = caps"
proof (rule nth_equalityI)
  fix j
  assume "j < length ((set_capture i mark pos caps)[2 * i := caps ! (2 * i), 2 * i + 1 := caps ! (2 * i + 1)])"
  then show "(set_capture i mark pos caps)[2 * i := caps ! (2 * i), 2 * i + 1 := caps ! (2 * i + 1)] ! j = caps ! j"
    by (cases "j = 2 * i"; cases "j = 2 * i + 1") (simp_all add: set_capture_def)
qed (simp add: set_capture_def)

text \<open>The statements of the induction, one for each function.\<close>

definition good_cont :: "nat \<Rightarrow> matcher \<Rightarrow> nat \<Rightarrow> cont \<Rightarrow> nat \<Rightarrow> mstate \<Rightarrow> bool" where
  "good_cont n m d k pos st \<longleftrightarrow>
     (\<forall>bw. input_ok m \<longrightarrow> chain_ok m n bw k pos \<longrightarrow> out_ok m n (pos, captures st) \<longrightarrow>
        spec st (runCont m d k pos st) (ksem m k (pos, captures st)))"

definition good_seq :: "nat \<Rightarrow> matcher \<Rightarrow> nat \<Rightarrow> node list \<Rightarrow> nat \<Rightarrow> nat \<Rightarrow> cont \<Rightarrow> bool \<Rightarrow> mstate \<Rightarrow> bool" where
  "good_seq n m d ts i pos k bw st \<longleftrightarrow>
     (input_ok m \<longrightarrow> i \<le> length ts \<longrightarrow> (\<forall>t \<in> set ts. node_ok m n bw t) \<longrightarrow> chain_ok m n bw k pos \<longrightarrow> out_ok m n (pos, captures st) \<longrightarrow>
        spec st (matchSequence m d ts i pos k bw st) (concat (map (ksem m k) (sem_seq m (remaining bw i ts) bw (pos, captures st)))))"

definition good_repeat :: "nat \<Rightarrow> matcher \<Rightarrow> nat \<Rightarrow> repeat_node \<Rightarrow> node \<Rightarrow> nat \<Rightarrow> nat \<Rightarrow> nat \<Rightarrow> cont \<Rightarrow> bool \<Rightarrow> mstate \<Rightarrow> bool" where
  "good_repeat n m d r atom mn mx pos k bw st \<longleftrightarrow>
     (input_ok m \<longrightarrow> node_ok m n bw (Repeat r atom) \<longrightarrow> mx \<le> kUnbounded \<longrightarrow> chain_ok m n bw k pos \<longrightarrow> out_ok m n (pos, captures st) \<longrightarrow>
        spec st (matchRepeat m d r atom mn mx pos k bw st) (concat (map (ksem m k) (repeat_sem m r atom bw mn mx (pos, captures st)))))"

definition good_node :: "nat \<Rightarrow> matcher \<Rightarrow> nat \<Rightarrow> node \<Rightarrow> nat \<Rightarrow> cont \<Rightarrow> bool \<Rightarrow> mstate \<Rightarrow> bool" where
  "good_node n m d node pos k bw st \<longleftrightarrow>
     (input_ok m \<longrightarrow> node_ok m n bw node \<longrightarrow> chain_ok m n bw k pos \<longrightarrow> out_ok m n (pos, captures st) \<longrightarrow>
        spec st (matchNode m d node pos k bw st) (concat (map (ksem m k) (sem m node bw (pos, captures st)))))"

definition good_inner :: "nat \<Rightarrow> matcher \<Rightarrow> nat \<Rightarrow> node \<Rightarrow> nat \<Rightarrow> cont \<Rightarrow> bool \<Rightarrow> mstate \<Rightarrow> bool" where
  "good_inner n m d node pos k bw st \<longleftrightarrow>
     (input_ok m \<longrightarrow> node_ok m n bw node \<longrightarrow> chain_ok m n bw k pos \<longrightarrow> out_ok m n (pos, captures st) \<longrightarrow>
        spec st (matchNodeInner m d node pos k bw st) (concat (map (ksem m k) (sem m node bw (pos, captures st)))))"

lemma good_cont_computes:
  assumes "\<And>s. good_cont n m d k p s" and "input_ok m" and "chain_ok m n bw k p" and "out_ok m n (p, caps)"
  shows "computes (\<lambda>s. runCont m d k p s) caps (ksem m k (p, caps))"
  using assms by (auto simp: computes_def good_cont_def)

lemma good_node_computes:
  assumes "\<And>s. good_node n m d node p k bw s" and "input_ok m" and "node_ok m n bw node" and "chain_ok m n bw k p" and "out_ok m n (p, caps)"
  shows "computes (\<lambda>s. matchNode m d node p k bw s) caps (concat (map (ksem m k) (sem m node bw (p, caps))))"
  using assms by (auto simp: computes_def good_node_def)

text \<open>The continuation after any outcome of a node.\<close>

lemma good_cont_outcome:
  assumes "\<And>p s. good_cont n m d k p s" and "input_ok m" and "chain_ok m n bw k pos" and "reaches m n bw (pos, caps) ys" and "(p, c) \<in> set ys"
  shows "computes (\<lambda>s. runCont m d k p s) c (ksem m k (p, c))"
  by (rule good_cont_computes [OF assms(1,2), where bw = bw]) (use outcome_chain [OF assms(4,5), of k] assms(3) in simp_all)

lemma spec_ticked:
  assumes "\<not> failed st" and "\<not> kStepBudget < steps st + 1" and "spec (st\<lparr>steps := steps st + 1\<rparr>) r ys"
  shows "spec st r ys"
  using assms by (cases ys; cases r) (auto simp: spec_def budget_ok_def)

lemma runCont_good:
  assumes "\<And>ts i bw nxt. \<not> failed st \<Longrightarrow> k = SequenceK ts i bw nxt \<Longrightarrow> good_seq n m d ts i pos nxt bw (st\<lparr>steps := steps st + 1\<rparr>)"
    and "\<And>r a mn mx mark bw nxt. \<not> failed st \<Longrightarrow> k = RepeatK r a mn mx mark bw nxt \<Longrightarrow> \<not> (mn = 0 \<and> pos = mark) \<Longrightarrow>
           good_repeat n m d r a (if mn = 0 then 0 else mn - 1) (if mx = kUnbounded then kUnbounded else mx - 1) pos nxt bw (st\<lparr>steps := steps st + 1\<rparr>)"
    and "\<And>i mark nxt s. \<not> failed st \<Longrightarrow> k = CaptureK i mark nxt \<Longrightarrow> good_cont n m d nxt pos s"
    and run: "\<not> failed st" "\<not> kStepBudget < steps st + 1"
  shows "good_cont n m d k pos st"
  unfolding good_cont_def
proof (intro allI impI)
  fix bw
  assume ok: "input_ok m" "chain_ok m n bw k pos" "out_ok m n (pos, captures st)"
  let ?st1 = "st\<lparr>steps := steps st + 1\<rparr>"
  have ok1: "out_ok m n (pos, captures ?st1)" using ok(3) by simp
  show "spec st (runCont m d k pos st) (ksem m k (pos, captures st))"
  proof (rule spec_ticked [OF run], cases k)
    case Done
    then show "spec ?st1 (runCont m d k pos st) (ksem m k (pos, captures st))"
      using run by (simp add: runCont.simps spec_def budget_ok_def)
  next
    case (SequenceK ts i b nxt)
    then show "spec ?st1 (runCont m d k pos st) (ksem m k (pos, captures st))"
      using assms(1) [OF run(1) SequenceK] ok ok1 run by (simp add: runCont.simps [of m d _ pos st] good_seq_def)
  next
    case (RepeatK r a mn mx mark b nxt)
    show "spec ?st1 (runCont m d k pos st) (ksem m k (pos, captures st))"
    proof (cases "mn = 0 \<and> pos = mark")
      case True
      then show ?thesis using run RepeatK by (subst runCont.simps) simp
    next
      case False
      have "(if mx = kUnbounded then kUnbounded else mx - 1) \<le> kUnbounded" using ok(2) RepeatK by auto
      moreover have "runCont m d k pos st = matchRepeat m d r a (if mn = 0 then 0 else mn - 1) (if mx = kUnbounded then kUnbounded else mx - 1) pos nxt b ?st1"
        using run False RepeatK by (subst runCont.simps) auto
      moreover have "ksem m k (pos, captures st) = concat (map (ksem m nxt)
          (repeat_sem m r a b (if mn = 0 then 0 else mn - 1) (if mx = kUnbounded then kUnbounded else mx - 1) (pos, captures ?st1)))"
        using False RepeatK by auto
      ultimately show ?thesis
        using assms(2) [OF run(1) RepeatK False] ok ok1 RepeatK unfolding good_repeat_def by (simp only: chain_ok.simps)
    qed
  next
    case (CaptureK i mark nxt)
    let ?caps = "captures st"
    have "out_ok m n (pos, set_capture i mark pos ?caps)"
      using ok(2,3) CaptureK by (simp add: out_ok_def set_capture_ok)
    then have "computes (\<lambda>s. runCont m d nxt pos s) (set_capture i mark pos ?caps) (ksem m nxt (pos, set_capture i mark pos ?caps))"
      using good_cont_computes [OF assms(3) [OF run(1) CaptureK] ok(1), where bw = bw] ok(2) CaptureK by simp
    then have "computes (\<lambda>s. or_undo (\<lambda>s. runCont m d nxt pos s)
          (captures_update (\<lambda>caps. caps[2 * i := ?caps ! (2 * i), 2 * i + 1 := ?caps ! (2 * i + 1)])) (s\<lparr>captures := set_capture i mark pos (captures s)\<rparr>))
        ?caps (ksem m nxt (pos, set_capture i mark pos ?caps))"
    proof (rule computes_or_undo)
      show "\<exists>c. captures_update (\<lambda>caps. caps[2 * i := ?caps ! (2 * i), 2 * i + 1 := ?caps ! (2 * i + 1)]) s = s\<lparr>captures := c\<rparr> \<and>
          (captures s = set_capture i mark pos ?caps \<longrightarrow> c = ?caps)" for s :: mstate
        using set_capture_undo [of i mark pos ?caps]
        by (intro exI [of _ "(captures s)[2 * i := ?caps ! (2 * i), 2 * i + 1 := ?caps ! (2 * i + 1)]"]) (cases s, simp)
    qed simp
    from computesD [OF this, of ?st1] show "spec ?st1 (runCont m d k pos st) (ksem m k (pos, captures st))"
      using run CaptureK by (simp add: runCont.simps [of m d _ pos st])
  qed
qed

lemma runCont_good_failed: "failed st \<or> kStepBudget < steps st + 1 \<Longrightarrow> good_cont n m d k pos st"
  by (auto simp: good_cont_def runCont.simps [of m d _ pos st] giveUp_def spec_def budget_ok_def)

lemma matchSequence_good:
  assumes "i = length ts \<Longrightarrow> good_cont n m d k pos st"
    and "i \<noteq> length ts \<Longrightarrow> good_node n m d (ts ! (if bw then length ts - 1 - i else i)) pos (SequenceK ts (i + 1) bw k) bw st"
  shows "good_seq n m d ts i pos k bw st"
proof (cases "i = length ts")
  case True
  then show ?thesis
    using assms(1) by (auto simp: good_seq_def good_cont_def matchSequence.simps [of m d ts] remaining_def)
next
  case False
  show ?thesis
    unfolding good_seq_def
  proof (intro impI)
    assume ok: "input_ok m" "i \<le> length ts" "\<forall>t \<in> set ts. node_ok m n bw t" "chain_ok m n bw k pos" "out_ok m n (pos, captures st)"
    have i: "i < length ts" using ok(2) False by simp
    then have "ts ! (if bw then length ts - 1 - i else i) \<in> set ts" by auto
    moreover have "ksem m (SequenceK ts (i + 1) bw k) = (\<lambda>x. concat (map (ksem m k) (sem_seq m (remaining bw (i + 1) ts) bw x)))"
      by (intro ext) simp
    ultimately show "spec st (matchSequence m d ts i pos k bw st) (concat (map (ksem m k) (sem_seq m (remaining bw i ts) bw (pos, captures st))))"
      using assms(2) [OF False] ok i unfolding good_node_def sem_seq_remaining [OF i] bind_bind
      by (simp add: matchSequence.simps [of m d ts] comp_def split del: if_split)
  qed
qed

lemma matchRepeat_good:
  assumes "mx = 0 \<Longrightarrow> good_cont n m d k pos st" and "\<And>s. mx \<noteq> 0 \<Longrightarrow> good_cont n m d k pos s"
    and "\<And>s. mx \<noteq> 0 \<Longrightarrow> good_node n m d atom pos (RepeatK r atom mn mx pos bw k) bw s"
  shows "good_repeat n m d r atom mn mx pos k bw st"
  unfolding good_repeat_def
proof (intro impI)
  assume ok: "input_ok m" "node_ok m n bw (Repeat r atom)" "mx \<le> kUnbounded" "chain_ok m n bw k pos" "out_ok m n (pos, captures st)"
  show "spec st (matchRepeat m d r atom mn mx pos k bw st) (concat (map (ksem m k) (repeat_sem m r atom bw mn mx (pos, captures st))))"
  proof (cases "mx = 0")
    case True
    then have "repeat_sem m r atom bw mn mx (pos, captures st) = [(pos, captures st)]"
      by (simp add: repeat_sem_def max_of_def kUnbounded_def repeats.simps)
    then show ?thesis using assms(1) [OF True] ok True by (auto simp: good_cont_def matchRepeat.simps [of m d r])
  next
    case False
    note out = good_cont_computes [OF assms(2) [OF False] ok(1,4,5)]
    let ?again = "RepeatK r atom mn mx pos bw k" and ?caps = "clearRepeatCaptures r (captures st)"
    have "out_ok m n (pos, ?caps)" using ok(2,5) clear_ok by (simp add: out_ok_def)
    then have "computes (\<lambda>s. matchNode m d atom pos ?again bw s) ?caps (concat (map (ksem m ?again) (sem m atom bw (pos, ?caps))))"
      using assms(3) [OF False] ok False by (intro good_node_computes) auto
    from computesD [OF computes_repeat_turn [OF this out, of mn] refl] show ?thesis
      using repeat_sem_turn [OF ok(1,2,5), of mx k mn] False ok(3) by (simp add: matchRepeat.simps [of m d r] Let_def)
  qed
qed

lemma matchNode_good:
  assumes "\<not> failed st \<Longrightarrow> \<not> kMaxDepth < d + 1 \<Longrightarrow> good_inner n m (d + 1) node pos k bw st"
  shows "good_node n m d node pos k bw st"
  using assms by (auto simp: good_node_def good_inner_def matchNode.simps [of m d node] giveUp_def spec_def budget_ok_def)

text \<open>A node whose part of the matcher computes its outcomes through the continuation.\<close>

lemma good_innerI:
  assumes "\<And>caps. input_ok m \<Longrightarrow> node_ok m n bw node \<Longrightarrow> chain_ok m n bw k pos \<Longrightarrow> out_ok m n (pos, caps) \<Longrightarrow>
      reaches m n bw (pos, caps) (sem m node bw (pos, caps)) \<Longrightarrow>
      computes (\<lambda>s. matchNodeInner m d node pos k bw s) caps (concat (map (ksem m k) (sem m node bw (pos, caps))))"
  shows "good_inner n m d node pos k bw st"
  using assms sem_reach(1) computesD by (fastforce simp: good_inner_def)

lemma character_good:
  assumes "\<And>p s. good_cont n m d k p s" and "single node"
  shows "good_inner n m d node pos k bw st"
proof (rule good_innerI)
  fix caps
  assume ok: "input_ok m" "chain_ok m n bw k pos" "reaches m n bw (pos, caps) (sem m node bw (pos, caps))"
  have "(\<lambda>s. matchNodeInner m d node pos k bw s) = matchOneCharacter m node pos bw (\<lambda>p s. runCont m d k p s)"
    using assms(2) by (cases node) auto
  then show "computes (\<lambda>s. matchNodeInner m d node pos k bw s) caps (concat (map (ksem m k) (sem m node bw (pos, caps))))"
    using good_cont_outcome [OF assms(1) ok] computes_one_character [of m node bw pos "\<lambda>p s. runCont m d k p s" caps "ksem m k"]
    by (simp add: sem_single [OF assms(2)] one_character_def)
qed

lemma class_good:
  assumes "\<And>p s. good_cont n m d k p s" and "node = Class rs neg ss e"
  shows "good_inner n m d node pos k bw st"
proof (cases "single node")
  case True
  then show ?thesis by (rule character_good [OF assms(1)])
next
  case False
  show ?thesis
  proof (rule good_innerI)
    fix caps
    assume ok: "input_ok m" "chain_ok m n bw k pos" "reaches m n bw (pos, caps) (sem m node bw (pos, caps))"
    have "(\<lambda>s. matchNodeInner m d node pos k bw s) = matchClassSet m node rs ss e pos bw (\<lambda>p s. runCont m d k p s)"
      using False assms(2) by (intro ext) simp
    moreover have "sem m node bw (pos, caps) = class_outcomes m node rs ss e bw (pos, caps)" using False assms(2) by simp
    ultimately show "computes (\<lambda>s. matchNodeInner m d node pos k bw s) caps (concat (map (ksem m k) (sem m node bw (pos, caps))))"
      using good_cont_outcome [OF assms(1) ok] computes_class_set [of caps m node rs ss e bw pos "\<lambda>p s. runCont m d k p s" "ksem m k"] by simp
  qed
qed

lemma backreference_good:
  assumes "\<And>p s. good_cont n m d k p s"
  shows "good_inner n m d (Backreference i) pos k bw st"
proof (rule good_innerI)
  fix caps
  assume ok: "input_ok m" "chain_ok m n bw k pos" "reaches m n bw (pos, caps) (sem m (Backreference i) bw (pos, caps))"
  have "(\<lambda>s. matchNodeInner m d (Backreference i) pos k bw s) = matchBackreference m i pos bw (\<lambda>p s. runCont m d k p s)"
    by (intro ext) simp
  then show "computes (\<lambda>s. matchNodeInner m d (Backreference i) pos k bw s) caps (concat (map (ksem m k) (sem m (Backreference i) bw (pos, caps))))"
    using good_cont_outcome [OF assms ok] computes_backreference [of m i bw pos caps "\<lambda>p s. runCont m d k p s" "ksem m k"]
    by (simp add: back_outcomes_def)
qed

lemma look_good:
  assumes "\<And>p s. good_cont n m d k p s" and "\<And>s. good_node n m d child pos Done b s"
    and "node = (if b then Lookbehind neg child else Lookahead neg child)"
  shows "good_inner n m d node pos k bw st"
proof (rule good_innerI)
  fix caps
  assume ok: "input_ok m" "node_ok m n bw node" "chain_ok m n bw k pos" "out_ok m n (pos, caps)" "reaches m n bw (pos, caps) (sem m node bw (pos, caps))"
  have "(\<lambda>s. matchNodeInner m d node pos k bw s) =
      matchLookaround neg pos (\<lambda>s. matchNode m d child pos Done b s) (\<lambda>p s. runCont m d k p s)"
    using assms(3) by (cases b) (simp_all add: fun_eq_iff)
  moreover have sem: "sem m node bw (pos, caps) = look_outcomes neg (sem m child b (pos, caps)) (pos, caps)" using assms(3) by simp
  moreover have "ksem m Done = (\<lambda>x. [x])" by (intro ext) simp
  then have "computes (\<lambda>s. matchNode m d child pos Done b s) caps (sem m child b (pos, caps))"
    using good_node_computes [OF assms(2) ok(1) _ _ ok(4)] ok(2) assms(3) by (simp split: if_splits)
  moreover have "computes (\<lambda>s. runCont m d k pos s) c (ksem m k (pos, c))" if "(pos, c) \<in> set (sem m node bw (pos, caps))" for c
    by (rule good_cont_outcome [OF assms(1) ok(1,3,5) that])
  ultimately show "computes (\<lambda>s. matchNodeInner m d node pos k bw s) caps (concat (map (ksem m k) (sem m node bw (pos, caps))))"
    using computes_look [of "\<lambda>s. matchNode m d child pos Done b s" caps "sem m child b (pos, caps)" pos neg "\<lambda>p s. runCont m d k p s" "ksem m k"] by simp
qed

lemma repeat_good:
  assumes "\<And>p s. simpleAtom r \<Longrightarrow> good_cont n m d k p s" and "\<not> simpleAtom r \<Longrightarrow> good_repeat n m d r atom (repMin r) (repMax r) pos k bw st"
  shows "good_inner n m d (Repeat r atom) pos k bw st"
proof (cases "simpleAtom r")
  case True
  show ?thesis
  proof (rule good_innerI)
    fix caps
    assume ok: "input_ok m" "node_ok m n bw (Repeat r atom)" "chain_ok m n bw k pos" "out_ok m n (pos, caps)"
      "reaches m n bw (pos, caps) (sem m (Repeat r atom) bw (pos, caps))"
    have "pos_ok m pos" using ok(4) by (simp add: out_ok_def)
    note computes_simple_repeat [OF ok(2) True this, where K = "ksem m k" and go = "\<lambda>p s. runCont m d k p s" and caps = caps]
    moreover have "(\<lambda>s. matchNodeInner m d (Repeat r atom) pos k bw s) = matchSimpleRepeat m r atom pos bw (\<lambda>p s. runCont m d k p s)"
      using True by (intro ext) simp
    ultimately show "computes (\<lambda>s. matchNodeInner m d (Repeat r atom) pos k bw s) caps (concat (map (ksem m k) (sem m (Repeat r atom) bw (pos, caps))))"
      using good_cont_outcome [OF assms(1) [OF True] ok(1,3,5)] by simp
  qed
next
  case False
  then show ?thesis using assms(2) by (simp add: good_inner_def good_repeat_def repeat_sem_def)
qed

lemma alternation_good:
  assumes "\<And>alt s. alt \<in> set alts \<Longrightarrow> good_seq n m d alt 0 pos k bw s"
  shows "good_inner n m d (Alternation alts) pos k bw st"
proof (rule good_innerI)
  fix caps
  assume ok: "input_ok m" "node_ok m n bw (Alternation alts)" "chain_ok m n bw k pos" "out_ok m n (pos, caps)"
  have "computes (matchSequence m d alt 0 pos k bw) caps (concat (map (ksem m k) (sem_seq m alt bw (pos, caps))))" if "alt \<in> set alts" for alt
    using assms [OF that] ok that by (auto simp: computes_def good_seq_def)
  then have "computes (try_each (\<lambda>alt. matchSequence m d alt 0 pos k bw) alts) caps
      (concat (map (\<lambda>alt. concat (map (ksem m k) (sem_seq m alt bw (pos, caps)))) alts))"
    by (rule computes_try_each)
  moreover have "sem_alts m alts bw (pos, caps) = concat (map (\<lambda>alt. sem_seq m alt bw (pos, caps)) alts)"
    by (induction alts) auto
  moreover have "(\<lambda>s. matchNodeInner m d (Alternation alts) pos k bw s) = try_each (\<lambda>alt. matchSequence m d alt 0 pos k bw) alts"
    by (intro ext) simp
  ultimately show "computes (\<lambda>s. matchNodeInner m d (Alternation alts) pos k bw s) caps (concat (map (ksem m k) (sem m (Alternation alts) bw (pos, caps))))"
    by (simp add: bind_bind)
qed

lemma group_good:
  assumes "i = 0 \<Longrightarrow> good_node n m d child pos k bw st" and "i \<noteq> 0 \<Longrightarrow> good_node n m d child pos (CaptureK i pos k) bw st"
  shows "good_inner n m d (Group i child) pos k bw st"
proof (cases "i = 0")
  case True
  then show ?thesis using assms(1) by (simp add: good_inner_def good_node_def)
next
  case False
  have "ksem m (CaptureK i pos k) = (\<lambda>y. ksem m k (fst y, set_capture i pos (fst y) (snd y)))" by (intro ext) simp
  then show ?thesis using assms(2) [OF False] False by (auto simp: good_inner_def good_node_def out_ok_def comp_def)
qed

lemmas good_intros = runCont_good_failed matchSequence_good matchRepeat_good matchNode_good character_good class_good
  backreference_good look_good repeat_good alternation_good group_good

lemma matcher_good:
  "good_cont n m d k pos st" "good_seq n m d ts i pos k bw st" "good_repeat n m d r atom mn mx pos k bw st"
  "good_node n m d node pos k bw st" "good_inner n m d node pos k bw st"
proof (induction m d k pos st and m d ts i pos k bw st and m d r atom mn mx pos k bw st and m d node pos k bw st and m d node pos k bw st
    rule: runCont_matchSequence_matchRepeat_matchNode_matchNodeInner.induct)
  case (1 m d k pos st)
  show ?case
  proof (cases "failed st \<or> kStepBudget < steps st + 1")
    case False
    then have run: "\<not> failed st" "\<not> kStepBudget < steps (st\<lparr>steps := steps st + 1\<rparr>)" "\<not> kStepBudget < steps st + 1" by simp_all
    show ?thesis
      by (rule runCont_good) (use "1.IH" [OF run(1) refl run(2)] run in blast)+
  qed (rule runCont_good_failed)
next
  case (2 m d ts i pos k bw st)
  show ?case by (rule matchSequence_good) (use "2.IH" in simp_all)
next
  case (3 m d r atom mn mx pos k bw st)
  show ?case by (rule matchRepeat_good) (use "3.IH" in simp_all)
next
  case (4 m d node pos k bw st)
  show ?case by (rule matchNode_good) (use "4.IH" in simp_all)
next
  case (5 m d alts pos k bw st)
  show ?case by (rule alternation_good) (use "5.IH" in simp_all)
next
  case (6 m d ts pos k bw st)
  then show ?case by (simp add: good_inner_def good_seq_def)
next
  case (7 m d rs neg ss e pos k bw st)
  show ?case by (rule class_good [OF _ refl]) (use "7.IH" in blast)
next
  case (8 m d a pos k bw st)
  then show ?case by (auto simp: good_inner_def good_cont_def)
next
  case (9 m d neg child pos k bw st)
  show ?case by (rule look_good [of n m d k child pos False _ neg]) (use "9.IH" in simp_all)
next
  case (10 m d neg child pos k bw st)
  show ?case by (rule look_good [of n m d k child pos True _ neg]) (use "10.IH" in simp_all)
next
  case (11 m d i child pos k bw st)
  show ?case by (rule group_good) (use "11.IH" in simp_all)
next
  case (12 m d i pos k bw st)
  show ?case by (rule backreference_good) (use "12.IH" in simp_all)
next
  case (13 m d r atom pos k bw st)
  show ?case by (rule repeat_good) (use "13.IH" in simp_all)
qed (rule character_good; simp)+

end
