(* ===== verification/Regex_Search.thy ===== *)
theory Regex_Search
  imports Regex_Correct
begin

text \<open>
  What the entry points of the regular expressions promise (\<open>src/src/regex/regex.h\<close>): one attempt gives the
  first outcome of the pattern or gives up, a search gives the leftmost match, captures are ordered
  pairs of positions, and a pattern of plain characters never gives up.
\<close>

section \<open>One attempt\<close>

definition unset :: "nat \<Rightarrow> int list" where
  "unset n = replicate (2 * (n + 1)) kUnset"

text \<open>The captures of a whole match: the first two slots are its extent.\<close>

definition whole :: "nat \<Rightarrow> outcome \<Rightarrow> int list" where
  "whole at y = (snd y)[0 := int at, 1 := int (fst y)]"

definition first_match :: "matcher \<Rightarrow> nat \<Rightarrow> node \<Rightarrow> nat \<Rightarrow> exec_result" where
  "first_match m n rt at = (case sem m rt False (at, unset n) of [] \<Rightarrow> NoMatch | y # _ \<Rightarrow> Match (whole at y))"

lemma unset_nth: "j < 2 * (n + 1) \<Longrightarrow> unset n ! j = kUnset"
  unfolding unset_def by (rule nth_replicate)

lemma unset_ok: "caps_ok m n (unset n)"
  using unset_nth [of _ n] by (auto simp: caps_ok_def capture_ok_def) (simp add: unset_def)

lemma run_cases:
  assumes "input_ok m" and "node_ok m n False rt" and "pos_ok m at" and "length (captures st) = 2 * (n + 1)"
    and "run m rt at st = (r, st')"
  shows "r = first_match m n rt at \<and> err st' = None \<and> steps st' \<le> kStepBudget \<and> length (captures st') = 2 * (n + 1) \<or>
    (\<exists>e. r = Error e \<and> (e = BudgetExceeded \<longleftrightarrow> steps st' = kStepBudget + 1))"
proof -
  let ?st0 = "st\<lparr>captures := unset n, steps := 0, err := None\<rparr>"
  obtain ok st1 where mn: "matchNode m 0 rt at Done False ?st0 = (ok, st1)" by (cases "matchNode m 0 rt at Done False ?st0")
  have x: "out_ok m n (at, unset n)" using assms(3) unset_ok by (simp add: out_ok_def)
  have "ksem m Done = (\<lambda>x. [x])" by (intro ext) simp
  then have "spec ?st0 (ok, st1) (sem m rt False (at, unset n))"
    using matcher_good(4) [of n m 0 rt at Done False ?st0] assms(1,2) x mn by (simp add: good_node_def)
  moreover have "budget_ok ?st0" by (simp add: budget_ok_def)
  moreover have "reaches m n False (at, unset n) (sem m rt False (at, unset n))" by (rule sem_reach(1) [OF assms(1,2) x])
  moreover have "length (captures st1) = 2 * (n + 1)" if "captures st1 = unset n \<or> (\<exists>y ys. sem m rt False (at, unset n) = y # ys \<and> captures st1 = snd y)"
    using that calculation(3) unset_ok [of m n] by (auto simp: out_ok_def caps_ok_def)
  moreover have "replicate (length (captures st)) kUnset = unset n" using assms(4) by (simp only: unset_def)
  then have "run m rt at st = (case err st1 of Some e \<Rightarrow> (Error e, st1) | None \<Rightarrow>
      if \<not> ok then (NoMatch, st1) else (Match (whole at (endPos st1, captures st1)), st1\<lparr>captures := whole at (endPos st1, captures st1)\<rparr>))"
    using mn by (simp add: run_def whole_def Let_def split: option.split)
  ultimately show ?thesis
    using assms(5)
    by (cases "sem m rt False (at, unset n)"; cases "err st1")
      (auto simp: spec_def budget_ok_def first_match_def whole_def)
qed

lemma new_state_length: "length (captures (new_state p)) = 2 * (groupCount p + 1)"
  by (simp add: new_state_def)

lemma new_matcher_input [simp]: "input (new_matcher tab p inp) = inp" "unicode_of (new_matcher tab p inp) = unicodeMode (pattern_flags p)"
  by (simp_all add: new_matcher_def unicode_of_def)

lemma whole_ok:
  assumes "out_ok m n y" and "pos_ok m at" and "at \<le> fst y"
  shows "caps_ok m n (whole at y)"
  using capture_update [of m n "snd y" 0 "int at" "int (fst y)"] assms by (simp add: whole_def out_ok_def capture_ok_def)

lemma first_match_ok:
  assumes "input_ok m" and "node_ok m n False rt" and "pos_ok m at" and "first_match m n rt at = Match caps"
  shows "caps_ok m n caps \<and> caps ! 0 = int at"
proof -
  obtain y ys where y: "sem m rt False (at, unset n) = y # ys" "caps = whole at y"
    using assms(4) by (auto simp: first_match_def split: list.splits)
  have "reaches m n False (at, unset n) (y # ys)"
    using sem_reach(1) [OF assms(1,2), of "(at, unset n)"] assms(3) unset_ok y(1) by (simp add: out_ok_def)
  then show ?thesis using whole_ok [of m n y at] assms(3) y(2) by (auto simp: moved_def whole_def out_ok_def caps_ok_def)
qed

section \<open>The scan\<close>

text \<open>The positions the scan visits are the character boundaries.\<close>

lemma advance_next:
  assumes "pos_ok m at" and "at < q" and "pos_ok m q"
  shows "advanceStringIndex (input m) at (unicode_of m) \<le> q" and "pos_ok m (advanceStringIndex (input m) at (unicode_of m))"
proof -
  have at: "at < length (input m)" using assms(2,3) by (simp add: pos_ok_def)
  then show "advanceStringIndex (input m) at (unicode_of m) \<le> q"
    using inside_character [OF assms(1,3,2)] by (simp add: advanceStringIndex_def characterAt_def)
  show "pos_ok m (advanceStringIndex (input m) at (unicode_of m))"
    using step_at(1) [OF assms(1) at] at by (simp add: advanceStringIndex_def characterAt_def)
qed

lemma advance_ok:
  assumes "pos_ok m at" and "advanceStringIndex (input m) at (unicode_of m) \<le> length (input m)"
  shows "pos_ok m (advanceStringIndex (input m) at (unicode_of m))"
  using assms step_at(1) [OF assms(1)] by (auto simp: advanceStringIndex_def characterAt_def split: if_splits)

text \<open>What a scan from \<open>from\<close> that does not give up may answer.\<close>

definition leftmost :: "matcher \<Rightarrow> nat \<Rightarrow> node \<Rightarrow> nat \<Rightarrow> exec_result \<Rightarrow> bool" where
  "leftmost m n rt from r \<longleftrightarrow>
     (if r = NoMatch then \<forall>q. from \<le> q \<longrightarrow> pos_ok m q \<longrightarrow> first_match m n rt q = NoMatch
      else \<exists>q. from \<le> q \<and> pos_ok m q \<and> r = first_match m n rt q \<and>
             (\<forall>q'. from \<le> q' \<longrightarrow> q' < q \<longrightarrow> pos_ok m q' \<longrightarrow> first_match m n rt q' = NoMatch))"

lemma leftmost_next:
  assumes "pos_ok m at" and "first_match m n rt at = NoMatch" and "leftmost m n rt (advanceStringIndex (input m) at (unicode_of m)) r"
  shows "leftmost m n rt at r"
proof -
  let ?at = "advanceStringIndex (input m) at (unicode_of m)"
  have after: "?at \<le> q" if "at \<le> q" "q \<noteq> at" "pos_ok m q" for q using advance_next(1) [OF assms(1) _ that(3)] that by simp
  have earlier: "first_match m n rt q = NoMatch" if "at \<le> q" "pos_ok m q" "?at \<le> q \<Longrightarrow> first_match m n rt q = NoMatch" for q
    using after [OF that(1) _ that(2)] that(3) assms(2) by (cases "q = at") auto
  show ?thesis
  proof (cases "r = NoMatch")
    case True
    then show ?thesis using assms(3) earlier by (simp add: leftmost_def)
  next
    case False
    then obtain q where q: "?at \<le> q" "pos_ok m q" "r = first_match m n rt q"
        "\<And>q'. ?at \<le> q' \<Longrightarrow> q' < q \<Longrightarrow> pos_ok m q' \<Longrightarrow> first_match m n rt q' = NoMatch"
      using assms(3) by (auto simp: leftmost_def)
    have "first_match m n rt q' = NoMatch" if "at \<le> q'" "q' < q" "pos_ok m q'" for q'
      using earlier [OF that(1,3)] q(4) that(2,3) by blast
    moreover have "at \<le> q" using advance_moves [of at "input m" "unicode_of m"] q(1) by simp
    ultimately show ?thesis using q(2,3) False by (auto simp: leftmost_def)
  qed
qed

lemma leftmost_here: "pos_ok m at \<Longrightarrow> first_match m n rt at \<noteq> NoMatch \<Longrightarrow> leftmost m n rt at (first_match m n rt at)"
  unfolding leftmost_def by (auto intro: exI [of _ at])

lemma search_loop_leftmost:
  assumes "input_ok m" and "node_ok m n False rt" and "at \<le> length (input m) \<longrightarrow> pos_ok m at" and "length (captures st) = 2 * (n + 1)"
  shows "leftmost m n rt at (search_loop m rt at st) \<or> (\<exists>e. search_loop m rt at st = Error e)"
  using assms
proof (induction m rt at st rule: search_loop.induct)
  case (1 m rt at st)
  show ?case
  proof (cases "at \<le> length (input m)")
    case False
    then have "\<not> pos_ok m q" if "at \<le> q" for q using that by (simp add: pos_ok_def)
    then show ?thesis using False by (subst search_loop.simps) (simp add: leftmost_def)
  next
    case True
    then have p: "pos_ok m at" using "1.prems"(3) by simp
    obtain r st' where r: "run m rt at st = (r, st')" by (cases "run m rt at st")
    have sl: "search_loop m rt at st = (if r \<noteq> NoMatch then r else search_loop m rt (advanceStringIndex (input m) at (unicode_of m)) st')"
      using True r by (subst search_loop.simps) simp
    note rc = run_cases [OF "1.prems"(1,2) p "1.prems"(4) r]
    show ?thesis
    proof (cases "r = NoMatch")
      case NM: True
      then have "first_match m n rt at = NoMatch" and l: "length (captures st') = 2 * (n + 1)" using rc by auto
      moreover have "leftmost m n rt (advanceStringIndex (input m) at (unicode_of m)) (search_loop m rt (advanceStringIndex (input m) at (unicode_of m)) st')
          \<or> (\<exists>e. search_loop m rt (advanceStringIndex (input m) at (unicode_of m)) st' = Error e)"
        using "1.IH" [OF True r [symmetric] refl _ "1.prems"(1,2) _ l] NM advance_ok [OF p] by simp
      ultimately show ?thesis using sl NM leftmost_next [OF p] by auto
    next
      case False
      then show ?thesis using rc sl leftmost_here [OF p, of n rt] by auto
    qed
  qed
qed

section \<open>Plain patterns\<close>

text \<open>A sequence of one-character atoms spends one step and one level on each.\<close>

lemma plain_no_give_up:
  assumes "\<forall>t \<in> set ts. single t" and "i \<le> length ts" and "d + (length ts - i) \<le> kMaxDepth"
    and "steps st + (length ts - i) + 1 \<le> kStepBudget" and "err st = None"
  shows "err (snd (matchSequence m d ts i pos Done False st)) = None"
  using assms
proof (induction "length ts - i" arbitrary: i d pos st)
  case 0
  then show ?case by (simp add: matchSequence.simps runCont.simps)
next
  case (Suc n)
  let ?t = "ts ! i" and ?k = "SequenceK ts (i + 1) False Done"
  have i: "i < length ts" and t: "single ?t" using Suc.hyps(2) Suc.prems(1) by auto
  have "matchSequence m d ts i pos Done False st = matchOneCharacter m ?t pos False (\<lambda>p s. runCont m (d + 1) ?k p s) st"
    using Suc.hyps(2) Suc.prems i t
    by (cases ?t) (auto simp: matchSequence.simps [of m d ts] matchNode.simps [of m d])
  moreover have "err (snd (runCont m (d + 1) ?k p st)) = None" for p
  proof -
    have "runCont m (d + 1) ?k p st = matchSequence m (d + 1) ts (i + 1) p Done False (st\<lparr>steps := steps st + 1\<rparr>)"
    proof -
      have "\<not> kStepBudget < steps st + 1" using Suc.prems(4) by linarith
      then show ?thesis using Suc.prems(5) by (subst runCont.simps) simp
    qed
    then show ?thesis
      using Suc.hyps(1) [of "i + 1" "d + 1" "st\<lparr>steps := steps st + 1\<rparr>" p] Suc.hyps(2) Suc.prems i by simp
  qed
  ultimately show ?case using Suc.prems(5) by (simp add: matchOneCharacter_def split: option.split)
qed

lemma plain_run:
  assumes "\<forall>t \<in> set ts. single t" and "length ts < kMaxDepth"
  shows "fst (run m (Sequence ts) at st) \<noteq> Error e"
proof -
  let ?st0 = "st\<lparr>captures := replicate (length (captures st)) kUnset, steps := 0, err := None\<rparr>"
  have "matchNode m 0 (Sequence ts) at Done False ?st0 = matchSequence m 1 ts 0 at Done False ?st0"
    by (simp add: matchNode.simps kMaxDepth_def)
  then have "err (snd (matchNode m 0 (Sequence ts) at Done False ?st0)) = None"
    using plain_no_give_up [OF assms(1), of 0 1 ?st0 m at] assms(2) by (simp add: kMaxDepth_def kStepBudget_def)
  then show ?thesis by (auto simp: run_def Let_def split: prod.splits option.splits)
qed

lemma search_loop_error: "search_loop m rt at st = Error e \<Longrightarrow> \<exists>q st1. fst (run m rt q st1) = Error e"
proof (induction m rt at st rule: search_loop.induct)
  case (1 m rt at st)
  obtain r st' where r: "run m rt at st = (r, st')" by (cases "run m rt at st")
  show ?case
  proof (cases "at \<le> length (input m) \<and> r = NoMatch")
    case True
    then show ?thesis using "1.IH" [OF _ r [symmetric] refl] "1.prems" r by (subst (asm) search_loop.simps) auto
  next
    case False
    then have "fst (run m rt at st) = Error e"
      using "1.prems" r by (subst (asm) search_loop.simps) (auto split: if_splits)
    then show ?thesis by blast
  qed
qed

section \<open>Properties\<close>

text \<open>The parser's guarantees for a pattern and a subject made of code units.\<close>

definition pattern_ok :: "case_tables \<Rightarrow> Pattern \<Rightarrow> nat list \<Rightarrow> bool" where
  "pattern_ok tab p inp \<longleftrightarrow>
     input_ok (new_matcher tab p inp) \<and> node_ok (new_matcher tab p inp) (groupCount p) False (root p)"


text \<open>A search that does not give up finds the leftmost match: the first outcome of the pattern at the
  first character boundary, from the start index on, where it has one, and no match when there is
  none anywhere.\<close>

theorem search_leftmost:
  assumes "usable_plan p = None" and "pattern_ok tab p inp" and "pos_ok (new_matcher tab p inp) from"
    and "\<nexists>e. search tab p inp from = Error e"
  shows "leftmost (new_matcher tab p inp) (groupCount p) (root p) from (search tab p inp from)"
proof -
  let ?m = "new_matcher tab p inp"
  have start: "from \<le> length inp" using assms(3) by (simp add: pos_ok_def)
  then have "search tab p inp from = search_loop ?m (root p) from (new_state p)" using assms(1) by (simp add: search_def)
  then show ?thesis
    using search_loop_leftmost [of ?m "groupCount p" "root p" "from" "new_state p"] assms new_state_length
    by (auto simp: pattern_ok_def)
qed

text \<open>Every capture a search reports is unset or an ordered pair of positions of the subject, on
  character boundaries, one pair for each group, and the match starts at or after the start index.\<close>

theorem captures_in_bounds:
  assumes "usable_plan p = None" and "pattern_ok tab p inp" and "pos_ok (new_matcher tab p inp) from"
    and "search tab p inp from = Match caps"
  shows "caps_ok (new_matcher tab p inp) (groupCount p) caps \<and> int from \<le> caps ! 0"
proof -
  let ?m = "new_matcher tab p inp"
  have start: "from \<le> length inp" using assms(3) by (simp add: pos_ok_def)
  then have sl: "search_loop ?m (root p) from (new_state p) = Match caps" using assms(1,4) by (simp add: search_def)
  have "leftmost ?m (groupCount p) (root p) from (Match caps)"
    using search_loop_leftmost [of ?m "groupCount p" "root p" "from" "new_state p"] assms(2,3) new_state_length
    unfolding sl pattern_ok_def by auto
  then obtain q where "from \<le> q" "pos_ok ?m q" "first_match ?m (groupCount p) (root p) q = Match caps"
    by (auto simp: leftmost_def)
  then show ?thesis
    using first_match_ok [of ?m "groupCount p" "root p" q caps] assms(2) by (auto simp: pattern_ok_def)
qed



section \<open>Witnesses\<close>

definition no_tables :: case_tables where
  "no_tables = \<lparr>simpleCaseFold = id, simpleCaseFoldCandidates = (\<lambda>_. []), simpleCaseFoldSources = []\<rparr>"

text \<open>\<open>/(.*)b/\<close>\<close>

definition star :: repeat_node where
  "star = \<lparr>repMin = 0, repMax = kUnbounded, greedy = True, firstCapture = 2, captureCount = 0, simpleAtom = True\<rparr>"

definition sample :: Pattern where
  "sample = \<lparr>root = Sequence [Group 1 (Sequence [Repeat star Dot]), Character 98], pattern_flags = noFlags, groupCount = 1, groupNames = [[]],
     hasNamedGroups = False, jitPlan = None\<rparr>"

lemmas evaluate = search_def search_loop.simps run_def matchAt_def new_state_def new_matcher_def usable_plan_def
  runCont.simps matchSequence.simps matchNode.simps matchRepeat.simps matchOneCharacter_def matchSimpleRepeat_def scan.simps
  step_one_def characterAt_def characterBefore_def codePointAt_def codePointBefore_def canonical_def canonicalize_def
  charMatches_def dotMatches_def isLineTerminator_def or_else_def or_undo_def set_capture_def shrink_def grow_def
  unicode_of_def ignoreCase_of_def unicodeMode_def noFlags_def kStepBudget_def kMaxDepth_def kUnbounded_def kUnset_def
  advanceStringIndex_def isLeadSurrogate_def isTrailSurrogate_def giveUp_def

lemma sample_search: "search no_tables sample [97, 98, 99] 0 = Match [0, 2, 0, 1]"
  by (simp add: evaluate sample_def star_def no_tables_def Let_def) (simp add: numeral_eq_Suc)

lemma sample_ok:
  "usable_plan sample = None" "pattern_ok no_tables sample [97, 98, 99]" "pos_ok (new_matcher no_tables sample [97, 98, 99]) 0"
  by (simp_all add: usable_plan_def sample_def star_def pattern_ok_def input_ok_def pos_ok_def boundary_def)

theorem search_leftmost_witness:
  "leftmost (new_matcher no_tables sample [97, 98, 99]) 1 (root sample) 0 (Match [0, 2, 0, 1])"
  using search_leftmost [OF sample_ok] sample_search by (simp add: sample_def)

theorem captures_in_bounds_witness:
  "caps_ok (new_matcher no_tables sample [97, 98, 99]) 1 [0, 2, 0, 1]"
  using captures_in_bounds [OF sample_ok sample_search] by (simp add: sample_def)

lemma sample_match: "matchAt no_tables sample [97, 98, 99] 0 = Match [0, 2, 0, 1]"
  by (simp add: evaluate sample_def star_def no_tables_def Let_def) (simp add: numeral_eq_Suc)


lemma sample_counted:
  "matchNodeInner (new_matcher no_tables sample [97, 98]) 1 (Repeat star Dot) 0 Done False (new_state sample) =
     (True, (new_state sample)\<lparr>endPos := 2, steps := 1\<rparr>)"
  by (simp add: evaluate sample_def star_def no_tables_def Let_def)

lemma sample_turns:
  "matchNodeInner (new_matcher no_tables sample [97, 98]) 1 (Repeat (star\<lparr>simpleAtom := False\<rparr>) Dot) 0 Done False (new_state sample) =
     (True, (new_state sample)\<lparr>endPos := 2, steps := 3\<rparr>)"
  by (simp add: evaluate sample_def star_def no_tables_def Let_def repeat_turn_def clear_if_def restore_if_def)



section \<open>Where the code departs from its comments\<close>

text \<open>Under \<open>u\<close> a scan that is started between the halves of a surrogate pair matches the second half.\<close>

theorem search_inside_pair:
  "search no_tables \<lparr>root = Sequence [Character 0xDE00], pattern_flags = noFlags\<lparr>unicode := True\<rparr>, groupCount = 0, groupNames = [],
       hasNamedGroups = False, jitPlan = None\<rparr>
     [0xD83D, 0xDE00] 1 = Match [1, 2]"
  by (simp add: evaluate no_tables_def Let_def) (simp add: numeral_eq_Suc)

text \<open>Under \<open>i\<close> alone a backreference takes two characters for the same that the pattern character and the
  class test tell apart: the long s after an s.\<close>

theorem backreference_folds:
  assumes "ignoreCase_of m" and "\<not> unicode_of m" and "input m = [0x73, 0x17F]" and "simpleCaseFold (tables m) 0x17F = simpleCaseFold (tables m) 0x73"
  shows "back_to m 1 False 1 [0, 0, 0, 1] = Some 2 \<and> canonical m 0x73 \<noteq> canonical m 0x17F"
  using assms
  by (simp add: back_to_def kUnset_def same_text.simps sameCharacter_def characterAt_def codePointAt_def canonical_def canonicalize_def
      foldLatin1_def foldLatinExtendedA_def)

end
