(* ===== verification/Regex_Compile.thy ===== *)
theory Regex_Compile
  imports Regex_Groups Regex_Search
begin

text \<open>
  The properties of \<open>compile\<close> (\<open>src/src/regex/parser.cpp\<close>): what a compiled pattern is, that the internal
  disagreement about the groups cannot happen, where errors are reported, that the loops of the parser
  end, what the set operators of a class denote, and that searching with a compiled pattern finds the
  leftmost match.
\<close>

section \<open>From the parser to the matcher\<close>

definition pattern_env :: "ucd \<Rightarrow> nat list \<Rightarrow> Flags \<Rightarrow> penv" where
  "pattern_env u source fl = \<lparr>src = source, pflags = fl, groups = prescanGroups source (unicodeSets fl), unicodeData = u\<rparr>"

text \<open>A pattern whose text is made of code units.\<close>

definition units_ok :: "nat list \<Rightarrow> bool" where
  "units_ok units \<longleftrightarrow> (\<forall>c \<in> set units. c < 2 ^ 16)"

lemma prescan_names:
  "length (names info) = count info \<Longrightarrow> length (names (prescan_loop sets d source info)) = count (prescan_loop sets d source info)"
proof (induction sets d source info rule: prescan_loop.induct)
  case (1 sets classDepth source info)
  show ?case
  proof (cases source)
    case Nil
    then show ?thesis using "1.prems" by (simp add: prescan_loop.simps)
  next
    case (Cons c cs)
    show ?thesis
      using "1.IH" [OF Cons] "1.prems" unfolding Cons by (subst (1 2) prescan_loop.simps) (simp add: Let_def)
  qed
qed

lemma pattern_env_ok:
  assumes "ucd_ok u" and "units_ok source"
  shows "env_ok (pattern_env u source fl)" and "groups_ok (pattern_env u source fl)"
  using assms prescan_names [of "\<lparr>count = 0, names = []\<rparr>" "unicodeSets fl" 0 source]
  by (simp_all add: env_ok_def pattern_env_def units_ok_def groups_ok_def prescanGroups_def)

text \<open>The whole pattern: read to its end, with the groups of the pre-scan.\<close>

lemma parse_builds:
  fixes fl :: Flags
  assumes "ucd_ok u" and "units_ok source"
  defines "e \<equiv> pattern_env u source fl"
  shows "case parse e of
           Inl (why, i) \<Rightarrow> i \<le> length source
         | Inr (rt, st) \<Rightarrow>
             captureCounter st = count (groups e) \<and> node_wf e rt \<and> depth_of rt < parser_kMaxDepth \<and>
             captures_of rt = [1..<count (groups e) + 1]"
proof -
  let ?st = "\<lparr>at = 0, captureCounter = 0\<rparr>"
  have "disjunction_ok e parser_kMaxDepth (parseDisjunction parser_kMaxDepth e)"
    unfolding e_def by (rule parseDisjunction_ok [OF pattern_env_ok [OF assms(1,2)]])
  then have d: "case parseDisjunction parser_kMaxDepth e ?st of
           Inl (why, i) \<Rightarrow> i \<le> length (src e)
         | Inr (body, st1) \<Rightarrow>
             at ?st \<le> at st1 \<and> at st1 \<le> length (src e) \<and> counts e ?st st1 \<and> depth_of body < parser_kMaxDepth \<and> node_wf e body \<and>
             captures_of body = [captureCounter ?st + 1..<captureCounter st1 + 1]"
    by (simp add: disjunction_ok_def)
  have src: "src e = source" by (simp add: e_def pattern_env_def)
  show ?thesis
  proof (cases "parseDisjunction parser_kMaxDepth e ?st")
    case (Inl why)
    then show ?thesis using d src by (cases why) (simp add: parse_def)
  next
    case (Inr x)
    obtain rt st where x: "x = (rt, st)" by (cases x)
    show ?thesis
    proof (cases "at st < length (src e)")
      case True
      then show ?thesis using Inr x src by (simp add: parse_def p_fail_def)
    next
      case False
      then have len: "at st = length (src e)" using d Inr x by simp
      obtain info where "prescan_from e 0 0 \<lparr>count = 0, names = []\<rparr> = prescan_from e 0 (at st) info" "count info = captureCounter st"
        using d Inr x by (auto simp: counts_def dest!: spec [of _ "\<lparr>count = 0, names = []\<rparr>"])
      moreover have "prescan_from e 0 (at st) info = info" by (simp add: prescan_from_def len prescan_loop.simps)
      moreover have "groups e = prescan_from e 0 0 \<lparr>count = 0, names = []\<rparr>"
        by (simp add: e_def pattern_env_def prescanGroups_def prescan_from_def)
      ultimately have "captureCounter st = count (groups e)" by simp
      then show ?thesis using d Inr x False by (simp add: parse_def)
    qed
  qed
qed

lemma compile_parse:
  "compile u plan source fl =
     (case parse (pattern_env u source fl) of
        Inl (why, i) \<Rightarrow> Inl (ParseError why i)
      | Inr (rt, st) \<Rightarrow>
          if captureCounter st \<noteq> count (groups (pattern_env u source fl))
          then Inl (CountsDisagree (count (groups (pattern_env u source fl))) (captureCounter st))
          else
            Inr \<lparr>root = rt, pattern_flags = fl, groupCount = count (groups (pattern_env u source fl)),
                 groupNames = names (groups (pattern_env u source fl)),
                 hasNamedGroups = list_ex (\<lambda>n. n \<noteq> []) (names (groups (pattern_env u source fl))), jitPlan = plan rt fl\<rparr>)"
  by (simp only: compile_def Let_def pattern_env_def penv.select_convs)

lemma compile_builds:
  assumes "ucd_ok u" and "units_ok source" and "compile u plan source fl = Inr p"
  shows "node_wf (pattern_env u source fl) (root p)" "depth_of (root p) < parser_kMaxDepth" "captures_of (root p) = [1..<groupCount p + 1]"
    "groupCount p = count (prescanGroups source (unicodeSets fl))" "length (groupNames p) = groupCount p" "pattern_flags p = fl"
    "jitPlan p = plan (root p) fl"
proof -
  let ?e = "pattern_env u source fl"
  obtain rt st where r: "parse ?e = Inr (rt, st)" and c: "captureCounter st = count (groups ?e)"
    using assms(3) unfolding compile_parse by (auto split: sum.splits if_splits)
  have p: "p = \<lparr>root = rt, pattern_flags = fl, groupCount = count (groups ?e), groupNames = names (groups ?e),
      hasNamedGroups = list_ex (\<lambda>n. n \<noteq> []) (names (groups ?e)), jitPlan = plan rt fl\<rparr>"
    using assms(3) r c unfolding compile_parse by simp
  show "node_wf ?e (root p)" "depth_of (root p) < parser_kMaxDepth" "captures_of (root p) = [1..<groupCount p + 1]"
      "length (groupNames p) = groupCount p" "pattern_flags p = fl" "jitPlan p = plan (root p) fl"
    using parse_builds [OF assms(1,2), of fl] pattern_env_ok(2) [OF assms(1,2), of fl] r by (simp_all add: p groups_ok_def)
  show "groupCount p = count (prescanGroups source (unicodeSets fl))" by (simp add: p pattern_env_def)
qed

text \<open>No backreference is read backward: the matcher measures the captured text in units, which under \<open>u\<close> and
  \<open>v\<close> is not what the reference meaning does.\<close>

fun back_free :: "bool \<Rightarrow> node \<Rightarrow> bool" where
  "back_free bw (Alternation alts) \<longleftrightarrow> (\<forall>ts \<in> set alts. \<forall>t \<in> set ts. back_free bw t)"
| "back_free bw (Sequence ts) \<longleftrightarrow> (\<forall>t \<in> set ts. back_free bw t)"
| "back_free bw (Lookahead neg child) \<longleftrightarrow> back_free False child"
| "back_free bw (Lookbehind neg child) \<longleftrightarrow> back_free True child"
| "back_free bw (Group i child) \<longleftrightarrow> back_free bw child"
| "back_free bw (Backreference i) \<longleftrightarrow> \<not> bw"
| "back_free bw (Repeat r atom) \<longleftrightarrow> back_free bw atom"
| "back_free bw _ \<longleftrightarrow> True"

lemma single_consumes_one: "consumes_one x \<Longrightarrow> single x"
  by (cases x) simp_all

lemma inner_captures:
  "ts \<in> set alts \<Longrightarrow> t \<in> set ts \<Longrightarrow> set (captures_of t) \<subseteq> set (captures_of (Alternation alts))"
  "t \<in> set ts \<Longrightarrow> set (captures_of t) \<subseteq> set (captures_of (Sequence ts))"
  by auto

lemma wf_node_ok:
  assumes "node_wf e x" and "set (captures_of x) \<subseteq> {1..n}" and "count (groups e) \<le> n" and "unicode_of m \<longrightarrow> back_free bw x"
  shows "node_ok m n bw x"
  using assms
proof (induction m n bw x rule: node_ok.induct)
  case (1 m n bw alts)
  have "node_ok m n bw t" if "ts \<in> set alts" "t \<in> set ts" for ts t
  proof (rule "1.IH" [OF that])
    show "set (captures_of t) \<subseteq> {1..n}" using inner_captures(1) [OF that] "1.prems"(2) by (rule subset_trans)
  qed (use "1.prems" that in auto)
  then show ?case by simp
next
  case (2 m n bw ts)
  have "node_ok m n bw t" if "t \<in> set ts" for t
  proof (rule "2.IH" [OF that])
    show "set (captures_of t) \<subseteq> {1..n}" using inner_captures(2) [OF that] "2.prems"(2) by (rule subset_trans)
  qed (use "2.prems" that in auto)
  then show ?case by simp
next
  case (5 m n bw i child)
  have "set (captures_of child) \<subseteq> {1..n}" "i \<le> n" using "5.prems"(2) by (auto split: if_splits)
  then show ?case using 5 by simp
next
  case (7 m n bw r atom)
  have caps: "captures_of atom = [firstCapture r..<firstCapture r + captureCount r]" using "7.prems"(1) by simp
  have "captureCount r = 0 \<or> firstCapture r + captureCount r \<le> n + 1"
    using "7.prems"(2) caps by (cases "captureCount r") auto
  then show ?case using 7 single_consumes_one by auto
qed simp_all

text \<open>A loop whose iteration has a last state.\<close>

definition loop_ends :: "(pstate \<Rightarrow> bool) \<Rightarrow> ('a \<Rightarrow> pstate \<Rightarrow> 'a parse) \<Rightarrow> 'a \<Rightarrow> pstate \<Rightarrow> bool" where
  "loop_ends going turn acc st \<longleftrightarrow>
     (\<exists>r. while_option (\<lambda>r. case r of Inl why \<Rightarrow> False | Inr (acc, st) \<Rightarrow> going st)
        (\<lambda>r. case r of Inl why \<Rightarrow> Inl why | Inr (acc, st) \<Rightarrow> turn acc st) (Inr (acc, st)) = Some r)"

lemma moving_loop_ends:
  assumes "at st \<le> length (src e)" and "\<And>s. going s \<Longrightarrow> at s < length (src e)"
    and "\<And>a s a' s'. at s \<le> length (src e) \<Longrightarrow> going s \<Longrightarrow> turn a s = Inr (a', s') \<Longrightarrow> at s < at s' \<and> at s' \<le> length (src e)"
  shows "loop_ends going turn acc st"
  unfolding loop_ends_def
  by (rule p_while_ends [where I = "\<lambda>a s. at s \<le> length (src e)" and n = "length (src e)"]) (use assms in auto)

section \<open>Properties\<close>

text \<open>C4: What a compiled pattern is: its capture groups are numbered one by one in the order of their opening
  parentheses and there are as many as it says, with one name each; a quantifier covers exactly the
  captures of its atom and is marked as simple exactly on one-character atoms; every backreference names
  a group; every class is normalised and inside the alphabet, its strings longest first and only under
  \<open>v\<close>; and groups nest less than \<open>kMaxDepth\<close> deep.\<close>

theorem compile_well_formed:
  assumes "ucd_ok u" and "units_ok source" and "compile u plan source fl = Inr p"
  shows "node_wf (pattern_env u source fl) (root p) \<and> captures_of (root p) = [1..<groupCount p + 1] \<and>
         depth_of (root p) < parser_kMaxDepth \<and> length (groupNames p) = groupCount p \<and> pattern_flags p = fl"
  using compile_builds [OF assms] by simp

text \<open>C7: The pre-scan and the parse never disagree about the groups, so the internal error of \<open>compile\<close> cannot
  happen: whatever the pattern, a parse that succeeds has opened exactly the groups the pre-scan
  counted.\<close>

theorem groups_never_disagree:
  assumes "ucd_ok u" and "units_ok source"
  shows "compile u plan source fl \<noteq> Inl (CountsDisagree a b)"
  using parse_builds [OF assms, of fl] unfolding compile_parse by (auto split: sum.splits)

text \<open>C33: The index an error of the pattern names is an index of the pattern or its end.\<close>

theorem compile_error_position:
  assumes "ucd_ok u" and "units_ok source" and "compile u plan source fl = Inl (ParseError why i)"
  shows "i \<le> length source"
  using parse_builds [OF assms(1,2), of fl] assms(3) unfolding compile_parse by (auto split: sum.splits if_splits)


text \<open>C34: The operators of a \<open>v\<close>-mode class denote the set operations: intersection and difference of the
  operands after simple case folding under \<open>i\<close>, a string kept by an intersection when both sides hold it
  and by a difference when the right side does not, and a complement taken over the characters that are
  their own folding under \<open>i\<close> and over the whole alphabet otherwise.\<close>

theorem class_operators_denote:
  assumes "env_ok e" and "unicodeSets (pflags e)" and "normal (set_ranges a)" and "normal (set_ranges b)"
  shows "members (set_ranges (intersect_values e a b)) = folded_set e (members (set_ranges a)) \<inter> folded_set e (members (set_ranges b)) \<and>
         set (set_strings (intersect_values e a b)) = set (set_strings a) \<inter> set (set_strings b) \<and>
         members (set_ranges (subtract_values e a b)) = folded_set e (members (set_ranges a)) - folded_set e (members (set_ranges b)) \<and>
         set (set_strings (subtract_values e a b)) = set (set_strings a) - set (set_strings b) \<and>
         members (complementInMode e (set_ranges a)) = all_characters e - folded_set e (members (set_ranges a))"
proof -
  note f = foldedForOperation_set [OF assms(1,3)] foldedForOperation_set [OF assms(1,4)]
  show ?thesis
    using f intersectRanges_normal [of "foldedForOperation e (set_ranges a)" "foldedForOperation e (set_ranges b)"]
      subtractRanges_normal [of "foldedForOperation e (set_ranges a)" "foldedForOperation e (set_ranges b)"]
      complementInMode_set(2) [OF assms(1) set_ok_space [OF assms(2,3)]] assms(2)
    by (auto simp: intersect_values_def subtract_values_def normal_def)
qed

text \<open>C35: The loops of the parser end: the loop over the terms of an alternative and the loop over the
  alternatives of a disjunction, whose turns may themselves parse nested disjunctions, reach a last
  state from every position of the pattern.\<close>

theorem parser_loops_end:
  assumes "env_ok e" and "groups_ok e" and "at st \<le> length (src e)"
  shows "loop_ends (\<lambda>st. \<not> p_atEnd e st \<and> p_peek e st 0 \<noteq> ch CHR ''|'' \<and> p_peek e st 0 \<noteq> ch CHR '')'')
           (\<lambda>terms st. case parseTerm levels e (parseDisjunction levels e) st of
              Inl why \<Rightarrow> Inl why | Inr (x, st1) \<Rightarrow> Inr (terms @ [x], st1)) [] st \<and>
         loop_ends (\<lambda>st. eat e (ch CHR ''|'') st \<noteq> None)
           (\<lambda>alts st. case parseAlternative levels e (parseDisjunction levels e) (skip_by 1 st) of
              Inl why \<Rightarrow> Inl why | Inr (alt, st1) \<Rightarrow> Inr (alts @ [alt], st1)) alts st"
proof
  note disjunction = parseDisjunction_ok [OF assms(1,2)]
  show "loop_ends (\<lambda>st. \<not> p_atEnd e st \<and> p_peek e st 0 \<noteq> ch CHR ''|'' \<and> p_peek e st 0 \<noteq> ch CHR '')'')
           (\<lambda>terms st. case parseTerm levels e (parseDisjunction levels e) st of
              Inl why \<Rightarrow> Inl why | Inr (x, st1) \<Rightarrow> Inr (terms @ [x], st1)) [] st"
  proof (rule moving_loop_ends [OF assms(3)], goal_cases)
    case (2 a s a' s')
    then obtain x where "parseTerm levels e (parseDisjunction levels e) s = Inr (x, s')" by (auto split: sum.splits)
    then show ?case using parseTerm_moves [OF assms(1,2) disjunction 2(1), of levels levels] by simp
  qed (simp add: p_atEnd_def)
  show "loop_ends (\<lambda>st. eat e (ch CHR ''|'') st \<noteq> None)
           (\<lambda>alts st. case parseAlternative levels e (parseDisjunction levels e) (skip_by 1 st) of
              Inl why \<Rightarrow> Inl why | Inr (alt, st1) \<Rightarrow> Inr (alts @ [alt], st1)) alts st"
  proof (rule moving_loop_ends [OF assms(3)], goal_cases)
    case (2 a s a' s')
    then have le: "at (skip_by 1 s) \<le> length (src e)" by (auto simp: eat_def p_atEnd_def split: if_splits)
    obtain x where "parseAlternative levels e (parseDisjunction levels e) (skip_by 1 s) = Inr (x, s')" using 2 by (auto split: sum.splits)
    then show ?case using parseAlternative_moves [OF assms(1,2) disjunction le, of levels levels] by simp
  qed (auto simp: eat_def p_atEnd_def split: if_splits)
qed

section \<open>Witnesses\<close>

text \<open>The pattern \<open>(a)|b\<close>.\<close>

definition small_source :: "nat list" where
  "small_source = map of_char ''(a)|b''"

definition small_pattern :: Pattern where
  "small_pattern =
     \<lparr>root = Alternation [[Group 1 (Sequence [Character 97])], [Character 98]], pattern_flags = noFlags, groupCount = 1,
      groupNames = [[]], hasNamedGroups = False, jitPlan = None\<rparr>"

lemma small_parse:
  "parse (pattern_env sample_ucd small_source noFlags) =
     Inr (Alternation [[Group 1 (Sequence [Character 97])], [Character 98]], \<lparr>at = 5, captureCounter = 1\<rparr>)"
  by code_simp

lemma small_units: "units_ok small_source"
  by (simp add: units_ok_def small_source_def)

lemma small_compile: "compile sample_ucd (\<lambda>_ _. None) small_source noFlags = Inr small_pattern"
proof -
  have "groups (pattern_env sample_ucd small_source noFlags) = \<lparr>count = 1, names = [[]]\<rparr>" by code_simp
  then show ?thesis unfolding compile_parse small_parse by (simp add: small_pattern_def)
qed

theorem compile_well_formed_witness:
  "node_wf (pattern_env sample_ucd small_source noFlags) (root small_pattern) \<and> captures_of (root small_pattern) = [1]"
  using compile_well_formed [OF sample_ucd_ok small_units small_compile] by (simp add: small_pattern_def)

theorem groups_never_disagree_witness:
  "compile sample_ucd (\<lambda>_ _. None) (small_source @ map of_char ''('') noFlags \<noteq> Inl (CountsDisagree 2 1)"
  by (rule groups_never_disagree [OF sample_ucd_ok]) (simp add: units_ok_def small_source_def)

lemma open_fails: "parse (pattern_env sample_ucd [97, 41] noFlags) = Inl (UnmatchedParenthesis, 1)"
  by code_simp

theorem compile_error_position_witness: "(1 :: nat) \<le> length [97, 41 :: nat]"
  by (rule compile_error_position [OF sample_ucd_ok, of _ "\<lambda>_ _. None" noFlags UnmatchedParenthesis])
    (simp_all add: units_ok_def compile_parse open_fails)

lemma small_search: "search (ucd_tables sample_ucd) small_pattern [120, 97] 0 = Match [1, 2, 1, 2]"
  by (simp add: evaluate small_pattern_def Let_def) (simp add: numeral_eq_Suc)


text \<open>\<open>[A-B]\<close> and \<open>[a-b]\<close> under \<open>iv\<close>, where \<open>A\<close> folds to \<open>a\<close>.\<close>

definition small_env :: penv where
  "small_env = pattern_env sample_ucd [] (noFlags\<lparr>unicodeSets := True, ignoreCase := True\<rparr>)"

theorem class_operators_denote_witness:
  "0x61 \<in> members (set_ranges (intersect_values small_env (noMembers\<lparr>set_ranges := [(0x41, 0x42)]\<rparr>) (noMembers\<lparr>set_ranges := [(0x61, 0x62)]\<rparr>)))"
proof -
  have fold: "ucd_simpleCaseFold sample_ucd 0x41 = 0x61" "ucd_simpleCaseFold sample_ucd 0x61 = 0x61" by code_simp+
  have "env_ok small_env" "unicodeSets (pflags small_env)"
    unfolding small_env_def by (intro pattern_env_ok sample_ucd_ok) (simp_all add: pattern_env_def units_ok_def)
  moreover have "normal (set_ranges (noMembers\<lparr>set_ranges := [(0x41, 0x42)]\<rparr>))" "normal (set_ranges (noMembers\<lparr>set_ranges := [(0x61, 0x62)]\<rparr>))"
    by (simp_all add: normal_def kMaxCodePoint_def)
  moreover have "members [(0x41, 0x42)] = {0x41..0x42}" "members [(0x61, 0x62)] = {0x61..0x62}" by auto
  ultimately have "members (set_ranges (intersect_values small_env (noMembers\<lparr>set_ranges := [(0x41, 0x42)]\<rparr>) (noMembers\<lparr>set_ranges := [(0x61, 0x62)]\<rparr>))) =
      ucd_simpleCaseFold sample_ucd ` {0x41..0x42} \<inter> ucd_simpleCaseFold sample_ucd ` {0x61..0x62}"
    using class_operators_denote [of small_env] by (simp add: folded_set_def small_env_def pattern_env_def)
  moreover have "0x61 \<in> ucd_simpleCaseFold sample_ucd ` {0x41..0x42}" "0x61 \<in> ucd_simpleCaseFold sample_ucd ` {0x61..0x62}"
    by (rule image_eqI [where x = "0x41"], simp_all add: fold) (rule image_eqI [where x = "0x61"], simp_all add: fold)
  ultimately show ?thesis by simp
qed

theorem parser_loops_end_witness:
  "loop_ends (\<lambda>st. eat small_env (ch CHR ''|'') st \<noteq> None)
     (\<lambda>alts st. case parseAlternative 1 small_env (parseDisjunction 1 small_env) (skip_by 1 st) of
        Inl why \<Rightarrow> Inl why | Inr (alt, st1) \<Rightarrow> Inr (alts @ [alt], st1)) [] \<lparr>at = 0, captureCounter = 0\<rparr>"
proof -
  have "units_ok []" by (simp add: units_ok_def)
  then show ?thesis
    unfolding small_env_def by (intro parser_loops_end [THEN conjunct2] pattern_env_ok sample_ucd_ok) simp_all
qed

end
