(* ===== verification/Source_Text.thy ===== *)
theory Source_Text
  imports Prelude
begin

text \<open>
  Source text: the buffers and line tables of \<open>src/src/support/source.h\<close> and \<open>source.cpp\<close>, the diagnostics of
  \<open>diagnostics.h\<close> and \<open>diagnostics.cpp\<close>, the UTF-8 decoder and the character classes of
  \<open>src/src/lex/lexer_utf8.h\<close>, and the encoder of \<open>src/src/parse/parser_literal.cpp\<close>. A text is a list of bytes,
  the characters of HOL; \<open>of_char\<close> is \<open>static_cast<unsigned char>\<close>. Offsets are natural numbers: they are
  positions of a text that the program holds in memory, which the source keeps below 4 GB.
\<close>

section \<open>Buffers\<close>

record SourceBuffer =
  buffer_name :: string
  buffer_text :: string
  fileId :: nat

record LineCol =
  line :: nat
  column :: nat

record Span =
  span_begin :: nat
  span_end :: nat
  span_file :: nat

text \<open>\<open>SourceBuffer::lineCol\<close>: the scan from byte 0.\<close>

definition lineCol_step :: "char \<Rightarrow> LineCol \<Rightarrow> LineCol" where
  "lineCol_step c lc =
     (if c = CHR 0x0A then \<lparr>line = line lc + 1, column = 1\<rparr> else lc\<lparr>column := column lc + 1\<rparr>)"

definition buffer_lineCol :: "SourceBuffer \<Rightarrow> nat \<Rightarrow> LineCol" where
  "buffer_lineCol b offset =
     (let limit = (if offset < length (buffer_text b) then offset else length (buffer_text b))
      in fold lineCol_step (take limit (buffer_text b)) \<lparr>line = 1, column = 1\<rparr>)"

record LineTable =
  lineStarts :: "nat list"
  table_size :: nat

definition LineTable_of :: "string \<Rightarrow> LineTable" where
  "LineTable_of txt =
     \<lparr>lineStarts = 0 # map Suc (filter (\<lambda>i. txt ! i = CHR 0x0A) [0..<length txt]), table_size = length txt\<rparr>"

text \<open>\<open>LineTable::lineCol\<close>; \<open>std::upper_bound\<close> of the sorted starts is the length of the prefix that is not
  greater.\<close>

definition table_lineCol :: "LineTable \<Rightarrow> nat \<Rightarrow> LineCol" where
  "table_lineCol t offset =
     (if lineStarts t = [] then \<lparr>line = 1, column = 1\<rparr>
      else
        (let clamped = min offset (table_size t);
             it = length (takeWhile (\<lambda>start. start \<le> clamped) (lineStarts t)) - 1
         in \<lparr>line = it + 1, column = clamped - lineStarts t ! it + 1\<rparr>))"

type_synonym SourceSet = "SourceBuffer list"

definition set_add :: "SourceSet \<Rightarrow> string \<Rightarrow> string \<Rightarrow> SourceSet" where
  "set_add sources name txt = sources @ [\<lparr>buffer_name = name, buffer_text = txt, fileId = length sources mod 2 ^ 16\<rparr>]"

definition set_at :: "SourceSet \<Rightarrow> nat \<Rightarrow> SourceBuffer" where
  "set_at sources i = (if i < length sources then sources ! i else hd sources)"

section \<open>Diagnostics\<close>

datatype Severity = Error | Warning | Note

record Diagnostic =
  severity :: Severity
  diag_span :: Span
  message :: string

type_synonym DiagnosticSink = "Diagnostic list"

definition sink_error :: "Span \<Rightarrow> string \<Rightarrow> DiagnosticSink \<Rightarrow> DiagnosticSink" where
  "sink_error span msg diags = diags @ [\<lparr>severity = Error, diag_span = span, message = msg\<rparr>]"

definition sink_warning :: "Span \<Rightarrow> string \<Rightarrow> DiagnosticSink \<Rightarrow> DiagnosticSink" where
  "sink_warning span msg diags = diags @ [\<lparr>severity = Warning, diag_span = span, message = msg\<rparr>]"

definition hasErrors :: "DiagnosticSink \<Rightarrow> bool" where
  "hasErrors diags \<longleftrightarrow> list_ex (\<lambda>d. severity d = Error) diags"

definition sink_truncate :: "nat \<Rightarrow> DiagnosticSink \<Rightarrow> DiagnosticSink" where
  "sink_truncate n diags = (if n < length diags then take n diags else diags)"

fun severityName :: "Severity \<Rightarrow> string" where
  "severityName Error = ''error''"
| "severityName Warning = ''warning''"
| "severityName Note = ''note''"

text \<open>\<open>std::to_string\<close>.\<close>

fun decimal :: "nat \<Rightarrow> string" where
  "decimal n = (if n < 10 then [char_of (48 + n)] else decimal (n div 10) @ [char_of (48 + n mod 10)])"

definition renderOne :: "string \<Rightarrow> Diagnostic \<Rightarrow> SourceBuffer \<Rightarrow> string" where
  "renderOne out d b =
     (let lc = buffer_lineCol b (span_begin (diag_span d))
      in out @ buffer_name b @ '':'' @ decimal (line lc) @ '':'' @ decimal (column lc) @ '': '' @
         severityName (severity d) @ '': '' @ message d @ [CHR 0x0A])"

definition render :: "DiagnosticSink \<Rightarrow> SourceBuffer \<Rightarrow> string" where
  "render diags b = fold (\<lambda>d out. renderOne out d b) diags []"

definition render_set :: "DiagnosticSink \<Rightarrow> SourceSet \<Rightarrow> string" where
  "render_set diags sources =
     (if sources = [] then [] else fold (\<lambda>d out. renderOne out d (set_at sources (span_file (diag_span d)))) diags [])"

section \<open>UTF-8\<close>

unbundle bit_operations_syntax

abbreviation byte :: "char \<Rightarrow> nat" where
  "byte c \<equiv> of_char c"

text \<open>\<open>decodeUtf8\<close>: the code point and the bytes it takes, \<open>(0, 0)\<close> when there is none.\<close>

definition decodeUtf8 :: "string \<Rightarrow> nat \<Rightarrow> nat \<times> nat" where
  "decodeUtf8 txt pos =
     (if pos \<ge> length txt then (0, 0)
      else
        (let b0 = byte (txt ! pos)
         in if b0 < 0x80 then (b0, 1)
            else if b0 AND 0xE0 = 0xC0 \<and> pos + 1 < length txt then
              (let b1 = byte (txt ! (pos + 1))
               in if b1 AND 0xC0 = 0x80 then
                    (let cp = push_bit 6 (b0 AND 0x1F) OR (b1 AND 0x3F)
                     in if cp \<ge> 0x80 then (cp, 2) else (0, 0))
                  else (0, 0))
            else if b0 AND 0xF0 = 0xE0 \<and> pos + 2 < length txt then
              (let b1 = byte (txt ! (pos + 1)); b2 = byte (txt ! (pos + 2))
               in if b1 AND 0xC0 = 0x80 \<and> b2 AND 0xC0 = 0x80 then
                    (let cp = push_bit 12 (b0 AND 0x0F) OR push_bit 6 (b1 AND 0x3F) OR (b2 AND 0x3F)
                     in if cp \<ge> 0x800 \<and> \<not> (cp \<ge> 0xD800 \<and> cp \<le> 0xDFFF) then (cp, 3) else (0, 0))
                  else (0, 0))
            else if b0 AND 0xF8 = 0xF0 \<and> pos + 3 < length txt then
              (let b1 = byte (txt ! (pos + 1)); b2 = byte (txt ! (pos + 2)); b3 = byte (txt ! (pos + 3))
               in if b1 AND 0xC0 = 0x80 \<and> b2 AND 0xC0 = 0x80 \<and> b3 AND 0xC0 = 0x80 then
                    (let cp = push_bit 18 (b0 AND 0x07) OR push_bit 12 (b1 AND 0x3F) OR push_bit 6 (b2 AND 0x3F) OR (b3 AND 0x3F)
                     in if cp \<ge> 0x10000 \<and> cp \<le> 0x10FFFF then (cp, 4) else (0, 0))
                  else (0, 0))
            else (0, 0)))"

definition appendUtf8 :: "string \<Rightarrow> nat \<Rightarrow> string" where
  "appendUtf8 out cp =
     (if cp \<le> 0x7F then out @ [char_of cp]
      else if cp \<le> 0x7FF then out @ [char_of (0xC0 OR drop_bit 6 cp), char_of (0x80 OR (cp AND 0x3F))]
      else if cp \<le> 0xFFFF then
        out @ [char_of (0xE0 OR drop_bit 12 cp), char_of (0x80 OR (drop_bit 6 cp AND 0x3F)), char_of (0x80 OR (cp AND 0x3F))]
      else
        out @ [char_of (0xF0 OR drop_bit 18 cp), char_of (0x80 OR (drop_bit 12 cp AND 0x3F)),
               char_of (0x80 OR (drop_bit 6 cp AND 0x3F)), char_of (0x80 OR (cp AND 0x3F))])"

section \<open>Characters\<close>

definition isUnicodeWhitespace :: "nat \<Rightarrow> bool" where
  "isUnicodeWhitespace cp \<longleftrightarrow>
     cp = 0x00A0 \<or> cp = 0x1680 \<or> (cp \<ge> 0x2000 \<and> cp \<le> 0x200A) \<or> cp = 0x2028 \<or> cp = 0x2029 \<or> cp = 0x202F \<or> cp = 0x205F \<or>
     cp = 0x3000 \<or> cp = 0xFEFF"

definition isUnicodePunctuation :: "nat \<Rightarrow> bool" where
  "isUnicodePunctuation cp \<longleftrightarrow>
     cp = 0x00AB \<or> cp = 0x00BB \<or> (cp \<ge> 0x2010 \<and> cp \<le> 0x2027) \<or> (cp \<ge> 0x2030 \<and> cp \<le> 0x205E) \<or> (cp \<ge> 0x3001 \<and> cp \<le> 0x3003) \<or>
     (cp \<ge> 0xFF01 \<and> cp \<le> 0xFF0F) \<or> (cp \<ge> 0xFF1A \<and> cp \<le> 0xFF20) \<or> (cp \<ge> 0xFF3B \<and> cp \<le> 0xFF40) \<or> (cp \<ge> 0xFF5B \<and> cp \<le> 0xFF65)"

definition isIdentStart :: "nat \<Rightarrow> bool" where
  "isIdentStart cp \<longleftrightarrow>
     (if cp < 0x80 then
        (cp \<ge> byte CHR ''a'' \<and> cp \<le> byte CHR ''z'') \<or> (cp \<ge> byte CHR ''A'' \<and> cp \<le> byte CHR ''Z'') \<or> cp = byte CHR ''_'' \<or>
        cp = byte CHR ''$''
      else \<not> isUnicodeWhitespace cp \<and> \<not> isUnicodePunctuation cp)"

definition isIdentPart :: "nat \<Rightarrow> bool" where
  "isIdentPart cp \<longleftrightarrow>
     (if cp < 0x80 then isIdentStart cp \<or> (cp \<ge> byte CHR ''0'' \<and> cp \<le> byte CHR ''9'')
      else \<not> isUnicodeWhitespace cp \<and> \<not> isUnicodePunctuation cp)"

section \<open>The line table and the scan\<close>

text \<open>The starts of the lines that begin within the first \<open>n\<close> bytes.\<close>

definition starts_upto :: "string \<Rightarrow> nat \<Rightarrow> nat list" where
  "starts_upto txt n = 0 # map Suc (filter (\<lambda>i. txt ! i = CHR 0x0A) [0..<n])"

lemma starts_upto_Suc:
  "starts_upto txt (Suc n) = (if txt ! n = CHR 0x0A then starts_upto txt n @ [Suc n] else starts_upto txt n)"
  by (simp add: starts_upto_def)

lemma starts_upto_nonempty [simp]: "starts_upto txt n \<noteq> []"
  by (simp add: starts_upto_def)

lemma starts_upto_le: "s \<in> set (starts_upto txt n) \<Longrightarrow> s \<le> n"
  by (auto simp: starts_upto_def)

lemma scan_starts:
  "n \<le> length txt \<Longrightarrow>
   fold lineCol_step (take n txt) \<lparr>line = 1, column = 1\<rparr> =
     \<lparr>line = length (starts_upto txt n), column = n - last (starts_upto txt n) + 1\<rparr>"
proof (induction n)
  case 0
  then show ?case by (simp add: starts_upto_def)
next
  case (Suc n)
  have "last (starts_upto txt n) \<le> n" by (rule starts_upto_le [OF last_in_set]) simp
  then show ?case using Suc by (simp add: take_Suc_conv_app_nth starts_upto_Suc lineCol_step_def Suc_diff_le)
qed

lemma takeWhile_starts:
  assumes "n \<le> m"
  shows "takeWhile (\<lambda>s. s \<le> n) (starts_upto txt m) = starts_upto txt n"
proof -
  have "starts_upto txt m = starts_upto txt n @ map Suc (filter (\<lambda>i. txt ! i = CHR 0x0A) [n..<m])"
    using upt_add_eq_append [of 0 n "m - n"] assms by (simp add: starts_upto_def)
  moreover have "takeWhile (\<lambda>s. s \<le> n) (map Suc (filter (\<lambda>i. txt ! i = CHR 0x0A) [n..<m])) = []"
  proof -
    have "\<forall>s \<in> set (map Suc (filter (\<lambda>i. txt ! i = CHR 0x0A) [n..<m])). \<not> s \<le> n" by auto
    then show ?thesis by (cases "map Suc (filter (\<lambda>i. txt ! i = CHR 0x0A) [n..<m])") simp_all
  qed
  ultimately show ?thesis using starts_upto_le [of _ "txt" n] by (simp add: takeWhile_append2)
qed

section \<open>The encoding\<close>

text \<open>A Unicode scalar value, and the bytes that encode it.\<close>

definition scalar :: "nat \<Rightarrow> bool" where
  "scalar cp \<longleftrightarrow> cp \<le> 0x10FFFF \<and> \<not> (0xD800 \<le> cp \<and> cp \<le> 0xDFFF)"

definition utf8 :: "nat \<Rightarrow> nat list" where
  "utf8 cp =
     (if cp < 0x80 then [cp]
      else if cp < 0x800 then [192 + cp div 64, 128 + cp mod 64]
      else if cp < 0x10000 then [224 + cp div 4096, 128 + cp div 64 mod 64, 128 + cp mod 64]
      else [240 + cp div 262144, 128 + cp div 4096 mod 64, 128 + cp div 64 mod 64, 128 + cp mod 64])"

lemma and_window: "b AND push_bit n (mask m) = push_bit n (take_bit m (drop_bit n b))" for b :: nat
  by (rule bit_eqI) (auto simp: bit_simps)

lemma or_disjoint: "y < 2 ^ n \<Longrightarrow> push_bit n x OR y = 2 ^ n * x + y" for x y :: nat
proof -
  assume y: "y < 2 ^ n"
  have "push_bit n x AND y = 0"
  proof (rule bit_eqI)
    fix k
    have "bit y k \<longleftrightarrow> k < n \<and> bit y k" using y by (metis bit_take_bit_iff take_bit_nat_eq_self)
    then show "bit (push_bit n x AND y) k \<longleftrightarrow> bit (0 :: nat) k" by (auto simp: bit_simps)
  qed
  then have "push_bit n x OR y = push_bit n x + y" by (simp add: disjunctive_add_eq_or)
  then show ?thesis by (simp add: push_bit_eq_mult ac_simps)
qed

text \<open>The tests and the fields of the decoder as arithmetic on bytes.\<close>

lemma lead_tests:
  fixes b :: nat
  assumes "b < 256"
  shows "b AND 0xE0 = 0xC0 \<longleftrightarrow> 192 \<le> b \<and> b < 224" "b AND 0xF0 = 0xE0 \<longleftrightarrow> 224 \<le> b \<and> b < 240"
    "b AND 0xF8 = 0xF0 \<longleftrightarrow> 240 \<le> b \<and> b < 248" "b AND 0xC0 = 0x80 \<longleftrightarrow> 128 \<le> b \<and> b < 192"
proof -
  have w: "b AND (2 ^ m - 1) * 2 ^ n = b div 2 ^ n mod 2 ^ m * 2 ^ n" for m n
    using and_window [of b n m] by (simp add: push_bit_eq_mult take_bit_eq_mod drop_bit_eq_div mask_eq_exp_minus_1)
  have q: "b div 2 ^ n mod 2 ^ m * 2 ^ n = k * 2 ^ n \<longleftrightarrow> k * 2 ^ n \<le> b \<and> b < (k + 1) * 2 ^ n" if "n + m = 8" for k m n :: nat
  proof -
    have "b div 2 ^ n < 2 ^ m" using assms that by (intro less_mult_imp_div_less) (simp add: power_add [symmetric] add.commute)
    moreover have "b div 2 ^ n = k \<longleftrightarrow> k * 2 ^ n \<le> b \<and> b < (k + 1) * 2 ^ n"
      using div_nat_eqI [of "2 ^ n" k b] div_times_less_eq_dividend [of b "2 ^ n"] dividend_less_div_times [of "2 ^ n" b]
      by (auto simp: algebra_simps)
    ultimately show ?thesis by simp
  qed
  show "b AND 0xE0 = 0xC0 \<longleftrightarrow> 192 \<le> b \<and> b < 224" using w [of 3 5] q [of 5 3 6] by simp
  show "b AND 0xF0 = 0xE0 \<longleftrightarrow> 224 \<le> b \<and> b < 240" using w [of 4 4] q [of 4 4 14] by simp
  show "b AND 0xF8 = 0xF0 \<longleftrightarrow> 240 \<le> b \<and> b < 248" using w [of 5 3] q [of 3 5 30] by simp
  show "b AND 0xC0 = 0x80 \<longleftrightarrow> 128 \<le> b \<and> b < 192" using w [of 2 6] q [of 6 2 2] by simp
qed

lemma fields:
  fixes b :: nat
  shows "b AND 0x1F = b mod 32" "b AND 0x0F = b mod 16" "b AND 0x07 = b mod 8" "b AND 0x3F = b mod 64"
proof -
  have w: "b AND (2 ^ m - 1) = b mod 2 ^ m" for m
    using take_bit_eq_mask [of m b] by (simp add: take_bit_eq_mod mask_eq_exp_minus_1)
  show "b AND 0x1F = b mod 32" "b AND 0x0F = b mod 16" "b AND 0x07 = b mod 8" "b AND 0x3F = b mod 64"
    using w [of 5] w [of 4] w [of 3] w [of 6] by simp_all
qed

lemma byte_less [simp]: "byte c < 256"
  using of_char_mod_256 [where 'a = nat, of c] by (metis mod_less_divisor zero_less_numeral)

lemma code_points:
  fixes b0 b1 b2 b3 :: nat
  shows "push_bit 6 (b0 mod 32) OR (b1 mod 64) = 64 * (b0 mod 32) + b1 mod 64"
    "push_bit 12 (b0 mod 16) OR push_bit 6 (b1 mod 64) OR (b2 mod 64) = 4096 * (b0 mod 16) + 64 * (b1 mod 64) + b2 mod 64"
    "push_bit 18 (b0 mod 8) OR push_bit 12 (b1 mod 64) OR push_bit 6 (b2 mod 64) OR (b3 mod 64) =
       262144 * (b0 mod 8) + 4096 * (b1 mod 64) + 64 * (b2 mod 64) + b3 mod 64"
proof -
  have two: "push_bit 6 x OR (y mod 64) = 64 * x + y mod 64" for x y :: nat using or_disjoint [of "y mod 64" 6 x] by simp
  have three: "push_bit 12 x OR push_bit 6 (y mod 64) OR (z mod 64) = 4096 * x + 64 * (y mod 64) + z mod 64" for x y z :: nat
  proof -
    have "64 * (y mod 64) + z mod 64 < 2 ^ 12" using mod_less_divisor [of 64 y] mod_less_divisor [of 64 z] by simp
    then show ?thesis using or_disjoint [of "64 * (y mod 64) + z mod 64" 12 x] by (simp add: two)
  qed
  show "push_bit 6 (b0 mod 32) OR (b1 mod 64) = 64 * (b0 mod 32) + b1 mod 64" by (rule two)
  show "push_bit 12 (b0 mod 16) OR push_bit 6 (b1 mod 64) OR (b2 mod 64) = 4096 * (b0 mod 16) + 64 * (b1 mod 64) + b2 mod 64"
    by (rule three)
  have "4096 * (b1 mod 64) + 64 * (b2 mod 64) + b3 mod 64 < 2 ^ 18"
    using mod_less_divisor [of 64 b1] mod_less_divisor [of 64 b2] mod_less_divisor [of 64 b3] by simp
  then show "push_bit 18 (b0 mod 8) OR push_bit 12 (b1 mod 64) OR push_bit 6 (b2 mod 64) OR (b3 mod 64) =
       262144 * (b0 mod 8) + 4096 * (b1 mod 64) + 64 * (b2 mod 64) + b3 mod 64"
    using or_disjoint [of "4096 * (b1 mod 64) + 64 * (b2 mod 64) + b3 mod 64" 18 "b0 mod 8"] by (simp add: three)
qed

text \<open>The bytes from a position on.\<close>

lemma window:
  assumes "pos + n \<le> length txt"
  shows "map byte (take n (drop pos txt)) = map (\<lambda>i. byte (txt ! (pos + i))) [0..<n]"
  using assms by (intro nth_equalityI) auto

text \<open>The encodings of two, three and four bytes, by their payloads.\<close>

lemma utf8_two: "x < 32 \<Longrightarrow> y < 64 \<Longrightarrow> 128 \<le> 64 * x + y \<Longrightarrow> scalar (64 * x + y) \<and> utf8 (64 * x + y) = [192 + x, 128 + y]"
  by (simp add: scalar_def utf8_def)

lemma split_64: "z < 64 \<Longrightarrow> (64 * q + z) div 64 = q" "z < 64 \<Longrightarrow> (64 * q + z) mod 64 = z" for q z :: nat
  by simp_all

lemma utf8_three:
  assumes "x < 16" "y < 64" "z < 64" and "2048 \<le> 4096 * x + 64 * y + z"
  shows "utf8 (4096 * x + 64 * y + z) = [224 + x, 128 + y, 128 + z]"
proof -
  have eq: "4096 * x + 64 * y + z = 64 * (64 * x + y) + z" by simp
  have "(4096 * x + 64 * y + z) div 64 = 64 * x + y" "(4096 * x + 64 * y + z) mod 64 = z"
    unfolding eq by (rule split_64 [OF assms(3)])+
  moreover have "(4096 * x + 64 * y + z) div 4096 = x" using assms by (intro div_nat_eqI) simp_all
  ultimately show ?thesis using assms by (simp add: utf8_def)
qed

lemma utf8_four:
  assumes "x < 8" "y < 64" "z < 64" "w < 64" and "65536 \<le> 262144 * x + 4096 * y + 64 * z + w"
  shows "utf8 (262144 * x + 4096 * y + 64 * z + w) = [240 + x, 128 + y, 128 + z, 128 + w]"
proof -
  have eq: "262144 * x + 4096 * y + 64 * z + w = 64 * (4096 * x + 64 * y + z) + w" "4096 * x + 64 * y + z = 64 * (64 * x + y) + z" by simp_all
  have "(262144 * x + 4096 * y + 64 * z + w) div 64 = 4096 * x + 64 * y + z" "(262144 * x + 4096 * y + 64 * z + w) mod 64 = w"
    unfolding eq(1) by (rule split_64 [OF assms(4)])+
  moreover have "(4096 * x + 64 * y + z) mod 64 = z" unfolding eq(2) by (rule split_64 [OF assms(3)])
  moreover have "(262144 * x + 4096 * y + 64 * z + w) div 4096 = 64 * x + y" "(262144 * x + 4096 * y + 64 * z + w) div 262144 = x"
    using assms by (intro div_nat_eqI; simp)+
  moreover have "(64 * x + y) mod 64 = y" using assms by simp
  ultimately show ?thesis using assms by (simp add: utf8_def)
qed

lemma payload: "k \<le> b \<Longrightarrow> b < k + m \<Longrightarrow> \<exists>x. b = k + x \<and> x < m" for k b m :: nat
  by (rule exI [of _ "b - k"]) auto

lemma payload_mod:
  fixes x :: nat
  shows "x < 32 \<Longrightarrow> (192 + x) mod 32 = x" "x < 16 \<Longrightarrow> (224 + x) mod 16 = x" "x < 8 \<Longrightarrow> (240 + x) mod 8 = x"
    "x < 64 \<Longrightarrow> (128 + x) mod 64 = x"
  using mod_mult_self3 [of 6 32 x] mod_mult_self3 [of 14 16 x] mod_mult_self3 [of 30 8 x] mod_mult_self3 [of 2 64 x] by simp_all

lemmas decode_rules = decodeUtf8_def Let_def lead_tests [OF byte_less] fields code_points

lemma decoded_encoding:
  assumes "decodeUtf8 txt pos = (cp, n)" and "0 < n"
  shows "scalar cp" "n = length (utf8 cp)" "pos + n \<le> length txt" "map byte (take n (drop pos txt)) = utf8 cp"
proof -
  have lt: "pos < length txt" using assms by (auto simp: decodeUtf8_def split: if_splits)
  define b where "b i = byte (txt ! (pos + i))" for i
  have bytes: "map byte (take k (drop pos txt)) = map b [0..<k]" if "pos + k \<le> length txt" for k
    using window [OF that] by (simp add: b_def)
  have b: "byte (txt ! pos) = b 0" "byte (txt ! (pos + 1)) = b 1" "byte (txt ! (pos + 2)) = b 2" "byte (txt ! (pos + 3)) = b 3"
    by (simp_all add: b_def)
  note d = assms(1) [unfolded decode_rules, unfolded b]
  consider "b 0 < 128"
    | "192 \<le> b 0" "b 0 < 224" "pos + 1 < length txt" "128 \<le> b 1 \<and> b 1 < 192"
    | "224 \<le> b 0" "b 0 < 240" "pos + 2 < length txt" "128 \<le> b 1 \<and> b 1 < 192" "128 \<le> b 2 \<and> b 2 < 192"
    | "240 \<le> b 0" "b 0 < 248" "pos + 3 < length txt" "128 \<le> b 1 \<and> b 1 < 192" "128 \<le> b 2 \<and> b 2 < 192" "128 \<le> b 3 \<and> b 3 < 192"
    using d assms(2) by (simp split: if_splits)
  then have all: "scalar cp \<and> n = length (utf8 cp) \<and> pos + n \<le> length txt \<and> map b [0..<n] = utf8 cp"
  proof cases
    case 1
    then show ?thesis using d lt by (auto simp: scalar_def utf8_def)
  next
    case 2
    obtain x y where xy: "b 0 = 192 + x" "x < 32" "b 1 = 128 + y" "y < 64"
      using 2 payload [of 192 "b 0" 32] payload [of 128 "b 1" 64] by auto
    have "[0..<2] = [0, 1 :: nat]" by (simp add: upt_rec)
    moreover have "n = 2" "cp = 64 * x + y" "128 \<le> cp" using d 2 assms(2) lt xy by (auto simp: payload_mod split: if_splits)
    ultimately show ?thesis using 2(3) utf8_two [of x y] xy by simp
  next
    case 3
    obtain x y z where xyz: "b 0 = 224 + x" "x < 16" "b 1 = 128 + y" "y < 64" "b 2 = 128 + z" "z < 64"
      using 3 payload [of 224 "b 0" 16] payload [of 128 "b 1" 64] payload [of 128 "b 2" 64] by auto
    have "[0..<3] = [0, 1, 2 :: nat]" by (simp add: upt_rec)
    moreover have "n = 3" "cp = 4096 * x + 64 * y + z" "2048 \<le> cp" "\<not> (0xD800 \<le> cp \<and> cp \<le> 0xDFFF)"
      using d 3 assms(2) lt xyz by (auto simp: payload_mod split: if_splits)
    ultimately show ?thesis using 3(3) utf8_three [of x y z] xyz by (simp add: scalar_def)
  next
    case 4
    obtain x y z w where xyz: "b 0 = 240 + x" "x < 8" "b 1 = 128 + y" "y < 64" "b 2 = 128 + z" "z < 64" "b 3 = 128 + w" "w < 64"
      using 4 payload [of 240 "b 0" 8] payload [of 128 "b 1" 64] payload [of 128 "b 2" 64] payload [of 128 "b 3" 64] by auto
    have "[0..<4] = [0, 1, 2, 3 :: nat]" by (simp add: upt_rec)
    moreover have "n = 4" "cp = 262144 * x + 4096 * y + 64 * z + w" "0x10000 \<le> cp" "cp \<le> 0x10FFFF"
      using d 4 assms(2) lt xyz by (auto simp: payload_mod split: if_splits)
    ultimately show ?thesis using 4(3) utf8_four [of x y z w] xyz by (simp add: scalar_def)
  qed
  then show "scalar cp" "n = length (utf8 cp)" "pos + n \<le> length txt" by blast+
  show "map byte (take n (drop pos txt)) = utf8 cp" using all bytes by metis
qed

lemma encoding_decoded:
  assumes "scalar cp" and "pos + length (utf8 cp) \<le> length txt" and "map byte (take (length (utf8 cp)) (drop pos txt)) = utf8 cp"
  shows "decodeUtf8 txt pos = (cp, length (utf8 cp))"
proof -
  define b where "b i = byte (txt ! (pos + i))" for i
  have bytes: "map b [0..<length (utf8 cp)] = utf8 cp" using assms(3) unfolding window [OF assms(2)] b_def .
  have b: "byte (txt ! pos) = b 0" "byte (txt ! (pos + 1)) = b 1" "byte (txt ! (pos + 2)) = b 2" "byte (txt ! (pos + 3)) = b 3"
    by (simp_all add: b_def)
  have le: "cp \<le> 0x10FFFF" "\<not> (0xD800 \<le> cp \<and> cp \<le> 0xDFFF)" using assms(1) by (simp_all add: scalar_def)
  have digits: "cp = 64 * (cp div 64) + cp mod 64" "cp div 64 = 64 * (cp div 4096) + cp div 64 mod 64"
      "cp div 4096 = 64 * (cp div 262144) + cp div 4096 mod 64"
    using mult_div_mod_eq [of 64 "cp div 64", symmetric] mult_div_mod_eq [of 64 "cp div 4096", symmetric]
    by (simp_all only: mult_div_mod_eq div_mult2_eq [symmetric] mult_numeral_left_semiring_numeral num.simps) (simp_all add: div_mult2_eq [symmetric])
  consider "cp < 128" | "128 \<le> cp" "cp < 2048" | "2048 \<le> cp" "cp < 65536" | "65536 \<le> cp" by linarith
  then show ?thesis
  proof cases
    case 1
    then have u: "utf8 cp = [cp]" by (simp add: utf8_def)
    then show ?thesis using 1 bytes assms(2) unfolding decode_rules unfolding b by simp
  next
    case 2
    then have u: "utf8 cp = [192 + cp div 64, 128 + cp mod 64]" by (simp add: utf8_def)
    have d: "cp div 64 < 32" "128 + cp mod 64 < 192" "64 * (cp div 64) + cp mod 64 = cp" using 2 by (simp_all add: less_mult_imp_div_less)
    have "b 0 = 192 + cp div 64" "b 1 = 128 + cp mod 64" "pos + 1 < length txt" using bytes assms(2) by (simp_all add: u upt_rec numeral_2_eq_2 numeral_3_eq_3)
    then show ?thesis using 2 d unfolding decode_rules unfolding b by (simp add: u payload_mod)
  next
    case 3
    then have u: "utf8 cp = [224 + cp div 4096, 128 + cp div 64 mod 64, 128 + cp mod 64]" by (simp add: utf8_def)
    obtain x y z where xyz: "x = cp div 4096" "y = cp div 64 mod 64" "z = cp mod 64" by blast
    have cp: "4096 * x + 64 * y + z = cp" unfolding xyz using digits by linarith
    have less: "x < 16" "y < 64" "z < 64" using 3 by (simp_all add: xyz less_mult_imp_div_less)
    have "b 0 = 224 + x" "b 1 = 128 + y" "b 2 = 128 + z" "pos + 2 < length txt" "length (utf8 cp) = 3"
      using bytes assms(2) unfolding u xyz [symmetric] by (simp_all add: upt_rec numeral_2_eq_2 numeral_3_eq_3)
    then show ?thesis using 3 le less cp unfolding decode_rules unfolding b by (simp add: payload_mod)
  next
    case 4
    then have u: "utf8 cp = [240 + cp div 262144, 128 + cp div 4096 mod 64, 128 + cp div 64 mod 64, 128 + cp mod 64]" by (simp add: utf8_def)
    obtain x y z w where xyz: "x = cp div 262144" "y = cp div 4096 mod 64" "z = cp div 64 mod 64" "w = cp mod 64" by blast
    have cp: "262144 * x + 4096 * y + 64 * z + w = cp" unfolding xyz using digits by linarith
    have less: "x < 8" "y < 64" "z < 64" "w < 64" using le by (simp_all add: xyz less_mult_imp_div_less)
    have "b 0 = 240 + x" "b 1 = 128 + y" "b 2 = 128 + z" "b 3 = 128 + w" "pos + 3 < length txt" "length (utf8 cp) = 4"
      using bytes assms(2) unfolding u xyz [symmetric] by (simp_all add: upt_rec numeral_2_eq_2 numeral_3_eq_3)
    then show ?thesis using 4 le less cp unfolding decode_rules unfolding b by (simp add: payload_mod)
  qed
qed

lemma appendUtf8_bytes:
  assumes "cp \<le> 0x10FFFF"
  shows "map byte (appendUtf8 out cp) = map byte out @ utf8 cp"
proof -
  have or: "(0xC0 :: nat) OR x = 192 + x" if "x < 32" for x using or_disjoint [of x 5 6] that by simp
  have or3: "(0xE0 :: nat) OR x = 224 + x" if "x < 16" for x using or_disjoint [of x 4 14] that by simp
  have or4: "(0xF0 :: nat) OR x = 240 + x" if "x < 8" for x using or_disjoint [of x 3 30] that by simp
  have cont: "(0x80 :: nat) OR x mod 64 = 128 + x mod 64" for x using or_disjoint [of "x mod 64" 6 2] by simp
  have small: "(128 + x mod 64) mod 256 = 128 + x mod 64" for x :: nat
    using mod_less_divisor [of 64 x] by (intro mod_less) simp
  have lead: "cp div 64 < 32" if "cp \<le> 0x7FF" using that by (simp add: less_mult_imp_div_less)
  have lead3: "cp div 4096 < 16" if "cp \<le> 0xFFFF" using that by (simp add: less_mult_imp_div_less)
  have lead4: "cp div 262144 < 8" using assms by (simp add: less_mult_imp_div_less)
  consider "cp \<le> 0x7F" | "\<not> cp \<le> 0x7F" "cp \<le> 0x7FF" | "\<not> cp \<le> 0x7FF" "cp \<le> 0xFFFF" | "\<not> cp \<le> 0xFFFF" by linarith
  then show ?thesis
  proof cases
    case 1
    then show ?thesis by (simp add: appendUtf8_def utf8_def)
  next
    case 2
    then show ?thesis using lead by (simp only: appendUtf8_def utf8_def fields drop_bit_eq_div) (simp add: or cont small)
  next
    case 3
    then show ?thesis using lead3 by (simp add: appendUtf8_def utf8_def fields drop_bit_eq_div or3 cont small)
  next
    case 4
    then show ?thesis using lead4 by (simp add: appendUtf8_def utf8_def fields drop_bit_eq_div or4 cont small)
  qed
qed

section \<open>Properties\<close>


text \<open>C37: The decoder of the lexer accepts exactly UTF-8: it answers a code point and its length at a position if
  and only if the code point is a Unicode scalar value and the bytes there are its encoding, so neither
  overlong forms nor surrogates nor values above \<open>U+10FFFF\<close> nor truncated sequences decode; and what
  \<open>appendUtf8\<close> writes for a scalar value is read back.\<close>

theorem utf8_exact:
  "(decodeUtf8 txt pos = (cp, Suc n) \<longleftrightarrow>
      scalar cp \<and> Suc n = length (utf8 cp) \<and> pos + Suc n \<le> length txt \<and> map byte (take (Suc n) (drop pos txt)) = utf8 cp) \<and>
   (scalar cp \<longrightarrow> decodeUtf8 (appendUtf8 out cp @ rest) (length out) = (cp, length (utf8 cp)))"
proof (intro conjI impI iffI)
  show "scalar cp" "Suc n = length (utf8 cp)" "pos + Suc n \<le> length txt" "map byte (take (Suc n) (drop pos txt)) = utf8 cp"
    if "decodeUtf8 txt pos = (cp, Suc n)"
    by (rule decoded_encoding [OF that]; simp)+
  show "decodeUtf8 txt pos = (cp, Suc n)"
    if "scalar cp \<and> Suc n = length (utf8 cp) \<and> pos + Suc n \<le> length txt \<and> map byte (take (Suc n) (drop pos txt)) = utf8 cp"
    using encoding_decoded [of cp pos "txt"] that by metis
  assume cp: "scalar cp"
  then have a: "map byte (appendUtf8 out cp) = map byte out @ utf8 cp" by (simp add: scalar_def appendUtf8_bytes)
  have "length (appendUtf8 out cp) = length out + length (utf8 cp)" using arg_cong [OF a, of length] by simp
  moreover have "map byte (drop (length out) (appendUtf8 out cp)) = utf8 cp"
    using arg_cong [OF a, of "drop (length out)"] by (simp add: drop_map)
  ultimately show "decodeUtf8 (appendUtf8 out cp @ rest) (length out) = (cp, length (utf8 cp))"
    using cp by (intro encoding_decoded) simp_all
qed

theorem utf8_exact_witness:
  "decodeUtf8 (appendUtf8 [] 0x20AC) 0 = (0x20AC, 3)"
  using utf8_exact [where cp = "0x20AC" and out = "[]" and rest = "[]"] by (simp add: scalar_def utf8_def)

end
