(* ===== verification/Tokens.thy ===== *)
theory Tokens
  imports Source_Text
begin

text \<open>
  The tokens of \<open>src/src/lex/token.h\<close> and their names in \<open>lexer.cpp\<close>. The enumeration \<open>TokenKind\<close> is split where
  its comments split it, into keywords, punctuation and the rest; \<open>kKeywords\<close> is the table of
  \<open>lexIdentifierOrKeyword\<close>.
\<close>

section \<open>Tokens\<close>

datatype (plugins only: code) Keyword =
    KwBreak | KwCase | KwCatch | KwConst | KwContinue | KwDebugger | KwDefault | KwDo | KwElse | KwExport | KwFalse
    | KwFinally | KwFor | KwFunction | KwIf | KwImport | KwIn | KwInstanceof | KwLet | KwNew | KwNull | KwOf
    | KwReturn | KwSwitch | KwThrow | KwTrue | KwTry | KwTypeof | KwVoid | KwDelete | KwClass | KwExtends | KwSuper
    | KwThis | KwUndefined | KwVar | KwWhile

datatype (plugins only: code) Punctuator =
    LParen | RParen | LBrace | RBrace | LBracket | RBracket | Comma | Semicolon | Ellipsis | Colon | Dot | Arrow
    | Assign | Plus | Minus | Star | Slash | Percent | Less | Greater | LessEqual | GreaterEqual | EqualEqual
    | EqualEqualEqual | BangEqual | BangEqualEqual | AmpAmp | PipePipe | Question | QuestionQuestion | QuestionDot
    | Bang | PlusPlus | MinusMinus | PlusAssign | MinusAssign | StarAssign | SlashAssign | PercentAssign | Amp | Pipe
    | Caret | Tilde | LessLess | GreaterGreater | GreaterGreaterGreater | AmpAssign | PipeAssign | CaretAssign
    | LessLessAssign | GreaterGreaterAssign | GreaterGreaterGreaterAssign | StarStar | StarStarAssign | PipePipeAssign
    | AmpAmpAssign | QuestionQuestionAssign

datatype (plugins only: code) TokenKind =
    EndOfFile | Identifier | NumberLiteral | StringLiteral | TemplateWhole | TemplateHead | TemplateMiddle
    | TemplateTail | RegExpLiteral | PrivateName | Keyword Keyword | Punctuator Punctuator

record Token =
  tok_kind :: TokenKind
  tok_span :: Span
  tok_text :: string
  newlineBefore :: bool

primrec keywordName :: "Keyword \<Rightarrow> string" where
  "keywordName KwBreak = ''break''"
| "keywordName KwCase = ''case''"
| "keywordName KwCatch = ''catch''"
| "keywordName KwConst = ''const''"
| "keywordName KwContinue = ''continue''"
| "keywordName KwDebugger = ''debugger''"
| "keywordName KwDefault = ''default''"
| "keywordName KwDo = ''do''"
| "keywordName KwElse = ''else''"
| "keywordName KwExport = ''export''"
| "keywordName KwFalse = ''false''"
| "keywordName KwFinally = ''finally''"
| "keywordName KwFor = ''for''"
| "keywordName KwFunction = ''function''"
| "keywordName KwIf = ''if''"
| "keywordName KwImport = ''import''"
| "keywordName KwIn = ''in''"
| "keywordName KwInstanceof = ''instanceof''"
| "keywordName KwLet = ''let''"
| "keywordName KwNew = ''new''"
| "keywordName KwNull = ''null''"
| "keywordName KwOf = ''of''"
| "keywordName KwReturn = ''return''"
| "keywordName KwSwitch = ''switch''"
| "keywordName KwThrow = ''throw''"
| "keywordName KwTrue = ''true''"
| "keywordName KwTry = ''try''"
| "keywordName KwTypeof = ''typeof''"
| "keywordName KwVoid = ''void''"
| "keywordName KwDelete = ''delete''"
| "keywordName KwClass = ''class''"
| "keywordName KwExtends = ''extends''"
| "keywordName KwSuper = ''super''"
| "keywordName KwThis = ''this''"
| "keywordName KwUndefined = ''undefined''"
| "keywordName KwVar = ''var''"
| "keywordName KwWhile = ''while''"

primrec punctuatorName :: "Punctuator \<Rightarrow> string" where
  "punctuatorName LParen = ''(''"
| "punctuatorName RParen = '')''"
| "punctuatorName LBrace = ''{''"
| "punctuatorName RBrace = ''}''"
| "punctuatorName LBracket = ''[''"
| "punctuatorName RBracket = '']''"
| "punctuatorName Comma = '',''"
| "punctuatorName Semicolon = '';''"
| "punctuatorName Ellipsis = ''...''"
| "punctuatorName Colon = '':''"
| "punctuatorName Dot = ''.''"
| "punctuatorName Arrow = ''=>''"
| "punctuatorName Assign = ''=''"
| "punctuatorName Plus = ''+''"
| "punctuatorName Minus = ''-''"
| "punctuatorName Star = ''*''"
| "punctuatorName Slash = ''/''"
| "punctuatorName Percent = ''%''"
| "punctuatorName Less = ''<''"
| "punctuatorName Greater = ''>''"
| "punctuatorName LessEqual = ''<=''"
| "punctuatorName GreaterEqual = ''>=''"
| "punctuatorName EqualEqual = ''==''"
| "punctuatorName EqualEqualEqual = ''===''"
| "punctuatorName BangEqual = ''!=''"
| "punctuatorName BangEqualEqual = ''!==''"
| "punctuatorName AmpAmp = ''&&''"
| "punctuatorName PipePipe = ''||''"
| "punctuatorName Question = ''?''"
| "punctuatorName QuestionQuestion = ''??''"
| "punctuatorName QuestionDot = ''?.''"
| "punctuatorName Bang = ''!''"
| "punctuatorName PlusPlus = ''++''"
| "punctuatorName MinusMinus = ''--''"
| "punctuatorName PlusAssign = ''+=''"
| "punctuatorName MinusAssign = ''-=''"
| "punctuatorName StarAssign = ''*=''"
| "punctuatorName SlashAssign = ''/=''"
| "punctuatorName PercentAssign = ''%=''"
| "punctuatorName Amp = ''&''"
| "punctuatorName Pipe = ''|''"
| "punctuatorName Caret = ''^''"
| "punctuatorName Tilde = ''~''"
| "punctuatorName LessLess = ''<<''"
| "punctuatorName GreaterGreater = ''>>''"
| "punctuatorName GreaterGreaterGreater = ''>>>''"
| "punctuatorName AmpAssign = ''&=''"
| "punctuatorName PipeAssign = ''|=''"
| "punctuatorName CaretAssign = ''^=''"
| "punctuatorName LessLessAssign = ''<<=''"
| "punctuatorName GreaterGreaterAssign = ''>>=''"
| "punctuatorName GreaterGreaterGreaterAssign = ''>>>=''"
| "punctuatorName StarStar = ''**''"
| "punctuatorName StarStarAssign = ''**=''"
| "punctuatorName PipePipeAssign = ''||=''"
| "punctuatorName AmpAmpAssign = ''&&=''"
| "punctuatorName QuestionQuestionAssign = ''??=''"

primrec tokenKindName :: "TokenKind \<Rightarrow> string" where
  "tokenKindName EndOfFile = ''eof''"
| "tokenKindName Identifier = ''ident''"
| "tokenKindName NumberLiteral = ''number''"
| "tokenKindName StringLiteral = ''string''"
| "tokenKindName TemplateWhole = ''template''"
| "tokenKindName TemplateHead = ''template-head''"
| "tokenKindName TemplateMiddle = ''template-middle''"
| "tokenKindName TemplateTail = ''template-tail''"
| "tokenKindName RegExpLiteral = ''regexp''"
| "tokenKindName PrivateName = ''private-name''"
| "tokenKindName (Keyword k) = keywordName k"
| "tokenKindName (Punctuator p) = punctuatorName p"

definition kKeywords :: "(string \<times> Keyword) list" where
  "kKeywords =
     [(''break'', KwBreak), (''case'', KwCase), (''catch'', KwCatch), (''const'', KwConst),
      (''continue'', KwContinue), (''debugger'', KwDebugger), (''default'', KwDefault), (''delete'', KwDelete),
      (''class'', KwClass), (''extends'', KwExtends), (''super'', KwSuper), (''do'', KwDo), (''else'', KwElse),
      (''export'', KwExport), (''false'', KwFalse), (''for'', KwFor), (''function'', KwFunction),
      (''finally'', KwFinally), (''if'', KwIf), (''import'', KwImport), (''in'', KwIn),
      (''instanceof'', KwInstanceof), (''typeof'', KwTypeof), (''void'', KwVoid), (''let'', KwLet), (''new'', KwNew),
      (''null'', KwNull), (''of'', KwOf), (''return'', KwReturn), (''switch'', KwSwitch), (''throw'', KwThrow),
      (''true'', KwTrue), (''try'', KwTry), (''this'', KwThis), (''undefined'', KwUndefined), (''var'', KwVar),
      (''while'', KwWhile)]"

end
