(* ===== verification/Lexer.thy ===== *)
theory Lexer
  imports Tokens
begin

text \<open>
  The lexer: \<open>src/src/lex/lexer.h\<close> and \<open>lexer.cpp\<close>. The scanning loops are functions from positions to
  positions; a position moves forward only, which is what ends them. The members of \<open>Lexer\<close> that change, with
  the diagnostics it reports to, are the record \<open>lexer\<close>. \<open>char\<close> is signed, as on the targets of the compiler.
\<close>

section \<open>Looking at the text\<close>

definition isDigit :: "char \<Rightarrow> bool" where
  "isDigit c \<longleftrightarrow> byte CHR ''0'' \<le> byte c \<and> byte c \<le> byte CHR ''9''"

definition isHexDigit :: "char \<Rightarrow> bool" where
  "isHexDigit c \<longleftrightarrow>
     isDigit c \<or> (byte CHR ''a'' \<le> byte c \<and> byte c \<le> byte CHR ''f'') \<or> (byte CHR ''A'' \<le> byte c \<and> byte c \<le> byte CHR ''F'')"

definition lex_peek :: "string \<Rightarrow> nat \<Rightarrow> nat \<Rightarrow> char" where
  "lex_peek txt pos ahead = (if pos + ahead < length txt then txt ! (pos + ahead) else CHR 0x00)"

definition lex_atEnd :: "string \<Rightarrow> nat \<Rightarrow> bool" where
  "lex_atEnd txt pos \<longleftrightarrow> length txt \<le> pos"

text \<open>\<open>while (P(peek())) ++pos_\<close>, for a condition that is false at the end of the text.\<close>

definition advance_while :: "(char \<Rightarrow> bool) \<Rightarrow> string \<Rightarrow> nat \<Rightarrow> nat" where
  "advance_while P txt pos = pos + length (takeWhile P (drop pos txt))"

text \<open>The conversion of a \<open>char\<close> to \<open>uint32_t\<close>, which extends the sign.\<close>

definition sign_extended :: "char \<Rightarrow> nat" where
  "sign_extended c = (if byte c < 0x80 then byte c else 0xFFFFFF00 + byte c)"

section \<open>The state\<close>

record lexer =
  lex_pos :: nat
  substitutionBraces :: "nat list"
  lex_diags :: DiagnosticSink

definition here :: "SourceBuffer \<Rightarrow> nat \<Rightarrow> nat \<Rightarrow> Span" where
  "here b start stop = \<lparr>span_begin = start, span_end = stop, span_file = fileId b\<rparr>"

definition make_token :: "SourceBuffer \<Rightarrow> TokenKind \<Rightarrow> nat \<Rightarrow> nat \<Rightarrow> Token" where
  "make_token b k start pos =
     \<lparr>tok_kind = k, tok_span = here b start pos, tok_text = take (pos - start) (drop start (buffer_text b)), newlineBefore = False\<rparr>"

definition report :: "SourceBuffer \<Rightarrow> nat \<Rightarrow> nat \<Rightarrow> string \<Rightarrow> lexer \<Rightarrow> lexer" where
  "report b start stop msg st = st\<lparr>lex_diags := sink_error (here b start stop) msg (lex_diags st)\<rparr>"

section \<open>Trivia\<close>

text \<open>The body of a block comment: the position of its end and whether a newline was seen.\<close>

function block_comment :: "string \<Rightarrow> nat \<Rightarrow> bool \<Rightarrow> nat \<times> bool" where
  "block_comment txt pos sawNewline =
     (if \<not> lex_atEnd txt pos \<and> \<not> (lex_peek txt pos 0 = CHR ''*'' \<and> lex_peek txt pos 1 = CHR ''/'')
      then block_comment txt (pos + 1) (sawNewline \<or> lex_peek txt pos 0 = CHR 0x0A)
      else (pos, sawNewline))"
  by pat_completeness auto
termination
  by (relation "measure (\<lambda>(txt, pos, sawNewline). length txt - pos)") (auto simp: lex_atEnd_def)

declare block_comment.simps [simp del]

lemma block_comment_forward: "pos \<le> fst (block_comment txt pos saw)"
proof (induction "txt" pos saw rule: block_comment.induct)
  case (1 t pos saw)
  then show ?case by (subst block_comment.simps) auto
qed

lemma advance_while_forward [simp]: "pos \<le> advance_while P txt pos"
  by (simp add: advance_while_def)

lemma advance_while_once: "pos < length txt \<Longrightarrow> P (txt ! pos) \<Longrightarrow> pos < advance_while P txt pos"
  by (simp add: advance_while_def Cons_nth_drop_Suc [symmetric])

lemma lex_peek_inside: "lex_peek txt pos 0 \<noteq> CHR 0x00 \<Longrightarrow> pos < length txt \<and> lex_peek txt pos 0 = txt ! pos"
  by (auto simp: lex_peek_def split: if_splits)

lemma decode_inside: "(cp, len) = decodeUtf8 txt pos \<Longrightarrow> 0 < len \<Longrightarrow> pos < length txt"
  by (auto simp: decodeUtf8_def split: if_splits)

text \<open>\<open>skipTrivia\<close>: whether a line terminator was seen, where it stopped, and the start of a block comment that does
  not end.\<close>

function trivia_loop :: "string \<Rightarrow> nat \<Rightarrow> bool \<Rightarrow> bool \<times> nat \<times> nat option" where
  "trivia_loop txt pos sawNewline =
     (let c = lex_peek txt pos 0
      in if c = CHR '' '' \<or> c = CHR 0x09 \<or> c = CHR 0x0D \<or> c = CHR 0x0A then
           trivia_loop txt (pos + 1) (sawNewline \<or> c = CHR 0x0A \<or> c = CHR 0x0D)
         else if byte c = 0xEF \<and> byte (lex_peek txt pos 1) = 0xBB \<and> byte (lex_peek txt pos 2) = 0xBF then
           trivia_loop txt (pos + 3) sawNewline
         else if byte c \<ge> 0x80 then
           (case decodeUtf8 txt pos of (cp, len) \<Rightarrow>
              if len > 0 \<and> (cp = 0x2028 \<or> cp = 0x2029) then trivia_loop txt (pos + len) True
              else if len > 0 \<and> isUnicodeWhitespace cp then trivia_loop txt (pos + len) sawNewline
              else (sawNewline, pos, None))
         else if c = CHR ''/'' \<and> lex_peek txt pos 1 = CHR ''/'' then
           trivia_loop txt (advance_while (\<lambda>c. c \<noteq> CHR 0x0A) txt pos) sawNewline
         else if c = CHR ''/'' \<and> lex_peek txt pos 1 = CHR ''*'' then
           (case block_comment txt (pos + 2) sawNewline of (pos1, saw1) \<Rightarrow>
              if lex_atEnd txt pos1 then (saw1, pos1, Some pos) else trivia_loop txt (pos1 + 2) saw1)
         else (sawNewline, pos, None))"
  by pat_completeness auto
termination
proof (relation "measure (\<lambda>(txt, pos, sawNewline). length txt - pos)", goal_cases)
  case (2 t pos saw c)
  then have "lex_peek t pos 0 \<noteq> CHR 0x00" by auto
  then show ?case using lex_peek_inside [of t pos] by (simp add: diff_less_mono2)
next
  case (3 t pos saw c)
  then have "lex_peek t pos 0 \<noteq> CHR 0x00" by auto
  then show ?case using lex_peek_inside [of t pos] by (simp add: diff_less_mono2)
next
  case (6 t pos saw c)
  then have slash: "lex_peek t pos 0 = CHR ''/''" by simp
  then have "lex_peek t pos 0 \<noteq> CHR 0x00" by simp
  then have "pos < length t" "t ! pos \<noteq> CHR 0x0A" using lex_peek_inside [of t pos] slash by auto
  then show ?case using advance_while_once [of pos t "\<lambda>c. c \<noteq> CHR 0x0A"] by simp
next
  case (7 t pos saw c pos1 saw1)
  then have eq: "(pos1, saw1) = block_comment t (pos + 2) saw" and lt: "\<not> lex_atEnd t pos1" by blast+
  have "pos + 2 \<le> pos1" using block_comment_forward [of "pos + 2" t saw] unfolding eq [symmetric] by simp
  then show ?case using lt by (simp add: lex_atEnd_def)
qed (auto dest!: lex_peek_inside decode_inside)

declare trivia_loop.simps [simp del]

definition skipTrivia :: "SourceBuffer \<Rightarrow> lexer \<Rightarrow> bool \<times> lexer" where
  "skipTrivia b st =
     (case trivia_loop (buffer_text b) (lex_pos st) False of
        (sawNewline, pos, None) \<Rightarrow> (sawNewline, st\<lparr>lex_pos := pos\<rparr>)
      | (sawNewline, pos, Some start) \<Rightarrow> (sawNewline, report b start pos ''unterminated block comment'' (st\<lparr>lex_pos := pos\<rparr>)))"

section \<open>Identifiers and numbers\<close>

text \<open>The end of a run of identifier characters.\<close>

function identifier_end :: "string \<Rightarrow> nat \<Rightarrow> nat" where
  "identifier_end txt pos =
     (let c = lex_peek txt pos 0
      in if c \<noteq> CHR 0x00 \<and> byte c < 0x80 then (if isIdentPart (byte c) then identifier_end txt (pos + 1) else pos)
         else
           (case decodeUtf8 txt pos of (cp, len) \<Rightarrow>
              if len > 0 \<and> isIdentPart cp then identifier_end txt (pos + len) else pos))"
  by pat_completeness auto
termination
  by (relation "measure (\<lambda>(txt, pos). length txt - pos)") (auto dest!: lex_peek_inside decode_inside)

declare identifier_end.simps [simp del]

definition lexIdentifierOrKeyword :: "SourceBuffer \<Rightarrow> lexer \<Rightarrow> Token \<times> lexer" where
  "lexIdentifierOrKeyword b st =
     (let start = lex_pos st;
          pos = identifier_end (buffer_text b) start;
          name = take (pos - start) (drop start (buffer_text b));
          k = (case map_of kKeywords name of Some kw \<Rightarrow> Keyword kw | None \<Rightarrow> Identifier)
      in (make_token b k start pos, st\<lparr>lex_pos := pos\<rparr>))"

text \<open>\<open>#\<close> and a name, which \<open>lex\<close> reads itself.\<close>

definition lexPrivateName :: "SourceBuffer \<Rightarrow> lexer \<Rightarrow> Token \<times> lexer" where
  "lexPrivateName b st =
     (let start = lex_pos st; pos = identifier_end (buffer_text b) (start + 1)
      in (make_token b PrivateName start pos, st\<lparr>lex_pos := pos\<rparr>))"

definition takeDigits :: "(char \<Rightarrow> bool) \<Rightarrow> string \<Rightarrow> nat \<Rightarrow> nat" where
  "takeDigits isPart = advance_while (\<lambda>c. isPart c \<or> c = CHR ''_'')"

definition startsExponent :: "char \<Rightarrow> bool" where
  "startsExponent c \<longleftrightarrow> isDigit c \<or> c = CHR ''_''"

text \<open>An exponent with at least one digit: \<open>e\<close> at \<open>at\<close>, a sign or not, a digit or a separator.\<close>

definition exponent_at :: "string \<Rightarrow> nat \<Rightarrow> nat \<Rightarrow> bool" where
  "exponent_at txt pos i \<longleftrightarrow>
     (lex_peek txt pos i = CHR ''e'' \<or> lex_peek txt pos i = CHR ''E'') \<and>
     (startsExponent (lex_peek txt pos (i + 1)) \<or>
      ((lex_peek txt pos (i + 1) = CHR ''+'' \<or> lex_peek txt pos (i + 1) = CHR ''-'') \<and> startsExponent (lex_peek txt pos (i + 2))))"

definition suffix_end :: "string \<Rightarrow> nat \<Rightarrow> nat" where
  "suffix_end txt pos = (if lex_peek txt pos 0 = CHR ''n'' \<or> lex_peek txt pos 0 = CHR ''N'' then pos + 1 else pos)"

definition number_end :: "string \<Rightarrow> nat \<Rightarrow> nat" where
  "number_end txt start =
     (if lex_peek txt start 0 = CHR ''0'' \<and> lex_peek txt start 1 \<in> set ''xXoObB'' then
        suffix_end txt (takeDigits isHexDigit txt (start + 2))
      else
        (let pos1 = takeDigits isDigit txt start;
             isExponentAhead = exponent_at txt pos1 1;
             (cp, len) = decodeUtf8 txt (pos1 + 1);
             isPropertyAccess = (len > 0 \<and> isIdentStart cp \<and> cp \<noteq> byte CHR ''_'' \<and> \<not> isExponentAhead);
             pos2 = (if lex_peek txt pos1 0 = CHR ''.'' \<and> \<not> isPropertyAccess then takeDigits isDigit txt (pos1 + 1) else pos1);
             pos3 = (if exponent_at txt pos2 0 then takeDigits isDigit txt (pos2 + 2) else pos2)
         in suffix_end txt pos3))"

definition lexNumber :: "SourceBuffer \<Rightarrow> lexer \<Rightarrow> Token \<times> lexer" where
  "lexNumber b st =
     (let start = lex_pos st; pos = number_end (buffer_text b) start
      in (make_token b NumberLiteral start pos, st\<lparr>lex_pos := pos\<rparr>))"

section \<open>Strings, templates, regular expressions\<close>

function string_end :: "string \<Rightarrow> char \<Rightarrow> nat \<Rightarrow> nat" where
  "string_end txt quote pos =
     (let c = lex_peek txt pos 0
      in if \<not> lex_atEnd txt pos \<and> c \<noteq> quote \<and> c \<noteq> CHR 0x0A \<and> c \<noteq> CHR 0x0D then
           (if c = CHR 0x5C then
              (let pos1 = pos + 1;
                   pos2 = (if lex_peek txt pos1 0 = CHR 0x0D \<and> lex_peek txt pos1 1 = CHR 0x0A then pos1 + 1 else pos1)
               in string_end txt quote (pos2 + 1))
            else string_end txt quote (pos + 1))
         else pos)"
  by pat_completeness auto
termination
  by (relation "measure (\<lambda>(txt, quote, pos). length txt - pos)") (auto simp: lex_atEnd_def)

declare string_end.simps [simp del]

definition lexString :: "SourceBuffer \<Rightarrow> lexer \<Rightarrow> Token \<times> lexer" where
  "lexString b st =
     (let txt = buffer_text b; start = lex_pos st; quote = lex_peek txt start 0; pos = string_end txt quote (start + 1)
      in if lex_atEnd txt pos \<or> lex_peek txt pos 0 \<noteq> quote then
           (make_token b StringLiteral start pos, report b start pos ''unterminated string literal'' (st\<lparr>lex_pos := pos\<rparr>))
         else (make_token b StringLiteral start (pos + 1), st\<lparr>lex_pos := pos + 1\<rparr>))"

datatype template_stop = Unterminated | Closed | Substitution

function template_end :: "string \<Rightarrow> nat \<Rightarrow> template_stop \<times> nat" where
  "template_end txt pos =
     (if lex_atEnd txt pos then (Unterminated, pos)
      else
        (let c = lex_peek txt pos 0
         in if c = CHR 0x5C then template_end txt (pos + 2)
            else if c = CHR 0x60 then (Closed, pos + 1)
            else if c = CHR ''$'' \<and> lex_peek txt pos 1 = CHR ''{'' then (Substitution, pos + 2)
            else template_end txt (pos + 1)))"
  by pat_completeness auto
termination
  by (relation "measure (\<lambda>(txt, pos). length txt - pos)") (auto simp: lex_atEnd_def)

declare template_end.simps [simp del]

definition lexTemplatePart :: "SourceBuffer \<Rightarrow> bool \<Rightarrow> lexer \<Rightarrow> Token \<times> lexer" where
  "lexTemplatePart b isHead st =
     (let start = lex_pos st
      in case template_end (buffer_text b) (start + 1) of
           (Unterminated, pos) \<Rightarrow>
             (make_token b TemplateWhole start pos, report b start pos ''unterminated template literal'' (st\<lparr>lex_pos := pos\<rparr>))
         | (Closed, pos) \<Rightarrow> (make_token b (if isHead then TemplateWhole else TemplateTail) start pos, st\<lparr>lex_pos := pos\<rparr>)
         | (Substitution, pos) \<Rightarrow>
             (make_token b (if isHead then TemplateHead else TemplateMiddle) start pos,
              st\<lparr>lex_pos := pos, substitutionBraces := substitutionBraces st @ [0]\<rparr>))"

text \<open>The body of a regular expression: whether a closing \<open>/\<close> was found, and where.\<close>

function regexp_end :: "string \<Rightarrow> bool \<Rightarrow> nat \<Rightarrow> bool \<times> nat" where
  "regexp_end txt inClass pos =
     (let c = lex_peek txt pos 0
      in if lex_atEnd txt pos \<or> c = CHR 0x0A \<or> c = CHR 0x0D then (False, pos)
         else if c = CHR 0x5C then regexp_end txt inClass (pos + 2)
         else if c = CHR ''['' then regexp_end txt True (pos + 1)
         else if c = CHR '']'' then regexp_end txt False (pos + 1)
         else if c = CHR ''/'' \<and> \<not> inClass then (True, pos)
         else regexp_end txt inClass (pos + 1))"
  by pat_completeness auto
termination
  by (relation "measure (\<lambda>(txt, inClass, pos). length txt - pos)") (auto simp: lex_atEnd_def)

declare regexp_end.simps [simp del]

definition lexRegExp :: "SourceBuffer \<Rightarrow> lexer \<Rightarrow> Token \<times> lexer" where
  "lexRegExp b st =
     (let start = lex_pos st
      in case regexp_end (buffer_text b) False (start + 1) of
           (False, pos) \<Rightarrow>
             (make_token b RegExpLiteral start pos,
              report b start pos ''unterminated regular expression literal'' (st\<lparr>lex_pos := pos\<rparr>))
         | (True, pos) \<Rightarrow>
             (let pos1 = advance_while (\<lambda>c. isIdentPart (sign_extended c)) (buffer_text b) (pos + 1)
              in (make_token b RegExpLiteral start pos1, st\<lparr>lex_pos := pos1\<rparr>)))"

section \<open>Punctuation\<close>

text \<open>The switch of \<open>lexPunctuation\<close>: the token and the number of characters it takes.\<close>

definition punctuation :: "string \<Rightarrow> nat \<Rightarrow> (Punctuator \<times> nat) option" where
  "punctuation txt pos =
     (let c = lex_peek txt pos 0
      in if c = CHR ''('' then Some (LParen, 1)
         else if c = CHR '')'' then Some (RParen, 1)
         else if c = CHR ''{'' then Some (LBrace, 1)
         else if c = CHR ''}'' then Some (RBrace, 1)
         else if c = CHR ''['' then Some (LBracket, 1)
         else if c = CHR '']'' then Some (RBracket, 1)
         else if c = CHR '','' then Some (Comma, 1)
         else if c = CHR '';'' then Some (Semicolon, 1)
         else if c = CHR '':'' then Some (Colon, 1)
         else if c = CHR ''.'' then
           (if lex_peek txt pos 1 = CHR ''.'' \<and> lex_peek txt pos 2 = CHR ''.'' then Some (Ellipsis, 3)
            else Some (Dot, 1))
         else if c = CHR ''?'' then
           (if lex_peek txt pos 1 = CHR ''?'' \<and> lex_peek txt pos 2 = CHR ''='' then Some (QuestionQuestionAssign, 3)
            else if lex_peek txt pos 1 = CHR ''?'' then Some (QuestionQuestion, 2)
            else if lex_peek txt pos 1 = CHR ''.'' \<and> \<not> isDigit (lex_peek txt pos 2) then Some (QuestionDot, 2)
            else Some (Question, 1))
         else if c = CHR ''&'' then
           (if lex_peek txt pos 1 = CHR ''&'' \<and> lex_peek txt pos 2 = CHR ''='' then Some (AmpAmpAssign, 3)
            else if lex_peek txt pos 1 = CHR ''&'' then Some (AmpAmp, 2)
            else if lex_peek txt pos 1 = CHR ''='' then Some (AmpAssign, 2)
            else Some (Amp, 1))
         else if c = CHR ''|'' then
           (if lex_peek txt pos 1 = CHR ''|'' \<and> lex_peek txt pos 2 = CHR ''='' then Some (PipePipeAssign, 3)
            else if lex_peek txt pos 1 = CHR ''|'' then Some (PipePipe, 2)
            else if lex_peek txt pos 1 = CHR ''='' then Some (PipeAssign, 2)
            else Some (Pipe, 1))
         else if c = CHR ''^'' then
           (if lex_peek txt pos 1 = CHR ''='' then Some (CaretAssign, 2)
            else Some (Caret, 1))
         else if c = CHR ''~'' then Some (Tilde, 1)
         else if c = CHR ''+'' then
           (if lex_peek txt pos 1 = CHR ''+'' then Some (PlusPlus, 2)
            else if lex_peek txt pos 1 = CHR ''='' then Some (PlusAssign, 2)
            else Some (Plus, 1))
         else if c = CHR ''-'' then
           (if lex_peek txt pos 1 = CHR ''-'' then Some (MinusMinus, 2)
            else if lex_peek txt pos 1 = CHR ''='' then Some (MinusAssign, 2)
            else Some (Minus, 1))
         else if c = CHR ''*'' then
           (if lex_peek txt pos 1 = CHR ''*'' \<and> lex_peek txt pos 2 = CHR ''='' then Some (StarStarAssign, 3)
            else if lex_peek txt pos 1 = CHR ''*'' then Some (StarStar, 2)
            else if lex_peek txt pos 1 = CHR ''='' then Some (StarAssign, 2)
            else Some (Star, 1))
         else if c = CHR ''/'' then
           (if lex_peek txt pos 1 = CHR ''='' then Some (SlashAssign, 2)
            else Some (Slash, 1))
         else if c = CHR ''%'' then
           (if lex_peek txt pos 1 = CHR ''='' then Some (PercentAssign, 2)
            else Some (Percent, 1))
         else if c = CHR ''<'' then
           (if lex_peek txt pos 1 = CHR ''<'' \<and> lex_peek txt pos 2 = CHR ''='' then Some (LessLessAssign, 3)
            else if lex_peek txt pos 1 = CHR ''<'' then Some (LessLess, 2)
            else if lex_peek txt pos 1 = CHR ''='' then Some (LessEqual, 2)
            else Some (Less, 1))
         else if c = CHR ''>'' then
           (if lex_peek txt pos 1 = CHR ''>'' \<and> lex_peek txt pos 2 = CHR ''>'' \<and> lex_peek txt pos 3 = CHR ''='' then Some (GreaterGreaterGreaterAssign, 4)
            else if lex_peek txt pos 1 = CHR ''>'' \<and> lex_peek txt pos 2 = CHR ''>'' then Some (GreaterGreaterGreater, 3)
            else if lex_peek txt pos 1 = CHR ''>'' \<and> lex_peek txt pos 2 = CHR ''='' then Some (GreaterGreaterAssign, 3)
            else if lex_peek txt pos 1 = CHR ''>'' then Some (GreaterGreater, 2)
            else if lex_peek txt pos 1 = CHR ''='' then Some (GreaterEqual, 2)
            else Some (Greater, 1))
         else if c = CHR ''='' then
           (if lex_peek txt pos 1 = CHR ''>'' then Some (Arrow, 2)
            else if lex_peek txt pos 1 = CHR ''='' \<and> lex_peek txt pos 2 = CHR ''='' then Some (EqualEqualEqual, 3)
            else if lex_peek txt pos 1 = CHR ''='' then Some (EqualEqual, 2)
            else Some (Assign, 1))
         else if c = CHR ''!'' then
           (if lex_peek txt pos 1 = CHR ''='' \<and> lex_peek txt pos 2 = CHR ''='' then Some (BangEqualEqual, 3)
            else if lex_peek txt pos 1 = CHR ''='' then Some (BangEqual, 2)
            else Some (Bang, 1))
         else None)"

definition lexPunctuation :: "SourceBuffer \<Rightarrow> lexer \<Rightarrow> Token \<times> lexer" where
  "lexPunctuation b st =
     (let start = lex_pos st
      in case punctuation (buffer_text b) start of
           Some (p, n) \<Rightarrow> (make_token b (Punctuator p) start (start + n), st\<lparr>lex_pos := start + n\<rparr>)
         | None \<Rightarrow>
             (make_token b EndOfFile start (start + 1),
              report b start (start + 1) (''unrecognized character '' @ [CHR 0x27, lex_peek (buffer_text b) start 0, CHR 0x27])
                (st\<lparr>lex_pos := start + 1\<rparr>)))"

section \<open>The slash\<close>

text \<open>The scan back from a closing bracket to its opening one, over the tokens from the last to the first: the tokens
  before the opening bracket.\<close>

fun before_opening :: "Punctuator \<Rightarrow> Punctuator \<Rightarrow> int \<Rightarrow> Token list \<Rightarrow> Token list option" where
  "before_opening closing opening depth [] = None"
| "before_opening closing opening depth (t # ts) =
     (if tok_kind t = Punctuator closing then before_opening closing opening (depth + 1) ts
      else if tok_kind t = Punctuator opening then
        (if depth - 1 = 0 then Some ts else before_opening closing opening (depth - 1) ts)
      else before_opening closing opening depth ts)"

definition ends_expression :: "TokenKind \<Rightarrow> bool" where
  "ends_expression k \<longleftrightarrow>
     k \<in> {NumberLiteral, StringLiteral, TemplateWhole, TemplateTail, RegExpLiteral, Punctuator RBracket, Punctuator PlusPlus,
          Punctuator MinusMinus, Keyword KwThis, Keyword KwSuper, Keyword KwTrue, Keyword KwFalse, Keyword KwNull, Keyword KwUndefined}"

definition expects_operand :: "TokenKind \<Rightarrow> bool" where
  "expects_operand k \<longleftrightarrow>
     k \<in> Punctuator ` {LParen, LBracket, Comma, Assign, PlusAssign, MinusAssign, StarAssign, SlashAssign, PercentAssign,
            StarStarAssign, AmpAssign, PipeAssign, CaretAssign, LessLessAssign, GreaterGreaterAssign, GreaterGreaterGreaterAssign,
            AmpAmpAssign, PipePipeAssign, QuestionQuestionAssign, Plus, Minus, Star, Slash, Percent, StarStar, AmpAmp, PipePipe,
            QuestionQuestion, EqualEqual, EqualEqualEqual, BangEqual, BangEqualEqual, Less, LessEqual, Greater, GreaterEqual,
            Amp, Pipe, Caret, LessLess, GreaterGreater, GreaterGreaterGreater, Question, Colon, Bang, Tilde} \<union>
         Keyword ` {KwReturn, KwThrow, KwTypeof, KwVoid, KwDelete, KwIn, KwInstanceof}"

definition opens_condition :: "Token \<Rightarrow> bool" where
  "opens_condition t \<longleftrightarrow>
     tok_kind t \<in> {Keyword KwIf, Keyword KwWhile, Keyword KwFor} \<or> (tok_kind t = Identifier \<and> tok_text t = ''with'')"

definition regexAllowedAfter :: "Token list \<Rightarrow> bool" where
  "regexAllowedAfter tokens =
     (case rev tokens of
        [] \<Rightarrow> True
      | t # _ \<Rightarrow>
          if tok_kind t = Identifier then tok_text t = ''await'' \<or> tok_text t = ''yield''
          else if ends_expression (tok_kind t) then False
          else if tok_kind t = Punctuator RParen then
            (case before_opening RParen LParen 0 (rev tokens) of
               Some (p # _) \<Rightarrow> opens_condition p
             | _ \<Rightarrow> False)
          else if tok_kind t = Punctuator RBrace then
            (case before_opening RBrace LBrace 0 (rev tokens) of
               Some (p # _) \<Rightarrow> \<not> expects_operand (tok_kind p)
             | _ \<Rightarrow> True)
          else True)"

section \<open>The loop\<close>

text \<open>One token, at a character that is not trivia.\<close>

definition lex_one :: "SourceBuffer \<Rightarrow> Token list \<Rightarrow> lexer \<Rightarrow> Token \<times> lexer" where
  "lex_one b tokens st =
     (let txt = buffer_text b; pos = lex_pos st; c = lex_peek txt pos 0; braces = substitutionBraces st;
          (cp, len) = (if byte c < 0x80 then (byte c, 1) else decodeUtf8 txt pos)
      in if len > 0 \<and> isIdentStart cp then lexIdentifierOrKeyword b st
         else if c = CHR ''#'' then
           (case decodeUtf8 txt (pos + 1) of (cp1, len1) \<Rightarrow>
              if len1 > 0 \<and> isIdentStart cp1 then lexPrivateName b st else lexPunctuation b st)
         else if isDigit c \<or> (c = CHR ''.'' \<and> isDigit (lex_peek txt pos 1)) then lexNumber b st
         else if c = CHR 0x22 \<or> c = CHR 0x27 then lexString b st
         else if c = CHR 0x60 then lexTemplatePart b True st
         else if c = CHR ''/'' \<and> regexAllowedAfter tokens then lexRegExp b st
         else if c = CHR ''}'' \<and> braces \<noteq> [] \<and> last braces = 0 then
           lexTemplatePart b False (st\<lparr>substitutionBraces := butlast braces\<rparr>)
         else
           lexPunctuation b
             (if braces = [] then st
              else if c = CHR ''{'' then st\<lparr>substitutionBraces := butlast braces @ [last braces + 1]\<rparr>
              else if c = CHR ''}'' then st\<lparr>substitutionBraces := butlast braces @ [last braces - 1]\<rparr>
              else st))"

text \<open>Every scanner moves forward.\<close>

lemma byte_order_mark:
  assumes "byte (lex_peek txt pos 0) = 0xEF" "byte (lex_peek txt pos 1) = 0xBB" "byte (lex_peek txt pos 2) = 0xBF"
  shows "decodeUtf8 txt pos = (0xFEFF, Suc 2)"
proof -
  have "lex_peek txt pos k \<noteq> CHR 0x00" if "byte (lex_peek txt pos k) \<noteq> 0" for k using that by auto
  then have inside: "pos + k < length txt \<and> txt ! (pos + k) = lex_peek txt pos k" if "byte (lex_peek txt pos k) \<noteq> 0" for k
    using that by (auto simp: lex_peek_def split: if_splits)
  have u: "utf8 0xFEFF = [0xEF, 0xBB, 0xBF]" by (simp add: utf8_def)
  have "map byte (take 3 (drop pos txt)) = map (\<lambda>i. byte (txt ! (pos + i))) [0..<3]"
    using inside [of 2] assms by (intro window) simp
  also have "\<dots> = utf8 0xFEFF" using inside [of 0] inside [of 1] inside [of 2] assms by (simp add: u upt_rec)
  finally show ?thesis
    using encoding_decoded [of "0xFEFF" pos "txt"] inside [of 2] assms by (simp add: u scalar_def numeral_3_eq_3)
qed

text \<open>One turn of \<open>skipTrivia\<close>.\<close>

lemma trivia_loop_step:
  obtains (white) "pos < length txt" "txt ! pos \<in> {CHR '' '', CHR 0x09, CHR 0x0D, CHR 0x0A}"
      "\<And>saw. trivia_loop txt pos saw = trivia_loop txt (pos + 1) (saw \<or> txt ! pos = CHR 0x0A \<or> txt ! pos = CHR 0x0D)"
  | (unicode) cp n where "decodeUtf8 txt pos = (cp, Suc n)" "isUnicodeWhitespace cp"
      "\<And>saw. trivia_loop txt pos saw = trivia_loop txt (pos + Suc n) (saw \<or> cp = 0x2028 \<or> cp = 0x2029)"
  | (line) "pos + 1 < length txt" "txt ! pos = CHR ''/''" "txt ! (pos + 1) = CHR ''/''"
      "\<And>saw. trivia_loop txt pos saw = trivia_loop txt (advance_while (\<lambda>c. c \<noteq> CHR 0x0A) txt pos) saw"
  | (block) "pos + 1 < length txt" "txt ! pos = CHR ''/''" "txt ! (pos + 1) = CHR ''*''"
      "\<And>saw. trivia_loop txt pos saw =
         (case block_comment txt (pos + 2) saw of (pos1, saw1) \<Rightarrow>
            if lex_atEnd txt pos1 then (saw1, pos1, Some pos) else trivia_loop txt (pos1 + 2) saw1)"
  | (stop) "\<And>saw. trivia_loop txt pos saw = (saw, pos, None)"
      "lex_peek txt pos 0 \<notin> {CHR '' '', CHR 0x09, CHR 0x0D, CHR 0x0A}" "\<And>cp n. decodeUtf8 txt pos = (cp, Suc n) \<Longrightarrow> \<not> isUnicodeWhitespace cp"
      "\<not> (lex_peek txt pos 0 = CHR ''/'' \<and> lex_peek txt pos 1 \<in> {CHR ''/'', CHR ''*''})"
proof -
  let ?c = "lex_peek txt pos 0"
  obtain cp len where d: "decodeUtf8 txt pos = (cp, len)" by (cases "decodeUtf8 txt pos")
  have two: "pos + 1 < length txt \<and> txt ! pos = ?c \<and> txt ! (pos + 1) = lex_peek txt pos 1" if "lex_peek txt pos 1 \<noteq> CHR 0x00"
    using that by (auto simp: lex_peek_def split: if_splits)
  consider (1) "?c \<in> {CHR '' '', CHR 0x09, CHR 0x0D, CHR 0x0A}"
    | (2) "byte ?c = 0xEF \<and> byte (lex_peek txt pos 1) = 0xBB \<and> byte (lex_peek txt pos 2) = 0xBF"
    | (3) "128 \<le> byte ?c" "\<not> (byte ?c = 0xEF \<and> byte (lex_peek txt pos 1) = 0xBB \<and> byte (lex_peek txt pos 2) = 0xBF)" "0 < len" "isUnicodeWhitespace cp"
    | (4) "?c = CHR ''/''" "lex_peek txt pos 1 = CHR ''/''" | (5) "?c = CHR ''/''" "lex_peek txt pos 1 = CHR ''*''"
    | (6) "?c \<notin> {CHR '' '', CHR 0x09, CHR 0x0D, CHR 0x0A}" "128 \<le> byte ?c" "\<not> (0 < len \<and> isUnicodeWhitespace cp)"
        "\<not> (byte ?c = 0xEF \<and> byte (lex_peek txt pos 1) = 0xBB \<and> byte (lex_peek txt pos 2) = 0xBF)"
    | (7) "?c \<notin> {CHR '' '', CHR 0x09, CHR 0x0D, CHR 0x0A}" "byte ?c < 128" "\<not> (?c = CHR ''/'' \<and> lex_peek txt pos 1 \<in> {CHR ''/'', CHR ''*''})"
    by fastforce
  then show thesis
  proof cases
    case 1
    then have "pos < length txt" "?c = txt ! pos" using lex_peek_inside [of "txt" pos] by auto
    moreover have "trivia_loop txt pos saw = trivia_loop txt (pos + 1) (saw \<or> ?c = CHR 0x0A \<or> ?c = CHR 0x0D)" for saw
      using 1 by (subst trivia_loop.simps) (simp add: Let_def)
    ultimately show ?thesis using 1 by (intro white) auto
  next
    case 2
    have "trivia_loop txt pos saw = trivia_loop txt (pos + 3) saw" for saw using 2 by (subst trivia_loop.simps) (auto simp: Let_def)
    then show ?thesis using 2 byte_order_mark [of "txt" pos] by (intro unicode [of "0xFEFF" 2]) (simp_all add: isUnicodeWhitespace_def)
  next
    case 3
    have "trivia_loop txt pos saw = trivia_loop txt (pos + len) (saw \<or> cp = 0x2028 \<or> cp = 0x2029)" for saw
      using 3 d by (cases "cp = 0x2028 \<or> cp = 0x2029") (subst trivia_loop.simps; auto simp: Let_def)+
    then show ?thesis using 3 d by (intro unicode [of cp "len - 1"]) simp_all
  next
    case 4
    have "trivia_loop txt pos saw = trivia_loop txt (advance_while (\<lambda>c. c \<noteq> CHR 0x0A) txt pos) saw" for saw
      using 4 by (subst trivia_loop.simps) (simp add: Let_def)
    then show ?thesis using 4 two by (intro line) auto
  next
    case 5
    have "trivia_loop txt pos saw = (case block_comment txt (pos + 2) saw of (pos1, saw1) \<Rightarrow>
            if lex_atEnd txt pos1 then (saw1, pos1, Some pos) else trivia_loop txt (pos1 + 2) saw1)" for saw
      using 5 by (subst trivia_loop.simps) (simp add: Let_def)
    then show ?thesis using 5 two by (intro block) auto
  next
    case 6
    then have "trivia_loop txt pos saw = (saw, pos, None)" for saw
      using d by (subst trivia_loop.simps) (auto simp: Let_def isUnicodeWhitespace_def)
    then show ?thesis using 6 d by (intro stop) auto
  next
    case 7
    then have "trivia_loop txt pos saw = (saw, pos, None)" for saw
      by (subst trivia_loop.simps) (auto simp: Let_def)
    moreover have "\<not> isUnicodeWhitespace cp'" if "decodeUtf8 txt pos = (cp', Suc n)" for cp' n
    proof -
      have "pos < length txt" using that by (auto intro: decode_inside [of cp' "Suc n"])
      then have "cp' < 128" using that 7(2) by (simp add: decodeUtf8_def lex_peek_def)
      then show ?thesis by (simp add: isUnicodeWhitespace_def)
    qed
    ultimately show ?thesis using 7 by (intro stop) auto
  qed
qed

text \<open>The trivia of a text between two positions, and whether they hold a line terminator as the lexer counts them.\<close>

inductive trivia :: "string \<Rightarrow> nat \<Rightarrow> nat \<Rightarrow> bool \<Rightarrow> bool" for "txt" where
  nothing: "trivia txt p p False"
| blank: "p < length txt \<Longrightarrow> txt ! p \<in> {CHR '' '', CHR 0x09} \<Longrightarrow> trivia txt (p + 1) q nl \<Longrightarrow> trivia txt p q nl"
| newline: "p < length txt \<Longrightarrow> txt ! p \<in> {CHR 0x0A, CHR 0x0D} \<Longrightarrow> trivia txt (p + 1) q nl \<Longrightarrow> trivia txt p q True"
| unicode: "decodeUtf8 txt p = (cp, Suc n) \<Longrightarrow> isUnicodeWhitespace cp \<Longrightarrow> trivia txt (p + Suc n) q nl \<Longrightarrow>
    trivia txt p q (cp = 0x2028 \<or> cp = 0x2029 \<or> nl)"
| line_comment: "p + 1 < length txt \<Longrightarrow> txt ! p = CHR ''/'' \<Longrightarrow> txt ! (p + 1) = CHR ''/'' \<Longrightarrow> p + 2 \<le> e \<Longrightarrow> e \<le> length txt \<Longrightarrow>
    \<forall>i \<in> {p..<e}. txt ! i \<noteq> CHR 0x0A \<Longrightarrow> e < length txt \<longrightarrow> txt ! e = CHR 0x0A \<Longrightarrow> trivia txt e q nl \<Longrightarrow> trivia txt p q nl"
| block_comment: "p + 1 < length txt \<Longrightarrow> txt ! p = CHR ''/'' \<Longrightarrow> txt ! (p + 1) = CHR ''*'' \<Longrightarrow> p + 2 \<le> e \<Longrightarrow> e + 1 < length txt \<Longrightarrow>
    txt ! e = CHR ''*'' \<Longrightarrow> txt ! (e + 1) = CHR ''/'' \<Longrightarrow>
    \<forall>i \<in> {p + 2..<e}. \<not> (txt ! i = CHR ''*'' \<and> lex_peek txt i 1 = CHR ''/'') \<Longrightarrow> trivia txt (e + 2) q nl \<Longrightarrow>
    trivia txt p q ((\<exists>i \<in> {p + 2..<e}. txt ! i = CHR 0x0A) \<or> nl)"

lemma block_comment_spec:
  assumes "block_comment txt pos saw = (p, s)" and "pos \<le> length txt"
  shows "pos \<le> p \<and> p \<le> length txt \<and> (p < length txt \<longrightarrow> p + 1 < length txt \<and> txt ! p = CHR ''*'' \<and> txt ! (p + 1) = CHR ''/'') \<and>
     (\<forall>i \<in> {pos..<p}. \<not> (txt ! i = CHR ''*'' \<and> lex_peek txt i 1 = CHR ''/'')) \<and> (s \<longleftrightarrow> saw \<or> (\<exists>i \<in> {pos..<p}. txt ! i = CHR 0x0A))"
  using assms
proof (induction "txt" pos saw rule: block_comment.induct)
  case (1 t pos saw)
  show ?case
  proof (cases "\<not> lex_atEnd t pos \<and> \<not> (lex_peek t pos 0 = CHR ''*'' \<and> lex_peek t pos 1 = CHR ''/'')")
    case True
    then have lt: "pos < length t" and at: "lex_peek t pos 0 = t ! pos" by (auto simp: lex_atEnd_def lex_peek_def)
    have "block_comment t pos saw = block_comment t (pos + 1) (saw \<or> lex_peek t pos 0 = CHR 0x0A)"
      by (subst block_comment.simps, subst if_P [OF True]) (rule refl)
    then have "block_comment t (pos + 1) (saw \<or> lex_peek t pos 0 = CHR 0x0A) = (p, s)" using "1.prems"(1) by simp
    then have ih: "pos + 1 \<le> p \<and> p \<le> length t \<and> (p < length t \<longrightarrow> p + 1 < length t \<and> t ! p = CHR ''*'' \<and> t ! (p + 1) = CHR ''/'') \<and>
        (\<forall>i \<in> {pos + 1..<p}. \<not> (t ! i = CHR ''*'' \<and> lex_peek t i 1 = CHR ''/'')) \<and>
        (s \<longleftrightarrow> (saw \<or> t ! pos = CHR 0x0A) \<or> (\<exists>i \<in> {pos + 1..<p}. t ! i = CHR 0x0A))"
      using "1.IH" [OF True] lt at by simp
    then have "{pos..<p} = insert pos {pos + 1..<p}" by auto
    then show ?thesis using ih True at by (simp only: ball_simps bex_simps) auto
  next
    case False
    have "block_comment t pos saw = (pos, saw)" by (subst block_comment.simps, subst if_not_P [OF False]) (rule refl)
    then have "p = pos" "s = saw" using "1.prems"(1) by simp_all
    then show ?thesis using False "1.prems"(2) by (auto simp: lex_atEnd_def lex_peek_def split: if_splits)
  qed
qed

lemma advance_while_spec:
  assumes "pos \<le> length txt"
  shows "advance_while P txt pos \<le> length txt" "\<And>i. pos \<le> i \<Longrightarrow> i < advance_while P txt pos \<Longrightarrow> P (txt ! i)"
    "advance_while P txt pos < length txt \<Longrightarrow> \<not> P (txt ! advance_while P txt pos)"
proof -
  let ?n = "length (takeWhile P (drop pos txt))"
  have n: "?n \<le> length txt - pos" using length_takeWhile_le [of P "drop pos txt"] by simp
  then show "advance_while P txt pos \<le> length txt" using assms by (simp add: advance_while_def)
  show "P (txt ! i)" if "pos \<le> i" "i < advance_while P txt pos" for i
    using takeWhile_nth [of "i - pos" P "drop pos txt"] nth_mem [of "i - pos" "takeWhile P (drop pos txt)"] set_takeWhileD [of _ P "drop pos txt"]
      that n by (auto simp: advance_while_def)
  show "\<not> P (txt ! advance_while P txt pos)" if "advance_while P txt pos < length txt"
    using nth_length_takeWhile [of P "drop pos txt"] that assms by (simp add: advance_while_def)
qed

text \<open>What \<open>skipTrivia\<close> passes is trivia, as much of it as there is, and its answer says whether a line terminator was
  in it.\<close>

lemma trivia_loop_sound:
  assumes "trivia_loop txt pos saw = (saw1, pos1, None)" and "pos \<le> length txt"
  shows "\<exists>nl. trivia txt pos pos1 nl \<and> (saw1 \<longleftrightarrow> saw \<or> nl) \<and> pos1 \<le> length txt"
  using assms
proof (induction "length txt - pos" arbitrary: pos saw rule: less_induct)
  case less
  have ih: "\<exists>nl. trivia txt p pos1 nl \<and> (saw1 \<longleftrightarrow> s \<or> nl) \<and> pos1 \<le> length txt"
    if "trivia_loop txt p s = (saw1, pos1, None)" "pos < p" "p \<le> length txt" for p s
    by (rule less.hyps [OF _ that(1,3)]) (use that in linarith)
  show ?case
  proof (cases rule: trivia_loop_step [of pos "txt"])
    case white
    obtain nl where nl: "trivia txt (pos + 1) pos1 nl" "saw1 \<longleftrightarrow> (saw \<or> txt ! pos = CHR 0x0A \<or> txt ! pos = CHR 0x0D) \<or> nl" "pos1 \<le> length txt"
      using ih [of "pos + 1" "saw \<or> txt ! pos = CHR 0x0A \<or> txt ! pos = CHR 0x0D"] less.prems(1) white(1,3) by auto
    show ?thesis
    proof (cases "txt ! pos \<in> {CHR '' '', CHR 0x09}")
      case True
      then show ?thesis using trivia.blank [OF white(1) True nl(1)] nl by auto
    next
      case False
      then have "txt ! pos \<in> {CHR 0x0A, CHR 0x0D}" using white(2) by auto
      then show ?thesis using trivia.newline [OF white(1) _ nl(1)] nl by auto
    qed
  next
    case (unicode cp n)
    have le: "pos + Suc n \<le> length txt" using decoded_encoding(3) [OF unicode(1)] by simp
    obtain nl where "trivia txt (pos + Suc n) pos1 nl" "saw1 \<longleftrightarrow> (saw \<or> cp = 0x2028 \<or> cp = 0x2029) \<or> nl" "pos1 \<le> length txt"
      using ih [of "pos + Suc n" "saw \<or> cp = 0x2028 \<or> cp = 0x2029"] less.prems(1) unicode(3) le by auto
    then show ?thesis using trivia.unicode [OF unicode(1,2)] by auto
  next
    case line
    let ?e = "advance_while (\<lambda>c. c \<noteq> CHR 0x0A) txt pos"
    have "pos \<le> length txt" using line(1) by simp
    note e = advance_while_spec [OF this, where P = "\<lambda>c. c \<noteq> CHR 0x0A"]
    have step: "?e \<noteq> pos" "?e \<noteq> pos + 1" using e(3) line(1-3) by auto
    moreover have "pos \<le> ?e" by simp
    ultimately have e2: "pos + 2 \<le> ?e" by linarith
    obtain nl where "trivia txt ?e pos1 nl" "saw1 \<longleftrightarrow> saw \<or> nl" "pos1 \<le> length txt"
      using ih [of ?e saw] less.prems(1) line(4) e(1) e2 by auto
    then show ?thesis using trivia.line_comment [OF line(1-3) e2 e(1)] e(2,3) by auto
  next
    case block
    obtain e s where b: "block_comment txt (pos + 2) saw = (e, s)" by fastforce
    have "pos + 2 \<le> length txt" using block(1) by simp
    note spec = block_comment_spec [OF b this]
    have "e < length txt" using less.prems(1) block(4) b by (auto simp: lex_atEnd_def not_le split: if_splits)
    then have e: "pos + 2 \<le> e" "e + 1 < length txt" "txt ! e = CHR ''*''" "txt ! (e + 1) = CHR ''/''"
        "\<forall>i \<in> {pos + 2..<e}. \<not> (txt ! i = CHR ''*'' \<and> lex_peek txt i 1 = CHR ''/'')" "s \<longleftrightarrow> saw \<or> (\<exists>i \<in> {pos + 2..<e}. txt ! i = CHR 0x0A)"
      using spec by blast+
    have "trivia_loop txt (e + 2) s = (saw1, pos1, None)"
      using less.prems(1) block(4) b \<open>e < length txt\<close> by (auto simp: lex_atEnd_def split: if_splits)
    then obtain nl where "trivia txt (e + 2) pos1 nl" "saw1 \<longleftrightarrow> s \<or> nl" "pos1 \<le> length txt"
      using ih [of "e + 2" s] e(1,2) by auto
    then show ?thesis using trivia.block_comment [OF block(1-3) e(1-5)] e(6) by blast
  next
    case stop
    have "saw1 = saw" "pos1 = pos" using less.prems(1) stop(1) by simp_all
    then show ?thesis using less.prems(2) trivia.nothing by (intro exI [of _ False]) simp
  qed
qed

lemma trivia_loop_forward: "trivia_loop txt pos saw = (saw1, pos1, e) \<Longrightarrow> pos \<le> pos1"
proof (induction "length txt - pos" arbitrary: pos saw rule: less_induct)
  case less
  have ih: "p \<le> pos1" if "trivia_loop txt p s = (saw1, pos1, e)" "pos < p" "pos < length txt" for p s
    by (rule less.hyps [OF _ that(1)]) (use that in linarith)
  show ?case
  proof (cases rule: trivia_loop_step [of pos "txt"])
    case white
    then have "trivia_loop txt (pos + 1) (saw \<or> txt ! pos = CHR 0x0A \<or> txt ! pos = CHR 0x0D) = (saw1, pos1, e)" using less.prems by simp
    from ih [OF this _ white(1)] show ?thesis by simp
  next
    case (unicode cp n)
    then have "trivia_loop txt (pos + Suc n) (saw \<or> cp = 0x2028 \<or> cp = 0x2029) = (saw1, pos1, e)" using less.prems by simp
    from ih [OF this] show ?thesis using decoded_encoding(3) [OF unicode(1)] by simp
  next
    case line
    have "pos < advance_while (\<lambda>c. c \<noteq> CHR 0x0A) txt pos" using line(1,2) by (intro advance_while_once) simp_all
    moreover have "trivia_loop txt (advance_while (\<lambda>c. c \<noteq> CHR 0x0A) txt pos) saw = (saw1, pos1, e)" using less.prems line(4) by simp
    ultimately show ?thesis using ih line(1) by (meson add_lessD1 less_imp_le_nat order.trans)
  next
    case block
    obtain q s where b: "block_comment txt (pos + 2) saw = (q, s)" by fastforce
    have "pos + 2 \<le> q" using block_comment_forward [of "pos + 2" "txt" saw] b by simp
    then show ?thesis using ih [of "q + 2" s] less.prems block(1,4) b by (simp split: if_splits)
  next
    case stop
    then show ?thesis using less.prems by simp
  qed
qed

lemma identifier_end_forward: "pos \<le> identifier_end txt pos"
proof (induction "txt" pos rule: identifier_end.induct)
  case (1 t pos)
  then show ?case by (subst identifier_end.simps) (fastforce simp: Let_def split: prod.splits)
qed

lemma string_end_forward: "pos \<le> string_end txt quote pos"
proof (induction "txt" quote pos rule: string_end.induct)
  case (1 t quote pos)
  then show ?case by (subst string_end.simps) (fastforce simp: Let_def)
qed

lemma template_end_forward: "template_end txt pos = (stop, pos1) \<Longrightarrow> pos \<le> pos1"
proof (induction "txt" pos rule: template_end.induct)
  case (1 t pos)
  show ?case using "1.prems" "1.IH" by (subst (asm) template_end.simps) (fastforce simp: Let_def split: if_splits)
qed

lemma regexp_end_forward: "regexp_end txt inClass pos = (closed, pos1) \<Longrightarrow> pos \<le> pos1"
proof (induction "txt" inClass pos rule: regexp_end.induct)
  case (1 t inClass pos)
  show ?case using "1.prems" "1.IH" by (subst (asm) regexp_end.simps) (fastforce simp: Let_def split: if_splits)
qed

lemma skipTrivia_forward: "lex_pos st \<le> lex_pos (snd (skipTrivia b st))"
proof -
  obtain saw pos e where t: "trivia_loop (buffer_text b) (lex_pos st) False = (saw, pos, e)" by (cases "trivia_loop (buffer_text b) (lex_pos st) False")
  then show ?thesis using trivia_loop_forward [OF t] by (cases e) (simp_all add: skipTrivia_def report_def)
qed

lemma identStart_part: "isIdentStart cp \<Longrightarrow> isIdentPart cp"
  by (auto simp: isIdentPart_def isIdentStart_def)

text \<open>A character that begins an identifier, as \<open>lex\<close> reads it.\<close>

definition starts_identifier :: "string \<Rightarrow> nat \<Rightarrow> bool" where
  "starts_identifier txt pos \<longleftrightarrow>
     (case (if byte (lex_peek txt pos 0) < 0x80 then (byte (lex_peek txt pos 0), 1) else decodeUtf8 txt pos) of
        (cp, len) \<Rightarrow> len > 0 \<and> isIdentStart cp)"

lemma identifier_end_progress:
  assumes "starts_identifier txt pos"
  shows "pos < identifier_end txt pos"
proof (cases "byte (lex_peek txt pos 0) < 0x80")
  case True
  then have s: "isIdentStart (byte (lex_peek txt pos 0))" using assms by (simp add: starts_identifier_def)
  then have "lex_peek txt pos 0 \<noteq> CHR 0x00" by (auto simp: isIdentStart_def)
  then have "identifier_end txt pos = identifier_end txt (pos + 1)"
    using True identStart_part [OF s] by (subst identifier_end.simps) (simp add: Let_def)
  then show ?thesis using identifier_end_forward [of "pos + 1" "txt"] by simp
next
  case False
  obtain cp len where d: "decodeUtf8 txt pos = (cp, len)" by (cases "decodeUtf8 txt pos")
  have "len > 0" "isIdentStart cp" using assms False d by (simp_all add: starts_identifier_def)
  then have "identifier_end txt pos = identifier_end txt (pos + len)"
    using False d identStart_part by (subst identifier_end.simps) (simp add: Let_def)
  then show ?thesis using identifier_end_forward [of "pos + len" "txt"] \<open>len > 0\<close> by simp
qed

lemma takeDigits_forward [simp]: "pos \<le> takeDigits P txt pos"
  by (simp add: takeDigits_def)

lemma suffix_end_forward [simp]: "pos \<le> suffix_end txt pos"
  by (simp add: suffix_end_def)

lemma number_end_progress:
  assumes "isDigit (lex_peek txt pos 0) \<or> (lex_peek txt pos 0 = CHR ''.'' \<and> isDigit (lex_peek txt pos 1))"
  shows "pos < number_end txt pos"
proof (cases "lex_peek txt pos 0 = CHR ''0'' \<and> lex_peek txt pos 1 \<in> set ''xXoObB''")
  case True
  have "pos + 2 \<le> suffix_end txt (takeDigits isHexDigit txt (pos + 2))"
    by (rule order_trans [OF takeDigits_forward suffix_end_forward])
  then show ?thesis using True by (simp add: number_end_def)
next
  case False
  let ?p1 = "takeDigits isDigit txt pos"
  obtain cp len where d: "decodeUtf8 txt (?p1 + 1) = (cp, len)" by (cases "decodeUtf8 txt (?p1 + 1)")
  define access where "access \<longleftrightarrow> len > 0 \<and> isIdentStart cp \<and> cp \<noteq> byte CHR ''_'' \<and> \<not> exponent_at txt ?p1 1"
  let ?p2 = "if lex_peek txt ?p1 0 = CHR ''.'' \<and> \<not> access then takeDigits isDigit txt (?p1 + 1) else ?p1"
  let ?p3 = "if exponent_at txt ?p2 0 then takeDigits isDigit txt (?p2 + 2) else ?p2"
  have eq: "number_end txt pos = suffix_end txt ?p3" 
    unfolding number_end_def if_not_P [OF False] Let_def d prod.case access_def ..
  have "pos < ?p2"
  proof (cases "pos < ?p1")
    case True
    then show ?thesis using order_trans [OF _ takeDigits_forward [of "?p1 + 1" isDigit "txt"], of "pos + 1"] by simp
  next
    case False
    then have p1: "?p1 = pos" using takeDigits_forward [of pos isDigit "txt"] by linarith
    have "\<not> isDigit (lex_peek txt pos 0)"
    proof
      assume digit: "isDigit (lex_peek txt pos 0)"
      then have "lex_peek txt pos 0 \<noteq> CHR 0x00" by (auto simp: isDigit_def)
      then have "pos < ?p1" using lex_peek_inside [of "txt" pos] digit by (auto simp: takeDigits_def intro: advance_while_once)
      then show False using False by simp
    qed
    then have dot: "lex_peek txt pos 0 = CHR ''.''" "isDigit (lex_peek txt pos 1)" using assms by auto
    then have "pos + 1 < length txt" "isDigit (txt ! (pos + 1))" by (auto simp: lex_peek_def isDigit_def split: if_splits)
    then have "cp = byte (txt ! (pos + 1))" using d p1 by (auto simp: decodeUtf8_def isDigit_def)
    then have "\<not> isIdentStart cp" using \<open>isDigit (txt ! (pos + 1))\<close> by (simp add: isIdentStart_def isDigit_def)
    then have "\<not> access" by (simp add: access_def)
    then show ?thesis using dot p1 by (simp add: less_le_trans [OF lessI takeDigits_forward])
  qed
  moreover have "p \<le> takeDigits isDigit txt (p + 2)" for p by (rule order_trans [OF le_add1 takeDigits_forward])
  then have "?p2 \<le> ?p3" by simp
  ultimately show ?thesis unfolding eq using suffix_end_forward [of ?p3 "txt"] by linarith
qed

lemma punctuation_width: "punctuation txt pos = Some (p, n) \<Longrightarrow> 0 < n"
  by (simp add: punctuation_def Let_def split: if_splits)

lemma lexPunctuation_progress: "lex_pos st < lex_pos (snd (lexPunctuation b st))"
  by (auto simp: lexPunctuation_def Let_def report_def split: option.split dest: punctuation_width)

lemma lexTemplatePart_progress: "lex_pos st < lex_pos (snd (lexTemplatePart b isHead st))"
proof -
  obtain stop pos where t: "template_end (buffer_text b) (lex_pos st + 1) = (stop, pos)" by (cases "template_end (buffer_text b) (lex_pos st + 1)")
  then show ?thesis using template_end_forward [OF t] by (cases stop) (simp_all add: lexTemplatePart_def report_def Let_def)
qed

lemma lexRegExp_progress: "lex_pos st < lex_pos (snd (lexRegExp b st))"
proof -
  obtain closed pos where t: "regexp_end (buffer_text b) False (lex_pos st + 1) = (closed, pos)"
    by (cases "regexp_end (buffer_text b) False (lex_pos st + 1)")
  have "lex_pos st < pos" using regexp_end_forward [OF t] by simp
  moreover have "pos < advance_while (\<lambda>c. isIdentPart (sign_extended c)) (buffer_text b) (Suc pos)"
    by (rule less_le_trans [OF lessI advance_while_forward])
  ultimately show ?thesis using t by (cases closed) (simp_all add: lexRegExp_def report_def Let_def)
qed

lemma lexString_progress: "lex_pos st < lex_pos (snd (lexString b st))"
  using string_end_forward [of "lex_pos st + 1" "buffer_text b" "lex_peek (buffer_text b) (lex_pos st) 0"]
  by (simp add: lexString_def report_def Let_def)

lemma lex_one_cases:
  fixes b :: SourceBuffer and st :: lexer
  obtains (identifier_case) "starts_identifier (buffer_text b) (lex_pos st)" "lex_one b tokens st = lexIdentifierOrKeyword b st"
  | (private_name) "lex_peek (buffer_text b) (lex_pos st) 0 = CHR ''#''"
      "case decodeUtf8 (buffer_text b) (lex_pos st + 1) of (cp, len) \<Rightarrow> len > 0 \<and> isIdentStart cp" "lex_one b tokens st = lexPrivateName b st"
  | (number) "isDigit (lex_peek (buffer_text b) (lex_pos st) 0) \<or>
        (lex_peek (buffer_text b) (lex_pos st) 0 = CHR ''.'' \<and> isDigit (lex_peek (buffer_text b) (lex_pos st) 1))"
      "lex_one b tokens st = lexNumber b st"
  | (quoted) "lex_peek (buffer_text b) (lex_pos st) 0 \<in> {CHR 0x22, CHR 0x27}" "lex_one b tokens st = lexString b st"
  | (template) "lex_peek (buffer_text b) (lex_pos st) 0 = CHR 0x60" "lex_one b tokens st = lexTemplatePart b True st"
  | (regexp) "lex_peek (buffer_text b) (lex_pos st) 0 = CHR ''/''" "regexAllowedAfter tokens" "lex_one b tokens st = lexRegExp b st"
  | (resume) "lex_peek (buffer_text b) (lex_pos st) 0 = CHR ''}''" "substitutionBraces st \<noteq> []" "last (substitutionBraces st) = 0"
      "lex_one b tokens st = lexTemplatePart b False (st\<lparr>substitutionBraces := butlast (substitutionBraces st)\<rparr>)"
  | (punctuator) braces where
      "lex_peek (buffer_text b) (lex_pos st) 0 = CHR ''}'' \<Longrightarrow> substitutionBraces st \<noteq> [] \<Longrightarrow> last (substitutionBraces st) \<noteq> 0"
      "braces = (if substitutionBraces st = [] then []
         else if lex_peek (buffer_text b) (lex_pos st) 0 = CHR ''{'' then butlast (substitutionBraces st) @ [last (substitutionBraces st) + 1]
         else if lex_peek (buffer_text b) (lex_pos st) 0 = CHR ''}'' then butlast (substitutionBraces st) @ [last (substitutionBraces st) - 1]
         else substitutionBraces st)"
      "lex_one b tokens st = lexPunctuation b (st\<lparr>substitutionBraces := braces\<rparr>)"
proof -
  let ?txt = "buffer_text b" let ?c = "lex_peek ?txt (lex_pos st) 0"
  obtain cp len where d: "(if byte ?c < 0x80 then (byte ?c, 1) else decodeUtf8 ?txt (lex_pos st)) = (cp, len)" by fastforce
  obtain cp1 len1 where d1: "decodeUtf8 ?txt (lex_pos st + 1) = (cp1, len1)" by fastforce
  have same: "st\<lparr>substitutionBraces := []\<rparr> = st" if "substitutionBraces st = []" using that by (cases st) simp
  note eq = lex_one_def [of b tokens st, unfolded Let_def d d1 prod.case]
  show thesis
  proof (cases "len > 0 \<and> isIdentStart cp")
    case True
    then show ?thesis using eq d by (intro identifier_case) (simp_all add: starts_identifier_def)
  next
    case no_name: False
    show ?thesis
    proof (cases "?c = CHR ''#'' \<and> len1 > 0 \<and> isIdentStart cp1")
      case True
      then show ?thesis using eq d1 no_name by (intro private_name) simp_all
    next
      case False
      consider "?c = CHR ''#''" | "isDigit ?c \<or> (?c = CHR ''.'' \<and> isDigit (lex_peek ?txt (lex_pos st) 1))" | "?c \<in> {CHR 0x22, CHR 0x27}"
        | "?c = CHR 0x60" | "?c = CHR ''/''" "regexAllowedAfter tokens"
        | "?c = CHR ''}''" "substitutionBraces st \<noteq> []" "last (substitutionBraces st) = 0"
        | "?c \<noteq> CHR ''#''" "\<not> (isDigit ?c \<or> (?c = CHR ''.'' \<and> isDigit (lex_peek ?txt (lex_pos st) 1)))" "?c \<notin> {CHR 0x22, CHR 0x27, CHR 0x60}"
          "\<not> (?c = CHR ''/'' \<and> regexAllowedAfter tokens)" "\<not> (?c = CHR ''}'' \<and> substitutionBraces st \<noteq> [] \<and> last (substitutionBraces st) = 0)"
        by fastforce
      then show ?thesis
      proof cases
        case 1
        then have "lex_one b tokens st = lexPunctuation b st" using eq no_name False by auto
        then show ?thesis using 1 by (intro punctuator) (auto simp: same)
      next
        case 2
        then show ?thesis using eq no_name by (intro number) (auto simp: isDigit_def)
      next
        case 3
        then show ?thesis using eq no_name by (intro quoted) (auto simp: isDigit_def)
      next
        case 4
        then show ?thesis using eq no_name by (intro template) (auto simp: isDigit_def)
      next
        case 5
        then show ?thesis using eq no_name by (intro regexp) (auto simp: isDigit_def)
      next
        case 6
        then show ?thesis using eq no_name by (intro resume) (auto simp: isDigit_def)
      next
        case 7
        then show ?thesis using eq no_name by (intro punctuator [OF _ refl]) (auto simp: same)
      qed
    qed
  qed
qed

lemma lex_one_progress: "lex_pos st < lex_pos (snd (lex_one b tokens st))"
proof (cases rule: lex_one_cases [of b st tokens])
  case identifier_case
  then show ?thesis using identifier_end_progress by (simp add: lexIdentifierOrKeyword_def Let_def)
next
  case private_name
  then show ?thesis using identifier_end_forward [of "lex_pos st + 1" "buffer_text b"] by (simp add: lexPrivateName_def Let_def)
next
  case number
  then show ?thesis using number_end_progress by (simp add: lexNumber_def Let_def)
next
  case resume
  then show ?thesis using lexTemplatePart_progress [of "st\<lparr>substitutionBraces := butlast (substitutionBraces st)\<rparr>"] by simp
next
  case (punctuator braces)
  then show ?thesis using lexPunctuation_progress [of "st\<lparr>substitutionBraces := braces\<rparr>"] by simp
qed (simp_all add: lexString_progress lexTemplatePart_progress lexRegExp_progress)

function lex_loop :: "SourceBuffer \<Rightarrow> Token list \<Rightarrow> lexer \<Rightarrow> Token list \<times> bool \<times> lexer" where
  "lex_loop b tokens st =
     (case skipTrivia b st of (newline, st1) \<Rightarrow>
        if lex_atEnd (buffer_text b) (lex_pos st1) \<or> hasErrors (lex_diags st1) then (tokens, newline, st1)
        else
          (case lex_one b tokens st1 of (t, st2) \<Rightarrow> lex_loop b (tokens @ [t\<lparr>newlineBefore := newline\<rparr>]) st2))"
  by pat_completeness auto
termination
proof (relation "measure (\<lambda>(b, tokens, st). length (buffer_text b) - lex_pos st)", goal_cases)
  case (2 b tokens st newline st1 t st2)
  have "lex_pos st \<le> lex_pos st1" using skipTrivia_forward [of st b] unfolding 2(1) [symmetric] by simp
  moreover have "lex_pos st1 < lex_pos st2" using lex_one_progress [of st1 b tokens] unfolding 2(3) [symmetric] by simp
  ultimately show ?case using 2(2) by (auto simp: lex_atEnd_def)
qed simp

declare lex_loop.simps [simp del]

text \<open>The hashbang comment, which ends before its line terminator.\<close>

definition hashbang_end :: "string \<Rightarrow> nat" where
  "hashbang_end txt =
     (if lex_peek txt 0 0 = CHR ''#'' \<and> lex_peek txt 0 1 = CHR ''!''
      then advance_while (\<lambda>c. c \<noteq> CHR 0x0A \<and> c \<noteq> CHR 0x0D) txt 0 else 0)"

definition lex :: "SourceBuffer \<Rightarrow> DiagnosticSink \<Rightarrow> Token list \<times> lexer" where
  "lex b diags =
     (case lex_loop b [] \<lparr>lex_pos = hashbang_end (buffer_text b), substitutionBraces = [], lex_diags = diags\<rparr> of
        (tokens, newline, st) \<Rightarrow>
          (tokens @ [\<lparr>tok_kind = EndOfFile, tok_span = here b (lex_pos st) (lex_pos st), tok_text = [], newlineBefore = newline\<rparr>], st))"

end
