(* ===== verification/Lexer_Facts.thy ===== *)
theory Lexer_Facts
  imports Lexer "HOL-Library.Sublist"
begin

text \<open>
  What the lexer answers (\<open>src/src/lex/lexer.cpp\<close>): the tokens and the trivia between them lay out the source,
  punctuation is the longest that matches, keywords and punctuation are spelled as \<open>tokenKindName\<close> says, and
  template parts nest; and where it departs from its comments.
\<close>

section \<open>Inside the text\<close>

lemma peek_inside: "lex_peek txt pos k \<noteq> CHR 0x00 \<Longrightarrow> pos + k < length txt \<and> txt ! (pos + k) = lex_peek txt pos k"
  by (auto simp: lex_peek_def split: if_splits)

lemma identifier_end_inside: "pos \<le> length txt \<Longrightarrow> identifier_end txt pos \<le> length txt"
proof (induction "txt" pos rule: identifier_end.induct)
  case (1 t pos)
  let ?c = "lex_peek t pos 0"
  obtain cp len where d: "decodeUtf8 t pos = (cp, len)" by fastforce
  show ?case
  proof (cases "?c \<noteq> CHR 0x00 \<and> byte ?c < 0x80")
    case True
    then have "pos + 1 \<le> length t" using peek_inside [of t pos 0] by simp
    then show ?thesis using 1 True by (subst identifier_end.simps) (simp add: Let_def)
  next
    case False
    have "pos + len \<le> length t" if "0 < len" using decoded_encoding(3) [OF d that] .
    then show ?thesis using 1 False d by (subst identifier_end.simps) (auto simp: Let_def)
  qed
qed

lemma takeDigits_inside: "pos \<le> length txt \<Longrightarrow> takeDigits P txt pos \<le> length txt"
  unfolding takeDigits_def by (rule advance_while_spec(1))

lemma suffix_end_inside: "pos \<le> length txt \<Longrightarrow> suffix_end txt pos \<le> length txt"
  using peek_inside [of "txt" pos 0] by (auto simp: suffix_end_def)

lemma exponent_inside: "exponent_at txt pos 0 \<Longrightarrow> pos + 2 \<le> length txt"
proof -
  assume "exponent_at txt pos 0"
  then have "lex_peek txt pos 1 \<noteq> CHR 0x00" by (auto simp: exponent_at_def startsExponent_def isDigit_def)
  then show ?thesis using peek_inside [of "txt" pos 1] by simp
qed

lemma number_end_inside:
  assumes "pos \<le> length txt"
  shows "number_end txt pos \<le> length txt"
proof (cases "lex_peek txt pos 0 = CHR ''0'' \<and> lex_peek txt pos 1 \<in> set ''xXoObB''")
  case True
  then have "pos + 2 \<le> length txt" using peek_inside [of "txt" pos 1] by auto
  then show ?thesis using True by (simp add: number_end_def suffix_end_inside takeDigits_inside)
next
  case False
  let ?p1 = "takeDigits isDigit txt pos"
  have p1: "?p1 \<le> length txt" using assms by (rule takeDigits_inside)
  have dot: "takeDigits isDigit txt (?p1 + 1) \<le> length txt" if "lex_peek txt ?p1 0 = CHR ''.''"
    using peek_inside [of "txt" ?p1 0] that by (intro takeDigits_inside) simp
  have exponent: "takeDigits isDigit txt (p + 2) \<le> length txt" if "exponent_at txt p 0" for p
    by (rule takeDigits_inside [OF exponent_inside [OF that]])
  obtain cp len where d: "decodeUtf8 txt (?p1 + 1) = (cp, len)" by fastforce
  show ?thesis
    unfolding number_end_def if_not_P [OF False] Let_def d prod.case using p1 dot exponent by (intro suffix_end_inside) auto
qed

lemma template_end_inside: "template_end txt pos = (stop, p) \<Longrightarrow> stop \<noteq> Unterminated \<Longrightarrow> p \<le> length txt"
proof (induction "txt" pos rule: template_end.induct)
  case (1 t pos)
  show ?case
    using "1.prems" "1.IH" peek_inside [of t pos 1]
    by (subst (asm) template_end.simps) (auto simp: Let_def lex_atEnd_def split: if_splits)
qed

lemma regexp_end_inside: "regexp_end txt inClass pos = (True, p) \<Longrightarrow> p < length txt"
proof (induction "txt" inClass pos rule: regexp_end.induct)
  case (1 t inClass pos)
  show ?case
    using "1.prems" "1.IH" by (subst (asm) regexp_end.simps) (auto simp: Let_def lex_atEnd_def split: if_splits)
qed

lemma punctuation_inside: "punctuation txt pos = Some (p, n) \<Longrightarrow> pos + n \<le> length txt"
  using peek_inside [of "txt" pos 0] peek_inside [of "txt" pos 1] peek_inside [of "txt" pos 2] peek_inside [of "txt" pos 3]
  by (simp add: punctuation_def Let_def split: if_splits)

section \<open>One token\<close>

lemma sink_error_errors [simp]: "hasErrors (sink_error span msg diags)"
  by (simp add: hasErrors_def sink_error_def)

lemma report_simps [simp]:
  "lex_pos (report b i j msg st) = lex_pos st" "substitutionBraces (report b i j msg st) = substitutionBraces st"
  "hasErrors (lex_diags (report b i j msg st))"
  by (simp_all add: report_def)

text \<open>A token as it comes: it is cut from the text between the positions of the lexer, and where no error is reported it
  ends inside the text and is not the end of the file.\<close>

definition cut_from :: "SourceBuffer \<Rightarrow> lexer \<Rightarrow> Token \<times> lexer \<Rightarrow> bool" where
  "cut_from b st r \<longleftrightarrow>
     (\<exists>k. fst r = make_token b k (lex_pos st) (lex_pos (snd r)) \<and>
          (\<not> hasErrors (lex_diags (snd r)) \<longrightarrow> k \<noteq> EndOfFile \<and> lex_pos (snd r) \<le> length (buffer_text b)))"

lemma cut_fromI:
  "t = make_token b k (lex_pos st) (lex_pos st1) \<Longrightarrow>
   (\<not> hasErrors (lex_diags st1) \<Longrightarrow> k \<noteq> EndOfFile \<and> lex_pos st1 \<le> length (buffer_text b)) \<Longrightarrow> cut_from b st (t, st1)"
  by (auto simp: cut_from_def)

lemma lexPunctuation_cut: "cut_from b st (lexPunctuation b st)"
  by (cases "punctuation (buffer_text b) (lex_pos st)")
    (auto simp: lexPunctuation_def Let_def intro!: cut_fromI dest: punctuation_inside)

lemma lexTemplatePart_cut: "cut_from b st (lexTemplatePart b isHead st)"
proof -
  obtain stop pos where t: "template_end (buffer_text b) (lex_pos st + 1) = (stop, pos)" by fastforce
  then show ?thesis
    using template_end_inside [OF t] by (cases stop) (auto simp: lexTemplatePart_def Let_def intro!: cut_fromI)
qed

lemma lexString_cut: "cut_from b st (lexString b st)"
  by (auto simp: lexString_def Let_def lex_atEnd_def intro!: cut_fromI)

lemma lexRegExp_cut: "cut_from b st (lexRegExp b st)"
proof -
  obtain closed pos where t: "regexp_end (buffer_text b) False (lex_pos st + 1) = (closed, pos)" by fastforce
  have "advance_while P (buffer_text b) (pos + 1) \<le> length (buffer_text b)" if closed for P
    using regexp_end_inside [of "buffer_text b" False "lex_pos st + 1" pos] t that by (intro advance_while_spec(1)) simp
  then show ?thesis using t by (cases closed) (auto simp: lexRegExp_def Let_def intro!: cut_fromI)
qed

lemma lex_one_cut:
  assumes "lex_pos st < length (buffer_text b)"
  shows "cut_from b st (lex_one b tokens st)"
proof (cases rule: lex_one_cases [of b st tokens])
  case identifier_case
  then show ?thesis
    using identifier_end_inside [of "lex_pos st" "buffer_text b"] assms
    by (auto simp: lexIdentifierOrKeyword_def Let_def intro!: cut_fromI split: option.split)
next
  case private_name
  then show ?thesis
    using identifier_end_inside [of "lex_pos st + 1" "buffer_text b"] assms by (auto simp: lexPrivateName_def Let_def intro!: cut_fromI)
next
  case number
  then show ?thesis
    using number_end_inside [of "lex_pos st" "buffer_text b"] assms by (auto simp: lexNumber_def Let_def intro!: cut_fromI)
next
  case resume
  then show ?thesis
    using lexTemplatePart_cut [of b "st\<lparr>substitutionBraces := butlast (substitutionBraces st)\<rparr>"] by (simp add: cut_from_def)
next
  case (punctuator braces)
  then show ?thesis using lexPunctuation_cut [of b "st\<lparr>substitutionBraces := braces\<rparr>"] by (simp add: cut_from_def)
qed (simp_all add: lexString_cut lexTemplatePart_cut lexRegExp_cut)

text \<open>Errors stay.\<close>

lemma report_keeps: "hasErrors (lex_diags st) \<Longrightarrow> hasErrors (lex_diags (st\<lparr>lex_pos := p\<rparr>))"
  by simp

lemma lex_one_keeps: "hasErrors (lex_diags st) \<Longrightarrow> hasErrors (lex_diags (snd (lex_one b tokens st)))"
  by (cases rule: lex_one_cases [of b st tokens])
    (simp_all add: lexIdentifierOrKeyword_def lexPrivateName_def lexNumber_def lexString_def lexTemplatePart_def lexRegExp_def lexPunctuation_def
      Let_def split: prod.split template_stop.split bool.split option.split)

lemma lex_loop_keeps: "lex_loop b tokens st = (r, nl, st1) \<Longrightarrow> hasErrors (lex_diags st) \<Longrightarrow> hasErrors (lex_diags st1)"
  by (subst (asm) lex_loop.simps)
    (auto simp: skipTrivia_def split: prod.splits option.splits)

section \<open>The layout of a source\<close>

text \<open>Tokens that lay a source out from a position on: trivia before each, holding a line terminator exactly when the
  token says so, the text of each cut from its span, each span after the one before, and the end of the
  file at the end of the text and nowhere else.\<close>

fun laid_out :: "SourceBuffer \<Rightarrow> nat \<Rightarrow> Token list \<Rightarrow> bool" where
  "laid_out b p [] \<longleftrightarrow> False"
| "laid_out b p [t] \<longleftrightarrow>
     tok_kind t = EndOfFile \<and> tok_span t = here b (length (buffer_text b)) (length (buffer_text b)) \<and> tok_text t = [] \<and>
     trivia (buffer_text b) p (length (buffer_text b)) (newlineBefore t)"
| "laid_out b p (t # u # ts) \<longleftrightarrow>
     (let i = span_begin (tok_span t); j = span_end (tok_span t)
      in tok_kind t \<noteq> EndOfFile \<and> span_file (tok_span t) = fileId b \<and> i < j \<and> j \<le> length (buffer_text b) \<and>
         tok_text t = take (j - i) (drop i (buffer_text b)) \<and> trivia (buffer_text b) p i (newlineBefore t) \<and> laid_out b j (u # ts))"

lemma skipTrivia_sound:
  assumes "skipTrivia b st = (nl, st1)" and "\<not> hasErrors (lex_diags st1)" and "lex_pos st \<le> length (buffer_text b)"
  shows "trivia (buffer_text b) (lex_pos st) (lex_pos st1) nl" and "lex_pos st1 \<le> length (buffer_text b)"
proof -
  obtain saw pos e where t: "trivia_loop (buffer_text b) (lex_pos st) False = (saw, pos, e)" by (metis prod.exhaust)
  have "e = None" "nl = saw" "lex_pos st1 = pos"
    using assms(1,2) t by (auto simp: skipTrivia_def split: option.splits)
  then show "trivia (buffer_text b) (lex_pos st) (lex_pos st1) nl" and "lex_pos st1 \<le> length (buffer_text b)"
    using trivia_loop_sound [of "buffer_text b" "lex_pos st" False saw pos] t assms(3) by auto
qed

definition eof_token :: "SourceBuffer \<Rightarrow> nat \<Rightarrow> bool \<Rightarrow> Token" where
  "eof_token b pos nl = \<lparr>tok_kind = EndOfFile, tok_span = here b pos pos, tok_text = [], newlineBefore = nl\<rparr>"

lemma lex_loop_lays_out:
  assumes "lex_loop b tokens st = (r, nl, st1)" and "\<not> hasErrors (lex_diags st1)" and "lex_pos st \<le> length (buffer_text b)"
  shows "\<exists>new. r = tokens @ new \<and> laid_out b (lex_pos st) (new @ [eof_token b (lex_pos st1) nl])"
  using assms
proof (induction b tokens st rule: lex_loop.induct)
  case (1 b tokens st)
  obtain nl0 s0 where skip: "skipTrivia b st = (nl0, s0)" by fastforce
  show ?case
  proof (cases "lex_atEnd (buffer_text b) (lex_pos s0) \<or> hasErrors (lex_diags s0)")
    case True
    then have "r = tokens" "nl = nl0" "st1 = s0" using "1.prems"(1) skip by (simp_all add: lex_loop.simps [of b tokens st])
    moreover from this have "trivia (buffer_text b) (lex_pos st) (lex_pos st1) nl" "lex_pos st1 \<le> length (buffer_text b)"
      using skipTrivia_sound [OF skip] "1.prems"(2,3) by simp_all
    ultimately show ?thesis using True "1.prems"(2) by (auto simp: lex_atEnd_def eof_token_def)
  next
    case False
    obtain t s2 where one: "lex_one b tokens s0 = (t, s2)" by fastforce
    let ?t = "t\<lparr>newlineBefore := nl0\<rparr>"
    have rec: "lex_loop b (tokens @ [?t]) s2 = (r, nl, st1)" using "1.prems"(1) skip one False by (simp add: lex_loop.simps [of b tokens st])
    have ok: "\<not> hasErrors (lex_diags s2)" using lex_loop_keeps [OF rec] "1.prems"(2) by blast
    have start: "trivia (buffer_text b) (lex_pos st) (lex_pos s0) nl0"
      using skipTrivia_sound(1) [OF skip] False "1.prems"(3) by simp
    have "cut_from b s0 (t, s2)" using lex_one_cut [of s0 b tokens] False one by (simp add: lex_atEnd_def not_le)
    then obtain k where k: "t = make_token b k (lex_pos s0) (lex_pos s2)" "k \<noteq> EndOfFile" "lex_pos s2 \<le> length (buffer_text b)"
      using ok by (auto simp: cut_from_def)
    have "lex_pos s0 < lex_pos s2" using lex_one_progress [of s0 b tokens] one by simp
    obtain new where new: "r = (tokens @ [?t]) @ new" "laid_out b (lex_pos s2) (new @ [eof_token b (lex_pos st1) nl])"
      using "1.IH" [OF skip [symmetric] False one [symmetric] rec "1.prems"(2) k(3)] by blast
    obtain u us where us: "new @ [eof_token b (lex_pos st1) nl] = u # us" by (cases "new @ [eof_token b (lex_pos st1) nl]") auto
    have "laid_out b (lex_pos st) ((?t # new) @ [eof_token b (lex_pos st1) nl])"
      using new(2) k start \<open>lex_pos s0 < lex_pos s2\<close> unfolding append_Cons us by (simp add: make_token_def here_def)
    then show ?thesis using new(1) by (intro exI [of _ "?t # new"]) simp
  qed
qed

lemma hashbang_inside: "hashbang_end txt \<le> length txt"
  using advance_while_spec(1) [of 0 "txt"] by (simp add: hashbang_end_def)

section \<open>Spelling\<close>

text \<open>The punctuation, longest first, and the reference: the first of it that the text begins with, where \<open>?.\<close> is not
  one before a digit.\<close>

definition longest_first :: "Punctuator list" where
  "longest_first =
     [GreaterGreaterGreaterAssign, Ellipsis, EqualEqualEqual, BangEqualEqual, GreaterGreaterGreater,
      LessLessAssign, GreaterGreaterAssign, StarStarAssign, PipePipeAssign, AmpAmpAssign, QuestionQuestionAssign,
      Arrow, LessEqual, GreaterEqual, EqualEqual, BangEqual, AmpAmp, PipePipe, QuestionQuestion, QuestionDot,
      PlusPlus, MinusMinus, PlusAssign, MinusAssign, StarAssign, SlashAssign, PercentAssign, LessLess,
      GreaterGreater, AmpAssign, PipeAssign, CaretAssign, StarStar, LParen, RParen, LBrace, RBrace, LBracket,
      RBracket, Comma, Semicolon, Colon, Dot, Assign, Plus, Minus, Star, Slash, Percent, Less, Greater, Question,
      Bang, Amp, Pipe, Caret, Tilde]"

definition begins_with :: "string \<Rightarrow> Punctuator \<Rightarrow> bool" where
  "begins_with s p \<longleftrightarrow> prefix (punctuatorName p) s \<and> \<not> (p = QuestionDot \<and> length s > 2 \<and> isDigit (s ! 2))"

definition longest_punctuation :: "string \<Rightarrow> (Punctuator \<times> nat) option" where
  "longest_punctuation s = map_option (\<lambda>p. (p, length (punctuatorName p))) (find (begins_with s) longest_first)"

lemma longest_first_order: "sorted_wrt (\<lambda>p q. length (punctuatorName q) \<le> length (punctuatorName p)) longest_first"
  by code_simp

lemma longest_first_all: "p \<in> set longest_first"
  by (cases p) (simp_all add: longest_first_def)

lemma peek_drop: "lex_peek txt pos k = (if k < length (drop pos txt) then drop pos txt ! k else CHR 0x00)"
  by (cases "pos \<le> length txt") (auto simp: lex_peek_def)

lemma prefix_peek:
  "b \<noteq> CHR 0x00 \<Longrightarrow> prefix (b # name) (drop pos txt) \<longleftrightarrow> lex_peek txt pos 0 = b \<and> prefix name (drop (Suc pos) txt)"
  by (cases "drop pos txt") (auto simp: peek_drop drop_Suc tl_drop [symmetric])

lemma peek_Suc: "lex_peek txt (Suc pos) k = lex_peek txt pos (Suc k)"
  by (simp add: lex_peek_def)

lemma begins_with_peek:
  "begins_with (drop pos txt) p \<longleftrightarrow> prefix (punctuatorName p) (drop pos txt) \<and> \<not> (p = QuestionDot \<and> isDigit (lex_peek txt pos 2))"
  by (auto simp: begins_with_def peek_drop isDigit_def)

lemma find_filter: "(\<And>x. P x \<Longrightarrow> Q x) \<Longrightarrow> find P xs = find P (filter Q xs)"
  by (induction xs) auto

lemma find_none: "(\<And>x. x \<in> set xs \<Longrightarrow> \<not> P x) \<Longrightarrow> find P xs = None"
  by (simp add: find_None_iff)

text \<open>The candidates for a first character.\<close>

definition candidates :: "char \<Rightarrow> Punctuator list" where
  "candidates c = filter (\<lambda>p. hd (punctuatorName p) = c) longest_first"

lemma name_first: "punctuatorName p = hd (punctuatorName p) # tl (punctuatorName p)" "hd (punctuatorName p) \<noteq> CHR 0x00"
  by (cases p; simp)+

lemma longest_candidates:
  "longest_punctuation (drop pos txt) =
     map_option (\<lambda>p. (p, length (punctuatorName p))) (find (begins_with (drop pos txt)) (candidates (lex_peek txt pos 0)))"
proof -
  have "hd (punctuatorName p) = lex_peek txt pos 0" if "begins_with (drop pos txt) p" for p
    using that name_first [of p] prefix_peek [of "hd (punctuatorName p)" "tl (punctuatorName p)" pos "txt"] by (simp add: begins_with_peek)
  then show ?thesis unfolding longest_punctuation_def candidates_def by (subst find_filter) auto
qed

lemma candidates_for:
  shows
    "candidates CHR ''('' = [LParen]"
    "candidates CHR '')'' = [RParen]"
    "candidates CHR ''{'' = [LBrace]"
    "candidates CHR ''}'' = [RBrace]"
    "candidates CHR ''['' = [LBracket]"
    "candidates CHR '']'' = [RBracket]"
    "candidates CHR '','' = [Comma]"
    "candidates CHR '';'' = [Semicolon]"
    "candidates CHR '':'' = [Colon]"
    "candidates CHR ''.'' = [Ellipsis, Dot]"
    "candidates CHR ''?'' = [QuestionQuestionAssign, QuestionQuestion, QuestionDot, Question]"
    "candidates CHR ''&'' = [AmpAmpAssign, AmpAmp, AmpAssign, Amp]"
    "candidates CHR ''|'' = [PipePipeAssign, PipePipe, PipeAssign, Pipe]"
    "candidates CHR ''^'' = [CaretAssign, Caret]"
    "candidates CHR ''~'' = [Tilde]"
    "candidates CHR ''+'' = [PlusPlus, PlusAssign, Plus]"
    "candidates CHR ''-'' = [MinusMinus, MinusAssign, Minus]"
    "candidates CHR ''*'' = [StarStarAssign, StarAssign, StarStar, Star]"
    "candidates CHR ''/'' = [SlashAssign, Slash]"
    "candidates CHR ''%'' = [PercentAssign, Percent]"
    "candidates CHR ''<'' = [LessLessAssign, LessEqual, LessLess, Less]"
    "candidates CHR ''>'' = [GreaterGreaterGreaterAssign, GreaterGreaterGreater, GreaterGreaterAssign, GreaterEqual, GreaterGreater, Greater]"
    "candidates CHR ''='' = [EqualEqualEqual, Arrow, EqualEqual, Assign]"
    "candidates CHR ''!'' = [BangEqualEqual, BangEqual, Bang]"
  by code_simp+

definition punctuation_characters :: string where
  "punctuation_characters = ''(){}[],;:.?&|^~+-*/%<>=!''"

lemma candidates_none: "c \<notin> set punctuation_characters \<Longrightarrow> candidates c = []"
proof -
  have "hd (punctuatorName p) \<in> set punctuation_characters" for p by (cases p) (simp_all add: punctuation_characters_def)
  then show "c \<notin> set punctuation_characters \<Longrightarrow> candidates c = []" by (auto simp: candidates_def filter_empty_conv)
qed

lemma punctuation_agrees: "punctuation txt pos = longest_punctuation (drop pos txt)"
proof (cases "lex_peek txt pos 0 \<in> set punctuation_characters")
  case True
  note rules = punctuation_def longest_candidates candidates_for begins_with_peek prefix_peek peek_Suc numeral_2_eq_2 numeral_3_eq_3 Let_def
  show ?thesis
    using True unfolding punctuation_characters_def by (simp only: list.set insert_iff empty_iff, elim disjE) (simp_all add: rules)
next
  case False
  then show ?thesis
    using candidates_none [OF False] by (simp add: punctuation_def longest_candidates punctuation_characters_def)
qed

text \<open>A token spelled as \<open>tokenKindName\<close> says, where it says so: keywords and punctuation; and no identifier is a keyword.\<close>

definition spelled :: "Token \<Rightarrow> bool" where
  "spelled t \<longleftrightarrow>
     (case tok_kind t of
        Keyword k \<Rightarrow> tok_text t = tokenKindName (Keyword k)
      | Punctuator p \<Rightarrow> tok_text t = tokenKindName (Punctuator p)
      | Identifier \<Rightarrow> \<forall>k. tok_text t \<noteq> tokenKindName (Keyword k)
      | _ \<Rightarrow> True)"

lemma keyword_table: "map_of kKeywords name = Some k \<longleftrightarrow> name = keywordName k"
proof
  have "list_all (\<lambda>(s, k). s = keywordName k) kKeywords" by code_simp
  then show "name = keywordName k" if "map_of kKeywords name = Some k" using map_of_SomeD [OF that] by (auto simp: list_all_iff)
  show "map_of kKeywords name = Some k" if "name = keywordName k" unfolding that by (cases k) (simp_all add: kKeywords_def)
qed

lemma spelled_make:
  "(\<And>q. k \<noteq> Punctuator q) \<Longrightarrow> (\<And>q. k \<noteq> Keyword q) \<Longrightarrow> k \<noteq> Identifier \<Longrightarrow> spelled (make_token b k start pos)"
  by (cases k) (auto simp: spelled_def make_token_def)

lemma lexPunctuation_spelled: "spelled (fst (lexPunctuation b st))"
proof (cases "punctuation (buffer_text b) (lex_pos st)")
  case None
  then show ?thesis by (simp add: lexPunctuation_def Let_def spelled_make)
next
  case (Some r)
  obtain p n where r: "r = (p, n)" by (cases r)
  obtain q where "begins_with (drop (lex_pos st) (buffer_text b)) q" "p = q" "n = length (punctuatorName q)"
    using Some r unfolding punctuation_agrees longest_punctuation_def by (auto simp: find_Some_iff)
  then have "take n (drop (lex_pos st) (buffer_text b)) = punctuatorName p" by (auto simp: begins_with_def prefix_def)
  then show ?thesis using Some r by (simp add: lexPunctuation_def Let_def spelled_def make_token_def)
qed

lemma others_spelled:
  "spelled (fst (lexPrivateName b st))" "spelled (fst (lexNumber b st))" "spelled (fst (lexString b st))"
  "spelled (fst (lexTemplatePart b isHead st))" "spelled (fst (lexRegExp b st))"
proof -
  show "spelled (fst (lexPrivateName b st))" "spelled (fst (lexNumber b st))" "spelled (fst (lexString b st))"
    by (simp_all add: lexPrivateName_def lexNumber_def lexString_def Let_def spelled_make)
  obtain stop pos where "template_end (buffer_text b) (lex_pos st + 1) = (stop, pos)" by fastforce
  then show "spelled (fst (lexTemplatePart b isHead st))"
    by (cases stop; cases isHead) (simp_all add: lexTemplatePart_def Let_def spelled_make)
  obtain closed pos where "regexp_end (buffer_text b) False (lex_pos st + 1) = (closed, pos)" by fastforce
  then show "spelled (fst (lexRegExp b st))" by (cases closed) (simp_all add: lexRegExp_def Let_def spelled_make)
qed

lemma lexIdentifierOrKeyword_spelled: "spelled (fst (lexIdentifierOrKeyword b st))"
proof -
  define name where "name = take (identifier_end (buffer_text b) (lex_pos st) - lex_pos st) (drop (lex_pos st) (buffer_text b))"
  have t: "fst (lexIdentifierOrKeyword b st) =
      make_token b (case map_of kKeywords name of Some kw \<Rightarrow> Keyword kw | None \<Rightarrow> Identifier) (lex_pos st) (identifier_end (buffer_text b) (lex_pos st))"
    by (simp add: lexIdentifierOrKeyword_def Let_def name_def)
  have m: "tok_text (make_token b k (lex_pos st) (identifier_end (buffer_text b) (lex_pos st))) = name" for k
    by (simp add: make_token_def name_def)
  have k: "tok_kind (make_token b k i j) = k" for k i j by (simp add: make_token_def)
  show ?thesis
  proof (cases "map_of kKeywords name")
    case None
    then have "name \<noteq> keywordName k" for k using keyword_table [of name k] by simp
    then show ?thesis unfolding t None option.case spelled_def k m by simp
  next
    case (Some kw)
    then have "name = keywordName kw" by (simp only: keyword_table)
    then show ?thesis unfolding t Some option.case spelled_def k m by simp
  qed
qed

lemma lex_one_spelled: "spelled (fst (lex_one b tokens st))"
proof (cases rule: lex_one_cases [of b st tokens])
  case identifier_case
  show ?thesis unfolding identifier_case(2) by (rule lexIdentifierOrKeyword_spelled)
next
  case private_name
  show ?thesis unfolding private_name(3) by (rule others_spelled)
next
  case number
  show ?thesis unfolding number(2) by (rule others_spelled)
next
  case quoted
  show ?thesis unfolding quoted(2) by (rule others_spelled)
next
  case template
  show ?thesis unfolding template(2) by (rule others_spelled)
next
  case regexp
  show ?thesis unfolding regexp(3) by (rule others_spelled)
next
  case resume
  show ?thesis unfolding resume(4) by (rule others_spelled)
next
  case (punctuator braces)
  show ?thesis unfolding punctuator(3) by (rule lexPunctuation_spelled)
qed

text \<open>An invariant of the tokens that \<open>newlineBefore\<close> plays no part in.\<close>

lemma lex_loop_all:
  assumes "lex_loop b tokens st = (r, nl, st1)" and "\<And>t nl. P t \<Longrightarrow> P (t\<lparr>newlineBefore := nl\<rparr>)" and "\<And>tokens st. P (fst (lex_one b tokens st))"
    and "\<forall>t \<in> set tokens. P t"
  shows "\<forall>t \<in> set r. P t"
  using assms
proof (induction b tokens st rule: lex_loop.induct)
  case (1 b tokens st)
  obtain nl0 s0 where skip: "skipTrivia b st = (nl0, s0)" by fastforce
  show ?case
  proof (cases "lex_atEnd (buffer_text b) (lex_pos s0) \<or> hasErrors (lex_diags s0)")
    case True
    then show ?thesis using "1.prems"(1,4) skip by (simp add: lex_loop.simps [of b tokens st])
  next
    case False
    obtain t s2 where one: "lex_one b tokens s0 = (t, s2)" by fastforce
    have rec: "lex_loop b (tokens @ [t\<lparr>newlineBefore := nl0\<rparr>]) s2 = (r, nl, st1)"
      using "1.prems"(1) skip one False by (simp add: lex_loop.simps [of b tokens st])
    have "P (fst (lex_one b tokens s0))" by (rule "1.prems"(3))
    then have "P (t\<lparr>newlineBefore := nl0\<rparr>)" unfolding one fst_conv by (rule "1.prems"(2))
    then have "\<forall>t \<in> set (tokens @ [t\<lparr>newlineBefore := nl0\<rparr>]). P t" using "1.prems"(4) by auto
    with "1.prems"(2,3) show ?thesis by (rule "1.IH" [OF skip [symmetric] False one [symmetric] rec])
  qed
qed

section \<open>Templates\<close>

text \<open>The braces open in each template substitution, the innermost last, as the tokens say: a head opens a substitution,
  a middle part or a tail may come only where every brace of the innermost substitution is closed, and there
  a \<open>}\<close> may not come.\<close>

definition brace_step :: "TokenKind \<Rightarrow> nat list \<Rightarrow> nat list option" where
  "brace_step k braces =
     (if k = TemplateHead then Some (braces @ [0])
      else if k = TemplateMiddle then (if braces \<noteq> [] \<and> last braces = 0 then Some braces else None)
      else if k = TemplateTail then (if braces \<noteq> [] \<and> last braces = 0 then Some (butlast braces) else None)
      else if braces = [] then Some []
      else if k = Punctuator LBrace then Some (butlast braces @ [last braces + 1])
      else if k = Punctuator RBrace then (if last braces = 0 then None else Some (butlast braces @ [last braces - 1]))
      else Some braces)"

definition braces_after :: "Token list \<Rightarrow> nat list option" where
  "braces_after tokens = fold (\<lambda>t braces. Option.bind braces (brace_step (tok_kind t))) tokens (Some [])"

lemma braces_after_snoc: "braces_after (tokens @ [t]) = Option.bind (braces_after tokens) (brace_step (tok_kind t))"
  by (simp add: braces_after_def)

lemma brace_step_other:
  "k \<noteq> TemplateHead \<Longrightarrow> k \<noteq> TemplateMiddle \<Longrightarrow> k \<noteq> TemplateTail \<Longrightarrow> k \<noteq> Punctuator LBrace \<Longrightarrow> k \<noteq> Punctuator RBrace \<Longrightarrow>
   brace_step k braces = Some braces"
  by (simp add: brace_step_def)

lemma brace_characters:
  "punctuation txt pos = Some (p, n) \<Longrightarrow> (p = LBrace \<longleftrightarrow> lex_peek txt pos 0 = CHR ''{'') \<and> (p = RBrace \<longleftrightarrow> lex_peek txt pos 0 = CHR ''}'')"
  by (auto simp: punctuation_def Let_def split: if_splits)

lemma lexPunctuation_braces:
  assumes "lexPunctuation b (st\<lparr>substitutionBraces := braces\<rparr>) = (t, st1)" and "\<not> hasErrors (lex_diags st1)"
    and "lex_peek (buffer_text b) (lex_pos st) 0 = CHR ''}'' \<Longrightarrow> substitutionBraces st \<noteq> [] \<Longrightarrow> last (substitutionBraces st) \<noteq> 0"
    and "braces = (if substitutionBraces st = [] then []
         else if lex_peek (buffer_text b) (lex_pos st) 0 = CHR ''{'' then butlast (substitutionBraces st) @ [last (substitutionBraces st) + 1]
         else if lex_peek (buffer_text b) (lex_pos st) 0 = CHR ''}'' then butlast (substitutionBraces st) @ [last (substitutionBraces st) - 1]
         else substitutionBraces st)"
  shows "brace_step (tok_kind t) (substitutionBraces st) = Some (substitutionBraces st1)"
proof (cases "punctuation (buffer_text b) (lex_pos st)")
  case None
  then have "hasErrors (lex_diags st1)" using assms(1) by (auto simp: lexPunctuation_def Let_def)
  then show ?thesis using assms(2) by simp
next
  case (Some r)
  obtain p n where r: "r = (p, n)" by (cases r)
  have "tok_kind t = Punctuator p" "substitutionBraces st1 = braces"
    using assms(1) Some r by (auto simp: lexPunctuation_def Let_def make_token_def)
  then show ?thesis
    using brace_characters [OF Some [unfolded r]] assms(3) unfolding assms(4) brace_step_def by (cases "substitutionBraces st = []") auto
qed

lemma lexTemplatePart_braces:
  assumes "lexTemplatePart b isHead st = (t, st1)" and "\<not> hasErrors (lex_diags st1)"
  shows "isHead \<Longrightarrow> brace_step (tok_kind t) (substitutionBraces st) = Some (substitutionBraces st1)"
    and "\<not> isHead \<Longrightarrow> brace_step (tok_kind t) (substitutionBraces st @ [0]) = Some (substitutionBraces st1)"
proof -
  obtain stop pos where e: "template_end (buffer_text b) (lex_pos st + 1) = (stop, pos)" by fastforce
  then show "isHead \<Longrightarrow> brace_step (tok_kind t) (substitutionBraces st) = Some (substitutionBraces st1)"
    and "\<not> isHead \<Longrightarrow> brace_step (tok_kind t) (substitutionBraces st @ [0]) = Some (substitutionBraces st1)"
    using assms by (cases stop; auto simp: lexTemplatePart_def Let_def make_token_def brace_step_def)+
qed

lemma lex_one_braces:
  assumes "lex_one b tokens st = (t, st1)" and "\<not> hasErrors (lex_diags st1)"
  shows "brace_step (tok_kind t) (substitutionBraces st) = Some (substitutionBraces st1)"
proof (cases rule: lex_one_cases [of b st tokens])
  case identifier_case
  then show ?thesis
    using assms(1) by (auto simp: lexIdentifierOrKeyword_def Let_def make_token_def intro!: brace_step_other split: option.splits)
next
  case private_name
  then show ?thesis using assms(1) by (auto simp: lexPrivateName_def Let_def make_token_def intro!: brace_step_other)
next
  case number
  then show ?thesis using assms(1) by (auto simp: lexNumber_def Let_def make_token_def intro!: brace_step_other)
next
  case quoted
  then show ?thesis using assms by (auto simp: lexString_def Let_def make_token_def intro!: brace_step_other split: if_splits)
next
  case template
  then show ?thesis using assms lexTemplatePart_braces(1) [of b True st t st1] by simp
next
  case regexp
  obtain closed pos where "regexp_end (buffer_text b) False (lex_pos st + 1) = (closed, pos)" by fastforce
  then show ?thesis using assms regexp by (cases closed) (auto simp: lexRegExp_def Let_def make_token_def intro!: brace_step_other)
next
  case resume
  have "butlast (substitutionBraces st) @ [0] = substitutionBraces st" using resume(2,3) by (metis append_butlast_last_id)
  then show ?thesis
    using assms resume(4) lexTemplatePart_braces(2) [of b False "st\<lparr>substitutionBraces := butlast (substitutionBraces st)\<rparr>" t st1] by simp
next
  case (punctuator braces)
  then show ?thesis using assms lexPunctuation_braces [of b braces st t st1] by simp
qed

lemma lex_loop_braces:
  assumes "lex_loop b tokens st = (r, nl, st1)" and "\<not> hasErrors (lex_diags st1)" and "braces_after tokens = Some (substitutionBraces st)"
  shows "braces_after r = Some (substitutionBraces st1)"
  using assms
proof (induction b tokens st rule: lex_loop.induct)
  case (1 b tokens st)
  obtain nl0 s0 where skip: "skipTrivia b st = (nl0, s0)" by fastforce
  have same: "substitutionBraces s0 = substitutionBraces st" using skip by (auto simp: skipTrivia_def split: prod.splits option.splits)
  show ?case
  proof (cases "lex_atEnd (buffer_text b) (lex_pos s0) \<or> hasErrors (lex_diags s0)")
    case True
    then show ?thesis using "1.prems"(1,3) skip same by (simp add: lex_loop.simps [of b tokens st])
  next
    case False
    obtain t s2 where one: "lex_one b tokens s0 = (t, s2)" by fastforce
    have rec: "lex_loop b (tokens @ [t\<lparr>newlineBefore := nl0\<rparr>]) s2 = (r, nl, st1)"
      using "1.prems"(1) skip one False by (simp add: lex_loop.simps [of b tokens st])
    have "\<not> hasErrors (lex_diags s2)" using lex_loop_keeps [OF rec] "1.prems"(2) by blast
    then have "braces_after (tokens @ [t\<lparr>newlineBefore := nl0\<rparr>]) = Some (substitutionBraces s2)"
      using lex_one_braces [OF one] "1.prems"(3) same by (simp add: braces_after_snoc)
    then show ?thesis by (rule "1.IH" [OF skip [symmetric] False one [symmetric] rec "1.prems"(2)])
  qed
qed

section \<open>Properties\<close>

text \<open>What \<open>lex\<close> answers, by its loop.\<close>

lemma lex_result:
  assumes "lex b diags = (tokens, st)"
  obtains r nl where "lex_loop b [] \<lparr>lex_pos = hashbang_end (buffer_text b), substitutionBraces = [], lex_diags = diags\<rparr> = (r, nl, st)"
    "tokens = r @ [eof_token b (lex_pos st) nl]"
  using assms by (auto simp: lex_def eof_token_def split: prod.splits)


text \<open>C38: Punctuation is read by the longest match: the switch answers the first of the 57 spellings, tried from the
  longest to the shortest, that the text begins with, where \<open>?.\<close> does not count before a digit; and that
  list holds every punctuator, in order of length.\<close>

theorem punctuation_longest:
  "punctuation txt pos = longest_punctuation (drop pos txt) \<and> p \<in> set longest_first \<and>
   sorted_wrt (\<lambda>p q. length (punctuatorName q) \<le> length (punctuatorName p)) longest_first"
  using punctuation_agrees longest_first_all longest_first_order by simp

text \<open>C39: Tokens are spelled as their kind: every keyword and every punctuator that the lexer answers has the text
  \<open>tokenKindName\<close> prints for its kind, and no identifier has the text of a keyword, with or without errors.\<close>

theorem tokens_spelled:
  assumes "lex b diags = (tokens, st)"
  shows "\<forall>t \<in> set tokens. spelled t"
proof (rule lex_result [OF assms])
  fix r nl
  assume l: "lex_loop b [] \<lparr>lex_pos = hashbang_end (buffer_text b), substitutionBraces = [], lex_diags = diags\<rparr> = (r, nl, st)"
    and t: "tokens = r @ [eof_token b (lex_pos st) nl]"
  have "spelled (t\<lparr>newlineBefore := n\<rparr>)" if "spelled t" for t n using that by (simp add: spelled_def cong: TokenKind.case_cong)
  then have "\<forall>t \<in> set r. spelled t" by (rule lex_loop_all [where P = spelled, OF l _ lex_one_spelled]) simp_all
  moreover have "spelled (eof_token b (lex_pos st) nl)" by (simp add: spelled_def eof_token_def)
  ultimately show ?thesis using t by auto
qed

text \<open>C40: Template literals nest: in a run that reports no error, a middle part or a tail of a template comes only where
  a substitution is open and every brace opened in it is closed, a \<open>}\<close> never comes there as a bracket, and
  the counters the lexer ends with are those of the substitutions its tokens leave open.\<close>

theorem templates_nest:
  assumes "lex b diags = (tokens, st)" and "\<not> hasErrors (lex_diags st)"
  shows "braces_after tokens = Some (substitutionBraces st)"
proof (rule lex_result [OF assms(1)])
  fix r nl
  assume l: "lex_loop b [] \<lparr>lex_pos = hashbang_end (buffer_text b), substitutionBraces = [], lex_diags = diags\<rparr> = (r, nl, st)"
    and "tokens = r @ [eof_token b (lex_pos st) nl]"
  moreover have "braces_after r = Some (substitutionBraces st)"
    using lex_loop_braces [OF l assms(2)] by (simp add: braces_after_def)
  ultimately show ?thesis by (simp add: braces_after_snoc eof_token_def brace_step_other)
qed

section \<open>Witnesses\<close>

definition source_of :: "string \<Rightarrow> SourceBuffer" where
  "source_of s = \<lparr>buffer_name = ''a.js'', buffer_text = s, fileId = 0\<rparr>"

text \<open>The template \<open>`x${{}}`\<close>, on the second line after a hashbang.\<close>

definition small_text :: string where
  "small_text = ''#!a'' @ [CHR 0x0A, CHR 0x60] @ ''x${{}}'' @ [CHR 0x60]"

definition small_tokens :: "Token list" where
  "small_tokens =
     [\<lparr>tok_kind = TemplateHead, tok_span = \<lparr>span_begin = 4, span_end = 8, span_file = 0\<rparr>, tok_text = CHR 0x60 # ''x${'', newlineBefore = True\<rparr>,
      \<lparr>tok_kind = Punctuator LBrace, tok_span = \<lparr>span_begin = 8, span_end = 9, span_file = 0\<rparr>, tok_text = ''{'', newlineBefore = False\<rparr>,
      \<lparr>tok_kind = Punctuator RBrace, tok_span = \<lparr>span_begin = 9, span_end = 10, span_file = 0\<rparr>, tok_text = ''}'', newlineBefore = False\<rparr>,
      \<lparr>tok_kind = TemplateTail, tok_span = \<lparr>span_begin = 10, span_end = 12, span_file = 0\<rparr>, tok_text = ''}'' @ [CHR 0x60], newlineBefore = False\<rparr>,
      \<lparr>tok_kind = EndOfFile, tok_span = \<lparr>span_begin = 12, span_end = 12, span_file = 0\<rparr>, tok_text = [], newlineBefore = False\<rparr>]"

lemma small_lex: "lex (source_of small_text) [] = (small_tokens, \<lparr>lex_pos = 12, substitutionBraces = [], lex_diags = []\<rparr>)"
  by code_simp


theorem tokens_spelled_witness: "list_all spelled small_tokens"
  using tokens_spelled [OF small_lex] by (simp add: list_all_iff)

theorem templates_nest_witness: "braces_after small_tokens = Some []"
  using templates_nest [OF small_lex] by (simp add: hasErrors_def)

section \<open>Where the code departs from its comments\<close>

text \<open>The slash after a private name is taken for the start of a regular expression, although \<open>a.#x\<close> ends an
  expression: \<open>a.#x / 2 / 3\<close> is read as \<open>a.#x\<close> and the literal \<open>/ 2 /\<close>.\<close>

theorem division_after_private_name:
  "map tok_kind (fst (lex (source_of ''a.#x / 2 / 3'') [])) = [Identifier, Punctuator Dot, PrivateName, RegExpLiteral, NumberLiteral, EndOfFile]"
  by code_simp

text \<open>A lone carriage return is a line terminator between tokens, but it ends no line comment and is not seen in a
  block comment.\<close>

theorem carriage_return_in_comments:
  "map tok_kind (fst (lex (source_of (''a //c'' @ [CHR 0x0D] @ ''b'')) [])) = [Identifier, EndOfFile] \<and>
   map newlineBefore (fst (lex (source_of (''a /*'' @ [CHR 0x0D] @ ''*/ b'')) [])) = [False, False, False] \<and>
   map newlineBefore (fst (lex (source_of (''a'' @ [CHR 0x0D] @ ''b'')) [])) = [False, True, False]"
  by (intro conjI) code_simp+

text \<open>The span of a literal that a backslash ends at the end of the source goes past it.\<close>

theorem span_past_end:
  "map tok_span (fst (lex (source_of [CHR 0x27, CHR 0x5C]) [])) =
     [\<lparr>span_begin = 0, span_end = 3, span_file = 0\<rparr>, \<lparr>span_begin = 3, span_end = 3, span_file = 0\<rparr>]"
  by code_simp

text \<open>The flags of a regular expression run on over any bytes outside ASCII: a no-break space after a literal, which is
  white space, becomes part of its flags.\<close>

theorem flags_take_white_space:
  "tok_text (fst (lexRegExp (source_of (''/a/'' @ [CHR 0xC2, CHR 0xA0])) \<lparr>lex_pos = 0, substitutionBraces = [], lex_diags = []\<rparr>)) =
     ''/a/'' @ [CHR 0xC2, CHR 0xA0]"
  by (simp add: lexRegExp_def regexp_end.simps Let_def source_of_def lex_peek_def lex_atEnd_def advance_while_def make_token_def sign_extended_def
      isIdentPart_def isIdentStart_def isUnicodeWhitespace_def isUnicodePunctuation_def)

end
