(* ===== verification/Spec2Isabelle.thy ===== *)
theory Spec2Isabelle
  imports BigNum_Bits BigNum_Text BigNum_Double Relational_Prover Json Set_Operations Regex_Compile Lexer_Facts
begin

text \<open>
  A verification development for bronze, an ahead-of-time compiler and runtime for JavaScript written
  in C++ (\<open>src/src\<close>).

  \<^bold>\<open>The program.\<close> The compiler lexes and parses a module, infers a type for every expression, lowers the
  syntax tree to an intermediate language and emits native code through the brass submodule. The
  runtime gives compiled code its values: NaN-boxed words on a collected heap, objects, strings, BigInts,
  maps and sets, JSON and regular expressions. The parts modelled here are those that carry the
  program's own algorithms and can be read without the submodules. The lexer reads the source and hands the
  parser its tokens. The inference uses the types of
  operators and the refinements of conditions; the runtime uses the numeric core for BigInt values, the
  hash table for \<open>Map\<close>, \<open>Set\<close> and the set operations, and the matcher for every regular expression.

  \<^bold>\<open>Arbitrary-precision integers\<close> (\<open>src/src/runtime/bignum.h\<close>, \<open>bignum.cpp\<close>). A \<open>BigNum\<close> is a sign and a
  little-endian vector of 32-bit limbs.
  \<^item> \<open>Prelude\<close>: the word types, the conversions between them, shared lemmas on words and lists.
  \<^item> \<open>Limbs\<close>, \<open>Limb_Arith\<close>: the loops over limbs and the value each one computes.
  \<^item> \<open>Knuth_Division\<close>: \<open>divmodMagnitude\<close>, algorithm D with its quotient estimate and add-back.
  \<^item> \<open>Integer_Interface\<close>: the locales \<open>exact_integer\<close> and \<open>exact_division\<close>, what callers rely on.
  \<^item> \<open>BigNum\<close>: the class, its interpretation in the interface, exactness of every operation, the
    places where a guard wraps in 64 bits.
  \<^item> \<open>BigNum_Bits\<close>, \<open>BigNum_Text\<close>, \<open>BigNum_Double\<close>: two's complement, radix text, conversions with doubles.
  Limbs are 32-bit words and the wrap-around of every intermediate is kept.

  \<^bold>\<open>Type inference\<close> (\<open>src/src/types\<close>). \<open>Type_Lattice\<close>: types, joins and parameter joins of \<open>type.h\<close> against the
  values a type stands for, and that repeated joins settle. \<open>Type_Env\<close>: the sorted environment of \<open>env.h\<close> as a
  map, and the merge of two edges. \<open>Operator_Types\<close>: the result type of every operator, sound for a
  relational account of what the operator may return. \<open>Relational_Prover\<close>: the refinements a branch
  condition gives on each edge, their application and undoing, sound for an evaluator of conditions.

  \<^bold>\<open>JSON\<close> (\<open>src/src/json\<close>). \<open>Json\<close>: the whole recursive-descent parser over UTF-16 units with its position,
  depth and first-error state; it accepts exactly the texts of the grammar that stay within the depth
  limit, and reports errors at a position inside the text. The recursion is bounded by the units left,
  which is its termination measure; \<open>strtod\<close> is a parameter.

  \<^bold>\<open>Map and Set\<close> (\<open>src/src/runtime/map.h\<close>, \<open>map.cpp\<close>, \<open>builtin_map*.cpp\<close>, \<open>builtin_set_ops.cpp\<close>).
  \<^item> \<open>Map_Keys\<close>: values as keys, their hash and SameValueZero.
  \<^item> \<open>Map_Table\<close>: entries, tombstones, the open-addressed index, growth and compaction, lookups and updates. A
    probe has as much fuel as the index has buckets; the lookups are shown to end within it.
  \<^item> \<open>Map_Index\<close>: the invariant of the table and what a moving collection may change under it.
  \<^item> \<open>Map_Refinement\<close>: the locales \<open>key_equality\<close> and \<open>ordered_map\<close>, interpreted on the table.
  \<^item> \<open>Map_Methods\<close>, \<open>Set_Operations\<close>: the prototype methods, iterators and the seven set operations.
  The collector is a parameter; its hypothesis \<open>collector_ok\<close> is what \<open>heap.h\<close> documents (objects stay apart and
  keep their contents, an object that may not move stays). Counts are natural numbers: the heap refuses
  blocks far below the width of the counters.

  \<^bold>\<open>Regular expressions\<close> (\<open>src/src/regex\<close>).
  \<^item> \<open>Regex_Chars\<close>: range lists and their set operations, UTF-16 decoding in both directions, canonicalisation.
  \<^item> \<open>Regex_Pattern\<close>: flags, pattern nodes, the sets of \<open>\d\<close>, \<open>\s\<close> and \<open>\w\<close>, the tests on one character. The locale
    \<open>case_index\<close> says what a reverse case table has to be, and is interpreted on the uppercase table.
  \<^item> \<open>Regex_Matcher\<close>: the class \<open>Matcher\<close> with its continuation chain, and \<open>matchAt\<close> and \<open>search\<close>. The recursion ends
    because every node costs a level of the depth limit and every continuation is shorter than the one
    that holds it; the step budget and the depth limit are those of the source.
  \<^item> \<open>Regex_Semantics\<close>: the outcomes of a pattern in order of preference, after ECMA-262 22.2.2, with one rule for
    every quantifier; that outcomes move in their direction and stay on character boundaries.
  \<^item> \<open>Regex_Correct\<close>: a rule for each combinator of the matcher and the induction that joins them.
  \<^item> \<open>Regex_Search\<close>: what the entry points promise.
  \<^item> \<open>Regex_Unicode\<close> (\<open>unicode.cpp\<close>): categories, scripts, script extensions and case folding over the generated
    tables, which are the record \<open>ucd\<close> with the order that the generator documents as hypothesis \<open>ucd_ok\<close>. The
    locale \<open>key_order\<close> is the binary search of the tables, interpreted on code points and on names.
  \<^item> \<open>Regex_Parser\<close> (\<open>parser_internal.h\<close>, \<open>parser.cpp\<close>, \<open>parser_class.cpp\<close>): the pre-scan of the groups, every
    reader of the class \<open>PatternParser\<close> and \<open>compile\<close>. A reader takes the fixed part of the parser, \<open>penv\<close>, and
    the cursor with the capture counter, \<open>pstate\<close>, and answers with an error and its index or with a value and
    the new state. The recursion takes the levels that are left of \<open>kMaxDepth\<close>, 256; the loops are \<open>while\<close>
    loops of the library.
  \<^item> \<open>Regex_Scan\<close>: what each reader consumes, that no loop stands still, that the pre-scan passes over the same text.
  \<^item> \<open>Regex_Groups\<close>: what the nodes are that the parser builds, by induction on the levels that are left.
  \<^item> \<open>Regex_Compile\<close>: a compiled pattern is well formed, its two counts of the groups agree, errors name indices
    of the pattern, the loops end, and searching with a compiled pattern finds the leftmost match.
  The theorems on the matcher assume \<open>node_ok\<close>, which the parser establishes (\<open>wf_node_ok\<close>), and, under \<open>u\<close>, that
  no backreference is matched backward and that matching starts on a character boundary. The native plan is
  a parameter.

  \<^bold>\<open>Source text and lexer\<close> (\<open>src/src/support\<close>, \<open>src/src/lex\<close>).
  \<^item> \<open>Source_Text\<close>: buffers, spans, line tables, diagnostics and their rendering, UTF-8, classes of characters.
  \<^item> \<open>Tokens\<close>: token kinds and their names. \<open>Lexer\<close>: the class \<open>Lexer\<close>; the loops are functions from positions to
    positions, which only move forward, and the inductive \<open>trivia\<close> is the grammar of what lies between tokens.
  \<^item> \<open>Lexer_Facts\<close>: a source without errors is laid out completely, punctuation is the longest match, tokens are
    spelled as their kind, template pieces nest.
  Positions are naturals, as the program keeps a text below 4 GB; \<open>char\<close> is signed, as on the targets.

  \<^bold>\<open>What goes wrong.\<close> Some theorems pin down behaviour that departs from what the code says of itself: the
  guards of shift and power that wrap, the join that depends on the order of its arguments, a stale
  refinement, entries an iteration misses after a compaction or a clear, the zero kept by \<open>Set.add\<close>, the
  fractional size, the folding of backreferences and the search started inside a surrogate pair; the slash
  after a private name, carriage returns in comments, spans that end past the source, flags that take in
  white space.

  \<^bold>\<open>Not modelled, and next.\<close> The native matcher of \<open>src/src/regex\<close>, which brass emits, and the
  generated Unicode tables; the parser of modules; the rest of the inference
  (the fixpoint over the syntax tree, class layout, escape analysis); the provers of \<open>src/src/check\<close> and the
  intermediate language they read; lowering, optimisation and native code generation, which rest on the
  brass submodule; the collector, a wrapper around brass; objects, properties and the other builtins;
  modules, evaluation, the command line and the embedding interface, which are mostly input and output.
\<close>

end
